(* ===== verification/Prelude.thy ===== *)
theory Prelude
  imports Main "HOL-Library.Word" "HOL-Library.Monad_Syntax"
begin

text \<open>
  Shared by every component: the machine types of the C code, checked array access, and the
  generic facts on lists and words the components use.

  Two layers of failure are kept apart all through the development.  A value the C code returns
  to signal an error (\<open>NULL\<close>, \<open>-1\<close>, \<open>EOF\<close>) or a call of \<open>exit()\<close> is a value of the model.  What
  the C standard leaves undefined (an array index out of range, a null pointer followed, an
  indeterminate byte read) and a loop that never ends are the value \<open>None\<close> of an outer
  \<open>option\<close>: a theorem that a function of type \<open>'a option\<close> gives \<open>Some\<close> therefore says that the
  code returns and stays inside its arrays.
\<close>

section \<open>Machine types\<close>

type_synonym u8 = "8 word"
type_synonym u16 = "16 word"
type_synonym u32 = "32 word"
type_synonym bits = "bool list"

text \<open>The predicate that says which request sizes the allocator grants.\<close>
type_synonym mem = "nat \<Rightarrow> bool"

unbundle bit_operations_syntax

section \<open>Collections of rewrite rules\<close>

named_theorems access_simps \<open>checked array access inside the bounds\<close>
named_theorems word_bits_simps \<open>words read bit by bit\<close>

section \<open>Checked array access\<close>

text \<open>\<open>a[i]\<close> as a value and \<open>a[i] = v\<close> as a statement of C: undefined out of range.\<close>

definition rd :: "'a list \<Rightarrow> nat \<Rightarrow> 'a option" where
  "rd xs i = (if i < length xs then Some (xs ! i) else None)"

definition wr :: "nat \<Rightarrow> 'a \<Rightarrow> 'a list \<Rightarrow> 'a list option" where
  "wr i v xs = (if i < length xs then Some (xs[i := v]) else None)"

lemma rd_in [access_simps]: "i < length xs \<Longrightarrow> rd xs i = Some (xs ! i)"
  by (simp add: rd_def)

lemma wr_in [access_simps]: "i < length xs \<Longrightarrow> wr i v xs = Some (xs[i := v])"
  by (simp add: wr_def)

lemma rd_SomeD: "rd xs i = Some x \<Longrightarrow> i < length xs \<and> x = xs ! i"
  by (simp add: rd_def split: if_splits)

lemma wr_SomeD: "wr i v xs = Some ys \<Longrightarrow> i < length xs \<and> ys = xs[i := v]"
  by (simp add: wr_def split: if_splits)

lemma length_wr: "wr i v xs = Some ys \<Longrightarrow> length ys = length xs"
  by (auto dest: wr_SomeD)

section \<open>Lists\<close>

lemma fold_list_update_length [simp]: "length (fold (\<lambda>i xs. xs[i := f i]) is xs) = length xs"
  by (induction "is" arbitrary: xs) simp_all

text \<open>A loop \<open>for (i = a; i < b; i++) x[i] = f(i);\<close> inside the array.\<close>

lemma nth_fold_list_update:
  assumes "j < length xs"
  shows "fold (\<lambda>i xs. xs[i := f i]) is xs ! j = (if j \<in> set is then f j else xs ! j)"
  using assms
proof (induction "is" arbitrary: xs)
  case Nil
  then show ?case by simp
next
  case (Cons i "is")
  have "fold (\<lambda>i xs. xs[i := f i]) is (xs[i := f i]) ! j
      = (if j \<in> set is then f j else xs[i := f i] ! j)"
    by (rule Cons.IH) (simp add: Cons.prems)
  then show ?case
    using Cons.prems by (auto simp: nth_list_update)
qed

text \<open>\<open>memmove(&xs[k+1], &xs[k], (j - k) * sizeof *xs); xs[k] = v;\<close> as one operation.\<close>

definition insert_at :: "nat \<Rightarrow> nat \<Rightarrow> 'a \<Rightarrow> 'a list \<Rightarrow> 'a list option" where
  "insert_at k j v xs =
     (if k \<le> j \<and> j < length xs
      then Some (take k xs @ v # take (j - k) (drop k xs) @ drop (Suc j) xs) else None)"

lemma length_insert_at: "insert_at k j v xs = Some ys \<Longrightarrow> length ys = length xs"
  by (auto simp: insert_at_def split: if_splits)

lemma nth_insert_at:
  assumes "k \<le> j" "j < length xs" "n < length xs"
  shows "(take k xs @ v # take (j - k) (drop k xs) @ drop (Suc j) xs) ! n =
    (if n < k then xs ! n else if n = k then v else if n \<le> j then xs ! (n - 1) else xs ! n)"
proof (cases "k < n")
  case True
  then obtain m where n: "n = Suc (k + m)"
    using less_imp_Suc_add by blast
  show ?thesis
    using assms n by (auto simp: nth_append nth_Cons' min_def add.commute)
next
  case False
  then show ?thesis
    using assms by (auto simp: nth_append nth_Cons' not_less)
qed

section \<open>Words\<close>

text \<open>A C string as bytes, and a byte as a character.\<close>

definition byte_of :: "char \<Rightarrow> u8" where
  "byte_of c = of_char c"

definition char_of_byte :: "u8 \<Rightarrow> char" where
  "char_of_byte w = char_of (unat w)"

lemma unat_byte_of: "unat (byte_of c) = of_char c"
proof -
  have "of_char c < (256 :: nat)"
    using of_char_mod_256 [of c, where ?'a = nat] mod_less_divisor [of 256 "of_char c :: nat"]
    by linarith
  moreover have "unat (of_nat (of_char c) :: u8) = of_char c mod 256"
    by (simp add: unat_of_nat)
  ultimately show ?thesis
    by (simp add: byte_of_def of_nat_of_char)
qed

lemma char_of_byte_of [simp]: "char_of_byte (byte_of c) = c"
  by (simp add: char_of_byte_def unat_byte_of)

lemma byte_of_char_of [simp]: "byte_of (char_of_byte w) = w"
proof -
  have "unat w < 256"
    using unsigned_less [of w] by simp
  then have "unat (byte_of (char_of_byte w)) = unat w"
    by (simp add: unat_byte_of char_of_byte_def)
  then show ?thesis by (simp only: unsigned_word_eqI)
qed

lemma ucast_u8_u32 [simp]: "ucast (ucast c :: u32) = (c :: u8)"
  by (rule bit_word_eqI) (simp add: bit_simps)

text \<open>
  Shifts of an \<open>unsigned int\<close>: undefined when the count is negative or at least the width.
\<close>

definition shl :: "int \<Rightarrow> u32 \<Rightarrow> u32 option" where
  "shl n w = (if 0 \<le> n \<and> n < 32 then Some (push_bit (nat n) w) else None)"

definition shr :: "int \<Rightarrow> u32 \<Rightarrow> u32 option" where
  "shr n w = (if 0 \<le> n \<and> n < 32 then Some (drop_bit (nat n) w) else None)"

lemma shl_in [access_simps]: "0 \<le> n \<Longrightarrow> n < 32 \<Longrightarrow> shl n w = Some (push_bit (nat n) w)"
  by (simp add: shl_def)

lemma shr_in [access_simps]: "0 \<le> n \<Longrightarrow> n < 32 \<Longrightarrow> shr n w = Some (drop_bit (nat n) w)"
  by (simp add: shr_def)

section \<open>Loops\<close>

text \<open>
  A loop with a state and an early exit: the body either goes on (\<open>Inl\<close> of the next state) or
  leaves the loop (\<open>Inr\<close> of the result).  A loop that does not end, or whose body is undefined,
  is \<open>None\<close>.
\<close>

partial_function (option) loop :: "('s \<Rightarrow> ('s + 'r) option) \<Rightarrow> 's \<Rightarrow> 'r option" where
  "loop body s = do { x \<leftarrow> body s; case x of Inl s' \<Rightarrow> loop body s' | Inr r \<Rightarrow> Some r }"

lemma loop_exit: "body s = Some (Inr r) \<Longrightarrow> loop body s = Some r"
  by (simp add: loop.simps)

lemma loop_next: "body s = Some (Inl s') \<Longrightarrow> loop body s = loop body s'"
  by (simp add: loop.simps [of body s])

text \<open>
  Total correctness: an invariant under which the body is defined and, where it goes on, keeps the
  invariant and decreases a measure.
\<close>

lemma loop_total:
  fixes m :: "'s \<Rightarrow> nat"
  assumes init: "I s"
    and body: "\<And>s. I s \<Longrightarrow> (\<exists>s'. body s = Some (Inl s') \<and> I s' \<and> m s' < m s) \<or>
                            (\<exists>r. body s = Some (Inr r) \<and> Q r)"
  shows "\<exists>r. loop body s = Some r \<and> Q r"
  using init
proof (induction "m s" arbitrary: s rule: less_induct)
  case less
  from body [OF less.prems] show ?case
    by (elim disjE exE conjE) (auto simp: loop_next loop_exit intro: less.hyps)
qed

text \<open>\<open>for (i = a; i < a + n; i++)\<close>: the body may be undefined.\<close>

fun for_up :: "(nat \<Rightarrow> 's \<Rightarrow> 's option) \<Rightarrow> nat \<Rightarrow> nat \<Rightarrow> 's \<Rightarrow> 's option" where
  "for_up f a 0 s = Some s"
| "for_up f a (Suc n) s = do { s' \<leftarrow> f a s; for_up f (Suc a) n s' }"

lemma for_up_total:
  assumes "P a s"
    and "\<And>i s. a \<le> i \<Longrightarrow> i < a + n \<Longrightarrow> P i s \<Longrightarrow> \<exists>s'. f i s = Some s' \<and> P (Suc i) s'"
  shows "\<exists>s'. for_up f a n s = Some s' \<and> P (a + n) s'"
  using assms
proof (induction n arbitrary: a s)
  case 0
  then show ?case by simp
next
  case (Suc n)
  obtain s1 where s1: "f a s = Some s1" "P (Suc a) s1"
    using Suc.prems(2) [of a s] Suc.prems(1) by auto
  have "\<exists>s'. for_up f (Suc a) n s1 = Some s' \<and> P (Suc a + n) s'"
    by (rule Suc.IH [OF s1(2)]) (rule Suc.prems(2); simp)
  with s1 show ?case by simp
qed

text \<open>Partial correctness, for a loop that is known to have returned.\<close>

lemma loop_partial:
  assumes ret: "loop body s = Some r" and init: "I s"
    and step: "\<And>s s'. I s \<Longrightarrow> body s = Some (Inl s') \<Longrightarrow> I s'"
    and leave: "\<And>s r. I s \<Longrightarrow> body s = Some (Inr r) \<Longrightarrow> Q r"
  shows "Q r"
proof -
  have "body = body \<longrightarrow> I s \<longrightarrow> Q r"
  proof (rule loop.raw_induct [where P = "\<lambda>b s r. b = body \<longrightarrow> I s \<longrightarrow> Q r", OF _ ret])
    fix lp b s r
    assume IH: "\<And>b s r. lp b s = Some r \<Longrightarrow> b = body \<longrightarrow> I s \<longrightarrow> Q r"
      and eq: "Option.bind (b s) (case_sum (lp b) Some) = Some r" 
    show "b = body \<longrightarrow> I s \<longrightarrow> Q r"
    proof (intro impI)
    assume b: "b = body" and I: "I s"
    from eq obtain x where x: "b s = Some x" "case_sum (lp b) Some x = Some r"
      by (auto simp: bind_eq_Some_conv)
    show "Q r"
    proof (cases x)
      case (Inl s')
      with x b I IH step show ?thesis by auto
    next
      case (Inr r')
      with x b I leave show ?thesis by auto
    qed
    qed
  qed
  with init show ?thesis by simp
qed

section \<open>Byte sinks and byte sources\<close>

text \<open>
  What every producer of bytes relies on: a sink either takes the byte, and the bytes it stands
  for grow by exactly that byte, or it reports \<open>-1\<close> and is unchanged.
\<close>

fun put_all :: "('s \<Rightarrow> u8 \<Rightarrow> int \<times> 's) \<Rightarrow> 's \<Rightarrow> u8 list \<Rightarrow> int \<times> 's" where
  "put_all put s [] = (0, s)"
| "put_all put s (c # cs) =
     (case put s c of (r, s') \<Rightarrow> if r \<noteq> 0 then (r, s') else put_all put s' cs)"

locale byte_sink =
  fixes put :: "'s \<Rightarrow> u8 \<Rightarrow> int \<times> 's"
    and bytes :: "'s \<Rightarrow> u8 list"
    and inv :: "'s \<Rightarrow> bool"
    and room :: "nat \<Rightarrow> bool"
  assumes put_ok: "inv s \<Longrightarrow> put s c = (0, s') \<Longrightarrow> inv s' \<and> bytes s' = bytes s @ [c]"
    and put_fail: "inv s \<Longrightarrow> put s c = (r, s') \<Longrightarrow> r \<noteq> 0 \<Longrightarrow> r = -1 \<and> s' = s"
    and put_room: "inv s \<Longrightarrow> room (Suc (length (bytes s))) \<Longrightarrow> fst (put s c) = 0"
begin

lemma put_success:
  assumes "inv s" "room (Suc (length (bytes s)))"
  shows "\<exists>s'. put s c = (0, s') \<and> inv s' \<and> bytes s' = bytes s @ [c]"
  using put_ok [OF assms(1)] put_room [OF assms] by (metis prod.collapse)

lemma put_all_ok:
  "inv s \<Longrightarrow> put_all put s cs = (0, s') \<Longrightarrow> inv s' \<and> bytes s' = bytes s @ cs"
proof (induction cs arbitrary: s)
  case Nil
  then show ?case by simp
next
  case (Cons c cs)
  obtain r t where t: "put s c = (r, t)" by fastforce
  with Cons.prems have r: "r = 0" "put_all put t cs = (0, s')"
    by (auto split: if_splits)
  with t Cons.prems have "inv t \<and> bytes t = bytes s @ [c]"
    using put_ok by blast
  with Cons.IH r show ?case by fastforce
qed

lemma put_all_room:
  "inv s \<Longrightarrow> (\<And>k. k \<le> length (bytes s) + length cs \<Longrightarrow> room k) \<Longrightarrow>
   \<exists>s'. put_all put s cs = (0, s') \<and> inv s' \<and> bytes s' = bytes s @ cs"
proof (induction cs arbitrary: s)
  case Nil
  then show ?case by simp
next
  case (Cons c cs)
  have "room (Suc (length (bytes s)))"
    by (rule Cons.prems(2)) simp
  then obtain t where t: "put s c = (0, t)" "inv t" "bytes t = bytes s @ [c]"
    using put_success [OF Cons.prems(1)] by blast
  have "\<exists>s'. put_all put t cs = (0, s') \<and> inv s' \<and> bytes s' = bytes t @ cs"
    by (rule Cons.IH) (use t Cons.prems(2) in auto)
  with t show ?case by simp
qed

end

text \<open>A source hands out its remaining bytes one by one and then reports the end for ever.\<close>

locale byte_source =
  fixes get :: "'s \<Rightarrow> (u8 option \<times> 's) option"
    and rest :: "'s \<Rightarrow> u8 list"
    and inv :: "'s \<Rightarrow> bool"
  assumes get_end: "inv s \<Longrightarrow> rest s = [] \<Longrightarrow> get s = Some (None, s)"
    and get_byte: "inv s \<Longrightarrow> rest s = c # cs \<Longrightarrow>
          \<exists>s'. get s = Some (Some c, s') \<and> inv s' \<and> rest s' = cs"
begin

text \<open>Reading never fails, and what it returns together with what is left is what was there.\<close>

lemma get_total:
  assumes "inv s"
  shows "\<exists>c s'. get s = Some (c, s') \<and> inv s' \<and>
    rest s = (case c of None \<Rightarrow> rest s' | Some x \<Rightarrow> x # rest s')"
proof (cases "rest s")
  case Nil
  with get_end [OF assms] assms show ?thesis by (intro exI [of _ None] exI [of _ s]) simp
next
  case (Cons c cs)
  then obtain s' where "get s = Some (Some c, s')" "inv s'" "rest s' = cs"
    using get_byte [OF assms Cons] by blast
  with Cons show ?thesis by (intro exI [of _ "Some c"] exI [of _ s']) simp
qed

lemma get_cases [consumes 1, case_names eof byte]:
  assumes "inv s"
  obtains "rest s = []" "get s = Some (None, s)"
  | c s' where "rest s = c # rest s'" "get s = Some (Some c, s')" "inv s'"
  using get_end [OF assms] get_byte [OF assms] by (cases "rest s") blast+

end

end
