(* ===== verification/Buffer.thy ===== *)
theory Buffer
  imports Prelude
begin

text \<open>
  The growable byte buffer of buffer.c.  A \<^theory_text>\<open>record\<close> field per member of
  \<open>struct buffer\<close>; the storage is a list of \<open>u8 option\<close>, where \<open>None\<close> is a byte that
  \<open>malloc\<close> or \<open>realloc\<close> returned and nothing has written yet.  \<open>malloc\<close> is the parameter
  \<open>mem\<close>: the request sizes it grants.  The abstraction \<open>contents\<close> is the byte string the
  buffer stands for, and every operation is characterised by its effect on it.
\<close>

section \<open>The data and the operations\<close>

record buffer =
  alen :: nat
  dlen :: nat
  bpos :: nat
  data :: "u8 option list"

text \<open>The C library refuses every request above \<open>PTRDIFF_MAX\<close>.\<close>

definition granted :: "mem \<Rightarrow> nat \<Rightarrow> bool" where
  "granted mem n \<longleftrightarrow> n < 2 ^ 63 \<and> mem n"

definition sizeof_buffer :: nat where
  "sizeof_buffer = 32"

definition buffer_new :: "mem \<Rightarrow> buffer option" where
  "buffer_new mem =
     (if \<not> granted mem sizeof_buffer then None
      else if \<not> granted mem 1 then None
      else Some \<lparr>alen = 1, dlen = 0, bpos = 0, data = [None]\<rparr>)"

text \<open>\<open>buffer_free\<close> follows its argument, so it is undefined on \<open>NULL\<close>.\<close>

definition buffer_free :: "buffer option \<Rightarrow> unit option" where
  "buffer_free b = (case b of None \<Rightarrow> None | Some _ \<Rightarrow> Some ())"

text \<open>
  \<open>int\<close> results are kept as they are: \<open>0\<close> for success, \<open>-1\<close> (that is \<open>EOF\<close>) for failure.
  The character argument is an \<open>int\<close>, stored through the cast to \<open>unsigned char\<close>.
\<close>

definition buffer_addchar :: "mem \<Rightarrow> buffer \<Rightarrow> u32 \<Rightarrow> int \<times> buffer" where
  "buffer_addchar mem b c =
     (if dlen b = alen b then
        let newlen = (alen b * 2) mod 2 ^ 64 in
        if \<not> granted mem newlen then (-1, b)
        else (0, b\<lparr>data := (take newlen (data b) @ replicate (newlen - alen b) None)[dlen b := Some (ucast c)],
                    alen := newlen, dlen := dlen b + 1\<rparr>)
      else (0, b\<lparr>data := (data b)[dlen b := Some (ucast c)], dlen := dlen b + 1\<rparr>))"

text \<open>A C string argument is given as the bytes before its terminating NUL.\<close>

fun buffer_addstring :: "mem \<Rightarrow> buffer \<Rightarrow> u8 list \<Rightarrow> int \<times> buffer" where
  "buffer_addstring mem b [] = (0, b)"
| "buffer_addstring mem b (c # s) =
     (case buffer_addchar mem b (ucast c) of
        (r, b') \<Rightarrow> if r \<noteq> 0 then (r, b') else buffer_addstring mem b' s)"

definition buffer_rewind :: "buffer \<Rightarrow> buffer" where
  "buffer_rewind b = b\<lparr>bpos := 0\<rparr>"

text \<open>\<open>EOF\<close> is \<open>None\<close> in the inner option; the outer one is \<open>None\<close> for an indeterminate byte.\<close>

definition buffer_iterchar :: "buffer \<Rightarrow> (u8 option \<times> buffer) option" where
  "buffer_iterchar b =
     (if bpos b \<ge> dlen b then Some (None, b)
      else do { v \<leftarrow> rd (data b) (bpos b);
                c \<leftarrow> v;
                Some (Some c, b\<lparr>bpos := bpos b + 1\<rparr>) })"

definition buffer_lastchar :: "buffer \<Rightarrow> u8 option option" where
  "buffer_lastchar b =
     (if dlen b = 0 then Some None
      else do { v \<leftarrow> rd (data b) (dlen b - 1); c \<leftarrow> v; Some (Some c) })"

definition buffer_truncate :: "buffer \<Rightarrow> buffer" where
  "buffer_truncate b = b\<lparr>dlen := 0\<rparr>"

definition buffer_setstring :: "mem \<Rightarrow> buffer \<Rightarrow> u8 list \<Rightarrow> int \<times> buffer" where
  "buffer_setstring mem b s = buffer_addstring mem (buffer_truncate b) s"

text \<open>
  \<open>buffer_addbuf\<close> ignores the result of \<open>buffer_addchar\<close>, so it always returns 0.  The loop runs
  once per remaining character of \<open>s\<close>; the function below is that loop.
\<close>

function buffer_addbuf_loop :: "mem \<Rightarrow> buffer \<Rightarrow> buffer \<Rightarrow> (buffer \<times> buffer) option" where
  "buffer_addbuf_loop mem b s =
     (case buffer_iterchar s of
        None \<Rightarrow> None
      | Some (None, s') \<Rightarrow> Some (b, s')
      | Some (Some c, s') \<Rightarrow> buffer_addbuf_loop mem (snd (buffer_addchar mem b (ucast c))) s')"
  by pat_completeness auto
termination
  by (relation "measure (\<lambda>(_, _, s). dlen s - bpos s)")
     (auto simp: buffer_iterchar_def split: if_splits bind_splits)

definition buffer_addbuf :: "mem \<Rightarrow> buffer \<Rightarrow> buffer \<Rightarrow> (int \<times> buffer \<times> buffer) option" where
  "buffer_addbuf mem b s =
     map_option (\<lambda>(b', s'). (0, b', s')) (buffer_addbuf_loop mem b (buffer_rewind s))"

text \<open>
  \<open>strdup((const char *) b->data)\<close> reads the storage up to its first NUL byte; reading past the
  storage, or an indeterminate byte, is undefined.
\<close>

fun cstring :: "u8 option list \<Rightarrow> u8 list option" where
  "cstring [] = None"
| "cstring (None # _) = None"
| "cstring (Some c # xs) = (if c = 0 then Some [] else map_option ((#) c) (cstring xs))"

text \<open>\<open>strdup\<close>: the copy, or \<open>NULL\<close> (the inner \<open>None\<close>) when its memory is refused.\<close>

definition strdup_storage :: "mem \<Rightarrow> u8 option list \<Rightarrow> u8 list option option" where
  "strdup_storage mem xs =
     do { s \<leftarrow> cstring xs; Some (if granted mem (length s + 1) then Some s else None) }"

definition buffer_getstring :: "mem \<Rightarrow> buffer \<Rightarrow> u8 list option option" where
  "buffer_getstring mem b = strdup_storage mem (data b)"

text \<open>
  The \<open>for (;;)\<close> loop of \<open>buffer_getline\<close>: \<open>t\<close> is the line so far, \<open>c\<close> the character in hand.
  It ends at the terminator or at the end of the buffer.
\<close>

function buffer_getline_loop ::
    "mem \<Rightarrow> u8 \<Rightarrow> buffer \<Rightarrow> u8 \<Rightarrow> buffer \<Rightarrow> (buffer \<times> buffer) option" where
  "buffer_getline_loop mem terminator t c b =
     (let t' = snd (buffer_addchar mem t (ucast c)) in
      if c = terminator then Some (t', b)
      else case buffer_iterchar b of
        None \<Rightarrow> None
      | Some (None, b') \<Rightarrow> Some (t', b')
      | Some (Some c', b') \<Rightarrow> buffer_getline_loop mem terminator t' c' b')"
  by pat_completeness auto
termination
  by (relation "measure (\<lambda>(_, _, _, _, b). dlen b - bpos b)")
     (auto simp: buffer_iterchar_def split: if_splits bind_splits)

definition buffer_getline :: "mem \<Rightarrow> buffer \<Rightarrow> u8 \<Rightarrow> (u8 list option \<times> buffer) option" where
  "buffer_getline mem b terminator =
     (case buffer_new mem of
        None \<Rightarrow> Some (None, b)
      | Some t \<Rightarrow>
          (case buffer_iterchar b of
             None \<Rightarrow> None
           | Some (None, b') \<Rightarrow> Some (None, b')
           | Some (Some c, b') \<Rightarrow>
               do { (t', b'') \<leftarrow> buffer_getline_loop mem terminator t c b';
                    s \<leftarrow> strdup_storage mem (data (snd (buffer_addchar mem t' 0)));
                    Some (s, b'') }))"

definition buffer_length :: "buffer \<Rightarrow> nat" where
  "buffer_length b = dlen b"

text \<open>
  Files.  What \<open>fopen(path, "rb")\<close> gives is the argument: \<open>None\<close> when it fails, otherwise the
  bytes of the file and whether the final \<open>fclose\<close> succeeds.
\<close>

fun buffer_readfile_loop :: "mem \<Rightarrow> buffer \<Rightarrow> u8 list \<Rightarrow> buffer option" where
  "buffer_readfile_loop mem b [] = Some b"
| "buffer_readfile_loop mem b (c # cs) =
     (case buffer_addchar mem b (ucast c) of
        (r, b') \<Rightarrow> if r = -1 then None else buffer_readfile_loop mem b' cs)"

definition buffer_readfile :: "mem \<Rightarrow> (u8 list \<times> bool) option \<Rightarrow> buffer option" where
  "buffer_readfile mem file =
     (case file of
        None \<Rightarrow> None
      | Some (content, close_ok) \<Rightarrow>
          (case buffer_new mem of
             None \<Rightarrow> None
           | Some b \<Rightarrow>
               (case buffer_readfile_loop mem b content of
                  None \<Rightarrow> None
                | Some b' \<Rightarrow> if \<not> close_ok then None else Some b')))"

text \<open>
  Writing: \<open>space\<close> is how many bytes \<open>fputc\<close> takes before it fails; the result carries the bytes
  written so far.
\<close>

function buffer_writefile_loop ::
    "nat \<Rightarrow> u8 list \<Rightarrow> buffer \<Rightarrow> (int \<times> u8 list \<times> buffer) option" where
  "buffer_writefile_loop space out b =
     (case buffer_iterchar b of
        None \<Rightarrow> None
      | Some (None, b') \<Rightarrow> Some (0, out, b')
      | Some (Some c, b') \<Rightarrow>
          if length out \<ge> space then Some (-1, out, b')
          else buffer_writefile_loop space (out @ [c]) b')"
  by pat_completeness auto
termination
  by (relation "measure (\<lambda>(_, _, b). dlen b - bpos b)")
     (auto simp: buffer_iterchar_def split: if_splits bind_splits)

definition buffer_writefile ::
    "bool \<Rightarrow> nat \<Rightarrow> bool \<Rightarrow> buffer \<Rightarrow> (int \<times> u8 list \<times> buffer) option" where
  "buffer_writefile open_ok space close_ok b =
     (if \<not> open_ok then Some (-1, [], b)
      else do { (r, out, b') \<leftarrow> buffer_writefile_loop space [] (buffer_rewind b);
                Some (if r \<noteq> 0 then -1 else if \<not> close_ok then -1 else 0, out, b') })"

text \<open>The loop \<open>while ((c = buffer_iterchar(b)) != EOF) putc(c, fp);\<close> of the programs: the bytes it reads.\<close>

function read_all :: "buffer \<Rightarrow> u8 list option" where
  "read_all b =
     (case buffer_iterchar b of
        None \<Rightarrow> None
      | Some (None, _) \<Rightarrow> Some []
      | Some (Some c, b') \<Rightarrow> map_option ((#) c) (read_all b'))"
  by pat_completeness auto
termination
  by (relation "measure (\<lambda>b. dlen b - bpos b)")
     (auto simp: buffer_iterchar_def split: if_splits bind_splits)

declare buffer_addbuf_loop.simps [simp del] buffer_getline_loop.simps [simp del]
  buffer_writefile_loop.simps [simp del] read_all.simps [simp del]

section \<open>The bytes a buffer stands for\<close>

definition contents :: "buffer \<Rightarrow> u8 list" where
  "contents b = map the (take (dlen b) (data b))"

definition unread :: "buffer \<Rightarrow> u8 list" where
  "unread b = drop (bpos b) (contents b)"

text \<open>
  The representation invariant: the allocation has its recorded length, never wraps, and every
  byte below \<open>dlen\<close> has been written.
\<close>

definition buffer_inv :: "buffer \<Rightarrow> bool" where
  "buffer_inv b \<longleftrightarrow> length (data b) = alen b \<and> dlen b \<le> alen b \<and> 0 < alen b \<and> alen b < 2 ^ 63 \<and>
     (\<forall>i < dlen b. data b ! i \<noteq> None)"

text \<open>All requests up to \<open>n\<close> bytes are granted.\<close>

definition plenty :: "mem \<Rightarrow> nat \<Rightarrow> bool" where
  "plenty mem n \<longleftrightarrow> (\<forall>k \<le> n. granted mem k)"

lemma plenty_le: "plenty mem n \<Longrightarrow> m \<le> n \<Longrightarrow> plenty mem m"
  by (auto simp: plenty_def)

lemma plenty_all: "n < 2 ^ 63 \<Longrightarrow> plenty (\<lambda>_. True) n"
  by (simp add: plenty_def granted_def)

lemma plenty_granted: "plenty mem n \<Longrightarrow> k \<le> n \<Longrightarrow> granted mem k"
  by (simp add: plenty_def)

lemma length_contents [simp]: "buffer_inv b \<Longrightarrow> length (contents b) = dlen b"
  by (simp add: contents_def buffer_inv_def)

lemma buffer_new_fresh:
  "buffer_new mem = Some b \<Longrightarrow> buffer_inv b \<and> contents b = [] \<and> bpos b = 0 \<and> dlen b = 0"
  by (auto simp: buffer_new_def buffer_inv_def contents_def split: if_splits)

lemma buffer_new_plenty:
  assumes "plenty mem n" "32 \<le> n"
  shows "\<exists>b. buffer_new mem = Some b"
  using assms by (auto simp: buffer_new_def plenty_def sizeof_buffer_def)

section \<open>Appending a byte\<close>

lemma buffer_addchar_fail:
  "buffer_addchar mem b c = (r, b') \<Longrightarrow> r \<noteq> 0 \<Longrightarrow> r = -1 \<and> b' = b"
  by (auto simp: buffer_addchar_def Let_def split: if_splits)

lemma buffer_addchar_storage:
  assumes inv: "buffer_inv b" and ok: "buffer_addchar mem b c = (0, b')"
  shows "dlen b' = Suc (dlen b) \<and> bpos b' = bpos b \<and> dlen b' \<le> alen b' \<and> alen b' < 2 ^ 63 \<and>
    length (data b') = alen b' \<and>
    (\<forall>i < dlen b. data b' ! i = data b ! i) \<and> data b' ! dlen b = Some (ucast c)"
proof (cases "dlen b = alen b")
  case False
  with assms show ?thesis
    by (auto simp: buffer_addchar_def buffer_inv_def)
next
  case True
  have new: "(alen b * 2) mod 2 ^ 64 = alen b * 2"
    using inv by (simp add: buffer_inv_def)
  with True ok have g: "granted mem (alen b * 2)"
    by (auto simp: buffer_addchar_def Let_def split: if_splits)
  with True new ok have b': "b' = b\<lparr>data := (data b @ replicate (alen b) None)[dlen b := Some (ucast c)],
      alen := alen b * 2, dlen := Suc (dlen b)\<rparr>"
    using inv by (simp add: buffer_addchar_def Let_def buffer_inv_def)
  show ?thesis
    using inv g True by (auto simp: b' buffer_inv_def granted_def nth_append)
qed

lemma buffer_addchar_ok:
  assumes inv: "buffer_inv b" and ok: "buffer_addchar mem b c = (0, b')"
  shows "buffer_inv b' \<and> contents b' = contents b @ [ucast c] \<and> bpos b' = bpos b"
proof -
  note st = buffer_addchar_storage [OF assms]
  have inv': "buffer_inv b'"
    using st inv by (auto simp: buffer_inv_def less_Suc_eq)
  moreover have "contents b' = contents b @ [ucast c]"
  proof (rule nth_equalityI)
    show "length (contents b') = length (contents b @ [ucast c])"
      using inv inv' st by simp
    fix i assume "i < length (contents b')"
    then have "i < Suc (dlen b)" using inv' st by simp
    then show "contents b' ! i = (contents b @ [ucast c]) ! i"
      using st inv inv' by (auto simp: contents_def nth_append less_Suc_eq buffer_inv_def)
  qed
  ultimately show ?thesis using st by simp
qed

lemma buffer_addchar_plenty:
  assumes "buffer_inv b" "plenty mem (2 * Suc (dlen b))"
  shows "fst (buffer_addchar mem b c) = 0"
  using assms by (auto simp: buffer_addchar_def Let_def plenty_def buffer_inv_def)

text \<open>A buffer is a byte sink; the facts about strings and copies follow from the interface.\<close>

interpretation buf: byte_sink "\<lambda>b c. buffer_addchar mem b (ucast c)" contents buffer_inv
  "\<lambda>n. plenty mem (2 * n)"
proof unfold_locales
  fix s s' :: buffer and c :: u8 and r :: int
  assume inv: "buffer_inv s"
  show "buffer_addchar mem s (ucast c) = (0, s') \<Longrightarrow> buffer_inv s' \<and> contents s' = contents s @ [c]"
    using buffer_addchar_ok [OF inv] by fastforce
  show "buffer_addchar mem s (ucast c) = (r, s') \<Longrightarrow> r \<noteq> 0 \<Longrightarrow> r = - 1 \<and> s' = s"
    by (rule buffer_addchar_fail)
  show "plenty mem (2 * Suc (length (contents s))) \<Longrightarrow> fst (buffer_addchar mem s (ucast c)) = 0"
    using inv by (intro buffer_addchar_plenty) simp_all
qed

lemma buffer_addstring_put_all:
  "buffer_addstring mem b s = put_all (\<lambda>b c. buffer_addchar mem b (ucast c)) b s"
  by (induction s arbitrary: b) (auto split: prod.split)

section \<open>Reading\<close>

lemma buffer_inv_rewind [simp]: "buffer_inv (buffer_rewind b) = buffer_inv b"
  by (simp add: buffer_rewind_def buffer_inv_def)

lemma contents_rewind [simp]: "contents (buffer_rewind b) = contents b"
  by (simp add: buffer_rewind_def contents_def)

lemma unread_rewind [simp]: "unread (buffer_rewind b) = contents b"
  by (simp add: buffer_rewind_def contents_def unread_def)

interpretation src: byte_source buffer_iterchar unread buffer_inv
proof unfold_locales
  fix s :: buffer and c cs
  assume inv: "buffer_inv s"
  show "unread s = [] \<Longrightarrow> buffer_iterchar s = Some (None, s)"
    using inv by (simp add: unread_def buffer_iterchar_def)
  assume u: "unread s = c # cs"
  then have i: "bpos s < dlen s"
    using inv by (metis drop_all leI length_contents list.distinct(1) unread_def)
  have c: "contents s ! bpos s = c" and cs: "drop (Suc (bpos s)) (contents s) = cs"
    using u i inv by (simp_all add: unread_def Cons_nth_drop_Suc [symmetric])
  have "data s ! bpos s = Some c"
    using i inv c by (auto simp: contents_def buffer_inv_def)
  then show "\<exists>s'. buffer_iterchar s = Some (Some c, s') \<and> buffer_inv s' \<and> unread s' = cs"
    using i inv cs
    by (auto simp: buffer_iterchar_def buffer_inv_def access_simps unread_def contents_def)
qed

lemma buffer_iterchar_contents:
  "buffer_iterchar b = Some (c, b') \<Longrightarrow> contents b' = contents b"
  by (auto simp: buffer_iterchar_def contents_def split: if_splits bind_splits)

section \<open>Whole-buffer operations\<close>

lemma read_all_unread: "buffer_inv b \<Longrightarrow> read_all b = Some (unread b)"
proof (induction "unread b" arbitrary: b)
  case Nil
  then show ?case using src.get_end [OF Nil.prems] by (simp add: read_all.simps [of b])
next
  case (Cons c cs)
  obtain b' where b': "buffer_iterchar b = Some (Some c, b')" "buffer_inv b'" "unread b' = cs"
    using src.get_byte [OF Cons.prems Cons.hyps(2) [symmetric]] by blast
  with Cons.hyps(1) [OF b'(3) [symmetric] b'(2)] Cons.hyps(2) show ?case by (simp add: read_all.simps [of b])
qed

lemma buffer_addstring_plenty:
  assumes "buffer_inv b" "plenty mem (2 * (dlen b + length s))"
  shows "\<exists>b'. buffer_addstring mem b s = (0, b') \<and> buffer_inv b' \<and> contents b' = contents b @ s"
proof -
  have "plenty mem (2 * k)" if "k \<le> length (contents b) + length s" for k
    using assms that by (auto simp: plenty_def)
  then show ?thesis
    unfolding buffer_addstring_put_all by (rule buf.put_all_room [OF assms(1)])
qed

lemma buffer_addbuf_loop_contents:
  assumes "buffer_inv b" "buffer_inv s" "plenty mem (2 * (dlen b + length (unread s)))"
  shows "\<exists>b' s'. buffer_addbuf_loop mem b s = Some (b', s') \<and> buffer_inv b' \<and> buffer_inv s' \<and>
    contents b' = contents b @ unread s \<and> unread s' = [] \<and> contents s' = contents s"
  using assms
proof (induction "unread s" arbitrary: b s)
  case Nil
  then have "buffer_iterchar s = Some (None, s)"
    by (simp add: src.get_end)
  with Nil show ?case by (simp add: buffer_addbuf_loop.simps [of mem b s])
next
  case (Cons c cs)
  obtain s1 where s1: "buffer_iterchar s = Some (Some c, s1)" "buffer_inv s1" "unread s1 = cs"
    using src.get_byte [OF Cons.prems(2) Cons.hyps(2) [symmetric]] by blast
  have "plenty mem (2 * Suc (length (contents b)))"
    using Cons.prems Cons.hyps(2) [symmetric] by (auto simp: plenty_def)
  then obtain b1 where b1: "buffer_addchar mem b (ucast c) = (0, b1)" "buffer_inv b1"
      "contents b1 = contents b @ [c]"
    using buf.put_success [OF Cons.prems(1)] by blast
  have len: "dlen b1 = Suc (dlen b)"
    using b1 Cons.prems(1) by (metis length_append_singleton length_contents)
  have "plenty mem (2 * (dlen b1 + length (unread s1)))"
    using Cons.prems(3) Cons.hyps(2) [symmetric] s1 len by (simp add: plenty_def)
  with Cons.hyps(1) [OF s1(3) [symmetric] b1(2) s1(2)] obtain b' s' where
    "buffer_addbuf_loop mem b1 s1 = Some (b', s') \<and> buffer_inv b' \<and> buffer_inv s' \<and>
     contents b' = contents b1 @ unread s1 \<and> unread s' = [] \<and> contents s' = contents s1"
    by blast
  moreover have "contents s1 = contents s"
    using s1(1) by (rule buffer_iterchar_contents)
  ultimately show ?case
    using s1 b1 Cons.hyps(2) [symmetric] by (simp add: buffer_addbuf_loop.simps [of mem b s])
qed

text \<open>One line: up to and including the first terminator, or all there is.\<close>

definition line_of :: "u8 \<Rightarrow> u8 list \<Rightarrow> u8 list" where
  "line_of t xs = takeWhile (\<lambda>c. c \<noteq> t) xs @ (if t \<in> set xs then [t] else [])"

definition after_line :: "u8 \<Rightarrow> u8 list \<Rightarrow> u8 list" where
  "after_line t xs = drop (length (line_of t xs)) xs"

lemma line_of_Cons:
  "line_of t (c # cs) = (if c = t then [c] else c # line_of t cs)"
  by (auto simp: line_of_def)

lemma after_line_Cons:
  "after_line t (c # cs) = (if c = t then cs else after_line t cs)"
  by (auto simp: after_line_def line_of_Cons)

lemma line_of_Nil [simp]: "line_of t [] = []" and after_line_Nil [simp]: "after_line t [] = []"
  by (simp_all add: line_of_def after_line_def)

lemma line_of_after_line [simp]: "line_of t xs @ after_line t xs = xs"
  by (induction xs) (auto simp: line_of_Cons after_line_Cons)

lemma buffer_getline_loop_line:
  assumes "buffer_inv t" "buffer_inv b" "plenty mem (2 * (Suc (dlen t) + length (unread b)))"
  shows "\<exists>t' b'. buffer_getline_loop mem tm t c b = Some (t', b') \<and> buffer_inv t' \<and> buffer_inv b' \<and>
    contents t' = contents t @ line_of tm (c # unread b) \<and>
    unread b' = after_line tm (c # unread b) \<and> contents b' = contents b"
  using assms
proof (induction "unread b" arbitrary: b t c)
  case Nil
  have "plenty mem (2 * Suc (length (contents t)))"
    using Nil.prems by (auto simp: plenty_def)
  then obtain t1 where t1: "buffer_addchar mem t (ucast c) = (0, t1)" "buffer_inv t1"
      "contents t1 = contents t @ [c]"
    using buf.put_success [OF Nil.prems(1)] by blast
  have "buffer_iterchar b = Some (None, b)"
    using Nil by (simp add: src.get_end)
  with t1 Nil show ?case
    by (auto simp: buffer_getline_loop.simps [of mem tm t c b] line_of_Cons after_line_Cons)
next
  case (Cons d ds)
  have "plenty mem (2 * Suc (length (contents t)))"
    using Cons.prems by (auto simp: plenty_def)
  then obtain t1 where t1: "buffer_addchar mem t (ucast c) = (0, t1)" "buffer_inv t1"
      "contents t1 = contents t @ [c]"
    using buf.put_success [OF Cons.prems(1)] by blast
  have len: "dlen t1 = Suc (dlen t)"
    using t1 Cons.prems(1) by (metis length_append_singleton length_contents)
  obtain b1 where b1: "buffer_iterchar b = Some (Some d, b1)" "buffer_inv b1" "unread b1 = ds"
    using src.get_byte [OF Cons.prems(2) Cons.hyps(2) [symmetric]] by blast
  have cb: "contents b1 = contents b"
    using b1(1) by (rule buffer_iterchar_contents)
  show ?case
  proof (cases "c = tm")
    case True
    with t1 Cons.prems Cons.hyps(2) [symmetric] show ?thesis
      by (simp add: buffer_getline_loop.simps [of mem tm t tm b] line_of_Cons after_line_Cons)
  next
    case False
    have "plenty mem (2 * (Suc (dlen t1) + length (unread b1)))"
      using Cons.prems(3) Cons.hyps(2) [symmetric] b1 len by (simp add: plenty_def)
    with Cons.hyps(1) [OF b1(3) [symmetric] t1(2) b1(2)] obtain t' b' where
      "buffer_getline_loop mem tm t1 d b1 = Some (t', b') \<and> buffer_inv t' \<and> buffer_inv b' \<and>
       contents t' = contents t1 @ line_of tm (d # unread b1) \<and>
       unread b' = after_line tm (d # unread b1) \<and> contents b' = contents b1"
      by blast
    with t1 b1 cb False Cons.hyps(2) [symmetric] show ?thesis
      by (simp add: buffer_getline_loop.simps [of mem tm t c b] line_of_Cons [of _ c]
          after_line_Cons [of _ c])
  qed
qed

lemma cstring_storage:
  assumes "length xs \<le> length ys" "\<And>i. i < length xs \<Longrightarrow> ys ! i = Some (xs ! i)" "0 \<in> set xs"
  shows "cstring ys = Some (takeWhile (\<lambda>c. c \<noteq> 0) xs)"
  using assms
proof (induction xs arbitrary: ys)
  case Nil
  then show ?case by simp
next
  case (Cons x xs)
  obtain y ys' where ys: "ys = y # ys'"
    using Cons.prems(1) by (cases ys) auto
  have y: "y = Some x"
    using Cons.prems(2) [of 0] ys by simp
  show ?case
  proof (cases "x = 0")
    case True
    with ys y show ?thesis by simp
  next
    case False
    have "cstring ys' = Some (takeWhile (\<lambda>c. c \<noteq> 0) xs)"
      using Cons.IH [of ys'] Cons.prems ys False by force
    with ys y False show ?thesis by simp
  qed
qed

lemma contents_storage:
  assumes "buffer_inv b" "i < dlen b"
  shows "data b ! i = Some (contents b ! i)"
  using assms by (auto simp: buffer_inv_def contents_def)

lemma cstring_contents:
  assumes "buffer_inv b" "0 \<in> set (contents b)"
  shows "cstring (data b) = Some (takeWhile (\<lambda>c. c \<noteq> 0) (contents b))"
proof (rule cstring_storage)
  show "length (contents b) \<le> length (data b)"
    using assms(1) by (simp add: buffer_inv_def contents_def)
  show "data b ! i = Some (contents b ! i)" if "i < length (contents b)" for i
    using that assms(1) by (simp add: contents_storage)
qed (rule assms(2))

text \<open>\<open>cut_nul\<close>: what a C string keeps of a byte string.\<close>

definition cut_nul :: "u8 list \<Rightarrow> u8 list" where
  "cut_nul xs = takeWhile (\<lambda>c. c \<noteq> 0) xs"

lemma cut_nul_id: "0 \<notin> set xs \<Longrightarrow> cut_nul xs = xs"
  by (auto simp: cut_nul_def takeWhile_eq_all_conv)

lemma takeWhile_nul_snoc: "takeWhile (\<lambda>c. c \<noteq> 0) (xs @ [0]) = cut_nul xs"
  by (induction xs) (simp_all add: cut_nul_def)

lemma buffer_getline_eof:
  assumes "buffer_inv b" "unread b = []"
  shows "buffer_getline mem b t = Some (None, b)"
  using src.get_end [OF assms] by (simp add: buffer_getline_def split: option.split)

lemma buffer_getline_line:
  assumes inv: "buffer_inv b" and ne: "unread b \<noteq> []"
    and mem: "plenty mem (32 + 2 * length (unread b))"
  shows "\<exists>b'. buffer_getline mem b t = Some (Some (cut_nul (line_of t (unread b))), b') \<and>
    buffer_inv b' \<and> unread b' = after_line t (unread b) \<and> contents b' = contents b"
proof -
  obtain c cs where u: "unread b = c # cs"
    using ne by (cases "unread b") auto
  obtain b1 where b1: "buffer_iterchar b = Some (Some c, b1)" "buffer_inv b1" "unread b1 = cs"
    using src.get_byte [OF inv u] by blast
  have cb: "contents b1 = contents b"
    using b1(1) by (rule buffer_iterchar_contents)
  obtain l where l: "buffer_new mem = Some l"
    using buffer_new_plenty [OF mem] by auto
  then have fresh: "buffer_inv l" "contents l = []" "dlen l = 0"
    using buffer_new_fresh by blast+
  have "plenty mem (2 * (Suc (dlen l) + length (unread b1)))"
    using mem u b1 fresh by (auto simp: plenty_def)
  with buffer_getline_loop_line [OF fresh(1) b1(2)] obtain l' b' where
    loop: "buffer_getline_loop mem t l c b1 = Some (l', b')" "buffer_inv l'" "buffer_inv b'"
      "contents l' = line_of t (unread b)" "unread b' = after_line t (unread b)"
      "contents b' = contents b"
    using fresh b1 cb u by (metis append_Nil)
  have len: "length (contents l') \<le> length (unread b)"
    using loop(4) line_of_after_line [of t "unread b"] by (metis le_add1 length_append)
  have "plenty mem (2 * Suc (length (contents l')))"
    using mem len by (auto simp: plenty_def)
  then obtain l2 where l2: "buffer_addchar mem l' (ucast (0 :: u8)) = (0, l2)" "buffer_inv l2"
      "contents l2 = contents l' @ [0]"
    using buf.put_success [OF loop(2)] by blast
  have "cstring (data l2) = Some (cut_nul (contents l'))"
    using cstring_contents [OF l2(2)] l2(3) takeWhile_nul_snoc by simp
  moreover have "granted mem (length (cut_nul (contents l')) + 1)"
    using mem len length_takeWhile_le [of "\<lambda>c. c \<noteq> 0" "contents l'"]
    by (auto simp: plenty_def cut_nul_def)
  ultimately show ?thesis
    using l b1 loop l2 by (simp add: buffer_getline_def strdup_storage_def)
qed

lemma readfile_loop_plenty:
  "buffer_inv b \<Longrightarrow> plenty al (2 * (dlen b + length cs)) \<Longrightarrow>
   \<exists>b'. buffer_readfile_loop al b cs = Some b' \<and> buffer_inv b' \<and> contents b' = contents b @ cs \<and> bpos b' = bpos b"
proof (induction cs arbitrary: b)
  case Nil
  then show ?case by simp
next
  case (Cons c cs)
  have "plenty al (2 * Suc (dlen b))" by (rule plenty_le [OF Cons.prems(2)]) simp
  then obtain b1 where b: "buffer_addchar al b (ucast c) = (0, b1)"
    using buffer_addchar_plenty [OF Cons.prems(1)] by (metis prod.collapse)
  have b1: "buffer_inv b1" "contents b1 = contents b @ [c]" "bpos b1 = bpos b"
    using buffer_addchar_ok [OF Cons.prems(1) b] by simp_all
  have "dlen b1 = Suc (dlen b)"
    using length_contents [OF b1(1)] length_contents [OF Cons.prems(1)] b1(2) by simp
  then have "plenty al (2 * (dlen b1 + length cs))" using Cons.prems(2) by simp
  from Cons.IH [OF b1(1) this] b b1 show ?case by auto
qed

lemma readfile_plenty:
  assumes "plenty al (2 * length cs + 32)"
  shows "\<exists>b. buffer_readfile al (Some (cs, True)) = Some b \<and> buffer_inv b \<and> contents b = cs \<and> bpos b = 0"
proof -
  obtain b where b: "buffer_new al = Some b" using buffer_new_plenty [OF assms] by auto
  have f: "buffer_inv b" "contents b = []" "bpos b = 0" "dlen b = 0" using buffer_new_fresh [OF b] by simp_all
  have "plenty al (2 * (dlen b + length cs))" by (rule plenty_le [OF assms]) (simp add: f)
  from readfile_loop_plenty [OF f(1) this] b f show ?thesis by (auto simp: buffer_readfile_def)
qed

end
