(* ===== verification/Strutil.thy ===== *)
theory Strutil
  imports Buffer
begin

text \<open>
  C strings and the string functions of strutil.c and lib/strlcpy.c, with what the program uses of
  the C library's string functions (C locale).  A C string is the list of its bytes without the
  terminating NUL; a function that changes a string in place returns the changed string.
\<close>

section \<open>The C library\<close>

type_synonym cstr = "u8 list"

definition bytes :: "string \<Rightarrow> cstr" where
  "bytes = map byte_of"

definition is_space :: "u8 \<Rightarrow> bool" where
  "is_space c \<longleftrightarrow> c = 32 \<or> 9 \<le> c \<and> c \<le> 13"

definition is_lower :: "u8 \<Rightarrow> bool" where
  "is_lower c \<longleftrightarrow> 97 \<le> c \<and> c \<le> 122"

definition to_upper :: "u8 \<Rightarrow> u8" where
  "to_upper c = (if is_lower c then c - 32 else c)"

definition is_upper :: "u8 \<Rightarrow> bool" where
  "is_upper c \<longleftrightarrow> 65 \<le> c \<and> c \<le> 90"

definition to_lower :: "u8 \<Rightarrow> u8" where
  "to_lower c = (if is_upper c then c + 32 else c)"

definition is_ascii :: "u8 \<Rightarrow> bool" where
  "is_ascii c \<longleftrightarrow> c < 128"

text \<open>\<open>strchr\<close>, \<open>strrchr\<close> and \<open>strstr\<close>: the rest of the string from the place found.\<close>

definition strchr :: "cstr \<Rightarrow> u8 \<Rightarrow> cstr option" where
  "strchr s c = (case dropWhile (\<lambda>x. x \<noteq> c) s of [] \<Rightarrow> None | xs \<Rightarrow> Some xs)"

fun strrchr :: "cstr \<Rightarrow> u8 \<Rightarrow> cstr option" where
  "strrchr [] c = None"
| "strrchr (x # s) c =
     (case strrchr s c of Some t \<Rightarrow> Some t | None \<Rightarrow> if x = c then Some (x # s) else None)"

fun strstr :: "cstr \<Rightarrow> cstr \<Rightarrow> cstr option" where
  "strstr s t = (if take (length t) s = t then Some s else (case s of [] \<Rightarrow> None | _ # s' \<Rightarrow> strstr s' t))"

declare strstr.simps [simp del]

text \<open>\<open>strdup\<close> of a string.\<close>

definition strdup :: "mem \<Rightarrow> cstr \<Rightarrow> cstr option" where
  "strdup al s = (if granted al (length s + 1) then Some s else None)"

text \<open>The value of a digit in bases up to 36.\<close>

definition digit_value :: "u8 \<Rightarrow> nat option" where
  "digit_value c =
     (if 48 \<le> c \<and> c \<le> 57 then Some (unat c - 48)
      else if 97 \<le> c \<and> c \<le> 122 then Some (unat c - 87)
      else if 65 \<le> c \<and> c \<le> 90 then Some (unat c - 55) else None)"

definition is_digit :: "nat \<Rightarrow> u8 \<Rightarrow> bool" where
  "is_digit b c \<longleftrightarrow> (case digit_value c of None \<Rightarrow> False | Some v \<Rightarrow> v < b)"

definition digits_value :: "nat \<Rightarrow> cstr \<Rightarrow> nat" where
  "digits_value b ds = foldl (\<lambda>v c. v * b + the (digit_value c)) 0 ds"

text \<open>
  \<open>strtoul(s, &endp, b)\<close> for \<open>b\<close> 10 and 16, with \<open>unsigned long\<close> of 64 bits: the value and \<open>endp\<close>.
  Without a digit the value is 0 and \<open>endp\<close> is \<open>s\<close> itself; too large a value gives \<open>ULONG_MAX\<close>.
\<close>

definition ULONG_MAX :: nat where
  "ULONG_MAX = 18446744073709551615"

definition strtoul :: "nat \<Rightarrow> cstr \<Rightarrow> nat \<times> cstr" where
  "strtoul b s =
     (let s1 = dropWhile is_space s;
          neg = (take 1 s1 = [45]);
          s2 = (if neg \<or> take 1 s1 = [43] then drop 1 s1 else s1);
          s3 = (if b = 16 \<and> (take 2 s2 = [48, 120] \<or> take 2 s2 = [48, 88]) \<and>
                   (\<exists>c \<in> set (take 1 (drop 2 s2)). is_digit 16 c) then drop 2 s2 else s2);
          ds = takeWhile (is_digit b) s3;
          v = digits_value b ds in
      if ds = [] then (0, s)
      else (if v > ULONG_MAX then ULONG_MAX
            else if neg then (ULONG_MAX + 1 - v) mod (ULONG_MAX + 1) else v, dropWhile (is_digit b) s3))"

text \<open>The conversions \<open>%lu\<close> (and \<open>%d\<close> of a value that is not negative), \<open>%02X\<close> of a byte, \<open>%08d\<close>.\<close>

fun show_dec :: "nat \<Rightarrow> cstr" where
  "show_dec n = (if n < 10 then [of_nat (48 + n)] else show_dec (n div 10) @ [of_nat (48 + n mod 10)])"

declare show_dec.simps [simp del]

definition hex_digit :: "nat \<Rightarrow> u8" where
  "hex_digit n = of_nat (if n < 10 then 48 + n else 55 + n)"

definition show_hex2 :: "nat \<Rightarrow> cstr" where
  "show_hex2 n = [hex_digit (n div 16 mod 16), hex_digit (n mod 16)]"

definition show_dec8 :: "nat \<Rightarrow> cstr" where
  "show_dec8 n = replicate (8 - length (show_dec n)) 48 @ show_dec n"

text \<open>
  \<open>strtok_r\<close>: the state \<open>last\<close> is the rest of the string.  The token ends at the first separator,
  which is overwritten and skipped.
\<close>

definition strtok_r :: "cstr \<Rightarrow> cstr \<Rightarrow> cstr option \<times> cstr" where
  "strtok_r s delims =
     (let s1 = dropWhile (\<lambda>c. c \<in> set delims) s in
      if s1 = [] then (None, [])
      else (Some (takeWhile (\<lambda>c. c \<notin> set delims) s1), drop 1 (dropWhile (\<lambda>c. c \<notin> set delims) s1)))"

section \<open>strutil.c\<close>

definition strupper :: "cstr option \<Rightarrow> cstr option" where
  "strupper s = map_option (map (\<lambda>c. if is_lower c then to_upper c else c)) s"

text \<open>\<open>strncmp(s, prefix, strlen(prefix)) == 0\<close>, byte by byte.\<close>

fun strbegins :: "cstr \<Rightarrow> cstr \<Rightarrow> bool" where
  "strbegins s [] = True"
| "strbegins [] (p # ps) = False"
| "strbegins (c # s) (p # ps) = (c = p \<and> strbegins s ps)"

fun strcasebegins :: "cstr \<Rightarrow> cstr \<Rightarrow> bool" where
  "strcasebegins s [] = True"
| "strcasebegins [] (p # ps) = False"
| "strcasebegins (c # s) (p # ps) = (to_lower c = to_lower p \<and> strcasebegins s ps)"

text \<open>\<open>if ((p = strchr(s, c)) != NULL) *p = '\0';\<close>\<close>

definition cut_at :: "u8 \<Rightarrow> cstr \<Rightarrow> cstr" where
  "cut_at c s = (case strchr s c of None \<Rightarrow> s | Some p \<Rightarrow> take (length s - length p) s)"

definition strzapcc :: "cstr \<Rightarrow> cstr" where
  "strzapcc s = cut_at 10 (cut_at 13 s)"

section \<open>lib/strlcpy.c\<close>

text \<open>
  The copying loop with \<open>n\<close> bytes of room left: the bytes stored, the terminating NUL among them,
  and what is left of \<open>n\<close> (0: the loop stopped for want of room).
\<close>

fun strlcpy_loop :: "nat \<Rightarrow> cstr \<Rightarrow> u8 list \<times> nat" where
  "strlcpy_loop 0 s = ([], 0)"
| "strlcpy_loop (Suc n) [] = ([0], Suc n)"
| "strlcpy_loop (Suc n) (c # s) = (case strlcpy_loop n s of (d, m) \<Rightarrow> (c # d, m))"

text \<open>\<open>strlcpy(dst, src, siz)\<close>: the bytes written to \<open>dst\<close>, and the result.\<close>

definition strlcpy :: "cstr \<Rightarrow> nat \<Rightarrow> u8 list \<times> nat" where
  "strlcpy src siz =
     (case strlcpy_loop (siz - 1) src of
        (d, n) \<Rightarrow> (if n = 0 \<and> siz \<noteq> 0 then d @ [0] else d, length src))"

section \<open>Lemmas\<close>

text \<open>The buffer lemmas call the string up to the first NUL \<open>cut_nul\<close>; it is what a C function sees.\<close>

lemma strbegins_prefix: "strbegins s p \<longleftrightarrow> take (length p) s = p"
  by (induction s p rule: strbegins.induct) auto

lemma strbegins_append [simp]: "strbegins (p @ s) p"
  by (simp add: strbegins_prefix)

lemma strcasebegins_iff: "strcasebegins s p \<longleftrightarrow> map to_lower (take (length p) s) = map to_lower p"
  by (induction s p rule: strcasebegins.induct) auto

lemma cut_at_takeWhile: "cut_at c s = takeWhile (\<lambda>x. x \<noteq> c) s"
proof (cases "dropWhile (\<lambda>x. x \<noteq> c) s")
  case Nil
  then have "takeWhile (\<lambda>x. x \<noteq> c) s = s"
    using takeWhile_dropWhile_id [of "\<lambda>x. x \<noteq> c" s] by simp
  with Nil show ?thesis by (simp only: cut_at_def strchr_def list.case option.case)
next
  case (Cons x xs)
  have "s = takeWhile (\<lambda>x. x \<noteq> c) s @ x # xs"
    using takeWhile_dropWhile_id [of "\<lambda>x. x \<noteq> c" s] Cons by simp
  then have "take (length s - length (x # xs)) s = takeWhile (\<lambda>x. x \<noteq> c) s"
    by (metis append_eq_conv_conj diff_add_inverse2 length_append)
  with Cons show ?thesis by (simp add: cut_at_def strchr_def)
qed

lemma strzapcc_line: "strzapcc s = takeWhile (\<lambda>c. c \<noteq> 13 \<and> c \<noteq> 10) s"
  by (simp add: strzapcc_def cut_at_takeWhile takeWhile_takeWhile)

lemma strlcpy_loop_eq:
  "strlcpy_loop n s = (if length s < n then (s @ [0], n - length s) else (take n s, 0))"
  by (induction n s rule: strlcpy_loop.induct) auto

lemma strlcpy_eq:
  "strlcpy src siz = (if siz = 0 then [] else take (siz - 1) src @ [0], length src)"
  by (cases siz) (auto simp: strlcpy_def strlcpy_loop_eq)

section \<open>Numbers\<close>

lemma unat_of_nat_u8: "n < 256 \<Longrightarrow> unat (of_nat n :: u8) = n"
  by (simp add: unat_of_nat)

lemma digit_value_dec: "n < 10 \<Longrightarrow> digit_value (of_nat (48 + n)) = Some n"
  by (simp add: digit_value_def word_le_nat_alt unat_of_nat_u8 flip: of_nat_add)

lemma is_digit_dec: "n < 10 \<Longrightarrow> is_digit 10 (of_nat (48 + n))"
  by (simp only: is_digit_def digit_value_dec) simp

lemma digit_value_hex: "n < 16 \<Longrightarrow> digit_value (hex_digit n) = Some n"
  by (auto simp: digit_value_def hex_digit_def word_le_nat_alt unat_of_nat_u8 simp flip: of_nat_add)

lemma digits_value_snoc: "digits_value b (ds @ [c]) = digits_value b ds * b + the (digit_value c)"
  by (simp add: digits_value_def)

lemma show_dec_digits: "c \<in> set (show_dec n) \<Longrightarrow> is_digit 10 c"
proof (induction n rule: show_dec.induct)
  case (1 n)
  show ?case
  proof (cases "n < 10")
    case True
    then have "c = of_nat (48 + n)" using 1(2) by (subst (asm) show_dec.simps) simp
    then show ?thesis using is_digit_dec [OF True] by (simp only:)
  next
    case False
    have "n mod 10 < 10" by simp
    moreover have "c \<in> set (show_dec (n div 10)) \<or> c = of_nat (48 + n mod 10)"
      using 1(2) False by (subst (asm) show_dec.simps) auto
    ultimately show ?thesis using 1(1) [OF False] is_digit_dec [of "n mod 10"] by blast
  qed
qed

lemma show_dec_value: "digits_value 10 (show_dec n) = n"
proof (induction n rule: show_dec.induct)
  case (1 n)
  show ?case
  proof (cases "n < 10")
    case True
    then show ?thesis
      using digit_value_dec [of n] by (subst show_dec.simps) (simp add: digits_value_def)
  next
    case False
    then have "digits_value 10 (show_dec n) = digits_value 10 (show_dec (n div 10)) * 10 + n mod 10"
      using digit_value_dec [of "n mod 10"] by (subst show_dec.simps) (simp add: digits_value_snoc)
    then show ?thesis using 1 False by simp
  qed
qed

lemma show_dec_not_Nil [simp]: "show_dec n \<noteq> []"
  by (subst show_dec.simps) simp

lemma is_digit_sign: "is_digit b c \<Longrightarrow> \<not> is_space c \<and> c \<noteq> 45 \<and> c \<noteq> 43 \<and> c \<noteq> 0"
  by (auto simp: is_digit_def digit_value_def is_space_def word_le_nat_alt split: if_splits option.splits)

lemma strtoul_show_dec:
  assumes "n \<le> ULONG_MAX" and rest: "rest = [] \<or> \<not> is_digit 10 (hd rest)"
  shows "strtoul 10 (show_dec n @ rest) = (n, rest)"
proof -
  obtain d ds where d: "show_dec n = d # ds" by (cases "show_dec n") auto
  then have dd: "is_digit 10 d" using show_dec_digits [of d n] by simp
  have "takeWhile (is_digit 10) (show_dec n @ rest) = show_dec n"
    "dropWhile (is_digit 10) (show_dec n @ rest) = rest"
    using show_dec_digits rest by (cases rest; simp add: takeWhile_append2 dropWhile_append2)+
  then show ?thesis
    using is_digit_sign [OF dd] show_dec_value [of n] assms(1)
    by (simp add: strtoul_def d Let_def)
qed

lemma strtoul_hex2:
  assumes "n < 256"
  shows "strtoul 16 (32 # show_hex2 n) = (n, [])"
proof -
  define a b where "a = hex_digit (n div 16 mod 16)" and "b = hex_digit (n mod 16)"
  have v: "digit_value a = Some (n div 16 mod 16)" "digit_value b = Some (n mod 16)"
    by (simp_all add: a_def b_def digit_value_hex)
  then have d: "is_digit 16 a" "is_digit 16 b" by (simp_all add: is_digit_def)
  have "n div 16 < 16" using assms by simp
  then have "digits_value 16 [a, b] = n" using v by (simp add: digits_value_def)
  moreover have "show_hex2 n = [a, b]" by (simp only: show_hex2_def a_def b_def)
  moreover have "is_space 32" "\<not> is_space a" "a \<noteq> 45" "a \<noteq> 43"
    using is_digit_sign [OF d(1)] by (simp_all add: is_space_def)
  ultimately show ?thesis using d assms by (simp add: strtoul_def Let_def ULONG_MAX_def)
qed

end
