(* ===== verification/Conf.thy ===== *)
theory Conf
  imports Strutil
begin

text \<open>
  conf.c: the configuration file, lines \<open>name = value\<close>, and the record of parameters the programs
  fill from it.  The file is a parameter; \<open>Inl\<close> is the status of a call of \<open>exit\<close>.
\<close>

section \<open>Data\<close>

text \<open>\<open>struct conf\<close>; the members are results of \<open>strdup\<close>, which is not checked.\<close>

record conf =
  var :: "cstr option"
  val :: "cstr option"

text \<open>
  \<open>cfg_t\<close>; \<open>None\<close> is a null pointer.  Of the stream \<open>modemfp\<close> the model keeps whether it is set; the socket
  \<open>ax25sock\<close> is only passed to the operating system.
\<close>

record cfg_t =
  mycall :: "cstr option"
  targetcall :: "cstr option"
  hostname :: "cstr option"
  hostport :: u16
  password :: "cstr option"
  ax25port :: "cstr option"
  emailaddr :: "cstr option"
  wl2k_password :: "cstr option"
  gridsquare :: "cstr option"
  welcomemsg :: "cstr option"
  cfg_timeoutsecs :: u32
  bVerbose :: bool
  bSendonly :: bool
  serialdevice :: "cstr option"
  modem :: int
  baudrate :: u32
  modemfp :: bool
  pathbuf :: "buffer option"

section \<open>Operations\<close>

definition sizeof_conf :: nat where "sizeof_conf = 24"

text \<open>
  The three calls of \<open>strtok_r\<close> on a line whose first character is not a space or \<open>#\<close>, and the skipping of a
  value that begins with a space: the name and the value.
\<close>

definition conf_tokens :: "cstr \<Rightarrow> (cstr \<times> cstr) option" where
  "conf_tokens cp =
     (case strtok_r cp (bytes ''#'') of
        (None, _) \<Rightarrow> None
      | (Some cp, _) \<Rightarrow>
          (case strtok_r cp (bytes ''= '' @ [10]) of
             (None, _) \<Rightarrow> None
           | (Some name, rest) \<Rightarrow>
               (case strtok_r rest (bytes ''='' @ [34, 10]) of
                  (None, _) \<Rightarrow> None
                | (Some v, rest) \<Rightarrow>
                    (if is_space (hd v) then
                       (case strtok_r rest (bytes ''='' @ [34, 10]) of
                          (None, _) \<Rightarrow> None
                        | (Some v, _) \<Rightarrow> Some (name, v))
                     else Some (name, v)))))"

definition conf_line :: "cstr \<Rightarrow> (cstr \<times> cstr) option" where
  "conf_line line =
     (let cp = dropWhile is_space line in
      if take 1 cp = [35] then None else conf_tokens cp)"

text \<open>One turn of the loop; \<open>Inr (Inl n)\<close> is \<open>exit(n)\<close>.\<close>

definition conf_step :: "mem \<Rightarrow> buffer \<times> conf list \<Rightarrow> ((buffer \<times> conf list) + (int + conf list)) option" where
  "conf_step al = (\<lambda>(b, conflist).
     do { (line, b') \<leftarrow> buffer_getline al b 10;
          Some (case line of
             None \<Rightarrow> Inr (Inr conflist)
           | Some cp \<Rightarrow>
               (case conf_line cp of
                  None \<Rightarrow> Inl (b', conflist)
                | Some (name, v) \<Rightarrow>
                    (if \<not> granted al sizeof_conf then Inr (Inl 2)
                     else Inl (b', conflist @ [\<lparr>var = strdup al name, val = strdup al v\<rparr>])))) })"

definition conf_read :: "mem \<Rightarrow> (u8 list \<times> bool) option \<Rightarrow> (int + conf list) option" where
  "conf_read al f =
     (case buffer_readfile al f of
        None \<Rightarrow> Some (Inl 2)
      | Some b \<Rightarrow> loop (conf_step al) (b, []))"

text \<open>A null name is passed to \<open>strcmp\<close>, which is undefined.\<close>

fun conf_get :: "conf list \<Rightarrow> cstr \<Rightarrow> cstr option option" where
  "conf_get [] name = Some None"
| "conf_get (c # cs) name =
     do { v \<leftarrow> var c; (if v = name then Some (val c) else conf_get cs name) }"

section \<open>Lemmas\<close>

text \<open>A setting as it is written in the file, with the characters that can be written.\<close>

definition setting_ok :: "cstr \<times> cstr \<Rightarrow> bool" where
  "setting_ok s \<longleftrightarrow> (case s of (n, v) \<Rightarrow> n \<noteq> [] \<and> v \<noteq> [] \<and> \<not> is_space (hd n) \<and> \<not> is_space (hd v) \<and>
     set n \<inter> {0, 10, 32, 35, 61} = {} \<and> set v \<inter> {0, 10, 34, 35, 61} = {})"

definition setting_line :: "cstr \<times> cstr \<Rightarrow> cstr" where
  "setting_line s = fst s @ 61 # snd s @ [10]"

lemma token_of:
  assumes "xs \<noteq> []" "hd xs \<notin> set delims" "\<forall>c \<in> set xs. c \<notin> set delims" "d \<in> set delims"
  shows "strtok_r (xs @ d # rest) delims = (Some xs, rest)"
proof -
  have "dropWhile (\<lambda>c. c \<in> set delims) (xs @ d # rest) = xs @ d # rest"
    using assms(1,2) by (cases xs) auto
  then show ?thesis using assms by (simp add: strtok_r_def Let_def takeWhile_tail takeWhile_append2 dropWhile_append2)
qed

lemma conf_line_setting:
  assumes "setting_ok (n, v)"
  shows "conf_line (setting_line (n, v)) = Some (n, v)"
proof -
  have ok: "n \<noteq> []" "v \<noteq> []" "\<not> is_space (hd n)" "\<not> is_space (hd v)"
      "\<forall>c \<in> set n. c \<noteq> 0 \<and> c \<noteq> 10 \<and> c \<noteq> 32 \<and> c \<noteq> 35 \<and> c \<noteq> 61" "\<forall>c \<in> set v. c \<noteq> 0 \<and> c \<noteq> 10 \<and> c \<noteq> 34 \<and> c \<noteq> 35 \<and> c \<noteq> 61"
    using assms by (auto simp: setting_ok_def)
  let ?s = "setting_line (n, v)"
  have d: "dropWhile is_space ?s = ?s" "take 1 ?s \<noteq> [35]"
    using ok by (cases n; auto simp: setting_line_def)+
  have "dropWhile (\<lambda>c. c \<in> set (bytes ''#'')) ?s = ?s" "\<forall>c \<in> set ?s. c \<notin> set (bytes ''#'')"
    using ok by (cases n; auto simp: setting_line_def bytes_def byte_of_def)+
  moreover have "?s \<noteq> []" by (simp add: setting_line_def)
  ultimately have t1: "strtok_r ?s (bytes ''#'') = (Some ?s, [])"
    by (simp add: strtok_r_def Let_def takeWhile_eq_all_conv [THEN iffD2] dropWhile_eq_Nil_conv [THEN iffD2])
  have t2: "strtok_r ?s (bytes ''= '' @ [10]) = (Some n, v @ [10])"
    unfolding setting_line_def prod.sel by (rule token_of) (use ok in \<open>auto simp: bytes_def byte_of_def\<close>)
  have t3: "strtok_r (v @ [10]) (bytes ''='' @ [34, 10]) = (Some v, [])"
    by (rule token_of) (use ok in \<open>auto simp: bytes_def byte_of_def\<close>)
  show ?thesis using d t1 t2 t3 ok(4) by (simp add: conf_line_def conf_tokens_def Let_def)
qed


text \<open>
  The lines of a configuration file as its author writes them: \<open>name=value\<close>, \<open>name="value"\<close> or, with \<open>sp\<close>,
  \<open>name = "value"\<close>, and lines that are blank or begin (behind white space) with \<open>#\<close>.
\<close>

datatype conf_text = Bare cstr cstr | Quoted bool cstr cstr | Remark cstr

fun written_ok :: "conf_text \<Rightarrow> bool" where
  "written_ok (Bare n v) = setting_ok (n, v)"
| "written_ok (Quoted sp n v) = setting_ok (n, v)"
| "written_ok (Remark w) \<longleftrightarrow> 0 \<notin> set w \<and> 10 \<notin> set w \<and>
     (dropWhile is_space w = [] \<or> hd (dropWhile is_space w) = 35)"

fun written :: "conf_text \<Rightarrow> cstr" where
  "written (Bare n v) = setting_line (n, v)"
| "written (Quoted sp n v) = n @ (if sp then [32, 61, 32, 34] else [61, 34]) @ v @ [34, 10]"
| "written (Remark w) = w @ [10]"

fun written_setting :: "conf_text \<Rightarrow> (cstr \<times> cstr) option" where
  "written_setting (Bare n v) = Some (n, v)"
| "written_setting (Quoted sp n v) = Some (n, v)"
| "written_setting (Remark w) = None"

definition written_settings :: "conf_text list \<Rightarrow> (cstr \<times> cstr) list" where
  "written_settings ts = List.map_filter written_setting ts"

lemma written_settings_simps [simp]:
  "written_settings [] = []"
  "written_settings (t # ts) = (case written_setting t of None \<Rightarrow> [] | Some s \<Rightarrow> [s]) @ written_settings ts"
  by (simp_all add: written_settings_def List.map_filter_def split: option.splits)

lemma strtok_none: "set s \<subseteq> set delims \<Longrightarrow> strtok_r s delims = (None, [])"
  by (auto simp: strtok_r_def Let_def dropWhile_eq_Nil_conv)

lemma token_skip: "d \<in> set delims \<Longrightarrow> strtok_r (d # s) delims = strtok_r s delims"
  by (simp add: strtok_r_def)

lemma no_hash_token:
  assumes "s \<noteq> []" "35 \<notin> set s"
  shows "strtok_r s (bytes ''#'') = (Some s, [])"
proof -
  have "dropWhile (\<lambda>c. c \<in> set (bytes ''#'')) s = s" "\<forall>c \<in> set s. c \<notin> set (bytes ''#'')"
    using assms by (cases s; auto simp: bytes_def byte_of_def)+
  then show ?thesis using assms(1)
    by (simp add: strtok_r_def Let_def takeWhile_eq_all_conv [THEN iffD2] dropWhile_eq_Nil_conv [THEN iffD2])
qed

lemma conf_line_tokens:
  assumes "n \<noteq> []" "\<not> is_space (hd n)" "35 \<notin> set (n @ s)"
  shows "conf_line (n @ s) = conf_tokens (n @ s)"
  using assms by (cases n) (auto simp: conf_line_def)

lemma conf_line_quoted:
  assumes "setting_ok (n, v)"
  shows "conf_line (written (Quoted sp n v)) = Some (n, v)"
proof -
  have ok: "n \<noteq> []" "v \<noteq> []" "\<not> is_space (hd n)" "\<not> is_space (hd v)"
      "\<forall>c \<in> set n. c \<noteq> 0 \<and> c \<noteq> 10 \<and> c \<noteq> 32 \<and> c \<noteq> 35 \<and> c \<noteq> 61" "\<forall>c \<in> set v. c \<noteq> 0 \<and> c \<noteq> 10 \<and> c \<noteq> 34 \<and> c \<noteq> 35 \<and> c \<noteq> 61"
    using assms by (auto simp: setting_ok_def)
  define r where "r = v @ [34, 10]"
  have r: "strtok_r r (bytes ''='' @ [34, 10]) = (Some v, [10])"
    unfolding r_def by (rule token_of) (use ok in \<open>auto simp: bytes_def byte_of_def\<close>)
  have h: "35 \<notin> set r" using ok by (auto simp: r_def)
  show ?thesis
  proof (cases sp)
    case True
    have t1: "strtok_r (n @ [32, 61, 32, 34] @ r) (bytes ''#'') = (Some (n @ [32, 61, 32, 34] @ r), [])"
      by (rule no_hash_token) (use ok h in auto)
    have t2: "strtok_r (n @ 32 # [61, 32, 34] @ r) (bytes ''= '' @ [10]) = (Some n, [61, 32, 34] @ r)"
      by (rule token_of) (use ok in \<open>auto simp: bytes_def byte_of_def\<close>)
    have "strtok_r ([32] @ 34 # r) (bytes ''='' @ [34, 10]) = (Some [32], r)"
      by (rule token_of) (auto simp: bytes_def byte_of_def)
    then have t3: "strtok_r ([61, 32, 34] @ r) (bytes ''='' @ [34, 10]) = (Some [32], r)"
      by (simp add: token_skip bytes_def byte_of_def)
    have "conf_line (n @ [32, 61, 32, 34] @ r) = conf_tokens (n @ [32, 61, 32, 34] @ r)"
      by (rule conf_line_tokens) (use ok h in auto)
    then show ?thesis using t1 t2 t3 r True by (simp add: conf_tokens_def is_space_def r_def)
  next
    case False
    have t1: "strtok_r (n @ [61, 34] @ r) (bytes ''#'') = (Some (n @ [61, 34] @ r), [])"
      by (rule no_hash_token) (use ok h in auto)
    have t2: "strtok_r (n @ 61 # [34] @ r) (bytes ''= '' @ [10]) = (Some n, [34] @ r)"
      by (rule token_of) (use ok in \<open>auto simp: bytes_def byte_of_def\<close>)
    have t3: "strtok_r ([34] @ r) (bytes ''='' @ [34, 10]) = (Some v, [10])"
      using r by (simp add: token_skip)
    have "conf_line (n @ [61, 34] @ r) = conf_tokens (n @ [61, 34] @ r)"
      by (rule conf_line_tokens) (use ok h in auto)
    then show ?thesis using t1 t2 t3 ok(4) False by (simp add: conf_tokens_def r_def)
  qed
qed

lemma conf_line_remark:
  assumes "written_ok (Remark w)"
  shows "conf_line (w @ [10]) = None"
proof (cases "dropWhile is_space w = []")
  case True
  then have "dropWhile is_space (w @ [10]) = []" by (simp add: dropWhile_append is_space_def)
  then show ?thesis by (simp add: conf_line_def conf_tokens_def strtok_r_def)
next
  case False
  then obtain r where "dropWhile is_space w = 35 # r" using assms by (cases "dropWhile is_space w") auto
  then have "dropWhile is_space (w @ [10]) = 35 # r @ [10]"
    by (metis append_Cons dropWhile_append1 hd_in_set hd_dropWhile list.distinct(1) dropWhile_append dropWhile_eq_Nil_conv)
  then show ?thesis by (simp add: conf_line_def)
qed

lemma conf_line_text: "written_ok t \<Longrightarrow> conf_line (written t) = written_setting t"
  by (cases t) (use conf_line_setting conf_line_quoted conf_line_remark in auto)

lemma written_split:
  assumes "written_ok t"
  shows "line_of 10 (written t @ xs) = written t \<and> after_line 10 (written t @ xs) = xs \<and> 0 \<notin> set (written t)"
proof -
  obtain l where l: "written t = l @ [10]" "10 \<notin> set l" "0 \<notin> set l"
  proof (cases t)
    case (Bare n v)
    then show ?thesis using assms that [of "n @ 61 # v"] by (auto simp: setting_ok_def setting_line_def)
  next
    case (Quoted sp n v)
    then show ?thesis using assms that [of "n @ (if sp then [32, 61, 32, 34] else [61, 34]) @ v @ [34]"]
      by (auto simp: setting_ok_def)
  qed (use assms that in auto)
  have lf: "line_of 10 (written t @ xs) = written t"
    using l(2) by (auto simp: line_of_def l(1) takeWhile_tail takeWhile_append2)
  moreover have "after_line 10 (written t @ xs) = xs" by (simp add: after_line_def lf)
  ultimately show ?thesis using l by simp
qed

lemma written_setting_length: "written_setting t = Some (n, v) \<Longrightarrow> length n + length v + 2 \<le> length (written t)"
  by (cases t) (auto simp: setting_line_def)

lemma written_not_Nil [simp]: "written t \<noteq> []"
  by (cases t) (auto simp: setting_line_def)

lemma conf_loop:
  assumes "\<forall>t \<in> set ts. written_ok t" "buffer_inv b" "unread b = concat (map written ts)"
    and "plenty al (64 + 2 * length (unread b))"
  shows "loop (conf_step al) (b, cs) = Some (Inr (cs @ map (\<lambda>(n, v). \<lparr>var = Some n, val = Some v\<rparr>) (written_settings ts)))"
  using assms
proof (induction ts arbitrary: b cs)
  case Nil
  then have "buffer_getline al b 10 = Some (None, b)" by (intro buffer_getline_eof) simp_all
  then have "conf_step al (b, cs) = Some (Inr (Inr cs))" by (simp add: conf_step_def)
  then show ?case by (simp add: loop_exit)
next
  case (Cons t ts)
  have ok: "written_ok t" using Cons.prems(1) by simp
  note sp = written_split [OF ok, of "concat (map written ts)"]
  have u: "unread b = written t @ concat (map written ts)" using Cons.prems(3) by simp
  have "unread b \<noteq> []" by (simp add: u)
  moreover have "plenty al (32 + 2 * length (unread b))" by (rule plenty_le [OF Cons.prems(4)]) simp
  ultimately obtain b' where g: "buffer_getline al b 10 = Some (Some (written t), b')" "buffer_inv b'"
      "unread b' = concat (map written ts)"
    using buffer_getline_line [OF Cons.prems(2), of al 10] sp by (auto simp: u cut_nul_id)
  have pl: "plenty al (64 + 2 * length (unread b'))"
    by (rule plenty_le [OF Cons.prems(4)]) (simp add: u g(3))
  note IH = Cons.IH [OF _ g(2,3) pl]
  show ?case
  proof (cases "written_setting t")
    case None
    then have "conf_step al (b, cs) = Some (Inl (b', cs))"
      using g(1) conf_line_text [OF ok] by (simp add: conf_step_def)
    then show ?thesis using IH Cons.prems(1) None by (simp add: loop_next)
  next
    case (Some s)
    obtain n v where s: "s = (n, v)" by fastforce
    have "granted al sizeof_conf" "granted al (length n + 1)" "granted al (length v + 1)"
      by (rule plenty_granted [OF Cons.prems(4)],
          use written_setting_length [of t n v] Some s in \<open>simp add: sizeof_conf_def u\<close>)+
    then have "conf_step al (b, cs) = Some (Inl (b', cs @ [\<lparr>var = Some n, val = Some v\<rparr>]))"
      using g(1) conf_line_text [OF ok] Some s by (simp add: conf_step_def strdup_def)
    then show ?thesis using IH Cons.prems(1) Some s by (simp add: loop_next)
  qed
qed

lemma conf_get_map:
  "conf_get (map (\<lambda>(n, v). \<lparr>var = Some n, val = Some v\<rparr>) ss) name = Some (map_of ss name)"
  by (induction ss) auto

lemma conf_read_texts:
  assumes "\<forall>t \<in> set ts. written_ok t" and "plenty al (64 + 2 * length (concat (map written ts)))"
  shows "\<exists>conflist. conf_read al (Some (concat (map written ts), True)) = Some (Inr conflist) \<and>
    (\<forall>name. conf_get conflist name = Some (map_of (written_settings ts) name))"
proof -
  have "plenty al (2 * length (concat (map written ts)) + 32)" by (rule plenty_le [OF assms(2)]) simp
  then obtain b where b: "buffer_readfile al (Some (concat (map written ts), True)) = Some b" "buffer_inv b"
      "contents b = concat (map written ts)" "bpos b = 0" using readfile_plenty by blast
  then have "unread b = concat (map written ts)" by (simp add: unread_def)
  with conf_loop [OF assms(1) b(2) this, of al "[]"] assms(2) b(1) show ?thesis
    by (simp add: conf_read_def conf_get_map)
qed

text \<open>The file of plain settings that the runs of the programs read.\<close>

lemma conf_read_settings:
  assumes "\<forall>s \<in> set ss. setting_ok s" and "plenty al (64 + 2 * length (concat (map setting_line ss)))"
  shows "\<exists>conflist. conf_read al (Some (concat (map setting_line ss), True)) = Some (Inr conflist) \<and>
    (\<forall>name. conf_get conflist name = Some (map_of ss name))"
proof -
  define ts where "ts = map (\<lambda>(n, v). Bare n v) ss"
  have "map written ts = map setting_line ss" "written_settings ts = ss"
    unfolding ts_def by (induction ss) auto
  moreover have "\<forall>t \<in> set ts. written_ok t" using assms(1) by (auto simp: ts_def)
  ultimately show ?thesis using conf_read_texts [of ts al] assms(2) by simp
qed

section \<open>Properties\<close>

text \<open>
  C39: Settings survive the configuration file.  From a file of lines \<open>name=value\<close>, \<open>name="value"\<close> and \<open>name = "value"\<close>,
  of blank lines and of comments (each line ended by a newline), \<open>conf_read\<close> makes a list in which \<open>conf_get\<close> finds, for
  every name, the value of its first line, and nothing for a name without a line.  What can be written in such a line is
  limited (\<open>setting_ok\<close>): neither name nor value is empty, begins with white space or holds NUL, newline, \<open>#\<close> or \<open>=\<close>; the
  name holds no space and the value no quotation mark.  The file can be read and there is memory for it.  (The form
  \<open>name = value\<close> without quotation marks is not among the lines: it is lost, see below.)
\<close>

theorem conf_round_trip:
  assumes "\<forall>t \<in> set ts. written_ok t" and "plenty al (64 + 2 * length (concat (map written ts)))"
  shows "\<exists>conflist. conf_read al (Some (concat (map written ts), True)) = Some (Inr conflist) \<and>
    (\<forall>name. conf_get conflist name = Some (map_of (written_settings ts) name))"
  using assms by (rule conf_read_texts)

theorem conf_round_trip_witness:
  "\<exists>conflist. conf_read (\<lambda>_. True) (Some (concat (map written
      [Remark (bytes '' # stations''), Bare (bytes ''mycall'') (bytes ''N2QZ''), Remark [], Quoted True (bytes ''timeout'') (bytes ''12 0''),
       Bare (bytes ''mycall'') (bytes ''N0CALL'')]), True)) = Some (Inr conflist) \<and>
    (\<forall>name. conf_get conflist name = Some (map_of
      (written_settings [Remark (bytes '' # stations''), Bare (bytes ''mycall'') (bytes ''N2QZ''), Remark [], Quoted True (bytes ''timeout'') (bytes ''12 0''),
       Bare (bytes ''mycall'') (bytes ''N0CALL'')]) name))"
  by (rule conf_round_trip)
    (simp_all add: setting_ok_def bytes_def byte_of_def is_space_def setting_line_def plenty_all)

text \<open>
  A value that is set off by spaces and not quoted is lost: \<open>conf_read\<close> takes the space behind the equals
  sign for the value and drops the line, as the value itself is never looked at.
\<close>

lemma spaced_value_ignored:
  assumes "setting_ok (n, v)"
  shows "conf_line (n @ bytes '' = '' @ v @ [10]) = None"
proof -
  have ok: "n \<noteq> []" "v \<noteq> []" "\<not> is_space (hd n)"
      "\<forall>c \<in> set n. c \<noteq> 0 \<and> c \<noteq> 10 \<and> c \<noteq> 32 \<and> c \<noteq> 35 \<and> c \<noteq> 61" "\<forall>c \<in> set v. c \<noteq> 0 \<and> c \<noteq> 10 \<and> c \<noteq> 34 \<and> c \<noteq> 35 \<and> c \<noteq> 61"
    using assms by (auto simp: setting_ok_def)
  let ?s = "n @ 32 # (61 # 32 # v @ [10])"
  have b: "bytes '' = '' = [32, 61, 32]" by (simp add: bytes_def byte_of_def)
  have d: "dropWhile is_space ?s = ?s" "take 1 ?s \<noteq> [35]" using ok by (cases n; auto)+
  have "dropWhile (\<lambda>c. c \<in> set (bytes ''#'')) ?s = ?s" "\<forall>c \<in> set ?s. c \<notin> set (bytes ''#'')"
    using ok by (cases n; auto simp: bytes_def byte_of_def)+
  then have t1: "strtok_r ?s (bytes ''#'') = (Some ?s, [])"
    by (simp add: strtok_r_def Let_def takeWhile_eq_all_conv [THEN iffD2] dropWhile_eq_Nil_conv [THEN iffD2])
  have t2: "strtok_r ?s (bytes ''= '' @ [10]) = (Some n, 61 # 32 # v @ [10])"
    by (rule token_of) (use ok in \<open>auto simp: bytes_def byte_of_def\<close>)
  have t3: "strtok_r (61 # 32 # v @ [10]) (bytes ''='' @ [34, 10]) = (Some (32 # v), [])"
  proof -
    have "strtok_r ((32 # v) @ 10 # []) (bytes ''='' @ [34, 10]) = (Some (32 # v), [])"
      by (rule token_of) (use ok in \<open>auto simp: bytes_def byte_of_def\<close>)
    then show ?thesis by (simp add: strtok_r_def bytes_def byte_of_def)
  qed
  have "is_space 32" by (simp add: is_space_def)
  moreover have "strtok_r [] (bytes ''='' @ [34, 10]) = (None, [])" by (simp add: strtok_r_def)
  ultimately have "conf_tokens ?s = None" using t1 t2 t3 by (simp only: conf_tokens_def prod.case option.case list.sel if_True)
  then show ?thesis using d by (simp add: conf_line_def Let_def b)
qed

end
