(* ===== verification/Getopt.thy ===== *)
theory Getopt
  imports Conf
begin

text \<open>
  What the programs use of the C library to read their arguments: \<open>strtol\<close>, \<open>strcasecmp\<close> and GNU \<open>getopt_long\<close> with
  an option string that begins with a letter, without \<open>POSIXLY_CORRECT\<close> in the environment: arguments that are no options
  are moved behind the options, in their order.  The scan does not depend on what the program does with an option, so it
  is a function from the arguments to the options found, up to the first that is wrong, and the other arguments.
\<close>

section \<open>Numbers and comparison\<close>

text \<open>\<open>strtol(s, &endp, 10)\<close> with \<open>long\<close> of 64 bits: the value, at its bound when it is out of range, and \<open>endp\<close>.\<close>

definition LONG_MAX :: nat where
  "LONG_MAX = 9223372036854775807"

definition strtol :: "cstr \<Rightarrow> int \<times> cstr" where
  "strtol s =
     (let s1 = dropWhile is_space s;
          neg = (take 1 s1 = [45]);
          s2 = (if neg \<or> take 1 s1 = [43] then drop 1 s1 else s1);
          ds = takeWhile (is_digit 10) s2;
          v = digits_value 10 ds in
      if ds = [] then (0, s)
      else (if neg then - int (min v (LONG_MAX + 1)) else int (min v LONG_MAX), dropWhile (is_digit 10) s2))"

text \<open>\<open>strcasecmp(s, t) == 0\<close>.\<close>

definition strcaseeq :: "cstr \<Rightarrow> cstr \<Rightarrow> bool" where
  "strcaseeq s t \<longleftrightarrow> map to_lower s = map to_lower t"

section \<open>Options\<close>

text \<open>The variables a long option can set.\<close>

datatype flag = Gverbose_flag | Displayconfig_flag | Gsendmsgonly_flag

text \<open>\<open>struct option\<close>: the name, whether there is an argument, and the flag that is set or the value that is returned.\<close>

record long_option =
  lname :: cstr
  has_arg :: bool
  sets :: "flag + char"

text \<open>What a call of \<open>getopt_long\<close> reports; \<open>Unknown\<close> is the result \<open>?\<close>, also for an argument that is missing or not wanted.\<close>

datatype event = Opt char | Opt_arg char cstr | Flag flag | Unknown

fun optstring :: "string \<Rightarrow> (char \<times> bool) list" where
  "optstring [] = []"
| "optstring [c] = [(c, False)]"
| "optstring (c # d # s) = (if d = CHR '':'' then (c, True) # optstring s else (c, False) # optstring (d # s))"

fun short_option :: "(char \<times> bool) list \<Rightarrow> u8 \<Rightarrow> (char \<times> bool) option" where
  "short_option [] b = None"
| "short_option ((c, a) # sp) b = (if byte_of c = b then Some (c, a) else short_option sp b)"

text \<open>An argument of letters: the options found, and the arguments after those taken.\<close>

fun cluster :: "(char \<times> bool) list \<Rightarrow> cstr \<Rightarrow> cstr list \<Rightarrow> event list \<times> cstr list" where
  "cluster sp [] r = ([], r)"
| "cluster sp (b # bs) r =
     (case short_option sp b of
        None \<Rightarrow> ([Unknown], [])
      | Some (c, False) \<Rightarrow> (case cluster sp bs r of (es, r) \<Rightarrow> (Opt c # es, r))
      | Some (c, True) \<Rightarrow>
          (if bs \<noteq> [] then ([Opt_arg c bs], r)
           else (case r of [] \<Rightarrow> ([Unknown], []) | a # r \<Rightarrow> ([Opt_arg c a], r))))"

text \<open>A long option: its full name, or the beginning of only one, or of several that mean the same.\<close>

definition find_long :: "long_option list \<Rightarrow> cstr \<Rightarrow> long_option option" where
  "find_long ls name =
     (case filter (\<lambda>l. lname l = name) ls of
        l # _ \<Rightarrow> Some l
      | [] \<Rightarrow>
          (case filter (\<lambda>l. take (length name) (lname l) = name) ls of
             [] \<Rightarrow> None
           | l # ms \<Rightarrow> if \<forall>m \<in> set ms. has_arg m = has_arg l \<and> sets m = sets l then Some l else None))"

definition long_event :: "long_option \<Rightarrow> event" where
  "long_event l = (case sets l of Inl f \<Rightarrow> Flag f | Inr c \<Rightarrow> Opt c)"

text \<open>No option of the programs has an argument and sets a flag.\<close>

definition long_arg_event :: "long_option \<Rightarrow> cstr \<Rightarrow> event" where
  "long_arg_event l a = (case sets l of Inl f \<Rightarrow> Flag f | Inr c \<Rightarrow> Opt_arg c a)"

definition long :: "long_option list \<Rightarrow> cstr \<Rightarrow> cstr list \<Rightarrow> event list \<times> cstr list" where
  "long ls a r =
     (let name = takeWhile (\<lambda>c. c \<noteq> 61) a in
      case find_long ls name of
        None \<Rightarrow> ([Unknown], [])
      | Some l \<Rightarrow>
          (if name \<noteq> a then
             (if has_arg l then ([long_arg_event l (drop (length name + 1) a)], r) else ([Unknown], []))
           else if has_arg l then (case r of [] \<Rightarrow> ([Unknown], []) | x # r \<Rightarrow> ([long_arg_event l x], r))
           else ([long_event l], r)))"

lemma cluster_shorter: "length (snd (cluster sp bs r)) \<le> length r"
  by (induction sp bs r rule: cluster.induct) (auto split: option.splits bool.splits list.splits prod.splits)

lemma long_shorter: "length (snd (long ls a r)) \<le> length r"
  by (auto simp: long_def Let_def split: option.splits list.splits)

text \<open>All calls, until -1: the options and \<open>argv[optind]\<close>, \<open>argv[optind + 1]\<close>, ...\<close>

function getopt_long :: "(char \<times> bool) list \<Rightarrow> long_option list \<Rightarrow> cstr list \<Rightarrow> event list \<times> cstr list" where
  "getopt_long sp ls [] = ([], [])"
| "getopt_long sp ls (a # r) =
     (if a = [45, 45] then ([], r)
      else if take 1 a = [45] \<and> length a > 1 then
        (let (es, r) = (if take 2 a = [45, 45] then long ls (drop 2 a) r else cluster sp (drop 1 a) r);
             (fs, rest) = getopt_long sp ls r in (es @ fs, rest))
      else (case getopt_long sp ls r of (es, rest) \<Rightarrow> (es, a # rest)))"
  by pat_completeness auto

termination
proof (relation "measure (\<lambda>(_, _, as). length as)", goal_cases)
  case (2 sp ls a r es r')
  then show ?case using long_shorter [of ls "drop 2 a" r] cluster_shorter [of sp "drop 1 a" r]
    by (auto split: if_splits) (metis le_imp_less_Suc snd_conv)+
qed auto

declare getopt_long.simps(2) [simp del]

text \<open>The last argument given for an option.\<close>

fun given :: "char \<Rightarrow> event list \<Rightarrow> cstr option" where
  "given c [] = None"
| "given c (e # es) =
     (case given c es of Some a \<Rightarrow> Some a | None \<Rightarrow> (case e of Opt_arg d a \<Rightarrow> if d = c then Some a else None | _ \<Rightarrow> None))"

text \<open>The first of several sources that has a value.\<close>

fun first_of :: "'a option list \<Rightarrow> 'a option" where
  "first_of [] = None"
| "first_of (x # xs) = (case x of None \<Rightarrow> first_of xs | Some v \<Rightarrow> Some v)"

declare first_of.simps(2) [simp del]

lemma first_of_rules [simp]: "first_of (None # xs) = first_of xs" "first_of (Some v # xs) = Some v" "first_of [x] = x"
  by (simp_all add: first_of.simps(2) split: option.split)

lemma first_of_two: "first_of [x, y] = (case x of None \<Rightarrow> y | Some s \<Rightarrow> Some s)"
  by (simp add: first_of.simps(2) split: option.split)

end
