(* ===== verification/Calendar.thy ===== *)
theory Calendar
  imports Strutil
begin

text \<open>
  Dates: what the program uses of \<open>gmtime\<close>, \<open>strftime\<close>, \<open>strptime\<close> and \<open>mktime\<close> with the time zone UTC, and
  \<open>wl_timegm\<close> of wl2mime.c.  A \<open>time_t\<close> is given as its value.
\<close>

section \<open>The Gregorian calendar\<close>

definition leap :: "int \<Rightarrow> bool" where
  "leap y \<longleftrightarrow> y mod 4 = 0 \<and> (y mod 100 \<noteq> 0 \<or> y mod 400 = 0)"

definition month_days :: "int \<Rightarrow> nat list" where
  "month_days y = [31, if leap y then 29 else 28, 31, 30, 31, 30, 31, 31, 30, 31, 30, 31]"

definition year_days :: "int \<Rightarrow> nat" where
  "year_days y = (if leap y then 366 else 365)"

text \<open>The year and the day in it of the day \<open>d\<close> days after the start of \<open>y\<close>, and \<open>d\<close> days before it.\<close>

function year_after :: "int \<Rightarrow> nat \<Rightarrow> int \<times> nat" where
  "year_after y d = (if d < year_days y then (y, d) else year_after (y + 1) (d - year_days y))"
  by pat_completeness auto
termination by (relation "measure snd") (auto simp: year_days_def split: if_splits)

function year_before :: "int \<Rightarrow> nat \<Rightarrow> int \<times> nat" where
  "year_before y d =
     (if d \<le> year_days (y - 1) then (y - 1, year_days (y - 1) - d) else year_before (y - 1) (d - year_days (y - 1)))"
  by pat_completeness auto
termination by (relation "measure snd") (auto simp: year_days_def split: if_splits)

declare year_after.simps [simp del] year_before.simps [simp del]

fun month_of :: "nat list \<Rightarrow> nat \<Rightarrow> nat \<times> nat" where
  "month_of [] d = (0, d)"
| "month_of (m # ms) d = (if d < m then (0, d) else case month_of ms (d - m) of (k, e) \<Rightarrow> (Suc k, e))"

text \<open>The first day of a year, in days after 1 January 1970.\<close>

function year_start :: "int \<Rightarrow> int" where
  "year_start y =
     (if y = 1970 then 0
      else if y > 1970 then year_start (y - 1) + int (year_days (y - 1))
      else year_start (y + 1) - int (year_days y))"
  by pat_completeness auto
termination by (relation "measure (\<lambda>y. nat \<bar>y - 1970\<bar>)") auto

declare year_start.simps [simp del]

section \<open>The C library\<close>

text \<open>\<open>struct tm\<close>, the members that are used: years since 1900, months since January.\<close>

record tm =
  tm_year :: int
  tm_mon :: nat
  tm_mday :: nat
  tm_hour :: nat
  tm_min :: nat
  tm_sec :: nat

text \<open>\<open>gmtime\<close>; \<open>None\<close> is the null pointer for a year that is not an \<open>int\<close>.\<close>

definition gmtime :: "int \<Rightarrow> tm option" where
  "gmtime t =
     (let days = t div 86400; s = nat (t mod 86400);
          (y, yday) = (if days \<ge> 0 then year_after 1970 (nat days) else year_before 1970 (nat (- days)));
          (m, d) = month_of (month_days y) yday in
      if y - 1900 < - (2 ^ 31) \<or> y - 1900 \<ge> 2 ^ 31 then None
      else Some \<lparr>tm_year = y - 1900, tm_mon = m, tm_mday = d + 1,
             tm_hour = s div 3600, tm_min = s div 60 mod 60, tm_sec = s mod 60\<rparr>)"

definition mktime_utc :: "tm \<Rightarrow> int" where
  "mktime_utc t =
     (let y = tm_year t + 1900 in
      (year_start y + int (sum_list (take (tm_mon t) (month_days y))) + int (tm_mday t) - 1) * 86400 +
      int (tm_hour t * 3600 + tm_min t * 60 + tm_sec t))"

definition show_dec2 :: "nat \<Rightarrow> cstr" where
  "show_dec2 n = replicate (2 - length (show_dec n)) 48 @ show_dec n"

definition show_int :: "int \<Rightarrow> cstr" where
  "show_int i = (if i < 0 then 45 # show_dec (nat (- i)) else show_dec (nat i))"

text \<open>\<open>strftime(date, n, "%Y/%m/%d %H:%M", tm)\<close>; \<open>None\<close> is the result 0.\<close>

definition strftime_date :: "nat \<Rightarrow> tm \<Rightarrow> cstr option" where
  "strftime_date n t =
     (let s = show_int (tm_year t + 1900) @ 47 # show_dec2 (tm_mon t + 1) @ 47 # show_dec2 (tm_mday t) @
              32 # show_dec2 (tm_hour t) @ 58 # show_dec2 (tm_min t) in
      if length s < n then Some s else None)"

text \<open>\<open>strptime(s, "%Y/%m/%d %R", tm)\<close> on a structure of zeros: a number has at most \<open>n\<close> digits and stays in its range.\<close>

fun more_digits :: "nat \<Rightarrow> nat \<Rightarrow> nat \<Rightarrow> cstr \<Rightarrow> nat \<times> cstr" where
  "more_digits (Suc n) hi v (c # s) =
     (if v * 10 \<le> hi \<and> is_digit 10 c then more_digits n hi (v * 10 + the (digit_value c)) s else (v, c # s))"
| "more_digits n hi v s = (v, s)"

definition get_number :: "nat \<Rightarrow> nat \<Rightarrow> nat \<Rightarrow> cstr \<Rightarrow> (nat \<times> cstr) option" where
  "get_number lo hi n s =
     (case dropWhile (\<lambda>c. c = 32) s of
        [] \<Rightarrow> None
      | c # s' \<Rightarrow>
          if \<not> is_digit 10 c then None
          else case more_digits (n - 1) hi (the (digit_value c)) s' of
            (v, r) \<Rightarrow> if lo \<le> v \<and> v \<le> hi then Some (v, r) else None)"

definition get_char :: "u8 \<Rightarrow> cstr \<Rightarrow> cstr option" where
  "get_char c s = (case s of [] \<Rightarrow> None | d # r \<Rightarrow> if d = c then Some r else None)"

definition strptime_date :: "cstr \<Rightarrow> tm option" where
  "strptime_date s =
     do { (y, s) \<leftarrow> get_number 0 9999 4 s;
          s \<leftarrow> get_char 47 s;
          (m, s) \<leftarrow> get_number 1 12 2 s;
          s \<leftarrow> get_char 47 s;
          (d, s) \<leftarrow> get_number 1 31 2 s;
          (h, s) \<leftarrow> get_number 0 23 2 (dropWhile is_space s);
          s \<leftarrow> get_char 58 s;
          (mi, s) \<leftarrow> get_number 0 59 2 s;
          Some \<lparr>tm_year = int y - 1900, tm_mon = m - 1, tm_mday = d, tm_hour = h, tm_min = mi, tm_sec = 0\<rparr> }"

text \<open>\<open>wl_timegm\<close>: \<open>mktime\<close> between two changes of the time zone.\<close>

definition wl_timegm :: "tm \<Rightarrow> int" where
  "wl_timegm t = mktime_utc t"

section \<open>Lemmas\<close>

lemma year_start_Suc: "year_start (y + 1) = year_start y + int (year_days y)"
proof (cases "y + 1 > 1970")
  case True
  then show ?thesis by (subst year_start.simps) simp
next
  case False
  then have "year_start y = year_start (y + 1) - int (year_days y)" by (subst year_start.simps) simp
  then show ?thesis by simp
qed

lemma year_after_start:
  "year_after y d = (y', d') \<Longrightarrow> d' < year_days y' \<and> y \<le> y' \<and> year_start y' + int d' = year_start y + int d"
proof (induction y d rule: year_after.induct)
  case (1 y d)
  show ?case
  proof (cases "d < year_days y")
    case True
    then show ?thesis using 1(2) by (simp add: year_after.simps [of y d])
  next
    case False
    then have "year_after (y + 1) (d - year_days y) = (y', d')" using 1(2) by (simp add: year_after.simps [of y d])
    from 1(1) [OF False this] show ?thesis using False by (simp add: year_start_Suc of_nat_diff)
  qed
qed

lemma month_of_sum:
  "month_of ms d = (k, e) \<Longrightarrow> d < sum_list ms \<Longrightarrow> k < length ms \<and> e < ms ! k \<and> sum_list (take k ms) + e = d"
proof (induction ms arbitrary: d k e)
  case Nil
  then show ?case by simp
next
  case (Cons m ms)
  show ?case
  proof (cases "d < m")
    case True
    then show ?thesis using Cons.prems by auto
  next
    case False
    obtain k' e' where m: "month_of ms (d - m) = (k', e')" by fastforce
    then have k: "k = Suc k'" "e' = e" using Cons.prems(1) False by auto
    have "d - m < sum_list ms" using Cons.prems(2) False by simp
    from Cons.IH [OF m this] show ?thesis using False k by auto
  qed
qed

lemma year_days_months: "sum_list (month_days y) = year_days y"
  by (simp add: month_days_def year_days_def)

lemma month_length: "k < 12 \<Longrightarrow> month_days y ! k \<le> 31 \<and> length (month_days y) = 12"
proof -
  assume "k < 12"
  then have "k \<in> set [0..<12]" by simp
  then show ?thesis by (auto simp: month_days_def upt_rec nth_Cons')
qed

lemma show_dec_small: "n < 10 \<Longrightarrow> show_dec n = [of_nat (48 + n)]"
  by (subst show_dec.simps) simp

lemma show_dec_step: "10 \<le> n \<Longrightarrow> show_dec n = show_dec (n div 10) @ [of_nat (48 + n mod 10)]"
  by (subst show_dec.simps) simp

lemma show_dec2_digits: "n < 100 \<Longrightarrow> show_dec2 n = [of_nat (48 + n div 10), of_nat (48 + n mod 10)]"
  by (cases "n < 10") (simp_all add: show_dec2_def show_dec_small show_dec_step)

lemma show_dec_4: "1000 \<le> n \<Longrightarrow> n < 10000 \<Longrightarrow>
  show_dec n = [of_nat (48 + n div 1000), of_nat (48 + n div 100 mod 10), of_nat (48 + n div 10 mod 10), of_nat (48 + n mod 10)]"
  by (simp add: show_dec_step show_dec_small div_mult2_eq [symmetric] del: of_nat_add)

lemma show_dec_long: "10000 \<le> n \<Longrightarrow> 5 \<le> length (show_dec n)"
  by (simp add: show_dec_step Suc_le_eq)

lemma digit_not_space: "n < 10 \<Longrightarrow> of_nat (48 + n) \<noteq> (32 :: u8)"
  using is_digit_sign [OF is_digit_dec [of n]] by (auto simp: is_space_def simp del: of_nat_add)

lemma get_number_2:
  assumes "lo \<le> n" "n \<le> hi" "hi < 100"
  shows "get_number lo hi 2 (show_dec2 n @ s) = Some (n, s)"
proof -
  have d: "n div 10 < 10" "n mod 10 < 10" and n: "n < 100" using assms(2,3) by auto
  have "n div 10 * 10 + n mod 10 = n" by simp
  moreover from this have "n div 10 * 10 \<le> hi" using assms(2) by linarith
  ultimately show ?thesis
    using assms d n digit_not_space [OF d(1)]
    by (simp add: get_number_def show_dec2_digits numeral_2_eq_2 is_digit_dec digit_value_dec del: of_nat_add)
qed

lemma get_digits_4:
  assumes "a < 10" "b < 10" "c < 10" "d < 10"
  shows "get_number 0 9999 4 ([of_nat (48 + a), of_nat (48 + b), of_nat (48 + c), of_nat (48 + d)] @ s)
    = Some (((a * 10 + b) * 10 + c) * 10 + d, s)"
  using assms digit_not_space [OF assms(1)]
  by (simp add: get_number_def numeral_3_eq_3 is_digit_dec digit_value_dec del: of_nat_add)

lemma get_number_4:
  assumes "1000 \<le> n" "n < 10000"
  shows "get_number 0 9999 4 (show_dec n @ s) = Some (n, s)"
proof -
  have "n div 1000 < 10" using assms(2) by simp
  moreover have "((n div 1000 * 10 + n div 100 mod 10) * 10 + n div 10 mod 10) * 10 + n mod 10 = n"
  proof -
    have "n div 1000 = n div 100 div 10" "n div 100 = n div 10 div 10" by (simp_all add: div_mult2_eq [symmetric])
    then show ?thesis by (simp only: div_mult_mod_eq)
  qed
  ultimately show ?thesis
    using get_digits_4 [of "n div 1000" "n div 100 mod 10" "n div 10 mod 10" "n mod 10" s]
    by (simp only: show_dec_4 [OF assms])
qed

text \<open>The number of days before a year, from the number of leap years before it.\<close>

lemma div_step: "(y :: int) div n = (y - 1) div n + (if y mod n = 0 then 1 else 0)" if "n > 0" for n
proof (cases "y mod n = 0")
  case True
  then have "y - 1 = n * (y div n - 1) + (n - 1)" using mult_div_mod_eq [of n y] by (simp add: algebra_simps)
  from int_div_pos_eq [OF this] that have "(y - 1) div n = y div n - 1" by simp
  with True show ?thesis by simp
next
  case False
  have "y - 1 = n * (y div n) + (y mod n - 1)" using mult_div_mod_eq [of n y] by simp
  moreover have "0 < y mod n" "y mod n < n" using False pos_mod_sign [OF that, of y] pos_mod_bound [OF that, of y] by linarith+
  ultimately show ?thesis using int_div_pos_eq [of "y - 1" n "y div n" "y mod n - 1"] False by simp
qed

lemma mod_century: "(y :: int) mod 400 = 0 \<Longrightarrow> y mod 100 = 0" "(y :: int) mod 100 = 0 \<Longrightarrow> y mod 4 = 0"
  by presburger+

lemma leap_count:
  fixes a a' b b' c c' :: int
  assumes "a = a' + (if p then 1 else 0)" "b = b' + (if q then 1 else 0)" "c = c' + (if r then 1 else 0)" "r \<Longrightarrow> q" "q \<Longrightarrow> p"
  shows "a - b + c = a' - b' + c' + (if p \<and> (\<not> q \<or> r) then 1 else 0)"
  unfolding assms(1-3) using assms(4,5) by (cases p; cases q; cases r; simp)

lemma year_start_nat:
  "year_start (1970 + int n) = 365 * int n + ((1969 + int n) div 4 - (1969 + int n) div 100 + (1969 + int n) div 400) - 477"
proof (induction n)
  case 0
  then show ?case by (simp add: year_start.simps)
next
  case (Suc n)
  define y where "y = 1970 + int n"
  have "y div 4 - y div 100 + y div 400 = (y - 1) div 4 - (y - 1) div 100 + (y - 1) div 400 + (if leap y then 1 else 0)"
    unfolding leap_def by (rule leap_count [OF div_step div_step div_step mod_century]) simp_all
  moreover have "year_start (y + 1) = year_start y + 365 + (if leap y then 1 else 0)"
    by (simp add: year_start_Suc year_days_def)
  ultimately show ?case using Suc.IH by (simp add: y_def algebra_simps)
qed

text \<open>Characters of a line that do not begin or end one.\<close>

lemma show_dec_text: "set (show_dec n) \<inter> {0, 10, 13, 32} = {}"
proof -
  have "c \<notin> {0, 10, 13, 32}" if "c \<in> set (show_dec n)" for c
    using is_digit_sign [OF show_dec_digits [OF that]] by (auto simp: is_space_def word_le_nat_alt)
  then show ?thesis by blast
qed

lemma show_dec2_text: "set (show_dec2 n) \<inter> {0, 10, 13, 32} = {}"
  using show_dec_text [of n] by (auto simp: show_dec2_def)

text \<open>
  A time up to the year 9999 is written as 16 characters, and read as the same time up to its seconds.
\<close>

lemma date_text:
  assumes "0 \<le> t" "t < 253402300800"
  shows "\<exists>x s y. gmtime t = Some x \<and> strftime_date 17 x = Some s \<and> length s = 16 \<and> set s \<inter> {0, 10, 13} = {} \<and>
    \<not> is_space (hd s) \<and> strptime_date s = Some y \<and> wl_timegm y = t - t mod 60"
proof -
  obtain y yday where y: "year_after 1970 (nat (t div 86400)) = (y, yday)" by fastforce
  obtain m d where m: "month_of (month_days y) yday = (m, d)" by fastforce
  have days: "t div 86400 \<ge> 0" using assms(1) by simp
  define sec where "sec = nat (t mod 86400)"
  define x where "x = \<lparr>tm_year = y - 1900, tm_mon = m, tm_mday = d + 1, tm_hour = sec div 3600, tm_min = sec div 60 mod 60, tm_sec = sec mod 60\<rparr>"
  note ys = year_after_start [OF y]
  have "yday < sum_list (month_days y)" using ys by (simp add: year_days_months)
  note md = month_of_sum [OF m this]
  have "m < 12" using md by (simp add: month_days_def)
  have "d < 31" using md month_length [OF \<open>m < 12\<close>, of y] by simp
  have sec: "sec < 86400" by (simp add: sec_def nat_less_iff)
  then have "sec div 3600 < 24" by simp
  have ny: "int (nat y) = y" "1970 \<le> nat y" using ys by auto
  have "nat y < 10000"
  proof (rule ccontr)
    assume "\<not> nat y < 10000"
    then have n: "8030 \<le> y - 1970" by simp
    then have "year_start y \<ge> 2932897"
      using year_start_nat [of "nat (y - 1970)"] by simp
    moreover have "year_start y + int yday = t div 86400" using ys days by (simp add: year_start.simps)
    ultimately show False using assms(2) by simp
  qed
  then have gm: "gmtime t = Some x"
    using days y m ny \<open>nat y < 10000\<close> by (simp add: gmtime_def Let_def sec_def x_def split: if_splits)
  define s where "s = show_dec (nat y) @ 47 # show_dec2 (m + 1) @ 47 # show_dec2 (d + 1) @
      32 # show_dec2 (sec div 3600) @ 58 # show_dec2 (sec div 60 mod 60)"
  have "1000 \<le> nat y" using ny by simp
  note y4 = show_dec_4 [OF this \<open>nat y < 10000\<close>]
  have len: "length s = 16"
    using \<open>m < 12\<close> \<open>d < 31\<close> \<open>sec div 3600 < 24\<close> by (simp add: s_def show_dec2_digits y4)
  then have sf: "strftime_date 17 x = Some s" using ys by (simp add: strftime_date_def x_def Let_def show_int_def s_def)
  have chars: "set s \<inter> {0, 10, 13} = {}"
    using show_dec_text [of "nat y"] show_dec2_text [of "m + 1"] show_dec2_text [of "d + 1"] show_dec2_text [of "sec div 3600"]
      show_dec2_text [of "sec div 60 mod 60"] by (auto simp: s_def)
  have hd: "\<not> is_space (hd s)"
    using show_dec_digits [of "hd (show_dec (nat y))" "nat y"] is_digit_sign [of 10] by (simp add: s_def)
  note num = get_number_4 [OF _ \<open>nat y < 10000\<close>] get_number_2 [of 1 "m + 1" 12] get_number_2 [of 1 "d + 1" 31]
    get_number_2 [of 0 "sec div 3600" 23] get_number_2 [of 0 "sec div 60 mod 60" 59]
  have dig: "\<exists>c cs. show_dec2 (sec div 3600) = c # cs \<and> \<not> is_space c"
    using \<open>sec div 3600 < 24\<close> is_digit_sign [OF is_digit_dec [of "sec div 3600 div 10"]]
    by (simp add: show_dec2_digits del: of_nat_add)
  then have sp: "is_space 32" "dropWhile is_space (show_dec2 (sec div 3600) @ r) = show_dec2 (sec div 3600) @ r" for r
    by (auto simp: is_space_def)
  have "sec div 60 mod 60 < 60" by simp
  have r: "strptime_date s = Some \<lparr>tm_year = y - 1900, tm_mon = m, tm_mday = d + 1, tm_hour = sec div 3600, tm_min = sec div 60 mod 60, tm_sec = 0\<rparr>"
    using num [of "_ :: u8 list"] \<open>m < 12\<close> \<open>d < 31\<close> \<open>sec div 3600 < 24\<close> \<open>sec div 60 mod 60 < 60\<close> ny
    by (simp add: strptime_date_def s_def get_char_def sp num [where s = "[]", simplified])
  moreover have "wl_timegm \<lparr>tm_year = y - 1900, tm_mon = m, tm_mday = d + 1, tm_hour = sec div 3600, tm_min = sec div 60 mod 60, tm_sec = 0\<rparr>
      = t - t mod 60"
  proof -
    have "year_start 1970 = 0" by (simp add: year_start.simps)
    then have "year_start y + int yday = t div 86400" using ys days by simp
    then have days: "year_start y + int (sum_list (take m (month_days y))) + int (d + 1) - 1 = t div 86400" using md by linarith
    have "sec div 3600 = sec div 60 div 60" by (simp add: div_mult2_eq [symmetric])
    then have "sec div 3600 * 60 + sec div 60 mod 60 = sec div 60" by (simp only: div_mult_mod_eq)
    then have "sec div 3600 * 3600 + sec div 60 mod 60 * 60 + 0 = sec div 60 * 60" by linarith
    moreover have "sec div 60 * 60 = sec - sec mod 60" by (rule minus_mod_eq_div_mult [symmetric])
    moreover have "int (sec - sec mod 60) = int sec - int sec mod 60" by (simp add: of_nat_diff zmod_int)
    ultimately have "int (sec div 3600 * 3600 + sec div 60 mod 60 * 60 + 0) = int sec - int sec mod 60" by metis
    moreover have "int sec = t mod 86400" by (simp add: sec_def)
    moreover have "t mod 86400 mod 60 = t mod 60" by (rule mod_mod_cancel) simp
    ultimately have secs: "int (sec div 3600 * 3600 + sec div 60 mod 60 * 60 + 0) = t mod 86400 - t mod 60" by (simp only:)
    show ?thesis
      unfolding wl_timegm_def mktime_utc_def Let_def tm.select_convs diff_add_cancel days secs
      using div_mult_mod_eq [of t 86400] by (simp only: add_diff_eq)
  qed
  ultimately show ?thesis using gm sf len chars hd by blast
qed

end
