(* ===== verification/Wl2mime.thy ===== *)
theory Wl2mime
  imports Calendar
begin

text \<open>
  wl2mime.c: the conversion of a received Winlink message to MIME.  The MIME message is built by calls of the
  GMime library, which are recorded in the order they are made; the text \<open>g_mime_object_to_string\<close> makes of
  them is the parameter \<open>to_text\<close>.  \<open>Inl\<close> is the status of a call of \<open>exit\<close>.
\<close>

section \<open>Data\<close>

datatype mailbox = Sender | To | Cc | Bcc | Reply_To

text \<open>
  \<open>Add_part t s c f b\<close>: a part of type \<open>t/s\<close> with content \<open>c\<close>, and for an attachment its file name and the encoding
  base 64.
\<close>

datatype gmime_call =
    Set_message_id cstr
  | Set_date int
  | Add_mailbox mailbox cstr
  | Set_subject cstr
  | Add_part cstr cstr "u8 list" "cstr option" bool

section \<open>Operations\<close>

text \<open>A call of \<open>buffer_addstring\<close> whose result is ignored.\<close>

definition add_string :: "mem \<Rightarrow> buffer \<Rightarrow> cstr \<Rightarrow> buffer" where
  "add_string al b s = snd (buffer_addstring al b s)"

text \<open>The first loop: lines up to an empty one go to \<open>hbuf\<close>.\<close>

definition head_step :: "mem \<Rightarrow> buffer \<times> buffer \<Rightarrow> ((buffer \<times> buffer) + (buffer \<times> buffer)) option" where
  "head_step al = (\<lambda>(ibuf, hbuf).
     do { (line, ibuf') \<leftarrow> buffer_getline al ibuf 10;
          Some (case line of
             None \<Rightarrow> Inr (ibuf', hbuf)
           | Some line \<Rightarrow>
               if take 1 line = [13] \<or> take 1 line = [10] then Inr (ibuf', hbuf)
               else Inl (ibuf', add_string al hbuf line)) })"

text \<open>\<open>while (len--) \<dots>\<close>: beyond the end \<open>buffer_iterchar\<close> gives -1, which is stored as the byte 255.\<close>

primrec read_part :: "nat \<Rightarrow> buffer \<Rightarrow> (u8 list \<times> buffer) option" where
  "read_part 0 b = Some ([], b)"
| "read_part (Suc n) b =
     do { (c, b) \<leftarrow> buffer_iterchar b;
          (cs, b) \<leftarrow> read_part n b;
          Some ((case c of None \<Rightarrow> 255 | Some c \<Rightarrow> c) # cs, b) }"

text \<open>The address of a mailbox: without the prefix \<open>SMTP:\<close> it is one at winlink.org.\<close>

definition mailbox_address :: "mem \<Rightarrow> cstr \<Rightarrow> int + cstr" where
  "mailbox_address al linedata =
     (if strcasebegins linedata (bytes ''SMTP:'') then Inr (drop 5 linedata)
      else let smtp = linedata @ bytes ''@winlink.org'' in
        if granted al (length smtp + 1) then Inr smtp else Inl 1)"

definition mailbox_line :: "mem \<Rightarrow> mailbox \<Rightarrow> cstr \<Rightarrow> buffer \<Rightarrow> int + (gmime_call list \<times> buffer)" where
  "mailbox_line al kind linedata bbuf =
     (case mailbox_address al linedata of Inl n \<Rightarrow> Inl n | Inr a \<Rightarrow> Inr ([Add_mailbox kind a], bbuf))"

definition body_line :: "cstr \<Rightarrow> buffer \<Rightarrow> (gmime_call list \<times> buffer) option" where
  "body_line linedata bbuf =
     do { (cs, bbuf) \<leftarrow> read_part (fst (strtoul 10 linedata)) bbuf;
          Some ([Add_part (bytes ''text'') (bytes ''plain'') cs None False], bbuf) }"

definition file_line :: "cstr \<Rightarrow> buffer \<Rightarrow> (gmime_call list \<times> buffer) option" where
  "file_line linedata bbuf =
     do { let (len, endp) = strtoul 10 linedata;
          (_, bbuf) \<leftarrow> buffer_iterchar bbuf;
          (_, bbuf) \<leftarrow> buffer_iterchar bbuf;
          (cs, bbuf) \<leftarrow> read_part len bbuf;
          Some ([Add_part (bytes ''application'') (bytes ''octet-stream'') cs (Some (dropWhile is_space endp)) True], bbuf) }"

text \<open>
  One header line, the body of the second loop; every keyword ends in a colon, so that \<open>linedata\<close> is not null where
  it is used.
\<close>

definition header_line :: "mem \<Rightarrow> cstr \<Rightarrow> buffer \<Rightarrow> (int + (gmime_call list \<times> buffer)) option" where
  "header_line al line bbuf =
     (let line = strzapcc line;
          linedata = map_option (\<lambda>p. dropWhile is_space (drop 1 p)) (strchr line 58);
          keyword = (\<lambda>k. strcasebegins line (bytes k)) in
      if keyword ''Mid:'' then do { d \<leftarrow> linedata; Some (Inr ([Set_message_id d], bbuf)) }
      else if keyword ''Date:'' then
        do { d \<leftarrow> linedata;
             Some (Inr (case strptime_date d of None \<Rightarrow> [] | Some tm \<Rightarrow> [Set_date (wl_timegm tm)], bbuf)) }
      else if keyword ''From:'' then do { d \<leftarrow> linedata; Some (mailbox_line al Sender d bbuf) }
      else if keyword ''To:'' then do { d \<leftarrow> linedata; Some (mailbox_line al To d bbuf) }
      else if keyword ''Cc:'' then do { d \<leftarrow> linedata; Some (mailbox_line al Cc d bbuf) }
      else if keyword ''Bcc:'' then do { d \<leftarrow> linedata; Some (mailbox_line al Bcc d bbuf) }
      else if keyword ''Reply-To:'' then do { d \<leftarrow> linedata; Some (Inr ([Add_mailbox Reply_To d], bbuf)) }
      else if keyword ''Subject:'' then do { d \<leftarrow> linedata; Some (Inr ([Set_subject d], bbuf)) }
      else if keyword ''Body:'' then do { d \<leftarrow> linedata; map_option Inr (body_line d bbuf) }
      else if keyword ''File:'' then do { d \<leftarrow> linedata; map_option Inr (file_line d bbuf) }
      else Some (Inr ([], bbuf)))"

text \<open>The second loop; its state is \<open>hbuf\<close>, \<open>bbuf\<close> and the calls made.\<close>

definition header_step :: "mem \<Rightarrow> buffer \<times> buffer \<times> gmime_call list \<Rightarrow>
    ((buffer \<times> buffer \<times> gmime_call list) + (int + gmime_call list)) option" where
  "header_step al = (\<lambda>(hbuf, bbuf, calls).
     do { (line, hbuf) \<leftarrow> buffer_getline al hbuf 10;
          case line of
            None \<Rightarrow> Some (Inr (Inr calls))
          | Some line \<Rightarrow>
              do { r \<leftarrow> header_line al line bbuf;
                   Some (case r of Inl n \<Rightarrow> Inr (Inl n) | Inr (cs, bbuf) \<Rightarrow> Inl (hbuf, bbuf, calls @ cs)) } })"

text \<open>
  \<open>wl2mime\<close>; the loop that moves the rest of \<open>ibuf\<close> to \<open>bbuf\<close> is the one of \<open>buffer_addbuf\<close>, without the rewinding.
\<close>

definition wl2mime :: "mem \<Rightarrow> (gmime_call list \<Rightarrow> cstr) \<Rightarrow> buffer \<Rightarrow> (int + buffer option) option" where
  "wl2mime al to_text ibuf =
     (case buffer_new al of
        None \<Rightarrow> Some (Inr None)
      | Some hbuf \<Rightarrow>
        (case buffer_new al of
           None \<Rightarrow> Some (Inr None)
         | Some bbuf \<Rightarrow>
             do { (ibuf, hbuf) \<leftarrow> loop (head_step al) (ibuf, hbuf);
                  (bbuf, _) \<leftarrow> buffer_addbuf_loop al bbuf ibuf;
                  r \<leftarrow> loop (header_step al) (buffer_rewind hbuf, buffer_rewind bbuf, []);
                  Some (case r of
                     Inl n \<Rightarrow> Inl n
                   | Inr calls \<Rightarrow>
                       (case buffer_new al of
                          None \<Rightarrow> Inr None
                        | Some obuf \<Rightarrow> Inr (Some (add_string al obuf (to_text calls))))) }))"

section \<open>Lemmas\<close>

lemma add_string_plenty:
  assumes "buffer_inv b" "plenty al (2 * (dlen b + length s))"
  shows "buffer_inv (add_string al b s) \<and> contents (add_string al b s) = contents b @ s"
  using buffer_addstring_plenty [OF assms] by (auto simp: add_string_def)

text \<open>Reading a part that is there.\<close>

lemma read_part_unread:
  "buffer_inv b \<Longrightarrow> unread b = cs @ rest \<Longrightarrow>
   \<exists>b'. read_part (length cs) b = Some (cs, b') \<and> buffer_inv b' \<and> unread b' = rest"
proof (induction cs arbitrary: b)
  case Nil
  then show ?case by simp
next
  case (Cons c cs)
  obtain b1 where b1: "buffer_iterchar b = Some (Some c, b1)" "buffer_inv b1" "unread b1 = cs @ rest"
    using src.get_byte [OF Cons.prems(1), of c "cs @ rest"] Cons.prems(2) by auto
  with Cons.IH [OF b1(2,3)] show ?case by auto
qed

text \<open>Reading on at the end.\<close>

lemma read_part_end: "buffer_inv b \<Longrightarrow> unread b = [] \<Longrightarrow> read_part n b = Some (replicate n 255, b)"
  by (induction n) (simp_all add: src.get_end)

lemma read_part_add: "read_part (m + n) b = do { (xs, b) \<leftarrow> read_part m b; (ys, b) \<leftarrow> read_part n b; Some (xs @ ys, b) }"
  by (induction m arbitrary: b) (auto split: bind_splits option.splits)

lemma read_part_padded:
  assumes "buffer_inv b"
  shows "\<exists>b'. read_part n b = Some (take n (unread b) @ replicate (n - length (unread b)) 255, b') \<and> buffer_inv b' \<and>
    unread b' = drop n (unread b)"
proof (cases "n \<le> length (unread b)")
  case True
  then show ?thesis
    using read_part_unread [OF assms, of "take n (unread b)" "drop n (unread b)"] by simp
next
  case False
  then obtain k where k: "n = length (unread b) + k" using less_imp_add_positive by (metis not_le_imp_less)
  obtain b1 where b1: "read_part (length (unread b)) b = Some (unread b, b1)" "buffer_inv b1" "unread b1 = []"
    using read_part_unread [OF assms, of "unread b" "[]"] by auto
  with read_part_end [OF b1(2,3), of k] show ?thesis by (auto simp: k read_part_add)
qed

section \<open>Header lines\<close>

text \<open>A line of text, and the lines of a header.\<close>

definition crlf :: "u8 list" where "crlf = [13, 10]"

definition text_line :: "cstr \<Rightarrow> bool" where
  "text_line l \<longleftrightarrow> l \<noteq> [] \<and> set l \<inter> {0, 10, 13} = {}"

fun lines :: "cstr list \<Rightarrow> u8 list" where
  "lines [] = []"
| "lines (l # ls) = l @ crlf @ lines ls"

lemma lines_append [simp]: "lines (xs @ ys) = lines xs @ lines ys"
  by (induction xs) simp_all

lemma line_split:
  assumes "set l \<inter> {0, 10, 13} = {}"
  shows "line_of 10 (l @ crlf @ r) = l @ crlf" "after_line 10 (l @ crlf @ r) = r" "cut_nul (l @ crlf) = l @ crlf"
    "strzapcc (l @ crlf) = l"
proof -
  have l: "\<forall>c \<in> set l. c \<noteq> 0 \<and> c \<noteq> 10 \<and> c \<noteq> 13" using assms by auto
  show lo: "line_of 10 (l @ crlf @ r) = l @ crlf"
    using l by (simp add: line_of_def crlf_def takeWhile_append2)
  then show "after_line 10 (l @ crlf @ r) = r" by (simp add: after_line_def)
  show "cut_nul (l @ crlf) = l @ crlf" using l by (intro cut_nul_id) (auto simp: crlf_def)
  show "strzapcc (l @ crlf) = l" using l by (simp add: strzapcc_line crlf_def takeWhile_append2)
qed

text \<open>The lines of a header processed one after the other.\<close>

fun header_lines :: "mem \<Rightarrow> cstr list \<Rightarrow> buffer \<Rightarrow> (int + (gmime_call list \<times> buffer)) option" where
  "header_lines al [] b = Some (Inr ([], b))"
| "header_lines al (l # ls) b =
     do { r \<leftarrow> header_line al l b;
          case r of
            Inl n \<Rightarrow> Some (Inl n)
          | Inr (cs, b) \<Rightarrow>
              do { s \<leftarrow> header_lines al ls b;
                   Some (case s of Inl n \<Rightarrow> Inl n | Inr (ds, b) \<Rightarrow> Inr (cs @ ds, b)) } }"

lemma header_lines_append:
  "header_lines al xs b = Some (Inr (cs, b1)) \<Longrightarrow> header_lines al ys b1 = Some (Inr (ds, b2)) \<Longrightarrow>
   header_lines al (xs @ ys) b = Some (Inr (cs @ ds, b2))"
  by (induction xs arbitrary: b cs) (auto split: bind_splits sum.splits)

lemma head_loop:
  assumes "\<forall>l \<in> set ls. text_line l" "buffer_inv i" "buffer_inv h" "unread i = lines ls @ crlf @ rest"
    and "plenty al (32 + 2 * (dlen h + length (unread i)))"
  shows "\<exists>i' h'. loop (head_step al) (i, h) = Some (i', h') \<and> buffer_inv i' \<and> unread i' = rest \<and>
    buffer_inv h' \<and> contents h' = contents h @ lines ls"
  using assms
proof (induction ls arbitrary: i h)
  case Nil
  then have u: "unread i = [] @ crlf @ rest" by simp
  note sp = line_split(1,2) [of "[]" rest, simplified] line_split(3) [of "[]", simplified]
  have "plenty al (32 + 2 * length (unread i))" by (rule plenty_le [OF Nil.prems(5)]) simp
  moreover have "unread i \<noteq> []" by (simp add: u crlf_def)
  ultimately obtain i' where "buffer_getline al i 10 = Some (Some crlf, i')" "buffer_inv i'" "unread i' = rest"
    using buffer_getline_line [OF Nil.prems(2), of al 10] sp by (auto simp: u)
  then have "head_step al (i, h) = Some (Inr (i', h))" "buffer_inv i'" "unread i' = rest"
    by (simp_all add: head_step_def crlf_def)
  then show ?case using Nil.prems(3) by (auto simp: loop_exit)
next
  case (Cons l ls)
  then have l: "set l \<inter> {0, 10, 13} = {}" "l \<noteq> []" and u: "unread i = l @ crlf @ lines ls @ crlf @ rest"
    by (simp_all add: text_line_def)
  note sp = line_split(1,2) [OF l(1), of "lines ls @ crlf @ rest"] line_split(3) [OF l(1)]
  have "plenty al (32 + 2 * length (unread i))" by (rule plenty_le [OF Cons.prems(5)]) simp
  moreover have "unread i \<noteq> []" by (simp add: u crlf_def)
  ultimately obtain i' where i': "buffer_getline al i 10 = Some (Some (l @ crlf), i')" "buffer_inv i'"
      "unread i' = lines ls @ crlf @ rest"
    using buffer_getline_line [OF Cons.prems(2), of al 10] sp by (auto simp: u)
  have "plenty al (2 * (dlen h + length (l @ crlf)))" by (rule plenty_le [OF Cons.prems(5)]) (simp add: u)
  note h' = add_string_plenty [OF Cons.prems(3) this]
  have "dlen (add_string al h (l @ crlf)) = dlen h + length (l @ crlf)"
    using h' length_contents [of "add_string al h (l @ crlf)"] length_contents [OF Cons.prems(3)] by simp
  then have "plenty al (32 + 2 * (dlen (add_string al h (l @ crlf)) + length (unread i')))"
    using Cons.prems(5) by (simp add: u i'(3) algebra_simps)
  moreover have "take 1 (l @ crlf) \<noteq> [13] \<and> take 1 (l @ crlf) \<noteq> [10]" using l by (cases l) auto
  then have "head_step al (i, h) = Some (Inl (i', add_string al h (l @ crlf)))"
    using i'(1) by (simp add: head_step_def)
  ultimately show ?case
    using Cons.IH [OF _ i'(2) _ i'(3), of "add_string al h (l @ crlf)"] Cons.prems(1) h' by (simp add: loop_next)
qed

lemma header_loop:
  assumes "\<forall>l \<in> set ls. text_line l" "buffer_inv h" "unread h = lines ls" "plenty al (32 + 2 * length (unread h))"
    and "header_lines al (map (\<lambda>l. l @ crlf) ls) b = Some r"
  shows "loop (header_step al) (h, b, cs) = Some (case r of Inl n \<Rightarrow> Inl n | Inr (ds, _) \<Rightarrow> Inr (cs @ ds))"
  using assms
proof (induction ls arbitrary: h b cs r)
  case Nil
  then have "buffer_getline al h 10 = Some (None, h)" by (intro buffer_getline_eof) simp_all
  then have "header_step al (h, b, cs) = Some (Inr (Inr cs))" by (simp add: header_step_def)
  then show ?case using Nil by (auto simp: loop_exit)
next
  case (Cons l ls)
  then have l: "set l \<inter> {0, 10, 13} = {}" "l \<noteq> []" and u: "unread h = l @ crlf @ lines ls"
    by (simp_all add: text_line_def)
  note sp = line_split(1,2) [OF l(1), of "lines ls"] line_split(3) [OF l(1)]
  have "unread h \<noteq> []" by (simp add: u crlf_def)
  then obtain h' where h': "buffer_getline al h 10 = Some (Some (l @ crlf), h')" "buffer_inv h'" "unread h' = lines ls"
    using buffer_getline_line [OF Cons.prems(2) _ Cons.prems(4), of 10] sp by (auto simp: u)
  obtain x where x: "header_line al (l @ crlf) b = Some x" using Cons.prems(5) by (auto split: bind_splits)
  show ?case
  proof (cases x)
    case (Inl n)
    then have "header_step al (h, b, cs) = Some (Inr (Inl n))" using h'(1) x by (simp add: header_step_def)
    then show ?thesis using Cons.prems(5) x Inl by (auto simp: loop_exit)
  next
    case (Inr y)
    obtain ds b' where y: "y = (ds, b')" by fastforce
    obtain s where s: "header_lines al (map (\<lambda>l. l @ crlf) ls) b' = Some s"
        "r = (case s of Inl n \<Rightarrow> Inl n | Inr (es, b) \<Rightarrow> Inr (ds @ es, b))"
      using Cons.prems(5) x Inr y by (auto split: bind_splits)
    have "header_step al (h, b, cs) = Some (Inl (h', b', cs @ ds))" using h'(1) x Inr y by (simp add: header_step_def)
    moreover have "plenty al (32 + 2 * length (unread h'))" by (rule plenty_le [OF Cons.prems(4)]) (simp add: u h'(3))
    ultimately show ?thesis
      using Cons.IH [OF _ h'(2,3) _ s(1), of "cs @ ds"] Cons.prems(1) s(2) by (auto simp: loop_next split: sum.split)
  qed
qed

text \<open>The whole conversion of a text with a header, an empty line, and the contents of the parts.\<close>

lemma wl2mime_text:
  assumes "\<forall>l \<in> set ls. text_line l" "buffer_inv ibuf" "unread ibuf = lines ls @ crlf @ rest"
    and "plenty al (64 + 2 * length (unread ibuf))"
    and "\<And>b. buffer_inv b \<Longrightarrow> unread b = rest \<Longrightarrow>
       \<exists>b'. header_lines al (map (\<lambda>l. l @ crlf) ls) b = Some (Inr (calls, b'))"
    and "plenty al (2 * length (to_text calls))"
  shows "\<exists>obuf. wl2mime al to_text ibuf = Some (Inr (Some obuf)) \<and> buffer_inv obuf \<and> contents obuf = to_text calls"
proof -
  have "plenty al 32" by (rule plenty_le [OF assms(4)]) simp
  from buffer_new_plenty [OF this] obtain e where e: "buffer_new al = Some e" by auto
  then have fresh: "buffer_inv e" "contents e = []" "dlen e = 0" using buffer_new_fresh by blast+
  have "plenty al (32 + 2 * (dlen e + length (unread ibuf)))" by (rule plenty_le [OF assms(4)]) (simp add: fresh)
  from head_loop [OF assms(1,2) fresh(1) assms(3) this] obtain i h where
      h: "loop (head_step al) (ibuf, e) = Some (i, h)" "buffer_inv i" "unread i = rest" "buffer_inv h" "contents h = lines ls"
    using fresh(2) by auto
  have "plenty al (2 * (dlen e + length (unread i)))" by (rule plenty_le [OF assms(4)]) (simp add: fresh h(3) assms(3))
  from buffer_addbuf_loop_contents [OF fresh(1) h(2) this] obtain b i' where
      b: "buffer_addbuf_loop al e i = Some (b, i')" "buffer_inv b" "contents b = rest"
    using fresh(2) h(3) by auto
  obtain b' where hl: "header_lines al (map (\<lambda>l. l @ crlf) ls) (buffer_rewind b) = Some (Inr (calls, b'))"
    using assms(5) [of "buffer_rewind b"] b by auto
  have "plenty al (32 + 2 * length (unread (buffer_rewind h)))" by (rule plenty_le [OF assms(4)]) (simp add: h(5) assms(3))
  from header_loop [OF assms(1) _ _ this hl, of "[]"] h(4,5)
  have "loop (header_step al) (buffer_rewind h, buffer_rewind b, []) = Some (Inr calls)" by simp
  moreover have "plenty al (2 * (dlen e + length (to_text calls)))" by (rule plenty_le [OF assms(6)]) (simp add: fresh)
  note add_string_plenty [OF fresh(1) this]
  ultimately show ?thesis using e h(1) b(1) fresh(2) by (simp add: wl2mime_def)
qed

end
