(* ===== verification/Lzhuf_Tables.thy ===== *)
theory Lzhuf_Tables
  imports Prelude
begin

text \<open>
  The constants and the constant tables of lzhuf_1.c, and what they must satisfy: the CRC table
  is the byte-wise step of the CRC-16 polynomial \<open>0x1021\<close>, and the two position tables are the
  two directions of one prefix code on six bits.
\<close>

section \<open>Constants\<close>

definition LZ_N :: nat where "LZ_N = 2048"
definition LZ_F :: nat where "LZ_F = 60"
definition THRESHOLD :: nat where "THRESHOLD = 2"
definition NIL :: nat where "NIL = LZ_N"
definition RSONSZE :: nat where "RSONSZE = LZ_N + 256 + 1"
definition N_CHAR :: nat where "N_CHAR = 256 - THRESHOLD + LZ_F"
definition HT :: nat where "HT = N_CHAR * 2 - 1"
definition HR :: nat where "HR = HT - 1"
definition MAX_FREQ :: nat where "MAX_FREQ = 0x8000"

section \<open>Tables\<close>

definition crctab :: "u16 list" where
  "crctab = [
   0x0, 0x1021, 0x2042, 0x3063, 0x4084, 0x50a5, 0x60c6, 0x70e7,
   0x8108, 0x9129, 0xa14a, 0xb16b, 0xc18c, 0xd1ad, 0xe1ce, 0xf1ef,
   0x1231, 0x210, 0x3273, 0x2252, 0x52b5, 0x4294, 0x72f7, 0x62d6,
   0x9339, 0x8318, 0xb37b, 0xa35a, 0xd3bd, 0xc39c, 0xf3ff, 0xe3de,
   0x2462, 0x3443, 0x420, 0x1401, 0x64e6, 0x74c7, 0x44a4, 0x5485,
   0xa56a, 0xb54b, 0x8528, 0x9509, 0xe5ee, 0xf5cf, 0xc5ac, 0xd58d,
   0x3653, 0x2672, 0x1611, 0x630, 0x76d7, 0x66f6, 0x5695, 0x46b4,
   0xb75b, 0xa77a, 0x9719, 0x8738, 0xf7df, 0xe7fe, 0xd79d, 0xc7bc,
   0x48c4, 0x58e5, 0x6886, 0x78a7, 0x840, 0x1861, 0x2802, 0x3823,
   0xc9cc, 0xd9ed, 0xe98e, 0xf9af, 0x8948, 0x9969, 0xa90a, 0xb92b,
   0x5af5, 0x4ad4, 0x7ab7, 0x6a96, 0x1a71, 0xa50, 0x3a33, 0x2a12,
   0xdbfd, 0xcbdc, 0xfbbf, 0xeb9e, 0x9b79, 0x8b58, 0xbb3b, 0xab1a,
   0x6ca6, 0x7c87, 0x4ce4, 0x5cc5, 0x2c22, 0x3c03, 0xc60, 0x1c41,
   0xedae, 0xfd8f, 0xcdec, 0xddcd, 0xad2a, 0xbd0b, 0x8d68, 0x9d49,
   0x7e97, 0x6eb6, 0x5ed5, 0x4ef4, 0x3e13, 0x2e32, 0x1e51, 0xe70,
   0xff9f, 0xefbe, 0xdfdd, 0xcffc, 0xbf1b, 0xaf3a, 0x9f59, 0x8f78,
   0x9188, 0x81a9, 0xb1ca, 0xa1eb, 0xd10c, 0xc12d, 0xf14e, 0xe16f,
   0x1080, 0xa1, 0x30c2, 0x20e3, 0x5004, 0x4025, 0x7046, 0x6067,
   0x83b9, 0x9398, 0xa3fb, 0xb3da, 0xc33d, 0xd31c, 0xe37f, 0xf35e,
   0x2b1, 0x1290, 0x22f3, 0x32d2, 0x4235, 0x5214, 0x6277, 0x7256,
   0xb5ea, 0xa5cb, 0x95a8, 0x8589, 0xf56e, 0xe54f, 0xd52c, 0xc50d,
   0x34e2, 0x24c3, 0x14a0, 0x481, 0x7466, 0x6447, 0x5424, 0x4405,
   0xa7db, 0xb7fa, 0x8799, 0x97b8, 0xe75f, 0xf77e, 0xc71d, 0xd73c,
   0x26d3, 0x36f2, 0x691, 0x16b0, 0x6657, 0x7676, 0x4615, 0x5634,
   0xd94c, 0xc96d, 0xf90e, 0xe92f, 0x99c8, 0x89e9, 0xb98a, 0xa9ab,
   0x5844, 0x4865, 0x7806, 0x6827, 0x18c0, 0x8e1, 0x3882, 0x28a3,
   0xcb7d, 0xdb5c, 0xeb3f, 0xfb1e, 0x8bf9, 0x9bd8, 0xabbb, 0xbb9a,
   0x4a75, 0x5a54, 0x6a37, 0x7a16, 0xaf1, 0x1ad0, 0x2ab3, 0x3a92,
   0xfd2e, 0xed0f, 0xdd6c, 0xcd4d, 0xbdaa, 0xad8b, 0x9de8, 0x8dc9,
   0x7c26, 0x6c07, 0x5c64, 0x4c45, 0x3ca2, 0x2c83, 0x1ce0, 0xcc1,
   0xef1f, 0xff3e, 0xcf5d, 0xdf7c, 0xaf9b, 0xbfba, 0x8fd9, 0x9ff8,
   0x6e17, 0x7e36, 0x4e55, 0x5e74, 0x2e93, 0x3eb2, 0xed1, 0x1ef0]"

definition p_len :: "nat list" where
  "p_len = [
   3, 4, 4, 4, 5, 5, 5, 5, 5, 5, 5, 5, 6, 6, 6, 6,
   6, 6, 6, 6, 6, 6, 6, 6, 7, 7, 7, 7, 7, 7, 7, 7,
   7, 7, 7, 7, 7, 7, 7, 7, 7, 7, 7, 7, 7, 7, 7, 7,
   8, 8, 8, 8, 8, 8, 8, 8, 8, 8, 8, 8, 8, 8, 8, 8]"

definition p_code :: "nat list" where
  "p_code = [
   0x0, 0x20, 0x30, 0x40, 0x50, 0x58, 0x60, 0x68, 0x70, 0x78, 0x80, 0x88, 0x90, 0x94, 0x98, 0x9c,
   0xa0, 0xa4, 0xa8, 0xac, 0xb0, 0xb4, 0xb8, 0xbc, 0xc0, 0xc2, 0xc4, 0xc6, 0xc8, 0xca, 0xcc, 0xce,
   0xd0, 0xd2, 0xd4, 0xd6, 0xd8, 0xda, 0xdc, 0xde, 0xe0, 0xe2, 0xe4, 0xe6, 0xe8, 0xea, 0xec, 0xee,
   0xf0, 0xf1, 0xf2, 0xf3, 0xf4, 0xf5, 0xf6, 0xf7, 0xf8, 0xf9, 0xfa, 0xfb, 0xfc, 0xfd, 0xfe, 0xff]"

definition d_code :: "nat list" where
  "d_code = [
   0x0, 0x0, 0x0, 0x0, 0x0, 0x0, 0x0, 0x0, 0x0, 0x0, 0x0, 0x0, 0x0, 0x0, 0x0, 0x0,
   0x0, 0x0, 0x0, 0x0, 0x0, 0x0, 0x0, 0x0, 0x0, 0x0, 0x0, 0x0, 0x0, 0x0, 0x0, 0x0,
   0x1, 0x1, 0x1, 0x1, 0x1, 0x1, 0x1, 0x1, 0x1, 0x1, 0x1, 0x1, 0x1, 0x1, 0x1, 0x1,
   0x2, 0x2, 0x2, 0x2, 0x2, 0x2, 0x2, 0x2, 0x2, 0x2, 0x2, 0x2, 0x2, 0x2, 0x2, 0x2,
   0x3, 0x3, 0x3, 0x3, 0x3, 0x3, 0x3, 0x3, 0x3, 0x3, 0x3, 0x3, 0x3, 0x3, 0x3, 0x3,
   0x4, 0x4, 0x4, 0x4, 0x4, 0x4, 0x4, 0x4, 0x5, 0x5, 0x5, 0x5, 0x5, 0x5, 0x5, 0x5,
   0x6, 0x6, 0x6, 0x6, 0x6, 0x6, 0x6, 0x6, 0x7, 0x7, 0x7, 0x7, 0x7, 0x7, 0x7, 0x7,
   0x8, 0x8, 0x8, 0x8, 0x8, 0x8, 0x8, 0x8, 0x9, 0x9, 0x9, 0x9, 0x9, 0x9, 0x9, 0x9,
   0xa, 0xa, 0xa, 0xa, 0xa, 0xa, 0xa, 0xa, 0xb, 0xb, 0xb, 0xb, 0xb, 0xb, 0xb, 0xb,
   0xc, 0xc, 0xc, 0xc, 0xd, 0xd, 0xd, 0xd, 0xe, 0xe, 0xe, 0xe, 0xf, 0xf, 0xf, 0xf,
   0x10, 0x10, 0x10, 0x10, 0x11, 0x11, 0x11, 0x11, 0x12, 0x12, 0x12, 0x12, 0x13, 0x13, 0x13, 0x13,
   0x14, 0x14, 0x14, 0x14, 0x15, 0x15, 0x15, 0x15, 0x16, 0x16, 0x16, 0x16, 0x17, 0x17, 0x17, 0x17,
   0x18, 0x18, 0x19, 0x19, 0x1a, 0x1a, 0x1b, 0x1b, 0x1c, 0x1c, 0x1d, 0x1d, 0x1e, 0x1e, 0x1f, 0x1f,
   0x20, 0x20, 0x21, 0x21, 0x22, 0x22, 0x23, 0x23, 0x24, 0x24, 0x25, 0x25, 0x26, 0x26, 0x27, 0x27,
   0x28, 0x28, 0x29, 0x29, 0x2a, 0x2a, 0x2b, 0x2b, 0x2c, 0x2c, 0x2d, 0x2d, 0x2e, 0x2e, 0x2f, 0x2f,
   0x30, 0x31, 0x32, 0x33, 0x34, 0x35, 0x36, 0x37, 0x38, 0x39, 0x3a, 0x3b, 0x3c, 0x3d, 0x3e, 0x3f]"

definition d_len :: "nat list" where
  "d_len = [
   3, 3, 3, 3, 3, 3, 3, 3, 3, 3, 3, 3, 3, 3, 3, 3,
   3, 3, 3, 3, 3, 3, 3, 3, 3, 3, 3, 3, 3, 3, 3, 3,
   4, 4, 4, 4, 4, 4, 4, 4, 4, 4, 4, 4, 4, 4, 4, 4,
   4, 4, 4, 4, 4, 4, 4, 4, 4, 4, 4, 4, 4, 4, 4, 4,
   4, 4, 4, 4, 4, 4, 4, 4, 4, 4, 4, 4, 4, 4, 4, 4,
   5, 5, 5, 5, 5, 5, 5, 5, 5, 5, 5, 5, 5, 5, 5, 5,
   5, 5, 5, 5, 5, 5, 5, 5, 5, 5, 5, 5, 5, 5, 5, 5,
   5, 5, 5, 5, 5, 5, 5, 5, 5, 5, 5, 5, 5, 5, 5, 5,
   5, 5, 5, 5, 5, 5, 5, 5, 5, 5, 5, 5, 5, 5, 5, 5,
   6, 6, 6, 6, 6, 6, 6, 6, 6, 6, 6, 6, 6, 6, 6, 6,
   6, 6, 6, 6, 6, 6, 6, 6, 6, 6, 6, 6, 6, 6, 6, 6,
   6, 6, 6, 6, 6, 6, 6, 6, 6, 6, 6, 6, 6, 6, 6, 6,
   7, 7, 7, 7, 7, 7, 7, 7, 7, 7, 7, 7, 7, 7, 7, 7,
   7, 7, 7, 7, 7, 7, 7, 7, 7, 7, 7, 7, 7, 7, 7, 7,
   7, 7, 7, 7, 7, 7, 7, 7, 7, 7, 7, 7, 7, 7, 7, 7,
   8, 8, 8, 8, 8, 8, 8, 8, 8, 8, 8, 8, 8, 8, 8, 8]"

lemma length_tables [simp]:
  "length crctab = 256" "length p_len = 64" "length p_code = 64" "length d_code = 256"
  "length d_len = 256"
  by (simp_all add: crctab_def p_len_def p_code_def d_code_def d_len_def)

section \<open>The CRC table\<close>

text \<open>
  The bit-serial definition of the CRC that the table tabulates: shift the register left and, when
  a one falls out, subtract the polynomial.  The step is linear, which is why a table of 256 entries
  (here: eight doublings) is enough.
\<close>

definition crc_shift :: "u16 \<Rightarrow> u16" where
  "crc_shift x = (if bit x 15 then push_bit 1 x XOR 0x1021 else push_bit 1 x)"

definition crc_byte :: "u16 \<Rightarrow> u16" where
  "crc_byte x = (crc_shift ^^ 8) x"

lemma crc_shift_xor: "crc_shift (x XOR y) = crc_shift x XOR crc_shift y"
  by (auto simp: crc_shift_def bit_xor_iff push_bit_xor ac_simps)

lemma crc_shift_funpow_xor: "(crc_shift ^^ n) (x XOR y) = (crc_shift ^^ n) x XOR (crc_shift ^^ n) y"
  by (induction n) (simp_all add: crc_shift_xor)

lemma crc_byte_xor: "crc_byte (x XOR y) = crc_byte x XOR crc_byte y"
  by (simp add: crc_byte_def crc_shift_funpow_xor)

lemma crc_byte_unfold:
  "crc_byte x = crc_shift (crc_shift (crc_shift (crc_shift (crc_shift (crc_shift (crc_shift
     (crc_shift x)))))))"
  by (simp add: crc_byte_def numeral_eq_Suc)

lemma crc_shift_low: "\<not> bit x 15 \<Longrightarrow> crc_shift x = push_bit 1 x"
  by (simp add: crc_shift_def)

lemma crc_shift_high: "bit x 15 \<Longrightarrow> crc_shift x = push_bit 1 x XOR 0x1021"
  by (simp add: crc_shift_def)

text \<open>A register whose high byte is clear just moves up by eight bits.\<close>

lemma crc_byte_low: "drop_bit 8 x = 0 \<Longrightarrow> crc_byte x = push_bit 8 x"
proof -
  assume "drop_bit 8 x = 0"
  then have clear: "\<not> bit x n" if "8 \<le> n" for n
  proof -
    have "bit (drop_bit 8 x) (n - 8) = bit x n"
      using that by (simp add: bit_drop_bit_eq)
    with \<open>drop_bit 8 x = 0\<close> show ?thesis by simp
  qed
  have "(crc_shift ^^ k) x = push_bit k x" if "k \<le> 8" for k
    using that
  proof (induction k)
    case 0
    then show ?case by simp
  next
    case (Suc k)
    have "\<not> bit (push_bit k x) 15"
      using Suc.prems by (simp add: bit_push_bit_iff clear)
    with Suc show ?case by (simp add: crc_shift_low)
  qed
  then show ?thesis by (simp add: crc_byte_def)
qed

definition xor_double :: "u16 \<Rightarrow> u16 list \<Rightarrow> u16 list" where
  "xor_double v xs = xs @ map (\<lambda>x. x XOR v) xs"

definition crc_entry :: "nat \<Rightarrow> u16" where
  "crc_entry i = crc_byte (push_bit 8 (of_nat i))"

lemma crc_entry_double:
  assumes "i < 2 ^ k"
  shows "crc_entry (2 ^ k + i) = crc_entry i XOR crc_entry (2 ^ k)"
proof -
  have "\<not> bit i k"
    using assms by (simp add: bit_iff_odd)
  then have "2 ^ k AND i = 0"
    by (intro bit_eqI) (auto simp: bit_and_iff bit_exp_iff)
  then have "2 ^ k + i = 2 ^ k XOR i"
    by (rule disjunctive_add_eq_xor)
  then have "(of_nat (2 ^ k + i) :: u16) = of_nat (2 ^ k) XOR of_nat i"
    by (simp only: of_nat_xor_eq)
  then show ?thesis
    by (simp add: crc_entry_def push_bit_xor crc_byte_xor ac_simps)
qed

lemma map_crc_entry_double:
  "map crc_entry [0..<2 ^ Suc k] = xor_double (crc_entry (2 ^ k)) (map crc_entry [0..<2 ^ k])"
proof -
  have "[0..<2 ^ Suc k] = [0..<2 ^ k] @ [2 ^ k..<2 ^ k + 2 ^ k]"
    using upt_add_eq_append [of 0 "2 ^ k" "2 ^ k"] by (simp add: mult_2)
  also have "[2 ^ k..<2 ^ k + 2 ^ k] = map (\<lambda>i. i + 2 ^ k) [0..<2 ^ k]"
    by (simp add: map_add_upt)
  finally have "[0..<2 ^ Suc k] = [0..<2 ^ k] @ map (\<lambda>i. 2 ^ k + i) [0..<2 ^ k]"
    by (simp add: add.commute)
  then show ?thesis
    by (simp add: xor_double_def crc_entry_double)
qed

lemma crc_entry_powers:
  "crc_entry 1 = 0x1021" "crc_entry 2 = 0x2042" "crc_entry 4 = 0x4084" "crc_entry 8 = 0x8108"
  "crc_entry 16 = 0x1231" "crc_entry 32 = 0x2462" "crc_entry 64 = 0x48c4" "crc_entry 128 = 0x9188"
  by (simp_all add: crc_entry_def crc_byte_unfold crc_shift_low crc_shift_high)

lemma crctab_doubled:
  "crctab = xor_double 0x9188 (xor_double 0x48c4 (xor_double 0x2462 (xor_double 0x1231
     (xor_double 0x8108 (xor_double 0x4084 (xor_double 0x2042 (xor_double 0x1021 [0])))))))"
  by (simp add: crctab_def xor_double_def)

lemma map_crc_entry_step:
  "map crc_entry [0..<2 ^ k] = xs \<Longrightarrow> crc_entry (2 ^ k) = v \<Longrightarrow>
   map crc_entry [0..<2 ^ Suc k] = xor_double v xs"
  by (simp add: map_crc_entry_double del: power_Suc)

lemma crctab_spec: "crctab = map crc_entry [0..<256]"
proof -
  have "map crc_entry [0..<2 ^ Suc (Suc (Suc (Suc (Suc (Suc (Suc (Suc 0)))))))] = crctab"
    unfolding crctab_doubled
    by (intro map_crc_entry_step)
       (simp_all add: crc_entry_powers crc_entry_powers(1) [unfolded One_nat_def]
          crc_entry_def [of 0] crc_byte_low)
  then show ?thesis by simp
qed

section \<open>The position code\<close>

text \<open>
  The code words of the upper six bits are consecutive blocks of bytes: \<open>p_code[i]\<close> is where
  block \<open>i\<close> starts and \<open>2 ^ (8 - p_len[i])\<close> its size.
\<close>

definition block_sizes :: "nat list" where
  "block_sizes = map (\<lambda>l. 2 ^ (8 - l)) p_len"

fun starts :: "nat \<Rightarrow> nat list \<Rightarrow> nat list" where
  "starts a [] = []"
| "starts a (n # ns) = a # starts (a + n) ns"

fun blocks :: "'a list \<Rightarrow> nat list \<Rightarrow> 'a list" where
  "blocks (x # xs) (n # ns) = replicate n x @ blocks xs ns"
| "blocks _ _ = []"

lemma nth_blocks:
  assumes "i < length ns" "length xs = length ns" "k < ns ! i"
  shows "starts a ns ! i \<ge> a \<and> blocks xs ns ! (starts a ns ! i - a + k) = xs ! i"
  using assms
proof (induction ns arbitrary: a i xs)
  case Nil
  then show ?case by simp
next
  case (Cons n ns)
  obtain x xs' where xs: "xs = x # xs'" "length xs' = length ns"
    using Cons.prems(2) by (cases xs) auto
  show ?case
  proof (cases i)
    case 0
    with xs Cons.prems show ?thesis by (simp add: nth_append)
  next
    case (Suc j)
    have IH: "starts (a + n) ns ! j \<ge> a + n \<and> blocks xs' ns ! (starts (a + n) ns ! j - (a + n) + k) = xs' ! j"
      by (rule Cons.IH) (use Suc xs Cons.prems in auto)
    then obtain d where d: "starts (a + n) ns ! j = a + n + d"
      using le_Suc_ex by blast
    with IH Suc xs show ?thesis by (simp add: nth_append)
  qed
qed

lemma replicate_num: "replicate (numeral k) x = x # replicate (pred_numeral k) x"
  by (simp add: numeral_eq_Suc)

lemma p_code_starts: "p_code = starts 0 block_sizes"
  by (simp add: p_code_def block_sizes_def p_len_def)

lemma d_len_blocks: "d_len = blocks p_len block_sizes"
  by (simp add: d_len_def block_sizes_def p_len_def replicate_num)

lemma upt_64: "[0..<64] = [0, 1, 2, 3, 4, 5, 6, 7, 8, 9, 10, 11, 12, 13, 14, 15, 16, 17, 18, 19, 20,
    21, 22, 23, 24, 25, 26, 27, 28, 29, 30, 31, 32, 33, 34, 35, 36, 37, 38, 39, 40, 41, 42, 43, 44,
    45, 46, 47, 48, 49, 50, 51, 52, 53, 54, 55, 56, 57, 58, 59, 60, 61, 62, 63]"
  by (simp add: upt_conv_Cons numeral_2_eq_2 [symmetric])

lemma d_code_blocks: "d_code = blocks [0..<64] block_sizes"
  by (simp add: d_code_def block_sizes_def p_len_def upt_64 replicate_num)

text \<open>
  A byte that starts with the code word of \<open>i\<close>, whatever its low bits, decodes to \<open>i\<close> and to the
  length of that word.
\<close>

lemma position_code:
  assumes "i < 64" "k < 2 ^ (8 - p_len ! i)"
  shows "d_code ! (p_code ! i + k) = i \<and> d_len ! (p_code ! i + k) = p_len ! i"
proof -
  have "block_sizes ! i = 2 ^ (8 - p_len ! i)" and len: "length block_sizes = 64"
    using assms(1) by (simp_all add: block_sizes_def)
  with assms have i: "i < length block_sizes" and k: "k < block_sizes ! i"
    by simp_all
  from nth_blocks [OF i _ k, of "[0..<64]" 0] nth_blocks [OF i _ k, of p_len 0] len assms(1)
  show ?thesis
    by (simp add: p_code_starts d_code_blocks [symmetric] d_len_blocks [symmetric])
qed

lemma p_len_bounds: "i < 64 \<Longrightarrow> 3 \<le> p_len ! i \<and> p_len ! i \<le> 8"
proof -
  assume "i < 64"
  then have "p_len ! i \<in> set p_len" by simp
  then show ?thesis by (auto simp: p_len_def)
qed

end
