(* ===== verification/Lzhuf_Huff.thy ===== *)
theory Lzhuf_Huff
  imports Lzhuf_Tables
begin

text \<open>
  The adaptive Huffman tree of lzhuf_1.c: the three tables \<open>freq\<close>, \<open>prnt\<close> and \<open>son\<close>, built by
  \<open>StartHuff\<close>, rebuilt by \<open>reconst\<close> and maintained by \<open>update\<close>.

  A node is an index below \<open>HT\<close>, ordered by frequency, the root last.  A leaf for code \<open>x\<close> has the
  \<open>son\<close> entry \<open>HT + x\<close>; the children of an inner node are the pair \<open>son i\<close>, \<open>son i + 1\<close>.
  \<open>huff_tree\<close> states this, with the frequency of an inner node the sum of its children's, and
  \<open>huff_inv\<close> adds the bound that keeps the counters from passing the sentinel \<open>freq[T]\<close>.  The main
  results are that \<open>StartHuff\<close> establishes the invariant, that \<open>update\<close> and \<open>reconst\<close> keep it, and
  that all of them return and stay inside the tables.
\<close>

section \<open>State and operations\<close>

record huff =
  freq :: "nat list"
  prnt :: "nat list"
  son :: "nat list"

text \<open>\<open>unsigned\<close> arithmetic.\<close>

definition u32_add :: "nat \<Rightarrow> nat \<Rightarrow> nat" where
  "u32_add a b = (a + b) mod 2 ^ 32"

definition StartHuff :: "huff \<Rightarrow> huff option" where
  "StartHuff h =
     do { h1 \<leftarrow> for_up (\<lambda>i h.
            do { f \<leftarrow> wr i 1 (freq h);
                 s \<leftarrow> wr i (i + HT) (son h);
                 p \<leftarrow> wr (i + HT) i (prnt h);
                 Some \<lparr>freq = f, prnt = p, son = s\<rparr> }) 0 N_CHAR h;
          (i, h2) \<leftarrow> for_up (\<lambda>j (i, h).
            do { f0 \<leftarrow> rd (freq h) i;
                 f1 \<leftarrow> rd (freq h) (i + 1);
                 f \<leftarrow> wr j (u32_add f0 f1) (freq h);
                 s \<leftarrow> wr j i (son h);
                 p1 \<leftarrow> wr (i + 1) j (prnt h);
                 p \<leftarrow> wr i j p1;
                 Some (i + 2, \<lparr>freq = f, prnt = p, son = s\<rparr>) }) N_CHAR (HR + 1 - N_CHAR) (0, h1);
          f \<leftarrow> wr HT 0xffff (freq h2);
          p \<leftarrow> wr HR 0 (prnt h2);
          Some (h2\<lparr>freq := f, prnt := p\<rparr>) }"

text \<open>\<open>for (k = j - 1; first < freq[k]; k--);\<close>\<close>

fun scan_down :: "nat list \<Rightarrow> nat \<Rightarrow> nat \<Rightarrow> nat option" where
  "scan_down fs first 0 = do { f \<leftarrow> rd fs 0; if first < f then None else Some 0 }"
| "scan_down fs first (Suc k) =
     do { f \<leftarrow> rd fs (Suc k); if first < f then scan_down fs first k else Some (Suc k) }"

definition reconst_collect :: "huff \<Rightarrow> huff option" where
  "reconst_collect h =
     map_option snd (for_up (\<lambda>i (j, h).
       do { s \<leftarrow> rd (son h) i;
            if s \<ge> HT then
              do { f \<leftarrow> rd (freq h) i;
                   fs \<leftarrow> wr j (u32_add f 1 div 2) (freq h);
                   ss \<leftarrow> wr j s (son h);
                   Some (j + 1, h\<lparr>freq := fs, son := ss\<rparr>) }
            else Some (j, h) }) 0 HT (0, h))"

definition reconst_build :: "huff \<Rightarrow> huff option" where
  "reconst_build h =
     map_option snd (for_up (\<lambda>j (i, h).
       do { f0 \<leftarrow> rd (freq h) i;
            f1 \<leftarrow> rd (freq h) (i + 1);
            let first = u32_add f0 f1;
            fs \<leftarrow> wr j first (freq h);
            k \<leftarrow> scan_down fs first (j - 1);
            fs' \<leftarrow> insert_at (k + 1) j first fs;
            ss \<leftarrow> insert_at (k + 1) j i (son h);
            Some (i + 2, h\<lparr>freq := fs', son := ss\<rparr>) }) N_CHAR (HT - N_CHAR) (0, h))"

definition reconst_connect :: "huff \<Rightarrow> huff option" where
  "reconst_connect h =
     for_up (\<lambda>i h.
       do { k \<leftarrow> rd (son h) i;
            if k \<ge> HT then do { p \<leftarrow> wr k i (prnt h); Some (h\<lparr>prnt := p\<rparr>) }
            else do { p1 \<leftarrow> wr (k + 1) i (prnt h); p \<leftarrow> wr k i p1; Some (h\<lparr>prnt := p\<rparr>) } }) 0 HT h"

definition reconst :: "huff \<Rightarrow> huff option" where
  "reconst h = do { h1 \<leftarrow> reconst_collect h; h2 \<leftarrow> reconst_build h1; reconst_connect h2 }"

text \<open>\<open>while (k > freq[++l]); l--;\<close> started with \<open>l = c + 1\<close>.\<close>

function scan_up :: "nat list \<Rightarrow> nat \<Rightarrow> nat \<Rightarrow> nat option" where
  "scan_up fs k l =
     (if Suc l < length fs then if k > fs ! Suc l then scan_up fs k (Suc l) else Some l else None)"
  by pat_completeness auto
termination by (relation "measure (\<lambda>(fs, _, l). length fs - l)") auto

declare scan_up.simps [simp del]

text \<open>\<open>prnt[i] = v; if (i < T) prnt[i + 1] = v;\<close>\<close>

definition set_prnt :: "nat \<Rightarrow> nat \<Rightarrow> nat list \<Rightarrow> nat list option" where
  "set_prnt i v p =
     do { p1 \<leftarrow> wr i v p; if i < HT then wr (i + 1) v p1 else Some p1 }"

definition update_step :: "nat \<times> huff \<Rightarrow> ((nat \<times> huff) + huff) option" where
  "update_step = (\<lambda>(c, h).
     do { f \<leftarrow> rd (freq h) c;
          let k = u32_add f 1;
          fs \<leftarrow> wr c k (freq h);
          f1 \<leftarrow> rd fs (c + 1);
          (c', h') \<leftarrow>
            (if k > f1 then
               do { l \<leftarrow> scan_up fs k (c + 1);
                    fl \<leftarrow> rd fs l;
                    fs1 \<leftarrow> wr c fl fs;
                    fs2 \<leftarrow> wr l k fs1;
                    i \<leftarrow> rd (son h) c;
                    p1 \<leftarrow> set_prnt i l (prnt h);
                    j \<leftarrow> rd (son h) l;
                    s1 \<leftarrow> wr l i (son h);
                    p2 \<leftarrow> set_prnt j c p1;
                    s2 \<leftarrow> wr c j s1;
                    Some (l, \<lparr>freq = fs2, prnt = p2, son = s2\<rparr>) }
             else Some (c, h\<lparr>freq := fs\<rparr>));
          c'' \<leftarrow> rd (prnt h') c';
          Some (if c'' \<noteq> 0 then Inl (c'', h') else Inr h') })"

definition update :: "nat \<Rightarrow> huff \<Rightarrow> huff option" where
  "update c h =
     do { fR \<leftarrow> rd (freq h) HR;
          h1 \<leftarrow> (if fR = MAX_FREQ then reconst h else Some h);
          c1 \<leftarrow> rd (prnt h1) (c + HT);
          loop update_step (c1, h1) }"


section \<open>The sizes\<close>

lemma sizes: "HT = 627" "HR = 626" "N_CHAR = 314"
  by (simp_all add: HT_def HR_def N_CHAR_def THRESHOLD_def LZ_F_def)

section \<open>The tree invariant\<close>

text \<open>The tables have their declared sizes.\<close>

definition huff_shape :: "huff \<Rightarrow> bool" where
  "huff_shape h \<longleftrightarrow> length (freq h) = HT + 1 \<and> length (prnt h) = HT + N_CHAR \<and> length (son h) = HT"

text \<open>A node is a leaf, or an inner node whose two children come before it.\<close>

definition leaf_son :: "nat \<Rightarrow> bool" where
  "leaf_son s \<longleftrightarrow> HT \<le> s \<and> s < HT + N_CHAR"

definition node_son :: "nat \<Rightarrow> nat \<Rightarrow> bool" where
  "node_son a s \<longleftrightarrow> even s \<and> s + 1 < a"

text \<open>The \<open>son\<close> entry that points at \<open>m\<close>: itself for a code, the pair it belongs to for a node.\<close>

definition pair_of :: "nat \<Rightarrow> nat" where
  "pair_of m = (if m < HT then m - m mod 2 else m)"

text \<open>
  \<open>huff_tree e h\<close>: a tree whose nodes are sorted by frequency and whose inner nodes carry the sum of
  their children, except that node \<open>e\<close> is still one short.  \<open>e = HT\<close> is no exception at all.
\<close>

definition huff_tree :: "nat \<Rightarrow> huff \<Rightarrow> bool" where
  "huff_tree e h \<longleftrightarrow> huff_shape h \<and> freq h ! HT = 0xffff \<and>
     (\<forall>a b. a \<le> b \<longrightarrow> b < HT \<longrightarrow> freq h ! a \<le> freq h ! b) \<and>
     (\<forall>a < HT. 0 < freq h ! a) \<and>
     (\<forall>a < HT. leaf_son (son h ! a) \<or> node_son a (son h ! a)) \<and>
     (\<forall>a < HT. prnt h ! (son h ! a) = a \<and> (son h ! a < HT \<longrightarrow> prnt h ! (son h ! a + 1) = a)) \<and>
     (\<forall>m < HT + N_CHAR. m \<noteq> HR \<longrightarrow> prnt h ! m < HT \<and> son h ! (prnt h ! m) = pair_of m) \<and>
     prnt h ! HR = 0 \<and>
     (\<forall>a < HT. son h ! a < HT \<longrightarrow>
        freq h ! a + of_bool (a = e) = freq h ! (son h ! a) + freq h ! (son h ! a + 1))"

definition huff_inv :: "huff \<Rightarrow> bool" where
  "huff_inv h \<longleftrightarrow> huff_tree HT h \<and> freq h ! HR \<le> MAX_FREQ"

lemma huff_tree_D:
  assumes "huff_tree e h"
  shows tree_shape: "huff_shape h"
    and tree_lengths: "length (freq h) = HT + 1" "length (prnt h) = HT + N_CHAR" "length (son h) = HT"
    and tree_sentinel: "freq h ! HT = 0xffff"
    and tree_sorted: "a \<le> b \<Longrightarrow> b < HT \<Longrightarrow> freq h ! a \<le> freq h ! b"
    and tree_pos: "a < HT \<Longrightarrow> 0 < freq h ! a"
    and tree_kind: "a < HT \<Longrightarrow> leaf_son (son h ! a) \<or> node_son a (son h ! a)"
    and tree_down: "a < HT \<Longrightarrow> prnt h ! (son h ! a) = a"
    and tree_down2: "a < HT \<Longrightarrow> son h ! a < HT \<Longrightarrow> prnt h ! (son h ! a + 1) = a"
    and tree_up: "m < HT + N_CHAR \<Longrightarrow> m \<noteq> HR \<Longrightarrow> prnt h ! m < HT"
    and tree_up_son: "m < HT + N_CHAR \<Longrightarrow> m \<noteq> HR \<Longrightarrow> son h ! (prnt h ! m) = pair_of m"
    and tree_root: "prnt h ! HR = 0"
    and tree_sum: "a < HT \<Longrightarrow> son h ! a < HT \<Longrightarrow>
        freq h ! a + of_bool (a = e) = freq h ! (son h ! a) + freq h ! (son h ! a + 1)"
  using assms by (simp_all add: huff_tree_def huff_shape_def)

text \<open>A node below the root comes before its parent, and its frequency is smaller.\<close>

lemma tree_inner:
  "huff_tree e h \<Longrightarrow> a < HT \<Longrightarrow> son h ! a < HT \<Longrightarrow> even (son h ! a) \<and> son h ! a + 1 < a"
  using tree_kind [of e h a] by (auto simp: leaf_son_def node_son_def)

lemma tree_parent_later:
  assumes t: "huff_tree e h" and c: "c < HR"
  shows "c < prnt h ! c"
proof -
  have c': "c < HT" "c \<noteq> HR" using c by (simp_all add: sizes)
  then have p: "prnt h ! c < HT" "son h ! (prnt h ! c) = c - c mod 2"
    using tree_up [OF t] tree_up_son [OF t] by (simp_all add: pair_of_def sizes)
  moreover have "c \<le> c - c mod 2 + 1" by linarith
  moreover have "c - c mod 2 < HT" using c' by linarith
  ultimately show ?thesis
    using tree_inner [OF t p(1)] by linarith
qed

lemma tree_parent_freq:
  assumes t: "huff_tree e h" and c: "c < HR" and e: "prnt h ! c \<noteq> e"
  shows "freq h ! c < freq h ! (prnt h ! c)"
proof -
  have c': "c < HT" "c \<noteq> HR" using c by (simp_all add: sizes)
  define p where "p = prnt h ! c"
  have p: "p < HT" "son h ! p = c - c mod 2"
    using tree_up [OF t, of c] tree_up_son [OF t, of c] c' by (simp_all add: pair_of_def p_def)
  have s: "son h ! p < HT" "son h ! p + 1 < HT"
    using p c' tree_inner [OF t p(1)] by linarith+
  have "freq h ! p = freq h ! (son h ! p) + freq h ! (son h ! p + 1)"
    using tree_sum [OF t p(1) s(1)] e by (simp add: p_def)
  moreover have "c = son h ! p \<or> c = son h ! p + 1"
    using p(2) by presburger
  ultimately show ?thesis
    using tree_pos [OF t s(1)] tree_pos [OF t s(2)] by (auto simp: p_def)
qed

section \<open>Raising a frequency\<close>

text \<open>
  Raising node \<open>c\<close> by one mends \<open>c\<close> and leaves its parent one short.
\<close>

lemma tree_bump:
  assumes t: "huff_tree c h" and c: "c < HR" and k: "freq h ! c < freq h ! (c + 1)"
  shows "huff_tree (prnt h ! c) (h\<lparr>freq := (freq h)[c := freq h ! c + 1]\<rparr>)"
proof -
  let ?f = "(freq h)[c := freq h ! c + 1]"
  have c': "c < HT" "c \<noteq> HR" "c \<noteq> HT" using c by (simp_all add: sizes)
  note len = tree_lengths [OF t]
  have par: "prnt h ! c < HT" "son h ! (prnt h ! c) = c - c mod 2" "c < prnt h ! c"
    using tree_up [OF t, of c] tree_up_son [OF t, of c] tree_parent_later [OF t c] c'
    by (simp_all add: pair_of_def)
  have sorted: "?f ! a \<le> ?f ! b" if "a \<le> b" "b < HT" for a b
  proof -
    have "freq h ! (c + 1) \<le> freq h ! b" if "c < b"
      using that tree_sorted [OF t, of "c + 1" b] \<open>b < HT\<close> by simp
    then show ?thesis
      using tree_sorted [OF t that] that k len c' by (auto simp: nth_list_update)
  qed
  have sums: "?f ! a + of_bool (a = prnt h ! c) = ?f ! (son h ! a) + ?f ! (son h ! a + 1)"
    if a: "a < HT" "son h ! a < HT" for a
  proof -
    have s: "even (son h ! a)" "son h ! a + 1 < a"
      using tree_inner [OF t a] by auto
    have iff: "a = prnt h ! c \<longleftrightarrow> son h ! a = c \<or> son h ! a + 1 = c"
    proof
      assume "a = prnt h ! c"
      then show "son h ! a = c \<or> son h ! a + 1 = c" using par(2) by presburger
    next
      assume "son h ! a = c \<or> son h ! a + 1 = c"
      then show "a = prnt h ! c" using tree_down [OF t a(1)] tree_down2 [OF t a] by auto
    qed
    show ?thesis
      using tree_sum [OF t a] a s len par(3) iff c' by (auto simp: nth_list_update)
  qed
  have pos: "0 < ?f ! a" if "a < HT" for a
    using tree_pos [OF t that] len that by (cases "a = c") simp_all
  have rest: "huff_shape (h\<lparr>freq := ?f\<rparr>)" "?f ! HT = 0xffff"
    using t c' by (simp_all add: huff_tree_def huff_shape_def)
  show ?thesis
    unfolding huff_tree_def
  proof (intro conjI)
    show "\<forall>a b. a \<le> b \<longrightarrow> b < HT \<longrightarrow> freq (h\<lparr>freq := ?f\<rparr>) ! a \<le> freq (h\<lparr>freq := ?f\<rparr>) ! b"
      using sorted by simp
    show "\<forall>a<HT. son (h\<lparr>freq := ?f\<rparr>) ! a < HT \<longrightarrow>
      freq (h\<lparr>freq := ?f\<rparr>) ! a + of_bool (a = prnt h ! c) =
      freq (h\<lparr>freq := ?f\<rparr>) ! (son (h\<lparr>freq := ?f\<rparr>) ! a) + freq (h\<lparr>freq := ?f\<rparr>) ! (son (h\<lparr>freq := ?f\<rparr>) ! a + 1)"
      using sums by simp
  qed (use t pos rest in \<open>simp_all add: huff_tree_def\<close>)
qed

text \<open>At the root the raise completes the update.\<close>

lemma tree_bump_root:
  assumes t: "huff_tree HR h"
  shows "huff_tree HT (h\<lparr>freq := (freq h)[HR := freq h ! HR + 1]\<rparr>)"
proof -
  let ?f = "(freq h)[HR := freq h ! HR + 1]"
  note len = tree_lengths [OF t]
  have last: "b = HR \<or> b < HR" if "b < HT" for b using that by (auto simp: sizes)
  have sorted: "?f ! a \<le> ?f ! b" if "a \<le> b" "b < HT" for a b
    using tree_sorted [OF t that] last [OF that(2)] that len by (auto simp: nth_list_update)
  have sums: "?f ! a + of_bool (a = HT) = ?f ! (son h ! a) + ?f ! (son h ! a + 1)"
    if a: "a < HT" "son h ! a < HT" for a
    using tree_sum [OF t a] tree_inner [OF t a] last [OF a(1)] a len by (auto simp: nth_list_update)
  have pos: "0 < ?f ! a" if "a < HT" for a
    using tree_pos [OF t that] len that by (cases "a = HR") simp_all
  have rest: "huff_shape (h\<lparr>freq := ?f\<rparr>)" "?f ! HT = 0xffff"
    using t by (simp_all add: huff_tree_def huff_shape_def sizes)
  show ?thesis
    unfolding huff_tree_def
  proof (intro conjI)
    show "\<forall>a b. a \<le> b \<longrightarrow> b < HT \<longrightarrow> freq (h\<lparr>freq := ?f\<rparr>) ! a \<le> freq (h\<lparr>freq := ?f\<rparr>) ! b"
      using sorted by simp
    show "\<forall>a<HT. son (h\<lparr>freq := ?f\<rparr>) ! a < HT \<longrightarrow>
      freq (h\<lparr>freq := ?f\<rparr>) ! a + of_bool (a = HT) =
      freq (h\<lparr>freq := ?f\<rparr>) ! (son (h\<lparr>freq := ?f\<rparr>) ! a) + freq (h\<lparr>freq := ?f\<rparr>) ! (son (h\<lparr>freq := ?f\<rparr>) ! a + 1)"
      using sums by simp
  qed (use t pos rest in \<open>simp_all add: huff_tree_def\<close>)
qed

section \<open>Exchanging two nodes of equal frequency\<close>

lemma set_prnt_total:
  assumes "length p = HT + N_CHAR" "leaf_son i \<or> i + 1 < HT"
  shows "\<exists>p'. set_prnt i v p = Some p' \<and> length p' = HT + N_CHAR \<and>
    (\<forall>m. p' ! m = (if m = i \<or> i < HT \<and> m = i + 1 then v else p ! m))"
proof -
  have "i < length p" "i < HT \<longrightarrow> i + 1 < length p"
    using assms by (auto simp: leaf_son_def)
  then show ?thesis
    using assms(1) by (auto simp: set_prnt_def access_simps nth_list_update)
qed

text \<open>The children of a node, as the set of the \<open>prnt\<close> entries that name it.\<close>

lemma tree_child_iff:
  assumes t: "huff_tree e h" and a: "a < HT" and m: "m < HT + N_CHAR" "m \<noteq> HR"
  shows "prnt h ! m = a \<longleftrightarrow> m = son h ! a \<or> son h ! a < HT \<and> m = son h ! a + 1"
proof
  assume "prnt h ! m = a"
  then have s: "son h ! a = pair_of m" using tree_up_son [OF t m] by simp
  show "m = son h ! a \<or> son h ! a < HT \<and> m = son h ! a + 1"
  proof (cases "m < HT")
    case True
    then show ?thesis using s by (auto simp: pair_of_def elim: oddE)
  next
    case False
    then show ?thesis using s by (simp add: pair_of_def)
  qed
next
  assume "m = son h ! a \<or> son h ! a < HT \<and> m = son h ! a + 1"
  then show "prnt h ! m = a" using tree_down [OF t a] tree_down2 [OF t a] by auto
qed

text \<open>
  \<open>exchanged c l h h'\<close>: \<open>h'\<close> is \<open>h\<close> with the subtrees at \<open>c\<close> and \<open>l\<close> exchanged.
\<close>

definition exchanged :: "nat \<Rightarrow> nat \<Rightarrow> huff \<Rightarrow> huff \<Rightarrow> bool" where
  "exchanged c l h h' \<longleftrightarrow> freq h' = freq h \<and> son h' = (son h)[l := son h ! c, c := son h ! l] \<and>
     length (prnt h') = HT + N_CHAR \<and>
     (\<forall>m. prnt h' ! m =
        (if m = son h ! l \<or> son h ! l < HT \<and> m = son h ! l + 1 then c
         else if m = son h ! c \<or> son h ! c < HT \<and> m = son h ! c + 1 then l else prnt h ! m))"

lemma tree_exchange:
  assumes t: "huff_tree c h" and cl: "c < l" "l < HR" and eq: "freq h ! l = freq h ! c"
    and ex: "exchanged c l h h'"
  shows "huff_tree l h'" and "prnt h' ! l = prnt h ! l"
proof -
  have lt: "c < HT" "l < HT" "c \<noteq> HR" "l \<noteq> HR" "c < HR" using cl by (simp_all add: sizes)
  note len = tree_lengths [OF t]
  have son': "son h' ! a = (if a = c then son h ! l else if a = l then son h ! c else son h ! a)"
    if "a < HT" for a
    using ex len cl lt that by (auto simp: exchanged_def nth_list_update)
  have freq': "freq h' = freq h"
    using ex by (simp add: exchanged_def)
  have kids_l: "son h ! l + 1 < c" if inner: "son h ! l < HT"
  proof -
    have s: "son h ! l + 1 < l" using tree_inner [OF t lt(2) inner] by simp
    have "freq h ! l = freq h ! (son h ! l) + freq h ! (son h ! l + 1)"
      using tree_sum [OF t lt(2) inner] cl by simp
    then have "freq h ! (son h ! l + 1) < freq h ! c"
      using tree_pos [OF t inner] eq by simp
    then show ?thesis
      using tree_sorted [OF t, of c "son h ! l + 1"] s lt by (meson leI less_trans not_less)
  qed
  have kids_c: "son h ! c + 1 < c" if "son h ! c < HT"
    using tree_inner [OF t lt(1) that] by simp
  have evens: "even (son h ! c) \<or> HT \<le> son h ! c" "even (son h ! l) \<or> HT \<le> son h ! l"
    using tree_kind [OF t lt(1)] tree_kind [OF t lt(2)] by (auto simp: leaf_son_def node_son_def)
  have range: "son h ! a < HT + N_CHAR" "son h ! a < HT \<Longrightarrow> son h ! a + 1 < HT + N_CHAR"
      "son h ! a \<noteq> HR" "son h ! a < HT \<Longrightarrow> son h ! a + 1 \<noteq> HR" if "a < HT" for a
    using tree_kind [OF t that] that by (auto simp: leaf_son_def node_son_def sizes)
  define mv where "mv q = (if q = l then c else if q = c then l else q)" for q
  have mv_simps: "mv c = l" "mv l = c" "mv (mv q) = q" for q
    using cl by (auto simp: mv_def)
  have mv_lt: "mv q < HT" if "q < HT" for q using that lt by (simp add: mv_def)
  have prnt': "prnt h' ! m = mv (prnt h ! m)" if m: "m < HT + N_CHAR" "m \<noteq> HR" for m
    using ex tree_child_iff [OF t lt(1) m] tree_child_iff [OF t lt(2) m] cl
    by (auto simp: exchanged_def mv_def)
  have son_mv: "son h' ! mv q = son h ! q" if "q < HT" for q
    using son' [OF mv_lt [OF that]] cl by (auto simp: mv_def)
  have not_kid: "l \<noteq> son h ! l" "son h ! l < HT \<Longrightarrow> l \<noteq> son h ! l + 1" "l \<noteq> son h ! c"
      "son h ! c < HT \<Longrightarrow> l \<noteq> son h ! c + 1"
    using kids_l kids_c cl lt by fastforce+
  show prnt_l: "prnt h' ! l = prnt h ! l"
    using ex not_kid by (auto simp: exchanged_def)
  have root: "prnt h' ! HR = 0"
    using ex range [OF lt(1)] range [OF lt(2)] tree_root [OF t] by (auto simp: exchanged_def)
  have kind: "leaf_son (son h' ! a) \<or> node_son a (son h' ! a)" if a: "a < HT" for a
  proof -
    have "leaf_son (son h ! l) \<or> node_son c (son h ! l)"
      using tree_kind [OF t lt(2)] kids_l lt by (cases "son h ! l < HT") (auto simp: node_son_def)
    moreover have "leaf_son (son h ! c) \<or> node_son l (son h ! c)"
      using tree_kind [OF t lt(1)] cl by (auto simp: node_son_def)
    ultimately show ?thesis
      using tree_kind [OF t a] son' [OF a] by simp
  qed
  have down: "prnt h' ! (son h' ! a) = a \<and> (son h' ! a < HT \<longrightarrow> prnt h' ! (son h' ! a + 1) = a)"
    if a: "a < HT" for a
  proof -
    have q: "mv a < HT" "son h' ! a = son h ! mv a"
      using son_mv [OF mv_lt [OF a]] mv_lt [OF a] by (simp_all add: mv_simps)
    have "prnt h' ! (son h' ! a) = a"
      using q prnt' range [OF q(1)] tree_down [OF t q(1)] by (simp add: mv_simps)
    moreover have "prnt h' ! (son h' ! a + 1) = a" if "son h' ! a < HT"
      using that q prnt' [of "son h ! mv a + 1"] range [OF q(1)] tree_down2 [OF t q(1)]
      by (simp add: mv_simps)
    ultimately show ?thesis by simp
  qed
  have up: "prnt h' ! m < HT \<and> son h' ! (prnt h' ! m) = pair_of m"
    if m: "m < HT + N_CHAR" "m \<noteq> HR" for m
    using prnt' [OF m] tree_up [OF t m] tree_up_son [OF t m] son_mv mv_lt by simp
  have sums: "freq h ! a + of_bool (a = l) = freq h ! (son h' ! a) + freq h ! (son h' ! a + 1)"
    if a: "a < HT" "son h' ! a < HT" for a
  proof -
    have q: "mv a < HT" "son h' ! a = son h ! mv a"
      using son_mv [OF mv_lt [OF a(1)]] mv_lt [OF a(1)] by (simp_all add: mv_simps)
    have "freq h ! mv a = freq h ! a" "(mv a = c) = (a = l)"
      using eq cl by (auto simp: mv_def)
    then show ?thesis
      using tree_sum [OF t q(1)] a q by simp
  qed
  have shape: "huff_shape h'"
    using ex len by (simp add: exchanged_def huff_shape_def)
  show "huff_tree l h'"
    unfolding huff_tree_def
  proof (intro conjI)
    show "\<forall>a<HT. leaf_son (son h' ! a) \<or> node_son a (son h' ! a)"
      using kind by blast
    show "\<forall>a<HT. prnt h' ! (son h' ! a) = a \<and> (son h' ! a < HT \<longrightarrow> prnt h' ! (son h' ! a + 1) = a)"
      using down by blast
    show "\<forall>m<HT + N_CHAR. m \<noteq> HR \<longrightarrow> prnt h' ! m < HT \<and> son h' ! (prnt h' ! m) = pair_of m"
      using up by blast
    show "\<forall>a<HT. son h' ! a < HT \<longrightarrow>
        freq h' ! a + of_bool (a = l) = freq h' ! (son h' ! a) + freq h' ! (son h' ! a + 1)"
      using sums by (simp add: freq')
    show "\<forall>a b. a \<le> b \<longrightarrow> b < HT \<longrightarrow> freq h' ! a \<le> freq h' ! b"
      using tree_sorted [OF t] by (simp add: freq')
    show "\<forall>a<HT. 0 < freq h' ! a"
      using tree_pos [OF t] by (simp add: freq')
  qed (use shape root tree_sentinel [OF t] in \<open>simp_all add: freq'\<close>)
qed

section \<open>One step of the update\<close>

lemma scan_up_total:
  assumes "l < m" "m < length fs" "k \<le> fs ! m"
  shows "\<exists>l'. scan_up fs k l = Some l' \<and> l \<le> l' \<and> l' < m \<and>
    (\<forall>a. l < a \<longrightarrow> a \<le> l' \<longrightarrow> fs ! a < k) \<and> k \<le> fs ! Suc l'"
  using assms
proof (induction "m - l" arbitrary: l rule: less_induct)
  case less
  show ?case
  proof (cases "fs ! Suc l < k")
    case True
    have lm: "Suc l < m"
    proof (rule ccontr)
      assume "\<not> Suc l < m"
      with less.prems(1) have "m = Suc l" by simp
      with True less.prems(3) show False by simp
    qed
    then have "m - Suc l < m - l" by simp
    from less.hyps [OF this lm less.prems(2,3)] obtain l' where
      l': "scan_up fs k (Suc l) = Some l'" "Suc l \<le> l'" "l' < m"
      "\<forall>a. Suc l < a \<longrightarrow> a \<le> l' \<longrightarrow> fs ! a < k" "k \<le> fs ! Suc l'"
      by blast
    have "fs ! a < k" if "l < a" "a \<le> l'" for a
      using that l'(4) True by (cases "a = Suc l") auto
    moreover have "scan_up fs k l = scan_up fs k (Suc l)"
      using True lm less.prems by (simp add: scan_up.simps [of fs k l])
    ultimately show ?thesis
      using l' by auto
  next
    case False
    then show ?thesis
      using less.prems by (simp add: scan_up.simps [of fs k l])
  qed
qed

lemma update_step_inner:
  assumes t: "huff_tree c h" and c: "c < HR" and b: "freq h ! HR < 0xffff"
  shows "\<exists>c' h'. update_step (c, h) = Some (Inl (c', h')) \<and> huff_tree c' h' \<and> c < c' \<and> c' < HT \<and>
    freq h' ! HR = freq h ! HR"
proof -
  have lt: "c < HT" "c \<noteq> HR" "HR < HT" using c by (simp_all add: sizes)
  note len = tree_lengths [OF t]
  define k where "k = freq h ! c + 1"
  have fc: "freq h ! c \<le> freq h ! HR"
    using tree_sorted [OF t, of c HR] c lt by simp
  have k32: "u32_add (freq h ! c) 1 = k"
    using fc b by (simp add: u32_add_def k_def)
  define fs where "fs = (freq h)[c := k]"
  have par: "c < prnt h ! c" "prnt h ! c < HT"
    using tree_parent_later [OF t c] tree_up [OF t, of c] lt by simp_all
  have pk: "k \<le> freq h ! (prnt h ! c)"
    using tree_parent_freq [OF t c] par by (simp add: k_def)
  have start: "rd (freq h) c = Some (freq h ! c)" "wr c k (freq h) = Some fs"
      "rd fs (Suc c) = Some (freq h ! Suc c)"
    using len lt c by (simp_all add: access_simps fs_def)
  show ?thesis
  proof (cases "freq h ! (c + 1) < k")
    case False
    have up: "c < HT + N_CHAR" using lt by simp
    have "update_step (c, h) = Some (Inl (prnt h ! c, h\<lparr>freq := (freq h)[c := freq h ! c + 1]\<rparr>))"
      using start k32 False len up par by (simp add: update_step_def Let_def access_simps fs_def k_def)
    moreover have "huff_tree (prnt h ! c) (h\<lparr>freq := (freq h)[c := freq h ! c + 1]\<rparr>)"
      using tree_bump [OF t c] False by (simp add: k_def)
    ultimately show ?thesis
      using par lt by auto
  next
    case True
    have np: "prnt h ! c \<noteq> Suc c" using True pk by auto
    have "c + 1 < prnt h ! c" using par np by simp
    moreover have "prnt h ! c < length fs" "k \<le> fs ! (prnt h ! c)"
      using par pk len by (simp_all add: fs_def)
    ultimately obtain l where l: "scan_up fs k (c + 1) = Some l" "c + 1 \<le> l" "l < prnt h ! c"
        "\<forall>a. c + 1 < a \<longrightarrow> a \<le> l \<longrightarrow> fs ! a < k" "k \<le> fs ! Suc l"
      using scan_up_total by blast
    have ll: "c < l" "l < HT" "l < HR" "l \<noteq> c" using l par by (simp_all add: sizes)
    have "fs ! l < k"
      using l(2,4) True by (cases "l = c + 1") (auto simp: fs_def)
    then have eq: "freq h ! l = freq h ! c"
      using ll tree_sorted [OF t, of c l] by (simp add: fs_def k_def)
    define i j where "i = son h ! c" and "j = son h ! l"
    have ij: "leaf_son i \<or> i + 1 < HT" "leaf_son j \<or> j + 1 < HT"
      using tree_kind [OF t lt(1)] tree_kind [OF t ll(2)] lt ll by (auto simp: i_def j_def node_son_def)
    obtain p1 where p1: "set_prnt i l (prnt h) = Some p1" "length p1 = HT + N_CHAR"
        "\<forall>m. p1 ! m = (if m = i \<or> i < HT \<and> m = i + 1 then l else prnt h ! m)"
      using set_prnt_total [OF len(2) ij(1)] by blast
    obtain p2 where p2: "set_prnt j c p1 = Some p2" "length p2 = HT + N_CHAR"
        "\<forall>m. p2 ! m = (if m = j \<or> j < HT \<and> m = j + 1 then c else p1 ! m)"
      using set_prnt_total [OF p1(2) ij(2)] by blast
    define hx where "hx = \<lparr>freq = freq h, prnt = p2, son = (son h)[l := i, c := j]\<rparr>"
    have ex: "exchanged c l h hx"
      using p1 p2 by (auto simp: exchanged_def hx_def i_def j_def)
    note tx = tree_exchange [OF t ll(1,3) eq ex]
    have "freq hx ! l < freq hx ! (l + 1)"
      using l(5) ll eq by (simp add: hx_def fs_def k_def)
    note bump = tree_bump [OF tx(1) ll(3) this]
    define h' where "h' = hx\<lparr>freq := (freq hx)[l := freq hx ! l + 1]\<rparr>"
    have fl: "fs[c := freq h ! l, l := k] = (freq h)[l := freq h ! l + 1]"
      using eq by (simp add: fs_def k_def)
    have parl: "l < prnt h ! l" "prnt h ! l < HT"
      using tree_parent_later [OF t ll(3)] tree_up [OF t, of l] ll by simp_all
    have "update_step (c, h) = Some (Inl (prnt h ! l, h'))"
      using start k32 True len l(1) lt ll p1 p2 parl tx(2) fl
      by (simp add: update_step_def Let_def access_simps h'_def hx_def i_def [symmetric] j_def [symmetric] fs_def)
    moreover have "huff_tree (prnt h ! l) h'"
      using bump tx(2) by (simp add: h'_def)
    moreover have "freq h' ! HR = freq h ! HR"
      using ll by (simp add: h'_def hx_def)
    ultimately show ?thesis
      using parl ll by auto
  qed
qed

lemma update_step_root:
  assumes t: "huff_tree HR h" and b: "freq h ! HR < 0xffff"
  shows "\<exists>h'. update_step (HR, h) = Some (Inr h') \<and> huff_tree HT h' \<and> freq h' ! HR = freq h ! HR + 1"
proof -
  note len = tree_lengths [OF t]
  define h' where "h' = h\<lparr>freq := (freq h)[HR := freq h ! HR + 1]\<rparr>"
  have "u32_add (freq h ! HR) 1 = freq h ! HR + 1"
    using b by (simp add: u32_add_def)
  moreover have "Suc HR = HT" "HR < HT" "HT \<noteq> HR" by (simp_all add: sizes)
  moreover have "freq h ! HT = 0xffff" using t by (rule tree_sentinel)
  moreover have "prnt h ! HR = 0" using t by (rule tree_root)
  ultimately have "update_step (HR, h) = Some (Inr h')"
    using len b by (simp add: update_step_def access_simps h'_def Let_def)
  moreover have "huff_tree HT h'"
    using tree_bump_root [OF t] by (simp add: h'_def)
  ultimately show ?thesis
    using len by (simp add: h'_def sizes)
qed

text \<open>The climb: from any node that is one short, the loop mends the path up to the root.\<close>

lemma update_loop:
  assumes t: "huff_tree c h" and c: "c < HT" and b: "freq h ! HR < 0xffff"
  shows "\<exists>h'. loop update_step (c, h) = Some h' \<and> huff_tree HT h' \<and> freq h' ! HR = freq h ! HR + 1"
proof (rule loop_total [where m = "\<lambda>(c', h'). HT - c'" and
      I = "\<lambda>(c', h'). huff_tree c' h' \<and> c' < HT \<and> freq h' ! HR = freq h ! HR"])
  show "case (c, h) of (c', h') \<Rightarrow> huff_tree c' h' \<and> c' < HT \<and> freq h' ! HR = freq h ! HR"
    using t c by simp
next
  fix s
  assume s: "case s of (c', h') \<Rightarrow> huff_tree c' h' \<and> c' < HT \<and> freq h' ! HR = freq h ! HR"
  obtain c1 h1 where s1: "s = (c1, h1)" by (cases s)
  show "(\<exists>s'. update_step s = Some (Inl s') \<and>
        (case s' of (c', h') \<Rightarrow> huff_tree c' h' \<and> c' < HT \<and> freq h' ! HR = freq h ! HR) \<and>
        (case s' of (c', h') \<Rightarrow> HT - c') < (case s of (c', h') \<Rightarrow> HT - c')) \<or>
      (\<exists>r. update_step s = Some (Inr r) \<and> huff_tree HT r \<and> freq r ! HR = freq h ! HR + 1)"
  proof (cases "c1 = HR")
    case True
    with s s1 b update_step_root [of h1] show ?thesis by auto
  next
    case False
    with s s1 have "c1 < HR" by (simp add: sizes)
    with s s1 b update_step_inner [of c1 h1] show ?thesis
      by (fastforce intro: diff_less_mono2)
  qed
qed

section \<open>Building a tree\<close>

text \<open>
  Both \<open>StartHuff\<close> and \<open>reconst\<close> grow the tables from the leaves: \<open>build S i F X\<close> says that the
  entries so far form a forest over all codes, that the nodes before \<open>i\<close> have a parent, and that
  the frequencies of the others add up to \<open>S\<close>.
\<close>

definition build :: "nat \<Rightarrow> nat \<Rightarrow> nat list \<Rightarrow> nat list \<Rightarrow> bool" where
  "build S i F X \<longleftrightarrow> length F = length X \<and> sorted F \<and> (\<forall>f \<in> set F. 0 < f) \<and> even i \<and> i \<le> length F \<and>
     (\<forall>a < length X. leaf_son (X ! a) \<or> node_son a (X ! a) \<and> X ! a < i \<and> F ! a = F ! (X ! a) + F ! (X ! a + 1)) \<and>
     distinct X \<and> set X = {HT..<HT + N_CHAR} \<union> {m. m < i \<and> even m} \<and> sum_list (drop i F) = S"

definition ins :: "nat \<Rightarrow> 'a \<Rightarrow> 'a list \<Rightarrow> 'a list" where
  "ins k v xs = take k xs @ v # drop k xs"

lemma length_ins [simp]: "length (ins k v xs) = Suc (length xs)"
  by (simp add: ins_def)

lemma nth_ins:
  "k \<le> length xs \<Longrightarrow> n \<le> length xs \<Longrightarrow>
   ins k v xs ! n = (if n < k then xs ! n else if n = k then v else xs ! (n - 1))"
  by (auto simp: ins_def nth_append nth_Cons' min_def)

lemma sorted_ins:
  assumes "sorted xs" "\<And>a. a < k \<Longrightarrow> a < length xs \<Longrightarrow> xs ! a \<le> v"
    and "\<And>a. k \<le> a \<Longrightarrow> a < length xs \<Longrightarrow> v \<le> xs ! a"
  shows "sorted (ins k v xs)"
proof -
  have "x \<le> v" if "x \<in> set (take k xs)" for x
    using that assms(2) by (auto simp: in_set_conv_nth)
  moreover have "v \<le> x" if "x \<in> set (drop k xs)" for x
  proof -
    from that obtain m where "m < length xs - k" "x = xs ! (k + m)"
      by (auto simp: in_set_conv_nth)
    then show ?thesis using assms(3) [of "k + m"] by simp
  qed
  ultimately show ?thesis
    using assms(1) by (auto simp: ins_def sorted_append sorted_wrt_take sorted_wrt_drop intro: order_trans)
qed

lemma set_ins: "set (ins k v xs) = insert v (set xs)"
  using set_append [of "take k xs" "drop k xs"] by (auto simp: ins_def)

lemma distinct_ins: "distinct (ins k v xs) \<longleftrightarrow> v \<notin> set xs \<and> distinct xs"
proof -
  have "distinct (take k xs @ drop k xs) = distinct xs" "set (take k xs @ drop k xs) = set xs"
    by simp_all
  then show ?thesis
    unfolding ins_def by (auto simp del: append_take_drop_id)
qed

lemma build_insert:
  assumes b: "build S i F X" and i: "i + 1 < length F" "length F < HT" and first: "first = F ! i + F ! (i + 1)"
    and k: "i + 2 \<le> k" "k \<le> length F" and below: "F ! (k - 1) \<le> first"
    and above: "k < length F \<Longrightarrow> first \<le> F ! k"
  shows "build S (i + 2) (ins k first F) (ins k i X)"
proof -
  have len: "length X = length F" and srt: "sorted F" and pos: "\<And>f. f \<in> set F \<Longrightarrow> 0 < f"
    and ev: "even i" and kinds: "\<And>a. a < length F \<Longrightarrow>
        leaf_son (X ! a) \<or> node_son a (X ! a) \<and> X ! a < i \<and> F ! a = F ! (X ! a) + F ! (X ! a + 1)"
    and dX: "distinct X" and sX: "set X = {HT..<HT + N_CHAR} \<union> {m. m < i \<and> even m}"
    and sum: "sum_list (drop i F) = S"
    using b by (auto simp: build_def)
  have "sorted (ins k first F)"
  proof (rule sorted_ins [OF srt])
    fix a assume "a < k" "a < length F"
    then have "F ! a \<le> F ! (k - 1)" using srt k by (simp add: sorted_nth_mono)
    then show "F ! a \<le> first" using below by simp
  next
    fix a assume a: "k \<le> a" "a < length F"
    then have "F ! k \<le> F ! a" using srt by (simp add: sorted_nth_mono)
    then show "first \<le> F ! a" using above a by simp
  qed
  moreover have "0 < f" if "f \<in> set (ins k first F)" for f
    using that pos first nth_mem [of i F] i by (auto simp: set_ins)
  moreover have "leaf_son (ins k i X ! a) \<or> node_son a (ins k i X ! a) \<and> ins k i X ! a < i + 2 \<and>
      ins k first F ! a = ins k first F ! (ins k i X ! a) + ins k first F ! (ins k i X ! a + 1)"
    if a: "a < length (ins k i X)" for a
  proof -
    have early: "ins k first F ! q = F ! q" if "q < k" for q
      using that k by (simp add: nth_ins)
    consider "a < k" | "a = k" | "k < a" by linarith
    then show ?thesis
    proof cases
      case 1
      then show ?thesis
        using kinds [of a] k len early by (auto simp: nth_ins node_son_def)
    next
      case 2
      then show ?thesis
        using k len early ev first by (auto simp: nth_ins node_son_def)
    next
      case 3
      then have "ins k i X ! a = X ! (a - 1)" "ins k first F ! a = F ! (a - 1)" "a - 1 < length F"
        using k len a by (simp_all add: nth_ins)
      then show ?thesis
        using kinds [of "a - 1"] k early 3 by (auto simp: node_son_def)
    qed
  qed
  moreover have "i \<notin> set X"
    using sX i by auto
  moreover have "sum_list (drop (i + 2) (ins k first F)) = S"
  proof -
    have "drop i F = F ! i # F ! (i + 1) # drop (i + 2) F"
      using i by (simp add: Cons_nth_drop_Suc)
    then have S: "S = first + sum_list (drop (i + 2) F)"
      using sum first by simp
    have "drop (i + 2) F = drop (i + 2) (take k F) @ drop k F"
      using k by (metis append_take_drop_id drop_append diff_is_0_eq drop0 length_take min.absorb2)
    moreover have "drop (i + 2) (ins k first F) = drop (i + 2) (take k F) @ first # drop k F"
      using k by (simp add: ins_def)
    ultimately show ?thesis
      using S by simp
  qed
  moreover have "{HT..<HT + N_CHAR} \<union> {m. m < i + 2 \<and> even m} = insert i ({HT..<HT + N_CHAR} \<union> {m. m < i \<and> even m})"
    using ev by (auto simp: less_Suc_eq elim: oddE)
  ultimately show ?thesis
    using dX sX len ev i unfolding build_def by (auto simp: distinct_ins set_ins)
qed

text \<open>\<open>connected n X p\<close>: the first \<open>n\<close> nodes are the parents of what they point at.\<close>

definition connected :: "nat \<Rightarrow> nat list \<Rightarrow> nat list \<Rightarrow> bool" where
  "connected n X p \<longleftrightarrow> (\<forall>a < n. p ! (X ! a) = a \<and> (X ! a < HT \<longrightarrow> p ! (X ! a + 1) = a))"

lemma build_done:
  assumes b: "build S HR (take HT (freq h)) (son h)" and sh: "huff_shape h"
    and sent: "freq h ! HT = 0xffff" and con: "connected HT (son h) (prnt h)" and root: "prnt h ! HR = 0"
  shows "huff_tree HT h" and "freq h ! HR = S"
proof -
  have len: "length (freq h) = HT + 1" "length (prnt h) = HT + N_CHAR" "length (son h) = HT"
    using sh by (simp_all add: huff_shape_def)
  define F where "F = take HT (freq h)"
  have F: "F ! a = freq h ! a" if "a < HT" for a using that by (simp add: F_def)
  have lF: "length F = HT" using len by (simp add: F_def)
  have srt: "sorted F" and pos: "\<And>f. f \<in> set F \<Longrightarrow> 0 < f" and kinds: "\<And>a. a < HT \<Longrightarrow>
        leaf_son (son h ! a) \<or> node_son a (son h ! a) \<and> F ! a = F ! (son h ! a) + F ! (son h ! a + 1)"
    and sX: "set (son h) = {HT..<HT + N_CHAR} \<union> {m. m < HR \<and> even m}"
    and sum: "sum_list (drop HR F) = S"
    using b len by (auto simp: build_def F_def [symmetric])
  have "drop HR F = [F ! HR]"
    using lF Cons_nth_drop_Suc [of HR F] by (simp add: sizes)
  then show "freq h ! HR = S"
    using sum F [of HR] by (simp add: sizes)
  have up: "prnt h ! m < HT \<and> son h ! (prnt h ! m) = pair_of m"
    if m: "m < HT + N_CHAR" "m \<noteq> HR" for m
  proof -
    have "m < HR" "even (m - m mod 2)" "m - m mod 2 < HR" if "m < HT"
    proof -
      show "m < HR" using that m by (simp add: sizes)
      then show "m - m mod 2 < HR" by linarith
      show "even (m - m mod 2)" by (simp add: minus_mod_eq_mult_div)
    qed
    then have "pair_of m \<in> set (son h)"
      using m by (auto simp: sX pair_of_def)
    then obtain a where a: "a < HT" "son h ! a = pair_of m"
      using len by (auto simp: in_set_conv_nth)
    have "m = pair_of m \<or> pair_of m < HT \<and> m = pair_of m + 1"
      by (auto simp: pair_of_def elim: oddE)
    then have "prnt h ! m = a"
      using con a by (auto simp: connected_def)
    then show ?thesis using a by simp
  qed
  show "huff_tree HT h"
    unfolding huff_tree_def
  proof (intro conjI)
    show "\<forall>a b. a \<le> b \<longrightarrow> b < HT \<longrightarrow> freq h ! a \<le> freq h ! b"
      using srt lF by (metis F sorted_nth_mono order.strict_trans1)
    show "\<forall>a<HT. 0 < freq h ! a"
      using pos lF by (metis F nth_mem)
    show "\<forall>a<HT. leaf_son (son h ! a) \<or> node_son a (son h ! a)"
      using kinds by blast
    show "\<forall>m<HT + N_CHAR. m \<noteq> HR \<longrightarrow> prnt h ! m < HT \<and> son h ! (prnt h ! m) = pair_of m"
      using up by blast
    show "\<forall>a<HT. prnt h ! (son h ! a) = a \<and> (son h ! a < HT \<longrightarrow> prnt h ! (son h ! a + 1) = a)"
      using con by (simp add: connected_def)
    show "\<forall>a<HT. son h ! a < HT \<longrightarrow>
        freq h ! a + of_bool (a = HT) = freq h ! (son h ! a) + freq h ! (son h ! a + 1)"
    proof (intro allI impI)
      fix a assume a: "a < HT" "son h ! a < HT"
      then have "node_son a (son h ! a) \<and> F ! a = F ! (son h ! a) + F ! (son h ! a + 1)"
        using kinds [OF a(1)] by (auto simp: leaf_son_def)
      then show "freq h ! a + of_bool (a = HT) = freq h ! (son h ! a) + freq h ! (son h ! a + 1)"
        using a F by (auto simp: node_son_def)
    qed
  qed (use sh sent root in simp_all)
qed

text \<open>The root frequency is the sum over the leaves.\<close>

lemma leaf_total:
  assumes t: "huff_tree HT h"
  shows "(\<Sum>a \<in> {a. a < HT \<and> HT \<le> son h ! a}. freq h ! a) = freq h ! HR"
proof -
  define I where "I = {a. a < HT \<and> son h ! a < HT}"
  define L where "L = {a. a < HT \<and> HT \<le> son h ! a}"
  have fin: "finite I" "finite L" by (simp_all add: I_def L_def)
  have all: "{..<HT} = I \<union> L" "I \<inter> L = {}" by (auto simp: I_def L_def)
  have kids: "{m \<in> {..<HR}. prnt h ! m = a} = {son h ! a, son h ! a + 1}" if "a \<in> I" for a
  proof -
    have a: "a < HT" "son h ! a < HT" "son h ! a + 1 < HR"
      using that tree_inner [OF t, of a] by (auto simp: I_def sizes)
    have "m = son h ! a \<or> m = son h ! a + 1" if "m < HR" "prnt h ! m = a" for m
      using that tree_child_iff [OF t a(1), of m] by (auto simp: sizes)
    then show ?thesis
      using a tree_down [OF t a(1)] tree_down2 [OF t a(1,2)] by auto
  qed
  have parents: "(\<lambda>m. prnt h ! m) ` {..<HR} \<subseteq> I"
  proof
    fix a assume "a \<in> (\<lambda>m. prnt h ! m) ` {..<HR}"
    then obtain m where m: "m < HR" "a = prnt h ! m" by auto
    then show "a \<in> I"
      using tree_up [OF t, of m] tree_up_son [OF t, of m] by (simp add: I_def pair_of_def sizes)
  qed
  have "(\<Sum>m<HR. freq h ! m) = (\<Sum>a\<in>I. \<Sum>m | m \<in> {..<HR} \<and> prnt h ! m = a. freq h ! m)"
    using sum.group [OF _ fin(1) parents, of "\<lambda>m. freq h ! m"] by simp
  also have "\<dots> = (\<Sum>a\<in>I. freq h ! a)"
  proof (rule sum.cong [OF refl])
    fix a assume a: "a \<in> I"
    then have "freq h ! a = freq h ! (son h ! a) + freq h ! (son h ! a + 1)"
      using tree_sum [OF t, of a] by (auto simp: I_def)
    then show "(\<Sum>m | m \<in> {..<HR} \<and> prnt h ! m = a. freq h ! m) = freq h ! a"
      unfolding kids [OF a] by simp
  qed
  finally have inner: "(\<Sum>m<HR. freq h ! m) = (\<Sum>a\<in>I. freq h ! a)" .
  have "{..<HT} = insert HR {..<HR}" by (auto simp: sizes)
  then have "(\<Sum>m<HT. freq h ! m) = freq h ! HR + (\<Sum>m<HR. freq h ! m)"
    by simp
  moreover have "(\<Sum>m<HT. freq h ! m) = (\<Sum>a\<in>I. freq h ! a) + (\<Sum>a\<in>L. freq h ! a)"
    unfolding all(1) by (rule sum.union_disjoint [OF fin all(2)])
  ultimately show ?thesis
    using inner by (simp add: L_def)
qed

section \<open>The initial tree\<close>

lemma take_Suc_update: "j < length xs \<Longrightarrow> take (Suc j) (xs[j := v]) = take j xs @ [v]"
  by (simp add: take_Suc_conv_app_nth)

lemma ins_at_end: "ins (length xs) v xs = xs @ [v]"
  by (simp add: ins_def)

lemma sum_list_two:
  assumes "i + 1 < length F" shows "F ! i + F ! (i + 1) \<le> sum_list (drop i (F :: nat list))"
proof -
  have "drop i F = F ! i # F ! (i + 1) # drop (i + 2) F"
    using assms by (simp add: Cons_nth_drop_Suc)
  then show ?thesis by simp
qed

lemma build_last_le:
  assumes b: "build S i F X" and i: "i + 1 < length F" and last: "F ! (length F - 1) \<le> F ! i + F ! (i + 1)"
    and lt: "length F < HT"
  shows "build S (i + 2) (F @ [F ! i + F ! (i + 1)]) (X @ [i])"
proof -
  have "build S (i + 2) (ins (length F) (F ! i + F ! (i + 1)) F) (ins (length F) i X)"
    by (rule build_insert [OF b i lt refl]) (use i last in auto)
  moreover have "length X = length F" using b by (simp add: build_def)
  ultimately show ?thesis by (metis ins_at_end)
qed

definition start_leaves :: "nat \<Rightarrow> huff \<Rightarrow> bool" where
  "start_leaves n h \<longleftrightarrow> huff_shape h \<and>
     (\<forall>a < n. freq h ! a = 1 \<and> son h ! a = a + HT \<and> prnt h ! (a + HT) = a)"

lemma start_leaves_step:
  assumes "start_leaves i h" "i < N_CHAR"
  shows "\<exists>h'. do { f \<leftarrow> wr i 1 (freq h); s \<leftarrow> wr i (i + HT) (son h); p \<leftarrow> wr (i + HT) i (prnt h);
      Some \<lparr>freq = f, prnt = p, son = s\<rparr> } = Some h' \<and> start_leaves (Suc i) h'"
  using assms by (auto simp: start_leaves_def huff_shape_def access_simps less_Suc_eq nth_list_update sizes)

lemma start_leaves_build:
  assumes "start_leaves N_CHAR h"
  shows "build N_CHAR 0 (take N_CHAR (freq h)) (take N_CHAR (son h))" "connected N_CHAR (son h) (prnt h)"
proof -
  have len: "N_CHAR < length (freq h)" "N_CHAR < length (son h)"
    using assms by (auto simp: start_leaves_def huff_shape_def sizes)
  have F: "take N_CHAR (freq h) = replicate N_CHAR 1"
    using assms len by (intro nth_equalityI) (auto simp: start_leaves_def)
  have X: "take N_CHAR (son h) = [HT..<HT + N_CHAR]"
    using assms len by (intro nth_equalityI) (auto simp: start_leaves_def)
  show "build N_CHAR 0 (take N_CHAR (freq h)) (take N_CHAR (son h))"
    unfolding F X build_def by (auto simp: leaf_son_def sum_list_replicate)
  show "connected N_CHAR (son h) (prnt h)"
    using assms by (auto simp: start_leaves_def connected_def add.commute)
qed

text \<open>The state of the \<open>while (j <= R)\<close> loop.\<close>

definition start_inv :: "nat \<Rightarrow> nat \<times> huff \<Rightarrow> bool" where
  "start_inv j = (\<lambda>(i, h). huff_shape h \<and> i = 2 * (j - N_CHAR) \<and>
     build N_CHAR i (take j (freq h)) (take j (son h)) \<and> connected j (son h) (prnt h) \<and>
     (j < HT \<longrightarrow> freq h ! (j - 1) \<le> freq h ! i + freq h ! (i + 1)))"

lemma build_fresh:
  assumes b: "build S i F X" and lt: "i < HT" and a: "a < length X"
  shows "X ! a \<noteq> i" "i + 1 < HT \<Longrightarrow> X ! a \<noteq> i + 1" "X ! a < HT + N_CHAR" "X ! a < HT \<Longrightarrow> X ! a + 1 < i"
proof -
  have X: "HT \<le> X ! a \<and> X ! a < HT + N_CHAR \<or> X ! a < i \<and> even (X ! a)"
    using b a nth_mem [OF a] by (auto simp: build_def)
  moreover have "even i" using b by (simp add: build_def)
  ultimately show "X ! a < HT \<Longrightarrow> X ! a + 1 < i"
    using lt by (auto elim!: evenE)
  show "X ! a \<noteq> i" "i + 1 < HT \<Longrightarrow> X ! a \<noteq> i + 1" "X ! a < HT + N_CHAR"
    using X lt by auto
qed

lemma start_step:
  assumes inv: "start_inv j (i, h)" and j: "N_CHAR \<le> j" "j < HT"
  shows "\<exists>s'. do { f0 \<leftarrow> rd (freq h) i; f1 \<leftarrow> rd (freq h) (i + 1);
                 f \<leftarrow> wr j (u32_add f0 f1) (freq h); s \<leftarrow> wr j i (son h);
                 p1 \<leftarrow> wr (i + 1) j (prnt h); p \<leftarrow> wr i j p1;
                 Some (i + 2, \<lparr>freq = f, prnt = p, son = s\<rparr>) } = Some s' \<and> start_inv (Suc j) s'"
proof -
  have i: "i = 2 * (j - N_CHAR)" and b: "build N_CHAR i (take j (freq h)) (take j (son h))"
    and con: "connected j (son h) (prnt h)" and last: "freq h ! (j - 1) \<le> freq h ! i + freq h ! (i + 1)"
    and len: "length (freq h) = HT + 1" "length (prnt h) = HT + N_CHAR" "length (son h) = HT"
    using inv j by (auto simp: start_inv_def huff_shape_def)
  have ij: "i + 1 < j" "i + 1 < HT" using i j by (simp_all add: sizes)
  define v where "v = freq h ! i + freq h ! (i + 1)"
  have "v \<le> N_CHAR"
    using sum_list_two [of i "take j (freq h)"] ij b j len by (simp add: build_def v_def)
  then have v: "u32_add (freq h ! i) (freq h ! Suc i) = v"
    by (simp add: u32_add_def v_def sizes)
  define h' where "h' = \<lparr>freq = (freq h)[j := v], prnt = (prnt h)[i + 1 := j, i := j], son = (son h)[j := i]\<rparr>"
  have "length (take j (freq h)) = j" using j len by simp
  then have b': "build N_CHAR (i + 2) (take j (freq h) @ [v]) (take j (son h) @ [i])"
    using build_last_le [OF b] ij j last by (simp add: v_def)
  then have "build N_CHAR (i + 2) (take (Suc j) (freq h')) (take (Suc j) (son h'))"
    using j len by (simp add: h'_def take_Suc_update)
  moreover have "connected (Suc j) (son h') (prnt h')"
    unfolding connected_def
  proof (intro allI impI)
    fix a assume a: "a < Suc j"
    show "prnt h' ! (son h' ! a) = a \<and> (son h' ! a < HT \<longrightarrow> prnt h' ! (son h' ! a + 1) = a)"
    proof (cases "a = j")
      case True
      then show ?thesis using len j ij by (simp add: h'_def)
    next
      case False
      then have "a < j" using a by simp
      then have sa: "son h' ! a = son h ! a" "son h ! a \<noteq> i" "son h ! a \<noteq> i + 1" "son h ! a < HT \<Longrightarrow> son h ! a + 1 < i"
        using build_fresh [OF b, of a] len j ij by (simp_all add: h'_def)
      have "prnt h ! (son h ! a) = a" "son h ! a < HT \<Longrightarrow> prnt h ! (son h ! a + 1) = a"
        using con \<open>a < j\<close> by (simp_all add: connected_def)
      with sa show ?thesis
        by (auto simp: h'_def)
    qed
  qed
  moreover have "freq h' ! (Suc j - 1) \<le> freq h' ! (i + 2) + freq h' ! (i + 2 + 1)" if "Suc j < HT"
  proof -
    have l: "i + 3 < Suc j" using that i j by (simp add: sizes)
    have "sorted (take j (freq h) @ [v])" using b' by (simp add: build_def)
    moreover have "take j (freq h) @ [v] = take (Suc j) (freq h')"
      using j len by (simp add: h'_def take_Suc_update)
    ultimately have "freq h' ! p \<le> freq h' ! q" if "p \<le> q" "q \<le> j" for p q
      using that sorted_nth_mono [of "take (Suc j) (freq h')" p q] j len by (simp add: h'_def)
    then have "freq h' ! i \<le> freq h' ! (i + 2)" "freq h' ! (i + 1) \<le> freq h' ! (i + 3)"
      using l by simp_all
    then show ?thesis
      using ij len j by (simp add: h'_def v_def numeral_3_eq_3)
  qed
  moreover have "huff_shape h'" using len by (simp add: huff_shape_def h'_def)
  ultimately have "start_inv (Suc j) (i + 2, h')"
    using i j by (simp add: start_inv_def Suc_diff_le)
  then show ?thesis
    using len ij j v by (simp add: access_simps h'_def)
qed

lemma StartHuff_inv:
  assumes "huff_shape h"
  shows "\<exists>h'. StartHuff h = Some h' \<and> huff_inv h' \<and> freq h' ! HR = N_CHAR"
proof -
  define f1 where "f1 = (\<lambda>i (h :: huff). do { f \<leftarrow> wr i 1 (freq h); s \<leftarrow> wr i (i + HT) (son h);
      p \<leftarrow> wr (i + HT) i (prnt h); Some \<lparr>freq = f, prnt = p, son = s\<rparr> })"
  define f2 where "f2 = (\<lambda>j (i, h :: huff). do { f0 \<leftarrow> rd (freq h) i; f1 \<leftarrow> rd (freq h) (i + 1);
      f \<leftarrow> wr j (u32_add f0 f1) (freq h); s \<leftarrow> wr j i (son h); p1 \<leftarrow> wr (i + 1) j (prnt h);
      p \<leftarrow> wr i j p1; Some (i + 2, \<lparr>freq = f, prnt = p, son = s\<rparr>) })"
  have "\<exists>h1. for_up f1 0 N_CHAR h = Some h1 \<and> start_leaves (0 + N_CHAR) h1"
  proof (rule for_up_total [where P = start_leaves])
    show "start_leaves 0 h" using assms by (simp add: start_leaves_def)
    show "\<exists>s'. f1 i s = Some s' \<and> start_leaves (Suc i) s'" if "i < 0 + N_CHAR" "start_leaves i s" for i s
      using start_leaves_step [of i s] that by (simp add: f1_def)
  qed
  then obtain h1 where h1: "for_up f1 0 N_CHAR h = Some h1" "start_leaves N_CHAR h1" by auto
  have "freq h1 ! a = 1" if "a < N_CHAR" for a
    using h1(2) that by (simp add: start_leaves_def)
  then have "start_inv N_CHAR (0, h1)"
    using start_leaves_build [OF h1(2)] h1(2) by (simp add: start_inv_def start_leaves_def sizes)
  moreover have "\<exists>s'. f2 j s = Some s' \<and> start_inv (Suc j) s'"
    if "N_CHAR \<le> j" "j < N_CHAR + (HR + 1 - N_CHAR)" "start_inv j s" for j s
    using start_step [of j "fst s" "snd s"] that by (cases s) (simp add: f2_def sizes)
  ultimately have "\<exists>s. for_up f2 N_CHAR (HR + 1 - N_CHAR) (0, h1) = Some s \<and>
      start_inv (N_CHAR + (HR + 1 - N_CHAR)) s"
    by (rule for_up_total [where P = start_inv])
  then obtain i h2 where h2: "for_up f2 N_CHAR (HR + 1 - N_CHAR) (0, h1) = Some (i, h2)" "start_inv HT (i, h2)"
    by (auto simp: sizes)
  have len: "length (freq h2) = HT + 1" "length (prnt h2) = HT + N_CHAR" "length (son h2) = HT"
    and b: "build N_CHAR HR (take HT (freq h2)) (son h2)" and con: "connected HT (son h2) (prnt h2)"
    using h2(2) by (auto simp: start_inv_def huff_shape_def sizes)
  define h' where "h' = h2\<lparr>freq := (freq h2)[HT := 0xffff], prnt := (prnt h2)[HR := 0]\<rparr>"
  have lt: "HR < HT" "HT < HT + 1" by (simp_all add: sizes)
  have "StartHuff h = do { h1 \<leftarrow> for_up f1 0 N_CHAR h; (i, h2) \<leftarrow> for_up f2 N_CHAR (HR + 1 - N_CHAR) (0, h1);
      f \<leftarrow> wr HT 0xffff (freq h2); p \<leftarrow> wr HR 0 (prnt h2); Some (h2\<lparr>freq := f, prnt := p\<rparr>) }"
    unfolding StartHuff_def f1_def f2_def by (rule refl)
  then have "StartHuff h = Some h'"
    using h1(1) h2(1) len lt by (simp add: access_simps h'_def)
  moreover have "take HT (freq h') = take HT (freq h2)" by (simp add: h'_def)
  moreover have "connected HT (son h') (prnt h')"
    unfolding connected_def
  proof (intro allI impI)
    fix a assume a: "a < HT"
    have "son h2 ! a \<noteq> HR" "son h2 ! a < HT \<Longrightarrow> son h2 ! a + 1 < HR"
      using build_fresh [OF b _, of a] a len by (simp_all add: sizes)
    then show "prnt h' ! (son h' ! a) = a \<and> (son h' ! a < HT \<longrightarrow> prnt h' ! (son h' ! a + 1) = a)"
      using con a by (fastforce simp: connected_def h'_def)
  qed
  ultimately have "StartHuff h = Some h'" "huff_tree HT h'" "freq h' ! HR = N_CHAR"
    using build_done [of N_CHAR h'] b len lt by (simp_all add: h'_def huff_shape_def)
  then show ?thesis by (simp add: huff_inv_def sizes MAX_FREQ_def)
qed

section \<open>Rebuilding the tree\<close>

text \<open>The leaves of a tree in order, and what the first pass leaves in the tables.\<close>

definition leaves :: "nat \<Rightarrow> huff \<Rightarrow> nat list" where
  "leaves n h = filter (\<lambda>a. HT \<le> son h ! a) [0..<n]"

definition halved :: "nat \<Rightarrow> huff \<Rightarrow> nat list" where
  "halved n h = map (\<lambda>a. (freq h ! a + 1) div 2) (leaves n h)"

lemma leaves_Suc:
  "leaves (Suc n) h = leaves n h @ (if HT \<le> son h ! n then [n] else [])"
  by (simp add: leaves_def)

lemma halved_Suc:
  "halved (Suc n) h = halved n h @ (if HT \<le> son h ! n then [(freq h ! n + 1) div 2] else [])"
  by (simp add: halved_def leaves_Suc)

lemma length_leaves_le: "length (leaves n h) \<le> n"
  using length_filter_le [of "\<lambda>a. HT \<le> son h ! a" "[0..<n]"] by (simp add: leaves_def)

lemma tree_leaves:
  assumes t: "huff_tree HT h"
  shows "distinct (map ((!) (son h)) (leaves HT h))"
    and "set (map ((!) (son h)) (leaves HT h)) = {HT..<HT + N_CHAR}"
    and "length (leaves HT h) = N_CHAR"
proof -
  have "inj_on ((!) (son h)) {..<HT}"
    by (rule inj_on_inverseI [where g = "(!) (prnt h)"]) (simp add: tree_down [OF t])
  then show d: "distinct (map ((!) (son h)) (leaves HT h))"
    by (simp add: distinct_map leaves_def inj_on_subset subset_eq)
  show s: "set (map ((!) (son h)) (leaves HT h)) = {HT..<HT + N_CHAR}"
  proof (intro equalityI subsetI)
    fix x assume "x \<in> set (map ((!) (son h)) (leaves HT h))"
    then show "x \<in> {HT..<HT + N_CHAR}"
      using tree_kind [OF t] by (fastforce simp: leaves_def leaf_son_def node_son_def)
  next
    fix x assume x: "x \<in> {HT..<HT + N_CHAR}"
    then have "prnt h ! x < HT" "son h ! (prnt h ! x) = x"
      using tree_up [OF t, of x] tree_up_son [OF t, of x] by (simp_all add: sizes pair_of_def)
    with x show "x \<in> set (map ((!) (son h)) (leaves HT h))"
      by (auto simp: leaves_def intro!: image_eqI [of _ _ "prnt h ! x"])
  qed
  show "length (leaves HT h) = N_CHAR"
    using distinct_card [OF d] s by simp
qed

lemma halved_total:
  assumes t: "huff_tree HT h"
  shows "2 * sum_list (halved HT h) \<le> freq h ! HR + N_CHAR"
proof -
  have "2 * sum_list (map (\<lambda>a. (freq h ! a + 1) div 2) xs) \<le> sum_list (map ((!) (freq h)) xs) + length xs" for xs
    by (induction xs) auto
  then have "2 * sum_list (halved HT h) \<le> sum_list (map ((!) (freq h)) (leaves HT h)) + length (leaves HT h)"
    by (simp only: halved_def)
  moreover have "sum_list (map ((!) (freq h)) (leaves HT h)) = freq h ! HR"
  proof -
    have "distinct (leaves HT h)" by (simp add: leaves_def)
    then have "sum_list (map ((!) (freq h)) (leaves HT h)) = (\<Sum>a\<in>set (leaves HT h). freq h ! a)"
      by (simp add: sum_list_distinct_conv_sum_set)
    also have "set (leaves HT h) = {a. a < HT \<and> HT \<le> son h ! a}"
      by (auto simp: leaves_def)
    finally show ?thesis using leaf_total [OF t] by simp
  qed
  ultimately show ?thesis using tree_leaves(3) [OF t] by simp
qed

text \<open>The state of the collecting loop: compaction in place never overtakes its reader.\<close>

definition collect_inv :: "huff \<Rightarrow> nat \<Rightarrow> nat \<times> huff \<Rightarrow> bool" where
  "collect_inv h i = (\<lambda>(j, h'). j = length (leaves i h) \<and> prnt h' = prnt h \<and>
     freq h' = halved i h @ drop j (freq h) \<and> son h' = map ((!) (son h)) (leaves i h) @ drop j (son h))"

lemma collect_step:
  assumes t: "huff_inv h" and inv: "collect_inv h i (j, h')" and i: "i < HT"
  shows "\<exists>s'. do { s \<leftarrow> rd (son h') i;
      if s \<ge> HT then do { f \<leftarrow> rd (freq h') i; fs \<leftarrow> wr j (u32_add f 1 div 2) (freq h');
          ss \<leftarrow> wr j s (son h'); Some (j + 1, h'\<lparr>freq := fs, son := ss\<rparr>) }
      else Some (j, h') } = Some s' \<and> collect_inv h (Suc i) s'"
proof -
  have tr: "huff_tree HT h" and le: "freq h ! HR \<le> MAX_FREQ" using t by (simp_all add: huff_inv_def)
  note len = tree_lengths [OF tr]
  have j: "j = length (leaves i h)" "j \<le> i" "length (halved i h) = j"
    using inv length_leaves_le [of i h] by (auto simp: collect_inv_def halved_def)
  have s: "son h' ! i = son h ! i" "freq h' ! i = freq h ! i"
    using inv j i len by (auto simp: collect_inv_def nth_append)
  have len': "length (son h') = HT" "length (freq h') = HT + 1"
    using inv j i len by (auto simp: collect_inv_def)
  have "freq h ! i \<le> freq h ! HR"
    using tree_sorted [OF tr, of i HR] i by (simp add: sizes)
  then have half: "u32_add (freq h ! i) 1 div 2 = (freq h ! i + 1) div 2"
    using le by (simp add: u32_add_def MAX_FREQ_def)
  show ?thesis
  proof (cases "HT \<le> son h ! i")
    case True
    have "(halved i h @ drop j (freq h))[j := (freq h ! i + 1) div 2]
        = halved (Suc i) h @ drop (j + 1) (freq h)"
      using j i len True by (simp add: halved_Suc list_update_append Cons_nth_drop_Suc [symmetric])
    moreover have "(map ((!) (son h)) (leaves i h) @ drop j (son h))[j := son h ! i]
        = map ((!) (son h)) (leaves (Suc i) h) @ drop (j + 1) (son h)"
      using j i len True by (simp add: leaves_Suc list_update_append Cons_nth_drop_Suc [symmetric])
    ultimately show ?thesis
      using s len' i True inv j half by (simp add: access_simps collect_inv_def leaves_Suc)
  next
    case False
    then show ?thesis
      using s len' i inv by (simp add: access_simps collect_inv_def leaves_Suc halved_Suc)
  qed
qed

lemma reconst_collect_total:
  assumes t: "huff_inv h"
  shows "\<exists>h' j. reconst_collect h = Some h' \<and> collect_inv h HT (j, h')"
proof -
  define f where "f = (\<lambda>i (j, h'). do { s \<leftarrow> rd (son h') i;
      if s \<ge> HT then do { f \<leftarrow> rd (freq h') i; fs \<leftarrow> wr j (u32_add f 1 div 2) (freq h');
          ss \<leftarrow> wr j s (son h'); Some (j + 1, (h' :: huff)\<lparr>freq := fs, son := ss\<rparr>) }
      else Some (j, h') })"
  have "\<exists>s. for_up f 0 HT (0, h) = Some s \<and> collect_inv h (0 + HT) s"
  proof (rule for_up_total [where P = "collect_inv h"])
    show "collect_inv h 0 (0, h)" by (simp add: collect_inv_def leaves_def halved_def)
    show "\<exists>s'. f i s = Some s' \<and> collect_inv h (Suc i) s'" if "i < 0 + HT" "collect_inv h i s" for i s
    proof (cases s)
      case (Pair j g)
      then show ?thesis using collect_step [OF t, of i j g] that by (simp add: f_def)
    qed
  qed
  moreover have "reconst_collect h = map_option snd (for_up f 0 HT (0, h))"
    unfolding reconst_collect_def f_def by (rule refl)
  ultimately show ?thesis by auto
qed

lemma collect_build:
  assumes t: "huff_inv h" and c: "collect_inv h HT (j, h')"
  shows "build (sum_list (halved HT h)) 0 (take N_CHAR (freq h')) (take N_CHAR (son h'))"
    and "huff_shape h'" and "freq h' ! HT = 0xffff" and "prnt h' = prnt h"
proof -
  have tr: "huff_tree HT h" using t by (simp add: huff_inv_def)
  note len = tree_lengths [OF tr]
  note lv = tree_leaves [OF tr]
  have j: "j = N_CHAR" "length (halved HT h) = N_CHAR" using c lv(3) by (simp_all add: collect_inv_def halved_def)
  have F: "take N_CHAR (freq h') = halved HT h"
    and X: "take N_CHAR (son h') = map ((!) (son h)) (leaves HT h)"
    using c j lv(3) by (auto simp: collect_inv_def)
  have "sorted (map ((!) (freq h)) (leaves HT h))"
    unfolding leaves_def using tree_sorted [OF tr]
    by (auto simp: sorted_map intro!: sorted_wrt_filter sorted_wrt_mono_rel [OF _ sorted_wrt_upt])
  then have srt: "sorted (halved HT h)"
    unfolding halved_def sorted_map by (rule sorted_wrt_mono_rel [rotated]) (simp add: div_le_mono)
  have pos: "0 < f" if "f \<in> set (halved HT h)" for f
    using that tree_pos [OF tr] by (fastforce simp: halved_def leaves_def)
  have "leaf_son (map ((!) (son h)) (leaves HT h) ! a)" if "a < N_CHAR" for a
  proof -
    have "map ((!) (son h)) (leaves HT h) ! a \<in> {HT..<HT + N_CHAR}"
      using lv(2,3) that by (metis length_map nth_mem)
    then show ?thesis by (simp add: leaf_son_def)
  qed
  then show "build (sum_list (halved HT h)) 0 (take N_CHAR (freq h')) (take N_CHAR (son h'))"
    unfolding F X build_def using srt pos lv j(2) by simp
  show "huff_shape h'" "prnt h' = prnt h" 
    using c j lv(3) len by (simp_all add: collect_inv_def huff_shape_def sizes)
  show "freq h' ! HT = 0xffff"
    using c j len tree_sentinel [OF tr] by (simp add: collect_inv_def nth_append sizes)
qed

lemma scan_down_total:
  assumes "i \<le> k" "k < length fs" "fs ! i \<le> v"
  shows "\<exists>k'. scan_down fs v k = Some k' \<and> i \<le> k' \<and> k' \<le> k \<and> fs ! k' \<le> v \<and>
    (\<forall>a. k' < a \<longrightarrow> a \<le> k \<longrightarrow> v < fs ! a)"
  using assms
proof (induction k)
  case 0
  then show ?case by (simp add: access_simps)
next
  case (Suc k)
  show ?case
  proof (cases "v < fs ! Suc k")
    case False
    then show ?thesis using Suc.prems by (simp add: access_simps)
  next
    case True
    with Suc.prems have "i \<le> k" by (metis le_SucE not_less)
    with Suc obtain k' where "scan_down fs v k = Some k'" "i \<le> k'" "k' \<le> k" "fs ! k' \<le> v"
        "\<forall>a. k' < a \<longrightarrow> a \<le> k \<longrightarrow> v < fs ! a"
      by auto
    with True Suc.prems show ?thesis
      by (auto simp: access_simps le_Suc_eq)
  qed
qed

lemma take_insert_at:
  assumes "insert_at k j v xs = Some ys"
  shows "take (Suc j) ys = ins k v (take j xs)" "drop (Suc j) ys = drop (Suc j) xs"
proof -
  have k: "k \<le> j" "j < length xs" and ys: "ys = take k xs @ v # take (j - k) (drop k xs) @ drop (Suc j) xs"
    using assms by (auto simp: insert_at_def split: if_splits)
  define ws where "ws = take k xs @ v # take (j - k) (drop k xs)"
  have ws: "length ws = Suc j" "ys = ws @ drop (Suc j) xs"
    using k by (simp_all add: ws_def ys)
  have "take j xs = take k xs @ take (j - k) (drop k xs)"
    using k by (metis le_add_diff_inverse take_add)
  then have "ins k v (take j xs) = ws"
    using k by (simp add: ins_def ws_def)
  then show "take (Suc j) ys = ins k v (take j xs)" "drop (Suc j) ys = drop (Suc j) xs"
    using ws by simp_all
qed

definition build_inv :: "nat \<Rightarrow> nat list \<Rightarrow> nat \<Rightarrow> nat \<times> huff \<Rightarrow> bool" where
  "build_inv S p j = (\<lambda>(i, h). huff_shape h \<and> i = 2 * (j - N_CHAR) \<and> prnt h = p \<and>
     freq h ! HT = 0xffff \<and> build S i (take j (freq h)) (take j (son h)))"

lemma build_step:
  assumes inv: "build_inv S p j (i, h)" and j: "N_CHAR \<le> j" "j < HT" and S: "S < 2 ^ 32"
  shows "\<exists>s'. do { f0 \<leftarrow> rd (freq h) i; f1 \<leftarrow> rd (freq h) (i + 1);
      let first = u32_add f0 f1; fs \<leftarrow> wr j first (freq h); k \<leftarrow> scan_down fs first (j - 1);
      fs' \<leftarrow> insert_at (k + 1) j first fs; ss \<leftarrow> insert_at (k + 1) j i (son h);
      Some (i + 2, h\<lparr>freq := fs', son := ss\<rparr>) } = Some s' \<and> build_inv S p (Suc j) s'"
proof -
  have i: "i = 2 * (j - N_CHAR)" and b: "build S i (take j (freq h)) (take j (son h))"
    and sent: "freq h ! HT = 0xffff" and p: "prnt h = p"
    and len: "length (freq h) = HT + 1" "length (prnt h) = HT + N_CHAR" "length (son h) = HT"
    using inv by (auto simp: build_inv_def huff_shape_def)
  have ij: "i + 1 < j" using i j by (simp add: sizes)
  define v where "v = freq h ! i + freq h ! (i + 1)"
  have "v \<le> S"
    using sum_list_two [of i "take j (freq h)"] ij b j len by (simp add: build_def v_def)
  then have v: "u32_add (freq h ! i) (freq h ! Suc i) = v"
    using S by (simp add: u32_add_def v_def)
  define fs where "fs = (freq h)[j := v]"
  have "i + 1 \<le> j - 1" "j - 1 < length fs" "fs ! (i + 1) \<le> v"
    using ij j len by (simp_all add: fs_def v_def)
  then obtain k where k: "scan_down fs v (j - 1) = Some k" "i + 1 \<le> k" "k \<le> j - 1" "fs ! k \<le> v"
      "\<forall>a. k < a \<longrightarrow> a \<le> j - 1 \<longrightarrow> v < fs ! a"
    using scan_down_total by blast
  have kj: "k + 1 \<le> j" using k(3) ij by linarith
  obtain fs' where fs': "insert_at (k + 1) j v fs = Some fs'"
    using kj j len by (simp add: insert_at_def fs_def)
  obtain ss where ss: "insert_at (k + 1) j i (son h) = Some ss"
    using kj j len by (simp add: insert_at_def)
  define h' where "h' = h\<lparr>freq := fs', son := ss\<rparr>"
  have lenF: "length (take j (freq h)) = j" using j len by simp
  have old: "fs ! a = freq h ! a" if "a < j" for a using that by (simp add: fs_def)
  have "build S (i + 2) (ins (k + 1) v (take j (freq h))) (ins (k + 1) i (take j (son h)))"
  proof (rule build_insert [OF b])
    show "take j (freq h) ! (k + 1 - 1) \<le> v" using k ij old by simp
    show "v \<le> take j (freq h) ! (k + 1)" if "k + 1 < length (take j (freq h))"
    proof -
      have "k + 1 < j" using that lenF by simp
      then have "v < fs ! (k + 1)" using k(5) by auto
      then show ?thesis using old [of "k + 1"] \<open>k + 1 < j\<close> by simp
    qed
  qed (use ij j k lenF in \<open>simp_all add: v_def\<close>)
  moreover have "take j fs = take j (freq h)" by (simp add: fs_def)
  ultimately have "build S (i + 2) (take (Suc j) (freq h')) (take (Suc j) (son h'))"
    using take_insert_at [OF fs'] take_insert_at [OF ss] by (simp add: h'_def)
  moreover have lf: "length fs' = HT + 1" "length ss = HT"
    using length_insert_at [OF fs'] length_insert_at [OF ss] len by (simp_all add: fs_def)
  moreover have "freq h' ! HT = 0xffff"
  proof -
    have "drop (Suc j) fs' ! (HT - Suc j) = drop (Suc j) fs ! (HT - Suc j)"
      using take_insert_at(2) [OF fs'] by simp
    then show ?thesis
      using j lf len sent by (simp add: h'_def fs_def)
  qed
  ultimately have "build_inv S p (Suc j) (i + 2, h')"
    using i j p len by (simp add: build_inv_def huff_shape_def h'_def Suc_diff_le)
  then show ?thesis
    using len ij j v k fs' ss by (simp add: access_simps h'_def fs_def [symmetric] Let_def)
qed

lemma reconst_build_total:
  assumes b: "build_inv S p N_CHAR (0, h)" and S: "S < 2 ^ 32"
  shows "\<exists>h'. reconst_build h = Some h' \<and> build_inv S p HT (HR, h')"
proof -
  define f where "f = (\<lambda>j (i, h :: huff). do { f0 \<leftarrow> rd (freq h) i; f1 \<leftarrow> rd (freq h) (i + 1);
      let first = u32_add f0 f1; fs \<leftarrow> wr j first (freq h); k \<leftarrow> scan_down fs first (j - 1);
      fs' \<leftarrow> insert_at (k + 1) j first fs; ss \<leftarrow> insert_at (k + 1) j i (son h);
      Some (i + 2, h\<lparr>freq := fs', son := ss\<rparr>) })"
  have "\<exists>s. for_up f N_CHAR (HT - N_CHAR) (0, h) = Some s \<and> build_inv S p (N_CHAR + (HT - N_CHAR)) s"
  proof (rule for_up_total [where P = "build_inv S p"])
    fix j s assume a: "N_CHAR \<le> j" "j < N_CHAR + (HT - N_CHAR)" "build_inv S p j s"
    then have "j < HT" by (simp add: sizes)
    then show "\<exists>s'. f j s = Some s' \<and> build_inv S p (Suc j) s'"
      using build_step [of S p j "fst s" "snd s"] a S unfolding f_def by (cases s) (simp only: split fst_conv snd_conv)
  qed (rule b)
  moreover have "reconst_build h = map_option snd (for_up f N_CHAR (HT - N_CHAR) (0, h))"
    unfolding reconst_build_def f_def by (rule refl)
  moreover have "N_CHAR + (HT - N_CHAR) = HT" by (simp add: sizes)
  ultimately obtain i h' where "reconst_build h = Some h'" "build_inv S p HT (i, h')" by auto
  moreover from this(2) have "i = HR" by (simp add: build_inv_def sizes)
  ultimately show ?thesis by auto
qed

definition connect_inv :: "huff \<Rightarrow> nat \<Rightarrow> huff \<Rightarrow> bool" where
  "connect_inv h i h' \<longleftrightarrow> freq h' = freq h \<and> son h' = son h \<and> length (prnt h') = HT + N_CHAR \<and>
     prnt h' ! HR = prnt h ! HR \<and> connected i (son h) (prnt h')"

lemma connect_step:
  assumes b: "build S HR (take HT (freq h)) (son h)" and len: "length (son h) = HT"
    and inv: "connect_inv h i h'" and i: "i < HT"
  shows "\<exists>s'. do { k \<leftarrow> rd (son h') i;
      if k \<ge> HT then do { p \<leftarrow> wr k i (prnt h'); Some (h'\<lparr>prnt := p\<rparr>) }
      else do { p1 \<leftarrow> wr (k + 1) i (prnt h'); p \<leftarrow> wr k i p1; Some (h'\<lparr>prnt := p\<rparr>) } } = Some s' \<and>
    connect_inv h (Suc i) s'"
proof -
  have root: "HR < HT" by (simp add: sizes)
  define k where "k = son h ! i"
  have lp: "length (prnt h') = HT + N_CHAR" and con: "connected i (son h) (prnt h')" and s: "son h' = son h"
    using inv by (simp_all add: connect_inv_def)
  have k: "k \<noteq> HR" "k < HT + N_CHAR" "k < HT \<Longrightarrow> k + 1 < HR"
    using build_fresh [OF b root, of i] i len by (simp_all add: k_def)
  have dist: "distinct (son h)" using b by (simp add: build_def)
  have elem: "HT \<le> son h ! a \<or> even (son h ! a)" if "a < HT" for a
    using b nth_mem [of a "son h"] len that by (auto simp: build_def)
  have other: "son h ! a \<noteq> k" "son h ! a < HT \<Longrightarrow> k < HT \<Longrightarrow> son h ! a \<noteq> k + 1"
      "son h ! a < HT \<Longrightarrow> son h ! a + 1 \<noteq> k \<or> HT \<le> k" "son h ! a < HT \<Longrightarrow> son h ! a + 1 < HR" if a: "a < i" for a
  proof -
    show "son h ! a \<noteq> k"
      using dist nth_eq_iff_index_eq [OF dist, of a i] a i len by (simp add: k_def)
    show "son h ! a < HT \<Longrightarrow> k < HT \<Longrightarrow> son h ! a \<noteq> k + 1" "son h ! a < HT \<Longrightarrow> son h ! a + 1 \<noteq> k \<or> HT \<le> k"
      using elem [of a] elem [of i] a i by (auto simp: k_def dest: arg_cong [where f = even])
    show "son h ! a < HT \<Longrightarrow> son h ! a + 1 < HR"
      using build_fresh [OF b root, of a] a i len by simp
  qed
  define p where "p = (if HT \<le> k then (prnt h')[k := i] else (prnt h')[k + 1 := i, k := i])"
  have pi: "p ! k = i" "k < HT \<longrightarrow> p ! (k + 1) = i"
    using k lp root by (auto simp: p_def)
  have pa: "p ! (son h ! a) = a \<and> (son h ! a < HT \<longrightarrow> p ! (son h ! a + 1) = a)" if a: "a < i" for a
  proof -
    have old: "prnt h' ! (son h ! a) = a" "son h ! a < HT \<Longrightarrow> prnt h' ! (son h ! a + 1) = a"
      using con a by (simp_all add: connected_def)
    have "k < HT \<Longrightarrow> son h ! a \<noteq> k + 1"
      using other(2) [OF a] k root by (cases "son h ! a < HT") auto
    then show ?thesis
      using old other [OF a] k root by (auto simp: p_def)
  qed
  have "connected (Suc i) (son h) p"
    using pi pa by (auto simp: connected_def less_Suc_eq k_def)
  moreover have "p ! HR = prnt h ! HR"
    using inv k by (auto simp: p_def connect_inv_def)
  ultimately have "connect_inv h (Suc i) (h'\<lparr>prnt := p\<rparr>)"
    using inv by (simp add: connect_inv_def p_def)
  then show ?thesis
    using s i len k lp root by (auto simp: access_simps p_def k_def [symmetric])
qed

lemma reconst_inv:
  assumes t: "huff_inv h"
  shows "\<exists>h'. reconst h = Some h' \<and> huff_inv h' \<and> 2 * freq h' ! HR \<le> freq h ! HR + N_CHAR"
proof -
  have tr: "huff_tree HT h" and le: "freq h ! HR \<le> MAX_FREQ" using t by (simp_all add: huff_inv_def)
  define S where "S = sum_list (halved HT h)"
  have S: "2 * S \<le> freq h ! HR + N_CHAR" using halved_total [OF tr] by (simp add: S_def)
  have S32: "S < 2 ^ 32" "S \<le> MAX_FREQ" using S le by (simp_all add: MAX_FREQ_def sizes)
  obtain h1 j where h1: "reconst_collect h = Some h1" "collect_inv h HT (j, h1)"
    using reconst_collect_total [OF t] by blast
  note cb = collect_build [OF t h1(2)]
  have "build_inv S (prnt h) N_CHAR (0, h1)"
    using cb by (simp add: build_inv_def S_def)
  then obtain h2 where h2: "reconst_build h1 = Some h2" "build_inv S (prnt h) HT (HR, h2)"
    using reconst_build_total S32 by blast
  have len: "length (freq h2) = HT + 1" "length (prnt h2) = HT + N_CHAR" "length (son h2) = HT"
    and b: "build S HR (take HT (freq h2)) (son h2)" and sent: "freq h2 ! HT = 0xffff"
    and p: "prnt h2 = prnt h"
    using h2(2) by (auto simp: build_inv_def huff_shape_def)
  define f where "f = (\<lambda>i (h :: huff). do { k \<leftarrow> rd (son h) i;
      if k \<ge> HT then do { p \<leftarrow> wr k i (prnt h); Some (h\<lparr>prnt := p\<rparr>) }
      else do { p1 \<leftarrow> wr (k + 1) i (prnt h); p \<leftarrow> wr k i p1; Some (h\<lparr>prnt := p\<rparr>) } })"
  have "\<exists>h3. for_up f 0 HT h2 = Some h3 \<and> connect_inv h2 (0 + HT) h3"
  proof (rule for_up_total [where P = "connect_inv h2"])
    show "connect_inv h2 0 h2" using len by (simp add: connect_inv_def connected_def)
    show "\<exists>s'. f i s = Some s' \<and> connect_inv h2 (Suc i) s'" if "i < 0 + HT" "connect_inv h2 i s" for i s
      using connect_step [OF b len(3), of i s] that unfolding f_def by simp
  qed
  then obtain h3 where h3: "for_up f 0 HT h2 = Some h3" "connect_inv h2 HT h3" by auto
  have "reconst_connect h2 = for_up f 0 HT h2"
    unfolding reconst_connect_def f_def by (rule refl)
  then have "reconst h = Some h3"
    using h1 h2 h3 by (simp add: reconst_def)
  moreover have "huff_tree HT h3" "freq h3 ! HR = S"
    using build_done [of S h3] h3(2) len b sent p tree_root [OF tr]
    by (simp_all add: connect_inv_def huff_shape_def)
  ultimately show ?thesis
    using S S32 by (simp add: huff_inv_def)
qed

section \<open>The update\<close>

lemma tree_code_leaf:
  assumes t: "huff_tree e h" and c: "c < N_CHAR"
  shows "prnt h ! (c + HT) < HT" "son h ! (prnt h ! (c + HT)) = c + HT"
  using tree_up [OF t, of "c + HT"] tree_up_son [OF t, of "c + HT"] c by (simp_all add: pair_of_def sizes)

text \<open>A leaf that is one short is no exception: only inner nodes have a sum.\<close>

lemma tree_leaf_exception:
  assumes t: "huff_tree HT h" and c: "c < N_CHAR"
  shows "huff_tree (prnt h ! (c + HT)) h"
  using t tree_code_leaf [OF t c] unfolding huff_tree_def by auto

lemma update_inv:
  assumes t: "huff_inv h" and c: "c < N_CHAR"
  shows "\<exists>h'. update c h = Some h' \<and> huff_inv h' \<and> freq h' ! HR \<le> freq h ! HR + 1"
proof -
  note len = tree_lengths [of HT h]
  have root: "HR < HT + 1" by (simp add: sizes)
  obtain h1 where h1: "(if freq h ! HR = MAX_FREQ then reconst h else Some h) = Some h1" "huff_inv h1"
      "freq h1 ! HR < MAX_FREQ" "freq h1 ! HR \<le> freq h ! HR"
  proof (cases "freq h ! HR = MAX_FREQ")
    case True
    obtain h' where "reconst h = Some h'" "huff_inv h'" "2 * freq h' ! HR \<le> freq h ! HR + N_CHAR"
      using reconst_inv [OF t] by blast
    with True that show ?thesis by (simp add: MAX_FREQ_def sizes)
  next
    case False
    with t that show ?thesis by (simp add: huff_inv_def)
  qed
  have t1: "huff_tree HT h1" using h1 by (simp add: huff_inv_def)
  obtain h' where h': "loop update_step (prnt h1 ! (c + HT), h1) = Some h'" "huff_tree HT h'"
      "freq h' ! HR = freq h1 ! HR + 1"
    using update_loop [OF tree_leaf_exception [OF t1 c] tree_code_leaf(1) [OF t1 c]] h1(3)
    by (auto simp: MAX_FREQ_def)
  have "update c h = Some h'"
    using h1(1) h'(1) tree_lengths [OF t1] tree_lengths [of HT h] t c root
    by (auto simp: update_def access_simps huff_inv_def)
  then show ?thesis
    using h' h1 by (auto simp: huff_inv_def)
qed

section \<open>Properties\<close>

text \<open>The tables as the C program finds them when it starts: static storage, all zero.\<close>

definition static_huff :: huff where
  "static_huff = \<lparr>freq = replicate (HT + 1) 0, prnt = replicate (HT + N_CHAR) 0, son = replicate HT 0\<rparr>"

lemma static_huff_shape: "huff_shape static_huff"
  by (simp add: huff_shape_def static_huff_def)

text \<open>
  C9: \<open>update\<close> on a well-formed tree, for any character code, returns, stays inside the tables and
  yields a well-formed tree again: nodes sorted by frequency, every inner node the sum of its two
  children, parent and child links inverse to each other, the root at most \<open>MAX_FREQ\<close>, so that
  no counter passes the sentinel.  The root frequency grows by at most one.
\<close>

theorem update_keeps_tree:
  assumes "huff_inv h" and "c < N_CHAR"
  shows "\<exists>h'. update c h = Some h' \<and> huff_inv h' \<and> freq h' ! HR \<le> freq h ! HR + 1"
  using assms by (rule update_inv)

theorem update_keeps_tree_witness:
  "\<exists>h h'. StartHuff static_huff = Some h \<and> update 65 h = Some h' \<and> huff_inv h' \<and> freq h' ! HR \<le> 315"
proof -
  obtain h where h: "StartHuff static_huff = Some h" "huff_inv h" "freq h ! HR = N_CHAR"
    using StartHuff_inv [OF static_huff_shape] by blast
  then show ?thesis
    using update_keeps_tree [of h 65] by (auto simp: sizes)
qed

text \<open>
  C40: \<open>StartHuff\<close> stays inside its arrays and builds, from tables with any contents, a well-formed tree over all 314 codes
  (\<open>huff_inv\<close>: every code has a leaf, each inner node is the parent of its two children and as frequent as both together, the
  nodes are in the order of their frequencies), whose root has the frequency 314, one for each code.
\<close>

theorem StartHuff_builds_tree:
  "huff_shape h \<Longrightarrow> \<exists>h'. StartHuff h = Some h' \<and> huff_inv h' \<and> freq h' ! HR = 314"
  using StartHuff_inv [of h] by (simp add: sizes)

theorem StartHuff_builds_tree_witness:
  "\<exists>h'. StartHuff static_huff = Some h' \<and> huff_inv h' \<and> freq h' ! HR = 314"
  by (rule StartHuff_builds_tree [OF static_huff_shape])

text \<open>
  C10: \<open>reconst\<close>, called when the root frequency has reached the limit, rebuilds a well-formed tree
  and halves the frequencies: twice the new root frequency is at most the old one plus the number
  of codes (the rounding up of each leaf).
\<close>

theorem reconst_halves:
  assumes "huff_inv h"
  shows "\<exists>h'. reconst h = Some h' \<and> huff_inv h' \<and> 2 * freq h' ! HR \<le> freq h ! HR + N_CHAR"
  using assms by (rule reconst_inv)

theorem reconst_halves_witness:
  "\<exists>h h'. StartHuff static_huff = Some h \<and> reconst h = Some h' \<and> huff_inv h' \<and> freq h' ! HR \<le> 314"
proof -
  obtain h where h: "StartHuff static_huff = Some h" "huff_inv h" "freq h ! HR = N_CHAR"
    using StartHuff_inv [OF static_huff_shape] by blast
  then show ?thesis
    using reconst_halves [of h] by (auto simp: sizes)
qed

end
