(* ===== verification/Lzhuf_Bits.thy ===== *)
theory Lzhuf_Bits
  imports Lzhuf_Tables Buffer
begin

text \<open>
  The bit layer of lzhuf_1.c: the running CRC, \<open>GetBit\<close> and \<open>GetByte\<close> on the input, \<open>Putcode\<close> and
  \<open>EncodeEnd\<close> on the output.  The C globals of this layer are the fields of \<open>bitio\<close>.

  Two abstractions carry the proofs.  \<open>written\<close> is the list of bits that the output buffer and the
  pending bits of \<open>putbuf\<close> stand for, and \<open>Putcode\<close> appends to it.  \<open>reads io inb bs\<close> says that
  the bits still to be delivered are \<open>bs\<close> followed by zeros for ever, and \<open>GetBit\<close> takes the first.
\<close>

section \<open>State and operations\<close>

record bitio =
  crc :: u16
  putbuf :: u32
  putlen :: u8
  codesize :: u32
  getbuf :: u32
  getlen :: u8

definition updcrc :: "u32 \<Rightarrow> u16 \<Rightarrow> u16" where
  "updcrc cp c = push_bit 8 c XOR crctab ! unat ((cp AND 0xff) XOR ucast (drop_bit 8 c))"

definition crc_fputc :: "mem \<Rightarrow> u32 \<Rightarrow> bitio \<Rightarrow> buffer \<Rightarrow> int \<times> bitio \<times> buffer" where
  "crc_fputc mem c io out =
     (case buffer_addchar mem out c of
        (r, out') \<Rightarrow> (r, io\<lparr>crc := updcrc c (crc io)\<rparr>, out'))"

definition crc_fgetc :: "bitio \<Rightarrow> buffer \<Rightarrow> (u8 option \<times> bitio \<times> buffer) option" where
  "crc_fgetc io inb =
     do { (retour, inb') \<leftarrow> buffer_iterchar inb;
          Some (case retour of
                  None \<Rightarrow> (None, io, inb')
                | Some c \<Rightarrow> (Some c, io\<lparr>crc := updcrc (ucast c) (crc io)\<rparr>, inb')) }"

text \<open>The refill loop that \<open>GetBit\<close> and \<open>GetByte\<close> begin with.\<close>

definition refill_step :: "bitio \<times> buffer \<Rightarrow> ((bitio \<times> buffer) + (bitio \<times> buffer)) option" where
  "refill_step = (\<lambda>(io, inb).
     if getlen io \<le> 8 then
       do { (c, io', inb') \<leftarrow> crc_fgetc io inb;
            let i = (case c of None \<Rightarrow> 0 | Some x \<Rightarrow> ucast x);
            w \<leftarrow> shl (8 - uint (getlen io')) i;
            Some (Inl (io'\<lparr>getbuf := getbuf io' OR w, getlen := getlen io' + 8\<rparr>, inb')) }
     else Some (Inr (io, inb)))"

definition GetBit :: "bitio \<Rightarrow> buffer \<Rightarrow> (nat \<times> bitio \<times> buffer) option" where
  "GetBit io inb =
     do { (io', inb') \<leftarrow> loop refill_step (io, inb);
          let i = getbuf io';
          Some (if i AND 0x8000 \<noteq> 0 then 1 else 0,
                io'\<lparr>getbuf := push_bit 1 (getbuf io'), getlen := getlen io' - 1\<rparr>, inb') }"

definition GetByte :: "bitio \<Rightarrow> buffer \<Rightarrow> (nat \<times> bitio \<times> buffer) option" where
  "GetByte io inb =
     do { (io', inb') \<leftarrow> loop refill_step (io, inb);
          let i = getbuf io';
          Some (unat (drop_bit 8 i AND 0xff),
                io'\<lparr>getbuf := push_bit 8 (getbuf io'), getlen := getlen io' - 8\<rparr>, inb') }"

definition Putcode :: "mem \<Rightarrow> nat \<Rightarrow> u32 \<Rightarrow> bitio \<Rightarrow> buffer \<Rightarrow> (int \<times> bitio \<times> buffer) option" where
  "Putcode mem l c io out =
     do { w \<leftarrow> shr (uint (putlen io)) c;
          let io1 = io\<lparr>putbuf := putbuf io OR w, putlen := putlen io + of_nat l\<rparr>;
          if putlen io1 \<ge> 8 then
            (case crc_fputc mem (drop_bit 8 (putbuf io1)) io1 out of
               (r, io2, out2) \<Rightarrow>
                 if r = -1 then Some (-1, io2, out2)
                 else
                   let io3 = io2\<lparr>putlen := putlen io2 - 8\<rparr> in
                   if putlen io3 \<ge> 8 then
                     (case crc_fputc mem (putbuf io3) io3 out2 of
                        (r, io4, out4) \<Rightarrow>
                          if r = -1 then Some (-1, io4, out4)
                          else
                            let io5 = io4\<lparr>codesize := codesize io4 + 2, putlen := putlen io4 - 8\<rparr> in
                            do { v \<leftarrow> shl (int l - uint (putlen io5)) c;
                                 Some (0, io5\<lparr>putbuf := v\<rparr>, out4) })
                   else Some (0, io3\<lparr>putbuf := push_bit 8 (putbuf io3), codesize := codesize io3 + 1\<rparr>, out2))
          else Some (0, io1, out) }"

definition EncodeEnd :: "mem \<Rightarrow> bitio \<Rightarrow> buffer \<Rightarrow> int \<times> bitio \<times> buffer" where
  "EncodeEnd mem io out =
     (if putlen io \<noteq> 0 then
        case crc_fputc mem (drop_bit 8 (putbuf io)) io out of
          (r, io', out') \<Rightarrow>
            if r = -1 then (-1, io', out')
            else (0, io'\<lparr>codesize := codesize io' + 1\<rparr>, out')
      else (0, io, out))"

section \<open>The CRC of a byte string\<close>

definition crc_bytes :: "u16 \<Rightarrow> u8 list \<Rightarrow> u16" where
  "crc_bytes c xs = fold (\<lambda>b. updcrc (ucast b)) xs c"

lemma crc_bytes_Nil [simp]: "crc_bytes c [] = c"
  and crc_bytes_Cons [simp]: "crc_bytes c (x # xs) = crc_bytes (updcrc (ucast x) c) xs"
  and crc_bytes_append [simp]: "crc_bytes c (xs @ ys) = crc_bytes (crc_bytes c xs) ys"
  by (simp_all add: crc_bytes_def)

lemma mask_ff: "(0xff :: u32) = mask 8"
  by (simp add: mask_eq_exp_minus_1)

lemma updcrc_low_byte: "updcrc (ucast (ucast c :: u8)) x = updcrc c x"
proof -
  have "(ucast (ucast c :: u8) :: u32) AND 0xff = c AND 0xff"
    unfolding mask_ff by (rule bit_word_eqI) (auto simp: bit_simps)
  then show ?thesis by (simp add: updcrc_def)
qed

text \<open>The index of the table is a byte, so the lookup is inside the table.\<close>

lemma updcrc_index_byte:
  "(cp AND 0xff) XOR ucast (drop_bit 8 (c :: u16)) = (take_bit 8 (cp XOR ucast (drop_bit 8 c)) :: u32)"
  unfolding mask_ff by (rule bit_word_eqI) (auto simp: bit_simps dest: bit_imp_le_length)

lemma unat_take_bit_8: "unat (take_bit 8 w :: u32) < 256"
  using take_bit_nat_less_exp [of 8 "unat w"] by (simp add: unsigned_take_bit_eq)

lemma updcrc_index: "unat ((cp AND 0xff) XOR ucast (drop_bit 8 (c :: u16)) :: u32) < length crctab"
  unfolding updcrc_index_byte length_tables by (rule unat_take_bit_8)

text \<open>One table step is eight shifts of the bit-serial register.\<close>

lemma updcrc_serial: "updcrc cp c = crc_byte (c XOR push_bit 8 (ucast cp))"
proof -
  define idx :: u32 where "idx = take_bit 8 (cp XOR ucast (drop_bit 8 c))"
  have "unat idx < 256"
    unfolding idx_def by (rule unat_take_bit_8)
  then have "crctab ! unat idx = crc_entry (unat idx)"
    by (simp add: crctab_spec)
  then have tab: "crctab ! unat idx = crc_byte (push_bit 8 (ucast idx))"
    by (simp add: crc_entry_def)
  have split: "c XOR push_bit 8 (ucast cp) = push_bit 8 (ucast idx) XOR take_bit 8 c"
    by (rule bit_word_eqI) (auto simp: idx_def bit_simps)
  have "crc_byte (take_bit 8 c) = push_bit 8 c"
  proof -
    have "crc_byte (take_bit 8 c) = push_bit 8 (take_bit 8 c)"
      by (rule crc_byte_low) (rule bit_word_eqI, simp add: bit_simps)
    also have "\<dots> = push_bit 8 c"
      by (rule bit_word_eqI) (auto simp: bit_simps)
    finally show ?thesis .
  qed
  then show ?thesis
    unfolding updcrc_def updcrc_index_byte idx_def [symmetric] tab split crc_byte_xor
    by (simp add: xor.commute)
qed

section \<open>Bits as lists\<close>

text \<open>The first \<open>n\<close> bits of the 16-bit window of a register, most significant first.\<close>

definition top_bits :: "nat \<Rightarrow> u32 \<Rightarrow> bits" where
  "top_bits n w = map (\<lambda>k. bit w (15 - k)) [0..<n]"

definition byte_bits :: "u8 \<Rightarrow> bits" where
  "byte_bits b = map (\<lambda>k. bit b (7 - k)) [0..<8]"

definition bytes_bits :: "u8 list \<Rightarrow> bits" where
  "bytes_bits xs = concat (map byte_bits xs)"

lemma length_top_bits [simp]: "length (top_bits n w) = n"
  by (simp add: top_bits_def)

lemma nth_top_bits [simp]: "k < n \<Longrightarrow> top_bits n w ! k = bit w (15 - k)"
  by (simp add: top_bits_def)

lemma length_byte_bits [simp]: "length (byte_bits b) = 8"
  by (simp add: byte_bits_def)

lemma nth_byte_bits [simp]: "k < 8 \<Longrightarrow> byte_bits b ! k = bit b (7 - k)"
  by (simp add: byte_bits_def)

lemma bytes_bits_simps [simp]:
  "bytes_bits [] = []" "bytes_bits (x # xs) = byte_bits x @ bytes_bits xs"
  "bytes_bits (xs @ ys) = bytes_bits xs @ bytes_bits ys"
  by (simp_all add: bytes_bits_def)

lemma length_bytes_bits [simp]: "length (bytes_bits xs) = 8 * length xs"
  by (induction xs) simp_all

text \<open>Below the first \<open>n\<close> bits of the window there is nothing.\<close>

definition low_clear :: "nat \<Rightarrow> u32 \<Rightarrow> bool" where
  "low_clear n w \<longleftrightarrow> (\<forall>k < 16 - n. \<not> bit w k)"

lemma low_clearD: "low_clear n w \<Longrightarrow> k + n < 16 \<Longrightarrow> \<not> bit w k"
  by (simp add: low_clear_def)

section \<open>Reading bits\<close>

definition reads :: "bitio \<Rightarrow> buffer \<Rightarrow> bits \<Rightarrow> bool" where
  "reads io inb bs \<longleftrightarrow> buffer_inv inb \<and> unat (getlen io) \<le> 16 \<and> low_clear (unat (getlen io)) (getbuf io) \<and>
     (\<exists>pad. top_bits (unat (getlen io)) (getbuf io) @ bytes_bits (unread inb) = bs @ replicate pad False \<and>
        (0 < pad \<longrightarrow> unread inb = []))"

text \<open>
  What the reader has consumed: the bytes gone from the buffer are in the CRC.
\<close>

definition consumed :: "bitio \<Rightarrow> buffer \<Rightarrow> bitio \<Rightarrow> buffer \<Rightarrow> bool" where
  "consumed io inb io' inb' \<longleftrightarrow> contents inb' = contents inb \<and>
     (\<exists>xs. unread inb = xs @ unread inb' \<and> crc io' = crc_bytes (crc io) xs) \<and>
     putbuf io' = putbuf io \<and> putlen io' = putlen io \<and> codesize io' = codesize io"

lemma consumed_refl [simp]: "consumed io inb io inb"
  by (auto simp: consumed_def)

lemma consumed_trans:
  "consumed io inb io' inb' \<Longrightarrow> consumed io' inb' io'' inb'' \<Longrightarrow> consumed io inb io'' inb''"
  by (fastforce simp: consumed_def)

lemma crc_fgetc_total:
  assumes "buffer_inv inb"
  shows "\<exists>c io' inb'. crc_fgetc io inb = Some (c, io', inb') \<and> buffer_inv inb' \<and>
    consumed io inb io' inb' \<and> getbuf io' = getbuf io \<and> getlen io' = getlen io \<and>
    unread inb = (case c of None \<Rightarrow> unread inb' | Some x \<Rightarrow> x # unread inb') \<and>
    (c = None \<longrightarrow> unread inb = [])"
proof (cases rule: src.get_cases [OF assms])
  case 1
  with assms show ?thesis by (simp add: crc_fgetc_def)
next
  case (2 c inb')
  moreover have "contents inb' = contents inb"
    using 2 buffer_iterchar_contents by blast
  ultimately show ?thesis
    by (auto simp: crc_fgetc_def consumed_def intro!: exI [of _ "[c]"])
qed

lemma byte_bits_0: "byte_bits 0 = replicate 8 False"
  by (rule nth_equalityI) simp_all

text \<open>One refill puts the next byte, or zeros at the end, under the bits in hand.\<close>

lemma refill_window:
  assumes g: "g \<le> 8" and clear: "low_clear g w"
  shows "top_bits (g + 8) (w OR push_bit (8 - g) (ucast x)) = top_bits g w @ byte_bits x"
    and "low_clear (g + 8) (w OR push_bit (8 - g) (ucast x))"
proof -
  show "top_bits (g + 8) (w OR push_bit (8 - g) (ucast x)) = top_bits g w @ byte_bits x"
  proof (rule nth_equalityI)
    fix i assume i: "i < length (top_bits (g + 8) (w OR push_bit (8 - g) (ucast x)))"
    show "top_bits (g + 8) (w OR push_bit (8 - g) (ucast x)) ! i = (top_bits g w @ byte_bits x) ! i"
    proof (cases "i < g")
      case True
      have "\<not> bit x (7 + g - i)" using True by (auto dest: bit_imp_le_length)
      moreover have "15 - i - (8 - g) = 7 + g - i" using True g by simp
      ultimately show ?thesis
        using i True by (simp add: nth_append bit_simps)
    next
      case False
      have "\<not> bit w (15 - i)"
        using clear False i g by (intro low_clearD [OF clear]) simp
      moreover have "15 - i - (8 - g) = 7 - (i - g)" using False i g by simp
      moreover have "8 - g \<le> 15 - i" "15 - i < 32" "7 + g - i < 32" using i g by simp_all
      ultimately show ?thesis
        using i False g by (simp add: nth_append bit_simps)
    qed
  qed simp
  show "low_clear (g + 8) (w OR push_bit (8 - g) (ucast x))"
    using clear g by (auto simp: low_clear_def bit_simps)
qed

lemma uint_u8: "uint (n :: u8) = int (unat n)"
  by simp

lemma shl_8_diff: "m \<le> 8 \<Longrightarrow> shl (8 - int m) w = Some (push_bit (8 - m) w)"
  by (simp add: shl_def nat_diff_distrib)

lemma shl_refill: "unat n \<le> 8 \<Longrightarrow> shl (8 - uint (n :: u8)) w = Some (push_bit (8 - unat n) w)"
  unfolding uint_u8 by (rule shl_8_diff)

lemma unat_getlen_add: "unat n \<le> 8 \<Longrightarrow> unat (n + 8 :: u8) = unat n + 8"
  by (simp add: unat_word_ariths)

lemma u8_le_8: "(n :: u8) \<le> 8 \<longleftrightarrow> unat n \<le> 8"
  by (simp add: word_le_nat_alt)

lemma refill_step_reads:
  assumes r: "reads io inb bs" and g: "unat (getlen io) \<le> 8"
  shows "\<exists>io' inb'. refill_step (io, inb) = Some (Inl (io', inb')) \<and> reads io' inb' bs \<and>
    consumed io inb io' inb' \<and> unat (getlen io') = unat (getlen io) + 8"
proof -
  have inv: "buffer_inv inb" and clear: "low_clear (unat (getlen io)) (getbuf io)"
    using r by (auto simp: reads_def)
  obtain pad where pad: "top_bits (unat (getlen io)) (getbuf io) @ bytes_bits (unread inb)
      = bs @ replicate pad False" "0 < pad \<longrightarrow> unread inb = []"
    using r by (auto simp: reads_def)
  obtain c io1 inb1 where c: "crc_fgetc io inb = Some (c, io1, inb1)" "buffer_inv inb1"
      "consumed io inb io1 inb1" "getbuf io1 = getbuf io" "getlen io1 = getlen io"
      "unread inb = (case c of None \<Rightarrow> unread inb1 | Some x \<Rightarrow> x # unread inb1)"
      "c = None \<longrightarrow> unread inb = []"
    using crc_fgetc_total [OF inv] by blast
  define x where "x = (case c of None \<Rightarrow> 0 | Some y \<Rightarrow> y)"
  define io' where "io' = io1\<lparr>getbuf := getbuf io OR push_bit (8 - unat (getlen io)) (ucast x),
      getlen := getlen io + 8\<rparr>"
  have step: "refill_step (io, inb) = Some (Inl (io', inb1))"
    using c g by (auto simp: refill_step_def u8_le_8 shl_refill io'_def x_def Let_def split: option.split)
  have len: "unat (getlen io') = unat (getlen io) + 8"
    using g by (simp add: io'_def unat_getlen_add)
  note win = refill_window [OF g clear, of x]
  have "top_bits (unat (getlen io')) (getbuf io') @ bytes_bits (unread inb1)
      = bs @ replicate (if c = None then pad + 8 else pad) False"
  proof (cases c)
    case None
    then have "top_bits (unat (getlen io)) (getbuf io) = bs @ replicate pad False"
      using pad c by simp
    with None c win len show ?thesis
      by (simp add: io'_def x_def byte_bits_0 replicate_add)
  next
    case (Some y)
    with c pad win len show ?thesis by (simp add: io'_def x_def)
  qed
  moreover have "0 < (if c = None then pad + 8 else pad) \<longrightarrow> unread inb1 = []"
    using pad c by (cases c) auto
  ultimately have "reads io' inb1 bs"
    using c win len g unfolding reads_def by (auto simp: io'_def)
  moreover have "consumed io inb io' inb1"
    using c by (simp add: consumed_def io'_def)
  ultimately show ?thesis using step len by blast
qed

lemma refill_reads:
  assumes "reads io inb bs"
  shows "\<exists>io' inb'. loop refill_step (io, inb) = Some (io', inb') \<and> reads io' inb' bs \<and>
    8 < unat (getlen io') \<and> consumed io inb io' inb'"
proof -
  have "\<exists>r. loop refill_step (io, inb) = Some r \<and>
      (case r of (io', inb') \<Rightarrow> reads io' inb' bs \<and> 8 < unat (getlen io') \<and> consumed io inb io' inb')"
  proof (rule loop_total [where I = "\<lambda>(io', inb'). reads io' inb' bs \<and> consumed io inb io' inb'"
        and m = "\<lambda>(io', inb'). 16 - unat (getlen io')"])
    fix s assume s: "case s of (io', inb') \<Rightarrow> reads io' inb' bs \<and> consumed io inb io' inb'"
    obtain io1 inb1 where s1: "s = (io1, inb1)" by (cases s)
    show "(\<exists>s'. refill_step s = Some (Inl s') \<and>
          (case s' of (io', inb') \<Rightarrow> reads io' inb' bs \<and> consumed io inb io' inb') \<and>
          (case s' of (io', inb') \<Rightarrow> 16 - unat (getlen io')) < (case s of (io', inb') \<Rightarrow> 16 - unat (getlen io'))) \<or>
        (\<exists>r. refill_step s = Some (Inr r) \<and>
          (case r of (io', inb') \<Rightarrow> reads io' inb' bs \<and> 8 < unat (getlen io') \<and> consumed io inb io' inb'))"
    proof (cases "unat (getlen io1) \<le> 8")
      case True
      with s s1 refill_step_reads [of io1 inb1 bs] show ?thesis
        by (fastforce dest: consumed_trans)
    next
      case False
      with s s1 show ?thesis by (simp add: refill_step_def u8_le_8)
    qed
  qed (use assms in simp)
  then show ?thesis by auto
qed

text \<open>Dropping \<open>n\<close> bits off the front of the window.\<close>

lemma top_bits_push:
  assumes "n + m \<le> 16"
  shows "top_bits (n + m) w = top_bits n w @ top_bits m (push_bit n w)"
proof (rule nth_equalityI)
  fix i assume i: "i < length (top_bits (n + m) w)"
  have "15 - (i - n) - n = 15 - i" if "n \<le> i"
    using that assms by simp
  then show "top_bits (n + m) w ! i = (top_bits n w @ top_bits m (push_bit n w)) ! i"
    using i assms by (auto simp: nth_append bit_simps)
qed simp

lemma low_clear_push: "low_clear (n + m) w \<Longrightarrow> low_clear m (push_bit n w)"
  by (auto simp: low_clear_def bit_simps)

lemma split_reads:
  assumes eq: "ys @ zs = bs @ replicate pad False" and len: "length ys \<le> n" "n \<le> length bs"
  shows "take n bs = ys @ take (n - length ys) zs"
proof -
  have "take n (ys @ zs) = take n bs"
    using len by (simp add: eq)
  with len show ?thesis by simp
qed

text \<open>
  \<open>GetBit\<close> delivers the next bit, zeros once the input is used up.  After it at least eight bits of
  the window are unused, which is why the whole last byte of a stream has been read by then.
\<close>

lemma GetBit_reads:
  assumes r: "reads io inb bs"
  shows "\<exists>io' inb'. GetBit io inb = Some (of_bool (bs \<noteq> [] \<and> hd bs), io', inb') \<and>
    reads io' inb' (tl bs) \<and> 8 \<le> unat (getlen io') \<and> consumed io inb io' inb'"
proof -
  obtain io1 inb1 where l: "loop refill_step (io, inb) = Some (io1, inb1)" "reads io1 inb1 bs"
      "8 < unat (getlen io1)" "consumed io inb io1 inb1"
    using refill_reads [OF r] by blast
  define io' where "io' = io1\<lparr>getbuf := push_bit 1 (getbuf io1), getlen := getlen io1 - 1\<rparr>"
  have len: "unat (getlen io') = unat (getlen io1) - 1"
    using l(3) by (simp add: io'_def unat_sub word_le_nat_alt)
  obtain pad where pad: "top_bits (unat (getlen io1)) (getbuf io1) @ bytes_bits (unread inb1)
      = bs @ replicate pad False" "0 < pad \<longrightarrow> unread inb1 = []"
    using l(2) by (auto simp: reads_def)
  have g: "unat (getlen io1) = 1 + unat (getlen io')" "unat (getlen io1) \<le> 16"
    using len l by (simp_all add: reads_def)
  have top: "top_bits (unat (getlen io1)) (getbuf io1) = bit (getbuf io1) 15 # top_bits (unat (getlen io')) (getbuf io')"
    using top_bits_push [of 1 "unat (getlen io')" "getbuf io1"] g by (simp add: io'_def top_bits_def)
  have bit: "(getbuf io1 AND 0x8000 \<noteq> 0) = bit (getbuf io1) 15"
  proof -
    have "(0x8000 :: u32) = 2 ^ 15" by simp
    then show ?thesis by (simp only: and_exp_eq_0_iff_not_bit not_not)
  qed
  have first: "bit (getbuf io1) 15 = (bs \<noteq> [] \<and> hd bs)"
    using pad(1) top by (cases bs; cases pad) auto
  have "\<exists>pad'. top_bits (unat (getlen io')) (getbuf io') @ bytes_bits (unread inb1) = tl bs @ replicate pad' False \<and>
      (0 < pad' \<longrightarrow> unread inb1 = [])"
    using pad top by (cases bs; cases pad) (auto intro: exI [of _ "if bs = [] then pad - 1 else pad"])
  moreover have "low_clear (unat (getlen io')) (getbuf io')"
    using l(2) g low_clear_push [of 1 "unat (getlen io')" "getbuf io1"] by (simp add: reads_def io'_def)
  ultimately have "reads io' inb1 (tl bs)"
    using l(2) g by (simp add: reads_def)
  moreover have "GetBit io inb = Some (of_bool (bs \<noteq> [] \<and> hd bs), io', inb1)"
    using l bit first by (simp add: GetBit_def io'_def Let_def)
  moreover have "consumed io inb io' inb1"
    using l by (simp add: consumed_def io'_def)
  ultimately show ?thesis using len l by auto
qed

text \<open>The value of a bit string, most significant bit first.\<close>

definition bits_val :: "bits \<Rightarrow> nat" where
  "bits_val bs = foldl (\<lambda>a b. 2 * a + of_bool b) 0 bs"

lemma bits_val_snoc [simp]: "bits_val (bs @ [b]) = 2 * bits_val bs + of_bool b"
  by (simp add: bits_val_def)

lemma bits_val_Nil [simp]: "bits_val [] = 0"
  by (simp add: bits_val_def)

lemma bits_val_append: "bits_val (xs @ ys) = bits_val xs * 2 ^ length ys + bits_val ys"
proof (induction ys rule: rev_induct)
  case Nil
  then show ?case by simp
next
  case (snoc y ys)
  then show ?case
    using bits_val_snoc [of "xs @ ys" y] by (simp add: algebra_simps)
qed

lemma bits_val_less: "bits_val bs < 2 ^ length bs"
  by (induction bs rule: rev_induct) auto

lemma bits_val_nat: "bits_val (map (\<lambda>k. bit (m :: nat) (n - 1 - k)) [0..<n]) = take_bit n m"
proof (induction n arbitrary: m)
  case 0
  then show ?case by simp
next
  case (Suc n)
  have step: "bit m (n - k) = bit (m div 2) (n - 1 - k)" if kn: "k < n" for k
  proof -
    obtain d where "n = Suc (k + d)"
      using less_imp_Suc_add [OF kn] by blast
    then show ?thesis by (simp add: bit_Suc)
  qed
  have "map (\<lambda>k. bit m (Suc n - 1 - k)) [0..<Suc n]
      = map (\<lambda>k. bit (m div 2) (n - 1 - k)) [0..<n] @ [odd m]"
    by (simp add: bit_0 step)
  then show ?case
    by (simp only: Suc bits_val_snoc take_bit_Suc) (simp add: mod_2_eq_odd)
qed

lemma bits_val_top_8: "bits_val (top_bits 8 w) = unat (drop_bit 8 w AND 0xff)"
proof -
  have "top_bits 8 w = map (\<lambda>k. bit (unat (drop_bit 8 w)) (8 - 1 - k)) [0..<8]"
    by (auto simp: top_bits_def bit_simps)
  then have "bits_val (top_bits 8 w) = take_bit 8 (unat (drop_bit 8 w))"
    by (simp only: bits_val_nat)
  also have "\<dots> = unat (drop_bit 8 w AND 0xff)"
    unfolding mask_ff by (simp add: unsigned_take_bit_eq flip: take_bit_eq_mask)
  finally show ?thesis .
qed

lemma zeros_split:
  assumes eq: "xs @ ys = bs @ replicate pad False" and n: "length xs = n"
  shows "take n (bs @ replicate n False) = xs"
    and "ys = drop n bs @ replicate (pad - (n - length bs)) False"
proof -
  have le: "n \<le> length bs + pad"
    using arg_cong [OF eq, of length] n by simp
  have "xs = take n (bs @ replicate pad False)"
    using arg_cong [OF eq, of "take n"] n by simp
  with le show "take n (bs @ replicate n False) = xs"
    by (auto simp: min_def)
  have "ys = drop n (bs @ replicate pad False)"
    using arg_cong [OF eq, of "drop n"] n by simp
  then show "ys = drop n bs @ replicate (pad - (n - length bs)) False"
    by simp
qed

lemma GetByte_reads:
  assumes r: "reads io inb bs"
  shows "\<exists>io' inb'. GetByte io inb = Some (bits_val (take 8 (bs @ replicate 8 False)), io', inb') \<and>
    reads io' inb' (drop 8 bs) \<and> consumed io inb io' inb'"
proof -
  obtain io1 inb1 where l: "loop refill_step (io, inb) = Some (io1, inb1)" "reads io1 inb1 bs"
      "8 < unat (getlen io1)" "consumed io inb io1 inb1"
    using refill_reads [OF r] by blast
  define io' where "io' = io1\<lparr>getbuf := push_bit 8 (getbuf io1), getlen := getlen io1 - 8\<rparr>"
  have len: "unat (getlen io') = unat (getlen io1) - 8"
    using l(3) by (simp add: io'_def unat_sub word_le_nat_alt)
  obtain pad where pad: "top_bits (unat (getlen io1)) (getbuf io1) @ bytes_bits (unread inb1)
      = bs @ replicate pad False" "0 < pad \<longrightarrow> unread inb1 = []"
    using l(2) by (auto simp: reads_def)
  have g: "unat (getlen io1) = 8 + unat (getlen io')" "unat (getlen io1) \<le> 16"
    using len l by (simp_all add: reads_def)
  have "top_bits 8 (getbuf io1) @ (top_bits (unat (getlen io')) (getbuf io') @ bytes_bits (unread inb1))
      = bs @ replicate pad False"
    using top_bits_push [of 8 "unat (getlen io')" "getbuf io1"] g pad(1) by (simp add: io'_def)
  note split = zeros_split [OF this, of 8, simplified]
  have "low_clear (unat (getlen io')) (getbuf io')"
    using l(2) g low_clear_push [of 8 "unat (getlen io')" "getbuf io1"] by (simp add: reads_def io'_def)
  then have "reads io' inb1 (drop 8 bs)"
    using l(2) g split pad(2) unfolding reads_def by auto
  moreover have "GetByte io inb = Some (bits_val (take 8 (bs @ replicate 8 False)), io', inb1)"
    using l split(1) by (simp add: GetByte_def io'_def Let_def bits_val_top_8)
  moreover have "consumed io inb io' inb1"
    using l by (simp add: consumed_def io'_def)
  ultimately show ?thesis by auto
qed

text \<open>When fewer than eight bits remain and eight are in the window, every byte has been read.\<close>

lemma reads_exhausted:
  assumes "reads io inb bs" "8 \<le> unat (getlen io)" "length bs < 8"
  shows "unread inb = []"
proof (rule ccontr)
  assume ne: "unread inb \<noteq> []"
  with assms(1) obtain pad where pad: "top_bits (unat (getlen io)) (getbuf io) @ bytes_bits (unread inb)
      = bs @ replicate pad False" "pad = 0"
    by (auto simp: reads_def)
  have "unat (getlen io) + 8 * length (unread inb) = length bs"
    using arg_cong [OF pad(1), of length] pad(2) by simp
  with assms show False by simp
qed

section \<open>Writing bits\<close>

text \<open>
  The invariant of the writer: fewer than eight pending bits, nothing below them in the window, and
  the CRC is that of all the bytes written.  \<open>written\<close> leaves out the first \<open>n\<close> bytes, the header.
\<close>

definition writer_inv :: "bitio \<Rightarrow> buffer \<Rightarrow> bool" where
  "writer_inv io out \<longleftrightarrow> buffer_inv out \<and> unat (putlen io) < 8 \<and>
     low_clear (unat (putlen io)) (putbuf io) \<and> crc io = crc_bytes 0 (contents out)"

definition pending :: "bitio \<Rightarrow> bits" where
  "pending io = top_bits (unat (putlen io)) (putbuf io)"

definition written :: "bitio \<Rightarrow> buffer \<Rightarrow> bits" where
  "written io out = bytes_bits (contents out) @ pending io"

lemma crc_fputc_ok:
  assumes "buffer_inv out" "crc io = crc_bytes 0 (contents out)" "plenty mem (2 * Suc (dlen out))"
  shows "\<exists>out'. crc_fputc mem c io out = (0, io\<lparr>crc := crc_bytes 0 (contents out')\<rparr>, out') \<and>
    buffer_inv out' \<and> contents out' = contents out @ [ucast c]"
proof -
  obtain out' where out': "buffer_addchar mem out c = (0, out')"
    using buffer_addchar_plenty [OF assms(1,3), of c] by (metis prod.collapse)
  with buffer_addchar_ok [OF assms(1) out'] assms(2) show ?thesis
    by (simp add: crc_fputc_def updcrc_low_byte)
qed

text \<open>The bits of the window that the two output bytes are taken from.\<close>

lemma byte_bits_high: "byte_bits (ucast (drop_bit 8 w)) = top_bits 8 w"
  by (rule nth_equalityI) (auto simp: bit_simps)

lemma byte_bits_low: "byte_bits (ucast w) = top_bits 8 (push_bit 8 w)"
  by (rule nth_equalityI) (auto simp: bit_simps)

text \<open>Or-ing the code in under the pending bits appends its bits, as far as the window reaches.\<close>

lemma top_bits_merge:
  assumes p: "p < 8" "p + l \<le> n" "n \<le> 16" and w: "low_clear p w"
    and c: "low_clear l c" "\<And>k. 16 \<le> k \<Longrightarrow> \<not> bit c k"
  shows "top_bits n (w OR drop_bit p c) = top_bits p w @ top_bits l c @ replicate (n - p - l) False"
proof (rule nth_equalityI)
  show "length (top_bits n (w OR drop_bit p c)) = length (top_bits p w @ top_bits l c @ replicate (n - p - l) False)"
    using p by simp
  fix i assume i: "i < length (top_bits n (w OR drop_bit p c))"
  have low: "\<not> bit w (15 - i)" if "p \<le> i" using w that p i by (intro low_clearD [OF w]) simp
  have high: "\<not> bit c (p + (15 - i))" if "i < p" using c(2) that p by simp
  have mid: "p + (15 - i) = 15 - (i - p)" if "p \<le> i" using that i p by simp
  have tail: "\<not> bit c (15 - (i - p))" if "p + l \<le> i"
    using that i p by (intro low_clearD [OF c(1)]) simp
  show "top_bits n (w OR drop_bit p c) ! i = (top_bits p w @ top_bits l c @ replicate (n - p - l) False) ! i"
    using i low high mid tail p by (auto simp: nth_append bit_or_iff bit_drop_bit_eq)
qed

lemma low_clear_merge:
  "p + l \<le> 16 \<Longrightarrow> low_clear p w \<Longrightarrow> low_clear l c \<Longrightarrow> low_clear (p + l) (w OR drop_bit p c)"
  by (auto simp: low_clear_def bit_simps)

text \<open>A code of \<open>l\<close> bits at the top of the window, with nothing around it.\<close>

definition code_word :: "nat \<Rightarrow> u32 \<Rightarrow> bool" where
  "code_word l c \<longleftrightarrow> l \<le> 16 \<and> low_clear l c \<and> (\<forall>k \<ge> 16. \<not> bit c k)"

lemma u8_le_num: "8 \<le> (n :: u8) \<longleftrightarrow> 8 \<le> unat n"
  by (simp add: word_le_nat_alt)

lemma shr_nat: "m < 8 \<Longrightarrow> shr (int m) w = Some (drop_bit m w)"
  by (simp add: shr_def)

lemma shr_putlen: "unat n < 8 \<Longrightarrow> shr (uint (n :: u8)) w = Some (drop_bit (unat n) w)"
  unfolding uint_u8 by (rule shr_nat)

lemma shl_diff: "m \<le> l \<Longrightarrow> l < 32 \<Longrightarrow> shl (int l - int m) w = Some (push_bit (l - m) w)"
  by (simp add: shl_def nat_diff_distrib)

lemma shl_putlen: "unat n \<le> l \<Longrightarrow> l < 32 \<Longrightarrow> shl (int l - uint (n :: u8)) w = Some (push_bit (l - unat n) w)"
  unfolding uint_u8 by (rule shl_diff)

lemma unat_putlen_add: "unat n < 8 \<Longrightarrow> l \<le> 16 \<Longrightarrow> unat (n + of_nat l :: u8) = unat n + l"
  by (simp add: unat_word_ariths unat_of_nat)

lemma unat_minus_8: "8 \<le> unat n \<Longrightarrow> unat (n - 8 :: u8) = unat n - 8"
  by (simp add: unat_sub word_le_nat_alt)

lemma top_bits_take: "n \<le> m \<Longrightarrow> top_bits n w = take n (top_bits m w)"
  by (rule nth_equalityI) auto

text \<open>\<open>Putcode\<close> appends exactly the \<open>l\<close> bits of the code to what has been written.\<close>

lemma Putcode_written:
  assumes inv: "writer_inv io out" and c: "code_word l c"
    and mem: "plenty mem (2 * (dlen out + 2))"
  shows "\<exists>io' out'. Putcode mem l c io out = Some (0, io', out') \<and> writer_inv io' out' \<and>
    written io' out' = written io out @ top_bits l c \<and> dlen out' \<le> dlen out + 2 \<and>
    getbuf io' = getbuf io \<and> getlen io' = getlen io"
proof -
  define p where "p = unat (putlen io)"
  define w where "w = putbuf io OR drop_bit p c"
  define io1 where "io1 = io\<lparr>putbuf := w, putlen := putlen io + of_nat l\<rparr>"
  have p: "p < 8" and clear: "low_clear p (putbuf io)" and binv: "buffer_inv out"
    and crc: "crc io = crc_bytes 0 (contents out)"
    using inv by (simp_all add: writer_inv_def p_def)
  have l: "l \<le> 16" and cl: "low_clear l c" and ch: "\<And>k. 16 \<le> k \<Longrightarrow> \<not> bit c k"
    using c by (simp_all add: code_word_def)
  have p1: "unat (putlen io1) = p + l"
    using unat_putlen_add [of "putlen io" l] p l by (simp add: io1_def p_def)
  have sh: "shr (uint (putlen io)) c = Some (drop_bit p c)"
    using p by (simp add: shr_putlen p_def)
  show ?thesis
  proof (cases "8 \<le> p + l")
    case False
    have "Putcode mem l c io out = Some (0, io1, out)"
      using sh p1 False by (simp add: Putcode_def Let_def io1_def w_def u8_le_num)
    moreover have "top_bits (p + l) w = top_bits p (putbuf io) @ top_bits l c"
      using top_bits_merge [of p l "p + l" "putbuf io" c] p False clear cl ch by (simp add: w_def)
    moreover have "low_clear (p + l) w"
      using low_clear_merge [of p l "putbuf io" c] False clear cl by (simp add: w_def)
    ultimately show ?thesis
      using p1 False binv crc
      by (auto simp: writer_inv_def written_def pending_def io1_def p_def)
  next
    case True
    have "plenty mem (2 * Suc (dlen out))"
      using mem by (simp add: plenty_def)
    with crc_fputc_ok [of out io1 mem "drop_bit 8 w"] binv crc obtain out2 where out2:
      "crc_fputc mem (drop_bit 8 w) io1 out = (0, io1\<lparr>crc := crc_bytes 0 (contents out2)\<rparr>, out2)"
      "buffer_inv out2" "contents out2 = contents out @ [ucast (drop_bit 8 w)]"
      by (auto simp: io1_def)
    define io3 where "io3 = io1\<lparr>crc := crc_bytes 0 (contents out2), putlen := putlen io1 - 8\<rparr>"
    have p3: "unat (putlen io3) = p + l - 8"
      using unat_minus_8 [of "putlen io1"] p1 True by (simp add: io3_def)
    have len2: "dlen out2 = Suc (dlen out)"
      using out2 binv by (metis length_append_singleton length_contents)
    show ?thesis
    proof (cases "8 \<le> p + l - 8")
      case False
      define io' where "io' = io3\<lparr>putbuf := push_bit 8 w, codesize := codesize io3 + 1\<rparr>"
      have "Putcode mem l c io out = Some (0, io', out2)"
        using sh p1 p3 True False out2
        by (simp add: Putcode_def Let_def io1_def [symmetric] w_def [symmetric] u8_le_num)
          (simp add: io3_def io'_def io1_def u8_le_num)
      moreover have "top_bits (8 + (p + l - 8)) w = top_bits p (putbuf io) @ top_bits l c"
        using top_bits_merge [of p l "p + l" "putbuf io" c] p True False clear cl ch by (simp add: w_def)
      then have "top_bits 8 w @ top_bits (p + l - 8) (push_bit 8 w) = top_bits p (putbuf io) @ top_bits l c"
        using top_bits_push [of 8 "p + l - 8" w] False by simp
      moreover have "low_clear (p + l - 8) (push_bit 8 w)"
        using low_clear_push [of 8 "p + l - 8" w] low_clear_merge [of p l "putbuf io" c]
          False True clear cl by (simp add: w_def)
      ultimately show ?thesis
        using p3 False out2 len2 
        by (auto simp: writer_inv_def written_def pending_def io'_def byte_bits_high p_def io3_def io1_def)
    next
      case T2: True
      have "plenty mem (2 * Suc (dlen out2))"
        using mem len2 by (simp add: plenty_def)
      with crc_fputc_ok [of out2 io3 mem w] out2 obtain out4 where out4:
        "crc_fputc mem w io3 out2 = (0, io3\<lparr>crc := crc_bytes 0 (contents out4)\<rparr>, out4)"
        "buffer_inv out4" "contents out4 = contents out2 @ [ucast w]"
        by (auto simp: io3_def)
      define q where "q = p + l - 16"
      define io' where "io' = io3\<lparr>crc := crc_bytes 0 (contents out4), codesize := codesize io3 + 2,
        putlen := putlen io3 - 8, putbuf := push_bit (l - q) c\<rparr>"
      have len4: "dlen out4 = Suc (dlen out2)"
        using out4 out2 by (metis length_append_singleton length_contents)
      have p5: "unat (putlen io3 - 8) = q"
        using unat_minus_8 [of "putlen io3"] p3 T2 by (simp add: q_def)
      have q: "q < 8" "q \<le> l" "l - q + q = l" "p + (l - q) = 16"
        using p l T2 by (simp_all add: q_def)
      have "shl (int l - uint (putlen io3 - 8)) c = Some (push_bit (l - q) c)"
        using shl_putlen [of "putlen io3 - 8" l c] p5 q l by simp
      then have put: "Putcode mem l c io out = Some (0, io', out4)"
        using sh p1 p3 True T2 out2 out4
        by (simp add: Putcode_def Let_def io1_def [symmetric] w_def [symmetric] u8_le_num)
          (simp add: io3_def io'_def io1_def u8_le_num)
      have bits: "top_bits 16 w @ top_bits q (push_bit (l - q) c) = top_bits p (putbuf io) @ top_bits l c"
      proof -
        have "top_bits 16 w = top_bits p (putbuf io) @ top_bits (l - q) c"
          using top_bits_merge [of p "l - q" 16 "putbuf io" c]
        proof -
          show ?thesis
          proof (rule nth_equalityI)
            fix i assume i: "i < length (top_bits 16 w)"
            have "p + (15 - i) = 15 - (i - p)" if "p \<le> i" using that i p by simp
            moreover have "\<not> bit (putbuf io) (15 - i)" if "p \<le> i"
              using that i p by (intro low_clearD [OF clear]) simp
            moreover have "\<not> bit c (p + (15 - i))" if "i < p" using ch that p by simp
            ultimately show "top_bits 16 w ! i = (top_bits p (putbuf io) @ top_bits (l - q) c) ! i"
              using i q by (auto simp: nth_append w_def bit_or_iff bit_drop_bit_eq)
          qed (use q in simp)
        qed
        then show ?thesis
          using top_bits_push [of "l - q" q c] q l by simp
      qed
      have two: "top_bits 16 w = top_bits 8 w @ top_bits 8 (push_bit 8 w)"
        using top_bits_push [of 8 8 w] by simp
      have low: "low_clear q (push_bit (l - q) c)"
        using low_clear_push [of "l - q" q c] cl q by simp
      have put': "putlen io' = putlen io3 - 8" "putbuf io' = push_bit (l - q) c"
          "crc io' = crc_bytes 0 (contents out4)" "getbuf io' = getbuf io" "getlen io' = getlen io"
        by (simp_all add: io'_def io3_def io1_def)
      have "writer_inv io' out4"
        unfolding writer_inv_def put' p5 using q out4 low by simp
      moreover have "written io' out4 = written io out @ top_bits l c"
        unfolding written_def pending_def put' p5 p_def [symmetric] out4(3) out2(3)
        using bits two by (simp add: byte_bits_high byte_bits_low [of w])
      ultimately show ?thesis
        using put put' len4 len2 by auto
    qed
  qed
qed

text \<open>\<open>EncodeEnd\<close> fills the last byte up with zeros.\<close>

lemma EncodeEnd_written:
  assumes inv: "writer_inv io out" and mem: "plenty mem (2 * Suc (dlen out))"
  shows "\<exists>io' out' n. EncodeEnd mem io out = (0, io', out') \<and> buffer_inv out' \<and> n < 8 \<and>
    bytes_bits (contents out') = written io out @ replicate n False \<and>
    crc io' = crc_bytes 0 (contents out')"
proof (cases "putlen io = 0")
  case True
  then show ?thesis
    using inv by (auto simp: EncodeEnd_def writer_inv_def written_def pending_def top_bits_def
        intro!: exI [of _ "0 :: nat"])
next
  case False
  define p where "p = unat (putlen io)"
  have p: "p < 8" "low_clear p (putbuf io)" "buffer_inv out" "crc io = crc_bytes 0 (contents out)"
    using inv by (simp_all add: writer_inv_def p_def)
  obtain out' where out': "crc_fputc mem (drop_bit 8 (putbuf io)) io out
      = (0, io\<lparr>crc := crc_bytes 0 (contents out')\<rparr>, out')" "buffer_inv out'"
      "contents out' = contents out @ [ucast (drop_bit 8 (putbuf io))]"
    using crc_fputc_ok [OF p(3,4) mem] by blast
  have "top_bits 8 (putbuf io) = top_bits p (putbuf io) @ replicate (8 - p) False"
  proof (rule nth_equalityI)
    fix i assume "i < length (top_bits 8 (putbuf io))"
    then show "top_bits 8 (putbuf io) ! i = (top_bits p (putbuf io) @ replicate (8 - p) False) ! i"
      using p low_clearD [OF p(2), of "15 - i"] by (auto simp: nth_append)
  qed (use p in simp)
  moreover have "0 < p" using False by (simp add: p_def unat_gt_0)
  ultimately show ?thesis
    using out' False p
    by (auto simp: EncodeEnd_def written_def pending_def byte_bits_high p_def
        intro!: exI [of _ "8 - unat (putlen io)"])
qed

end
