(* ===== verification/Lzhuf_Codes.thy ===== *)
theory Lzhuf_Codes
  imports Lzhuf_Huff Lzhuf_Bits
begin

text \<open>
  The codes of lzhuf_1.c on top of the tree and the bit layer: \<open>EncodeChar\<close> and \<open>DecodeChar\<close> send a
  character as its path from the root, \<open>EncodePosition\<close> and \<open>DecodePosition\<close> send a match position
  as a prefix code for its upper six bits and the lower six bits verbatim.  The results say that
  what the encoder appends to the bits written, the decoder takes from the bits to read, and that
  both leave the same tree behind.
\<close>

section \<open>Operations\<close>

text \<open>
  The loop from the leaf to the root: the state is \<open>(i, j, k)\<close>; \<open>None\<close> is the error return.  The
  global \<open>code\<close>, which keeps the last code, is never read and not modelled.
\<close>

definition climb_step :: "nat list \<Rightarrow> u32 \<times> nat \<times> nat \<Rightarrow> ((u32 \<times> nat \<times> nat) + (u32 \<times> nat) option) option" where
  "climb_step pr = (\<lambda>(i, j, k).
     do { let i1 = drop_bit 1 i;
          let i2 = (if odd k then i1 + 0x8000 else i1);
          let j' = j + 1;
          p \<leftarrow> rd pr k;
          Some (if k = p \<and> k \<noteq> HR then Inr None
                else if p \<noteq> HR then Inl (i2, j', p) else Inr (Some (i2, j'))) })"

definition EncodeChar ::
    "mem \<Rightarrow> nat \<Rightarrow> huff \<Rightarrow> bitio \<Rightarrow> buffer \<Rightarrow> (int \<times> huff \<times> bitio \<times> buffer) option" where
  "EncodeChar mem c h io out =
     do { k \<leftarrow> rd (prnt h) (c + HT);
          r \<leftarrow> loop (climb_step (prnt h)) (0, 0, k);
          (case r of
             None \<Rightarrow> Some (-1, h, io, out)
           | Some (i, j) \<Rightarrow>
               do { (_, io', out') \<leftarrow> Putcode mem j i io out;
                    h' \<leftarrow> update c h;
                    Some (0, h', io', out') }) }"

definition EncodePosition ::
    "mem \<Rightarrow> u32 \<Rightarrow> bitio \<Rightarrow> buffer \<Rightarrow> (int \<times> bitio \<times> buffer) option" where
  "EncodePosition mem c io out =
     do { let i = unat (drop_bit 6 c);
          l \<leftarrow> rd p_len i;
          v \<leftarrow> rd p_code i;
          (r, io1, out1) \<leftarrow> Putcode mem l (push_bit 8 (of_nat v)) io out;
          if r = -1 then Some (-1, io1, out1)
          else do { (r2, io2, out2) \<leftarrow> Putcode mem 6 (push_bit 10 (c AND 0x3f)) io1 out1;
                    Some (if r2 = -1 then -1 else 0, io2, out2) } }"

definition decode_step ::
    "nat list \<Rightarrow> nat \<times> bitio \<times> buffer \<Rightarrow> ((nat \<times> bitio \<times> buffer) + (nat \<times> bitio \<times> buffer)) option" where
  "decode_step sn = (\<lambda>(c, io, inb).
     if c < HT then
       do { (b, io', inb') \<leftarrow> GetBit io inb;
            c' \<leftarrow> rd sn (c + b);
            Some (Inl (c', io', inb')) }
     else Some (Inr (c, io, inb)))"

definition DecodeChar :: "huff \<Rightarrow> bitio \<Rightarrow> buffer \<Rightarrow> (nat \<times> huff \<times> bitio \<times> buffer) option" where
  "DecodeChar h io inb =
     do { c0 \<leftarrow> rd (son h) HR;
          (c, io', inb') \<leftarrow> loop (decode_step (son h)) (c0, io, inb);
          h' \<leftarrow> update (c - HT) h;
          Some (c - HT, h', io', inb') }"

text \<open>\<open>j -= 2; while (j--)\<close> runs \<open>d_len[i] - 2\<close> times: no entry of \<open>d_len\<close> is below 3.\<close>

definition DecodePosition :: "bitio \<Rightarrow> buffer \<Rightarrow> (nat \<times> bitio \<times> buffer) option" where
  "DecodePosition io inb =
     do { (i, io1, inb1) \<leftarrow> GetByte io inb;
          d \<leftarrow> rd d_code i;
          j \<leftarrow> rd d_len i;
          (i', io2, inb2) \<leftarrow> for_up (\<lambda>_ (i, io, inb).
             do { (b, io', inb') \<leftarrow> GetBit io inb; Some ((2 * i + b) mod 2 ^ 32, io', inb') })
             0 (j - 2) (i, io1, inb1);
          Some (push_bit 6 d OR (i' AND 0x3f), io2, inb2) }"

section \<open>Paths\<close>

text \<open>The path from the root to a node: 1 for the odd, that is the larger, of two children.\<close>

function path :: "nat list \<Rightarrow> nat \<Rightarrow> bits" where
  "path pr k = (if k < HR \<and> k < pr ! k then path pr (pr ! k) @ [odd k] else [])"
  by pat_completeness auto
termination by (relation "measure (\<lambda>(_, k). HR - k)") auto

declare path.simps [simp del]

text \<open>The code of a character is the path of its leaf.\<close>

definition char_code :: "huff \<Rightarrow> nat \<Rightarrow> bits" where
  "char_code h c = path (prnt h) (prnt h ! (c + HT))"

lemma path_parent:
  "huff_tree e h \<Longrightarrow> k < HR \<Longrightarrow> path (prnt h) k = path (prnt h) (prnt h ! k) @ [odd k]"
  using tree_parent_later [of e h k] by (simp add: path.simps [of "prnt h" k])

lemma path_root: "path pr HR = []"
  by (simp add: path.simps)

text \<open>One more bit at the front of a code word.\<close>

lemma code_word_0: "code_word 0 0"
  by (simp add: code_word_def low_clear_def)

lemma top_bits_0 [simp]: "top_bits 0 w = []"
  by (simp add: top_bits_def)

lemma bit_8000: "bit (0x8000 :: u32) n \<longleftrightarrow> n = 15"
proof -
  have "(0x8000 :: u32) = 2 ^ 15" by simp
  then show ?thesis by (simp only: bit_exp_iff) (auto simp: possible_bit_def)
qed

lemma code_word_cons:
  fixes i i' :: u32 and b :: bool
  assumes c: "code_word j i" and j: "j < 16"
  defines "i' \<equiv> if b then drop_bit 1 i + 0x8000 else drop_bit 1 i"
  shows "code_word (Suc j) i'" and "top_bits (Suc j) i' = b # top_bits j i"
proof -
  have clear: "low_clear j i" and high: "\<And>k. 16 \<le> k \<Longrightarrow> \<not> bit i k"
    using c by (simp_all add: code_word_def)
  define m :: u32 where "m = 0x8000"
  have m: "bit m n \<longleftrightarrow> n = 15" for n
    unfolding m_def by (rule bit_8000)
  have "drop_bit 1 i + m = drop_bit 1 i OR m"
  proof (rule disjunctive_add)
    fix n show "\<not> bit (drop_bit 1 i) n \<or> \<not> bit m n"
      using high [of 16] by (auto simp: m bit_drop_bit_eq)
  qed
  then have "i' = (if b then drop_bit 1 i OR m else drop_bit 1 i)"
    by (simp add: i'_def m_def)
  then have bits: "bit i' n = (bit i (Suc n) \<or> b \<and> n = 15)" for n
    by (auto simp: m bit_or_iff bit_drop_bit_eq)
  show "code_word (Suc j) i'"
    using j high low_clearD [OF clear] by (auto simp: code_word_def low_clear_def bits)
  show "top_bits (Suc j) i' = b # top_bits j i"
  proof (rule nth_equalityI)
    fix n assume n: "n < length (top_bits (Suc j) i')"
    show "top_bits (Suc j) i' ! n = (b # top_bits j i) ! n"
    proof (cases n)
      case 0
      then show ?thesis using high [of 16] by (simp add: bits)
    next
      case (Suc m)
      then have "Suc (15 - n) = 15 - m" "15 - n \<noteq> 15" using n j by simp_all
      then show ?thesis using n Suc by (simp add: bits)
    qed
  qed simp
qed

lemma climb_path:
  assumes t: "huff_tree e h" and k: "k < HR"
  shows "\<exists>i'. loop (climb_step (prnt h)) (i, j, k) = Some (Some (i', j + length (path (prnt h) k))) \<and>
    (code_word j i \<longrightarrow> j + length (path (prnt h) k) \<le> 16 \<longrightarrow>
       code_word (j + length (path (prnt h) k)) i' \<and>
       top_bits (j + length (path (prnt h) k)) i' = path (prnt h) k @ top_bits j i)"
  using k
proof (induction "HR - k" arbitrary: i j k rule: less_induct)
  case less
  have k: "k < HT + N_CHAR" "k \<noteq> HR" using less.prems by (simp_all add: sizes)
  define p where "p = prnt h ! k"
  have p: "k < p" "p < HT"
    using tree_parent_later [OF t less.prems] tree_up [OF t k] by (simp_all add: p_def)
  define i2 where "i2 = (if odd k then drop_bit 1 i + 0x8000 else drop_bit 1 i)"
  have step: "climb_step (prnt h) (i, j, k) = Some (if p \<noteq> HR then Inl (i2, j + 1, p) else Inr (Some (i2, j + 1)))"
    using k p tree_lengths [OF t] by (simp add: climb_step_def access_simps p_def [symmetric] i2_def Let_def)
  note pk = path_parent [OF t less.prems, folded p_def]
  have cw: "code_word (Suc j) i2 \<and> top_bits (Suc j) i2 = odd k # top_bits j i"
    if "code_word j i" "j < 16"
    using code_word_cons [OF that, of "odd k"] by (simp add: i2_def)
  show ?case
  proof (cases "p = HR")
    case True
    then have "loop (climb_step (prnt h)) (i, j, k) = Some (Some (i2, j + 1))"
      using step by (simp add: loop_exit)
    then show ?thesis
      using cw True by (auto simp: pk path_root)
  next
    case False
    then have "p < HR" using p by (simp add: sizes)
    then obtain i' where i': "loop (climb_step (prnt h)) (i2, j + 1, p)
          = Some (Some (i', j + 1 + length (path (prnt h) p)))"
        "code_word (j + 1) i2 \<longrightarrow> j + 1 + length (path (prnt h) p) \<le> 16 \<longrightarrow>
         code_word (j + 1 + length (path (prnt h) p)) i' \<and>
         top_bits (j + 1 + length (path (prnt h) p)) i' = path (prnt h) p @ top_bits (j + 1) i2"
      using less.hyps [OF _ \<open>p < HR\<close>, of i2 "j + 1"] diff_less_mono2 [OF p(1) less.prems] by blast
    have "loop (climb_step (prnt h)) (i, j, k) = loop (climb_step (prnt h)) (i2, j + 1, p)"
      using step False by (simp add: loop_next)
    then show ?thesis
      using i' cw by (auto simp: pk)
  qed
qed

section \<open>Characters\<close>

lemma tree_root_inner:
  assumes t: "huff_tree e h" shows "son h ! HR < HT"
proof -
  define m where "m = HR - 1"
  have m: "m < HR" "m < HT" "m < HT + N_CHAR" "m \<noteq> HR" "Suc m = HR" by (simp_all add: m_def sizes)
  then have "prnt h ! m = HR"
    using tree_parent_later [OF t m(1)] tree_up [OF t m(3,4)] by (simp add: sizes)
  then show ?thesis
    using tree_up_son [OF t m(3,4)] m by (simp add: pair_of_def)
qed

lemma tree_code_below_root:
  assumes t: "huff_tree e h" and c: "c < N_CHAR"
  shows "prnt h ! (c + HT) < HR"
proof -
  have "prnt h ! (c + HT) \<noteq> HR"
    using tree_code_leaf [OF t c] tree_root_inner [OF t] by auto
  then show ?thesis using tree_code_leaf(1) [OF t c] by (simp add: sizes)
qed

lemma char_code_nonempty: "huff_tree e h \<Longrightarrow> c < N_CHAR \<Longrightarrow> char_code h c \<noteq> []"
  using path_parent [of e h "prnt h ! (c + HT)"] tree_code_below_root [of e h c] by (simp add: char_code_def)

lemma EncodeChar_written:
  assumes t: "huff_inv h" and c: "c < N_CHAR" and w: "writer_inv io out"
    and short: "length (char_code h c) \<le> 16" and mem: "plenty mem (2 * (dlen out + 2))"
    and up: "update c h = Some h'"
  shows "\<exists>io' out'. EncodeChar mem c h io out = Some (0, h', io', out') \<and> writer_inv io' out' \<and>
    written io' out' = written io out @ char_code h c \<and> dlen out' \<le> dlen out + 2"
proof -
  have tr: "huff_tree HT h" using t by (simp add: huff_inv_def)
  define k where "k = prnt h ! (c + HT)"
  have k: "k < HR" using tree_code_below_root [OF tr c] by (simp add: k_def)
  define n where "n = length (char_code h c)"
  obtain i where i: "loop (climb_step (prnt h)) (0, 0, k) = Some (Some (i, n))"
      "code_word n i" "top_bits n i = char_code h c"
    using climb_path [OF tr k, of 0 0] short code_word_0
    by (auto simp: n_def char_code_def k_def)
  obtain io' out' where put: "Putcode mem n i io out = Some (0, io', out')" "writer_inv io' out'"
      "written io' out' = written io out @ top_bits n i" "dlen out' \<le> dlen out + 2"
    using Putcode_written [OF w i(2) mem] by blast
  have "EncodeChar mem c h io out = Some (0, h', io', out')"
    using i(1) put(1) up tree_lengths [OF tr] c
    by (simp add: EncodeChar_def access_simps k_def [symmetric])
  then show ?thesis
    using put i(3) by auto
qed

text \<open>Reading the path of a node leads from the root to that node.\<close>

lemma decode_path:
  assumes t: "huff_tree e h" and k: "k \<le> HR" and r: "reads io inb (path (prnt h) k @ bs)"
  shows "\<exists>io' inb'. loop (decode_step (son h)) (son h ! HR, io, inb) = loop (decode_step (son h)) (son h ! k, io', inb') \<and>
    reads io' inb' bs \<and> consumed io inb io' inb' \<and> (k < HR \<longrightarrow> 8 \<le> unat (getlen io'))"
  using k r
proof (induction "HR - k" arbitrary: k bs rule: less_induct)
  case less
  show ?case
  proof (cases "k = HR")
    case True
    with less.prems show ?thesis
      by (intro exI [of _ io] exI [of _ inb]) (simp add: path_root)
  next
    case False
    then have k: "k < HR" "k < HT + N_CHAR" "k < HT" using less.prems by (simp_all add: sizes)
    define p where "p = prnt h ! k"
    have p: "k < p" "p < HT" "p \<le> HR" "son h ! p = k - k mod 2"
      using tree_parent_later [OF t k(1)] tree_up [OF t k(2) False] tree_up_son [OF t k(2) False] k
      by (simp_all add: p_def pair_of_def sizes)
    have "reads io inb (path (prnt h) p @ odd k # bs)"
      using less.prems path_parent [OF t k(1)] by (simp add: p_def)
    with less.hyps [of p "odd k # bs"] p k obtain io1 inb1 where
      s1: "loop (decode_step (son h)) (son h ! HR, io, inb) = loop (decode_step (son h)) (son h ! p, io1, inb1)"
        "reads io1 inb1 (odd k # bs)" "consumed io inb io1 inb1"
      by (auto simp: diff_less_mono2)
    obtain io2 inb2 where s2: "GetBit io1 inb1 = Some (of_bool (odd k), io2, inb2)"
        "reads io2 inb2 bs" "8 \<le> unat (getlen io2)" "consumed io1 inb1 io2 inb2"
      using GetBit_reads [OF s1(2)] by auto
    have "k - k mod 2 + of_bool (odd k) = k" by (auto elim: oddE)
    then have "decode_step (son h) (son h ! p, io1, inb1) = Some (Inl (son h ! k, io2, inb2))"
      using s2 p k tree_lengths [OF t] by (simp add: decode_step_def access_simps)
    then have "loop (decode_step (son h)) (son h ! p, io1, inb1) = loop (decode_step (son h)) (son h ! k, io2, inb2)"
      by (rule loop_next)
    then show ?thesis
      using s1 s2 consumed_trans by fastforce
  qed
qed

lemma DecodeChar_reads:
  assumes t: "huff_inv h" and c: "c < N_CHAR" and r: "reads io inb (char_code h c @ bs)"
    and up: "update c h = Some h'"
  shows "\<exists>io' inb'. DecodeChar h io inb = Some (c, h', io', inb') \<and> reads io' inb' bs \<and>
    consumed io inb io' inb' \<and> 8 \<le> unat (getlen io')"
proof -
  have tr: "huff_tree HT h" using t by (simp add: huff_inv_def)
  define k where "k = prnt h ! (c + HT)"
  have k: "k < HR" "son h ! k = c + HT"
    using tree_code_below_root [OF tr c] tree_code_leaf(2) [OF tr c] by (simp_all add: k_def)
  obtain io' inb' where s: "loop (decode_step (son h)) (son h ! HR, io, inb)
        = loop (decode_step (son h)) (son h ! k, io', inb')"
      "reads io' inb' bs" "consumed io inb io' inb'" "8 \<le> unat (getlen io')"
    using decode_path [OF tr, of k io inb bs] k r by (auto simp: char_code_def k_def)
  have "loop (decode_step (son h)) (son h ! k, io', inb') = Some (c + HT, io', inb')"
    by (rule loop_exit) (simp add: decode_step_def k(2))
  then have "DecodeChar h io inb = Some (c, h', io', inb')"
    using s(1) up tree_lengths [OF tr] by (simp add: DecodeChar_def access_simps sizes)
  then show ?thesis using s by blast
qed

text \<open>On any input at all, the walk from the root ends at a leaf.\<close>

lemma decode_walk_total:
  assumes t: "huff_tree e h" and k: "k < HT" and r: "reads io inb bs"
  shows "\<exists>c io' inb' bs'. loop (decode_step (son h)) (son h ! k, io, inb) = Some (c, io', inb') \<and>
    leaf_son c \<and> reads io' inb' bs'"
proof -
  have "\<exists>r. loop (decode_step (son h)) (son h ! k, io, inb) = Some r \<and>
      (case r of (c, io', inb') \<Rightarrow> leaf_son c \<and> (\<exists>bs'. reads io' inb' bs'))"
  proof (rule loop_total [where m = "\<lambda>(c, _, _). if c < HT then Suc c else 0" and
        I = "\<lambda>(c, io', inb'). (\<exists>k < HT. c = son h ! k) \<and> (\<exists>bs'. reads io' inb' bs')"])
    show "case (son h ! k, io, inb) of (c, io', inb') \<Rightarrow> (\<exists>k < HT. c = son h ! k) \<and> (\<exists>bs'. reads io' inb' bs')"
      using k r by auto
  next
    fix s :: "nat \<times> bitio \<times> buffer"
    assume s: "case s of (c, io', inb') \<Rightarrow> (\<exists>k < HT. c = son h ! k) \<and> (\<exists>bs'. reads io' inb' bs')"
    obtain k' io1 inb1 bs1 where s1: "s = (son h ! k', io1, inb1)" "k' < HT" "reads io1 inb1 bs1"
      using s by (cases s) auto
    show "(\<exists>s'. decode_step (son h) s = Some (Inl s') \<and>
          (case s' of (c, io', inb') \<Rightarrow> (\<exists>k < HT. c = son h ! k) \<and> (\<exists>bs'. reads io' inb' bs')) \<and>
          (case s' of (c, _, _) \<Rightarrow> if c < HT then Suc c else 0) < (case s of (c, _, _) \<Rightarrow> if c < HT then Suc c else 0)) \<or>
        (\<exists>r. decode_step (son h) s = Some (Inr r) \<and>
          (case r of (c, io', inb') \<Rightarrow> leaf_son c \<and> (\<exists>bs'. reads io' inb' bs')))"
    proof (cases "son h ! k' < HT")
      case False
      then have "leaf_son (son h ! k')"
        using tree_kind [OF t s1(2)] s1(2) by (auto simp: node_son_def)
      with False s1 show ?thesis by (auto simp: decode_step_def)
    next
      case True
      define b :: nat where "b = of_bool (bs1 \<noteq> [] \<and> hd bs1)"
      obtain io2 inb2 where g: "GetBit io1 inb1 = Some (b, io2, inb2)" "reads io2 inb2 (tl bs1)"
        using GetBit_reads [OF s1(3)] by (auto simp: b_def)
      define q where "q = son h ! k' + b"
      have q: "q < HT" using tree_inner [OF t s1(2) True] s1(2) by (simp add: q_def b_def)
      have "decode_step (son h) s = Some (Inl (son h ! q, io2, inb2))"
        using s1 True g q tree_lengths [OF t] by (simp add: decode_step_def access_simps q_def [symmetric])
      moreover have "(if son h ! q < HT then Suc (son h ! q) else 0) < Suc (son h ! k')"
        using tree_inner [OF t q] by (auto simp: q_def b_def)
      ultimately show ?thesis
        using g(2) q True s1 by auto
    qed
  qed
  then show ?thesis by auto
qed

lemma DecodeChar_total:
  assumes t: "huff_inv h" and r: "reads io inb bs"
  shows "\<exists>c h' io' inb' bs'. DecodeChar h io inb = Some (c, h', io', inb') \<and> c < N_CHAR \<and>
    huff_inv h' \<and> reads io' inb' bs'"
proof -
  have tr: "huff_tree HT h" using t by (simp add: huff_inv_def)
  have root: "HR < HT" by (simp add: sizes)
  obtain c io' inb' bs' where s: "loop (decode_step (son h)) (son h ! HR, io, inb) = Some (c, io', inb')"
      "leaf_son c" "reads io' inb' bs'"
    using decode_walk_total [OF tr root r] by blast
  have c: "c - HT < N_CHAR" using s(2) by (auto simp: leaf_son_def sizes)
  obtain h' where "update (c - HT) h = Some h'" "huff_inv h'"
    using update_inv [OF t c] by blast
  then show ?thesis
    using s c root tree_lengths [OF tr] by (auto simp: DecodeChar_def access_simps)
qed

section \<open>The length of a code\<close>

text \<open>
  A node outweighs its children, and its sibling outweighs the heavier of them, so frequencies grow
  along a path at least as the Fibonacci numbers.
\<close>

fun fib2 :: "nat \<Rightarrow> nat" where
  "fib2 0 = 1"
| "fib2 (Suc 0) = 2"
| "fib2 (Suc (Suc n)) = fib2 (Suc n) + fib2 n"

lemma tree_parent_sibling:
  assumes t: "huff_tree HT h" and k: "k < HR"
  shows "\<exists>s. s < HT \<and> k - 1 \<le> s \<and> pair_of s = pair_of k \<and> s \<noteq> k \<and>
    freq h ! (prnt h ! k) = freq h ! k + freq h ! s"
proof -
  have k': "k < HT" "k < HT + N_CHAR" "k \<noteq> HR" using k by (simp_all add: sizes)
  define p where "p = prnt h ! k"
  have p: "p < HT" "son h ! p = k - k mod 2"
    using tree_up [OF t k'(2,3)] tree_up_son [OF t k'(2,3)] k' by (simp_all add: p_def pair_of_def)
  have inner: "son h ! p < HT" using p(2) k'(1) by linarith
  note s = tree_inner [OF t p(1) inner] tree_sum [OF t p(1) inner]
  show ?thesis
  proof (cases "even k")
    case True
    then have "son h ! p = k" using p(2) by simp
    then show ?thesis
      using s p True by (intro exI [of _ "k + 1"]) (simp add: p_def pair_of_def mod_2_eq_odd)
  next
    case False
    then have "son h ! p = k - 1" "0 < k" using p(2) by (auto elim: oddE)
    then show ?thesis
      using s p False by (intro exI [of _ "k - 1"]) (auto simp: p_def pair_of_def)
  qed
qed

lemma path_grows:
  assumes t: "huff_tree HT h" and k: "k \<le> HR" and f: "fib2 i \<le> freq h ! k"
    and prev: "\<And>s i'. i = Suc i' \<Longrightarrow> k - 1 \<le> s \<Longrightarrow> s < HT \<Longrightarrow> fib2 i' \<le> freq h ! s"
  shows "fib2 (i + length (path (prnt h) k)) \<le> freq h ! HR"
  using k f prev
proof (induction "HR - k" arbitrary: k i rule: less_induct)
  case less
  show ?case
  proof (cases "k = HR")
    case True
    with less.prems show ?thesis by (simp add: path_root)
  next
    case False
    then have k: "k < HR" "k < HT" using less.prems by (simp_all add: sizes)
    define p where "p = prnt h ! k"
    have p: "k < p" "p < HT" "p \<le> HR"
      using tree_parent_later [OF t k(1)] tree_up [OF t, of k] k by (simp_all add: p_def sizes)
    obtain s where s: "s < HT" "k - 1 \<le> s" "freq h ! p = freq h ! k + freq h ! s"
      using tree_parent_sibling [OF t k(1)] by (auto simp: p_def)
    have "fib2 (Suc i) \<le> freq h ! p"
    proof (cases i)
      case 0
      then show ?thesis using less.prems(2) s tree_pos [OF t s(1)] by simp
    next
      case (Suc i')
      then show ?thesis using less.prems(2) less.prems(3) [OF Suc s(2,1)] s(3) by simp
    qed
    moreover have "fib2 i' \<le> freq h ! q" if "Suc i = Suc i'" "p - 1 \<le> q" "q < HT" for q i'
    proof -
      have "k \<le> q" using that p by linarith
      then show ?thesis using that less.prems(2) tree_sorted [OF t, of k q] by simp
    qed
    ultimately have "fib2 (Suc i + length (path (prnt h) p)) \<le> freq h ! HR"
      using less.hyps [OF diff_less_mono2 [OF p(1) k(1)] p(3), of "Suc i"] by blast
    then show ?thesis
      using path_parent [OF t k(1)] by (simp add: p_def)
  qed
qed

lemma char_code_grows:
  assumes t: "huff_tree HT h" and c: "c < N_CHAR"
  shows "fib2 (length (char_code h c)) \<le> freq h ! HR"
proof -
  have k: "prnt h ! (c + HT) < HR" by (rule tree_code_below_root [OF t c])
  then have "prnt h ! (c + HT) < HT" by (simp add: sizes)
  then show ?thesis
    using path_grows [OF t less_imp_le [OF k], of 0] tree_pos [OF t] by (simp add: char_code_def Suc_leI)
qed

lemma fib2_mono: "m \<le> n \<Longrightarrow> fib2 m \<le> fib2 n"
proof (induction n rule: nat_induct)
  case 0
  then show ?case by simp
next
  case (Suc n)
  have "fib2 n \<le> fib2 (Suc n)" by (cases n) (simp_all)
  with Suc show ?case by (cases "m = Suc n") auto
qed

text \<open>A root frequency below 4181 keeps every code within the 16 bits of the window.\<close>

lemma char_code_short:
  assumes t: "huff_tree HT h" and c: "c < N_CHAR" and f: "freq h ! HR < 4181"
  shows "length (char_code h c) \<le> 16"
proof (rule ccontr)
  assume "\<not> length (char_code h c) \<le> 16"
  then have "fib2 17 \<le> fib2 (length (char_code h c))" by (intro fib2_mono) simp
  moreover have "fib2 17 = 4181" by (simp add: numeral_eq_Suc)
  ultimately show False
    using char_code_grows [OF t c] f by simp
qed

section \<open>Positions\<close>

definition position_bits :: "nat \<Rightarrow> bits" where
  "position_bits c = top_bits (p_len ! (c div 64)) (push_bit 8 (of_nat (p_code ! (c div 64)))) @
     top_bits 6 (push_bit 10 (of_nat c AND 0x3f))"

lemma p_code_aligned:
  assumes "i < 64"
  shows "p_code ! i < 256" and "p_code ! i div 2 ^ (8 - p_len ! i) * 2 ^ (8 - p_len ! i) = p_code ! i"
proof -
  have "list_all2 (\<lambda>m l. m < 256 \<and> m div 2 ^ (8 - l) * 2 ^ (8 - l) = m) p_code p_len"
    by (simp add: p_code_def p_len_def)
  then show "p_code ! i < 256" "p_code ! i div 2 ^ (8 - p_len ! i) * 2 ^ (8 - p_len ! i) = p_code ! i"
    using assms by (auto simp: list_all2_conv_all_nth)
qed

lemma bit_of_nat_u32: "bit (of_nat m :: u32) n \<longleftrightarrow> n < 32 \<and> bit m n"
  by (simp add: bit_of_nat_iff possible_bit_def)

lemma code_word_byte:
  assumes "m < 256" "l \<le> 8" "m div 2 ^ (8 - l) * 2 ^ (8 - l) = m"
  shows "code_word l (push_bit 8 (of_nat m))"
    and "bits_val (top_bits l (push_bit 8 (of_nat m))) = m div 2 ^ (8 - l)"
proof -
  have high: "\<not> bit m n" if "8 \<le> n" for n
  proof -
    have "take_bit 8 m = m" using assms(1) by (simp add: take_bit_nat_eq_self)
    then show ?thesis using that by (metis bit_take_bit_iff not_less)
  qed
  have low: "\<not> bit m n" if "n < 8 - l" for n
  proof -
    have "push_bit (8 - l) (m div 2 ^ (8 - l)) = m"
      using assms(3) by (simp add: push_bit_eq_mult)
    then have "bit m n = bit (push_bit (8 - l) (m div 2 ^ (8 - l))) n" by simp
    then show ?thesis using that by (simp add: bit_push_bit_iff)
  qed
  show "code_word l (push_bit 8 (of_nat m))"
    using assms(2) high low by (auto simp: code_word_def low_clear_def bit_push_bit_iff bit_of_nat_u32)
  have "top_bits l (push_bit 8 (of_nat m)) = map (\<lambda>k. bit (m div 2 ^ (8 - l)) (l - 1 - k)) [0..<l]"
  proof (rule nth_equalityI)
    fix k assume "k < length (top_bits l (push_bit 8 (of_nat m :: u32)))"
    then have k: "k < l" by simp
    then have e: "7 - k = 8 - l + (l - 1 - k)" "8 \<le> 15 - k" "15 - k - 8 = 7 - k" using assms(2) by simp_all
    have b: "bit m (7 - k) = bit (m div 2 ^ (8 - l)) (l - 1 - k)"
      unfolding drop_bit_eq_div [symmetric] bit_drop_bit_eq comp_def e(1) by (rule refl)
    then show "top_bits l (push_bit 8 (of_nat m)) ! k = map (\<lambda>k. bit (m div 2 ^ (8 - l)) (l - 1 - k)) [0..<l] ! k"
      using k e(2,3) b less_imp_diff_less [of 15 32 k] less_imp_diff_less [of 7 32 k]
      by (simp add: bit_push_bit_iff bit_of_nat_u32)
  qed simp
  moreover have "m div 2 ^ (8 - l) < 2 ^ l"
  proof -
    have "(2 :: nat) ^ l * 2 ^ (8 - l) = 256"
      using assms(2) by (simp flip: power_add)
    then show ?thesis using assms(1) by (simp add: less_mult_imp_div_less)
  qed
  ultimately show "bits_val (top_bits l (push_bit 8 (of_nat m))) = m div 2 ^ (8 - l)"
    by (simp only: bits_val_nat) (simp add: take_bit_nat_eq_self)
qed

lemma mask_3f: "(0x3f :: u32) = mask 6"
  by (simp add: mask_eq_exp_minus_1)

lemma code_word_six:
  "code_word 6 (push_bit 10 (of_nat c AND 0x3f))"
  "bits_val (top_bits 6 (push_bit 10 (of_nat c AND 0x3f))) = c mod 64"
proof -
  show "code_word 6 (push_bit 10 (of_nat c AND 0x3f))"
    unfolding mask_3f
    by (auto simp: code_word_def low_clear_def bit_push_bit_iff bit_and_iff bit_mask_iff)
  have "top_bits 6 (push_bit 10 (of_nat c AND 0x3f)) = map (\<lambda>k. bit c (6 - 1 - k)) [0..<6]"
    unfolding mask_3f
    by (rule nth_equalityI) (auto simp: bit_push_bit_iff bit_and_iff bit_mask_iff bit_of_nat_u32)
  then show "bits_val (top_bits 6 (push_bit 10 (of_nat c AND 0x3f))) = c mod 64"
    by (simp only: bits_val_nat) (simp add: take_bit_eq_mod)
qed

lemma EncodePosition_written:
  assumes c: "c < 4096" and w: "writer_inv io out" and mem: "plenty mem (2 * (dlen out + 4))"
  shows "\<exists>io' out'. EncodePosition mem (of_nat c) io out = Some (0, io', out') \<and> writer_inv io' out' \<and>
    written io' out' = written io out @ position_bits c \<and> dlen out' \<le> dlen out + 4"
proof -
  define i where "i = c div 64"
  have i: "i < 64" using c by (simp add: i_def)
  have idx: "unat (drop_bit 6 (of_nat c :: u32)) = i"
    using c by (simp add: i_def drop_bit_eq_div unat_div unat_of_nat)
  have l: "p_len ! i \<le> 8" using p_len_bounds [OF i] by simp
  note cw = code_word_byte(1) [OF p_code_aligned(1) [OF i] l p_code_aligned(2) [OF i]]
  have "plenty mem (2 * (dlen out + 2))" using mem by (simp add: plenty_def)
  with Putcode_written [OF w cw] obtain io1 out1 where p1:
    "Putcode mem (p_len ! i) (push_bit 8 (of_nat (p_code ! i))) io out = Some (0, io1, out1)"
    "writer_inv io1 out1" "dlen out1 \<le> dlen out + 2"
    "written io1 out1 = written io out @ top_bits (p_len ! i) (push_bit 8 (of_nat (p_code ! i)))"
    by blast
  have "plenty mem (2 * (dlen out1 + 2))" using mem p1(3) by (simp add: plenty_def)
  with Putcode_written [OF p1(2) code_word_six(1)] obtain io2 out2 where p2:
    "Putcode mem 6 (push_bit 10 (of_nat c AND 0x3f)) io1 out1 = Some (0, io2, out2)"
    "writer_inv io2 out2" "dlen out2 \<le> dlen out1 + 2"
    "written io2 out2 = written io1 out1 @ top_bits 6 (push_bit 10 (of_nat c AND 0x3f))"
    by blast
  have "EncodePosition mem (of_nat c) io out = Some (0, io2, out2)"
    using p1(1) p2(1) i idx by (simp add: EncodePosition_def access_simps Let_def)
  then show ?thesis
    using p1 p2 by (auto simp: position_bits_def i_def)
qed

text \<open>The loop over the remaining bits.\<close>

definition bits_step :: "nat \<Rightarrow> nat \<times> bitio \<times> buffer \<Rightarrow> (nat \<times> bitio \<times> buffer) option" where
  "bits_step = (\<lambda>_ (i, io, inb).
     do { (b, io', inb') \<leftarrow> GetBit io inb; Some ((2 * i + b) mod 2 ^ 32, io', inb') })"

lemma bits_val_Cons: "bits_val (b # bs) = of_bool b * 2 ^ length bs + bits_val bs"
  using bits_val_append [of "[b]" bs] bits_val_snoc [of "[]" b] by simp

lemma bits_step_reads:
  assumes "reads io inb bs" "i < 2 ^ 32"
  shows "\<exists>io' inb'. for_up bits_step a n (i, io, inb)
      = Some ((i * 2 ^ n + bits_val (take n (bs @ replicate n False))) mod 2 ^ 32, io', inb') \<and>
    reads io' inb' (drop n bs) \<and> consumed io inb io' inb' \<and> (0 < n \<longrightarrow> 8 \<le> unat (getlen io'))"
  using assms
proof (induction n arbitrary: a i io inb bs)
  case 0
  then show ?case by (intro exI [of _ io] exI [of _ inb]) simp
next
  case (Suc n)
  define b where "b = (bs \<noteq> [] \<and> hd bs)"
  obtain io1 inb1 where g: "GetBit io inb = Some (of_bool b, io1, inb1)" "reads io1 inb1 (tl bs)"
      "8 \<le> unat (getlen io1)" "consumed io inb io1 inb1"
    using GetBit_reads [OF Suc.prems(1)] by (auto simp: b_def)
  define i' where "i' = (2 * i + of_bool b) mod 2 ^ 32"
  define v where "v = bits_val (take n (tl bs @ replicate n False))"
  have "i' < 2 ^ 32" unfolding i'_def by (rule mod_less_divisor) simp
  with Suc.IH [OF g(2)] obtain io2 inb2 where r: "for_up bits_step (Suc a) n (i', io1, inb1)
      = Some ((i' * 2 ^ n + v) mod 2 ^ 32, io2, inb2)"
    "reads io2 inb2 (drop n (tl bs))" "consumed io1 inb1 io2 inb2" "0 < n \<longrightarrow> 8 \<le> unat (getlen io2)"
    unfolding v_def by blast
  have tk: "take (Suc n) (bs @ replicate (Suc n) False) = b # take n (tl bs @ replicate n False)"
  proof (cases bs)
    case Nil
    show ?thesis unfolding b_def Nil by simp
  next
    case (Cons x xs)
    have "take n (xs @ replicate (Suc n) False) = take n (xs @ replicate n False)"
      by (simp del: replicate_Suc)
    then show ?thesis unfolding b_def Cons by simp
  qed
  have len: "length (take n (tl bs @ replicate n False)) = n"
    by (simp del: take_append)
  have "(i' * 2 ^ n + v) mod 2 ^ 32 = ((2 * i + of_bool b) * 2 ^ n + v) mod 2 ^ 32"
    unfolding i'_def by (metis mod_add_left_eq mod_mult_left_eq)
  also have "(2 * i + of_bool b) * 2 ^ n + v = i * 2 ^ Suc n + bits_val (take (Suc n) (bs @ replicate (Suc n) False))"
    unfolding tk bits_val_Cons v_def len by (simp add: algebra_simps)
  finally have val: "(i' * 2 ^ n + v) mod 2 ^ 32
      = (i * 2 ^ Suc n + bits_val (take (Suc n) (bs @ replicate (Suc n) False))) mod 2 ^ 32" .
  have "for_up bits_step a (Suc n) (i, io, inb) = for_up bits_step (Suc a) n (i', io1, inb1)"
    using g(1) by (simp add: bits_step_def i'_def)
  moreover have "8 \<le> unat (getlen io2)"
  proof (cases n)
    case 0
    then show ?thesis using r(1) g(3) by simp
  qed (use r in simp)
  ultimately show ?case
    using r val consumed_trans [OF g(4) r(3)] by (simp add: drop_Suc)
qed

lemma DecodePosition_unfold:
  "DecodePosition io inb =
     do { (i, io1, inb1) \<leftarrow> GetByte io inb; d \<leftarrow> rd d_code i; j \<leftarrow> rd d_len i;
          (i', io2, inb2) \<leftarrow> for_up bits_step 0 (j - 2) (i, io1, inb1);
          Some (push_bit 6 d OR (i' AND 0x3f), io2, inb2) }"
  unfolding DecodePosition_def bits_step_def by (rule refl)

lemma low_six: "a < 64 \<Longrightarrow> push_bit 6 d OR (a :: nat) = 64 * d + a"
proof -
  assume a: "a < 64"
  have "\<not> bit a n" if "6 \<le> n" for n
  proof -
    have "take_bit 6 a = a" using a by (simp add: take_bit_nat_eq_self)
    then show ?thesis using that by (metis bit_take_bit_iff not_less)
  qed
  then have "push_bit 6 d + a = push_bit 6 d OR a"
    by (intro disjunctive_add) (auto simp: bit_push_bit_iff not_le)
  then show ?thesis by (simp add: push_bit_eq_mult)
qed

lemma d_tables_bounds: "i < 256 \<Longrightarrow> d_code ! i < 64 \<and> 3 \<le> d_len ! i"
proof -
  assume i: "i < 256"
  have "list_all (\<lambda>d. d < 64) d_code" "list_all (\<lambda>d. 3 \<le> d) d_len"
    by (simp_all add: d_code_def d_len_def)
  with i show ?thesis by (simp add: list_all_length)
qed

lemma GetByte_bound: "bits_val (take 8 xs) < 256"
  using bits_val_less [of "take 8 xs"] power_increasing [of "length (take 8 xs)" 8 "2 :: nat"]
  by simp

lemma DecodePosition_total:
  assumes "reads io inb bs"
  shows "\<exists>p io' inb' bs'. DecodePosition io inb = Some (p, io', inb') \<and> p < 4096 \<and> reads io' inb' bs'"
proof -
  obtain io1 inb1 where g: "GetByte io inb = Some (bits_val (take 8 (bs @ replicate 8 False)), io1, inb1)"
      "reads io1 inb1 (drop 8 bs)"
    using GetByte_reads [OF assms] by blast
  define i where "i = bits_val (take 8 (bs @ replicate 8 False))"
  have i: "i < 256" unfolding i_def by (rule GetByte_bound)
  then have "i < 2 ^ 32" by simp
  with bits_step_reads [OF g(2)] obtain v io2 inb2 where
    r: "for_up bits_step 0 (d_len ! i - 2) (i, io1, inb1) = Some (v, io2, inb2)"
      "reads io2 inb2 (drop (d_len ! i - 2) (drop 8 bs))"
    by blast
  have six: "v AND 0x3f < 64"
    using take_bit_nat_less_exp [of 6 v] by (simp add: take_bit_eq_mask mask_eq_exp_minus_1)
  have "DecodePosition io inb = Some (64 * (d_code ! i) + (v AND 0x3f), io2, inb2)"
    using g(1) [folded i_def] r(1) i low_six [OF six] by (simp add: DecodePosition_unfold access_simps)
  moreover have "64 * (d_code ! i) + (v AND 0x3f) < 4096"
    using d_tables_bounds [OF i] six by simp
  ultimately show ?thesis using r(2) by blast
qed

lemma DecodePosition_reads:
  assumes c: "c < 4096" and r: "reads io inb (position_bits c @ bs)"
  shows "\<exists>io' inb'. DecodePosition io inb = Some (c, io', inb') \<and> reads io' inb' bs \<and>
    consumed io inb io' inb' \<and> 8 \<le> unat (getlen io')"
proof -
  define i where "i = c div 64"
  define L where "L = p_len ! i"
  define U where "U = top_bits L (push_bit 8 (of_nat (p_code ! i)))"
  define V where "V = top_bits 6 (push_bit 10 (of_nat c AND 0x3f))"
  have i: "i < 64" using c by (simp add: i_def)
  have L: "3 \<le> L" "L \<le> 8" using p_len_bounds [OF i] by (simp_all add: L_def)
  have UV: "position_bits c = U @ V" "length U = L" "length V = 6"
    by (simp_all add: position_bits_def U_def V_def L_def i_def)
  have valU: "bits_val U * 2 ^ (8 - L) = p_code ! i"
    using code_word_byte(2) [OF p_code_aligned(1) [OF i] _ p_code_aligned(2) [OF i]]
      p_code_aligned(2) [OF i] L by (simp add: U_def L_def)
  have valV: "bits_val V = c mod 64" unfolding V_def by (rule code_word_six(2))
  define A where "A = take (8 - L) V"
  define B where "B = drop (8 - L) V @ bs"
  have t8: "take 8 (position_bits c @ bs @ replicate 8 False) = U @ A"
    using UV L by (simp add: A_def)
  have d8: "drop 8 (position_bits c @ bs) = B"
    using UV L by (simp add: B_def)
  have lenA: "length A = 8 - L" using UV L by (simp add: A_def)
  have valUA: "bits_val (U @ A) = p_code ! i + bits_val A"
    by (simp add: bits_val_append valU lenA)
  have Aless: "bits_val A < 2 ^ (8 - L)" using bits_val_less [of A] lenA by simp
  note pc = position_code [OF i, of "bits_val A", folded L_def, OF Aless]
  obtain io1 inb1 where g: "GetByte io inb = Some (bits_val (U @ A), io1, inb1)"
      "reads io1 inb1 B" "consumed io inb io1 inb1"
    using GetByte_reads [OF r] t8 d8 by auto
  have b256: "bits_val (U @ A) < 256" using bits_val_less [of "U @ A"] UV lenA L by simp
  then have "bits_val (U @ A) < 2 ^ 32" by simp
  with bits_step_reads [OF g(2), of _ 0 "L - 2"] obtain io2 inb2 where
    s: "for_up bits_step 0 (L - 2) (bits_val (U @ A), io1, inb1)
      = Some ((bits_val (U @ A) * 2 ^ (L - 2) + bits_val (take (L - 2) (B @ replicate (L - 2) False))) mod 2 ^ 32, io2, inb2)"
      "reads io2 inb2 (drop (L - 2) B)" "consumed io1 inb1 io2 inb2" "8 \<le> unat (getlen io2)"
    using L by fastforce
  have tB: "take (L - 2) (B @ replicate (L - 2) False) = drop (8 - L) V" "drop (L - 2) B = bs"
    using UV L by (simp_all add: B_def)
  have "length (drop (8 - L) V) = L - 2" using UV L by simp
  then have "bits_val (U @ A) * 2 ^ (L - 2) + bits_val (drop (8 - L) V) = bits_val (U @ A @ drop (8 - L) V)"
    by (simp only: bits_val_append append_assoc [symmetric])
  also have "\<dots> = bits_val U * 64 + c mod 64"
    using UV by (simp add: A_def bits_val_append valV)
  finally have v: "bits_val (U @ A) * 2 ^ (L - 2) + bits_val (drop (8 - L) V) = bits_val U * 64 + c mod 64" .
  define w where "w = (bits_val U * 64 + c mod 64) mod 2 ^ 32"
  have "w mod 64 = (bits_val U * 64 + c mod 64) mod 64"
    unfolding w_def by (rule mod_mod_cancel) simp
  then have six: "w AND 0x3f = c mod 64"
    using take_bit_eq_mod [of 6 w] by (simp add: take_bit_eq_mask mask_eq_exp_minus_1)
  have "DecodePosition io inb = Some (64 * i + c mod 64, io2, inb2)"
    using g(1) s(1) [unfolded tB v, folded w_def] b256 pc valUA six low_six [of "c mod 64" i]
    by (simp add: DecodePosition_unfold access_simps)
  moreover have "64 * i + c mod 64 = c" by (simp add: i_def)
  ultimately show ?thesis
    using s tB consumed_trans [OF g(3) s(3)] by auto
qed

end
