(* ===== verification/Lzhuf_Tree.thy ===== *)
theory Lzhuf_Tree
  imports Lzhuf_Tables
begin

text \<open>
  The search trees of lzhuf_1.c, which find the longest match of the text ahead in the ring
  \<open>text_buf\<close>: \<open>InitTree\<close>, \<open>InsertNode\<close> and \<open>DeleteNode\<close> on the pointer arrays \<open>lson\<close>, \<open>rson\<close>
  and \<open>dad\<close>.  A node is a position of the ring, \<open>NIL\<close> is \<open>LZ_N\<close>, and the roots, one per first
  character, are the entries \<open>LZ_N + 1\<close> to \<open>LZ_N + 256\<close> of \<open>rson\<close>.

  The invariant \<open>links\<close> says that the arrays are a forest: parent and child pointers agree, no cycles,
  and every node of a tree starts with the character of its root.  The trees are used only to find
  a match, so nothing is claimed about their order; what is shown is that the operations stay inside
  the arrays, end, keep the forest, and that the match reported is a match.
\<close>

section \<open>State and operations\<close>

record lzss =
  text_buf :: "u8 list"
  match_position :: nat
  match_length :: nat
  lson :: "nat list"
  rson :: "nat list"
  dad :: "nat list"

definition InitTree :: "lzss \<Rightarrow> lzss option" where
  "InitTree s =
     do { rs \<leftarrow> for_up (\<lambda>i a. wr i NIL a) (LZ_N + 1) (RSONSZE - LZ_N) (rson s);
          ds \<leftarrow> for_up (\<lambda>i a. wr i NIL a) 0 LZ_N (dad s);
          Some (s\<lparr>rson := rs, dad := ds\<rparr>) }"

text \<open>
  \<open>for (i = 1; i < F; i++) if ((cmp = key[i] - text_buf[p + i]) != 0) break;\<close>, where \<open>key[i]\<close> is
  \<open>text_buf[r + i]\<close> and the third argument counts what is left of the loop.
\<close>

fun compare_key :: "u8 list \<Rightarrow> nat \<Rightarrow> nat \<Rightarrow> nat \<Rightarrow> nat \<Rightarrow> int \<Rightarrow> (nat \<times> int) option" where
  "compare_key tb r p i 0 cmp = Some (i, cmp)"
| "compare_key tb r p i (Suc n) cmp =
     do { a \<leftarrow> rd tb (r + i);
          b \<leftarrow> rd tb (p + i);
          let cmp' = uint a - uint b;
          if cmp' \<noteq> 0 then Some (i, cmp') else compare_key tb r p (i + 1) n cmp' }"

text \<open>\<open>((r - p) & (N - 1)) - 1\<close> as an \<open>unsigned int\<close>.\<close>

definition distance :: "nat \<Rightarrow> nat \<Rightarrow> nat" where
  "distance r p = nat ((((int r - int p) AND (int LZ_N - 1)) - 1) mod 2 ^ 32)"

text \<open>
  One turn of the \<open>for (;;)\<close> loop of \<open>InsertNode\<close>.  It ends with the new node hung below \<open>p\<close>, which
  is the early \<open>return\<close>, or with a match of full length at \<open>p\<close>, which is the \<open>break\<close>.
\<close>

definition insert_step ::
    "nat \<Rightarrow> nat \<times> int \<times> lzss \<Rightarrow> ((nat \<times> int \<times> lzss) + (nat option \<times> lzss)) option" where
  "insert_step r = (\<lambda>(p, cmp, s).
     do { q \<leftarrow> (if cmp \<ge> 0 then rd (rson s) p else rd (lson s) p);
          if q = NIL then
            do { s1 \<leftarrow> (if cmp \<ge> 0 then map_option (\<lambda>a. s\<lparr>rson := a\<rparr>) (wr p r (rson s))
                       else map_option (\<lambda>a. s\<lparr>lson := a\<rparr>) (wr p r (lson s)));
                 ds \<leftarrow> wr r p (dad s1);
                 Some (Inr (None, s1\<lparr>dad := ds\<rparr>)) }
          else
            do { (i, cmp') \<leftarrow> compare_key (text_buf s) r q 1 (LZ_F - 1) cmp;
                 let c = distance r q;
                 if i > THRESHOLD then
                   let s1 = (if i > match_length s then s\<lparr>match_position := c, match_length := i\<rparr> else s) in
                   if i > match_length s \<and> i \<ge> LZ_F then Some (Inr (Some q, s1))
                   else if i = match_length s1 \<and> c < match_position s1
                        then Some (Inl (q, cmp', s1\<lparr>match_position := c\<rparr>))
                        else Some (Inl (q, cmp', s1))
                 else Some (Inl (q, cmp', s)) } })"

text \<open>The end of \<open>InsertNode\<close>: \<open>r\<close> takes the place of \<open>p\<close>.\<close>

definition replace_node :: "nat \<Rightarrow> nat \<Rightarrow> lzss \<Rightarrow> lzss option" where
  "replace_node r p s =
     do { dp \<leftarrow> rd (dad s) p;
          d1 \<leftarrow> wr r dp (dad s);
          lp \<leftarrow> rd (lson s) p;
          l1 \<leftarrow> wr r lp (lson s);
          rp \<leftarrow> rd (rson s) p;
          r1 \<leftarrow> wr r rp (rson s);
          lp' \<leftarrow> rd l1 p;
          d2 \<leftarrow> wr lp' r d1;
          rp' \<leftarrow> rd r1 p;
          d3 \<leftarrow> wr rp' r d2;
          dp' \<leftarrow> rd d3 p;
          x \<leftarrow> rd r1 dp';
          (r2, l2) \<leftarrow> (if x = p then map_option (\<lambda>a. (a, l1)) (wr dp' r r1)
                      else map_option (\<lambda>a. (r1, a)) (wr dp' r l1));
          d4 \<leftarrow> wr p NIL d3;
          Some (s\<lparr>dad := d4, lson := l2, rson := r2\<rparr>) }"

definition InsertNode :: "nat \<Rightarrow> lzss \<Rightarrow> lzss option" where
  "InsertNode r s =
     do { key0 \<leftarrow> rd (text_buf s) r;
          rs \<leftarrow> wr r NIL (rson s);
          ls \<leftarrow> wr r NIL (lson s);
          (b, s1) \<leftarrow> loop (insert_step r)
            (LZ_N + 1 + unat key0, 1, s\<lparr>rson := rs, lson := ls, match_length := 0\<rparr>);
          (case b of None \<Rightarrow> Some s1 | Some p \<Rightarrow> replace_node r p s1) }"

text \<open>\<open>do { q = rson[q]; } while (rson[q] != NIL);\<close>\<close>

definition rightmost_step :: "nat list \<Rightarrow> nat \<Rightarrow> (nat + nat) option" where
  "rightmost_step rs q =
     do { q' \<leftarrow> rd rs q; x \<leftarrow> rd rs q'; Some (if x \<noteq> NIL then Inl q' else Inr q') }"

text \<open>
  The branch of \<open>DeleteNode\<close> for two children: \<open>q\<close>, the rightmost node of the left subtree at \<open>lp\<close>,
  is taken out of its place and given the children of \<open>p\<close>.
\<close>

definition take_rightmost :: "nat \<Rightarrow> nat \<Rightarrow> lzss \<Rightarrow> (nat \<times> lzss) option" where
  "take_rightmost p lp s =
     do { x \<leftarrow> rd (rson s) lp;
          (q, s1) \<leftarrow>
            (if x \<noteq> NIL then
               do { q \<leftarrow> loop (rightmost_step (rson s)) lp;
                    dq \<leftarrow> rd (dad s) q;
                    lq \<leftarrow> rd (lson s) q;
                    rs \<leftarrow> wr dq lq (rson s);
                    ds1 \<leftarrow> wr lq dq (dad s);
                    lp' \<leftarrow> rd (lson s) p;
                    ls \<leftarrow> wr q lp' (lson s);
                    lp'' \<leftarrow> rd ls p;
                    ds2 \<leftarrow> wr lp'' q ds1;
                    Some (q, s\<lparr>rson := rs, lson := ls, dad := ds2\<rparr>) }
             else Some (lp, s));
          rp' \<leftarrow> rd (rson s1) p;
          rs \<leftarrow> wr q rp' (rson s1);
          rp'' \<leftarrow> rd rs p;
          ds \<leftarrow> wr rp'' q (dad s1);
          Some (q, s1\<lparr>rson := rs, dad := ds\<rparr>) }"

text \<open>The end of \<open>DeleteNode\<close>: the parent of \<open>p\<close> gets \<open>q\<close> in its place.\<close>

definition hang_instead :: "nat \<Rightarrow> nat \<Rightarrow> lzss \<Rightarrow> lzss option" where
  "hang_instead p q s =
     do { dp \<leftarrow> rd (dad s) p;
          ds \<leftarrow> wr q dp (dad s);
          dp' \<leftarrow> rd ds p;
          y \<leftarrow> rd (rson s) dp';
          (rs, ls) \<leftarrow> (if y = p then map_option (\<lambda>a. (a, lson s)) (wr dp' q (rson s))
                      else map_option (\<lambda>a. (rson s, a)) (wr dp' q (lson s)));
          ds' \<leftarrow> wr p NIL ds;
          Some (s\<lparr>rson := rs, lson := ls, dad := ds'\<rparr>) }"

definition DeleteNode :: "nat \<Rightarrow> lzss \<Rightarrow> lzss option" where
  "DeleteNode p s =
     do { dp \<leftarrow> rd (dad s) p;
          if dp = NIL then Some s else
          do { rp \<leftarrow> rd (rson s) p;
               lp \<leftarrow> rd (lson s) p;
               (q, s1) \<leftarrow> (if rp = NIL then Some (lp, s)
                          else if lp = NIL then Some (rp, s)
                          else take_rightmost p lp s);
               hang_instead p q s1 } }"

section \<open>The forest\<close>

definition registered :: "(nat \<Rightarrow> nat) \<Rightarrow> nat \<Rightarrow> bool" where
  "registered D x \<longleftrightarrow> x < LZ_N \<and> D x \<noteq> NIL"

definition is_root :: "nat \<Rightarrow> bool" where
  "is_root p \<longleftrightarrow> LZ_N < p \<and> p \<le> LZ_N + 256"

text \<open>
  The arrays as functions: \<open>L\<close>, \<open>R\<close> and \<open>D\<close> are \<open>lson\<close>, \<open>rson\<close> and \<open>dad\<close>, \<open>K\<close> is the first character
  of a node.
\<close>

definition up_ok :: "(nat \<Rightarrow> nat) \<Rightarrow> (nat \<Rightarrow> nat) \<Rightarrow> (nat \<Rightarrow> nat) \<Rightarrow> bool" where
  "up_ok L R D \<longleftrightarrow> (\<forall>x. registered D x \<longrightarrow>
     registered D (D x) \<and> (L (D x) = x \<or> R (D x) = x) \<or> is_root (D x) \<and> R (D x) = x)"

definition down_ok :: "(nat \<Rightarrow> nat) \<Rightarrow> (nat \<Rightarrow> nat) \<Rightarrow> (nat \<Rightarrow> nat) \<Rightarrow> bool" where
  "down_ok L R D \<longleftrightarrow> (\<forall>p. registered D p \<longrightarrow>
       (L p \<noteq> NIL \<longrightarrow> registered D (L p) \<and> D (L p) = p \<and> L p \<noteq> R p) \<and>
       (R p \<noteq> NIL \<longrightarrow> registered D (R p) \<and> D (R p) = p)) \<and>
     (\<forall>p. is_root p \<longrightarrow> R p \<noteq> NIL \<longrightarrow> registered D (R p) \<and> D (R p) = p)"

definition ranked :: "(nat \<Rightarrow> nat) \<Rightarrow> (nat \<Rightarrow> nat) \<Rightarrow> nat \<Rightarrow> bool" where
  "ranked D rk m \<longleftrightarrow> (\<forall>x. registered D x \<longrightarrow> rk x < m \<and> (registered D (D x) \<longrightarrow> rk (D x) < rk x))"

definition keyed :: "(nat \<Rightarrow> u8) \<Rightarrow> (nat \<Rightarrow> nat) \<Rightarrow> bool" where
  "keyed K D \<longleftrightarrow> (\<forall>x. registered D x \<longrightarrow>
     (registered D (D x) \<longrightarrow> K x = K (D x)) \<and> (is_root (D x) \<longrightarrow> LZ_N + 1 + unat (K x) = D x))"

definition links :: "(nat \<Rightarrow> u8) \<Rightarrow> (nat \<Rightarrow> nat) \<Rightarrow> (nat \<Rightarrow> nat) \<Rightarrow> (nat \<Rightarrow> nat) \<Rightarrow> bool" where
  "links K L R D \<longleftrightarrow> up_ok L R D \<and> down_ok L R D \<and> (\<exists>rk m. ranked D rk m) \<and> keyed K D"

lemma NIL_N: "NIL = LZ_N"
  by (simp add: NIL_def)

lemma registered_root: "registered D x \<Longrightarrow> \<not> is_root x"
  by (simp add: registered_def is_root_def)

lemma not_root_NIL: "\<not> is_root NIL" "\<not> registered D NIL" "registered D x \<Longrightarrow> x \<noteq> NIL" "is_root x \<Longrightarrow> x \<noteq> NIL"
  by (auto simp: registered_def is_root_def NIL_N)

lemma registered_upd:
  "registered (D(x := v)) y \<longleftrightarrow> (if y = x then x < LZ_N \<and> v \<noteq> NIL else registered D y)"
  by (simp add: registered_def)

lemma links_D:
  assumes "links K L R D"
  shows links_up: "registered D x \<Longrightarrow>
      registered D (D x) \<and> (L (D x) = x \<or> R (D x) = x) \<or> is_root (D x) \<and> R (D x) = x"
    and links_left: "registered D p \<Longrightarrow> L p \<noteq> NIL \<Longrightarrow> registered D (L p) \<and> D (L p) = p \<and> L p \<noteq> R p"
    and links_right: "registered D p \<Longrightarrow> R p \<noteq> NIL \<Longrightarrow> registered D (R p) \<and> D (R p) = p"
    and links_root: "is_root p \<Longrightarrow> R p \<noteq> NIL \<Longrightarrow> registered D (R p) \<and> D (R p) = p"
    and links_key: "registered D x \<Longrightarrow> registered D (D x) \<Longrightarrow> K x = K (D x)"
    and links_key_root: "registered D x \<Longrightarrow> is_root (D x) \<Longrightarrow> LZ_N + 1 + unat (K x) = D x"
  using assms by (auto simp: links_def up_ok_def down_ok_def keyed_def)

text \<open>What is not in the forest can be changed freely.\<close>

lemma links_clear:
  assumes l: "links K L R D" and r: "r < LZ_N" "\<not> registered D r"
  shows "links K (L(r := v)) (R(r := w)) D"
proof -
  have "\<not> is_root r" using r by (simp add: is_root_def)
  then show ?thesis
    using l r unfolding links_def up_ok_def down_ok_def by (metis fun_upd_other)
qed

lemma links_text:
  assumes l: "links K L R D" and r: "\<not> registered D r"
  shows "links (K(r := v)) L R D"
proof -
  have "keyed (K(r := v)) D"
    using l r unfolding links_def keyed_def by (metis fun_upd_other)
  then show ?thesis using l by (simp add: links_def)
qed

text \<open>Hanging a new leaf below \<open>p\<close>.\<close>

lemma links_hang:
  assumes l: "links K L R D" and r: "r < LZ_N" "\<not> registered D r" "L r = NIL" "R r = NIL"
    and p: "registered D p \<and> K r = K p \<or> is_root p \<and> p = LZ_N + 1 + unat (K r)"
    and slot: "L' = L \<and> R' = R(p := r) \<and> R p = NIL \<or> L' = L(p := r) \<and> R' = R \<and> L p = NIL \<and> registered D p"
  shows "links K L' R' (D(r := p))"
proof -
  have pr: "p \<noteq> r" "p \<noteq> NIL" "r \<noteq> NIL"
    using p r by (auto simp: registered_def is_root_def NIL_N)
  have reg: "registered (D(r := p)) x \<longleftrightarrow> x = r \<or> registered D x" for x
    using r pr by (simp add: registered_upd)
  have nDr: "D x \<noteq> r" if "registered D x" for x
    using links_up [OF l that] r registered_root by (auto simp: is_root_def)
  have up: "up_ok L' R' (D(r := p))"
    unfolding up_ok_def
  proof (intro allI impI)
    fix x assume "registered (D(r := p)) x"
    then consider "x = r" | "x \<noteq> r" "registered D x" by (auto simp: reg)
    then show "registered (D(r := p)) ((D(r := p)) x) \<and> (L' ((D(r := p)) x) = x \<or> R' ((D(r := p)) x) = x) \<or>
        is_root ((D(r := p)) x) \<and> R' ((D(r := p)) x) = x"
    proof cases
      case 1
      then show ?thesis using p slot pr by (auto simp: reg)
    next
      case 2
      have "x \<noteq> NIL" using 2 not_root_NIL by blast
      then show ?thesis using 2 links_up [OF l 2(2)] slot nDr [OF 2(2)] by (auto simp: reg split: if_splits)
    qed
  qed
  have down: "down_ok L' R' (D(r := p))"
    unfolding down_ok_def
  proof (intro conjI allI impI)
    fix q assume q: "registered (D(r := p)) q"
    show "registered (D(r := p)) (L' q)" "(D(r := p)) (L' q) = q" "L' q \<noteq> R' q" if "L' q \<noteq> NIL"
      using that q links_left [OF l, of q] links_right [OF l, of q] slot r pr by (auto simp: reg split: if_splits)
    show "registered (D(r := p)) (R' q)" "(D(r := p)) (R' q) = q" if "R' q \<noteq> NIL"
      using that q links_right [OF l, of q] slot r pr by (auto simp: reg split: if_splits)
  next
    fix q assume q: "is_root q" "R' q \<noteq> NIL"
    then show "registered (D(r := p)) (R' q)" "(D(r := p)) (R' q) = q"
      using links_root [OF l, of q] slot r pr by (auto simp: reg split: if_splits)
  qed
  obtain rk m where rk: "ranked D rk m" using l by (auto simp: links_def)
  define rk' where "rk' = rk(r := Suc (if registered D p then rk p else 0))"
  have "ranked (D(r := p)) rk' (m + 2)"
    unfolding ranked_def
  proof (intro allI impI)
    fix x assume "registered (D(r := p)) x"
    then consider "x = r" | "x \<noteq> r" "registered D x" by (auto simp: reg)
    then show "rk' x < m + 2 \<and> (registered (D(r := p)) ((D(r := p)) x) \<longrightarrow> rk' ((D(r := p)) x) < rk' x)"
    proof cases
      case 1
      then show ?thesis using rk pr by (auto simp: reg rk'_def ranked_def trans_less_add1)
    next
      case 2
      then show ?thesis using rk nDr [OF 2(2)] by (auto simp: reg rk'_def ranked_def trans_less_add1)
    qed
  qed
  moreover have "keyed K (D(r := p))"
    unfolding keyed_def
  proof (intro allI impI)
    fix x assume "registered (D(r := p)) x"
    then consider "x = r" | "x \<noteq> r" "registered D x" by (auto simp: reg)
    then show "(registered (D(r := p)) ((D(r := p)) x) \<longrightarrow> K x = K ((D(r := p)) x)) \<and>
        (is_root ((D(r := p)) x) \<longrightarrow> LZ_N + 1 + unat (K x) = (D(r := p)) x)"
    proof cases
      case 1
      then show ?thesis using p pr registered_root by (auto simp: reg)
    next
      case 2
      then show ?thesis
        using links_key [OF l 2(2)] links_key_root [OF l 2(2)] nDr [OF 2(2)] by (auto simp: reg)
    qed
  qed
  ultimately show ?thesis
    using up down unfolding links_def by blast
qed

lemma links_rank:
  assumes l: "links K L R D"
  shows "registered D x \<Longrightarrow> D x \<noteq> x"
    and "registered D x \<Longrightarrow> registered D (D x) \<Longrightarrow> D (D x) \<noteq> x"
proof -
  obtain rk m where rk: "ranked D rk m" using l by (auto simp: links_def)
  show "registered D x \<Longrightarrow> D x \<noteq> x"
    using rk by (metis less_irrefl ranked_def)
  show "registered D x \<Longrightarrow> registered D (D x) \<Longrightarrow> D (D x) \<noteq> x"
    using rk by (metis less_asym ranked_def)
qed

lemma links_dad_NIL: "links K L R D \<Longrightarrow> links K L R (D(NIL := v))"
proof -
  assume l: "links K L R D"
  have reg: "registered (D(NIL := v)) x \<longleftrightarrow> registered D x" for x
    by (simp add: registered_upd registered_def NIL_N)
  have par: "D x \<noteq> NIL" if "registered D x" for x
    using that by (simp add: registered_def)
  have chg: "(D(NIL := v)) x = D x" if "registered D x" for x
    using that not_root_NIL by auto
  have "up_ok L R (D(NIL := v))" "down_ok L R (D(NIL := v))" "keyed K (D(NIL := v))"
    using l unfolding links_def up_ok_def down_ok_def keyed_def reg
    by (simp_all add: chg cong: conj_cong imp_cong del: fun_upd_apply)
  moreover have "ranked (D(NIL := v)) rk m" if "ranked D rk m" for rk m
    using that unfolding ranked_def reg by (simp add: chg cong: conj_cong imp_cong del: fun_upd_apply)
  ultimately show ?thesis
    using l unfolding links_def by blast
qed

text \<open>A node with one child at most is replaced by that child.\<close>

lemma links_splice:
  assumes l: "links K L R D" and p: "registered D p"
    and q: "R p = NIL \<and> q = L p \<or> L p = NIL \<and> q = R p"
    and new: "R (D p) = p \<and> L' = L \<and> R' = R(D p := q) \<or> R (D p) \<noteq> p \<and> L' = L(D p := q) \<and> R' = R"
  shows "links K L' R' (D(q := D p, p := NIL))"
proof -
  define d where "d = D p"
  define D' where "D' = D(q := d, p := NIL)"
  have dp: "d \<noteq> p" "d \<noteq> NIL" "registered D d \<or> is_root d"
    using links_rank(1) [OF l p] links_up [OF l p] p by (auto simp: d_def registered_def)
  have qc: "q \<noteq> NIL \<Longrightarrow> registered D q \<and> D q = p"
    using q links_left [OF l p] links_right [OF l p] by auto
  have qp: "q \<noteq> p" "q \<noteq> d"
    using qc links_rank [OF l] p dp not_root_NIL registered_root by (metis d_def)+
  have reg: "registered D' x \<longleftrightarrow> x \<noteq> p \<and> registered D x" for x
    using qc dp p by (auto simp: D'_def registered_upd registered_def NIL_N)
  have kid: "D x = p \<Longrightarrow> registered D x \<Longrightarrow> x = q" for x
    using links_up [OF l, of x] q registered_root [OF p] not_root_NIL by metis
  have par: "D' x = (if x = q then d else D x)" if "registered D' x" for x
  proof -
    have "x \<noteq> p" using that reg by blast
    then show ?thesis by (simp add: D'_def)
  qed
  have new': "R d = p \<Longrightarrow> L' = L \<and> R' = R(d := q)" "R d \<noteq> p \<Longrightarrow> L' = L(d := q) \<and> R' = R"
    using new by (auto simp: d_def)
  have d_kid: "L d = p \<and> registered D d \<or> R d = p"
    using links_up [OF l p] by (auto simp: d_def)
  obtain rk m where rk: "ranked D rk m" using l by (auto simp: links_def)
  have "up_ok L' R' D'"
    unfolding up_ok_def
  proof (intro allI impI)
    fix x assume x: "registered D' x"
    show "registered D' (D' x) \<and> (L' (D' x) = x \<or> R' (D' x) = x) \<or> is_root (D' x) \<and> R' (D' x) = x"
    proof (cases "x = q")
      case True
      have "D' x = d" using par [OF x] True by simp
      moreover have "registered D' d \<or> is_root d" using dp by (auto simp: reg)
      moreover have "is_root d \<Longrightarrow> \<not> registered D d" using registered_root by blast
      ultimately show ?thesis
        using new d_kid True dp(1,3) by (auto simp: reg d_def [symmetric])
    next
      case False
      then have x': "D x \<noteq> p" "registered D x" "x \<noteq> p" using kid x by (auto simp: reg)
      have "D' x = D x" using par [OF x] False by simp
      moreover have "registered D' (D x) \<longleftrightarrow> registered D (D x)" using x' by (simp add: reg)
      moreover have "(D x = d \<longrightarrow> R d = p \<longrightarrow> R d \<noteq> x) \<and> (D x = d \<longrightarrow> R d \<noteq> p \<longrightarrow> L d \<noteq> x \<or> \<not> registered D d)"
        using x' d_kid by auto
      ultimately show ?thesis
        using links_up [OF l x'(2)] new by (auto simp: d_def [symmetric] split: if_splits)
    qed
  qed
  moreover have "down_ok L' R' D'"
    unfolding down_ok_def
  proof (intro conjI allI impI)
    fix x assume x: "registered D' x"
    have x': "registered D x" "x \<noteq> p" using x by (simp_all add: reg)
    note lx = links_left [OF l x'(1)] and rx = links_right [OF l x'(1)]
    have other: "registered D' y \<and> D' y = x \<and> y \<noteq> q" if "registered D y" "D y = x" "y \<noteq> p" for y
    proof -
      have "y \<noteq> q" using that x'(2) qc not_root_NIL by auto
      moreover have "registered D' y" using that by (simp add: reg)
      ultimately show ?thesis using par [of y] that by simp
    qed
    have at_d: "registered D' q \<and> D' q = d" if "q \<noteq> NIL"
      using qc [OF that] qp par [of q] by (simp add: reg)
    have lp: "L x = p \<Longrightarrow> x = d \<and> R d \<noteq> p" and rp: "R x = p \<Longrightarrow> x = d"
      using lx rx not_root_NIL p by (auto simp: d_def)
    have "(L' x \<noteq> NIL \<longrightarrow> registered D' (L' x) \<and> D' (L' x) = x \<and> L' x \<noteq> R' x) \<and>
        (R' x \<noteq> NIL \<longrightarrow> registered D' (R' x) \<and> D' (R' x) = x)"
    proof (cases "x = d")
      case True
      show ?thesis
      proof (cases "R d = p")
        case Rd: True
        have "L' x = L x" "R' x = q" using new' Rd True by simp_all
        moreover have "L x \<noteq> p" using lp Rd by blast
        ultimately show ?thesis using lx other at_d True by metis
      next
        case False
        have "L' x = q" "R' x = R x" "R x \<noteq> p" using new' False True by simp_all
        then show ?thesis using rx other at_d True by metis
      qed
    next
      case False
      have "L' x = L x" "R' x = R x" using new' False by (cases "R d = p"; simp)+
      moreover have "L x \<noteq> p" "R x \<noteq> p" using lp rp False by blast+
      ultimately show ?thesis using lx rx other by metis
    qed
    then show "L' x \<noteq> NIL \<Longrightarrow> registered D' (L' x)" "L' x \<noteq> NIL \<Longrightarrow> D' (L' x) = x" "L' x \<noteq> NIL \<Longrightarrow> L' x \<noteq> R' x"
      "R' x \<noteq> NIL \<Longrightarrow> registered D' (R' x)" "R' x \<noteq> NIL \<Longrightarrow> D' (R' x) = x"
      by auto
  next
    fix x assume x: "is_root x" "R' x \<noteq> NIL"
    have nd: "\<not> registered D x" using x registered_root by blast
    have "registered D' (R' x) \<and> D' (R' x) = x"
    proof (cases "x = d \<and> R d = p")
      case True
      then have "R' x = q" using new by (auto simp: d_def)
      then show ?thesis using True x qc qp par [of q] by (simp add: reg)
    next
      case False
      then have "R' x = R x" using new by (auto simp: d_def)
      then have r: "registered D (R x)" "D (R x) = x" using links_root [OF l x(1)] x(2) by simp_all
      have "R x \<noteq> p" using False r by (auto simp: d_def)
      moreover have "R x \<noteq> q" using r qc nd p not_root_NIL by auto
      ultimately show ?thesis using r \<open>R' x = R x\<close> par [of "R x"] by (simp add: reg)
    qed
    then show "registered D' (R' x)" "D' (R' x) = x" by simp_all
  qed
  moreover have "ranked D' rk m"
    unfolding ranked_def
  proof (intro allI impI)
    fix x assume x: "registered D' x"
    have "rk p < rk q \<and> (registered D d \<longrightarrow> rk d < rk p)" if "x = q"
      using that x p qc rk not_root_NIL(3) [of D q] by (auto simp: reg ranked_def d_def)
    then show "rk x < m \<and> (registered D' (D' x) \<longrightarrow> rk (D' x) < rk x)"
      using rk x by (auto simp: par [OF x] reg ranked_def)
  qed
  moreover have "keyed K D'"
    unfolding keyed_def
  proof (intro allI impI)
    fix x assume x: "registered D' x"
    have "K q = K p" if "x = q"
      using that x p qc links_key [OF l, of q] not_root_NIL(3) [of D q] by (auto simp: reg)
    then show "(registered D' (D' x) \<longrightarrow> K x = K (D' x)) \<and> (is_root (D' x) \<longrightarrow> LZ_N + 1 + unat (K x) = D' x)"
      using x links_key [OF l, of x] links_key_root [OF l, of x] links_key [OF l p] links_key_root [OF l p]
      by (auto simp: par [OF x] reg d_def)
  qed
  ultimately show ?thesis
    unfolding links_def D'_def d_def by blast
qed

text \<open>A new node takes the place of \<open>p\<close>.\<close>

lemma links_replace:
  assumes l: "links K L R D" and p: "registered D p" and r: "r < LZ_N" "\<not> registered D r" and key: "K r = K p"
    and new: "R (D p) = p \<and> L' = L(r := L p) \<and> R' = R(r := R p, D p := r) \<or>
      R (D p) \<noteq> p \<and> L' = L(r := L p, D p := r) \<and> R' = R(r := R p)"
  shows "links K L' R' (D(r := D p, L p := r, R p := r, p := NIL))"
proof -
  define d where "d = D p"
  define D' where "D' = D(r := d, L p := r, R p := r, p := NIL)"
  have rp: "r \<noteq> p" "r \<noteq> NIL" "p \<noteq> NIL" using p r by (auto simp: registered_def NIL_N)
  have dp: "d \<noteq> p" "d \<noteq> r" "d \<noteq> NIL" "registered D d \<or> is_root d"
    using links_rank(1) [OF l p] links_up [OF l p] p r by (auto simp: d_def registered_def is_root_def NIL_N)
  have lk: "L p \<noteq> NIL \<Longrightarrow> registered D (L p) \<and> D (L p) = p \<and> L p \<noteq> R p"
    and rk: "R p \<noteq> NIL \<Longrightarrow> registered D (R p) \<and> D (R p) = p"
    using links_left [OF l p] links_right [OF l p] by auto
  have kids: "L p \<noteq> p" "R p \<noteq> p" "L p \<noteq> r" "R p \<noteq> r" "L p \<noteq> d" "R p \<noteq> d"
  proof -
    have nr: "L p \<noteq> NIL \<Longrightarrow> L p \<noteq> r" "R p \<noteq> NIL \<Longrightarrow> R p \<noteq> r" using lk rk r by blast+
    show "L p \<noteq> p" "R p \<noteq> p" using lk rk links_rank(1) [OF l p] rp by auto
    show "L p \<noteq> r" "R p \<noteq> r" using nr rp by auto
    show "L p \<noteq> d" "R p \<noteq> d" using lk rk links_rank(2) [OF l p] dp by (auto simp: d_def)
  qed
  have reg: "registered D' x \<longleftrightarrow> x = r \<or> x \<noteq> p \<and> registered D x" for x
    using r dp rp kids lk rk by (auto simp: D'_def registered_upd) (auto simp: registered_def NIL_N)
  have kid: "D x = p \<Longrightarrow> registered D x \<Longrightarrow> x = L p \<or> x = R p" for x
    using links_up [OF l, of x] by auto
  have par: "D' x = (if x = r then d else if D x = p then r else D x)" if "registered D' x" for x
  proof -
    have x: "x = r \<or> x \<noteq> r \<and> x \<noteq> p \<and> registered D x" using that reg by auto
    have "D x = p \<longleftrightarrow> x = L p \<or> x = R p" if "registered D x"
      using kid lk rk that not_root_NIL by metis
    with x rp kids show ?thesis by (auto simp: D'_def)
  qed
  have nDr: "D x \<noteq> r" if "registered D x" for x
    using links_up [OF l that] r registered_root by (auto simp: is_root_def)
  have new': "R d = p \<Longrightarrow> L' = L(r := L p) \<and> R' = R(r := R p, d := r)"
    "R d \<noteq> p \<Longrightarrow> L' = L(r := L p, d := r) \<and> R' = R(r := R p)" using new by (auto simp: d_def)
  have d_kid: "L d = p \<and> registered D d \<or> R d = p"
    using links_up [OF l p] by (auto simp: d_def)
  have kids_r: "L' r = L p" "R' r = R p" using new' dp by (cases "R d = p"; simp)+
  have "up_ok L' R' D'"
    unfolding up_ok_def
  proof (intro allI impI)
    fix x assume x: "registered D' x"
    then consider "x = r" | "x \<noteq> r" "registered D x" "x \<noteq> p" by (auto simp: reg)
    then show "registered D' (D' x) \<and> (L' (D' x) = x \<or> R' (D' x) = x) \<or> is_root (D' x) \<and> R' (D' x) = x"
    proof cases
      case 1
      have "D' x = d" using par [OF x] 1 by simp
      moreover have "registered D' d \<or> is_root d" using dp by (auto simp: reg)
      moreover have "is_root d \<Longrightarrow> \<not> registered D d" using registered_root by blast
      ultimately show ?thesis
        using new' d_kid 1 dp by (cases "R d = p") (auto simp: reg)
    next
      case 2
      show ?thesis
      proof (cases "D x = p")
        case True
        then have "D' x = r" using par [OF x] 2 by simp
        then show ?thesis using kid [OF True 2(2)] kids_r by (auto simp: reg)
      next
        case False
        then have "D' x = D x" using par [OF x] 2 by simp
        moreover have "registered D' (D x) \<longleftrightarrow> registered D (D x)" using False nDr [OF 2(2)] by (simp add: reg)
        moreover have "(D x = d \<longrightarrow> R d = p \<longrightarrow> R d \<noteq> x) \<and> (D x = d \<longrightarrow> R d \<noteq> p \<longrightarrow> L d \<noteq> x \<or> \<not> registered D d)"
          using 2 d_kid by auto
        ultimately show ?thesis
          using links_up [OF l 2(2)] new' nDr [OF 2(2)] by (cases "R d = p") (auto split: if_splits)
      qed
    qed
  qed
  moreover have "down_ok L' R' D'"
    unfolding down_ok_def
  proof (intro conjI allI impI)
    fix x assume x: "registered D' x"
    have at_r: "registered D' r \<and> D' r = d" using par [of r] by (simp add: reg)
    have below: "registered D' y \<and> D' y = r \<and> y \<noteq> r" if "registered D y" "D y = p" for y
    proof -
      have "y \<noteq> p" "y \<noteq> r" using that links_rank(1) [OF l p] r by (auto simp: d_def)
      then show ?thesis using par [of y] that by (simp add: reg)
    qed
    have other: "registered D' y \<and> D' y = x \<and> y \<noteq> r" if "registered D y" "D y = x" "y \<noteq> p" "x \<noteq> p" for y
    proof -
      have "y \<noteq> r" using that r by auto
      then show ?thesis using par [of y] that by (simp add: reg)
    qed
    have "(L' x \<noteq> NIL \<longrightarrow> registered D' (L' x) \<and> D' (L' x) = x \<and> L' x \<noteq> R' x) \<and>
        (R' x \<noteq> NIL \<longrightarrow> registered D' (R' x) \<and> D' (R' x) = x)"
    proof (cases "x = r")
      case True
      then show ?thesis using kids_r lk rk below by simp
    next
      case xr: False
      then have x': "registered D x" "x \<noteq> p" using x by (auto simp: reg)
      note lx = links_left [OF l x'(1)] and rx = links_right [OF l x'(1)]
      have lp: "L x = p \<Longrightarrow> x = d \<and> R d \<noteq> p" and rp': "R x = p \<Longrightarrow> x = d"
        using lx rx not_root_NIL p by (auto simp: d_def)
      show ?thesis
      proof (cases "x = d")
        case True
        show ?thesis
        proof (cases "R d = p")
          case Rd: True
          have "L' x = L x" "R' x = r" using new' Rd True dp by simp_all
          moreover have "L x \<noteq> p" using lp Rd by blast
          ultimately show ?thesis using lx other at_r True x' by metis
        next
          case False
          have "L' x = r" "R' x = R x" "R x \<noteq> p" using new' False True dp by simp_all
          then show ?thesis using rx other at_r True x' by metis
        qed
      next
        case False
        have "L' x = L x" "R' x = R x" using new' False xr by (cases "R d = p"; simp)+
        moreover have "L x \<noteq> p" "R x \<noteq> p" using lp rp' False by blast+
        ultimately show ?thesis using lx rx other x' by metis
      qed
    qed
    then show "L' x \<noteq> NIL \<Longrightarrow> registered D' (L' x)" "L' x \<noteq> NIL \<Longrightarrow> D' (L' x) = x" "L' x \<noteq> NIL \<Longrightarrow> L' x \<noteq> R' x"
      "R' x \<noteq> NIL \<Longrightarrow> registered D' (R' x)" "R' x \<noteq> NIL \<Longrightarrow> D' (R' x) = x"
      by auto
  next
    fix x assume x: "is_root x" "R' x \<noteq> NIL"
    have nd: "\<not> registered D x" "x \<noteq> r" "x \<noteq> p" using x r p registered_root by (auto simp: is_root_def)
    have "registered D' (R' x) \<and> D' (R' x) = x"
    proof (cases "x = d \<and> R d = p")
      case True
      then have "R' x = r" using new' by simp
      then show ?thesis using True par [of r] by (simp add: reg)
    next
      case False
      then have e: "R' x = R x" using new' nd by (cases "R d = p") auto
      then have y: "registered D (R x)" "D (R x) = x" using links_root [OF l x(1)] x(2) by simp_all
      have "R x \<noteq> p" using False y by (auto simp: d_def)
      moreover have "R x \<noteq> r" using y r by auto
      ultimately show ?thesis using y e nd par [of "R x"] by (simp add: reg)
    qed
    then show "registered D' (R' x)" "D' (R' x) = x" by simp_all
  qed
  moreover have "\<exists>rk. ranked D' rk m" if "ranked D rk m" for rk m
  proof -
    have "ranked D' (rk(r := rk p)) m"
      unfolding ranked_def
    proof (intro allI impI)
      fix x assume x: "registered D' x"
      then consider "x = r" | "x \<noteq> r" "registered D x" "x \<noteq> p" by (auto simp: reg)
      then show "(rk(r := rk p)) x < m \<and> (registered D' (D' x) \<longrightarrow> (rk(r := rk p)) (D' x) < (rk(r := rk p)) x)"
      proof cases
        case 1
        then show ?thesis using that p dp par [OF x] by (auto simp: ranked_def reg d_def)
      next
        case 2
        then show ?thesis using that p nDr [OF 2(2)] par [OF x] by (auto simp: ranked_def reg)
      qed
    qed
    then show ?thesis by blast
  qed
  moreover have "keyed K D'"
    unfolding keyed_def
  proof (intro allI impI)
    fix x assume x: "registered D' x"
    then consider "x = r" | "x \<noteq> r" "registered D x" "x \<noteq> p" by (auto simp: reg)
    then show "(registered D' (D' x) \<longrightarrow> K x = K (D' x)) \<and> (is_root (D' x) \<longrightarrow> LZ_N + 1 + unat (K x) = D' x)"
    proof cases
      case 1
      then show ?thesis
        using key dp par [OF x] links_key [OF l p] links_key_root [OF l p] by (auto simp: reg d_def)
    next
      case 2
      then show ?thesis
        using key p par [OF x] nDr [OF 2(2)] links_key [OF l 2(2)] links_key_root [OF l 2(2)] r
        by (auto simp: reg is_root_def)
    qed
  qed
  ultimately show ?thesis
    using l unfolding links_def D'_def d_def by blast
qed

section \<open>The arrays\<close>

lemma nth_update_fun: "i < length xs \<Longrightarrow> (!) (xs[i := v]) = ((!) xs)(i := v)"
  by (rule ext) (simp add: nth_list_update)

definition lz_shape :: "lzss \<Rightarrow> bool" where
  "lz_shape s \<longleftrightarrow> length (text_buf s) = LZ_N + LZ_F - 1 \<and> length (lson s) = LZ_N + 1 \<and>
     length (rson s) = RSONSZE + 1 \<and> length (dad s) = LZ_N + 1"

definition lz_tree :: "lzss \<Rightarrow> bool" where
  "lz_tree s \<longleftrightarrow> lz_shape s \<and> links ((!) (text_buf s)) ((!) (lson s)) ((!) (rson s)) ((!) (dad s))"

abbreviation node :: "lzss \<Rightarrow> nat \<Rightarrow> bool" where
  "node s \<equiv> registered ((!) (dad s))"

lemma lz_sizes: "LZ_N = 2048" "LZ_F = 60" "RSONSZE = 2305" "NIL = 2048" "THRESHOLD = 2"
  by (simp_all add: LZ_N_def LZ_F_def RSONSZE_def NIL_def THRESHOLD_def)

lemma lz_lengths:
  assumes "lz_tree s"
  shows "length (text_buf s) = 2107" "length (lson s) = 2049" "length (rson s) = 2306" "length (dad s) = 2049"
  using assms by (simp_all add: lz_tree_def lz_shape_def lz_sizes)

lemma lz_links: "lz_tree s \<Longrightarrow> links ((!) (text_buf s)) ((!) (lson s)) ((!) (rson s)) ((!) (dad s))"
  by (simp add: lz_tree_def)

lemma node_bound: "node s x \<Longrightarrow> x < 2048" "node s x \<Longrightarrow> dad s ! x \<noteq> 2048"
  by (simp_all add: registered_def lz_sizes)

lemma is_root_iff: "is_root p \<longleftrightarrow> 2048 < p \<and> p \<le> 2304"
  by (simp add: is_root_def lz_sizes)

lemma parent_bound: "lz_tree s \<Longrightarrow> node s x \<Longrightarrow> dad s ! x < 2305"
  using links_up [OF lz_links, of s x] node_bound(1) [of s "dad s ! x"] by (auto simp: is_root_iff)

lemma child_bound:
  assumes "lz_tree s" "node s p"
  shows "lson s ! p < 2049" "rson s ! p < 2049"
  using links_left [OF lz_links [OF assms(1)] assms(2)] links_right [OF lz_links [OF assms(1)] assms(2)]
    node_bound(1) by (fastforce simp: lz_sizes)+

text \<open>\<open>InitTree\<close> starts with an empty forest.\<close>

lemma for_up_fill:
  "a + n \<le> length xs \<Longrightarrow> \<exists>ys. for_up (\<lambda>i a. wr i v a) a n xs = Some ys \<and> length ys = length xs \<and>
    (\<forall>i. a \<le> i \<and> i < a + n \<longrightarrow> ys ! i = v)"
proof -
  assume le: "a + n \<le> length xs"
  have "\<exists>ys. for_up (\<lambda>i a. wr i v a) a n xs = Some ys \<and> (length ys = length xs \<and> (\<forall>i. a \<le> i \<and> i < a + n \<longrightarrow> ys ! i = v))"
    by (rule for_up_total [where P = "\<lambda>j ys. length ys = length xs \<and> (\<forall>i. a \<le> i \<and> i < j \<longrightarrow> ys ! i = v)"])
      (use le in \<open>auto simp: access_simps nth_list_update\<close>)
  then show ?thesis by blast
qed

lemma InitTree_empty:
  assumes "lz_shape s"
  shows "\<exists>s'. InitTree s = Some s' \<and> lz_tree s' \<and> (\<forall>x. \<not> node s' x) \<and> text_buf s' = text_buf s"
proof -
  have len: "length (text_buf s) = 2107" "length (lson s) = 2049" "length (rson s) = 2306" "length (dad s) = 2049"
    using assms by (simp_all add: lz_shape_def lz_sizes)
  obtain rs where rs: "for_up (\<lambda>i a. wr i NIL a) (LZ_N + 1) (RSONSZE - LZ_N) (rson s) = Some rs"
      "length rs = 2306" "\<forall>i. 2049 \<le> i \<and> i < 2306 \<longrightarrow> rs ! i = NIL"
    using for_up_fill [of "LZ_N + 1" "RSONSZE - LZ_N" "rson s" NIL] len by (auto simp: lz_sizes)
  obtain ds where ds: "for_up (\<lambda>i a. wr i NIL a) 0 LZ_N (dad s) = Some ds"
      "length ds = 2049" "\<forall>i < 2048. ds ! i = NIL"
    using for_up_fill [of 0 LZ_N "dad s" NIL] len by (auto simp: lz_sizes)
  have none: "\<not> registered ((!) ds) x" for x
    using ds(3) by (auto simp: registered_def lz_sizes)
  have "links K L ((!) rs) ((!) ds)" for K L
    using none rs(3) unfolding links_def up_ok_def down_ok_def ranked_def keyed_def
    by (auto simp: is_root_iff)
  then show ?thesis
    using rs ds len none by (simp add: InitTree_def lz_tree_def lz_shape_def lz_sizes)
qed

section \<open>Inserting a node\<close>

lemma compare_key_total:
  assumes "r + i + n \<le> length tb" "p + i + n \<le> length tb"
  shows "\<exists>j cmp'. compare_key tb r p i n cmp = Some (j, cmp') \<and> i \<le> j \<and> j \<le> i + n \<and>
    (\<forall>k. i \<le> k \<and> k < j \<longrightarrow> tb ! (r + k) = tb ! (p + k))"
  using assms
proof (induction n arbitrary: i cmp)
  case 0
  then show ?case by auto
next
  case (Suc n)
  have in_tb: "r + i < length tb" "p + i < length tb" using Suc.prems by simp_all
  define c where "c = uint (tb ! (r + i)) - uint (tb ! (p + i))"
  show ?case
  proof (cases "c = 0")
    case False
    then show ?thesis using in_tb by (auto simp: access_simps c_def Let_def)
  next
    case True
    then have eq: "tb ! (r + i) = tb ! (p + i)" by (simp add: c_def word_uint_eq_iff)
    obtain j cmp' where j: "compare_key tb r p (i + 1) n c = Some (j, cmp')" "i + 1 \<le> j" "j \<le> i + 1 + n"
        "\<forall>k. i + 1 \<le> k \<and> k < j \<longrightarrow> tb ! (r + k) = tb ! (p + k)"
      using Suc.IH [of "i + 1" c] Suc.prems by auto
    have "tb ! (r + k) = tb ! (p + k)" if "i \<le> k" "k < j" for k
      using that j(4) eq by (cases "k = i") auto
    moreover have "compare_key tb r p i (Suc n) cmp = Some (j, cmp')"
      using in_tb True j(1) eq by (simp add: access_simps c_def)
    ultimately show ?thesis using j by auto
  qed
qed

text \<open>What the search has found so far is a match at some node.\<close>

definition match_ok :: "nat \<Rightarrow> lzss \<Rightarrow> lzss \<Rightarrow> bool" where
  "match_ok r s0 s \<longleftrightarrow> match_length s \<le> LZ_F \<and>
     (match_length s = 0 \<or> THRESHOLD < match_length s \<and>
       (\<exists>p. node s0 p \<and> match_position s = distance r p \<and>
         (\<forall>k < match_length s. text_buf s0 ! (r + k) = text_buf s0 ! (p + k))))"

definition same_arrays :: "lzss \<Rightarrow> lzss \<Rightarrow> bool" where
  "same_arrays s0 s \<longleftrightarrow> text_buf s = text_buf s0 \<and> lson s = lson s0 \<and> rson s = rson s0 \<and> dad s = dad s0"

definition insert_inv :: "nat \<Rightarrow> lzss \<Rightarrow> nat \<times> int \<times> lzss \<Rightarrow> bool" where
  "insert_inv r s0 = (\<lambda>(p, cmp, s). same_arrays s0 s \<and> match_ok r s0 s \<and> 
     (node s0 p \<and> text_buf s0 ! p = text_buf s0 ! r \<or>
      is_root p \<and> p = LZ_N + 1 + unat (text_buf s0 ! r) \<and> 0 \<le> cmp))"

definition insert_post :: "nat \<Rightarrow> lzss \<Rightarrow> nat option \<times> lzss \<Rightarrow> bool" where
  "insert_post r s0 = (\<lambda>(b, s). match_ok r s0 s \<and>
     (case b of
        Some q \<Rightarrow> same_arrays s0 s \<and> node s0 q \<and> text_buf s0 ! q = text_buf s0 ! r
      | None \<Rightarrow> lz_tree s \<and> text_buf s = text_buf s0 \<and> (\<forall>x. node s x \<longleftrightarrow> node s0 x \<or> x = r)))"

lemma insert_step_total:
  assumes t: "lz_tree s0" and r: "r < LZ_N" "\<not> node s0 r" "lson s0 ! r = NIL" "rson s0 ! r = NIL"
    and rk: "ranked ((!) (dad s0)) rk m" and inv: "insert_inv r s0 (p, cmp, s)"
  defines "mm \<equiv> \<lambda>p. if node s0 p then m - rk p else Suc m"
  shows "(\<exists>p' cmp' s'. insert_step r (p, cmp, s) = Some (Inl (p', cmp', s')) \<and> insert_inv r s0 (p', cmp', s') \<and> mm p' < mm p) \<or>
    (\<exists>res. insert_step r (p, cmp, s) = Some (Inr res) \<and> insert_post r s0 res)"
proof -
  note l = lz_links [OF t] and len = lz_lengths [OF t]
  have same: "text_buf s = text_buf s0" "lson s = lson s0" "rson s = rson s0" "dad s = dad s0"
    and mok: "match_ok r s0 s" using inv by (simp_all add: insert_inv_def same_arrays_def)
  have p: "node s0 p \<and> text_buf s0 ! p = text_buf s0 ! r \<or>
      is_root p \<and> p = LZ_N + 1 + unat (text_buf s0 ! r) \<and> 0 \<le> cmp"
    using inv by (simp add: insert_inv_def)
  have pb: "p < 2305" "cmp < 0 \<Longrightarrow> p < 2048"
    using p node_bound(1) [of s0 p] by (auto simp: is_root_iff)
  have r': "r < 2048" using r by (simp add: lz_sizes)
  define q where "q = (if 0 \<le> cmp then rson s0 ! p else lson s0 ! p)"
  have rdq: "(if 0 \<le> cmp then rd (rson s) p else rd (lson s) p) = Some q"
    using pb len by (cases "0 \<le> cmp") (simp_all add: access_simps same q_def)
  show ?thesis
  proof (cases "q = NIL")
    case True
    define s' where "s' = (if 0 \<le> cmp then s\<lparr>rson := (rson s)[p := r], dad := (dad s)[r := p]\<rparr>
        else s\<lparr>lson := (lson s)[p := r], dad := (dad s)[r := p]\<rparr>)"
    have "insert_step r (p, cmp, s) = Some (Inr (None, s'))"
      using rdq True pb r' len by (cases "0 \<le> cmp") (simp_all add: insert_step_def access_simps same s'_def)
    moreover have tree: "links ((!) (text_buf s0)) ((!) (lson s')) ((!) (rson s')) (((!) (dad s0))(r := p))"
    proof (rule links_hang [OF l r])
      show "node s0 p \<and> text_buf s0 ! r = text_buf s0 ! p \<or> is_root p \<and> p = LZ_N + 1 + unat (text_buf s0 ! r)"
        using p by auto
      show "(!) (lson s') = (!) (lson s0) \<and> (!) (rson s') = ((!) (rson s0))(p := r) \<and> rson s0 ! p = NIL \<or>
          (!) (lson s') = ((!) (lson s0))(p := r) \<and> (!) (rson s') = (!) (rson s0) \<and> lson s0 ! p = NIL \<and> node s0 p"
      proof (cases "0 \<le> cmp")
        case c: True
        then show ?thesis using True pb len by (simp add: s'_def q_def same nth_update_fun)
      next
        case c: False
        then show ?thesis using True pb len p by (auto simp: s'_def q_def same nth_update_fun)
      qed
    qed
    moreover have dads: "(!) (dad s') = ((!) (dad s0))(r := p)" "text_buf s' = text_buf s0"
      using r' len by (simp_all add: s'_def same nth_update_fun)
    moreover have "lz_shape s'"
      using t same by (simp add: s'_def lz_tree_def lz_shape_def)
    moreover have "p \<noteq> NIL" using p not_root_NIL by blast
    moreover have "match_ok r s0 s'" using mok by (simp add: match_ok_def s'_def)
    ultimately have "insert_step r (p, cmp, s) = Some (Inr (None, s'))" "insert_post r s0 (None, s')"
      using r by (simp_all add: insert_post_def lz_tree_def registered_upd)
    then show ?thesis by blast
  next
    case False
    have child: "node s0 q \<and> dad s0 ! q = p"
    proof (cases "0 \<le> cmp")
      case True
      then show ?thesis
        using p False links_right [OF l, of p] links_root [OF l, of p] by (auto simp: q_def)
    next
      case c: False
      then show ?thesis
        using p False links_left [OF l, of p] by (auto simp: q_def)
    qed
    have key: "text_buf s0 ! q = text_buf s0 ! r"
      using p child links_key [OF l, of q] links_key_root [OF l, of q] by (auto simp: word_unat_eq_iff)
    have qb: "q < 2048" "q \<noteq> r" using child node_bound(1) r by auto
    obtain i cmp' where cmp: "compare_key (text_buf s0) r q 1 (LZ_F - 1) cmp = Some (i, cmp')"
        "1 \<le> i" "i \<le> LZ_F" "\<forall>k. 1 \<le> k \<and> k < i \<longrightarrow> text_buf s0 ! (r + k) = text_buf s0 ! (q + k)"
      using compare_key_total [of r 1 "LZ_F - 1" "text_buf s0" q cmp] len qb r' by (auto simp: lz_sizes)
    have eq: "\<forall>k < i. text_buf s0 ! (r + k) = text_buf s0 ! (q + k)"
    proof (intro allI impI)
      fix k assume "k < i"
      then show "text_buf s0 ! (r + k) = text_buf s0 ! (q + k)"
        using cmp(4) key by (cases k) auto
    qed
    define c where "c = distance r q"
    define s1 where "s1 = (if i > match_length s then s\<lparr>match_position := c, match_length := i\<rparr> else s)"
    define s2 where "s2 = (if i = match_length s1 \<and> c < match_position s1 then s1\<lparr>match_position := c\<rparr> else s1)"
    have ok1: "match_ok r s0 s1" if "THRESHOLD < i"
      using mok that cmp(3) child eq by (auto simp: match_ok_def s1_def c_def)
    have ok2: "match_ok r s0 s2" if "THRESHOLD < i"
      using ok1 [OF that] that cmp(3) child eq by (auto simp: match_ok_def s2_def c_def)
    have same12: "same_arrays s0 s1" "same_arrays s0 s2"
      using same by (simp_all add: same_arrays_def s1_def s2_def)
    have step: "insert_step r (p, cmp, s) =
        (if THRESHOLD < i then
           if i > match_length s \<and> i \<ge> LZ_F then Some (Inr (Some q, s1)) else Some (Inl (q, cmp', s2))
         else Some (Inl (q, cmp', s)))"
      using rdq False cmp(1) by (simp add: insert_step_def same c_def [symmetric] s1_def [symmetric] s2_def Let_def)
    have less: "mm q < mm p"
    proof (cases "node s0 p")
      case True
      then have "rk p < rk q" "rk q < m" using rk child by (auto simp: ranked_def)
      then show ?thesis using True child by (simp add: mm_def)
    next
      case False
      then show ?thesis using child by (simp add: mm_def)
    qed
    show ?thesis
    proof (cases "THRESHOLD < i \<and> i > match_length s \<and> i \<ge> LZ_F")
      case True
      then show ?thesis
        using step ok1 same12 child key by (simp add: insert_post_def)
    next
      case n: False
      define s3 where "s3 = (if THRESHOLD < i then s2 else s)"
      have "insert_step r (p, cmp, s) = Some (Inl (q, cmp', s3))"
        using step n by (auto simp: s3_def)
      moreover have "insert_inv r s0 (q, cmp', s3)"
        using ok2 same12 mok same child key by (simp add: insert_inv_def s3_def same_arrays_def)
      ultimately show ?thesis using less by blast
    qed
  qed
qed

text \<open>The arrays after \<open>r\<close> has taken the place of \<open>p\<close>.\<close>

definition replaced :: "nat \<Rightarrow> nat \<Rightarrow> lzss \<Rightarrow> lzss" where
  "replaced r p s =
     (let d = dad s ! p; a = lson s ! p; b = rson s ! p in
      s\<lparr>dad := (dad s)[r := d, a := r, b := r, p := NIL],
        lson := (if rson s ! d = p then (lson s)[r := a] else (lson s)[r := a, d := r]),
        rson := (if rson s ! d = p then (rson s)[r := b, d := r] else (rson s)[r := b])\<rparr>)"

lemma replaced_fields [simp]:
  "text_buf (replaced r p s) = text_buf s" "match_position (replaced r p s) = match_position s"
  "match_length (replaced r p s) = match_length s"
  by (simp_all add: replaced_def Let_def)

lemma replaced_tree:
  assumes t: "lz_tree s" and p: "node s p" and r: "r < LZ_N" "\<not> node s r"
    and key: "text_buf s ! r = text_buf s ! p"
  shows "lz_tree (replaced r p s)" and "node (replaced r p s) x \<Longrightarrow> node s x \<and> x \<noteq> p \<or> x = r"
proof -
  note l = lz_links [OF t] and len = lz_lengths [OF t]
  define d a b where "d = dad s ! p" and "a = lson s ! p" and "b = rson s ! p"
  have r': "r < 2048" using r by (simp add: lz_sizes)
  have pb: "p < 2048" "p \<noteq> r" using p node_bound(1) r by auto
  have ab: "a < 2049" "b < 2049" "d < 2305"
    using child_bound [OF t p] parent_bound [OF t p] by (simp_all add: a_def b_def d_def)
  have left_ok: "rson s ! d \<noteq> p \<Longrightarrow> d < 2048"
    using links_up [OF l p] node_bound(1) by (auto simp: d_def)
  define s' where "s' = replaced r p s"
  have s': "dad s' = (dad s)[r := d, a := r, b := r, p := NIL]"
      "lson s' = (if rson s ! d = p then (lson s)[r := a] else (lson s)[r := a, d := r])"
      "rson s' = (if rson s ! d = p then (rson s)[r := b, d := r] else (rson s)[r := b])"
      "text_buf s' = text_buf s"
    by (simp_all add: s'_def replaced_def Let_def a_def b_def d_def)
  have dads: "(!) (dad s') = ((!) (dad s))(r := d, a := r, b := r, p := NIL)"
    using r' pb ab len by (simp add: s' nth_update_fun)
  have "links ((!) (text_buf s)) ((!) (lson s')) ((!) (rson s')) (((!) (dad s))(r := d, a := r, b := r, p := NIL))"
    unfolding d_def a_def b_def
  proof (rule links_replace [OF l p r key])
    show "rson s ! (dad s ! p) = p \<and> (!) (lson s') = ((!) (lson s))(r := lson s ! p) \<and>
        (!) (rson s') = ((!) (rson s))(r := rson s ! p, dad s ! p := r) \<or>
      rson s ! (dad s ! p) \<noteq> p \<and> (!) (lson s') = ((!) (lson s))(r := lson s ! p, dad s ! p := r) \<and>
        (!) (rson s') = ((!) (rson s))(r := rson s ! p)"
      using r' ab len left_ok
      by (auto simp: s' nth_update_fun d_def [symmetric] a_def [symmetric] b_def [symmetric])
  qed
  moreover have "lz_shape s'"
    using t s' by (simp add: lz_tree_def lz_shape_def)
  ultimately show "lz_tree (replaced r p s)"
    unfolding lz_tree_def s'_def [symmetric] dads s'(4) by simp
  assume "node (replaced r p s) x"
  then have "registered (((!) (dad s))(r := d, a := r, b := r, p := NIL)) x"
    unfolding s'_def [symmetric] dads .
  then have x: "x \<noteq> p" "x = a \<or> x = b \<Longrightarrow> x < LZ_N" "x \<noteq> a \<Longrightarrow> x \<noteq> b \<Longrightarrow> x \<noteq> r \<Longrightarrow> node s x"
    by (auto simp: registered_upd split: if_splits)
  have "x = a \<Longrightarrow> node s x" "x = b \<Longrightarrow> node s x"
    using links_left [OF l p] links_right [OF l p] x(2) by (auto simp: a_def b_def NIL_N)
  then show "node s x \<and> x \<noteq> p \<or> x = r" using x by blast
qed

lemma replace_node_total:
  assumes t: "lz_tree s" and p: "node s p" and r: "r < LZ_N" "\<not> node s r"
  shows "replace_node r p s = Some (replaced r p s)"
proof -
  note l = lz_links [OF t] and len = lz_lengths [OF t]
  define d a b where "d = dad s ! p" and "a = lson s ! p" and "b = rson s ! p"
  have r': "r < 2048" using r by (simp add: lz_sizes)
  have pb: "p < 2048" "p \<noteq> r" using p node_bound(1) r by auto
  have ab: "a < 2049" "b < 2049" "d < 2305"
    using child_bound [OF t p] parent_bound [OF t p] by (simp_all add: a_def b_def d_def)
  have "a \<noteq> NIL \<Longrightarrow> node s a \<and> dad s ! a = p" "b \<noteq> NIL \<Longrightarrow> node s b \<and> dad s ! b = p"
    using links_left [OF l p] links_right [OF l p] by (auto simp: a_def b_def)
  then have ne: "a \<noteq> p" "b \<noteq> p" "d \<noteq> r"
    using links_rank(1) [OF l p] pb links_up [OF l p] r r' by (auto simp: lz_sizes d_def is_root_iff)
  have left_ok: "rson s ! d \<noteq> p \<Longrightarrow> d < 2048"
    using links_up [OF l p] node_bound(1) by (auto simp: d_def)
  define D where "D = (dad s)[r := d, a := r, b := r]"
  define R1 where "R1 = (rson s)[r := b]"
  define L1 where "L1 = (lson s)[r := a]"
  have Dp: "D ! p = d" using ne pb by (simp add: D_def d_def)
  have Rd: "R1 ! d = rson s ! d" using ne by (simp add: R1_def)
  have lens: "length D = 2049" "length R1 = 2306" "length L1 = 2049"
    using len by (simp_all add: D_def R1_def L1_def)
  have "replace_node r p s = Some (s\<lparr>dad := D[p := NIL],
     lson := (if rson s ! d = p then L1 else L1[d := r]), rson := (if rson s ! d = p then R1[d := r] else R1)\<rparr>)"
    using r' pb ab len ne Dp Rd left_ok lens
    by (auto simp: replace_node_def access_simps d_def [symmetric] a_def [symmetric] b_def [symmetric]
        D_def [symmetric] R1_def [symmetric] L1_def [symmetric])
  then show ?thesis
    by (simp add: replaced_def Let_def D_def R1_def L1_def d_def a_def b_def)
qed

lemma InsertNode_total:
  assumes t: "lz_tree s" and r: "r < LZ_N" "\<not> node s r"
  shows "\<exists>s'. InsertNode r s = Some s' \<and> lz_tree s' \<and> text_buf s' = text_buf s \<and>
    (\<forall>x. node s' x \<longrightarrow> node s x \<or> x = r) \<and> match_ok r s s'"
proof -
  note len = lz_lengths [OF t]
  have r': "r < 2048" using r by (simp add: lz_sizes)
  define s0 where "s0 = s\<lparr>rson := (rson s)[r := NIL], lson := (lson s)[r := NIL], match_length := 0\<rparr>"
  have t0: "lz_tree s0"
    using links_clear [OF lz_links [OF t] r] t r' len
    by (simp add: s0_def lz_tree_def lz_shape_def nth_update_fun)
  have r0: "\<not> node s0 r" "lson s0 ! r = NIL" "rson s0 ! r = NIL" and nodes: "node s0 x \<longleftrightarrow> node s x" for x
    using r r' len by (simp_all add: s0_def)
  obtain rk m where rk: "ranked ((!) (dad s0)) rk m"
    using lz_links [OF t0] by (auto simp: links_def)
  define p0 where "p0 = LZ_N + 1 + unat (text_buf s ! r)"
  have "unat (text_buf s ! r) < 256" using unsigned_less [of "text_buf s ! r"] by simp
  then have root: "is_root p0" by (simp add: p0_def is_root_def)
  have init: "insert_inv r s0 (p0, 1, s0)"
    using root by (simp add: insert_inv_def same_arrays_def match_ok_def p0_def s0_def)
  have "\<exists>res. loop (insert_step r) (p0, 1, s0) = Some res \<and> insert_post r s0 res"
  proof (rule loop_total [where I = "insert_inv r s0" and
        m = "\<lambda>(p, _, _). if node s0 p then m - rk p else Suc m"])
    fix st assume st: "insert_inv r s0 st"
    obtain p cmp s1 where e: "st = (p, cmp, s1)" by (cases st)
    show "(\<exists>s'. insert_step r st = Some (Inl s') \<and> insert_inv r s0 s' \<and>
        (case s' of (p, _, _) \<Rightarrow> if node s0 p then m - rk p else Suc m)
          < (case st of (p, _, _) \<Rightarrow> if node s0 p then m - rk p else Suc m)) \<or>
      (\<exists>res. insert_step r st = Some (Inr res) \<and> insert_post r s0 res)"
    proof -
      consider (go) p' cmp' s' where "insert_step r (p, cmp, s1) = Some (Inl (p', cmp', s'))"
          "insert_inv r s0 (p', cmp', s')"
          "(if node s0 p' then m - rk p' else Suc m) < (if node s0 p then m - rk p else Suc m)"
        | (leave) res where "insert_step r (p, cmp, s1) = Some (Inr res)" "insert_post r s0 res"
        using insert_step_total [OF t0 r(1) r0 rk st [unfolded e]] by blast
      then show ?thesis
      proof cases
        case go
        then show ?thesis unfolding e by (intro disjI1 exI [of _ "(p', cmp', s')"]) simp
      next
        case leave
        then show ?thesis unfolding e by blast
      qed
    qed
  qed (rule init)
  then obtain b s1 where lp: "loop (insert_step r) (p0, 1, s0) = Some (b, s1)" "insert_post r s0 (b, s1)"
    by auto
  have start: "InsertNode r s = (case b of None \<Rightarrow> Some s1 | Some p \<Rightarrow> replace_node r p s1)"
    using lp(1) r' len by (simp add: InsertNode_def access_simps s0_def p0_def)
  have tb: "text_buf s0 = text_buf s" by (simp add: s0_def)
  show ?thesis
  proof (cases b)
    case None
    then show ?thesis
      using start lp(2) tb nodes by (simp add: insert_post_def match_ok_def)
  next
    case (Some q)
    have same: "same_arrays s0 s1" "node s0 q" "text_buf s0 ! q = text_buf s0 ! r" "match_ok r s0 s1"
      using lp(2) Some by (simp_all add: insert_post_def)
    then have t1: "lz_tree s1" "node s1 q" "\<not> node s1 r" "text_buf s1 ! r = text_buf s1 ! q"
      using t0 r0 by (simp_all add: same_arrays_def lz_tree_def lz_shape_def)
    define s' where "s' = replaced r q s1"
    have s': "replace_node r q s1 = Some s'" "lz_tree s'" "text_buf s' = text_buf s1"
        "match_position s' = match_position s1" "match_length s' = match_length s1"
        "\<forall>x. node s' x \<longrightarrow> node s1 x \<or> x = r"
      using replace_node_total [OF t1(1,2) r(1) t1(3)] replaced_tree [OF t1(1,2) r(1) t1(3,4)]
      by (auto simp: s'_def)
    have "text_buf s1 = text_buf s" "\<And>x. node s1 x \<longleftrightarrow> node s x"
      using same(1) tb nodes by (simp_all add: same_arrays_def)
    with s' show ?thesis
      using start Some same(4) tb nodes by (simp add: match_ok_def)
  qed
qed

section \<open>Deleting a node\<close>

text \<open>The rightmost node of the left subtree: it has no right child and is a right child itself.\<close>

lemma rightmost_total:
  assumes t: "lz_tree s" and a: "node s a" and x: "rson s ! a \<noteq> NIL"
    and rk: "ranked ((!) (dad s)) rk m"
  shows "\<exists>q. loop (rightmost_step (rson s)) a = Some q \<and> node s q \<and> rson s ! q = NIL \<and>
    node s (dad s ! q) \<and> rson s ! (dad s ! q) = q \<and> q \<noteq> a \<and> dad s ! q \<noteq> dad s ! a \<and>
    rk a \<le> rk q \<and> text_buf s ! q = text_buf s ! a"
proof -
  note l = lz_links [OF t] and len = lz_lengths [OF t]
  show ?thesis
  proof (rule loop_total [where
      I = "\<lambda>q. node s q \<and> rson s ! q \<noteq> NIL \<and> rk a \<le> rk q \<and> text_buf s ! q = text_buf s ! a" and m = "\<lambda>q. m - rk q"])
    fix q assume q: "node s q \<and> rson s ! q \<noteq> NIL \<and> rk a \<le> rk q \<and> text_buf s ! q = text_buf s ! a"
    define y where "y = rson s ! q"
    have y: "node s y" "dad s ! y = q" using links_right [OF l, of q] q by (simp_all add: y_def)
    have "rk q < rk y" "rk y < m" using rk y q by (auto simp: ranked_def)
    moreover have key: "text_buf s ! y = text_buf s ! q"
      using links_key [OF l y(1)] y q by simp
    moreover have up: "dad s ! a \<noteq> q"
      using rk a q by (auto simp: ranked_def)
    moreover have "q < 2048" "y < 2048" using q y node_bound(1) by blast+
    then have "rd (rson s) q = Some y" "rd (rson s) y = Some (rson s ! y)"
      using len by (simp_all add: access_simps y_def)
    ultimately show "(\<exists>s'. rightmost_step (rson s) q = Some (Inl s') \<and>
          (node s s' \<and> rson s ! s' \<noteq> NIL \<and> rk a \<le> rk s' \<and> text_buf s ! s' = text_buf s ! a) \<and> m - rk s' < m - rk q) \<or>
        (\<exists>r. rightmost_step (rson s) q = Some (Inr r) \<and> node s r \<and> rson s ! r = NIL \<and>
          node s (dad s ! r) \<and> rson s ! (dad s ! r) = r \<and> r \<noteq> a \<and> dad s ! r \<noteq> dad s ! a \<and>
          rk a \<le> rk r \<and> text_buf s ! r = text_buf s ! a)"
      using q y key up by (auto simp: rightmost_step_def y_def)
  qed (use a x in simp)
qed

text \<open>The arrays after \<open>q\<close> has taken the place of \<open>p\<close>, whatever was done below.\<close>

lemma delete_finish:
  assumes "length (rson s) = 2306" "length (lson s) = 2049" "length (dad s) = 2049"
    and "p < 2048" "q < 2049" "q \<noteq> p" "dad s ! p = d" "d < 2305" "rson s ! d \<noteq> p \<Longrightarrow> d < 2048"
  shows "hang_instead p q s
    = Some (s\<lparr>rson := (if rson s ! d = p then (rson s)[d := q] else rson s),
        lson := (if rson s ! d = p then lson s else (lson s)[d := q]), dad := (dad s)[q := d, p := NIL]\<rparr>)"
  using assms by (auto simp: hang_instead_def access_simps)

definition deleted :: "nat \<Rightarrow> lzss \<Rightarrow> lzss \<Rightarrow> bool" where
  "deleted p s s' \<longleftrightarrow> lz_tree s' \<and> text_buf s' = text_buf s \<and> match_position s' = match_position s \<and>
     match_length s' = match_length s \<and> (\<forall>x. node s' x \<longrightarrow> node s x \<and> x \<noteq> p)"

lemma deleted_splice:
  assumes t: "lz_tree s" and p: "node s p"
    and q: "rson s ! p = NIL \<and> q = lson s ! p \<or> lson s ! p = NIL \<and> q = rson s ! p"
  defines "d \<equiv> dad s ! p"
  shows "deleted p s (s\<lparr>rson := (if rson s ! d = p then (rson s)[d := q] else rson s),
        lson := (if rson s ! d = p then lson s else (lson s)[d := q]), dad := (dad s)[q := d, p := NIL]\<rparr>)"
    (is "deleted p s ?s'")
proof -
  note l = lz_links [OF t] and len = lz_lengths [OF t]
  have pb: "p < 2048" using p node_bound(1) by blast
  have qb: "q < 2049" using child_bound [OF t p] q by auto
  have d: "d < 2305" "rson s ! d \<noteq> p \<Longrightarrow> d < 2048"
    using parent_bound [OF t p] links_up [OF l p] node_bound(1) by (auto simp: d_def)
  define s' where "s' = ?s'"
  have fields: "text_buf s' = text_buf s" "match_position s' = match_position s" "match_length s' = match_length s"
    and shape: "lz_shape s'"
    using t by (simp_all add: s'_def lz_tree_def lz_shape_def)
  have new: "rson s ! (dad s ! p) = p \<and> (!) (lson s') = (!) (lson s) \<and> (!) (rson s') = ((!) (rson s))(dad s ! p := q) \<or>
      rson s ! (dad s ! p) \<noteq> p \<and> (!) (lson s') = ((!) (lson s))(dad s ! p := q) \<and> (!) (rson s') = (!) (rson s)"
    using d len by (auto simp: s'_def nth_update_fun d_def [symmetric])
  have dads: "(!) (dad s') = ((!) (dad s))(q := dad s ! p, p := NIL)"
    using pb qb len by (simp add: s'_def nth_update_fun d_def)
  have "links ((!) (text_buf s)) ((!) (lson s')) ((!) (rson s')) ((!) (dad s'))"
    unfolding dads by (rule links_splice [OF l p q new])
  moreover have "node s x \<and> x \<noteq> p" if "node s' x" for x
  proof -
    have "q < LZ_N \<Longrightarrow> node s q"
      using links_left [OF l p] links_right [OF l p] q by (auto simp: NIL_N)
    moreover have "registered (((!) (dad s))(q := dad s ! p, p := NIL)) x"
      using that unfolding dads .
    then have "x \<noteq> p" "x = q \<Longrightarrow> q < LZ_N" "x \<noteq> q \<Longrightarrow> node s x"
      by (simp_all add: registered_upd split: if_splits)
    ultimately show ?thesis by (cases "x = q") simp_all
  qed
  ultimately have "deleted p s s'"
    unfolding deleted_def lz_tree_def using shape fields by simp
  then show ?thesis by (simp only: s'_def)
qed

lemma DeleteNode_total:
  assumes t: "lz_tree s" and p: "p < LZ_N"
  shows "\<exists>s'. DeleteNode p s = Some s' \<and> deleted p s s'"
proof (cases "node s p")
  case False
  then have "dad s ! p = NIL" using p by (simp add: registered_def)
  then have "DeleteNode p s = Some s"
    using p lz_lengths [OF t] by (simp add: DeleteNode_def access_simps lz_sizes)
  then show ?thesis using t False by (auto simp: deleted_def)
next
  case True
  note l = lz_links [OF t] and len = lz_lengths [OF t]
  have pb: "p < 2048" "dad s ! p \<noteq> NIL" using node_bound [OF True] by (simp_all add: lz_sizes)
  define a b d where "a = lson s ! p" and "b = rson s ! p" and "d = dad s ! p"
  have ab: "a < 2049" "b < 2049" using child_bound [OF t True] by (simp_all add: a_def b_def)
  have d: "d < 2305" "rson s ! d \<noteq> p \<Longrightarrow> d < 2048"
    using parent_bound [OF t True] links_up [OF l True] node_bound(1) by (auto simp: d_def)
  have ka: "a \<noteq> NIL \<Longrightarrow> node s a \<and> dad s ! a = p \<and> a \<noteq> b" and kb: "b \<noteq> NIL \<Longrightarrow> node s b \<and> dad s ! b = p"
    using links_left [OF l True] links_right [OF l True] by (auto simp: a_def b_def)
  have ne: "a \<noteq> p" "b \<noteq> p"
    using ka kb links_rank(1) [OF l True] pb by (auto simp: lz_sizes)
  have base: "rd (dad s) p = Some d" "rd (rson s) p = Some b" "rd (lson s) p = Some a" "d \<noteq> NIL"
    using pb len by (simp_all add: access_simps a_def b_def d_def)
  show ?thesis
  proof (cases "a = NIL \<or> b = NIL")
    case one: True
    define q where "q = (if b = NIL then a else b)"
    have q: "rson s ! p = NIL \<and> q = lson s ! p \<or> lson s ! p = NIL \<and> q = rson s ! p"
      using one by (auto simp: q_def a_def b_def)
    have qb: "q < 2049" "q \<noteq> p" using ab ne by (simp_all add: q_def)
    note fin = delete_finish [OF len(3,2,4) pb(1) qb d_def [symmetric] d]
    have "DeleteNode p s = Some (s\<lparr>rson := (if rson s ! d = p then (rson s)[d := q] else rson s),
        lson := (if rson s ! d = p then lson s else (lson s)[d := q]), dad := (dad s)[q := d, p := NIL]\<rparr>)"
    proof -
      have choice: "(if b = NIL then Some (a, s) else if a = NIL then Some (b, s) else z) = Some (q, s)" for z
        using one by (auto simp: q_def)
      show ?thesis
        unfolding DeleteNode_def base bind.bind_lunit choice if_not_P [OF base(4)]
        using fin by simp
    qed
    then show ?thesis
      using deleted_splice [OF t True q, folded d_def] by blast
  next
    case two: False
    then have na: "node s a" "dad s ! a = p" "a \<noteq> b" and nb: "node s b" "dad s ! b = p"
      using ka kb by auto
    obtain rk m where rk: "ranked ((!) (dad s)) rk m"
      using l by (auto simp: links_def)
    have keys: "text_buf s ! a = text_buf s ! p"
      using links_key [OF l na(1)] na True by simp
    have rda: "rd (rson s) a = Some (rson s ! a)"
      using ab len by (simp add: access_simps)
    show ?thesis
    proof (cases "rson s ! a = NIL")
      case leaf: True
      define f where "f = lson s ! a"
      define s1 where "s1 = s\<lparr>lson := (lson s)[p := f], dad := (dad s)[f := p, a := NIL]\<rparr>"
      define s2 where "s2 = s\<lparr>rson := (rson s)[a := b], dad := (dad s)[b := a]\<rparr>"
      define s' where "s' = s2\<lparr>rson := (if rson s2 ! d = p then (rson s2)[d := a] else rson s2),
        lson := (if rson s2 ! d = p then lson s2 else (lson s2)[d := a]), dad := (dad s2)[a := d, p := NIL]\<rparr>"
      have "deleted a s s1"
        using deleted_splice [OF t na(1), of f] leaf na(2,3) by (simp add: s1_def f_def b_def [symmetric])
      then have t1: "lz_tree s1" "\<not> node s1 a" "text_buf s1 = text_buf s" "\<And>x. node s1 x \<Longrightarrow> node s x"
        by (auto simp: deleted_def)
      have kf: "f \<noteq> NIL \<Longrightarrow> node s f \<and> dad s ! f = a"
        using links_left [OF l na(1)] by (simp add: f_def)
      have fb: "f < 2049" using child_bound [OF t na(1)] by (simp add: f_def)
      have abN: "a < 2048" "b < 2048" "a < LZ_N"
        using node_bound(1) [OF na(1)] node_bound(1) [OF nb(1)] by (simp_all add: lz_sizes)
      have da: "d \<noteq> a" "d \<noteq> p"
        using links_rank [OF l] na True by (metis d_def)+
      have neq: "f \<noteq> p" "f \<noteq> a" "f \<noteq> b"
      proof -
        show "f \<noteq> p" using kf da pb(1) by (auto simp: d_def lz_sizes)
        show "f \<noteq> a" using kf na(2) ne two links_rank(1) [OF l na(1)] by metis
        show "f \<noteq> b" using kf nb(2) ne two by metis
      qed
      have s1_p: "dad s1 ! p = d" "lson s1 ! p = f" "rson s1 ! p = b" "rson s1 = rson s"
        using neq ne pb len by (simp_all add: s1_def d_def b_def)
      have p1: "node s1 p"
        using s1_p(1) pb base(4) by (simp add: registered_def lz_sizes)
      define s3 where "s3 = replaced a p s1"
      have key1: "text_buf s1 ! a = text_buf s1 ! p" using keys t1(3) by simp
      note rep = replaced_tree [OF t1(1) p1 abN(3) t1(2) key1, folded s3_def]
      have s3: "dad s3 = (dad s)[f := p, a := NIL, a := d, f := a, b := a, p := NIL]"
          "lson s3 = (if rson s ! d = p then (lson s)[p := f, a := f] else (lson s)[p := f, a := f, d := a])"
          "rson s3 = (if rson s ! d = p then (rson s)[a := b, d := a] else (rson s)[a := b])"
        by (simp_all add: s3_def replaced_def Let_def s1_p) (simp_all add: s1_def b_def)
      have s2_d: "rson s2 ! d = rson s ! d" using da by (simp add: s2_def)
      have s': "dad s' = (dad s)[b := a, a := d, p := NIL]"
          "lson s' = (if rson s ! d = p then lson s else (lson s)[d := a])" "rson s' = rson s3"
          "text_buf s' = text_buf s" "match_position s' = match_position s" "match_length s' = match_length s"
        by (simp_all add: s'_def s2_d s3) (simp_all add: s2_def)
      have L': "(!) (lson s') = ((!) (lson s3))(p := a)"
      proof (rule ext)
        fix x
        show "lson s' ! x = (((!) (lson s3))(p := a)) x"
          using da ne neq len ab pb d(2) f_def a_def by (auto simp: s' s3 nth_list_update)
      qed
      define nv where "nv = dad s' ! NIL"
      have D': "(!) (dad s') = ((!) (dad s3))(NIL := nv)"
      proof (rule ext)
        fix x
        have "x \<noteq> NIL \<Longrightarrow> x = f \<Longrightarrow> dad s ! x = a" using kf by simp
        then show "dad s' ! x = (((!) (dad s3))(NIL := nv)) x"
          using ne neq na(3) fb len ab pb by (auto simp: nv_def s' s3 nth_list_update)
      qed
      have reg: "node s' x \<longleftrightarrow> node s3 x" for x
        unfolding D' by (auto simp: registered_upd registered_def NIL_N)
      have np: "\<not> node s3 p" using rep(2) [of p] ne by auto
      have "links ((!) (text_buf s3)) (((!) (lson s3))(p := a)) (((!) (rson s3))(p := rson s3 ! p)) ((!) (dad s3))"
        using links_clear [OF lz_links [OF rep(1)] _ np, of a "rson s3 ! p"] pb by (simp add: lz_sizes)
      then have "links ((!) (text_buf s3)) ((!) (lson s')) ((!) (rson s')) ((!) (dad s'))"
        unfolding L' D' s'(3) by (intro links_dad_NIL) simp
      moreover have "lz_shape s'"
        using t s' len by (simp add: lz_tree_def lz_shape_def s3)
      moreover have "text_buf s3 = text_buf s" using t1(3) by (simp add: s3_def)
      ultimately have tree: "lz_tree s'" using s'(4) by (simp add: lz_tree_def)
      have gone: "node s x \<and> x \<noteq> p" if "node s' x" for x
        using that rep(2) [of x] t1(4) na(1) np unfolding reg by auto
      have len2: "length (rson s2) = 2306" "length (lson s2) = 2049" "length (dad s2) = 2049"
        using len by (simp_all add: s2_def)
      have "dad s2 ! p = d" using ne by (simp add: s2_def d_def)
      note fin = delete_finish [OF len2 pb(1) ab(1) ne(1) this d(1)]
      have "take_rightmost p a s = Some (a, s2)"
        using leaf ab pb len ne abN
        by (simp add: take_rightmost_def access_simps a_def [symmetric] b_def [symmetric] s2_def)
      then have "DeleteNode p s = Some s'"
        using fin d(2) s2_d two by (simp add: DeleteNode_def base s'_def)
      then show ?thesis
        using tree gone s' by (simp add: deleted_def)
    next
      case inner: False
      obtain q where q: "loop (rightmost_step (rson s)) a = Some q" "node s q" "rson s ! q = NIL"
          "node s (dad s ! q)" "rson s ! (dad s ! q) = q" "q \<noteq> a" "dad s ! q \<noteq> p"
          "text_buf s ! q = text_buf s ! p" "rk a \<le> rk q"
        using rightmost_total [OF t na(1) inner rk] na(2) keys by auto
      define e f where "e = dad s ! q" and "f = lson s ! q"
      define s1 where "s1 = s\<lparr>rson := (rson s)[e := f], dad := (dad s)[f := e, q := NIL]\<rparr>"
      have d1: "deleted q s s1"
        using deleted_splice [OF t q(2), of f] q(3,5) by (simp add: s1_def e_def f_def)
      then have t1: "lz_tree s1" "\<not> node s1 q" "text_buf s1 = text_buf s" "\<And>x. node s1 x \<Longrightarrow> node s x \<and> x \<noteq> q"
        by (auto simp: deleted_def)
      have qb: "q < LZ_N" "q < 2048" using q(2) by (simp_all add: registered_def lz_sizes)
      have bounds: "e < 2048" "f < 2049"
        using node_bound(1) [OF q(4)] child_bound [OF t q(2)] by (simp_all add: e_def f_def)
      have kf: "f \<noteq> NIL \<Longrightarrow> node s f \<and> dad s ! f = q"
        using links_left [OF l q(2)] by (simp add: f_def)
      have neq: "q \<noteq> p" "q \<noteq> b" "e \<noteq> p" "f \<noteq> p" "f \<noteq> a" "f \<noteq> b" "f \<noteq> q" "e \<noteq> q" "d \<noteq> q"
      proof -
        have up: "rk (dad s ! x) < rk x" if "node s x" "node s (dad s ! x)" for x
          using rk that by (simp add: ranked_def)
        have pq: "rk p < rk q" using up [OF na(1)] na(2) True q(9) by simp
        have fq: "f \<noteq> NIL \<Longrightarrow> rk q < rk f" using kf up q(2) by metis
        show "q \<noteq> p" using q(3) two b_def by auto
        show "q \<noteq> b" "e \<noteq> p" using q(7) nb(2) by (auto simp: e_def)
        show "f \<noteq> p" "f \<noteq> q" using fq pq pb(1) qb by (auto simp: lz_sizes)
        show "f \<noteq> a" using fq q(9) two by auto
        show "f \<noteq> b" using kf nb(2) \<open>q \<noteq> p\<close> two by auto
        show "e \<noteq> q" using links_rank(1) [OF l q(2)] by (simp add: e_def)
        show "d \<noteq> q" using up [OF True] q(2) pq by (auto simp: d_def)
      qed
      have s1_p: "dad s1 ! p = d" "lson s1 ! p = a" "rson s1 ! p = b" "rson s1 ! d = p \<longleftrightarrow> rson s ! d = p"
        using neq q(5) bounds len by (auto simp: s1_def d_def a_def b_def e_def nth_list_update)
      have p1: "node s1 p"
        using s1_p(1) pb base(4) by (simp add: registered_def lz_sizes)
      define s2 where "s2 = s\<lparr>rson := (rson s)[e := f, q := b], lson := (lson s)[q := a],
        dad := (dad s)[f := e, a := q, b := q]\<rparr>"
      have len2: "length (rson s2) = 2306" "length (lson s2) = 2049" "length (dad s2) = 2049"
        using len by (simp_all add: s2_def)
      have s2_p: "dad s2 ! p = d" "rson s2 ! d = p \<longleftrightarrow> rson s ! d = p"
        using neq ne q(5) bounds len by (auto simp: s2_def d_def e_def nth_list_update)
      have q2049: "q < 2049" using qb by simp
      note fin = delete_finish [OF len2 pb(1) q2049 neq(1) s2_p(1) d(1)]
      have "take_rightmost p a s = Some (q, s2)"
        using inner q(1) qb bounds len ab neq pb
        by (simp add: take_rightmost_def rda access_simps e_def [symmetric] f_def [symmetric] a_def [symmetric] b_def [symmetric] s2_def)
      then have "DeleteNode p s = Some (s2\<lparr>rson := (if rson s2 ! d = p then (rson s2)[d := q] else rson s2),
          lson := (if rson s2 ! d = p then lson s2 else (lson s2)[d := q]), dad := (dad s2)[q := d, p := NIL]\<rparr>)"
        using fin d(2) s2_p two by (simp add: DeleteNode_def base)
      also have "\<dots> = Some (replaced q p s1)"
      proof -
        have "(dad s)[f := e, a := q, b := q, q := d, p := NIL] = (dad s)[f := e, q := NIL, q := d, a := q, b := q, p := NIL]"
          using neq q(6) by (simp add: list_update_swap)
        then show ?thesis
          using s2_p s1_p
          by (simp add: replaced_def Let_def) (simp add: s1_def s2_def)
      qed
      finally have "DeleteNode p s = Some (replaced q p s1)" .
      then show ?thesis
        using replaced_tree [OF t1(1) p1 qb(1) t1(2)] q(8) t1 q(2) neq
        by (auto simp: deleted_def) (simp_all add: s1_def)
    qed
  qed
qed

end
