(* ===== verification/Lzhuf.thy ===== *)
theory Lzhuf
  imports Lzhuf_Codes Lzhuf_Tree
begin

text \<open>
  Compression and recovery, \<open>Encode\<close>, \<open>Decode\<close> and their \<open>version_1\<close> wrappers with the CRC in
  front.  The C globals are the record \<open>codec\<close>.  A function gives \<open>None\<close> for undefined behaviour;
  its value is the returned buffer, \<open>None\<close> for \<open>NULL\<close>, and the buffers and globals it leaves behind.
  \<open>Decode\<close> calls \<open>exit\<close> when it cannot get its output buffer: that is \<open>Inl\<close> of the status.
\<close>

section \<open>Operations\<close>

record codec =
  lz :: lzss
  hf :: huff
  bio :: bitio
  textsize :: u32

text \<open>\<open>x & (N - 1)\<close> for an \<open>int\<close>.\<close>

definition ring :: "int \<Rightarrow> nat" where
  "ring x = nat (x AND (int LZ_N - 1))"

text \<open>The four length bytes \<open>Encode\<close> starts with; the result is false when one cannot be stored.\<close>

fun put_header :: "mem \<Rightarrow> u32 list \<Rightarrow> bitio \<Rightarrow> buffer \<Rightarrow> bool \<times> bitio \<times> buffer" where
  "put_header mem [] io out = (True, io, out)"
| "put_header mem (c # cs) io out =
     (case crc_fputc mem c io out of
        (r, io', out') \<Rightarrow> if r = -1 then (False, io', out') else put_header mem cs io' out')"

definition size_bytes :: "u32 \<Rightarrow> u32 list" where
  "size_bytes n = [n AND 0xff, drop_bit 8 n AND 0xff, drop_bit 16 n AND 0xff, drop_bit 24 n AND 0xff]"

text \<open>\<open>for (len = 0; len < F && (c = buffer_iterchar(inbuf)) != EOF; len++) text_buf[r + len] = c;\<close>\<close>

definition fill_step ::
    "nat \<Rightarrow> nat \<times> u8 list \<times> buffer \<Rightarrow> ((nat \<times> u8 list \<times> buffer) + (nat \<times> u8 list \<times> buffer)) option" where
  "fill_step r = (\<lambda>(len, tb, inb).
     if len < LZ_F then
       do { (c, inb') \<leftarrow> buffer_iterchar inb;
            (case c of
               None \<Rightarrow> Some (Inr (len, tb, inb'))
             | Some x \<Rightarrow> do { tb' \<leftarrow> wr (r + len) x tb; Some (Inl (len + 1, tb', inb')) }) }
     else Some (Inr (len, tb, inb)))"

text \<open>The loop that takes in one character per character encoded, while there are any.\<close>

definition feed_step ::
    "nat \<Rightarrow> nat \<times> nat \<times> nat \<times> lzss \<times> buffer \<Rightarrow>
     ((nat \<times> nat \<times> nat \<times> lzss \<times> buffer) + (nat \<times> nat \<times> nat \<times> lzss \<times> buffer)) option" where
  "feed_step lml = (\<lambda>(i, s, r, z, inb).
     if i < lml then
       do { (c, inb') \<leftarrow> buffer_iterchar inb;
            (case c of
               None \<Rightarrow> Some (Inr (i, s, r, z, inb'))
             | Some x \<Rightarrow>
                 do { z1 \<leftarrow> DeleteNode s z;
                      tb \<leftarrow> wr s x (text_buf z1);
                      tb' \<leftarrow> (if s < LZ_F - 1 then wr (s + LZ_N) x tb else Some tb);
                      let s' = ring (int s + 1);
                      let r' = ring (int r + 1);
                      z2 \<leftarrow> InsertNode r' (z1\<lparr>text_buf := tb'\<rparr>);
                      Some (Inl (i + 1, s', r', z2, inb')) }) }
     else Some (Inr (i, s, r, z, inb)))"

text \<open>\<open>while (i++ < last_match_length)\<close>: the text has run out, the window moves on.\<close>

definition drain_step :: "nat \<times> nat \<times> int \<times> lzss \<Rightarrow> (nat \<times> nat \<times> int \<times> lzss) option" where
  "drain_step = (\<lambda>(s, r, len, z).
     do { z1 \<leftarrow> DeleteNode s z;
          let s' = ring (int s + 1);
          let r' = ring (int r + 1);
          let len' = len - 1;
          z2 \<leftarrow> (if len' \<noteq> 0 then InsertNode r' z1 else Some z1);
          Some (s', r', len', z2) })"

text \<open>
  One turn of the main loop; the state is \<open>(s, r, len, codec, inbuf, outbuf)\<close>.  \<open>Inr None\<close> is the
  return of \<open>NULL\<close>, \<open>Inr (Some ..)\<close> the end of the loop.
\<close>

definition encode_symbols ::
    "mem \<Rightarrow> nat \<Rightarrow> lzss \<Rightarrow> huff \<Rightarrow> bitio \<Rightarrow> buffer \<Rightarrow> (bool \<times> lzss \<times> huff \<times> bitio \<times> buffer) option" where
  "encode_symbols mem r z h io out =
     (if match_length z \<le> THRESHOLD then
        do { c \<leftarrow> rd (text_buf z) r;
             (e, h', io', out') \<leftarrow> EncodeChar mem (unat c) h io out;
             Some (e \<noteq> -1, z\<lparr>match_length := 1\<rparr>, h', io', out') }
      else
        do { (e, h', io', out') \<leftarrow> EncodeChar mem (255 - THRESHOLD + match_length z) h io out;
             if e = -1 then Some (False, z, h', io', out')
             else do { (e', io'', out'') \<leftarrow> EncodePosition mem (of_nat (match_position z)) io' out';
                       Some (e' \<noteq> -1, z, h', io'', out'') } })"

definition encode_step ::
    "mem \<Rightarrow> nat \<times> nat \<times> int \<times> codec \<times> buffer \<times> buffer \<Rightarrow>
     ((nat \<times> nat \<times> int \<times> codec \<times> buffer \<times> buffer) + (bool \<times> codec \<times> buffer \<times> buffer)) option" where
  "encode_step mem = (\<lambda>(s, r, len, g, inb, out).
     do { let z0 = (if int (match_length (lz g)) > len then (lz g)\<lparr>match_length := nat len\<rparr> else lz g);
          (ok, z1, h1, io1, out1) \<leftarrow> encode_symbols mem r z0 (hf g) (bio g) out;
          if \<not> ok then Some (Inr (False, g\<lparr>lz := z1, hf := h1, bio := io1\<rparr>, inb, out1))
          else
            do { let lml = match_length z1;
                 (i, s1, r1, z2, inb1) \<leftarrow> loop (feed_step lml) (0, s, r, z1, inb);
                 (s2, r2, len2, z3) \<leftarrow> for_up (\<lambda>_. drain_step) i (lml - i) (s1, r1, len, z2);
                 let g' = g\<lparr>lz := z3, hf := h1, bio := io1\<rparr>;
                 Some (if len2 > 0 then Inl (s2, r2, len2, g', inb1, out1)
                       else Inr (True, g', inb1, out1)) } })"

definition Encode :: "mem \<Rightarrow> buffer \<Rightarrow> codec \<Rightarrow> (buffer option \<times> codec \<times> buffer) option" where
  "Encode mem inb g =
     (let io = (bio g)\<lparr>crc := 0, putbuf := 0, putlen := 0\<rparr>;
          n = of_nat (dlen inb);
          g0 = g\<lparr>bio := io, textsize := n\<rparr> in
      case buffer_new mem of
        None \<Rightarrow> Some (None, g0, inb)
      | Some out \<Rightarrow>
          (case put_header mem (size_bytes n) io out of
             (ok, io1, out1) \<Rightarrow>
               let g1 = g0\<lparr>bio := io1\<rparr> in
               if \<not> ok then Some (None, g1, inb)
               else if n = 0 then Some (Some out1, g1, inb)
               else
                 do { h \<leftarrow> StartHuff (hf g1);
                      z1 \<leftarrow> InitTree (lz g1);
                      let r = LZ_N - LZ_F;
                      tb \<leftarrow> for_up (\<lambda>i a. wr i 32 a) 0 r (text_buf z1);
                      (len, tb', inb1) \<leftarrow> loop (fill_step r) (0, tb, buffer_rewind inb);
                      let z2 = z1\<lparr>text_buf := tb'\<rparr>;
                      z3 \<leftarrow> for_up (\<lambda>i. InsertNode (r - i)) 1 LZ_F z2;
                      z4 \<leftarrow> InsertNode r z3;
                      (ok, g2, inb2, out2) \<leftarrow> loop (encode_step mem)
                        (0, r, int len, g1\<lparr>lz := z4, hf := h, textsize := of_nat len\<rparr>, inb1, out1);
                      if \<not> ok then Some (None, g2, inb2)
                      else
                        (case EncodeEnd mem (bio g2) out2 of
                           (e, io3, out3) \<Rightarrow>
                             Some (if e = -1 then None else Some out3, g2\<lparr>bio := io3\<rparr>, inb2)) }))"

text \<open>The copy of the compressed data behind the CRC; the result is false when memory runs out.\<close>

definition copy_step :: "mem \<Rightarrow> buffer \<times> buffer \<Rightarrow> ((buffer \<times> buffer) + (bool \<times> buffer)) option" where
  "copy_step mem = (\<lambda>(out, tmp).
     do { (c, tmp') \<leftarrow> buffer_iterchar tmp;
          (case c of
             None \<Rightarrow> Some (Inr (True, out))
           | Some x \<Rightarrow>
               (case buffer_addchar mem out (ucast x) of
                  (r, out') \<Rightarrow> Some (if r = -1 then Inr (False, out') else Inl (out', tmp')))) })"

definition version_1_Encode :: "mem \<Rightarrow> buffer \<Rightarrow> codec \<Rightarrow> (buffer option \<times> codec \<times> buffer) option" where
  "version_1_Encode mem inb g =
     do { (tmp, g', inb') \<leftarrow> Encode mem inb g;
          (case tmp of
             None \<Rightarrow> Some (None, g', inb')
           | Some t \<Rightarrow>
               (case buffer_new mem of
                  None \<Rightarrow> Some (None, g', inb')
                | Some out \<Rightarrow>
                    (case buffer_addchar mem out (ucast (crc (bio g') AND 0xff)) of
                       (r, out1) \<Rightarrow>
                         if r = -1 then Some (None, g', inb')
                         else
                           (case buffer_addchar mem out1 (ucast (drop_bit 8 (crc (bio g')) AND 0xff)) of
                              (r, out2) \<Rightarrow>
                                if r = -1 then Some (None, g', inb')
                                else
                                  do { (ok, out3) \<leftarrow> loop (copy_step mem) (out2, buffer_rewind t);
                                       Some (if ok then Some out3 else None, g', inb') })))) }"

text \<open>One character of the recovered text: into the output and into the ring.\<close>

definition emit :: "mem \<Rightarrow> u8 \<Rightarrow> nat \<Rightarrow> u8 list \<Rightarrow> buffer \<Rightarrow> (bool \<times> nat \<times> u8 list \<times> buffer) option" where
  "emit mem c r tb out =
     (case buffer_addchar mem out (ucast c) of
        (e, out') \<Rightarrow>
          if e = -1 then Some (False, r, tb, out')
          else do { tb' \<leftarrow> wr r c tb; Some (True, ring (int r + 1), tb', out') })"

text \<open>\<open>for (k = 0; k < j; k++)\<close> of a match: the second argument counts what is left.\<close>

fun copy_match ::
    "mem \<Rightarrow> nat \<Rightarrow> nat \<Rightarrow> nat \<Rightarrow> nat \<Rightarrow> u8 list \<Rightarrow> buffer \<Rightarrow> (bool \<times> nat \<times> u8 list \<times> buffer) option" where
  "copy_match mem 0 i k r tb out = Some (True, r, tb, out)"
| "copy_match mem (Suc n) i k r tb out =
     do { c \<leftarrow> rd tb (ring (int i + int k));
          (ok, r', tb', out') \<leftarrow> emit mem c r tb out;
          if ok then copy_match mem n i (k + 1) r' tb' out' else Some (False, r', tb', out') }"

definition decode_turn ::
    "mem \<Rightarrow> u32 \<Rightarrow> nat \<times> nat \<times> codec \<times> buffer \<times> buffer \<Rightarrow>
     ((nat \<times> nat \<times> codec \<times> buffer \<times> buffer) + (bool \<times> codec \<times> buffer \<times> buffer)) option" where
  "decode_turn mem tsize = (\<lambda>(count, r, g, inb, out).
     if count < unat tsize then
       do { (c, h1, io1, inb1) \<leftarrow> DecodeChar (hf g) (bio g) inb;
            let g1 = g\<lparr>hf := h1, bio := io1\<rparr>;
            if c < 256 then
              do { (ok, r', tb', out') \<leftarrow> emit mem (of_nat c) r (text_buf (lz g1)) out;
                   let g2 = g1\<lparr>lz := (lz g1)\<lparr>text_buf := tb'\<rparr>\<rparr>;
                   Some (if ok then Inl (count + 1, r', g2, inb1, out') else Inr (False, g2, inb1, out')) }
            else
              do { (p, io2, inb2) \<leftarrow> DecodePosition io1 inb1;
                   let g2 = g1\<lparr>bio := io2\<rparr>;
                   let i = ring (int r - int p - 1);
                   let j = c - 255 + THRESHOLD;
                   (ok, r', tb', out') \<leftarrow> copy_match mem j i 0 r (text_buf (lz g2)) out;
                   let g3 = g2\<lparr>lz := (lz g2)\<lparr>text_buf := tb'\<rparr>\<rparr>;
                   Some (if ok then Inl (count + j, r', g3, inb2, out') else Inr (False, g3, inb2, out')) } }
     else Some (Inr (True, g, inb, out)))"

text \<open>
  The four length bytes, the first the least significant; \<open>None\<close> is the end of the input.  What a
  premature end leaves in \<open>textsize\<close> is not kept: every use of it is behind an assignment.
\<close>

fun get_size :: "nat \<Rightarrow> nat \<Rightarrow> u32 \<Rightarrow> bitio \<Rightarrow> buffer \<Rightarrow> (u32 option \<times> bitio \<times> buffer) option" where
  "get_size 0 k tsize io inb = Some (Some tsize, io, inb)"
| "get_size (Suc n) k tsize io inb =
     do { (x, io', inb') \<leftarrow> crc_fgetc io inb;
          (case x of
             None \<Rightarrow> Some (None, io', inb')
           | Some c \<Rightarrow> get_size n (k + 8) (tsize OR push_bit k (ucast c)) io' inb') }"

definition Decode :: "mem \<Rightarrow> buffer \<Rightarrow> codec \<Rightarrow> (int + (buffer option \<times> codec \<times> buffer)) option" where
  "Decode mem inb g =
     do { let io = (bio g)\<lparr>getbuf := 0, getlen := 0, crc := 0\<rparr>;
          (tsize, io1, inb1) \<leftarrow> get_size 4 0 0 io inb;
          (case tsize of
             None \<Rightarrow> Some (Inr (None, g\<lparr>bio := io1\<rparr>, inb1))
           | Some n \<Rightarrow>
               let g1 = g\<lparr>bio := io1, textsize := n\<rparr> in
               (case buffer_new mem of
                  None \<Rightarrow> Some (Inl 1)
                | Some out \<Rightarrow>
                    if n = 0 then Some (Inr (Some out, g1, inb1))
                    else
                      do { h \<leftarrow> StartHuff (hf g1);
                           tb \<leftarrow> for_up (\<lambda>i a. wr i 32 a) 0 (LZ_N - LZ_F) (text_buf (lz g1));
                           let g2 = g1\<lparr>hf := h, lz := (lz g1)\<lparr>text_buf := tb\<rparr>\<rparr>;
                           (ok, g3, inb2, out') \<leftarrow> loop (decode_turn mem n) (0, LZ_N - LZ_F, g2, inb1, out);
                           Some (Inr (if ok then Some out' else None, g3, inb2)) })) }"

text \<open>
  \<open>version_1_Decode\<close> passes what \<open>Decode\<close> returned to \<open>buffer_free\<close> when the CRC is wrong, also when
  it is \<open>NULL\<close>; \<open>buffer_free\<close> follows its argument.
\<close>

definition version_1_Decode :: "mem \<Rightarrow> buffer \<Rightarrow> codec \<Rightarrow> (int + (buffer option \<times> codec \<times> buffer)) option" where
  "version_1_Decode mem inb g =
     do { (x, io1, inb1) \<leftarrow> crc_fgetc (bio g) inb;
          (case x of
             None \<Rightarrow> Some (Inr (None, g\<lparr>bio := io1\<rparr>, inb1))
           | Some c0 \<Rightarrow>
               do { (y, io2, inb2) \<leftarrow> crc_fgetc io1 inb1;
                    (case y of
                       None \<Rightarrow> Some (Inr (None, g\<lparr>bio := io2\<rparr>, inb2))
                     | Some c1 \<Rightarrow>
                         do { let crc_read = (ucast c0 :: u16) OR push_bit 8 (ucast c1);
                              d \<leftarrow> Decode mem inb2 (g\<lparr>bio := io2\<rparr>);
                              (case d of
                                 Inl e \<Rightarrow> Some (Inl e)
                               | Inr (out, g', inb') \<Rightarrow>
                                   if crc (bio g') \<noteq> crc_read
                                   then do { _ \<leftarrow> buffer_free out; Some (Inr (None, g', inb')) }
                                   else Some (Inr (out, g', inb'))) }) }) }"

section \<open>The window\<close>

text \<open>
  Positions are counted from the 1988 blanks that stand before the text: \<open>W\<close> is the blanks and the
  text, and position \<open>A\<close> of \<open>W\<close> is kept in entry \<open>A mod LZ_N\<close> of the ring.
\<close>

definition padded :: "u8 list \<Rightarrow> u8 list" where
  "padded m = replicate (LZ_N - LZ_F) 32 @ m"

lemma length_padded: "length (padded m) = 1988 + length m"
  by (simp add: padded_def lz_sizes)

lemma ring_mod: "ring x = nat (x mod 2048)"
proof -
  have "int LZ_N - 1 = mask 11" by (simp add: lz_sizes mask_eq_exp_minus_1)
  then show ?thesis by (simp add: ring_def take_bit_eq_mask [symmetric] take_bit_eq_mod)
qed

lemma ring_add: "ring (int (A mod 2048) + int k) = (A + k) mod 2048"
proof -
  have "(int (A mod 2048) + int k) mod 2048 = int ((A + k) mod 2048)"
    by (metis (no_types, lifting) mod_add_left_eq of_nat_add of_nat_mod of_nat_numeral)
  then show ?thesis by (simp add: ring_mod)
qed

lemma ring_Suc: "ring (int (A mod 2048) + 1) = Suc A mod 2048"
  using ring_add [of A 1] by simp

lemma ring_back:
  assumes "d \<le> A"
  shows "ring (int (A mod 2048) - int d) = (A - d) mod 2048"
proof -
  have "(int (A mod 2048) - int d) mod 2048 = (int A - int d) mod 2048"
    by (metis mod_diff_left_eq of_nat_mod of_nat_numeral)
  also have "\<dots> = int ((A - d) mod 2048)"
    using assms by (simp add: of_nat_diff zmod_int)
  finally show ?thesis by (simp add: ring_mod)
qed

lemma distance_window:
  assumes "P < a" "a \<le> P + 1988"
  shows "distance (a mod 2048) (P mod 2048) = a - P - 1"
proof -
  have "int LZ_N - 1 = mask 11" by (simp add: lz_sizes mask_eq_exp_minus_1)
  then have "(int (a mod 2048) - int (P mod 2048)) AND (int LZ_N - 1) = (int (a mod 2048) - int (P mod 2048)) mod 2048"
    by (simp add: take_bit_eq_mask [symmetric] take_bit_eq_mod)
  also have "\<dots> = (int a - int P) mod 2048"
    by (metis mod_diff_eq of_nat_mod of_nat_numeral)
  also have "\<dots> = int a - int P" using assms by simp
  finally show ?thesis using assms by (simp add: distance_def)
qed

lemma mod_window: "A < B \<Longrightarrow> B < A + 2048 \<Longrightarrow> A mod 2048 \<noteq> B mod (2048 :: nat)"
proof
  assume "A < B" "B < A + 2048" "A mod 2048 = B mod 2048"
  then have "(B - A) mod 2048 = 0" by (metis mod_eq_dvd_iff_nat less_imp_le_nat mod_0_imp_dvd dvd_imp_mod_0)
  with \<open>A < B\<close> \<open>B < A + 2048\<close> show False by simp
qed

definition holds :: "u8 list \<Rightarrow> u8 list \<Rightarrow> nat \<Rightarrow> nat \<Rightarrow> bool" where
  "holds tb W lo hi \<longleftrightarrow> (\<forall>A. lo \<le> A \<and> A < hi \<longrightarrow> tb ! (A mod 2048) = W ! A)"

text \<open>The first bytes of the ring are repeated behind it, so that a comparison can run past the end.\<close>

definition mirrored :: "u8 list \<Rightarrow> u8 list \<Rightarrow> nat \<Rightarrow> nat \<Rightarrow> bool" where
  "mirrored tb W lo hi \<longleftrightarrow>
     (\<forall>A. lo \<le> A \<and> A < hi \<and> 2048 \<le> A \<and> A mod 2048 < 59 \<longrightarrow> tb ! (2048 + A mod 2048) = W ! A)"

lemma holdsD: "holds tb W lo hi \<Longrightarrow> lo \<le> A \<Longrightarrow> A < hi \<Longrightarrow> tb ! (A mod 2048) = W ! A"
  by (simp add: holds_def)

lemma mirroredD:
  "mirrored tb W lo hi \<Longrightarrow> lo \<le> A \<Longrightarrow> A < hi \<Longrightarrow> 2048 \<le> A \<Longrightarrow> A mod 2048 < 59 \<Longrightarrow>
   tb ! (2048 + A mod 2048) = W ! A"
  by (simp add: mirrored_def)

lemma holds_mono: "holds tb W lo hi \<Longrightarrow> lo \<le> lo' \<Longrightarrow> hi' \<le> hi \<Longrightarrow> holds tb W lo' hi'"
  unfolding holds_def by (meson le_trans less_le_trans)

lemma mirrored_mono: "mirrored tb W lo hi \<Longrightarrow> lo \<le> lo' \<Longrightarrow> hi' \<le> hi \<Longrightarrow> mirrored tb W lo' hi'"
  unfolding mirrored_def by (meson le_trans less_le_trans)

lemma window_look:
  assumes h: "holds tb W lo hi" and m: "mirrored tb W lo hi" and P: "lo \<le> P" "P + i < hi" "i < 60"
  shows "tb ! (P mod 2048 + i) = W ! (P + i)"
proof (cases "P mod 2048 + i < 2048")
  case True
  then have "(P + i) mod 2048 = P mod 2048 + i"
    by (metis mod_add_left_eq mod_less)
  moreover have "tb ! ((P + i) mod 2048) = W ! (P + i)" using holdsD [OF h, of "P + i"] P by simp
  ultimately show ?thesis by (simp only:)
next
  case False
  define q where "q = P mod 2048 + i - 2048"
  have q: "P mod 2048 + i = 2048 + q" "q < 59"
    using False P mod_less_divisor [of 2048 P] by (simp_all add: q_def)
  have "(P + i) mod 2048 = q"
    using q by (metis mod_add_left_eq mod_add_self1 mod_less less_trans [of q 59 2048] numeral_less_iff semiring_norm(76,78,79,80,81))
  moreover have "2048 \<le> P + i"
    using q mod_less_eq_dividend [of P 2048] by linarith
  ultimately have "tb ! (2048 + q) = W ! (P + i)"
    using mirroredD [OF m, of "P + i"] P q by simp
  then show ?thesis using q(1) by simp
qed

definition codec_shape :: "codec \<Rightarrow> bool" where
  "codec_shape g \<longleftrightarrow> huff_shape (hf g) \<and> lz_shape (lz g)"

definition enc_win :: "u8 list \<Rightarrow> nat \<Rightarrow> nat \<Rightarrow> nat \<Rightarrow> lzss \<Rightarrow> bool" where
  "enc_win W a hi n z \<longleftrightarrow> lz_tree z \<and> 1988 \<le> a \<and> holds (text_buf z) W (a - 1988) hi \<and>
     mirrored (text_buf z) W (a - 1988) hi \<and>
     (\<forall>x. node z x \<longrightarrow> (\<exists>P. a - 1988 \<le> P \<and> P < n \<and> x = P mod 2048))"

definition match_win :: "u8 list \<Rightarrow> nat \<Rightarrow> nat \<Rightarrow> lzss \<Rightarrow> bool" where
  "match_win W a hi z \<longleftrightarrow> match_length z \<le> 60 \<and>
     (2 < match_length z \<longrightarrow> (\<exists>d. 0 < d \<and> d \<le> 1988 \<and> match_position z = d - 1 \<and>
       (\<forall>k < match_length z. a + k < hi \<longrightarrow> W ! (a + k) = W ! (a - d + k))))"

lemma not_in_window:
  assumes "\<forall>x. node z x \<longrightarrow> (\<exists>P. lo \<le> P \<and> P < n \<and> x = P mod 2048)" "n \<le> a" "a < lo + 2048"
  shows "\<not> node z (a mod 2048)"
proof
  assume "node z (a mod 2048)"
  then obtain P where "lo \<le> P" "P < n" "a mod 2048 = P mod 2048" using assms(1) by blast
  then show False using mod_window [of P a] assms(2,3) by simp
qed

lemma insert_window:
  assumes w: "enc_win W a hi a z"
  shows "\<exists>z'. InsertNode (a mod 2048) z = Some z' \<and> enc_win W a hi (Suc a) z' \<and> match_win W a hi z' \<and>
    text_buf z' = text_buf z"
proof -
  have t: "lz_tree z" and a: "1988 \<le> a" and h: "holds (text_buf z) W (a - 1988) hi"
    and m: "mirrored (text_buf z) W (a - 1988) hi"
    and nodes: "\<forall>x. node z x \<longrightarrow> (\<exists>P. a - 1988 \<le> P \<and> P < a \<and> x = P mod 2048)"
    using w by (simp_all add: enc_win_def)
  have r: "a mod 2048 < LZ_N" "\<not> node z (a mod 2048)"
    using not_in_window [OF nodes] a by (simp_all add: lz_sizes)
  obtain z' where z': "InsertNode (a mod 2048) z = Some z'" "lz_tree z'" "text_buf z' = text_buf z"
      "\<forall>x. node z' x \<longrightarrow> node z x \<or> x = a mod 2048" "match_ok (a mod 2048) z z'"
    using InsertNode_total [OF t r] by blast
  have "enc_win W a hi (Suc a) z'"
    unfolding enc_win_def
  proof (intro conjI allI impI)
    fix x assume "node z' x"
    then show "\<exists>P. a - 1988 \<le> P \<and> P < Suc a \<and> x = P mod 2048"
      using z'(4) nodes by (metis diff_le_self less_Suc_eq)
  qed (use z' a h m in simp_all)
  moreover have "match_win W a hi z'"
  proof -
    have "\<exists>d. 0 < d \<and> d \<le> 1988 \<and> match_position z' = d - 1 \<and>
       (\<forall>k < match_length z'. a + k < hi \<longrightarrow> W ! (a + k) = W ! (a - d + k))" if l: "2 < match_length z'"
    proof -
      obtain p where p: "node z p" "match_position z' = distance (a mod 2048) p"
          "\<forall>k < match_length z'. text_buf z ! (a mod 2048 + k) = text_buf z ! (p + k)"
          and le: "match_length z' \<le> 60"
        using z'(5) l by (auto simp: match_ok_def lz_sizes)
      obtain P where P: "a - 1988 \<le> P" "P < a" "p = P mod 2048" using nodes p(1) by blast
      define d where "d = a - P"
      have d: "0 < d" "d \<le> 1988" "match_position z' = d - 1" "a - d = P"
        using P a p(2) distance_window [of P a] by (simp_all add: d_def)
      have "W ! (a + k) = W ! (a - d + k)" if k: "k < match_length z'" "a + k < hi" for k
      proof -
        have "text_buf z ! (a mod 2048 + k) = W ! (a + k)"
          using window_look [OF h m, of a k] k le a by simp
        moreover have "text_buf z ! (p + k) = W ! (P + k)"
          using window_look [OF h m, of P k] k le P by simp
        ultimately show ?thesis using p(3) k d(4) by simp
      qed
      with d show ?thesis by blast
    qed
    then show ?thesis using z'(5) by (simp add: match_win_def match_ok_def lz_sizes)
  qed
  ultimately show ?thesis using z' by blast
qed

lemma slide_nodes:
  assumes w: "enc_win W a hi (Suc a) z"
  shows "\<exists>z'. DeleteNode ((a + 60) mod 2048) z = Some z' \<and> lz_tree z' \<and> text_buf z' = text_buf z \<and>
    (\<forall>x. node z' x \<longrightarrow> (\<exists>P. Suc a - 1988 \<le> P \<and> P < Suc a \<and> x = P mod 2048))"
proof -
  have t: "lz_tree z" and a: "1988 \<le> a"
    and nodes: "\<forall>x. node z x \<longrightarrow> (\<exists>P. a - 1988 \<le> P \<and> P < Suc a \<and> x = P mod 2048)"
    using w by (simp_all add: enc_win_def)
  have s: "(a + 60) mod 2048 < LZ_N" by (simp add: lz_sizes)
  obtain z' where z': "DeleteNode ((a + 60) mod 2048) z = Some z'" "deleted ((a + 60) mod 2048) z z'"
    using DeleteNode_total [OF t s] by blast
  have eq: "(a + 60) mod 2048 = (a - 1988) mod 2048"
  proof -
    have "a + 60 = (a - 1988) + 2048" using a by simp
    then show ?thesis by (metis mod_add_self2)
  qed
  have "\<exists>P. Suc a - 1988 \<le> P \<and> P < Suc a \<and> x = P mod 2048" if "node z' x" for x
  proof -
    have "node z x" "x \<noteq> (a - 1988) mod 2048" using z'(2) that eq by (auto simp: deleted_def)
    then obtain P where P: "a - 1988 \<le> P" "P < Suc a" "x = P mod 2048" "P \<noteq> a - 1988"
      using nodes by blast
    then have "Suc a - 1988 \<le> P" using a by simp
    with P show ?thesis by blast
  qed
  then show ?thesis using z' by (auto simp: deleted_def)
qed

text \<open>Taking in a character: entry \<open>s\<close>, and its copy behind the ring, now hold position \<open>a + 60\<close>.\<close>

lemma feed_window:
  assumes w: "enc_win W a (a + 60) (Suc a) z" and x: "a + 60 < length W" "W ! (a + 60) = x"
  defines "s \<equiv> (a + 60) mod 2048"
  shows "\<exists>z1 tb z2. DeleteNode s z = Some z1 \<and> s < length (text_buf z1) \<and>
    (if s < LZ_F - 1 then wr (s + LZ_N) x ((text_buf z1)[s := x]) else Some ((text_buf z1)[s := x])) = Some tb \<and>
    InsertNode (Suc a mod 2048) (z1\<lparr>text_buf := tb\<rparr>) = Some z2 \<and>
    enc_win W (Suc a) (a + 61) (Suc (Suc a)) z2 \<and> match_win W (Suc a) (a + 61) z2"
proof -
  have a: "1988 \<le> a" and h: "holds (text_buf z) W (a - 1988) (a + 60)"
    and m: "mirrored (text_buf z) W (a - 1988) (a + 60)"
    using w by (simp_all add: enc_win_def)
  obtain z1 where z1: "DeleteNode s z = Some z1" "lz_tree z1" "text_buf z1 = text_buf z"
      "\<forall>x. node z1 x \<longrightarrow> (\<exists>P. Suc a - 1988 \<le> P \<and> P < Suc a \<and> x = P mod 2048)"
    using slide_nodes [OF w] unfolding s_def by blast
  have len: "length (text_buf z1) = 2107" using lz_lengths [OF z1(2)] by simp
  have s: "s < 2048" by (simp add: s_def)
  define tb1 where "tb1 = (text_buf z1)[s := x]"
  define tb where "tb = (if s < 59 then tb1[s + 2048 := x] else tb1)"
  have wr: "(if s < LZ_F - 1 then wr (s + LZ_N) x tb1 else Some tb1) = Some tb"
    using s len by (simp add: tb_def tb1_def access_simps lz_sizes)
  have other: "A mod 2048 \<noteq> s" if "Suc a - 1988 \<le> A" "A < a + 60" for A
    using mod_window [of A "a + 60"] that a by (simp add: s_def)
  have tb_at: "tb ! i = (if i = s \<or> s < 59 \<and> i = s + 2048 then x else text_buf z ! i)" for i
    using s len z1(3) by (auto simp: tb_def tb1_def nth_list_update)
  have h': "holds tb W (Suc a - 1988) (a + 61)"
    unfolding holds_def
  proof (intro allI impI)
    fix A assume A: "Suc a - 1988 \<le> A \<and> A < a + 61"
    have i: "A mod 2048 \<noteq> s + 2048" using mod_less_divisor [of 2048 A] by linarith
    show "tb ! (A mod 2048) = W ! A"
    proof (cases "A = a + 60")
      case True
      then show ?thesis using x by (simp add: tb_at s_def)
    next
      case False
      then have "A < a + 60" "a - 1988 \<le> A" "A mod 2048 \<noteq> s" using A other [of A] by auto
      then show ?thesis using holdsD [OF h] i by (simp add: tb_at)
    qed
  qed
  have m': "mirrored tb W (Suc a - 1988) (a + 61)"
    unfolding mirrored_def
  proof (intro allI impI)
    fix A assume A: "Suc a - 1988 \<le> A \<and> A < a + 61 \<and> 2048 \<le> A \<and> A mod 2048 < 59"
    show "tb ! (2048 + A mod 2048) = W ! A"
    proof (cases "A = a + 60")
      case True
      then show ?thesis using x A by (simp add: tb_at s_def add.commute)
    next
      case False
      then have "A < a + 60" "a - 1988 \<le> A" "A mod 2048 \<noteq> s" using A other [of A] by auto
      then show ?thesis using A mirroredD [OF m] s by (simp add: tb_at)
    qed
  qed
  have free: "\<not> node z1 s" 
    unfolding s_def by (rule not_in_window [OF z1(4)]) (use a in simp_all)
  have "\<not> node z1 (s + 2048)" by (simp add: registered_def lz_sizes)
  then have "links (((!) (text_buf z1))(s := x, s + 2048 := x)) ((!) (lson z1)) ((!) (rson z1)) ((!) (dad z1))"
      "links (((!) (text_buf z1))(s := x)) ((!) (lson z1)) ((!) (rson z1)) ((!) (dad z1))"
    using links_text [OF lz_links [OF z1(2)] free] links_text by blast+
  then have "links ((!) tb) ((!) (lson z1)) ((!) (rson z1)) ((!) (dad z1))"
    using s len by (auto simp: tb_def tb1_def nth_update_fun)
  moreover have "length tb = 2107" using len by (simp add: tb_def tb1_def)
  ultimately have t2: "lz_tree (z1\<lparr>text_buf := tb\<rparr>)"
    using z1(2) len by (simp add: lz_tree_def lz_shape_def)
  have "enc_win W (Suc a) (a + 61) (Suc a) (z1\<lparr>text_buf := tb\<rparr>)"
    unfolding enc_win_def using t2 a h' m' z1(4) by simp
  from insert_window [OF this] obtain z2 where
    "InsertNode (Suc a mod 2048) (z1\<lparr>text_buf := tb\<rparr>) = Some z2"
    "enc_win W (Suc a) (a + 61) (Suc (Suc a)) z2" "match_win W (Suc a) (a + 61) z2" by blast
  then show ?thesis
    using z1(1) wr len s by (auto simp: tb1_def)
qed

text \<open>Without a new character the known part of the text ends at \<open>hi\<close>.\<close>

lemma drain_window:
  assumes w: "enc_win W a hi (Suc a) z"
  shows "\<exists>z1. DeleteNode ((a + 60) mod 2048) z = Some z1 \<and> lz_shape z1 \<and>
    (\<exists>z2. InsertNode (Suc a mod 2048) z1 = Some z2 \<and> enc_win W (Suc a) hi (Suc (Suc a)) z2 \<and> match_win W (Suc a) hi z2)"
proof -
  have a: "1988 \<le> a" and h: "holds (text_buf z) W (a - 1988) hi"
    and m: "mirrored (text_buf z) W (a - 1988) hi"
    using w by (simp_all add: enc_win_def)
  obtain z1 where z1: "DeleteNode ((a + 60) mod 2048) z = Some z1" "lz_tree z1" "text_buf z1 = text_buf z"
      "\<forall>x. node z1 x \<longrightarrow> (\<exists>P. Suc a - 1988 \<le> P \<and> P < Suc a \<and> x = P mod 2048)"
    using slide_nodes [OF w] by blast
  have "holds (text_buf z1) W (Suc a - 1988) hi" "mirrored (text_buf z1) W (Suc a - 1988) hi"
    using holds_mono [OF h] mirrored_mono [OF m] z1(3) by simp_all
  then have "enc_win W (Suc a) hi (Suc a) z1"
    unfolding enc_win_def using z1 a by simp
  from insert_window [OF this] z1(1,2) show ?thesis unfolding lz_tree_def by blast
qed

lemma feed_step_more:
  assumes w: "enc_win W a (a + 60) (Suc a) z" and inb: "buffer_inv inb" "unread inb = drop (a + 60) W"
    and more: "a + 60 < length W" "i < n"
  shows "\<exists>z2 inb'. feed_step n (i, (a + 60) mod 2048, a mod 2048, z, inb)
      = Some (Inl (Suc i, (Suc a + 60) mod 2048, Suc a mod 2048, z2, inb')) \<and>
    enc_win W (Suc a) (Suc a + 60) (Suc (Suc a)) z2 \<and> match_win W (Suc a) (Suc a + 60) z2 \<and>
    buffer_inv inb' \<and> unread inb' = drop (Suc a + 60) W"
proof -
  define x where "x = W ! (a + 60)"
  have u: "unread inb = x # drop (Suc (a + 60)) W"
    unfolding x_def Cons_nth_drop_Suc [OF more(1)] by (rule inb(2))
  obtain inb' where inb': "buffer_iterchar inb = Some (Some x, inb')" "buffer_inv inb'"
      "unread inb' = drop (Suc (a + 60)) W"
    using src.get_byte [OF inb(1) u] by blast
  obtain z1 tb z2 where z: "DeleteNode ((a + 60) mod 2048) z = Some z1" "(a + 60) mod 2048 < length (text_buf z1)"
      "(if (a + 60) mod 2048 < LZ_F - 1
        then wr ((a + 60) mod 2048 + LZ_N) x ((text_buf z1)[(a + 60) mod 2048 := x])
        else Some ((text_buf z1)[(a + 60) mod 2048 := x])) = Some tb"
      "InsertNode (Suc a mod 2048) (z1\<lparr>text_buf := tb\<rparr>) = Some z2"
      "enc_win W (Suc a) (a + 61) (Suc (Suc a)) z2" "match_win W (Suc a) (a + 61) z2"
    using feed_window [OF w more(1) x_def [symmetric]] by blast
  have s: "ring (int ((a + 60) mod 2048) + 1) = (Suc a + 60) mod 2048"
    using ring_Suc [of "a + 60"] by simp
  have "feed_step n (i, (a + 60) mod 2048, a mod 2048, z, inb)
      = Some (Inl (Suc i, (Suc a + 60) mod 2048, Suc a mod 2048, z2, inb'))"
    unfolding feed_step_def using more(2) inb'(1) z(1,2,3,4) s ring_Suc [of a]
    by (simp add: wr_in Let_def)
  moreover have "Suc a + 60 = a + 61" "Suc (a + 60) = a + 61" by simp_all
  ultimately show ?thesis using z(5,6) inb'(2,3) by metis
qed

lemma feed_loop:
  assumes "enc_win W a hi (Suc a) z" "hi = min (a + 60) (length W)" "buffer_inv inb" "unread inb = drop hi W" "i \<le> n"
  shows "\<exists>j z' inb'. loop (feed_step n) (i, (a + 60) mod 2048, a mod 2048, z, inb)
      = Some (i + j, (a + j + 60) mod 2048, (a + j) mod 2048, z', inb') \<and> i + j \<le> n \<and>
    hi + j = min (a + j + 60) (length W) \<and> enc_win W (a + j) (hi + j) (Suc (a + j)) z' \<and>
    (if j = 0 then z' = z else match_win W (a + j) (hi + j) z') \<and>
    buffer_inv inb' \<and> unread inb' = drop (hi + j) W \<and> (i + j < n \<longrightarrow> hi + j = length W)"
  using assms
proof (induction "n - i" arbitrary: i a hi z inb)
  case 0
  then have "feed_step n (i, (a + 60) mod 2048, a mod 2048, z, inb) = Some (Inr (i, (a + 60) mod 2048, a mod 2048, z, inb))"
    by (simp add: feed_step_def)
  then have "loop (feed_step n) (i, (a + 60) mod 2048, a mod 2048, z, inb) = Some (i, (a + 60) mod 2048, a mod 2048, z, inb)"
    by (rule loop_exit)
  then show ?case
    using 0 by (intro exI [of _ 0]) simp
next
  case (Suc c)
  have i: "i < n" using Suc.hyps(2) by simp
  show ?case
  proof (cases "a + 60 < length W")
    case False
    then have hi: "hi = length W" using Suc.prems(2) by simp
    then have "buffer_iterchar inb = Some (None, inb)"
      using src.get_end [OF Suc.prems(3)] Suc.prems(4) by simp
    then have "feed_step n (i, (a + 60) mod 2048, a mod 2048, z, inb) = Some (Inr (i, (a + 60) mod 2048, a mod 2048, z, inb))"
      using i by (simp add: feed_step_def)
    then have "loop (feed_step n) (i, (a + 60) mod 2048, a mod 2048, z, inb) = Some (i, (a + 60) mod 2048, a mod 2048, z, inb)"
      by (rule loop_exit)
    then show ?thesis
      using Suc.prems hi by (intro exI [of _ 0]) simp
  next
    case True
    then have hi: "hi = a + 60" using Suc.prems(2) by simp
    obtain z2 inb2 where st: "feed_step n (i, (a + 60) mod 2048, a mod 2048, z, inb)
        = Some (Inl (Suc i, (Suc a + 60) mod 2048, Suc a mod 2048, z2, inb2))"
      and w2: "enc_win W (Suc a) (Suc a + 60) (Suc (Suc a)) z2" and m2: "match_win W (Suc a) (Suc a + 60) z2"
      and b2: "buffer_inv inb2" "unread inb2 = drop (Suc a + 60) W"
      using feed_step_more [OF _ Suc.prems(3) _ True i, of z] Suc.prems(1,4) unfolding hi by blast
    have c: "c = n - Suc i" using Suc.hyps(2) by simp
    have hi2: "Suc a + 60 = min (Suc a + 60) (length W)" using True by simp
    have le: "Suc i \<le> n" using i by simp
    obtain j z' inb' where IH: "loop (feed_step n) (Suc i, (Suc a + 60) mod 2048, Suc a mod 2048, z2, inb2)
        = Some (Suc i + j, (Suc a + j + 60) mod 2048, (Suc a + j) mod 2048, z', inb')" "Suc i + j \<le> n"
        "Suc a + 60 + j = min (Suc a + j + 60) (length W)" "enc_win W (Suc a + j) (Suc a + 60 + j) (Suc (Suc a + j)) z'"
        "if j = 0 then z' = z2 else match_win W (Suc a + j) (Suc a + 60 + j) z'"
        "buffer_inv inb'" "unread inb' = drop (Suc a + 60 + j) W" "Suc i + j < n \<longrightarrow> Suc a + 60 + j = length W"
      using Suc.hyps(1) [OF c w2 hi2 b2 le] by blast
    have "match_win W (Suc a + j) (Suc a + 60 + j) z'"
      using IH(5) m2 by (cases "j = 0") auto
    then show ?thesis
      unfolding loop_next [of "feed_step n", OF st] using IH hi
      by (intro exI [of _ "Suc j"] exI [of _ z'] exI [of _ inb']) (simp add: add.assoc add.left_commute)
  qed
qed

lemma drain_loop:
  assumes "enc_win W a (length W) (Suc a) z" "a + c \<le> length W"
  shows "\<exists>z'. for_up (\<lambda>_. drain_step) i c ((a + 60) mod 2048, a mod 2048, int (length W) - int a, z)
      = Some ((a + c + 60) mod 2048, (a + c) mod 2048, int (length W) - int (a + c), z') \<and> lz_shape z' \<and>
    (a + c < length W \<longrightarrow> enc_win W (a + c) (length W) (Suc (a + c)) z' \<and>
      (if c = 0 then z' = z else match_win W (a + c) (length W) z'))"
  using assms
proof (induction c arbitrary: i a z)
  case 0
  then show ?case by (simp add: enc_win_def lz_tree_def)
next
  case (Suc c)
  obtain z1 z2 where z: "DeleteNode ((a + 60) mod 2048) z = Some z1" "InsertNode (Suc a mod 2048) z1 = Some z2"
      "enc_win W (Suc a) (length W) (Suc (Suc a)) z2" "match_win W (Suc a) (length W) z2" "lz_shape z1"
    using drain_window [OF Suc.prems(1)] by blast
  have s: "ring (int ((a + 60) mod 2048) + 1) = (Suc a + 60) mod 2048"
    using ring_Suc [of "a + 60"] by simp
  have len: "int (length W) - int a - 1 = int (length W) - int (Suc a)" by simp
  define z3 where "z3 = (if int (length W) - int (Suc a) \<noteq> 0 then z2 else z1)"
  have "drain_step ((a + 60) mod 2048, a mod 2048, int (length W) - int a, z)
      = Some ((Suc a + 60) mod 2048, Suc a mod 2048, int (length W) - int (Suc a), z3)"
    unfolding drain_step_def using z(1,2) s ring_Suc [of a] len by (simp add: z3_def Let_def)
  then have step: "for_up (\<lambda>_. drain_step) i (Suc c) ((a + 60) mod 2048, a mod 2048, int (length W) - int a, z)
      = for_up (\<lambda>_. drain_step) (Suc i) c ((Suc a + 60) mod 2048, Suc a mod 2048, int (length W) - int (Suc a), z3)"
    by simp
  show ?case
  proof (cases "Suc a < length W")
    case False
    then have "c = 0" "Suc a = length W" using Suc.prems(2) by simp_all
    then show ?thesis unfolding step using z(5) by (simp add: z3_def)
  next
    case True
    then have z3: "z3 = z2" by (simp add: z3_def)
    have le: "Suc a + c \<le> length W" using Suc.prems(2) by simp
    obtain z' where z': "for_up (\<lambda>_. drain_step) (Suc i) c ((Suc a + 60) mod 2048, Suc a mod 2048, int (length W) - int (Suc a), z2)
        = Some ((Suc a + c + 60) mod 2048, (Suc a + c) mod 2048, int (length W) - int (Suc a + c), z')" "lz_shape z'"
      "Suc a + c < length W \<longrightarrow> enc_win W (Suc a + c) (length W) (Suc (Suc a + c)) z' \<and>
       (if c = 0 then z' = z2 else match_win W (Suc a + c) (length W) z')"
      using Suc.IH [OF z(3) le] by blast
    then show ?thesis
      unfolding step z3 using z(4) by (cases "c = 0") auto
  qed
qed

section \<open>The code of a text\<close>

text \<open>
  What the compressed bits mean, independent of how matches are found: \<open>token W a h n h' bs\<close> says that
  at position \<open>a\<close>, with tree \<open>h\<close>, the bits \<open>bs\<close> stand for the next \<open>n\<close> characters of \<open>W\<close>, and leave
  the tree \<open>h'\<close>.  \<open>coded W a h bs\<close> says that \<open>bs\<close> is a sequence of such tokens up to the end.
\<close>

inductive token :: "u8 list \<Rightarrow> nat \<Rightarrow> huff \<Rightarrow> nat \<Rightarrow> huff \<Rightarrow> bits \<Rightarrow> bool" for W where
  literal: "a < length W \<Longrightarrow> update (unat (W ! a)) h = Some h' \<Longrightarrow>
     token W a h 1 h' (char_code h (unat (W ! a)))"
| copy: "2 < n \<Longrightarrow> n \<le> 60 \<Longrightarrow> a + n \<le> length W \<Longrightarrow> 0 < d \<Longrightarrow> d \<le> 1988 \<Longrightarrow>
     (\<forall>k < n. W ! (a + k) = W ! (a - d + k)) \<Longrightarrow> update (253 + n) h = Some h' \<Longrightarrow>
     token W a h n h' (char_code h (253 + n) @ position_bits (d - 1))"

inductive coded :: "u8 list \<Rightarrow> nat \<Rightarrow> huff \<Rightarrow> bits \<Rightarrow> bool" for W where
  finished: "coded W (length W) h []"
| more: "token W a h n h' bs \<Longrightarrow> coded W (a + n) h' bs' \<Longrightarrow> coded W a h (bs @ bs')"

inductive_cases token_cases: "token W a h n h' bs"
inductive_simps coded_end: "coded W (length W) h bs"

lemma token_progress: "token W a h n h' bs \<Longrightarrow> 0 < n \<and> a + n \<le> length W"
  by (auto elim!: token.cases)

lemma byte_less: "unat (x :: u8) < 256"
  using unsigned_less [of x] by simp

text \<open>The symbols for one token are sent as its bits.\<close>

lemma encode_symbols_token:
  assumes win: "enc_win W a hi (Suc a) z" "match_win W a hi z" and a: "a < hi" "hi \<le> length W"
    and z0: "z0 = (if int (match_length z) > int (hi - a) then z\<lparr>match_length := hi - a\<rparr> else z)"
    and h: "huff_inv h" "freq h ! HR < 4181" and w: "writer_inv io out" and mem: "plenty mem (2 * (dlen out + 6))"
  shows "\<exists>n h' io' out' bs. encode_symbols mem (a mod 2048) z0 h io out = Some (True, z0\<lparr>match_length := n\<rparr>, h', io', out') \<and>
    token W a h n h' bs \<and> a + n \<le> hi \<and> huff_inv h' \<and> freq h' ! HR \<le> freq h ! HR + 1 \<and> writer_inv io' out' \<and>
    written io' out' = written io out @ bs \<and> dlen out' \<le> dlen out + 6"
proof -
  have tree: "huff_tree HT h" using h by (simp add: huff_inv_def)
  have len: "length (text_buf z) = 2107" using win(1) lz_lengths by (simp add: enc_win_def)
  have mem2: "plenty mem (2 * (dlen out + 2))" using mem by (simp add: plenty_def)
  have z0f: "text_buf z0 = text_buf z" "match_position z0 = match_position z"
      "match_length z0 = min (match_length z) (hi - a)"
    using a by (auto simp: z0)
  show ?thesis
  proof (cases "match_length z0 \<le> 2")
    case True
    have "text_buf z ! (a mod 2048) = W ! a"
      using win(1) a by (auto simp: enc_win_def intro: holdsD)
    then have ch: "rd (text_buf z0) (a mod 2048) = Some (W ! a)"
      using len z0f by (simp add: rd_in)
    define c where "c = unat (W ! a)"
    have c: "c < N_CHAR" using byte_less [of "W ! a"] by (simp add: c_def sizes)
    obtain h' where h': "update c h = Some h'" "huff_inv h'" "freq h' ! HR \<le> freq h ! HR + 1"
      using update_inv [OF h(1) c] by blast
    obtain io' out' where e: "EncodeChar mem c h io out = Some (0, h', io', out')" "writer_inv io' out'"
        "written io' out' = written io out @ char_code h c" "dlen out' \<le> dlen out + 2"
      using EncodeChar_written [OF h(1) c w char_code_short [OF tree c h(2)] mem2 h'(1)] by blast
    have "encode_symbols mem (a mod 2048) z0 h io out = Some (True, z0\<lparr>match_length := 1\<rparr>, h', io', out')"
      using True ch e(1) by (simp add: encode_symbols_def lz_sizes c_def)
    moreover have "token W a h 1 h' (char_code h c)"
      unfolding c_def by (rule token.literal) (use a h'(1) in \<open>simp_all add: c_def\<close>)
    ultimately show ?thesis
      using h' e a by (intro exI [of _ 1] exI [of _ h'] exI [of _ io'] exI [of _ out'] exI [of _ "char_code h c"]) simp
  next
    case False
    define n where "n = match_length z0"
    have n: "2 < n" "n \<le> match_length z" "a + n \<le> hi" "n \<le> 60"
    proof -
      have "match_length z \<le> 60" using win(2) by (simp add: match_win_def)
      then show "2 < n" "n \<le> match_length z" "a + n \<le> hi" "n \<le> 60"
        using False a unfolding n_def z0f(3) by linarith+
    qed
    obtain d where d: "0 < d" "d \<le> 1988" "match_position z = d - 1"
        "\<forall>k < match_length z. a + k < hi \<longrightarrow> W ! (a + k) = W ! (a - d + k)"
      using win(2) n by (auto simp: match_win_def)
    have c: "253 + n < N_CHAR" using n by (simp add: sizes)
    obtain h' where h': "update (253 + n) h = Some h'" "huff_inv h'" "freq h' ! HR \<le> freq h ! HR + 1"
      using update_inv [OF h(1) c] by blast
    obtain io1 out1 where e: "EncodeChar mem (253 + n) h io out = Some (0, h', io1, out1)" "writer_inv io1 out1"
        "written io1 out1 = written io out @ char_code h (253 + n)" "dlen out1 \<le> dlen out + 2"
      using EncodeChar_written [OF h(1) c w char_code_short [OF tree c h(2)] mem2 h'(1)] by blast
    have "plenty mem (2 * (dlen out1 + 4))" using mem e(4) by (simp add: plenty_def)
    with EncodePosition_written [OF _ e(2), of "d - 1"] d(2) obtain io2 out2 where
      p: "EncodePosition mem (of_nat (d - 1)) io1 out1 = Some (0, io2, out2)" "writer_inv io2 out2"
        "written io2 out2 = written io1 out1 @ position_bits (d - 1)" "dlen out2 \<le> dlen out1 + 4"
      using less_imp_diff_less [of d 4096 1] by fastforce
    have "encode_symbols mem (a mod 2048) z0 h io out = Some (True, z0, h', io2, out2)"
      using False e(1) p(1) d(3) by (simp add: encode_symbols_def lz_sizes n_def z0f(2))
    then have "encode_symbols mem (a mod 2048) z0 h io out = Some (True, z0\<lparr>match_length := n\<rparr>, h', io2, out2)"
      by (simp add: n_def)
    moreover have "token W a h n h' (char_code h (253 + n) @ position_bits (d - 1))"
      by (rule token.copy) (use n a d h' in auto)
    ultimately show ?thesis
      using h' e p n
      by (intro exI [of _ n] exI [of _ h'] exI [of _ io2] exI [of _ out2]
          exI [of _ "char_code h (253 + n) @ position_bits (d - 1)"]) simp
  qed
qed

section \<open>The encoder\<close>

definition enc_inv :: "mem \<Rightarrow> u8 list \<Rightarrow> nat \<Rightarrow> codec \<Rightarrow> buffer \<Rightarrow> buffer \<Rightarrow> bool" where
  "enc_inv mem W a g inb out \<longleftrightarrow>
     (let hi = min (a + 60) (length W) in
      a < length W \<and> enc_win W a hi (Suc a) (lz g) \<and> match_win W a hi (lz g) \<and>
      buffer_inv inb \<and> unread inb = drop hi W \<and> huff_inv (hf g) \<and> writer_inv (bio g) out \<and>
      freq (hf g) ! HR + (length W - a) \<le> 4181 \<and> plenty mem (2 * (dlen out + 6 * (length W - a) + 1)))"

abbreviation enc_state :: "u8 list \<Rightarrow> nat \<Rightarrow> codec \<Rightarrow> buffer \<Rightarrow> buffer \<Rightarrow> nat \<times> nat \<times> int \<times> codec \<times> buffer \<times> buffer" where
  "enc_state W a g inb out \<equiv> ((a + 60) mod 2048, a mod 2048, int (min (a + 60) (length W) - a), g, inb, out)"

lemma encode_step_token:
  assumes inv: "enc_inv mem W a g inb out"
  shows "\<exists>n g' inb' out' bs. token W a (hf g) n (hf g') bs \<and>
    written (bio g') out' = written (bio g) out @ bs \<and>
    (if a + n < length W
     then encode_step mem (enc_state W a g inb out) = Some (Inl (enc_state W (a + n) g' inb' out')) \<and>
          enc_inv mem W (a + n) g' inb' out'
     else encode_step mem (enc_state W a g inb out) = Some (Inr (True, g', inb', out')) \<and>
          writer_inv (bio g') out' \<and> plenty mem (2 * (dlen out' + 1)) \<and> codec_shape g')"
proof -
  define hi where "hi = min (a + 60) (length W)"
  have a: "a < length W" "a < hi" "hi \<le> length W" and w: "enc_win W a hi (Suc a) (lz g)" and m: "match_win W a hi (lz g)"
    and inb: "buffer_inv inb" "unread inb = drop hi W" and h: "huff_inv (hf g)" and wr: "writer_inv (bio g) out"
    and f: "freq (hf g) ! HR + (length W - a) \<le> 4181" and mem: "plenty mem (2 * (dlen out + 6 * (length W - a) + 1))"
    using inv unfolding enc_inv_def Let_def hi_def by (blast | simp)+
  have f': "freq (hf g) ! HR < 4181" using f a by linarith
  have "2 * (dlen out + 6) \<le> 2 * (dlen out + 6 * (length W - a) + 1)" using a by simp
  then have mem6: "plenty mem (2 * (dlen out + 6))" using mem by (simp add: plenty_def)
  define z0 where "z0 = (if int (match_length (lz g)) > int (hi - a) then (lz g)\<lparr>match_length := hi - a\<rparr> else lz g)"
  obtain n h' io' out' bs where e: "encode_symbols mem (a mod 2048) z0 (hf g) (bio g) out
        = Some (True, z0\<lparr>match_length := n\<rparr>, h', io', out')"
      "token W a (hf g) n h' bs" "a + n \<le> hi" "huff_inv h'" "freq h' ! HR \<le> freq (hf g) ! HR + 1" "writer_inv io' out'"
      "written io' out' = written (bio g) out @ bs" "dlen out' \<le> dlen out + 6"
    using encode_symbols_token [OF w m a(2,3) z0_def h f' wr mem6] by blast
  have n: "0 < n" "a + n \<le> length W" using token_progress [OF e(2)] by simp_all
  define z1 where "z1 = z0\<lparr>match_length := n\<rparr>"
  have w1: "enc_win W a hi (Suc a) z1"
    using w by (simp add: z1_def z0_def enc_win_def lz_tree_def lz_shape_def)
  obtain j z2 inb' where fd: "loop (feed_step n) (0, (a + 60) mod 2048, a mod 2048, z1, inb)
        = Some (j, (a + j + 60) mod 2048, (a + j) mod 2048, z2, inb')" "j \<le> n"
      "hi + j = min (a + j + 60) (length W)" "enc_win W (a + j) (hi + j) (Suc (a + j)) z2"
      "if j = 0 then z2 = z1 else match_win W (a + j) (hi + j) z2"
      "buffer_inv inb'" "unread inb' = drop (hi + j) W" "j < n \<longrightarrow> hi + j = length W"
    using feed_loop [OF w1 hi_def inb, of 0 n] by auto
  define g3 where "g3 = (\<lambda>z3. g\<lparr>lz := z3, hf := h', bio := io'\<rparr>)"
  have more: "encode_step mem (enc_state W a g inb out) =
      do { (s2, r2, len2, z3) \<leftarrow> for_up (\<lambda>_. drain_step) j (n - j) ((a + j + 60) mod 2048, (a + j) mod 2048, int (hi - a), z2);
           Some (if len2 > 0 then Inl (s2, r2, len2, g3 z3, inb', out') else Inr (True, g3 z3, inb', out')) }"
  proof -
    have z0': "(if int (match_length (lz g)) > int (hi - a) then (lz g)\<lparr>match_length := nat (int (hi - a))\<rparr> else lz g) = z0"
      by (simp add: z0_def)
    show ?thesis
      unfolding encode_step_def hi_def [symmetric] prod.case Let_def z0' e(1) z1_def [symmetric]
      unfolding g3_def using fd(1) by (simp add: z1_def)
  qed
  have mem': "dlen out' + 6 * (length W - (a + n)) \<le> dlen out + 6 * (length W - a)"
    using e(8) n by (simp add: algebra_simps)
  then have "2 * (dlen out' + 6 * (length W - (a + n)) + 1) \<le> 2 * (dlen out + 6 * (length W - a) + 1)"
    by (intro mult_le_mono2 add_le_mono1)
  then have memn: "plenty mem (2 * (dlen out' + 6 * (length W - (a + n)) + 1))"
    using mem le_trans unfolding plenty_def by blast
  have fn: "freq h' ! HR + (length W - (a + n)) \<le> 4181" using f e(5) n by linarith
  obtain z3 where dr: "for_up (\<lambda>_. drain_step) j (n - j) ((a + j + 60) mod 2048, (a + j) mod 2048, int (hi - a), z2)
      = Some ((a + n + 60) mod 2048, (a + n) mod 2048, int (min (a + n + 60) (length W) - (a + n)), z3)"
    and win3: "a + n < length W \<Longrightarrow> enc_win W (a + n) (min (a + n + 60) (length W)) (Suc (a + n)) z3 \<and>
       match_win W (a + n) (min (a + n + 60) (length W)) z3"
    and inb3: "a + n < length W \<Longrightarrow> unread inb' = drop (min (a + n + 60) (length W)) W"
    and sh3: "lz_shape z3"
  proof (cases "j = n")
    case True
    have "for_up (\<lambda>_. drain_step) j (n - j) ((a + j + 60) mod 2048, (a + j) mod 2048, int (hi - a), z2)
      = Some ((a + n + 60) mod 2048, (a + n) mod 2048, int (min (a + n + 60) (length W) - (a + n)), z2)"
      using True fd(3) by simp
    moreover have "match_win W (a + n) (hi + n) z2" using fd(5) True n by simp
    ultimately show ?thesis
      using that [of z2] fd(3,4,7) True by (simp add: enc_win_def lz_tree_def)
  next
    case False
    then have j: "j < n" "hi + j = length W" using fd(2,8) by simp_all
    have len: "int (hi - a) = int (length W) - int (a + j)" using j a by linarith
    have le: "a + j + (n - j) \<le> length W" using j n by simp
    have w2: "enc_win W (a + j) (length W) (Suc (a + j)) z2" using fd(4) j by simp
    obtain z3 where z3: "for_up (\<lambda>_. drain_step) j (n - j) ((a + j + 60) mod 2048, (a + j) mod 2048, int (length W) - int (a + j), z2)
        = Some ((a + n + 60) mod 2048, (a + n) mod 2048, int (length W) - int (a + n), z3)" "lz_shape z3"
      "a + n < length W \<longrightarrow> enc_win W (a + n) (length W) (Suc (a + n)) z3 \<and> match_win W (a + n) (length W) z3"
      using drain_loop [OF w2 le, of j] j by auto
    have hi': "min (a + n + 60) (length W) = length W" using j fd(3) by simp
    have left: "int (length W - (a + n)) = int (length W) - int (a + n)" using n by (simp only: of_nat_diff)
    show ?thesis
    proof (rule that [of z3])
      show "for_up (\<lambda>_. drain_step) j (n - j) ((a + j + 60) mod 2048, (a + j) mod 2048, int (hi - a), z2)
        = Some ((a + n + 60) mod 2048, (a + n) mod 2048, int (min (a + n + 60) (length W) - (a + n)), z3)"
        unfolding hi' left len by (rule z3(1))
    qed (use z3(2,3) fd(7) in \<open>simp_all add: hi' j(2)\<close>)
  qed
  define g' where "g' = g3 z3"
  have g': "hf g' = h'" "bio g' = io'" "lz g' = z3" by (simp_all add: g'_def g3_def)
  show ?thesis
  proof (cases "a + n < length W")
    case True
    have pos: "int (min (a + n + 60) (length W) - (a + n)) > 0" using True by simp
    have "encode_step mem (enc_state W a g inb out) = Some (Inl (enc_state W (a + n) g' inb' out'))"
      unfolding more dr using pos by (simp add: g'_def)
    moreover have "enc_inv mem W (a + n) g' inb' out'"
      using True win3 inb3 fd(6) e memn fn by (simp add: enc_inv_def Let_def g')
    ultimately show ?thesis
      using True e(2,7) g' by (intro exI [of _ n] exI [of _ g'] exI [of _ inb'] exI [of _ out'] exI [of _ bs]) simp
  next
    case False
    then have "int (min (a + n + 60) (length W) - (a + n)) = 0" by simp
    then have "encode_step mem (enc_state W a g inb out) = Some (Inr (True, g', inb', out'))"
      unfolding more dr by (simp add: g'_def)
    moreover have "plenty mem (2 * (dlen out' + 1))" using memn by (simp add: plenty_def)
    ultimately show ?thesis
      using False e(2,4,6,7) sh3 g' by (intro exI [of _ n] exI [of _ g'] exI [of _ inb'] exI [of _ out'] exI [of _ bs])
        (simp add: codec_shape_def huff_inv_def huff_tree_def)
  qed
qed

lemma encode_loop:
  assumes "enc_inv mem W a g inb out"
  shows "\<exists>g' inb' out' bs. loop (encode_step mem) (enc_state W a g inb out) = Some (True, g', inb', out') \<and>
    coded W a (hf g) bs \<and> written (bio g') out' = written (bio g) out @ bs \<and>
    writer_inv (bio g') out' \<and> plenty mem (2 * (dlen out' + 1)) \<and> codec_shape g'"
  using assms
proof (induction "length W - a" arbitrary: a g inb out rule: less_induct)
  case less
  obtain n g1 inb1 out1 bs where st: "token W a (hf g) n (hf g1) bs"
      "written (bio g1) out1 = written (bio g) out @ bs"
      "if a + n < length W
       then encode_step mem (enc_state W a g inb out) = Some (Inl (enc_state W (a + n) g1 inb1 out1)) \<and>
            enc_inv mem W (a + n) g1 inb1 out1
       else encode_step mem (enc_state W a g inb out) = Some (Inr (True, g1, inb1, out1)) \<and>
            writer_inv (bio g1) out1 \<and> plenty mem (2 * (dlen out1 + 1)) \<and> codec_shape g1"
    using encode_step_token [OF less.prems] by blast
  have n: "0 < n" "a + n \<le> length W" using token_progress [OF st(1)] by simp_all
  show ?case
  proof (cases "a + n < length W")
    case True
    have "length W - (a + n) < length W - a" using n True by simp
    then obtain g' inb' out' bs' where IH:
      "loop (encode_step mem) (enc_state W (a + n) g1 inb1 out1) = Some (True, g', inb', out')"
      "coded W (a + n) (hf g1) bs'" "written (bio g') out' = written (bio g1) out1 @ bs'"
      "writer_inv (bio g') out'" "plenty mem (2 * (dlen out' + 1))" "codec_shape g'"
      using less.hyps [of "a + n" g1 inb1 out1] st(3) True by auto
    have "loop (encode_step mem) (enc_state W a g inb out) = loop (encode_step mem) (enc_state W (a + n) g1 inb1 out1)"
      by (rule loop_next) (use st(3) True in simp)
    moreover have "coded W a (hf g) (bs @ bs')" using st(1) IH(2) by (rule coded.more)
    ultimately show ?thesis using IH st(2) by auto
  next
    case False
    then have fin: "a + n = length W" using n by simp
    have "loop (encode_step mem) (enc_state W a g inb out) = Some (True, g1, inb1, out1)"
      by (rule loop_exit) (use st(3) False in simp)
    moreover have "coded W a (hf g) (bs @ [])"
      by (rule coded.more [OF st(1)]) (simp add: fin coded.finished)
    ultimately show ?thesis using st(2,3) False by auto
  qed
qed

section \<open>The whole encoder\<close>

lemma put_header_written:
  assumes "buffer_inv out" "crc io = crc_bytes 0 (contents out)" "plenty mem (2 * (dlen out + length cs))"
  shows "\<exists>out'. put_header mem cs io out = (True, io\<lparr>crc := crc_bytes 0 (contents out')\<rparr>, out') \<and>
    buffer_inv out' \<and> contents out' = contents out @ map ucast cs"
  using assms
proof (induction cs arbitrary: io out)
  case Nil
  then show ?case by (cases io) simp
next
  case (Cons c cs)
  have "plenty mem (2 * Suc (dlen out))" using Cons.prems(3) by (simp add: plenty_def)
  then obtain out1 where o: "crc_fputc mem c io out = (0, io\<lparr>crc := crc_bytes 0 (contents out1)\<rparr>, out1)"
      "buffer_inv out1" "contents out1 = contents out @ [ucast c]"
    using crc_fputc_ok [OF Cons.prems(1,2)] by blast
  have "dlen out1 = Suc (dlen out)"
    using length_contents [OF o(2)] length_contents [OF Cons.prems(1)] o(3) by simp
  then have "plenty mem (2 * (dlen out1 + length cs))" using Cons.prems(3) by simp
  from Cons.IH [OF o(2) _ this, of "io\<lparr>crc := crc_bytes 0 (contents out1)\<rparr>"] o show ?case by auto
qed

definition header :: "nat \<Rightarrow> u8 list" where
  "header n = map ucast (size_bytes (of_nat n))"

lemma length_header [simp]: "length (header n) = 4"
  by (simp add: header_def size_bytes_def)

lemma fill_loop:
  assumes "length tb = 2107" "buffer_inv inb" "len \<le> 60"
  shows "\<exists>tb' inb'. loop (fill_step 1988) (len, tb, inb) = Some (min 60 (len + length (unread inb)), tb', inb') \<and>
    length tb' = 2107 \<and> (\<forall>i < 1988 + len. tb' ! i = tb ! i) \<and>
    (\<forall>k. k < length (unread inb) \<and> len + k < 60 \<longrightarrow> tb' ! (1988 + len + k) = unread inb ! k) \<and>
    buffer_inv inb' \<and> unread inb' = drop (60 - len) (unread inb)"
  using assms
proof (induction "60 - len" arbitrary: len tb inb)
  case 0
  then have "fill_step 1988 (len, tb, inb) = Some (Inr (len, tb, inb))"
    by (simp add: fill_step_def lz_sizes)
  then have "loop (fill_step 1988) (len, tb, inb) = Some (len, tb, inb)" by (rule loop_exit)
  then show ?case using 0 by (intro exI [of _ tb] exI [of _ inb]) simp
next
  case (Suc c)
  have len: "len < 60" using Suc.hyps(2) by simp
  show ?case
  proof (cases rule: src.get_cases [OF Suc.prems(2)])
    case 1
    then have "fill_step 1988 (len, tb, inb) = Some (Inr (len, tb, inb))"
      using len by (simp add: fill_step_def lz_sizes)
    then have "loop (fill_step 1988) (len, tb, inb) = Some (len, tb, inb)" by (rule loop_exit)
    then show ?thesis using Suc.prems 1 len by (intro exI [of _ tb] exI [of _ inb]) simp
  next
    case (2 x inb1)
    have tb1: "wr (1988 + len) x tb = Some (tb[1988 + len := x])"
      using len Suc.prems(1) by (simp add: access_simps)
    have st: "fill_step 1988 (len, tb, inb) = Some (Inl (Suc len, tb[1988 + len := x], inb1))"
      using len 2 tb1 by (simp add: fill_step_def lz_sizes)
    have c: "c = 60 - Suc len" using Suc.hyps(2) by simp
    have l1: "length (tb[1988 + len := x]) = 2107" using Suc.prems(1) by simp
    have "Suc len \<le> 60" using len by simp
    from Suc.hyps(1) [OF c l1 2(3) this] obtain tb' inb' where
      IH: "loop (fill_step 1988) (Suc len, tb[1988 + len := x], inb1) =
           Some (min 60 (Suc len + length (unread inb1)), tb', inb')"
        "length tb' = 2107" "\<forall>i < 1988 + Suc len. tb' ! i = tb[1988 + len := x] ! i"
        "\<forall>k. k < length (unread inb1) \<and> Suc len + k < 60 \<longrightarrow> tb' ! (1988 + Suc len + k) = unread inb1 ! k"
        "buffer_inv inb'" "unread inb' = drop (60 - Suc len) (unread inb1)"
      by blast
    have at: "tb' ! (1988 + len + k) = unread inb ! k" if "k < length (unread inb)" "len + k < 60" for k
    proof (cases k)
      case 0
      then show ?thesis using IH(3) [rule_format, of "1988 + len"] len Suc.prems(1) 2(1) by simp
    next
      case (Suc j)
      then show ?thesis using IH(4) [rule_format, of j] that 2(1) by (simp add: add.assoc)
    qed
    have old: "tb' ! i = tb ! i" if "i < 1988 + len" for i
      using IH(3) [rule_format, of i] that by simp
    have rest: "drop (60 - Suc len) (unread inb1) = drop (60 - len) (unread inb)"
      using len 2(1) by (simp add: Suc_diff_Suc [symmetric])
    show ?thesis
      unfolding loop_next [of "fill_step 1988", OF st] IH(1)
      using IH(2,5,6) at old rest 2(1) by (intro exI [of _ tb'] exI [of _ inb']) simp
  qed
qed

text \<open>The blanks before the text are entered into the trees, then the first position of the text.\<close>

lemma insert_blanks:
  assumes "lz_tree z" "\<forall>x. \<not> node z x"
  shows "\<exists>z'. for_up (\<lambda>i. InsertNode (1988 - i)) 1 60 z = Some z' \<and> lz_tree z' \<and> text_buf z' = text_buf z \<and>
    (\<forall>x. node z' x \<longrightarrow> x < 1988)"
proof -
  define P where "P = (\<lambda>i z'. lz_tree z' \<and> text_buf z' = text_buf z \<and> (\<forall>x. node z' x \<longrightarrow> 1988 - i < x \<and> x < 1988))"
  have "\<exists>z'. for_up (\<lambda>i. InsertNode (1988 - i)) 1 60 z = Some z' \<and> P (1 + 60) z'"
  proof (rule for_up_total [where P = P])
    show "P 1 z" using assms by (simp add: P_def)
    fix i z1 assume i: "1 \<le> i" "i < 1 + 60" and "P i z1"
    then have z1: "lz_tree z1" "text_buf z1 = text_buf z" "\<forall>x. node z1 x \<longrightarrow> 1988 - i < x \<and> x < 1988"
      by (simp_all add: P_def)
    have "1988 - i < LZ_N" "\<not> node z1 (1988 - i)" using i z1(3) by (auto simp: lz_sizes)
    from InsertNode_total [OF z1(1) this] obtain z2 where
      z2: "InsertNode (1988 - i) z1 = Some z2" "lz_tree z2" "text_buf z2 = text_buf z1"
        "\<forall>x. node z2 x \<longrightarrow> node z1 x \<or> x = 1988 - i" by blast
    have "1988 - Suc i < x \<and> x < 1988" if "node z2 x" for x
      using z2(4) z1(3) that i by fastforce
    then show "\<exists>z2. InsertNode (1988 - i) z1 = Some z2 \<and> P (Suc i) z2"
      using z2 z1(2) by (simp add: P_def)
  qed
  then show ?thesis by (auto simp: P_def)
qed

lemma padded_at:
  "i < 1988 \<Longrightarrow> padded m ! i = 32" "k < length m \<Longrightarrow> padded m ! (1988 + k) = m ! k"
  by (simp_all add: padded_def lz_sizes nth_append)

lemma first_window:
  assumes z: "lz_tree z" "\<forall>x. node z x \<longrightarrow> x < 1988"
    and tb: "\<forall>i < 1988. text_buf z ! i = 32" "\<forall>k. k < length m \<and> k < 60 \<longrightarrow> text_buf z ! (1988 + k) = m ! k"
  shows "enc_win (padded m) 1988 (min (1988 + 60) (length (padded m))) 1988 z"
  unfolding enc_win_def
proof (intro conjI allI impI)
  have "text_buf z ! A = padded m ! A" if A: "A < min (1988 + 60) (length (padded m))" for A
  proof (cases "A < 1988")
    case False
    then have "A - 1988 < length m" "A - 1988 < 60" "1988 + (A - 1988) = A"
      using A unfolding length_padded by linarith+
    then show ?thesis using tb(2) padded_at(2) [of "A - 1988" m] by metis
  qed (simp add: tb(1) padded_at)
  then show "holds (text_buf z) (padded m) (1988 - 1988) (min (1988 + 60) (length (padded m)))"
    by (simp add: holds_def)
  show "mirrored (text_buf z) (padded m) (1988 - 1988) (min (1988 + 60) (length (padded m)))"
    unfolding mirrored_def by (intro allI impI) linarith
  fix x assume "node z x"
  then show "\<exists>P\<ge>1988 - 1988. P < 1988 \<and> x = P mod 2048" using z(2) by (intro exI [of _ x]) force
qed (use z in simp_all)

lemma byte_bits_inject: "byte_bits a = byte_bits b \<Longrightarrow> a = b"
proof (rule bit_word_eqI)
  fix n assume eq: "byte_bits a = byte_bits b" and "n < LENGTH(8)"
  then have n: "7 - n < 8" "7 - (7 - n) = n" by simp_all
  have "byte_bits a ! (7 - n) = byte_bits b ! (7 - n)" by (simp only: eq)
  then show "bit a n = bit b n" by (simp only: nth_byte_bits [OF n(1)] n(2))
qed

lemma bytes_bits_prefix: "bytes_bits ys = bytes_bits xs @ B \<Longrightarrow> \<exists>zs. ys = xs @ zs \<and> bytes_bits zs = B"
proof (induction xs arbitrary: ys)
  case Nil
  then show ?case by simp
next
  case (Cons x xs)
  then obtain y ys' where ys: "ys = y # ys'"
    by (cases ys) (auto dest: arg_cong [of _ _ length])
  with Cons.prems have "byte_bits y @ bytes_bits ys' = byte_bits x @ bytes_bits xs @ B" by simp
  then have "byte_bits y = byte_bits x" "bytes_bits ys' = bytes_bits xs @ B" by simp_all
  with Cons.IH byte_bits_inject ys show ?case by auto
qed

text \<open>What \<open>Encode\<close> returns: the length, and behind it the bits of the tokens, filled up to a byte.\<close>

definition compressed :: "huff \<Rightarrow> u8 list \<Rightarrow> u8 list \<Rightarrow> bool" where
  "compressed h m bytes \<longleftrightarrow> (\<exists>body bs n. bytes = header (length m) @ body \<and> n < 8 \<and>
     bytes_bits body = bs @ replicate n False \<and> (m = [] \<and> body = [] \<or> m \<noteq> [] \<and> coded (padded m) 1988 h bs))"

lemma Encode_header:
  assumes mem: "plenty mem n" "32 \<le> n"
  shows "\<exists>out io1 out1. buffer_new mem = Some out \<and>
    put_header mem (size_bytes (of_nat l)) ((bio g)\<lparr>crc := 0, putbuf := 0, putlen := 0\<rparr>) out = (True, io1, out1) \<and>
    writer_inv io1 out1 \<and> written io1 out1 = bytes_bits (header l) \<and> contents out1 = header l \<and> dlen out1 = 4"
proof -
  define io where "io = (bio g)\<lparr>crc := 0, putbuf := 0, putlen := 0\<rparr>"
  obtain out where out: "buffer_new mem = Some out" using buffer_new_plenty [OF mem] by blast
  note fresh = buffer_new_fresh [OF out]
  have "plenty mem (2 * (dlen out + length (size_bytes (of_nat l))))"
    by (rule plenty_le [OF mem(1)]) (use fresh mem(2) in \<open>simp add: size_bytes_def\<close>)
  then obtain out1 where p: "put_header mem (size_bytes (of_nat l)) io out
      = (True, io\<lparr>crc := crc_bytes 0 (contents out1)\<rparr>, out1)" "buffer_inv out1" "contents out1 = header l"
    using put_header_written [of out io mem "size_bytes (of_nat l)"] fresh by (auto simp: io_def header_def)
  moreover have "dlen out1 = 4" using length_contents [OF p(2)] p(3) by simp
  ultimately show ?thesis
    using out by (simp add: io_def writer_inv_def low_clear_def written_def pending_def top_bits_def)
qed

lemma Encode_start:
  assumes shape: "codec_shape g" and m: "m \<noteq> []" "length m \<le> 3867"
    and inb: "buffer_inv inb" "contents inb = m" and out: "writer_inv io out" "dlen out = 4"
    and mem: "plenty mem (12 * length m + 64)"
  shows "\<exists>h z1 tb tb' inb1 z3 z4. StartHuff (hf g) = Some h \<and> InitTree (lz g) = Some z1 \<and>
    for_up (\<lambda>i a. wr i 32 a) 0 1988 (text_buf z1) = Some tb \<and>
    loop (fill_step 1988) (0, tb, buffer_rewind inb) = Some (min 60 (length m), tb', inb1) \<and>
    for_up (\<lambda>i. InsertNode (1988 - i)) 1 60 (z1\<lparr>text_buf := tb'\<rparr>) = Some z3 \<and>
    InsertNode 1988 z3 = Some z4 \<and>
    (\<forall>t. enc_inv mem (padded m) 1988 \<lparr>lz = z4, hf = h, bio = io, textsize = t\<rparr> inb1 out)"
proof -
  obtain h where h: "StartHuff (hf g) = Some h" "huff_inv h" "freq h ! HR = N_CHAR"
    using StartHuff_inv [of "hf g"] shape by (auto simp: codec_shape_def)
  obtain z1 where z1: "InitTree (lz g) = Some z1" "lz_tree z1" "\<forall>x. \<not> node z1 x"
    using InitTree_empty [of "lz g"] shape by (auto simp: codec_shape_def)
  have len: "length (text_buf z1) = 2107" using lz_lengths [OF z1(2)] by simp
  obtain tb where tb: "for_up (\<lambda>i a. wr i 32 a) 0 1988 (text_buf z1) = Some tb" "length tb = 2107"
      "\<forall>i < 1988. tb ! i = 32"
    using for_up_fill [of 0 1988 "text_buf z1" 32] len by auto
  obtain tb' inb1 where f: "loop (fill_step 1988) (0, tb, buffer_rewind inb) = Some (min 60 (length m), tb', inb1)"
      "length tb' = 2107" "\<forall>i < 1988. tb' ! i = tb ! i"
      "\<forall>k. k < length m \<and> k < 60 \<longrightarrow> tb' ! (1988 + k) = m ! k"
      "buffer_inv inb1" "unread inb1 = drop 60 m"
    using fill_loop [OF tb(2), of "buffer_rewind inb" 0] inb by auto
  define z2 where "z2 = z1\<lparr>text_buf := tb'\<rparr>"
  have none: "\<not> node z2 x" for x using z1(3) by (simp add: z2_def)
  have "links K ((!) (lson z1)) ((!) (rson z1)) ((!) (dad z1))" for K
    using lz_links [OF z1(2)] z1(3) by (simp add: links_def keyed_def)
  then have t2: "lz_tree z2" using z1(2) f(2) by (simp add: z2_def lz_tree_def lz_shape_def lz_sizes)
  obtain z3 where z3: "for_up (\<lambda>i. InsertNode (1988 - i)) 1 60 z2 = Some z3" "lz_tree z3"
      "text_buf z3 = tb'" "\<forall>x. node z3 x \<longrightarrow> x < 1988"
    using insert_blanks [OF t2] none by (auto simp: z2_def)
  have "enc_win (padded m) 1988 (min (1988 + 60) (length (padded m))) 1988 z3"
    by (rule first_window) (use z3 f tb in simp_all)
  from insert_window [OF this] obtain z4 where
    z4: "InsertNode 1988 z3 = Some z4" "enc_win (padded m) 1988 (min (1988 + 60) (length (padded m))) (Suc 1988) z4"
      "match_win (padded m) 1988 (min (1988 + 60) (length (padded m))) z4" by auto
  have rest: "unread inb1 = drop (min (1988 + 60) (length (padded m))) (padded m)"
    using f(6) by (simp add: padded_def lz_sizes min_def)
  have "plenty mem (2 * (dlen out + 6 * (length (padded m) - 1988) + 1))"
    by (rule plenty_le [OF mem]) (simp add: out(2) length_padded)
  then have "enc_inv mem (padded m) 1988 \<lparr>lz = z4, hf = h, bio = io, textsize = t\<rparr> inb1 out" for t
    using z4 f(5) rest h out(1) m by (simp add: enc_inv_def Let_def length_padded sizes)
  then show ?thesis using h(1) z1(1) tb(1) f(1) z3(1) z4(1) unfolding z2_def by blast
qed

lemma Encode_written:
  assumes shape: "codec_shape g" and m: "length m \<le> 3867" and inb: "buffer_inv inb" "contents inb = m"
    and mem: "plenty mem (12 * length m + 64)"
  shows "\<exists>out g' inb' h. Encode mem inb g = Some (Some out, g', inb') \<and> buffer_inv out \<and>
    StartHuff (hf g) = Some h \<and> compressed h m (contents out) \<and> crc (bio g') = crc_bytes 0 (contents out) \<and> codec_shape g'"
proof -
  have dl: "dlen inb = length m" using inb by auto
  define n :: u32 where "n = of_nat (length m)"
  define io where "io = (bio g)\<lparr>crc := 0, putbuf := 0, putlen := 0\<rparr>"
  obtain out io1 out1 where hd: "buffer_new mem = Some out" "put_header mem (size_bytes n) io out = (True, io1, out1)"
      "writer_inv io1 out1" "written io1 out1 = bytes_bits (header (length m))" "contents out1 = header (length m)" "dlen out1 = 4"
    using Encode_header [OF mem, of "length m" g] by (auto simp: io_def n_def)
  obtain h0 where h0: "StartHuff (hf g) = Some h0"
    using StartHuff_inv [of "hf g"] shape by (auto simp: codec_shape_def)
  show ?thesis
  proof (cases "m = []")
    case True
    then have "n = 0" by (simp add: n_def)
    then have "Encode mem inb g = Some (Some out1, g\<lparr>bio := io1, textsize := n\<rparr>, inb)"
      using hd(1,2) by (simp add: Encode_def dl n_def [symmetric] io_def [symmetric] Let_def)
    moreover have "compressed h0 m (contents out1)"
      unfolding compressed_def using hd(5) True by (intro exI [of _ "[]"] exI [of _ 0]) simp
    ultimately show ?thesis using hd(3) h0 shape by (auto simp: writer_inv_def codec_shape_def)
  next
    case False
    have n0: "n \<noteq> 0"
    proof -
      have "unat n = length m" using m by (simp add: n_def unat_of_nat)
      with False show ?thesis by auto
    qed
    obtain h z1 tb tb' inb1 z3 z4 where st: "StartHuff (hf g) = Some h" "InitTree (lz g) = Some z1"
        "for_up (\<lambda>i a. wr i 32 a) 0 1988 (text_buf z1) = Some tb"
        "loop (fill_step 1988) (0, tb, buffer_rewind inb) = Some (min 60 (length m), tb', inb1)"
        "for_up (\<lambda>i. InsertNode (1988 - i)) 1 60 (z1\<lparr>text_buf := tb'\<rparr>) = Some z3" "InsertNode 1988 z3 = Some z4"
        "\<forall>t. enc_inv mem (padded m) 1988 \<lparr>lz = z4, hf = h, bio = io1, textsize = t\<rparr> inb1 out1"
      using Encode_start [OF shape False m inb hd(3,6) mem] by blast
    define g1 where "g1 = \<lparr>lz = z4, hf = h, bio = io1, textsize = of_nat (min 60 (length m))\<rparr>"
    have len: "min (1988 + 60) (length (padded m)) - 1988 = min 60 (length m)"
      by (simp add: length_padded min_def)
    have "enc_inv mem (padded m) 1988 g1 inb1 out1" using st(7) by (simp add: g1_def)
    from encode_loop [OF this] obtain g2 inb2 out2 bs where
      lp: "loop (encode_step mem) (enc_state (padded m) 1988 g1 inb1 out1) = Some (True, g2, inb2, out2)"
        "coded (padded m) 1988 h bs" "written (bio g2) out2 = bytes_bits (header (length m)) @ bs"
        "writer_inv (bio g2) out2" "plenty mem (2 * (dlen out2 + 1))" "codec_shape g2"
      using hd(4) by (auto simp: g1_def)
    have lp1: "loop (encode_step mem) (0, 1988, int (min 60 (length m)), g1, inb1, out1) = Some (True, g2, inb2, out2)"
      using lp(1) unfolding len by simp
    obtain io3 out3 k where e: "EncodeEnd mem (bio g2) out2 = (0, io3, out3)" "buffer_inv out3" "k < 8"
        "bytes_bits (contents out3) = bytes_bits (header (length m)) @ bs @ replicate k False"
        "crc io3 = crc_bytes 0 (contents out3)"
      using EncodeEnd_written [OF lp(4), of mem] lp(3,5) by fastforce
    have r: "LZ_N - LZ_F = 1988" by (simp add: lz_sizes)
    have all: "g\<lparr>bio := io1, lz := z4, hf := h, textsize := word_of_nat (min 60 (length m))\<rparr> = g1"
      by (cases g) (simp add: g1_def)
    have "Encode mem inb g = Some (Some out3, g2\<lparr>bio := io3\<rparr>, inb2)"
      unfolding Encode_def dl n_def [symmetric] io_def [symmetric] Let_def r
      using hd(1,2) n0 st(1-6) lp1 e(1) by (simp add: lz_sizes(2) all)
    moreover have "compressed h m (contents out3)"
    proof -
      obtain body where "contents out3 = header (length m) @ body" "bytes_bits body = bs @ replicate k False"
        using bytes_bits_prefix [OF e(4)] by blast
      then show ?thesis unfolding compressed_def using e(3) False lp(2) by blast
    qed
    ultimately show ?thesis using e st(1) lp(6) by (auto simp: codec_shape_def)
  qed
qed

section \<open>The decoder\<close>

definition dec_win :: "u8 list \<Rightarrow> nat \<Rightarrow> u8 list \<Rightarrow> buffer \<Rightarrow> bool" where
  "dec_win W A tb out \<longleftrightarrow> length tb = 2107 \<and> 1988 \<le> A \<and> A \<le> length W \<and> holds tb W (A - 2048) A \<and>
     buffer_inv out \<and> contents out = drop 1988 (take A W)"

lemma emit_window:
  assumes d: "dec_win W A tb out" and A: "A < length W" and mem: "plenty mem (2 * length W)"
  shows "\<exists>tb' out'. emit mem (W ! A) (A mod 2048) tb out = Some (True, Suc A mod 2048, tb', out') \<and>
    dec_win W (Suc A) tb' out'"
proof -
  have w: "length tb = 2107" "1988 \<le> A" "holds tb W (A - 2048) A" "buffer_inv out"
      "contents out = drop 1988 (take A W)"
    using d by (simp_all add: dec_win_def)
  have "dlen out = A - 1988"
    using length_contents [OF w(4)] w(2,5) A by simp
  then have "plenty mem (2 * Suc (dlen out))" by (intro plenty_le [OF mem]) (use A w(2) in simp)
  then obtain out' where o: "buffer_addchar mem out (ucast (W ! A)) = (0, out')"
    using buffer_addchar_plenty [OF w(4)] by (metis prod.collapse)
  have o': "buffer_inv out'" "contents out' = contents out @ [W ! A]"
    using buffer_addchar_ok [OF w(4) o] by simp_all
  have "holds (tb[A mod 2048 := W ! A]) W (Suc A - 2048) (Suc A)"
    unfolding holds_def
  proof (intro allI impI)
    fix P assume P: "Suc A - 2048 \<le> P \<and> P < Suc A"
    show "tb[A mod 2048 := W ! A] ! (P mod 2048) = W ! P"
    proof (cases "P = A")
      case True
      then show ?thesis using w(1) mod_less_divisor [of 2048 A] by simp
    next
      case False
      then have "P < A" "A < P + 2048" "A - 2048 \<le> P" using P by linarith+
      then show ?thesis using mod_window [of P A] holdsD [OF w(3)] by simp
    qed
  qed
  moreover have "drop 1988 (take (Suc A) W) = drop 1988 (take A W) @ [W ! A]"
    using A w(2) by (simp add: take_Suc_conv_app_nth)
  ultimately have "dec_win W (Suc A) (tb[A mod 2048 := W ! A]) out'"
    using w A o' by (simp add: dec_win_def)
  moreover have "wr (A mod 2048) (W ! A) tb = Some (tb[A mod 2048 := W ! A])"
    using w(1) mod_less_divisor [of 2048 A] by (simp add: access_simps)
  ultimately show ?thesis using o ring_Suc [of A] by (simp add: emit_def)
qed

lemma copy_window:
  assumes "dec_win W (a + k) tb out" "a + k + n \<le> length W" "1988 \<le> a" "0 < d" "d \<le> 1988"
    and "\<forall>j < n. W ! (a + k + j) = W ! (a - d + k + j)" and mem: "plenty mem (2 * length W)"
  shows "\<exists>tb' out'. copy_match mem n ((a - d) mod 2048) k ((a + k) mod 2048) tb out
      = Some (True, (a + k + n) mod 2048, tb', out') \<and> dec_win W (a + k + n) tb' out'"
  using assms(1-6)
proof (induction n arbitrary: k tb out)
  case 0
  then show ?case by simp
next
  case (Suc n)
  have w: "length tb = 2107" "holds tb W (a + k - 2048) (a + k)"
    using Suc.prems(1) by (simp_all add: dec_win_def)
  have "tb ! ((a - d + k) mod 2048) = W ! (a - d + k)"
    by (rule holdsD [OF w(2)]) (use Suc.prems in linarith)+
  also have "\<dots> = W ! (a + k)" using Suc.prems(6) [rule_format, of 0] by simp
  finally have c: "rd tb (ring (int ((a - d) mod 2048) + int k)) = Some (W ! (a + k))"
    using w(1) mod_less_divisor [of 2048 "a - d + k"] by (simp only: ring_add) (simp add: access_simps)
  have "a + k < length W" using Suc.prems(2) by simp
  from emit_window [OF Suc.prems(1) this mem] obtain tb1 out1 where
    e: "emit mem (W ! (a + k)) ((a + k) mod 2048) tb out = Some (True, Suc (a + k) mod 2048, tb1, out1)"
      "dec_win W (Suc (a + k)) tb1 out1" by blast
  have "\<forall>j < n. W ! (a + Suc k + j) = W ! (a - d + Suc k + j)"
    using Suc.prems(6) by (metis Suc_less_eq add_Suc_right add_Suc_shift)
  with Suc.IH [of "Suc k" tb1 out1] e(2) Suc.prems(2-5) obtain tb' out' where
    IH: "copy_match mem n ((a - d) mod 2048) (Suc k) (Suc (a + k) mod 2048) tb1 out1
      = Some (True, (a + Suc k + n) mod 2048, tb', out')" "dec_win W (a + Suc k + n) tb' out'"
    by auto
  then show ?case using c e(1) by auto
qed

definition dec_inv :: "u8 list \<Rightarrow> nat \<Rightarrow> bits \<Rightarrow> codec \<Rightarrow> buffer \<Rightarrow> buffer \<Rightarrow> bool" where
  "dec_inv W a bs g inb out \<longleftrightarrow>
     huff_inv (hf g) \<and> reads (bio g) inb bs \<and> dec_win W a (text_buf (lz g)) out"

lemma decode_turn_token:
  assumes inv: "dec_inv W a (bs @ rest) g inb out" and tok: "token W a (hf g) n h' bs"
    and len: "length W < 2 ^ 32" and mem: "plenty mem (2 * length W)"
  shows "\<exists>g' inb' out'. decode_turn mem (of_nat (length W - 1988)) (a - 1988, a mod 2048, g, inb, out)
      = Some (Inl (a + n - 1988, (a + n) mod 2048, g', inb', out')) \<and> dec_inv W (a + n) rest g' inb' out' \<and>
    hf g' = h' \<and> consumed (bio g) inb (bio g') inb' \<and> 8 \<le> unat (getlen (bio g'))"
proof -
  have h: "huff_inv (hf g)" and r: "reads (bio g) inb (bs @ rest)" and w: "dec_win W a (text_buf (lz g)) out"
    using inv by (simp_all add: dec_inv_def)
  have a: "1988 \<le> a" using w by (simp add: dec_win_def)
  have "unat (of_nat (length W - 1988) :: u32) = length W - 1988" using len by (simp add: unat_of_nat)
  moreover have aW: "a < length W" using token_progress [OF tok] by simp
  ultimately have more: "a - 1988 < unat (of_nat (length W - 1988) :: u32)" using a by simp
  from tok show ?thesis
  proof (cases rule: token.cases)
    case literal
    define c where "c = unat (W ! a)"
    have c: "c < N_CHAR" "c < 256" using byte_less [of "W ! a"] by (simp_all add: c_def sizes)
    have up: "update c (hf g) = Some h'" using literal by (simp add: c_def)
    have hi': "huff_inv h'" using update_inv [OF h c(1)] up by auto
    obtain io1 inb1 where d: "DecodeChar (hf g) (bio g) inb = Some (c, h', io1, inb1)" "reads io1 inb1 rest"
        "consumed (bio g) inb io1 inb1" "8 \<le> unat (getlen io1)"
      using DecodeChar_reads [OF h c(1) _ up, of "bio g" inb rest] r literal by (auto simp: c_def)
    have cc: "(of_nat c :: u8) = W ! a" by (simp add: c_def)
    obtain tb' out' where e: "emit mem (W ! a) (a mod 2048) (text_buf (lz g)) out = Some (True, Suc a mod 2048, tb', out')"
        "dec_win W (Suc a) tb' out'"
      using emit_window [OF w aW mem] by blast
    define g' where "g' = g\<lparr>hf := h', bio := io1, lz := (lz g)\<lparr>text_buf := tb'\<rparr>\<rparr>"
    have "decode_turn mem (of_nat (length W - 1988)) (a - 1988, a mod 2048, g, inb, out)
      = Some (Inl (a + n - 1988, (a + n) mod 2048, g', inb1, out'))"
      unfolding decode_turn_def prod.case using more d(1) c(2) cc e(1) a literal
      by (simp add: g'_def Let_def)
    then show ?thesis
      using d e(2) hi' literal by (intro exI [of _ g'] exI [of _ inb1] exI [of _ out']) (simp add: dec_inv_def g'_def)
  next
    case (copy d)
    have c: "253 + n < N_CHAR" "\<not> 253 + n < 256" using copy by (simp_all add: sizes)
    have up: "update (253 + n) (hf g) = Some h'" using copy by simp
    have hi': "huff_inv h'" using update_inv [OF h c(1)] up by auto
    obtain io1 inb1 where d1: "DecodeChar (hf g) (bio g) inb = Some (253 + n, h', io1, inb1)"
        "reads io1 inb1 (position_bits (d - 1) @ rest)"
        "consumed (bio g) inb io1 inb1" "8 \<le> unat (getlen io1)"
      using DecodeChar_reads [OF h c(1) _ up, of "bio g" inb "position_bits (d - 1) @ rest"] r copy by auto
    have "d - 1 < 4096" using copy by simp
    from DecodePosition_reads [OF this d1(2)] obtain io2 inb2 where
      d2: "DecodePosition io1 inb1 = Some (d - 1, io2, inb2)" "reads io2 inb2 rest"
        "consumed io1 inb1 io2 inb2" "8 \<le> unat (getlen io2)" by blast
    have "int (a mod 2048) - int (d - 1) - 1 = int (a mod 2048) - int d" using copy by simp
    then have i: "ring (int (a mod 2048) - int (d - Suc 0) - 1) = (a - d) mod 2048"
      using ring_back [of d a] copy a by simp
    obtain tb' out' where e: "copy_match mem n ((a - d) mod 2048) 0 (a mod 2048) (text_buf (lz g)) out
        = Some (True, (a + n) mod 2048, tb', out')" "dec_win W (a + n) tb' out'"
      using copy_window [of W a 0 "text_buf (lz g)" out n d mem] w copy a mem by auto
    define g' where "g' = g\<lparr>hf := h', bio := io2, lz := (lz g)\<lparr>text_buf := tb'\<rparr>\<rparr>"
    have j: "n + THRESHOLD - 2 = n" "a - 1988 + n = a + n - 1988" using a by (simp_all add: lz_sizes)
    have "decode_turn mem (of_nat (length W - 1988)) (a - 1988, a mod 2048, g, inb, out)
      = Some (Inl (a + n - 1988, (a + n) mod 2048, g', inb2, out'))"
      unfolding decode_turn_def prod.case using more d1(1) d2(1) c(2) a
      by (simp add: g'_def Let_def i j e(1))
    then show ?thesis
      using d1 d2 e(2) hi' consumed_trans [OF d1(3) d2(3)]
      by (intro exI [of _ g'] exI [of _ inb2] exI [of _ out']) (simp add: dec_inv_def g'_def)
  qed
qed

lemma decode_loop:
  assumes "coded W a h bs" "dec_inv W a (bs @ rest) g inb out" "hf g = h"
    and len: "length W < 2 ^ 32" and mem: "plenty mem (2 * length W)"
  shows "\<exists>g' inb' out'. loop (decode_turn mem (of_nat (length W - 1988))) (a - 1988, a mod 2048, g, inb, out)
      = Some (True, g', inb', out') \<and> dec_inv W (length W) rest g' inb' out' \<and>
    consumed (bio g) inb (bio g') inb' \<and>
    (a < length W \<or> 8 \<le> unat (getlen (bio g)) \<longrightarrow> 8 \<le> unat (getlen (bio g')))"
  using assms(1-3)
proof (induction arbitrary: g inb out rule: coded.induct)
  case (finished h)
  have "unat (of_nat (length W - 1988) :: u32) = length W - 1988" using len by (simp add: unat_of_nat)
  then have "decode_turn mem (of_nat (length W - 1988)) (length W - 1988, length W mod 2048, g, inb, out)
      = Some (Inr (True, g, inb, out))"
    by (simp add: decode_turn_def)
  then have "loop (decode_turn mem (of_nat (length W - 1988))) (length W - 1988, length W mod 2048, g, inb, out)
      = Some (True, g, inb, out)"
    by (rule loop_exit)
  with finished show ?case by auto
next
  case (more a h n h' bs bs')
  obtain g1 inb1 out1 where st: "decode_turn mem (of_nat (length W - 1988)) (a - 1988, a mod 2048, g, inb, out)
      = Some (Inl (a + n - 1988, (a + n) mod 2048, g1, inb1, out1))" "dec_inv W (a + n) (bs' @ rest) g1 inb1 out1"
      "hf g1 = h'" "consumed (bio g) inb (bio g1) inb1" "8 \<le> unat (getlen (bio g1))"
    using decode_turn_token [of W a bs "bs' @ rest" g inb out n h' mem] more len mem by auto
  obtain g' inb' out' where IH: "loop (decode_turn mem (of_nat (length W - 1988))) (a + n - 1988, (a + n) mod 2048, g1, inb1, out1)
      = Some (True, g', inb', out')" "dec_inv W (length W) rest g' inb' out'"
      "consumed (bio g1) inb1 (bio g') inb'" "8 \<le> unat (getlen (bio g'))"
    using more.IH [OF st(2,3)] st(5) by auto
  show ?case
    unfolding loop_next [of "decode_turn mem (of_nat (length W - 1988))", OF st(1)] IH(1)
    using IH(2,4) consumed_trans [OF st(4) IH(3)] by blast
qed

section \<open>Both sides start from the same tree\<close>

lemma for_up_rel:
  assumes "R a s t"
    and "\<And>i s t. a \<le> i \<Longrightarrow> i < a + n \<Longrightarrow> R i s t \<Longrightarrow> \<exists>s' t'. f i s = Some s' \<and> f i t = Some t' \<and> R (Suc i) s' t'"
  shows "\<exists>s' t'. for_up f a n s = Some s' \<and> for_up f a n t = Some t' \<and> R (a + n) s' t'"
  using assms
proof (induction n arbitrary: a s t)
  case 0
  then show ?case by simp
next
  case (Suc n)
  obtain s1 t1 where s1: "f a s = Some s1" "f a t = Some t1" "R (Suc a) s1 t1"
    using Suc.prems(2) [of a s t] Suc.prems(1) by auto
  have "\<exists>s' t'. for_up f (Suc a) n s1 = Some s' \<and> for_up f (Suc a) n t1 = Some t' \<and> R (Suc a + n) s' t'"
    by (rule Suc.IH [OF s1(3)]) (rule Suc.prems(2); simp)
  with s1 show ?case by simp
qed

definition same_leaves :: "nat \<Rightarrow> huff \<Rightarrow> huff \<Rightarrow> bool" where
  "same_leaves i h k \<longleftrightarrow> huff_shape h \<and> huff_shape k \<and>
     (\<forall>j < i. freq h ! j = freq k ! j \<and> son h ! j = son k ! j \<and> prnt h ! (j + HT) = prnt k ! (j + HT))"

definition same_nodes :: "nat \<Rightarrow> nat \<times> huff \<Rightarrow> nat \<times> huff \<Rightarrow> bool" where
  "same_nodes j = (\<lambda>(i, h) (i', k). i' = i \<and> i = 2 * (j - N_CHAR) \<and> same_leaves N_CHAR h k \<and>
     (\<forall>l < j. freq h ! l = freq k ! l \<and> son h ! l = son k ! l) \<and> (\<forall>l < i. prnt h ! l = prnt k ! l))"

lemma StartHuff_unique:
  assumes "huff_shape h" "huff_shape k"
  shows "StartHuff h = StartHuff k"
proof -
  define f1 where "f1 = (\<lambda>i (h :: huff). do { f \<leftarrow> wr i 1 (freq h); s \<leftarrow> wr i (i + HT) (son h);
      p \<leftarrow> wr (i + HT) i (prnt h); Some \<lparr>freq = f, prnt = p, son = s\<rparr> })"
  define f2 where "f2 = (\<lambda>j (i, h :: huff). do { f0 \<leftarrow> rd (freq h) i; f1 \<leftarrow> rd (freq h) (i + 1);
      f \<leftarrow> wr j (u32_add f0 f1) (freq h); s \<leftarrow> wr j i (son h); p1 \<leftarrow> wr (i + 1) j (prnt h);
      p \<leftarrow> wr i j p1; Some (i + 2, \<lparr>freq = f, prnt = p, son = s\<rparr>) })"
  define f3 where "f3 = (\<lambda>h2 :: huff. do { f \<leftarrow> wr HT 0xffff (freq h2); p \<leftarrow> wr HR 0 (prnt h2);
      Some (h2\<lparr>freq := f, prnt := p\<rparr>) })"
  have start: "StartHuff h = do { h1 \<leftarrow> for_up f1 0 N_CHAR h; (i, h2) \<leftarrow> for_up f2 N_CHAR (HR + 1 - N_CHAR) (0, h1); f3 h2 }" for h
    unfolding StartHuff_def f1_def f2_def f3_def by (rule refl)
  have "\<exists>h1 k1. for_up f1 0 N_CHAR h = Some h1 \<and> for_up f1 0 N_CHAR k = Some k1 \<and> same_leaves (0 + N_CHAR) h1 k1"
  proof (rule for_up_rel [where R = same_leaves])
    show "same_leaves 0 h k" using assms by (simp add: same_leaves_def)
    fix i s t assume i: "i < 0 + N_CHAR" and "same_leaves i s t"
    then have len: "length (freq s) = 628" "length (prnt s) = 941" "length (son s) = 627"
        "length (freq t) = 628" "length (prnt t) = 941" "length (son t) = 627"
      and eq: "\<forall>j < i. freq s ! j = freq t ! j \<and> son s ! j = son t ! j \<and> prnt s ! (j + 627) = prnt t ! (j + 627)"
      by (simp_all add: same_leaves_def huff_shape_def sizes)
    from i have i': "i < 314" by (simp add: sizes)
    show "\<exists>s' t'. f1 i s = Some s' \<and> f1 i t = Some t' \<and> same_leaves (Suc i) s' t'"
      using i' len eq
      by (auto simp: f1_def access_simps same_leaves_def huff_shape_def sizes nth_list_update less_Suc_eq)
  qed
  then obtain h1 k1 where l: "for_up f1 0 N_CHAR h = Some h1" "for_up f1 0 N_CHAR k = Some k1" "same_leaves N_CHAR h1 k1"
    by auto
  have "\<exists>x y. for_up f2 N_CHAR (HR + 1 - N_CHAR) (0, h1) = Some x \<and>
      for_up f2 N_CHAR (HR + 1 - N_CHAR) (0, k1) = Some y \<and> same_nodes (N_CHAR + (HR + 1 - N_CHAR)) x y"
  proof (rule for_up_rel [where R = same_nodes])
    show "same_nodes N_CHAR (0, h1) (0, k1)" using l(3) by (simp add: same_nodes_def same_leaves_def)
    fix j x y assume j: "N_CHAR \<le> j" "j < N_CHAR + (HR + 1 - N_CHAR)" and R: "same_nodes j x y"
    obtain i s t where xy: "x = (i, s)" "y = (i, t)" using R by (cases x; cases y) (auto simp: same_nodes_def)
    have i: "i = 2 * (j - 314)" and len: "length (freq s) = 628" "length (prnt s) = 941" "length (son s) = 627"
        "length (freq t) = 628" "length (prnt t) = 941" "length (son t) = 627"
      and eq: "\<forall>l < j. freq s ! l = freq t ! l \<and> son s ! l = son t ! l" "\<forall>l < i. prnt s ! l = prnt t ! l"
        "\<forall>l < 314. prnt s ! (l + 627) = prnt t ! (l + 627)"
      using R by (simp_all add: xy same_nodes_def same_leaves_def huff_shape_def sizes)
    have j': "314 \<le> j" "j < 627" using j by (simp_all add: sizes)
    then have i': "i + 1 < j" "i + 1 < 626" "i < j" and ij: "i + 2 = 2 * (Suc j - 314)" using i by simp_all
    define v where "v = u32_add (freq s ! i) (freq s ! (i + 1))"
    define s' where "s' = \<lparr>freq = (freq s)[j := v], prnt = (prnt s)[i + 1 := j, i := j], son = (son s)[j := i]\<rparr>"
    define t' where "t' = \<lparr>freq = (freq t)[j := v], prnt = (prnt t)[i + 1 := j, i := j], son = (son t)[j := i]\<rparr>"
    have v: "u32_add (freq s ! i) (freq s ! Suc i) = v" "u32_add (freq t ! i) (freq t ! Suc i) = v"
      using eq(1) i' by (simp_all add: v_def)
    have st: "f2 j (i, s) = Some (i + 2, s')" "f2 j (i, t) = Some (i + 2, t')"
      using i' j' len by (simp_all add: f2_def access_simps s'_def t'_def v)
    have eqf: "freq s' ! l = freq t' ! l \<and> son s' ! l = son t' ! l" if "l < Suc j" for l
      using eq(1) that len j' by (cases "l = j") (simp_all add: s'_def t'_def)
    have eqp: "prnt s' ! l = prnt t' ! l" if "l < i + 2 \<or> 627 \<le> l \<and> l < 941" for l
    proof (cases "l = i \<or> l = i + 1")
      case True
      then show ?thesis using len i' by (auto simp: s'_def t'_def nth_list_update)
    next
      case False
      then have "prnt s ! l = prnt t ! l"
        using that eq(2) eq(3) [rule_format, of "l - 627"] by auto
      with False show ?thesis by (simp add: s'_def t'_def)
    qed
    have lens: "length (freq s') = 628" "length (prnt s') = 941" "length (son s') = 627"
        "length (freq t') = 628" "length (prnt t') = 941" "length (son t') = 627"
      using len by (simp_all add: s'_def t'_def)
    have "same_nodes (Suc j) (i + 2, s') (i + 2, t')"
      unfolding same_nodes_def same_leaves_def huff_shape_def prod.case
      using eqf eqp ij j' lens by (simp add: sizes)
    then show "\<exists>s' t'. f2 j x = Some s' \<and> f2 j y = Some t' \<and> same_nodes (Suc j) s' t'"
      using st by (auto simp: xy)
  qed
  then obtain i h2 k2 where n: "for_up f2 N_CHAR (HR + 1 - N_CHAR) (0, h1) = Some (i, h2)"
      "for_up f2 N_CHAR (HR + 1 - N_CHAR) (0, k1) = Some (i, k2)" "same_nodes 627 (i, h2) (i, k2)"
    by (auto simp: same_nodes_def sizes)
  have len: "length (freq h2) = 628" "length (prnt h2) = 941" "length (son h2) = 627"
        "length (freq k2) = 628" "length (prnt k2) = 941" "length (son k2) = 627"
      and eq: "\<forall>l < 627. freq h2 ! l = freq k2 ! l \<and> son h2 ! l = son k2 ! l" "\<forall>l < 626. prnt h2 ! l = prnt k2 ! l"
        "\<forall>l < 314. prnt h2 ! (l + 627) = prnt k2 ! (l + 627)"
    using n(3) by (simp_all add: same_nodes_def same_leaves_def huff_shape_def sizes)
  have "(freq h2)[627 := 0xffff] = (freq k2)[627 := 0xffff]"
    by (rule nth_equalityI) (use len eq in \<open>auto simp: nth_list_update\<close>)
  moreover have "(prnt h2)[626 := 0] = (prnt k2)[626 := 0]"
  proof (rule nth_equalityI)
    fix l assume "l < length ((prnt h2)[626 := 0])"
    then show "(prnt h2)[626 := 0] ! l = (prnt k2)[626 := 0] ! l"
      using len eq(2) eq(3) [rule_format, of "l - 627"] by (cases "l < 627") (auto simp: nth_list_update)
  qed (use len in simp)
  moreover have "son h2 = son k2" by (rule nth_equalityI) (use len eq in auto)
  ultimately have "f3 h2 = f3 k2" using len by (simp add: f3_def access_simps sizes)
  then show ?thesis using start l(1,2) n(1,2) by simp
qed

section \<open>Reading back what was compressed\<close>

lemma crc_fgetc_byte:
  assumes "buffer_inv inb" "unread inb = c # cs"
  shows "\<exists>io' inb'. crc_fgetc io inb = Some (Some c, io', inb') \<and> buffer_inv inb' \<and> unread inb' = cs \<and>
    consumed io inb io' inb' \<and> getbuf io' = getbuf io \<and> getlen io' = getlen io"
proof -
  obtain x io' inb' where g: "crc_fgetc io inb = Some (x, io', inb')" "buffer_inv inb'" "consumed io inb io' inb'"
      "getbuf io' = getbuf io" "getlen io' = getlen io"
      "unread inb = (case x of None \<Rightarrow> unread inb' | Some x \<Rightarrow> x # unread inb')" "x = None \<longrightarrow> unread inb = []"
    using crc_fgetc_total [OF assms(1), of io] by blast
  then show ?thesis using assms(2) by (cases x) auto
qed

fun size_value :: "nat \<Rightarrow> u32 \<Rightarrow> u8 list \<Rightarrow> u32" where
  "size_value k t [] = t"
| "size_value k t (c # cs) = size_value (k + 8) (t OR push_bit k (ucast c)) cs"

lemma get_size_bytes:
  assumes "buffer_inv inb" "unread inb = cs @ rest"
  shows "\<exists>io' inb'. get_size (length cs) k t io inb = Some (Some (size_value k t cs), io', inb') \<and> buffer_inv inb' \<and>
    unread inb' = rest \<and> consumed io inb io' inb' \<and> getbuf io' = getbuf io \<and> getlen io' = getlen io"
  using assms
proof (induction cs arbitrary: k t io inb)
  case Nil
  then show ?case by simp
next
  case (Cons c cs)
  obtain io1 inb1 where g: "crc_fgetc io inb = Some (Some c, io1, inb1)" "buffer_inv inb1" "unread inb1 = cs @ rest"
      "consumed io inb io1 inb1" "getbuf io1 = getbuf io" "getlen io1 = getlen io"
    using crc_fgetc_byte [of inb c "cs @ rest" io] Cons.prems by auto
  from Cons.IH [OF g(2,3), of "k + 8" "t OR push_bit k (ucast c)" io1] g consumed_trans [OF g(4)]
  show ?case by auto
qed

lemma size_value_header: "size_value 0 0 (header n) = of_nat n"
proof -
  define w :: u32 where "w = of_nat n"
  define B :: "nat \<Rightarrow> u32" where "B = (\<lambda>k. ucast (ucast (drop_bit k w AND 0xff) :: u8))"
  have B: "bit (B k) i \<longleftrightarrow> i < 8 \<and> bit w (k + i)" for k i
    by (auto simp: B_def bit_simps mask_ff simp flip: take_bit_eq_mask dest: bit_imp_le_length)
  have B0: "ucast (ucast (w AND 0xff) :: u8) = B 0" by (simp add: B_def)
  have val: "size_value 0 0 (header n) = B 0 OR push_bit 8 (B 8) OR push_bit 16 (B 16) OR push_bit 24 (B 24)"
    by (simp add: header_def size_bytes_def w_def [symmetric] B0) (simp add: B_def or.assoc)
  have "bit (B 0 OR push_bit 8 (B 8) OR push_bit 16 (B 16) OR push_bit 24 (B 24)) i = bit w i" if i: "i < LENGTH(32)" for i
  proof -
    have eq: "bit (B 0 OR push_bit 8 (B 8) OR push_bit 16 (B 16) OR push_bit 24 (B 24)) i \<longleftrightarrow>
        bit (B 0) i \<or> 8 \<le> i \<and> bit (B 8) (i - 8) \<or> 16 \<le> i \<and> bit (B 16) (i - 16) \<or> 24 \<le> i \<and> bit (B 24) (i - 24)"
      using i by (auto simp: bit_or_iff bit_push_bit_iff)
    consider "i < 8" | "8 \<le> i" "i < 16" | "16 \<le> i" "i < 24" | "24 \<le> i" "i < 32" using i by force
    then show ?thesis unfolding eq B by cases auto
  qed
  then show ?thesis unfolding val w_def [symmetric] by (rule bit_word_eqI)
qed

lemma Decode_compressed:
  assumes shape: "codec_shape g" and inb: "buffer_inv inb" "compressed h m (unread inb)" and h: "StartHuff (hf g) = Some h"
    and m: "length m < 2 ^ 31" and mem: "plenty mem (2 * length m + 4000)"
  shows "\<exists>out g' inb'. Decode mem inb g = Some (Inr (Some out, g', inb')) \<and> buffer_inv out \<and> contents out = m \<and>
    crc (bio g') = crc_bytes 0 (unread inb)"
proof -
  define n :: u32 where "n = of_nat (length m)"
  define io where "io = (bio g)\<lparr>getbuf := 0, getlen := 0, crc := 0\<rparr>"
  obtain body bs k where c: "unread inb = header (length m) @ body" "k < 8" "bytes_bits body = bs @ replicate k False"
      "m = [] \<and> body = [] \<or> m \<noteq> [] \<and> coded (padded m) 1988 h bs"
    using inb(2) unfolding compressed_def by blast
  obtain io1 inb1 where s: "get_size 4 0 0 io inb = Some (Some n, io1, inb1)" "buffer_inv inb1" "unread inb1 = body"
      "consumed io inb io1 inb1" "getbuf io1 = 0" "getlen io1 = 0"
    using get_size_bytes [OF inb(1) c(1), of 0 0 io] size_value_header by (auto simp: n_def io_def)
  obtain out where o: "buffer_new mem = Some out" using buffer_new_plenty [OF mem] by auto
  have o': "buffer_inv out" "contents out = []" using buffer_new_fresh [OF o] by simp_all
  have n: "unat n = length m" using m by (simp add: n_def unat_of_nat)
  show ?thesis
  proof (cases "m = []")
    case True
    then have "n = 0" by (simp add: n_def)
    then have "Decode mem inb g = Some (Inr (Some out, g\<lparr>bio := io1, textsize := n\<rparr>, inb1))"
      using s(1) o by (simp add: Decode_def io_def Let_def)
    moreover have "crc io1 = crc_bytes 0 (unread inb)"
      using s(3,4) c(1,4) True by (auto simp: consumed_def io_def)
    ultimately show ?thesis using o' True by simp
  next
    case False
    then have cd: "coded (padded m) 1988 h bs" and n0: "n \<noteq> 0" using c(4) n by auto
    have hi: "huff_inv h" using StartHuff_inv [of "hf g"] h shape by (auto simp: codec_shape_def)
    have len: "length (text_buf (lz g)) = 2107" using shape by (simp add: codec_shape_def lz_shape_def lz_sizes)
    obtain tb where tb: "for_up (\<lambda>i a. wr i 32 a) 0 1988 (text_buf (lz g)) = Some tb" "length tb = 2107"
        "\<forall>i < 1988. tb ! i = 32"
      using for_up_fill [of 0 1988 "text_buf (lz g)" 32] len by auto
    define g2 where "g2 = g\<lparr>bio := io1, textsize := n, hf := h, lz := (lz g)\<lparr>text_buf := tb\<rparr>\<rparr>"
    have rd: "reads io1 inb1 (bs @ replicate k False)"
      using s c(3) by (simp add: reads_def low_clear_def top_bits_def exI [of _ 0])
    have "holds tb (padded m) 0 1988" using tb(3) by (simp add: holds_def padded_at)
    then have "dec_win (padded m) 1988 tb out"
      using tb o' by (simp add: dec_win_def length_padded)
    then have di: "dec_inv (padded m) 1988 (bs @ replicate k False) g2 inb1 out"
      using hi rd by (simp add: dec_inv_def g2_def)
    have W: "length (padded m) < 2 ^ 32" "length (padded m) - 1988 = length m" using m by (simp_all add: length_padded)
    have "plenty mem (2 * length (padded m))" by (rule plenty_le [OF mem]) (simp add: length_padded)
    from decode_loop [OF cd di _ W(1) this] obtain g3 inb2 out2 where
      lp: "loop (decode_turn mem n) (0, 1988, g2, inb1, out) = Some (True, g3, inb2, out2)"
        "dec_inv (padded m) (length (padded m)) (replicate k False) g3 inb2 out2"
        "consumed io1 inb1 (bio g3) inb2" "8 \<le> unat (getlen (bio g3))"
      using False unfolding W(2) n_def [symmetric] by (auto simp: g2_def length_padded)
    have r: "LZ_N - LZ_F = 1988" by (simp add: lz_sizes)
    have "Decode mem inb g = Some (Inr (Some out2, g3, inb2))"
      unfolding Decode_def io_def [symmetric] Let_def r using s(1) o n0 h tb(1) lp(1) by (simp add: g2_def)
    moreover have "unread inb2 = []"
      using reads_exhausted [of "bio g3" inb2 "replicate k False"] lp(2,4) c(2) by (simp add: dec_inv_def)
    then have "crc (bio g3) = crc_bytes 0 (unread inb)"
      using consumed_trans [OF s(4) lp(3)] by (auto simp: consumed_def io_def)
    moreover have "contents out2 = m" "buffer_inv out2"
      using lp(2) by (simp_all add: dec_inv_def dec_win_def) (simp add: padded_def lz_sizes)
    ultimately show ?thesis by simp
  qed
qed

section \<open>The CRC in front\<close>

lemma copy_loop:
  assumes "buffer_inv t" "buffer_inv out" "plenty mem (2 * (dlen out + length (unread t)))"
  shows "\<exists>out'. loop (copy_step mem) (out, t) = Some (True, out') \<and> buffer_inv out' \<and> bpos out' = bpos out \<and>
    contents out' = contents out @ unread t"
  using assms
proof (induction "unread t" arbitrary: t out)
  case Nil
  then have "copy_step mem (out, t) = Some (Inr (True, out))"
    using src.get_end [OF Nil.prems(1)] by (simp add: copy_step_def)
  then have "loop (copy_step mem) (out, t) = Some (True, out)" by (rule loop_exit)
  with Nil show ?case by auto
next
  case (Cons c cs)
  obtain t' where t: "buffer_iterchar t = Some (Some c, t')" "buffer_inv t'" "unread t' = cs"
    using src.get_byte [OF Cons.prems(1) Cons.hyps(2) [symmetric]] by blast
  have "plenty mem (2 * Suc (dlen out))"
    by (rule plenty_le [OF Cons.prems(3)]) (simp add: Cons.hyps(2) [symmetric])
  then obtain out' where o: "buffer_addchar mem out (ucast c) = (0, out')"
    using buffer_addchar_plenty [OF Cons.prems(2)] by (metis prod.collapse)
  have o': "buffer_inv out'" "contents out' = contents out @ [c]" "bpos out' = bpos out"
    using buffer_addchar_ok [OF Cons.prems(2) o] by simp_all
  have st: "copy_step mem (out, t) = Some (Inl (out', t'))" using t(1) o by (simp add: copy_step_def)
  have "dlen out' = Suc (dlen out)"
    using length_contents [OF o'(1)] length_contents [OF Cons.prems(2)] o'(2) by simp
  then have "plenty mem (2 * (dlen out' + length (unread t')))"
    using Cons.prems(3) t(3) by (simp add: Cons.hyps(2) [symmetric])
  from Cons.hyps(1) [OF t(3) [symmetric] t(2) o'(1) this] obtain out'' where
    "loop (copy_step mem) (out', t') = Some (True, out'')" "buffer_inv out''" "bpos out'' = bpos out'" "contents out'' = contents out' @ unread t'"
    by blast
  then show ?case
    unfolding loop_next [of "copy_step mem", OF st] using o'(2,3) t(3) by (simp add: Cons.hyps(2) [symmetric])
qed

text \<open>The longest code of a text of the supported length, from the bounds on single codes.\<close>

lemma token_bits:
  assumes "token W a h n h' bs" "huff_inv h" "freq h ! HR < 4181"
  shows "length bs \<le> 30 \<and> huff_inv h' \<and> freq h' ! HR \<le> freq h ! HR + 1"
  using assms(1)
proof (cases rule: token.cases)
  case literal
  have c: "unat (W ! a) < N_CHAR" using byte_less [of "W ! a"] by (simp add: sizes)
  have "length (char_code h (unat (W ! a))) \<le> 16"
    by (rule char_code_short [OF _ c assms(3)]) (use assms(2) in \<open>simp add: huff_inv_def\<close>)
  then show ?thesis using literal update_inv [OF assms(2) c] by auto
next
  case (copy d)
  have c: "253 + n < N_CHAR" using copy by (simp add: sizes)
  have "length (char_code h (253 + n)) \<le> 16"
    by (rule char_code_short [OF _ c assms(3)]) (use assms(2) in \<open>simp add: huff_inv_def\<close>)
  moreover have "(d - 1) div 64 < 64" using copy by simp
  then have "length (position_bits (d - 1)) \<le> 14"
    using p_len_bounds [of "(d - 1) div 64"] by (simp add: position_bits_def)
  ultimately show ?thesis using copy update_inv [OF assms(2) c] by auto
qed

lemma coded_bits:
  "coded W a h bs \<Longrightarrow> huff_inv h \<Longrightarrow> freq h ! HR + (length W - a) \<le> 4181 \<Longrightarrow> length bs \<le> 30 * (length W - a)"
proof (induction rule: coded.induct)
  case (finished h)
  then show ?case by simp
next
  case (more a h n h' bs bs')
  have n: "0 < n" "a + n \<le> length W" using token_progress [OF more.hyps(1)] by simp_all
  then have "freq h ! HR < 4181" using more.prems(2) by linarith
  note t = token_bits [OF more.hyps(1) more.prems(1) this]
  have "length bs' \<le> 30 * (length W - (a + n))"
    by (rule more.IH) (use t n more.prems(2) in linarith)+
  moreover have "30 * (length W - (a + n)) + 30 \<le> 30 * (length W - a)" using n by linarith
  ultimately show ?case using t unfolding length_append by linarith
qed

lemma compressed_size:
  assumes "compressed h m bytes" "huff_inv h" "freq h ! HR = 314" "length m \<le> 3867"
  shows "length bytes \<le> 4 * length m + 4"
proof -
  obtain body bs n where c: "bytes = header (length m) @ body" "n < 8" "bytes_bits body = bs @ replicate n False"
      "m = [] \<and> body = [] \<or> m \<noteq> [] \<and> coded (padded m) 1988 h bs"
    using assms(1) unfolding compressed_def by blast
  have "length body \<le> 4 * length m"
  proof (cases "m = []")
    case False
    then have "length bs \<le> 30 * length m"
      using coded_bits [of "padded m" 1988 h bs] c(4) assms by (simp add: length_padded)
    moreover have "8 * length body = length bs + n" using arg_cong [OF c(3), of length] by simp
    ultimately show ?thesis using c(2) False by (cases m) auto
  qed (use c(4) in simp)
  then show ?thesis using c(1) by simp
qed

definition crc_low :: "u16 \<Rightarrow> u8" where
  "crc_low c = ucast (c AND 0xff)"

definition crc_high :: "u16 \<Rightarrow> u8" where
  "crc_high c = ucast (drop_bit 8 c AND 0xff)"

lemma crc_split: "(ucast (crc_low c) :: u16) OR push_bit 8 (ucast (crc_high c)) = c"
proof (rule bit_word_eqI)
  fix i assume i: "i < LENGTH(16)"
  have m: "(0xff :: u16) = mask 8" by (simp add: mask_eq_exp_minus_1)
  show "bit ((ucast (crc_low c) :: u16) OR push_bit 8 (ucast (crc_high c))) i = bit c i"
    using i by (cases "i < 8") (auto simp: crc_low_def crc_high_def m bit_simps simp flip: take_bit_eq_mask)
qed

lemma ucast_u32_u8: "(ucast (ucast (c :: u16) :: u32) :: u8) = ucast c"
  by (rule bit_word_eqI) (auto simp: bit_simps)

lemma version_1_Encode_written:
  assumes shape: "codec_shape g" and m: "length m \<le> 3867" and inb: "buffer_inv inb" "contents inb = m"
    and mem: "plenty mem (12 * length m + 64)"
  shows "\<exists>out g' inb' h bytes. version_1_Encode mem inb g = Some (Some out, g', inb') \<and> buffer_inv out \<and>
    bpos out = 0 \<and> contents out = crc_low (crc_bytes 0 bytes) # crc_high (crc_bytes 0 bytes) # bytes \<and>
    StartHuff (hf g) = Some h \<and> compressed h m bytes \<and> codec_shape g'"
proof -
  obtain t g' inb' h where e: "Encode mem inb g = Some (Some t, g', inb')" "buffer_inv t" "StartHuff (hf g) = Some h"
      "compressed h m (contents t)" "crc (bio g') = crc_bytes 0 (contents t)" "codec_shape g'"
    using Encode_written [OF assms] by blast
  have h: "huff_inv h" "freq h ! HR = 314"
    using StartHuff_inv [of "hf g"] e(3) shape by (auto simp: codec_shape_def sizes)
  have size: "length (contents t) \<le> 4 * length m + 4" by (rule compressed_size [OF e(4) h m])
  obtain out where o: "buffer_new mem = Some out" using buffer_new_plenty [OF mem] by auto
  note o' = buffer_new_fresh [OF o]
  define lo where "lo = (ucast (crc (bio g') AND 0xff) :: u32)"
  define hi where "hi = (ucast (drop_bit 8 (crc (bio g')) AND 0xff) :: u32)"
  have "plenty mem (2 * Suc (dlen out))" by (rule plenty_le [OF mem]) (simp add: o')
  then obtain out1 where a: "buffer_addchar mem out lo = (0, out1)"
    using buffer_addchar_plenty [of out mem lo] o' by (metis prod.collapse)
  have a': "buffer_inv out1" "contents out1 = [ucast lo]" "bpos out1 = 0"
    using buffer_addchar_ok [OF _ a] o' by simp_all
  have d1: "dlen out1 = 1" using length_contents [OF a'(1)] a'(2) by simp
  have "plenty mem (2 * Suc (dlen out1))" by (rule plenty_le [OF mem]) (simp add: d1)
  then obtain out2 where b: "buffer_addchar mem out1 hi = (0, out2)"
    using buffer_addchar_plenty [of out1 mem hi] a' by (metis prod.collapse)
  have b': "buffer_inv out2" "contents out2 = [ucast lo, ucast hi]" "bpos out2 = 0"
    using buffer_addchar_ok [OF a'(1) b] a' by simp_all
  have d2: "dlen out2 = 2" using length_contents [OF b'(1)] b'(2) by simp
  have "plenty mem (2 * (dlen out2 + length (unread (buffer_rewind t))))"
    by (rule plenty_le [OF mem]) (use size in \<open>simp add: d2 e(2)\<close>)
  from copy_loop [OF _ b'(1) this] obtain out3 where
    c: "loop (copy_step mem) (out2, buffer_rewind t) = Some (True, out3)" "buffer_inv out3" "bpos out3 = 0"
      "contents out3 = contents out2 @ contents t"
    using e(2) b'(3) by auto
  moreover have "version_1_Encode mem inb g = Some (Some out3, g', inb')"
    using e(1) o a b c(1) by (simp add: version_1_Encode_def lo_def hi_def)
  moreover have "contents out3 = crc_low (crc_bytes 0 (contents t)) # crc_high (crc_bytes 0 (contents t)) # contents t"
    using c(4) b'(2) by (simp add: lo_def hi_def crc_low_def crc_high_def ucast_u32_u8 e(5))
  ultimately show ?thesis using c(2) e(3,4,6) by blast
qed

lemma version_1_Decode_compressed:
  assumes shape: "codec_shape g" and inb: "buffer_inv inb"
      "unread inb = crc_low (crc_bytes 0 bytes) # crc_high (crc_bytes 0 bytes) # bytes"
    and h: "StartHuff (hf g) = Some h" "compressed h m bytes"
    and m: "length m < 2 ^ 31" and mem: "plenty mem (2 * length m + 4000)"
  shows "\<exists>out g' inb'. version_1_Decode mem inb g = Some (Inr (Some out, g', inb')) \<and> buffer_inv out \<and> contents out = m"
proof -
  obtain io1 inb1 where a: "crc_fgetc (bio g) inb = Some (Some (crc_low (crc_bytes 0 bytes)), io1, inb1)" "buffer_inv inb1"
      "unread inb1 = crc_high (crc_bytes 0 bytes) # bytes"
    using crc_fgetc_byte [OF inb] by blast
  obtain io2 inb2 where b: "crc_fgetc io1 inb1 = Some (Some (crc_high (crc_bytes 0 bytes)), io2, inb2)" "buffer_inv inb2"
      "unread inb2 = bytes"
    using crc_fgetc_byte [OF a(2,3)] by blast
  have "codec_shape (g\<lparr>bio := io2\<rparr>)" "StartHuff (hf (g\<lparr>bio := io2\<rparr>)) = Some h" "compressed h m (unread inb2)"
    using shape h b(3) by (simp_all add: codec_shape_def)
  from Decode_compressed [OF this(1) b(2) this(3,2) m mem] obtain out g' inb' where
    "Decode mem inb2 (g\<lparr>bio := io2\<rparr>) = Some (Inr (Some out, g', inb'))" "buffer_inv out" "contents out = m"
    "crc (bio g') = crc_bytes 0 bytes"
    unfolding b(3) by blast
  then show ?thesis
    using a(1) b(1) by (simp add: version_1_Decode_def Let_def crc_split)
qed

section \<open>The decoder on any input\<close>

lemma emit_total:
  assumes "length tb = 2107" "r < 2048" "buffer_inv out"
  shows "\<exists>ok r' tb' out'. emit mem c r tb out = Some (ok, r', tb', out') \<and> length tb' = 2107 \<and> r' < 2048 \<and>
    buffer_inv out' \<and> length (contents out') \<le> Suc (length (contents out))"
proof -
  obtain e out' where a: "buffer_addchar mem out (ucast c) = (e, out')" by fastforce
  show ?thesis
  proof (cases "e = -1")
    case True
    then have "out' = out" using buffer_addchar_fail [OF a] by simp
    with True a assms show ?thesis by (auto simp: emit_def)
  next
    case False
    then have "e = 0" using buffer_addchar_fail [OF a] by blast
    with a have ok: "buffer_addchar mem out (ucast c) = (0, out')" by simp
    have "nat ((int r + 1) mod 2048) < 2048" by simp
    then show ?thesis
      using buffer_addchar_ok [OF assms(3) ok] ok assms by (auto simp: emit_def access_simps ring_mod)
  qed
qed

lemma copy_match_total:
  assumes "length tb = 2107" "r < 2048" "buffer_inv out"
  shows "\<exists>ok r' tb' out'. copy_match mem n i k r tb out = Some (ok, r', tb', out') \<and> length tb' = 2107 \<and> r' < 2048 \<and>
    buffer_inv out' \<and> length (contents out') \<le> n + length (contents out)"
  using assms
proof (induction n arbitrary: k r tb out)
  case 0
  then show ?case by auto
next
  case (Suc n)
  have "ring (int i + int k) < 2048" by (simp add: ring_mod nat_less_iff)
  then have c: "rd tb (ring (int i + int k)) = Some (tb ! ring (int i + int k))"
    using Suc.prems(1) by (simp add: access_simps)
  obtain ok r1 tb1 out1 where e: "emit mem (tb ! ring (int i + int k)) r tb out = Some (ok, r1, tb1, out1)"
      "length tb1 = 2107" "r1 < 2048" "buffer_inv out1" "length (contents out1) \<le> Suc (length (contents out))"
    using emit_total [OF Suc.prems, of mem] by blast
  show ?case
  proof (cases ok)
    case True
    obtain ok' r' tb' out' where "copy_match mem n i (k + 1) r1 tb1 out1 = Some (ok', r', tb', out')"
        "length tb' = 2107" "r' < 2048" "buffer_inv out'" "length (contents out') \<le> n + length (contents out1)"
      using Suc.IH [OF e(2-4), of "k + 1"] by blast
    then show ?thesis using c e True by auto
  next
    case False
    then show ?thesis using c e by auto
  qed
qed

definition dec_safe :: "nat \<times> nat \<times> codec \<times> buffer \<times> buffer \<Rightarrow> bool" where
  "dec_safe = (\<lambda>(count, r, g, inb, out). r < 2048 \<and> huff_inv (hf g) \<and> lz_shape (lz g) \<and>
     (\<exists>bs. reads (bio g) inb bs) \<and> buffer_inv out \<and> length (contents out) \<le> count)"

lemma decode_turn_total:
  assumes "dec_safe (count, r, g, inb, out)" "count \<le> unat n + 59"
  shows "(\<exists>count' r' g' inb' out'. decode_turn mem n (count, r, g, inb, out) = Some (Inl (count', r', g', inb', out')) \<and>
      dec_safe (count', r', g', inb', out') \<and> count < unat n \<and> count < count' \<and> count' \<le> unat n + 59) \<or>
    (\<exists>ok g' inb' out'. decode_turn mem n (count, r, g, inb, out) = Some (Inr (ok, g', inb', out')) \<and>
      codec_shape g' \<and> buffer_inv out' \<and> length (contents out') \<le> unat n + 59)"
proof (cases "count < unat n")
  case False
  then show ?thesis
    using assms by (auto simp: decode_turn_def dec_safe_def codec_shape_def huff_inv_def dest: tree_shape)
next
  case True
  have s: "r < 2048" "huff_inv (hf g)" "lz_shape (lz g)" "buffer_inv out" "length (contents out) \<le> count"
    using assms by (auto simp: dec_safe_def)
  have len: "length (text_buf (lz g)) = 2107" using s(3) by (simp add: lz_shape_def lz_sizes)
  obtain bs where r: "reads (bio g) inb bs" using assms by (auto simp: dec_safe_def)
  obtain c h1 io1 inb1 bs1 where d: "DecodeChar (hf g) (bio g) inb = Some (c, h1, io1, inb1)" "c < N_CHAR" "huff_inv h1"
      "reads io1 inb1 bs1"
    using DecodeChar_total [OF s(2) r] by blast
  have sh: "huff_shape h1" using d(3) tree_shape by (auto simp: huff_inv_def)
  show ?thesis
  proof (cases "c < 256")
    case lit: True
    obtain ok r' tb' out' where e: "emit mem (of_nat c) r (text_buf (lz g)) out = Some (ok, r', tb', out')"
        "length tb' = 2107" "r' < 2048" "buffer_inv out'" "length (contents out') \<le> Suc (length (contents out))"
      using emit_total [OF len s(1,4), of mem "of_nat c"] by blast
    define g2 where "g2 = g\<lparr>hf := h1, bio := io1, lz := (lz g)\<lparr>text_buf := tb'\<rparr>\<rparr>"
    have t: "decode_turn mem n (count, r, g, inb, out)
        = Some (if ok then Inl (count + 1, r', g2, inb1, out') else Inr (False, g2, inb1, out'))"
      using True lit d(1) e(1) by (simp add: decode_turn_def g2_def)
    have z: "lz_shape ((lz g)\<lparr>text_buf := tb'\<rparr>)" using s(3) e(2) by (simp add: lz_shape_def lz_sizes)
    have "dec_safe (count + 1, r', g2, inb1, out')"
      using e s d z by (auto simp: dec_safe_def g2_def)
    moreover have "codec_shape g2" using sh z by (simp add: codec_shape_def g2_def)
    ultimately show ?thesis using t e s True by (cases ok) auto
  next
    case mat: False
    obtain p io2 inb2 bs2 where p: "DecodePosition io1 inb1 = Some (p, io2, inb2)" "reads io2 inb2 bs2"
      using DecodePosition_total [OF d(4)] by blast
    define i where "i = ring (int r - int p - 1)"
    define j where "j = c - 255 + THRESHOLD"
    have j: "0 < j" "j \<le> 60" using d(2) mat by (simp_all add: j_def sizes lz_sizes)
    obtain ok r' tb' out' where e: "copy_match mem j i 0 r (text_buf (lz g)) out = Some (ok, r', tb', out')"
        "length tb' = 2107" "r' < 2048" "buffer_inv out'" "length (contents out') \<le> j + length (contents out)"
      using copy_match_total [OF len s(1,4), of mem j i 0] by blast
    define g2 where "g2 = g\<lparr>hf := h1, bio := io2, lz := (lz g)\<lparr>text_buf := tb'\<rparr>\<rparr>"
    have t: "decode_turn mem n (count, r, g, inb, out)
        = Some (if ok then Inl (count + j, r', g2, inb2, out') else Inr (False, g2, inb2, out'))"
      using True mat d(1) p(1) e(1) by (simp add: decode_turn_def g2_def i_def j_def Let_def)
    have z: "lz_shape ((lz g)\<lparr>text_buf := tb'\<rparr>)" using s(3) e(2) by (simp add: lz_shape_def lz_sizes)
    have "dec_safe (count + j, r', g2, inb2, out')"
      using e s d z p(2) by (auto simp: dec_safe_def g2_def)
    moreover have "codec_shape g2" using sh z by (simp add: codec_shape_def g2_def)
    moreover have "count + j \<le> unat n + 59" using True j by linarith
    ultimately show ?thesis using t e s j True by (cases ok) auto
  qed
qed

lemma decode_loop_total:
  assumes "dec_safe (count, r, g, inb, out)" "count \<le> unat n + 59"
  shows "\<exists>ok g' inb' out'. loop (decode_turn mem n) (count, r, g, inb, out) = Some (ok, g', inb', out') \<and>
    codec_shape g' \<and> buffer_inv out' \<and> length (contents out') \<le> unat n + 59"
proof -
  define I where "I = (\<lambda>s. dec_safe s \<and> fst s \<le> unat n + 59)"
  define Q where "Q = (\<lambda>(ok :: bool, g', inb' :: buffer, out').
    codec_shape g' \<and> buffer_inv out' \<and> length (contents out') \<le> unat n + 59)"
  have "\<exists>x. loop (decode_turn mem n) (count, r, g, inb, out) = Some x \<and> Q x"
  proof (rule loop_total [where I = I and m = "\<lambda>s. unat n + 59 - fst s"])
    show "I (count, r, g, inb, out)" using assms by (simp add: I_def)
    fix s assume I: "I s"
    obtain count r g inb out where s: "s = (count, r, g, inb, out)" by (cases s) auto
    have "dec_safe (count, r, g, inb, out)" "count \<le> unat n + 59" using I by (simp_all add: s I_def)
    from decode_turn_total [OF this, of mem] 
    show "(\<exists>s'. decode_turn mem n s = Some (Inl s') \<and> I s' \<and> unat n + 59 - fst s' < unat n + 59 - fst s) \<or>
        (\<exists>x. decode_turn mem n s = Some (Inr x) \<and> Q x)"
    proof (elim disjE exE conjE)
      fix count' r' g' inb' out'
      assume t: "decode_turn mem n (count, r, g, inb, out) = Some (Inl (count', r', g', inb', out'))"
        and "dec_safe (count', r', g', inb', out')" "count < unat n" "count < count'" "count' \<le> unat n + 59"
      then show ?thesis by (simp add: s I_def)
    next
      fix ok g' inb' out'
      assume "decode_turn mem n (count, r, g, inb, out) = Some (Inr (ok, g', inb', out'))"
        "codec_shape g'" "buffer_inv out'" "length (contents out') \<le> unat n + 59"
      then show ?thesis by (simp add: s Q_def)
    qed
  qed
  then show ?thesis by (auto simp: Q_def)
qed

lemma get_size_total:
  assumes "buffer_inv inb"
  shows "\<exists>x io' inb'. get_size n k t io inb = Some (x, io', inb') \<and> buffer_inv inb' \<and>
    getbuf io' = getbuf io \<and> getlen io' = getlen io \<and> (x = None \<longrightarrow> length (unread inb) < n \<and> unread inb' = []) \<and>
    (x \<noteq> None \<longrightarrow> n \<le> length (unread inb)) \<and> consumed io inb io' inb'"
  using assms
proof (induction n arbitrary: k t io inb)
  case 0
  then show ?case by simp
next
  case (Suc n)
  obtain c io1 inb1 where f: "crc_fgetc io inb = Some (c, io1, inb1)" "buffer_inv inb1" "consumed io inb io1 inb1"
      "getbuf io1 = getbuf io" "getlen io1 = getlen io"
      "unread inb = (case c of None \<Rightarrow> unread inb1 | Some x \<Rightarrow> x # unread inb1)" "c = None \<longrightarrow> unread inb = []"
    using crc_fgetc_total [OF Suc.prems, of io] by blast
  show ?case
  proof (cases c)
    case None
    then show ?thesis using f by simp
  next
    case (Some x)
    obtain y io' inb' where "get_size n (k + 8) (t OR push_bit k (ucast x)) io1 inb1 = Some (y, io', inb')" "buffer_inv inb'"
        "getbuf io' = getbuf io1" "getlen io' = getlen io1"
        "y = None \<longrightarrow> length (unread inb1) < n \<and> unread inb' = []" "y \<noteq> None \<longrightarrow> n \<le> length (unread inb1)"
        "consumed io1 inb1 io' inb'"
      using Suc.IH [OF f(2)] by blast
    then show ?thesis using f Some consumed_trans [OF f(3)] by auto
  qed
qed

text \<open>What \<open>Decode\<close> can return: the size it recovered bounds the text, up to one match.\<close>

lemma Decode_total:
  assumes shape: "codec_shape g" and inb: "buffer_inv inb"
  shows "Decode mem inb g = Some (Inl 1) \<or>
    (\<exists>out g' inb'. Decode mem inb g = Some (Inr (out, g', inb')) \<and> codec_shape g' \<and>
      (case out of None \<Rightarrow> True
       | Some b \<Rightarrow> buffer_inv b \<and> length (contents b) \<le> unat (size_value 0 0 (take 4 (unread inb))) + 59 \<and> 4 \<le> length (unread inb)))"
proof -
  define io where "io = (bio g)\<lparr>getbuf := 0, getlen := 0, crc := 0\<rparr>"
  obtain x io1 inb1 where s: "get_size 4 0 0 io inb = Some (x, io1, inb1)" "buffer_inv inb1"
      "getbuf io1 = 0" "getlen io1 = 0" "x \<noteq> None \<longrightarrow> 4 \<le> length (unread inb)"
    using get_size_total [OF inb, of 4 0 0 io] by (auto simp: io_def)
  have sz: "n = size_value 0 0 (take 4 (unread inb))" if "x = Some n" for n
  proof -
    have l: "length (take 4 (unread inb)) = 4" using s(5) that by simp
    have "unread inb = take 4 (unread inb) @ drop 4 (unread inb)" by simp
    from get_size_bytes [OF inb this, of 0 0 io] show ?thesis using s(1) that unfolding l by auto
  qed
  show ?thesis
  proof (cases x)
    case None
    then show ?thesis using s(1) shape by (simp add: Decode_def io_def codec_shape_def)
  next
    case (Some n)
    define g1 where "g1 = g\<lparr>bio := io1, textsize := n\<rparr>"
    show ?thesis
    proof (cases "buffer_new mem")
      case None
      then show ?thesis using s(1) Some by (simp add: Decode_def io_def)
    next
      case out: (Some out)
      note fresh = buffer_new_fresh [OF out]
      show ?thesis
      proof (cases "n = 0")
        case True
        then have "Decode mem inb g = Some (Inr (Some out, g1, inb1))"
          using s(1) Some out by (simp add: Decode_def io_def g1_def)
        then show ?thesis using s(5) Some shape fresh by (simp add: codec_shape_def g1_def)
      next
        case False
        obtain h where h: "StartHuff (hf g) = Some h" "huff_inv h"
          using StartHuff_inv [of "hf g"] shape by (auto simp: codec_shape_def)
        have len: "length (text_buf (lz g)) = 2107" using shape by (simp add: codec_shape_def lz_shape_def lz_sizes)
        obtain tb where tb: "for_up (\<lambda>i a. wr i 32 a) 0 1988 (text_buf (lz g)) = Some tb" "length tb = 2107"
          using for_up_fill [of 0 1988 "text_buf (lz g)" 32] len by auto
        define g2 where "g2 = g1\<lparr>hf := h, lz := (lz g)\<lparr>text_buf := tb\<rparr>\<rparr>"
        have "reads io1 inb1 (bytes_bits (unread inb1))"
          using s by (simp add: reads_def low_clear_def top_bits_def exI [of _ 0])
        then have "dec_safe (0, 1988, g2, inb1, out)"
          using h shape tb fresh by (auto simp: dec_safe_def g2_def g1_def codec_shape_def lz_shape_def lz_sizes)
        then obtain ok g3 inb2 out2 where lp: "loop (decode_turn mem n) (0, 1988, g2, inb1, out) = Some (ok, g3, inb2, out2)"
            "codec_shape g3" "buffer_inv out2" "length (contents out2) \<le> unat n + 59"
          using decode_loop_total [of 0 1988 g2 inb1 out n mem] by (auto simp: g2_def g1_def)
        have r: "LZ_N - LZ_F = 1988" by (simp add: lz_sizes)
        have "Decode mem inb g = Some (Inr (if ok then Some out2 else None, g3, inb2))"
          unfolding Decode_def io_def [symmetric] Let_def r using s(1) Some out False h(1) tb(1) lp(1) by (simp add: g2_def g1_def)
        then show ?thesis using lp s(5) sz [OF Some] Some by simp
      qed
    qed
  qed
qed

lemma Decode_short:
  assumes "buffer_inv inb" "length (unread inb) < 4"
  shows "\<exists>io' inb'. Decode mem inb g = Some (Inr (None, g\<lparr>bio := io'\<rparr>, inb')) \<and> crc io' = crc_bytes 0 (unread inb)"
proof -
  obtain x io' inb' where s: "get_size 4 0 0 ((bio g)\<lparr>getbuf := 0, getlen := 0, crc := 0\<rparr>) inb = Some (x, io', inb')"
      "x = None \<longrightarrow> unread inb' = []" "x \<noteq> None \<longrightarrow> 4 \<le> length (unread inb)"
      "consumed ((bio g)\<lparr>getbuf := 0, getlen := 0, crc := 0\<rparr>) inb io' inb'"
    using get_size_total [OF assms(1), of 4 0 0 "(bio g)\<lparr>getbuf := 0, getlen := 0, crc := 0\<rparr>"] by blast
  then have "x = None" using assms(2) by (cases x) auto
  then show ?thesis using s by (auto simp: Decode_def consumed_def)
qed

lemma version_1_Decode_defined:
  assumes shape: "codec_shape g" and inb: "buffer_inv inb" "unread inb = c0 # c1 # rest"
  shows "\<exists>inb2 io2. buffer_inv inb2 \<and> unread inb2 = rest \<and> codec_shape (g\<lparr>bio := io2\<rparr>) \<and>
    version_1_Decode mem inb g =
      (case Decode mem inb2 (g\<lparr>bio := io2\<rparr>) of None \<Rightarrow> None
       | Some (Inl e) \<Rightarrow> Some (Inl e)
       | Some (Inr (out, g', inb')) \<Rightarrow>
           (if crc (bio g') \<noteq> (ucast c0 :: u16) OR push_bit 8 (ucast c1)
            then (if out = None then None else Some (Inr (None, g', inb')))
            else Some (Inr (out, g', inb'))))"
proof -
  obtain io1 inb1 where a: "crc_fgetc (bio g) inb = Some (Some c0, io1, inb1)" "buffer_inv inb1" "unread inb1 = c1 # rest"
    using crc_fgetc_byte [OF inb] by blast
  obtain io2 inb2 where b: "crc_fgetc io1 inb1 = Some (Some c1, io2, inb2)" "buffer_inv inb2" "unread inb2 = rest"
    using crc_fgetc_byte [OF a(2,3)] by blast
  show ?thesis
    using shape a(1) b
    by (intro exI [of _ inb2] exI [of _ io2])
      (auto simp: version_1_Decode_def codec_shape_def buffer_free_def split: option.splits sum.splits)
qed

lemma version_1_Decode_shape:
  assumes "codec_shape g" "buffer_inv inb" "unread inb = c0 # c1 # rest"
    and "version_1_Decode mem inb g = Some (Inr (out, g', inb'))"
  shows "codec_shape g'"
proof -
  obtain inb2 io2 where d: "buffer_inv inb2" "codec_shape (g\<lparr>bio := io2\<rparr>)" "version_1_Decode mem inb g =
      (case Decode mem inb2 (g\<lparr>bio := io2\<rparr>) of None \<Rightarrow> None
       | Some (Inl e) \<Rightarrow> Some (Inl e)
       | Some (Inr (out, g', inb')) \<Rightarrow>
           (if crc (bio g') \<noteq> (ucast c0 :: u16) OR push_bit 8 (ucast c1)
            then (if out = None then None else Some (Inr (None, g', inb')))
            else Some (Inr (out, g', inb'))))"
    using version_1_Decode_defined [OF assms(1-3)] by blast
  from Decode_total [OF d(2,1), of mem] assms(4) d(3) show ?thesis
    by (auto split: if_splits)
qed

lemma version_1_Decode_short:
  assumes "buffer_inv inb" "length (unread inb) < 2"
  shows "\<exists>g' inb'. version_1_Decode mem inb g = Some (Inr (None, g', inb'))"
proof (cases rule: src.get_cases [OF assms(1)])
  case 1
  then show ?thesis by (simp add: version_1_Decode_def crc_fgetc_def)
next
  case (2 c inb1)
  then have "unread inb1 = []" using assms(2) by (cases "unread inb1") auto
  then have "buffer_iterchar inb1 = Some (None, inb1)" using src.get_end [OF 2(3)] by simp
  with 2(2) show ?thesis by (simp add: version_1_Decode_def crc_fgetc_def)
qed

section \<open>Properties\<close>

definition static_codec :: codec where
  "static_codec =
     \<lparr>lz = \<lparr>text_buf = replicate (LZ_N + LZ_F - 1) 0, match_position = 0, match_length = 0,
            lson = replicate (LZ_N + 1) 0, rson = replicate (RSONSZE + 1) 0, dad = replicate (LZ_N + 1) 0\<rparr>,
      hf = static_huff,
      bio = \<lparr>crc = 0, putbuf = 0, putlen = 0, codesize = 0, getbuf = 0, getlen = 0\<rparr>,
      textsize = 0\<rparr>"

definition bytes_buffer :: "u8 list \<Rightarrow> buffer" where
  "bytes_buffer xs = \<lparr>alen = length xs, dlen = length xs, bpos = 0, data = map Some xs\<rparr>"

lemma bytes_buffer_inv: "0 < length xs \<Longrightarrow> length xs < 2 ^ 63 \<Longrightarrow> buffer_inv (bytes_buffer xs)"
  and bytes_buffer_contents: "contents (bytes_buffer xs) = xs"
  and bytes_buffer_unread: "unread (bytes_buffer xs) = xs"
  by (simp_all add: bytes_buffer_def buffer_inv_def contents_def unread_def comp_def)

lemma static_codec_shape: "codec_shape static_codec"
  using static_huff_shape by (simp add: codec_shape_def static_codec_def lz_shape_def)

text \<open>
  C1: What \<open>version_1_Encode\<close> produces for a text of at most 3867 bytes, \<open>version_1_Decode\<close> turns
  back into exactly that text, whatever the tables of either side held before; both sides need
  memory in proportion to the text.
\<close>

theorem version_1_round_trip:
  assumes "codec_shape g" and "codec_shape g2" and "length m \<le> 3867"
    and "buffer_inv inb" and "contents inb = m" and "plenty mem (12 * length m + 4000)"
  shows "\<exists>packed g' inb'. version_1_Encode mem inb g = Some (Some packed, g', inb') \<and>
    (\<exists>out g2' inb2. version_1_Decode mem packed g2 = Some (Inr (Some out, g2', inb2)) \<and> contents out = m)"
proof -
  have "plenty mem (12 * length m + 64)" by (rule plenty_le [OF assms(6)]) simp
  from version_1_Encode_written [OF assms(1,3,4,5) this] obtain packed g' inb' h bytes where
    e: "version_1_Encode mem inb g = Some (Some packed, g', inb')" "buffer_inv packed" "bpos packed = 0"
      "contents packed = crc_low (crc_bytes 0 bytes) # crc_high (crc_bytes 0 bytes) # bytes"
      "StartHuff (hf g) = Some h" "compressed h m bytes" by blast
  have h: "StartHuff (hf g2) = Some h"
    using StartHuff_unique [of "hf g" "hf g2"] assms(1,2) e(5) by (simp add: codec_shape_def)
  have u: "unread packed = crc_low (crc_bytes 0 bytes) # crc_high (crc_bytes 0 bytes) # bytes"
    using e(3,4) by (simp add: unread_def)
  have "length m < 2 ^ 31" using assms(3) by simp
  moreover have "plenty mem (2 * length m + 4000)" by (rule plenty_le [OF assms(6)]) simp
  ultimately show ?thesis
    using version_1_Decode_compressed [OF assms(2) e(2) u h e(6)] e(1) by blast
qed

theorem version_1_round_trip_witness:
  "\<exists>packed g' inb'. version_1_Encode (\<lambda>_. True) (bytes_buffer [72, 105]) static_codec
      = Some (Some packed, g', inb') \<and>
    (\<exists>out g2' inb2. version_1_Decode (\<lambda>_. True) packed static_codec = Some (Inr (Some out, g2', inb2)) \<and>
      contents out = [72, 105])"
  by (rule version_1_round_trip [OF static_codec_shape static_codec_shape _ bytes_buffer_inv bytes_buffer_contents plenty_all])
    simp_all

text \<open>
  C6: \<open>Decode\<close> is safe on every input, valid or not, and with every allocator: it reads and writes
  inside its tables, it ends, and it either exits because it gets no output buffer, or returns
  with its tables intact.  A returned text is at most one match longer than the four length bytes say.
\<close>

theorem Decode_safe:
  assumes "codec_shape g" and "buffer_inv inb"
  shows "Decode mem inb g = Some (Inl 1) \<or>
    (\<exists>out g' inb'. Decode mem inb g = Some (Inr (out, g', inb')) \<and> codec_shape g' \<and>
      (case out of None \<Rightarrow> True
       | Some b \<Rightarrow> buffer_inv b \<and> length (contents b) \<le> unat (size_value 0 0 (take 4 (unread inb))) + 59 \<and>
           4 \<le> length (unread inb)))"
  using assms by (rule Decode_total)

theorem Decode_safe_witness:
  "Decode (\<lambda>_. True) (bytes_buffer [9, 0, 0, 0, 255]) static_codec = Some (Inl 1) \<or>
    (\<exists>out g' inb'. Decode (\<lambda>_. True) (bytes_buffer [9, 0, 0, 0, 255]) static_codec
        = Some (Inr (out, g', inb')) \<and> codec_shape g' \<and>
      (case out of None \<Rightarrow> True
       | Some b \<Rightarrow> buffer_inv b \<and> length (contents b) \<le> unat (size_value 0 0 (take 4 (unread
             (bytes_buffer [9, 0, 0, 0, 255])))) + 59 \<and>
           4 \<le> length (unread (bytes_buffer [9, 0, 0, 0, 255]))))"
  by (rule Decode_safe [OF static_codec_shape bytes_buffer_inv]) simp_all

text \<open>
  C7: \<open>version_1_Encode\<close> never makes a text of at most 3867 bytes longer than four times its length
  and the six bytes of CRC and length.
\<close>

theorem version_1_Encode_bound:
  assumes "codec_shape g" and "length (contents inb) \<le> 3867" and "buffer_inv inb"
    and "plenty mem (12 * length (contents inb) + 64)"
  shows "\<exists>packed g' inb'. version_1_Encode mem inb g = Some (Some packed, g', inb') \<and>
    length (contents packed) \<le> 4 * length (contents inb) + 6"
proof -
  obtain packed g' inb' h bytes where e: "version_1_Encode mem inb g = Some (Some packed, g', inb')"
      "contents packed = crc_low (crc_bytes 0 bytes) # crc_high (crc_bytes 0 bytes) # bytes"
      "StartHuff (hf g) = Some h" "compressed h (contents inb) bytes"
    using version_1_Encode_written [OF assms(1,2,3) refl assms(4)] by blast
  have "huff_inv h" "freq h ! HR = 314"
    using StartHuff_inv [of "hf g"] e(3) assms(1) by (auto simp: codec_shape_def sizes)
  with compressed_size [OF e(4)] assms(2) e(1,2) show ?thesis by auto
qed

theorem version_1_Encode_bound_witness:
  "\<exists>packed g' inb'. version_1_Encode (\<lambda>_. True) (bytes_buffer [65]) static_codec
      = Some (Some packed, g', inb') \<and>
    length (contents packed) \<le> 4 * length (contents (bytes_buffer [65])) + 6"
  by (rule version_1_Encode_bound [OF static_codec_shape _ bytes_buffer_inv plenty_all])
    (simp_all add: bytes_buffer_contents)

text \<open>
  C8: The behaviour of \<open>version_1_Decode\<close> on a truncated file: when fewer than the four length bytes
  follow the CRC and the CRC does not match, the \<open>NULL\<close> that \<open>Decode\<close> returned is passed to
  \<open>buffer_free\<close>, which dereferences it.
\<close>

theorem version_1_Decode_null:
  assumes "codec_shape g" and "buffer_inv inb" and "unread inb = c0 # c1 # rest" and "length rest < 4"
    and "crc_bytes 0 rest \<noteq> (ucast c0 :: u16) OR push_bit 8 (ucast c1)"
  shows "version_1_Decode mem inb g = None"
proof -
  obtain inb2 io2 where v: "buffer_inv inb2" "unread inb2 = rest"
    "version_1_Decode mem inb g =
      (case Decode mem inb2 (g\<lparr>bio := io2\<rparr>) of None \<Rightarrow> None
       | Some (Inl e) \<Rightarrow> Some (Inl e)
       | Some (Inr (out, g', inb')) \<Rightarrow>
           (if crc (bio g') \<noteq> (ucast c0 :: u16) OR push_bit 8 (ucast c1)
            then (if out = None then None else Some (Inr (None, g', inb')))
            else Some (Inr (out, g', inb'))))"
    using version_1_Decode_defined [OF assms(1-3)] by blast
  have "length (unread inb2) < 4" using assms(4) v(2) by simp
  from Decode_short [OF v(1) this, of mem "g\<lparr>bio := io2\<rparr>"] assms(5) v(2,3) show ?thesis by auto
qed

theorem version_1_Decode_null_witness:
  "version_1_Decode (\<lambda>_. True) (bytes_buffer [1, 0]) static_codec = None"
  by (rule version_1_Decode_null [OF static_codec_shape bytes_buffer_inv bytes_buffer_unread]) simp_all

text \<open>
  The position half of a match survives coding: \<open>DecodePosition\<close> reads back every position
  \<open>EncodePosition\<close> can be given, and leaves the bits behind it.
\<close>

lemma position_round_trip:
  assumes "c < 4096" and "writer_inv io out" and "plenty mem (2 * (dlen out + 4))"
  shows "\<exists>io' out'. EncodePosition mem (of_nat c) io out = Some (0, io', out') \<and>
    (\<exists>code. written io' out' = written io out @ code \<and>
      (\<forall>rio inb bs. reads rio inb (code @ bs) \<longrightarrow>
        (\<exists>rio' inb'. DecodePosition rio inb = Some (c, rio', inb') \<and> reads rio' inb' bs)))"
proof -
  obtain io' out' where "EncodePosition mem (of_nat c) io out = Some (0, io', out')"
      "written io' out' = written io out @ position_bits c"
    using EncodePosition_written [OF assms] by blast
  then show ?thesis using DecodePosition_reads [OF assms(1)] by blast
qed

lemma position_round_trip_sample:
  "\<exists>io' out'. EncodePosition (\<lambda>_. True) (of_nat 1000) (bio static_codec) \<lparr>alen = 2, dlen = 0, bpos = 0, data = [None, None]\<rparr>
      = Some (0, io', out') \<and>
    (\<exists>code. written io' out' = written (bio static_codec) \<lparr>alen = 2, dlen = 0, bpos = 0, data = [None, None]\<rparr> @ code \<and>
      (\<forall>rio inb bs. reads rio inb (code @ bs) \<longrightarrow>
        (\<exists>rio' inb'. DecodePosition rio inb = Some (1000, rio', inb') \<and> reads rio' inb' bs)))"
  by (rule position_round_trip)
    (auto simp: writer_inv_def buffer_inv_def contents_def low_clear_def static_codec_def plenty_all)

end
