(* ===== verification/Process.thy ===== *)
theory Process
  imports Wl2mime Lzhuf
begin

text \<open>
  The environment of the protocol code: a process with a connection to a peer, a timer, an outbox
  directory, the store of message ids and sendmail.  A C function with effects is a function from
  the state of the process to its outcome, the value returned or the status given to \<open>exit\<close>, and
  the new state; \<open>None\<close> is undefined behaviour or a run that never ends.

  What the peer sends is the list \<open>inp\<close>; its end is the end of the connection (or the alarm that
  ends a read).  As a property holds for every \<open>inp\<close>, it holds for every peer, also one whose
  bytes depend on what it was sent.  \<open>writes\<close> is the number of output calls that still succeed,
  \<open>None\<close> when all do.
\<close>

section \<open>State\<close>

text \<open>
  The operations of the Berkeley DB library the code calls, on a database of type \<open>'d\<close>: whether it
  can be opened, \<open>get\<close>, \<open>put\<close> with its result, \<open>del\<close>, and the records in the order a cursor visits
  them, with the information whether the cursor ends with \<open>DB_NOTFOUND\<close>.
\<close>

record 'd dbops =
  db_open :: "'d \<Rightarrow> bool"
  db_get :: "'d \<Rightarrow> u8 list \<Rightarrow> u8 list option"
  db_put :: "'d \<Rightarrow> u8 list \<Rightarrow> u8 list \<Rightarrow> int \<times> 'd"
  db_del :: "'d \<Rightarrow> u8 list \<Rightarrow> 'd"
  db_cursor :: "'d \<Rightarrow> (u8 list \<times> u8 list) list \<times> bool"

text \<open>
  The rest of the environment: the outbox is the list of directory entries in the order \<open>readdir\<close> gives
  them, with the contents of the regular files; \<open>unlinkable\<close> says which files \<open>unlink\<close> can remove;
  \<open>time_at\<close> and \<open>random_at\<close> are the results of successive calls of \<open>time\<close> and \<open>random\<close>,
  \<open>initialized\<close> says whether the latter has been seeded; \<open>to_text\<close> is the text the GMime library makes of
  a message; \<open>sendmail\<close> is the status of a delivery command; \<open>creatable\<close> says for a file of the outbox that is
  opened for writing how many bytes \<open>putc\<close> takes and how many of them have reached the file once it is closed; \<open>version\<close> and \<open>sendmail_prefix\<close> come from the configuration of the build.
\<close>

text \<open>The ways \<open>pclose\<close> can report on sendmail.\<close>

datatype mail_status = Mail_ok | Mail_nochild | Mail_error | Mail_failed | Mail_nopipe | Mail_broken

record 'd world =
  inp :: "u8 list"
  outp :: "u8 list"
  writes :: "nat option"
  timeoutsecs :: u32
  alarm :: u32
  timeout_flag :: int
  mem :: mem
  tabs :: codec
  linebuf :: "buffer option"
  outbox_ok :: bool
  outbox :: "(cstr \<times> u8 list option) list"
  unlinkable :: "cstr \<Rightarrow> bool"
  creatable :: "cstr \<Rightarrow> (nat \<times> nat) option"
  dbops :: "'d dbops"
  db :: 'd
  time_at :: "nat \<Rightarrow> 64 word"
  time_calls :: nat
  random_at :: "nat \<Rightarrow> nat"
  random_calls :: nat
  initialized :: bool
  version :: cstr
  to_text :: "gmime_call list \<Rightarrow> cstr"
  sendmail_prefix :: cstr
  sendmail :: "cstr \<Rightarrow> u8 list \<Rightarrow> mail_status"
  mails :: "(cstr \<times> u8 list) list"
  gsendmsgonly_flag :: bool

datatype 'a outcome = Returned 'a | Exited int

type_synonym ('d, 'a) io = "'d world \<Rightarrow> ('a outcome \<times> 'd world) option"

section \<open>Sequencing\<close>

definition ret :: "'a \<Rightarrow> ('d, 'a) io" where
  "ret x = (\<lambda>w. Some (Returned x, w))"

definition exit :: "int \<Rightarrow> ('d, 'a) io" where
  "exit n = (\<lambda>w. Some (Exited n, w))"

definition undefined_behaviour :: "('d, 'a) io" where
  "undefined_behaviour = (\<lambda>w. None)"

definition andthen :: "('d, 'a) io \<Rightarrow> ('a \<Rightarrow> ('d, 'b) io) \<Rightarrow> ('d, 'b) io" where
  "andthen m f = (\<lambda>w. case m w of
     None \<Rightarrow> None
   | Some (Returned x, w') \<Rightarrow> f x w'
   | Some (Exited n, w') \<Rightarrow> Some (Exited n, w'))"

text \<open>A computation that may be undefined, a look at the state, and an update.\<close>

definition defined :: "'a option \<Rightarrow> ('d, 'a) io" where
  "defined x = (case x of None \<Rightarrow> undefined_behaviour | Some y \<Rightarrow> ret y)"

definition look :: "('d world \<Rightarrow> 'a) \<Rightarrow> ('d, 'a) io" where
  "look f = (\<lambda>w. Some (Returned (f w), w))"

definition change :: "('d world \<Rightarrow> 'd world) \<Rightarrow> ('d, unit) io" where
  "change f = (\<lambda>w. Some (Returned (), f w))"

text \<open>A loop: the body goes on with \<open>Inl\<close> of the next state or ends the loop with \<open>Inr\<close>.\<close>

definition io_body :: "('s \<Rightarrow> ('d, 's + 'r) io) \<Rightarrow> 's \<times> 'd world \<Rightarrow>
    (('s \<times> 'd world) + ('r outcome \<times> 'd world)) option" where
  "io_body body = (\<lambda>(s, w). case body s w of
     None \<Rightarrow> None
   | Some (Returned (Inl s'), w') \<Rightarrow> Some (Inl (s', w'))
   | Some (Returned (Inr r), w') \<Rightarrow> Some (Inr (Returned r, w'))
   | Some (Exited n, w') \<Rightarrow> Some (Inr (Exited n, w')))"

definition io_loop :: "('s \<Rightarrow> ('d, 's + 'r) io) \<Rightarrow> 's \<Rightarrow> ('d, 'r) io" where
  "io_loop body s = (\<lambda>w. loop (io_body body) (s, w))"

text \<open>The failure the code answers everywhere with \<open>exit(EXIT_FAILURE)\<close>.\<close>

definition fail :: "('d, 'a) io" where
  "fail = exit 1"

section \<open>The C library and timeout.c\<close>

definition settimeout :: "u32 \<Rightarrow> ('d, unit) io" where
  "settimeout n = change (\<lambda>w. w\<lparr>timeoutsecs := n, alarm := n\<rparr>)"

definition resettimeout :: "('d, unit) io" where
  "resettimeout = change (\<lambda>w. w\<lparr>alarm := timeoutsecs w\<rparr>)"

definition unsettimeout :: "('d, unit) io" where
  "unsettimeout = change (\<lambda>w. w\<lparr>alarm := 0\<rparr>)"

text \<open>The handler of \<open>SIGALRM\<close>; the disconnection of the modem is outside the model.\<close>

definition sigalrm :: "('d, 'a) io" where
  "sigalrm = andthen (change (\<lambda>w. w\<lparr>timeout_flag := 0\<rparr>)) (\<lambda>_. exit 1)"

definition fgetc :: "('d, u8 option) io" where
  "fgetc = (\<lambda>w. case inp w of
     [] \<Rightarrow> Some (Returned None, w)
   | c # cs \<Rightarrow> Some (Returned (Some c), w\<lparr>inp := cs\<rparr>))"

definition ungetc :: "u8 \<Rightarrow> ('d, unit) io" where
  "ungetc c = change (\<lambda>w. w\<lparr>inp := c # inp w\<rparr>)"

text \<open>One output call: it stores everything, or fails.\<close>

definition fprintf :: "u8 list \<Rightarrow> ('d, bool) io" where
  "fprintf bs = (\<lambda>w. case writes w of
     None \<Rightarrow> Some (Returned True, w\<lparr>outp := outp w @ bs\<rparr>)
   | Some 0 \<Rightarrow> Some (Returned False, w)
   | Some (Suc n) \<Rightarrow> Some (Returned True, w\<lparr>writes := Some n, outp := outp w @ bs\<rparr>))"

text \<open>\<open>if (fprintf(...) == -1) exit(EXIT_FAILURE);\<close>, after \<open>resettimeout()\<close>.\<close>

definition fprintf_or_exit :: "u8 list \<Rightarrow> ('d, unit) io" where
  "fprintf_or_exit bs = andthen (fprintf bs) (\<lambda>ok. if ok then ret () else fail)"

definition send :: "u8 list \<Rightarrow> ('d, unit) io" where
  "send bs = andthen resettimeout (\<lambda>_. fprintf_or_exit bs)"

text \<open>\<open>if (asprintf(&sp, ...) == -1) exit(EXIT_FAILURE);\<close> for the text \<open>s\<close>.\<close>

definition asprintf_or_exit :: "cstr \<Rightarrow> ('d, cstr) io" where
  "asprintf_or_exit s = andthen (look mem) (\<lambda>al. if granted al (length s + 1) then ret s else fail)"

definition time_now :: "('d, 64 word) io" where
  "time_now = andthen (look (\<lambda>w. time_at w (time_calls w)))
     (\<lambda>t. andthen (change (\<lambda>w. w\<lparr>time_calls := Suc (time_calls w)\<rparr>)) (\<lambda>_. ret t))"

definition random_next :: "('d, nat) io" where
  "random_next = andthen (look (\<lambda>w. random_at w (random_calls w)))
     (\<lambda>x. andthen (change (\<lambda>w. w\<lparr>random_calls := Suc (random_calls w)\<rparr>)) (\<lambda>_. ret x))"

section \<open>Rules\<close>

lemma andthen_ret [simp]: "andthen (ret x) f = f x"
  by (simp add: andthen_def ret_def)

lemma andthen_exit [simp]: "andthen (exit n) f = exit n"
  by (simp add: andthen_def exit_def)

lemma defined_Some [simp]: "defined (Some x) = ret x"
  by (simp add: defined_def)

lemma andthen_assoc: "andthen (andthen m f) g = andthen m (\<lambda>x. andthen (f x) g)"
  by (auto simp: andthen_def fun_eq_iff split: option.splits outcome.splits prod.splits)

lemma andthen_returned: "m w = Some (Returned x, w') \<Longrightarrow> andthen m f w = f x w'"
  by (simp add: andthen_def)

lemma andthen_Returned:
  "andthen m f w = Some (Returned y, w') \<longleftrightarrow> (\<exists>x v. m w = Some (Returned x, v) \<and> f x v = Some (Returned y, w'))"
  by (auto simp: andthen_def split: option.splits outcome.splits prod.splits)

lemma andthen_exited: "m w = Some (Exited n, w') \<Longrightarrow> andthen m f w = Some (Exited n, w')"
  by (simp add: andthen_def)

text \<open>
  \<open>ends m w Q\<close>: from \<open>w\<close> the computation is defined and ends; when it returns, the value and the
  state satisfy \<open>Q\<close>.
\<close>

definition ends :: "('d, 'a) io \<Rightarrow> 'd world \<Rightarrow> ('a \<Rightarrow> 'd world \<Rightarrow> bool) \<Rightarrow> bool" where
  "ends m w Q \<longleftrightarrow> (\<exists>r w'. m w = Some (r, w') \<and> (\<forall>x. r = Returned x \<longrightarrow> Q x w'))"

named_theorems io_rules \<open>rules for runs that end\<close>

lemma ends_defined: "ends m w Q \<Longrightarrow> m w \<noteq> None"
  by (auto simp: ends_def)

lemma ends_ret [io_rules]: "ends (ret x) w Q \<longleftrightarrow> Q x w"
  by (simp add: ends_def ret_def)

lemma ends_exit [io_rules]: "ends (exit n) w Q"
  by (simp add: ends_def exit_def)

lemma ends_fail [io_rules]: "ends fail w Q"
  by (simp add: fail_def ends_exit)

lemma ends_andthen [io_rules]: "ends (andthen m f) w Q \<longleftrightarrow> ends m w (\<lambda>x w'. ends (f x) w' Q)"
  by (cases "m w") (auto simp: ends_def andthen_def split: outcome.splits prod.splits)

lemma ends_look [io_rules]: "ends (look f) w Q \<longleftrightarrow> Q (f w) w"
  by (simp add: ends_def look_def)

lemma ends_change [io_rules]: "ends (change f) w Q \<longleftrightarrow> Q () (f w)"
  by (simp add: ends_def change_def)

lemma ends_defined_iff [io_rules]: "ends (defined x) w Q \<longleftrightarrow> (\<exists>y. x = Some y \<and> Q y w)"
  by (auto simp: ends_def defined_def ret_def undefined_behaviour_def split: option.splits)

lemma ends_fgetc [io_rules]:
  "ends fgetc w Q \<longleftrightarrow> (case inp w of [] \<Rightarrow> Q None w | c # cs \<Rightarrow> Q (Some c) (w\<lparr>inp := cs\<rparr>))"
  by (auto simp: ends_def fgetc_def split: list.splits)

lemma ends_mono: "ends m w P \<Longrightarrow> (\<And>x w'. P x w' \<Longrightarrow> Q x w') \<Longrightarrow> ends m w Q"
  by (auto simp: ends_def)

text \<open>Output: what changes is the output, its counter and the timer.\<close>

definition sent :: "'d world \<Rightarrow> u8 list \<Rightarrow> 'd world \<Rightarrow> bool" where
  "sent w bs w' \<longleftrightarrow> (\<exists>n t. w' = w\<lparr>outp := outp w @ bs, writes := n, alarm := t\<rparr>)"

lemma sent_trans:
  assumes "sent w a w'" "sent w' b w''"
  shows "sent w (a @ b) w''"
proof -
  obtain n t where "w' = w\<lparr>outp := outp w @ a, writes := n, alarm := t\<rparr>" using assms(1) by (auto simp: sent_def)
  moreover obtain m s where "w'' = w'\<lparr>outp := outp w' @ b, writes := m, alarm := s\<rparr>"
    using assms(2) by (auto simp: sent_def)
  ultimately have "w'' = w\<lparr>outp := outp w @ a @ b, writes := m, alarm := s\<rparr>" by simp
  then show ?thesis unfolding sent_def by blast
qed

lemma ends_fprintf:
  assumes "\<And>w'. sent w bs w' \<Longrightarrow> Q True w'" "Q False w"
  shows "ends (fprintf bs) w Q"
proof -
  have 1: "Q True (w\<lparr>outp := outp w @ bs\<rparr>)" if "writes w = None"
  proof -
    have "sent w bs (w\<lparr>outp := outp w @ bs\<rparr>)"
      unfolding sent_def by (intro exI [of _ "writes w"] exI [of _ "alarm w"]) simp
    then show ?thesis by (rule assms(1))
  qed
  have 2: "Q True (w\<lparr>writes := Some n, outp := outp w @ bs\<rparr>)" for n
  proof -
    have "sent w bs (w\<lparr>writes := Some n, outp := outp w @ bs\<rparr>)"
      unfolding sent_def by (intro exI [of _ "Some n"] exI [of _ "alarm w"]) simp
    then show ?thesis by (rule assms(1))
  qed
  show ?thesis
    using 1 2 assms(2) by (auto simp: ends_def fprintf_def split: option.splits nat.splits)
qed

lemma send_returned:
  "writes w = None \<Longrightarrow> send bs w = Some (Returned (), w\<lparr>alarm := timeoutsecs w, outp := outp w @ bs\<rparr>)"
  by (simp add: send_def resettimeout_def fprintf_or_exit_def fprintf_def andthen_def change_def ret_def)

lemma asprintf_returned: "granted (mem w) (length s + 1) \<Longrightarrow> asprintf_or_exit s w = Some (Returned s, w)"
  by (simp add: asprintf_or_exit_def andthen_def look_def ret_def)

section \<open>Loops\<close>

lemma io_loop_next:
  "body s w = Some (Returned (Inl s'), w') \<Longrightarrow> io_loop body s w = io_loop body s' w'"
  unfolding io_loop_def by (rule loop_next) (simp add: io_body_def)

lemma io_loop_done:
  "body s w = Some (Returned (Inr r), w') \<Longrightarrow> io_loop body s w = Some (Returned r, w')"
  unfolding io_loop_def by (rule loop_exit) (simp add: io_body_def)

lemma io_loop_exit:
  "body s w = Some (Exited n, w') \<Longrightarrow> io_loop body s w = Some (Exited n, w')"
  unfolding io_loop_def by (rule loop_exit) (simp add: io_body_def)

text \<open>Total correctness with an invariant and a measure on the state of the loop and the process.\<close>

lemma ends_io_loop:
  fixes f :: "'s \<Rightarrow> 'd world \<Rightarrow> nat"
  assumes init: "I s w"
    and body: "\<And>s w. I s w \<Longrightarrow>
      ends (body s) w (\<lambda>x w'. case x of Inl s' \<Rightarrow> I s' w' \<and> f s' w' < f s w | Inr r \<Rightarrow> Q r w')"
  shows "ends (io_loop body s) w Q"
proof -
  have "\<exists>r. loop (io_body body) (s, w) = Some r \<and> (\<forall>x. fst r = Returned x \<longrightarrow> Q x (snd r))"
  proof (rule loop_total [where I = "\<lambda>(s, w). I s w" and m = "\<lambda>(s, w). f s w"])
    show "case (s, w) of (s, w) \<Rightarrow> I s w" using init by simp
    fix sw assume "case sw of (s, w) \<Rightarrow> I s w"
    then obtain s w where sw: "sw = (s, w)" "I s w" by (cases sw) auto
    from body [OF sw(2)] obtain r w' where r: "body s w = Some (r, w')"
        "\<And>x. r = Returned x \<Longrightarrow> (case x of Inl s' \<Rightarrow> I s' w' \<and> f s' w' < f s w | Inr r \<Rightarrow> Q r w')"
      by (auto simp: ends_def)
    then show "(\<exists>s'. io_body body sw = Some (Inl s') \<and> (case s' of (s, w) \<Rightarrow> I s w) \<and>
          (case s' of (s, w) \<Rightarrow> f s w) < (case sw of (s, w) \<Rightarrow> f s w)) \<or>
        (\<exists>r. io_body body sw = Some (Inr r) \<and> (\<forall>x. fst r = Returned x \<longrightarrow> Q x (snd r)))"
      by (cases r) (auto simp: io_body_def sw(1) split: sum.splits)
  qed
  then show ?thesis by (auto simp: ends_def io_loop_def)
qed

section \<open>What every run keeps\<close>

text \<open>
  \<open>keeps J P m\<close>: every run of \<open>m\<close> that is defined and ends goes from a state to a state in relation \<open>J\<close>, and
  a value that is returned satisfies \<open>P\<close>.  The rules hold for every preorder \<open>J\<close>.
\<close>

definition keeps :: "('d world \<Rightarrow> 'd world \<Rightarrow> bool) \<Rightarrow> ('a \<Rightarrow> bool) \<Rightarrow> ('d, 'a) io \<Rightarrow> bool" where
  "keeps J P m \<longleftrightarrow> (\<forall>w r w'. m w = Some (r, w') \<longrightarrow> J w w' \<and> (\<forall>x. r = Returned x \<longrightarrow> P x))"

lemma keepsD: "keeps J P m \<Longrightarrow> m w = Some (r, w') \<Longrightarrow> J w w'"
  by (simp add: keeps_def)

lemma keeps_value: "keeps J P m \<Longrightarrow> m w = Some (Returned x, w') \<Longrightarrow> P x"
  by (simp add: keeps_def)

locale run_relation =
  fixes J :: "'d world \<Rightarrow> 'd world \<Rightarrow> bool"
  assumes J_refl: "J w w"
    and J_trans: "J u v \<Longrightarrow> J v w \<Longrightarrow> J u w"
begin

lemma keeps_ret: "P x \<Longrightarrow> keeps J P (ret x)"
  by (simp add: keeps_def ret_def J_refl)

lemma keeps_exit: "keeps J P (exit n)"
  by (simp add: keeps_def exit_def J_refl)

lemma keeps_fail: "keeps J P fail"
  by (simp add: fail_def keeps_exit)

lemma keeps_undefined: "keeps J P undefined_behaviour"
  by (simp add: keeps_def undefined_behaviour_def)

lemma keeps_defined: "(\<And>y. x = Some y \<Longrightarrow> P y) \<Longrightarrow> keeps J P (defined x)"
  by (cases x) (simp_all add: defined_def keeps_ret keeps_undefined)

lemma keeps_look: "(\<And>w. P (f w)) \<Longrightarrow> keeps J P (look f)"
  by (simp add: keeps_def look_def J_refl)

lemma keeps_change: "(\<And>w. J w (f w)) \<Longrightarrow> P () \<Longrightarrow> keeps J P (change f)"
  by (simp add: keeps_def change_def)

lemma keeps_andthen:
  assumes "keeps J Q m" "\<And>x. Q x \<Longrightarrow> keeps J P (f x)"
  shows "keeps J P (andthen m f)"
  unfolding keeps_def
proof (intro allI impI)
  fix w r w' assume "andthen m f w = Some (r, w')"
  then consider (stop) n where "m w = Some (Exited n, w')" "r = Exited n"
    | (go) x v where "m w = Some (Returned x, v)" "f x v = Some (r, w')"
    by (auto simp: andthen_def split: option.splits outcome.splits prod.splits)
  then show "J w w' \<and> (\<forall>x. r = Returned x \<longrightarrow> P x)"
  proof cases
    case stop
    then show ?thesis using keepsD [OF assms(1)] by simp
  next
    case go
    then have "J w v" "J v w'" "\<forall>x. r = Returned x \<longrightarrow> P x"
      using assms unfolding keeps_def by blast+
    then show ?thesis using J_trans by blast
  qed
qed

lemma keeps_then: "keeps J (\<lambda>_. True) m \<Longrightarrow> (\<And>x. keeps J P (f x)) \<Longrightarrow> keeps J P (andthen m f)"
  by (rule keeps_andthen) auto

lemma keeps_io_loop:
  assumes "I s" "\<And>s. I s \<Longrightarrow> keeps J (case_sum I P) (body s)"
  shows "keeps J P (io_loop body s)"
  unfolding keeps_def
proof (intro allI impI)
  fix w r w' assume "io_loop body s w = Some (r, w')"
  then have run: "loop (io_body body) (s, w) = Some (r, w')" by (simp add: io_loop_def)
  have "case (r, w') of (r, w') \<Rightarrow> J w w' \<and> (\<forall>x. r = Returned x \<longrightarrow> P x)"
  proof (rule loop_partial [where I = "\<lambda>(s, v). I s \<and> J w v", OF run])
    show "case (s, w) of (s, v) \<Rightarrow> I s \<and> J w v" using assms(1) J_refl by simp
  next
    fix a b assume "case a of (s, v) \<Rightarrow> I s \<and> J w v" and st: "io_body body a = Some (Inl b)"
    then obtain s v where a: "a = (s, v)" "I s" "J w v" by (cases a) auto
    with st assms(2) [OF a(2)] show "case b of (s, v) \<Rightarrow> I s \<and> J w v"
      unfolding keeps_def
      by (auto simp: io_body_def split: option.splits outcome.splits sum.splits prod.splits intro: J_trans)
  next
    fix a b assume "case a of (s, v) \<Rightarrow> I s \<and> J w v" and st: "io_body body a = Some (Inr b)"
    then obtain s v where a: "a = (s, v)" "I s" "J w v" by (cases a) auto
    with st assms(2) [OF a(2)] show "case b of (r, w') \<Rightarrow> J w w' \<and> (\<forall>x. r = Returned x \<longrightarrow> P x)"
      unfolding keeps_def
      by (auto simp: io_body_def split: option.splits outcome.splits sum.splits prod.splits intro: J_trans)
  qed
  then show "J w w' \<and> (\<forall>x. r = Returned x \<longrightarrow> P x)" by simp
qed

end

text \<open>Two of them: runs without output, and results whatever happens to the state.\<close>

interpretation silent: run_relation "\<lambda>w w'. outp w' = outp w"
  by unfold_locales simp_all

interpretation result: run_relation "\<lambda>_ _. True"
  by unfold_locales simp_all

end
