(* ===== verification/Wl2k_Frame.thy ===== *)
theory Wl2k_Frame
  imports Process
begin

text \<open>
  The transfer of one compressed message in wl2k.c: \<open>putcompressed\<close> sends a header with the title
  and the offset, blocks of at most 250 bytes, and a checksum; \<open>getcompressed\<close> reads it back.
\<close>

section \<open>Operations\<close>

definition MID_MAXLEN :: nat where "MID_MAXLEN = 12"
definition PROPLIMIT :: nat where "PROPLIMIT = 5"
definition CHUNK_SIZE :: nat where "CHUNK_SIZE = 250"

definition CHRNUL :: u8 where "CHRNUL = 0"
definition CHRSOH :: u8 where "CHRSOH = 1"
definition CHRSTX :: u8 where "CHRSTX = 2"
definition CHREOT :: u8 where "CHREOT = 4"

lemmas frame_chars = CHRNUL_def CHRSOH_def CHRSTX_def CHREOT_def

text \<open>\<open>struct proposal\<close>; the list links are the order of the list the proposals are kept in.\<close>

record proposal =
  code :: u8
  type :: u8
  mid :: cstr
  usize :: nat
  csize :: nat
  path :: "cstr option"
  ubuf :: "buffer option"
  cbuf :: "buffer option"
  title :: "cstr option"
  offset :: nat
  accepted :: bool
  delete :: bool

text \<open>A lost connection ends the process.\<close>

definition getrawchar :: "('d, u8) io" where
  "getrawchar = andthen resettimeout (\<lambda>_. andthen fgetc (\<lambda>c.
     case c of None \<Rightarrow> fail | Some c \<Rightarrow> ret c))"

text \<open>
  The loop that reads the title or the offset into an array, from index \<open>i\<close> on: at most \<open>n\<close> characters, up to a NUL, which is
  stored and put back; \<open>len\<close> counts the characters of the header that are left.  A byte of an array that was not written
  is \<open>None\<close>; to write behind its end is undefined behaviour.
\<close>

fun read_field :: "nat \<Rightarrow> nat \<Rightarrow> int \<Rightarrow> u8 option list \<Rightarrow> ('d, u8 option list \<times> int) io" where
  "read_field 0 i len s = ret (s, len)"
| "read_field (Suc n) i len s = andthen getrawchar (\<lambda>c. andthen (defined (wr i (Some c) s)) (\<lambda>s.
     if c = CHRNUL then andthen (ungetc c) (\<lambda>_. ret (s, len))
     else read_field n (Suc i) (len - 1) s))"

text \<open>The C string in an array, read up to its NUL.\<close>

fun c_string :: "u8 option list \<Rightarrow> cstr option" where
  "c_string [] = None"
| "c_string (None # xs) = None"
| "c_string (Some c # xs) = (if c = CHRNUL then Some [] else map_option ((#) c) (c_string xs))"

text \<open>\<open>while (len--)\<close>: a block of \<open>n\<close> characters; \<open>None\<close> is the return of \<open>NULL\<close>.\<close>

fun read_block :: "nat \<Rightarrow> nat \<Rightarrow> buffer \<Rightarrow> ('d, (nat \<times> buffer) option) io" where
  "read_block 0 cksum buf = ret (Some (cksum, buf))"
| "read_block (Suc n) cksum buf = andthen getrawchar (\<lambda>c. andthen (look mem) (\<lambda>mem.
     case buffer_addchar mem buf (ucast c) of
       (r, buf') \<Rightarrow> if r = -1 then ret None else read_block n ((cksum + unat c) mod 256) buf'))"

definition frame_step :: "nat \<times> buffer \<Rightarrow> ('d, (nat \<times> buffer) + buffer option) io" where
  "frame_step = (\<lambda>(cksum, buf). andthen getrawchar (\<lambda>c.
     if c = CHRSTX then
       andthen getrawchar (\<lambda>l.
         andthen (read_block (if l = 0 then 256 else unat l) cksum buf) (\<lambda>x.
           ret (case x of None \<Rightarrow> Inr None | Some s \<Rightarrow> Inl s)))
     else if c = CHREOT then
       andthen getrawchar (\<lambda>c. ret (Inr (if (cksum + unat c) mod 256 \<noteq> 0 then None else Some buf)))
     else ret (Inr None)))"

text \<open>The texts of title and offset are read for the log messages as well.\<close>

definition getcompressed :: "('d, buffer option) io" where
  "getcompressed = andthen (look (\<lambda>w. buffer_new (mem w))) (\<lambda>b.
     case b of None \<Rightarrow> ret None | Some buf \<Rightarrow>
       andthen getrawchar (\<lambda>c. if c \<noteq> CHRSOH then ret None else
       andthen getrawchar (\<lambda>l.
       andthen (defined (wr 80 (Some CHRNUL) (replicate 81 None))) (\<lambda>title.
       andthen (read_field 80 0 (uint l) title) (\<lambda>(title, len).
       andthen getrawchar (\<lambda>c. if c \<noteq> CHRNUL then ret None else
       andthen (defined (c_string title)) (\<lambda>_.
       andthen (defined (wr 6 (Some CHRNUL) (replicate 7 None))) (\<lambda>offset.
       andthen (read_field 6 0 (len - 1) offset) (\<lambda>(offset, len).
       andthen getrawchar (\<lambda>c. if c \<noteq> CHRNUL then ret None else
       andthen (defined (c_string offset)) (\<lambda>offset.
       if len - 1 \<noteq> 0 then ret None
       else if offset \<noteq> [48] then ret None
       else io_loop frame_step (0, buf))))))))))))"

text \<open>
  The blocks of \<open>putcompressed\<close>.  The bytes are read from the storage of the buffer, the checksum
  is an \<open>int\<close>.  A failed \<open>fprintf\<close> ends the process, a failed \<open>fwrite\<close> is only logged.
\<close>

fun add_bytes :: "u8 option list \<Rightarrow> nat \<Rightarrow> (nat \<times> u8 list) option" where
  "add_bytes [] cksum = Some (cksum, [])"
| "add_bytes (b # bs) cksum =
     do { c \<leftarrow> b;
          s \<leftarrow> (if cksum + unat c < 2 ^ 31 then Some (cksum + unat c) else None);
          (s', cs) \<leftarrow> add_bytes bs s;
          Some (s', c # cs) }"

definition take_bytes :: "u8 option list \<Rightarrow> nat \<Rightarrow> nat \<Rightarrow> nat \<Rightarrow> (nat \<times> u8 list) option" where
  "take_bytes xs cp n cksum = (if cp + n \<le> length xs then add_bytes (take n (drop cp xs)) cksum else None)"

function put_blocks :: "u8 option list \<Rightarrow> nat \<Rightarrow> nat \<Rightarrow> nat \<Rightarrow> ('d, nat) io" where
  "put_blocks xs cp rem cksum =
     (if rem = 0 then ret cksum
      else
        let msglen = (if rem > CHUNK_SIZE then CHUNK_SIZE else rem) in
        andthen (fprintf_or_exit [CHRSTX, of_nat msglen]) (\<lambda>_.
        andthen (defined (take_bytes xs cp msglen cksum)) (\<lambda>(cksum', bs).
        andthen resettimeout (\<lambda>_. andthen (fprintf bs) (\<lambda>_.
          put_blocks xs (cp + msglen) (rem - msglen) cksum')))))"
  by pat_completeness auto
termination
  by (relation "measure (\<lambda>(xs, cp, rem, cksum). rem)") (auto simp: CHUNK_SIZE_def)

declare put_blocks.simps [simp del]

definition low_byte_neg :: "nat \<Rightarrow> u8" where
  "low_byte_neg n = of_int (- int n)"

definition putcompressed :: "proposal \<Rightarrow> ('d, unit) io" where
  "putcompressed prop = andthen (defined (title prop)) (\<lambda>t.
     let title = take 80 t; offs = take 6 (show_dec (offset prop)) in
     andthen (send ([CHRSOH, of_nat (length title + length offs + 2)] @ title @ [CHRNUL] @ offs @ [CHRNUL])) (\<lambda>_.
     andthen (defined (cbuf prop)) (\<lambda>buf.
       if csize prop < 6 then fail
       else if csize prop < offset prop then fail
       else
         andthen (put_blocks (data buf) (offset prop) (csize prop - offset prop) 0) (\<lambda>cksum.
         andthen (send [CHREOT, low_byte_neg cksum]) (\<lambda>_. resettimeout)))))"

section \<open>What is sent\<close>

text \<open>The sequence of blocks and the whole message as byte strings.\<close>

function blocks_of :: "u8 list \<Rightarrow> u8 list" where
  "blocks_of d =
     (if d = [] then []
      else CHRSTX # of_nat (length (take CHUNK_SIZE d)) # take CHUNK_SIZE d @ blocks_of (drop CHUNK_SIZE d))"
  by pat_completeness auto
termination
  by (relation "measure length") (auto simp: CHUNK_SIZE_def)

declare blocks_of.simps [simp del]

definition byte_sum :: "u8 list \<Rightarrow> nat" where
  "byte_sum d = sum_list (map unat d)"

definition frame :: "cstr \<Rightarrow> u8 list \<Rightarrow> u8 list" where
  "frame t d = [CHRSOH, of_nat (length (take 80 t) + 3)] @ take 80 t @ [CHRNUL, 48, CHRNUL] @
     blocks_of d @ [CHREOT, low_byte_neg (byte_sum d)]"

lemma byte_sum_simps [simp]:
  "byte_sum [] = 0" "byte_sum (c # cs) = unat c + byte_sum cs" "byte_sum (xs @ ys) = byte_sum xs + byte_sum ys"
  by (simp_all add: byte_sum_def)

lemma byte_sum_bound: "byte_sum d \<le> 255 * length d"
proof (induction d)
  case (Cons c d)
  have "unat c < 256" using unsigned_less [of c] by simp
  with Cons show ?case by simp
qed simp

lemma add_bytes_sum:
  "cksum + byte_sum d < 2 ^ 31 \<Longrightarrow> add_bytes (map Some d) cksum = Some (cksum + byte_sum d, d)"
  by (induction d arbitrary: cksum) (simp_all add: add.assoc)

lemma buffer_storage:
  assumes "buffer_inv b" "cp + n \<le> dlen b"
  shows "take n (drop cp (data b)) = map Some (take n (drop cp (contents b)))" "cp + n \<le> length (data b)"
proof -
  have d: "length (data b) = alen b" "dlen b \<le> alen b" "\<And>i. i < dlen b \<Longrightarrow> data b ! i \<noteq> None"
    using assms(1) by (auto simp: buffer_inv_def)
  show "cp + n \<le> length (data b)" using assms(2) d by simp
  show "take n (drop cp (data b)) = map Some (take n (drop cp (contents b)))"
    by (rule nth_equalityI) (use d assms(2) in \<open>auto simp: contents_def\<close>)
qed

definition quiet :: "'d world \<Rightarrow> u8 list \<Rightarrow> 'd world" where
  "quiet w bs = w\<lparr>alarm := timeoutsecs w, outp := outp w @ bs\<rparr>"

lemma quiet_fields [simp]:
  "writes (quiet w bs) = writes w" "outp (quiet w bs) = outp w @ bs" "inp (quiet w bs) = inp w" "mem (quiet w bs) = mem w"
  "quiet (quiet w a) b = quiet w (a @ b)"
  by (simp_all add: quiet_def)

lemma send_quiet: "writes w = None \<Longrightarrow> send bs w = Some (Returned (), quiet w bs)"
  by (simp add: send_returned quiet_def)

lemma resettimeout_quiet: "resettimeout (quiet w bs) = Some (Returned (), quiet w bs)"
  by (simp add: resettimeout_def change_def quiet_def)

lemma put_blocks_sent:
  assumes "buffer_inv b" "cp + rem = dlen b" "writes w = None" "cksum + byte_sum (drop cp (contents b)) < 2 ^ 31"
    and "alarm w = timeoutsecs w"
  shows "put_blocks (data b) cp rem cksum w =
    Some (Returned (cksum + byte_sum (drop cp (contents b))), quiet w (blocks_of (drop cp (contents b))))"
  using assms
proof (induction "data b" cp rem cksum arbitrary: w rule: put_blocks.induct)
  case (1 cp rem cksum)
  have len: "length (contents b) = dlen b" using 1(2) by simp
  have same: "quiet w [] = w" using 1(6) by (cases w) (simp add: quiet_def)
  show ?case
  proof (cases "rem = 0")
    case True
    then show ?thesis using 1 len same by (subst put_blocks.simps) (simp add: ret_def blocks_of.simps)
  next
    case False
    define n where "n = (if rem > CHUNK_SIZE then CHUNK_SIZE else rem)"
    define d where "d = take n (drop cp (contents b))"
    have n: "n \<le> rem" "0 < n" using False by (auto simp: n_def CHUNK_SIZE_def)
    have d: "take CHUNK_SIZE (drop cp (contents b)) = d" "drop CHUNK_SIZE (drop cp (contents b)) = drop (cp + n) (contents b)"
      "length d = n" "drop cp (contents b) \<noteq> []"
      using 1(3) len n False by (auto simp: d_def n_def add.commute)
    have split: "drop cp (contents b) = d @ drop (cp + n) (contents b)"
      using append_take_drop_id [of n "drop cp (contents b)"] by (simp add: d_def add.commute)
    have sum: "byte_sum (drop cp (contents b)) = byte_sum d + byte_sum (drop (cp + n) (contents b))"
      by (subst split) simp
    have "cp + n \<le> dlen b" using 1(3) n by simp
    note st = buffer_storage [OF 1(2) this]
    have tb: "take_bytes (data b) cp n cksum = Some (cksum + byte_sum d, d)"
      using st sum 1(5) add_bytes_sum [of cksum d] by (simp add: take_bytes_def d_def)
    have IH: "put_blocks (data b) (cp + n) (rem - n) (cksum + byte_sum d) (quiet w ([CHRSTX, of_nat n] @ d)) =
      Some (Returned (cksum + byte_sum d + byte_sum (drop (cp + n) (contents b))),
        quiet (quiet w ([CHRSTX, of_nat n] @ d)) (blocks_of (drop (cp + n) (contents b))))"
      by (rule 1(1) [OF False n_def 1(2)]) (use 1 n sum in \<open>auto simp: quiet_def\<close>)
    have "put_blocks (data b) cp rem cksum w
      = put_blocks (data b) (cp + n) (rem - n) (cksum + byte_sum d) (quiet w ([CHRSTX, of_nat n] @ d))"
      using False 1(4) tb
      by (subst put_blocks.simps)
        (simp add: n_def [symmetric] Let_def fprintf_or_exit_def fprintf_def andthen_def ret_def defined_def
          resettimeout_def change_def quiet_def)
    also have "[CHRSTX, of_nat n] @ d @ blocks_of (drop (cp + n) (contents b)) = blocks_of (drop cp (contents b))"
      using d by (subst (2) blocks_of.simps) simp
    then have "put_blocks (data b) (cp + n) (rem - n) (cksum + byte_sum d) (quiet w ([CHRSTX, of_nat n] @ d))
      = Some (Returned (cksum + byte_sum (drop cp (contents b))), quiet w (blocks_of (drop cp (contents b))))"
      unfolding IH using sum by simp
    finally show ?thesis .
  qed
qed

lemma putcompressed_frame:
  assumes "title p = Some t" "cbuf p = Some b" "buffer_inv b" "csize p = dlen b" "6 \<le> dlen b" "offset p = 0"
    and "byte_sum (contents b) < 2 ^ 31" "writes w = None"
  shows "putcompressed p w = Some (Returned (), quiet w (frame t (contents b)))"
proof -
  have offs: "take 6 (show_dec 0) = [48]" by (simp add: show_dec.simps)
  define hd where "hd = [CHRSOH, of_nat (length (take 80 t) + 1 + 2)] @ take 80 t @ [CHRNUL] @ [48] @ [CHRNUL]"
  have "put_blocks (data b) 0 (dlen b) 0 (quiet w hd)
    = Some (Returned (byte_sum (contents b)), quiet (quiet w hd) (blocks_of (contents b)))"
    using put_blocks_sent [OF assms(3), of 0 "dlen b" "quiet w hd" 0] assms by (simp add: quiet_def)
  then have "putcompressed p w = Some (Returned (),
      quiet w (hd @ blocks_of (contents b) @ [CHREOT, low_byte_neg (byte_sum (contents b))]))"
    using assms offs
    by (simp add: putcompressed_def Let_def hd_def andthen_def ret_def send_quiet resettimeout_quiet)
  then show ?thesis by (simp add: hd_def frame_def add.commute)
qed

section \<open>Reading it back\<close>

definition took :: "'d world \<Rightarrow> u8 list \<Rightarrow> 'd world" where
  "took w rest = w\<lparr>alarm := timeoutsecs w, inp := rest\<rparr>"

lemma took_fields [simp]:
  "inp (took w r) = r" "mem (took w r) = mem w" "took (took w a) b = took w b" "alarm (took w r) = timeoutsecs w"
  "timeoutsecs (took w r) = timeoutsecs w"
  by (simp_all add: took_def)

lemma took_same: "alarm w = timeoutsecs w \<Longrightarrow> took w (inp w) = w"
  by (cases w) (simp add: took_def)

lemma getrawchar_byte: "inp w = c # cs \<Longrightarrow> getrawchar w = Some (Returned c, took w cs)"
  by (simp add: getrawchar_def andthen_def resettimeout_def change_def fgetc_def ret_def took_def)

text \<open>The array from index \<open>i\<close> on, whose element \<open>i + n\<close> is the terminator.\<close>

lemma read_field_string:
  assumes "inp w = s @ 0 # rest" "0 \<notin> set s" "length s \<le> n" "alarm w = timeoutsecs w" "i + n < length a" "a ! (i + n) = Some 0"
  shows "\<exists>a'. read_field n i len a w = Some (Returned (a', len - int (length s)), took w (0 # rest)) \<and> take i a' = take i a \<and>
    c_string (drop i a') = Some s"
  using assms
proof (induction n arbitrary: s len w i a)
  case 0
  then have "drop i a = Some 0 # drop (Suc i) a" using Cons_nth_drop_Suc [of i a] by simp
  then show ?case using 0 took_same [of w] by (simp add: ret_def CHRNUL_def)
next
  case (Suc n)
  have i: "i < length a" using Suc.prems(5) by simp
  show ?case
  proof (cases s)
    case Nil
    then have "getrawchar w = Some (Returned 0, took w rest)" using Suc.prems by (simp add: getrawchar_byte)
    moreover have "c_string (drop i (a[i := Some 0])) = Some []"
      using i by (simp add: CHRNUL_def upd_conv_take_nth_drop)
    ultimately show ?thesis using Nil i by (simp add: andthen_def CHRNUL_def ungetc_def change_def ret_def took_def wr_def defined_def)
  next
    case (Cons c s')
    then have g: "getrawchar w = Some (Returned c, took w (s' @ 0 # rest))"
      using Suc.prems by (simp add: getrawchar_byte)
    let ?a = "a[i := Some c]"
    obtain a' where a': "read_field n (Suc i) (len - 1) ?a (took w (s' @ 0 # rest)) = Some (Returned (a', len - 1 - int (length s')), took w (0 # rest))"
        "take (Suc i) a' = take (Suc i) ?a" "c_string (drop (Suc i) a') = Some s'"
      using Suc.IH [of "took w (s' @ 0 # rest)" s' "Suc i" ?a "len - 1"] Cons Suc.prems by auto
    have l: "i < length a'" using arg_cong [OF a'(2), of length] i by (simp add: min_def split: if_splits)
    have "a' ! i = take (Suc i) a' ! i" by simp
    also have "\<dots> = Some c" using i by (simp add: a'(2))
    finally have "drop i a' = Some c # drop (Suc i) a'" using l by (simp add: Cons_nth_drop_Suc [symmetric])
    moreover have "take i a' = take i a" using arg_cong [OF a'(2), of "take i"] i by (simp add: min_def)
    ultimately show ?thesis
      using Cons Suc.prems(2) g a'(1,3) i by (simp add: andthen_def CHRNUL_def wr_def defined_def ret_def)
  qed
qed

lemma read_block_bytes:
  assumes "inp w = d @ rest" "buffer_inv buf" "plenty (mem w) (2 * (dlen buf + length d))" "alarm w = timeoutsecs w"
    and "cksum < 256"
  shows "\<exists>buf'. read_block (length d) cksum buf w = Some (Returned (Some ((cksum + byte_sum d) mod 256, buf')), took w rest) \<and>
    buffer_inv buf' \<and> contents buf' = contents buf @ d \<and> bpos buf' = bpos buf"
  using assms
proof (induction d arbitrary: w buf cksum)
  case Nil
  then show ?case using took_same [of w] by (simp add: ret_def)
next
  case (Cons c d)
  have "plenty (mem w) (2 * Suc (dlen buf))" by (rule plenty_le [OF Cons.prems(3)]) simp
  then obtain buf1 where b: "buffer_addchar (mem w) buf (ucast c) = (0, buf1)"
    using buffer_addchar_plenty [OF Cons.prems(2)] by (metis prod.collapse)
  have b1: "buffer_inv buf1" "contents buf1 = contents buf @ [c]" "bpos buf1 = bpos buf"
    using buffer_addchar_ok [OF Cons.prems(2) b] by simp_all
  have "dlen buf1 = Suc (dlen buf)"
    using length_contents [OF b1(1)] length_contents [OF Cons.prems(2)] b1(2) by simp
  then have pl: "plenty (mem w) (2 * (dlen buf1 + length d))" using Cons.prems(3) by simp
  have g: "getrawchar w = Some (Returned c, took w (d @ rest))" using Cons.prems(1) by (simp add: getrawchar_byte)
  obtain buf' where IH: "read_block (length d) ((cksum + unat c) mod 256) buf1 (took w (d @ rest))
      = Some (Returned (Some (((cksum + unat c) mod 256 + byte_sum d) mod 256, buf')), took w rest)"
      "buffer_inv buf'" "contents buf' = contents buf1 @ d" "bpos buf' = bpos buf1"
    using Cons.IH [of "took w (d @ rest)" buf1 "(cksum + unat c) mod 256"] b1 pl by auto
  have "((cksum + unat c) mod 256 + byte_sum d) mod 256 = (cksum + byte_sum (c # d)) mod 256"
    by (simp add: mod_simps add.assoc)
  then show ?case using g b IH b1(2,3) by (simp add: andthen_def look_def)
qed

lemma frame_loop:
  assumes "inp w = blocks_of d @ [CHREOT, c] @ rest" "buffer_inv buf" "plenty (mem w) (2 * (dlen buf + length d))"
    and "alarm w = timeoutsecs w" "cksum < 256"
  shows "\<exists>buf'. io_loop frame_step (cksum, buf) w
      = Some (Returned (if (cksum + byte_sum d + unat c) mod 256 = 0 then Some buf' else None), took w rest) \<and>
    buffer_inv buf' \<and> contents buf' = contents buf @ d \<and> bpos buf' = bpos buf"
  using assms
proof (induction d arbitrary: w buf cksum rule: blocks_of.induct)
  case (1 d)
  show ?case
  proof (cases "d = []")
    case True
    then have i: "inp w = [CHREOT, c] @ rest" using "1.prems"(1) by (simp add: blocks_of.simps)
    have "getrawchar w = Some (Returned CHREOT, took w (c # rest))" using i by (simp add: getrawchar_byte)
    moreover have "getrawchar (took w (c # rest)) = Some (Returned c, took w rest)" by (simp add: getrawchar_byte)
    ultimately have "frame_step (cksum, buf) w
        = Some (Returned (Inr (if (cksum + unat c) mod 256 \<noteq> 0 then None else Some buf)), took w rest)"
      by (simp add: frame_step_def andthen_def ret_def frame_chars)
    from io_loop_done [of frame_step, OF this] True "1.prems"(2) show ?thesis by auto
  next
    case False
    define e where "e = take CHUNK_SIZE d"
    define f where "f = drop CHUNK_SIZE d"
    define r where "r = blocks_of f @ [CHREOT, c] @ rest"
    have i: "inp w = CHRSTX # of_nat (length e) # e @ r"
      using "1.prems"(1) False by (subst (asm) blocks_of.simps) (simp add: e_def f_def r_def)
    have le: "0 < length e" "length e \<le> 250" using False by (simp_all add: e_def CHUNK_SIZE_def)
    have u: "unat (of_nat (length e) :: u8) = length e" using le by (simp add: unat_of_nat)
    then have len: "(if (of_nat (length e) :: u8) = 0 then 256 else unat (of_nat (length e) :: u8)) = length e"
      using le by auto
    have def: "d = e @ f" by (simp add: e_def f_def)
    have g: "getrawchar w = Some (Returned CHRSTX, took w (of_nat (length e) # e @ r))"
      "getrawchar (took w (of_nat (length e) # e @ r)) = Some (Returned (of_nat (length e)), took w (e @ r))"
      using i by (simp_all add: getrawchar_byte)
    have "plenty (mem w) (2 * (dlen buf + length e))" by (rule plenty_le [OF "1.prems"(3)]) (simp add: def)
    then obtain buf1 where b: "read_block (length e) cksum buf (took w (e @ r))
        = Some (Returned (Some ((cksum + byte_sum e) mod 256, buf1)), took w r)"
        "buffer_inv buf1" "contents buf1 = contents buf @ e" "bpos buf1 = bpos buf"
      using read_block_bytes [of "took w (e @ r)" e r buf cksum] "1.prems" by auto
    have st: "frame_step (cksum, buf) w = Some (Returned (Inl ((cksum + byte_sum e) mod 256, buf1)), took w r)"
      using g b(1) len by (simp add: frame_step_def andthen_def ret_def)
    have "dlen buf1 = dlen buf + length e"
      using length_contents [OF b(2)] length_contents [OF "1.prems"(2)] b(3) by simp
    then have "plenty (mem (took w r)) (2 * (dlen buf1 + length f))"
      using "1.prems"(3) by (simp add: def algebra_simps)
    then obtain buf' where IH: "io_loop frame_step ((cksum + byte_sum e) mod 256, buf1) (took w r)
        = Some (Returned (if ((cksum + byte_sum e) mod 256 + byte_sum f + unat c) mod 256 = 0 then Some buf' else None),
            took w rest)" "buffer_inv buf'" "contents buf' = contents buf1 @ f" "bpos buf' = bpos buf1"
      using "1.IH" [OF False, of "took w r" buf1 "(cksum + byte_sum e) mod 256"] b(2)
      by (auto simp: f_def [symmetric] r_def)
    have "((cksum + byte_sum e) mod 256 + byte_sum f + unat c) mod 256 = (cksum + byte_sum d + unat c) mod 256"
      unfolding def by (simp add: mod_simps add.assoc)
    then show ?thesis using io_loop_next [of frame_step, OF st] IH b(3,4) def by auto
  qed
qed

lemma uint_of_nat_u8: "n < 256 \<Longrightarrow> uint (of_nat n :: u8) = int n"
  by (simp add: unsigned_of_nat take_bit_nat_eq_self)

lemma getcompressed_blocks:
  assumes i: "inp w = [CHRSOH, of_nat (length t + 3)] @ t @ [CHRNUL, 48, CHRNUL] @ blocks_of d @ [CHREOT, c] @ rest"
    and t: "0 \<notin> set t" "length t \<le> 80" and mem: "plenty (mem w) (2 * length d + 32)"
  shows "\<exists>buf. getcompressed w = Some (Returned (if (byte_sum d + unat c) mod 256 = 0 then Some buf else None), took w rest) \<and>
    buffer_inv buf \<and> contents buf = d \<and> bpos buf = 0"
proof -
  define r where "r = blocks_of d @ [CHREOT, c] @ rest"
  obtain b where b: "buffer_new (mem w) = Some b" using buffer_new_plenty [OF mem] by auto
  have b': "buffer_inv b" "contents b = []" "dlen b = 0" "bpos b = 0" using buffer_new_fresh [OF b] by simp_all
  have u: "uint (of_nat (length t + 3) :: u8) = int (length t + 3)" by (rule uint_of_nat_u8) (use t(2) in simp)
  have i': "inp w = CHRSOH # of_nat (length t + 3) # t @ CHRNUL # 48 # CHRNUL # r" using i by (simp add: r_def)
  have g1: "getrawchar w = Some (Returned CHRSOH, took w (of_nat (length t + 3) # t @ CHRNUL # 48 # CHRNUL # r))"
    using i' by (simp add: getrawchar_byte)
  have g2: "getrawchar (took w (of_nat (length t + 3) # t @ CHRNUL # 48 # CHRNUL # r))
      = Some (Returned (of_nat (length t + 3)), took w (t @ CHRNUL # 48 # CHRNUL # r))" by (simp add: getrawchar_byte)
  let ?a = "(replicate 81 None)[80 := Some 0] :: u8 option list" and ?o = "(replicate 7 None)[6 := Some 0] :: u8 option list"
  obtain a where f1: "read_field 80 0 (int (length t + 3)) ?a (took w (t @ CHRNUL # 48 # CHRNUL # r))
      = Some (Returned (a, 3), took w (CHRNUL # 48 # CHRNUL # r))" "c_string a = Some t"
    using read_field_string [of "took w (t @ CHRNUL # 48 # CHRNUL # r)" t "48 # CHRNUL # r" 80 0 ?a "int (length t + 3)"] t
    by (auto simp: CHRNUL_def)
  have g3: "getrawchar (took w (CHRNUL # 48 # CHRNUL # r)) = Some (Returned CHRNUL, took w (48 # CHRNUL # r))"
    by (simp add: getrawchar_byte)
  obtain b' where f2: "read_field 6 0 2 ?o (took w (48 # CHRNUL # r)) = Some (Returned (b', 1), took w (CHRNUL # r))" "c_string b' = Some [48]"
    using read_field_string [of "took w (48 # CHRNUL # r)" "[48]" r 6 0 ?o 2] by (auto simp: CHRNUL_def)
  have g4: "getrawchar (took w (CHRNUL # r)) = Some (Returned CHRNUL, took w r)" by (simp add: getrawchar_byte)
  have "plenty (mem (took w r)) (2 * (dlen b + length d))" by (simp add: plenty_le [OF mem] b'(3))
  then obtain buf where l: "io_loop frame_step (0, b) (took w r)
      = Some (Returned (if (byte_sum d + unat c) mod 256 = 0 then Some buf else None), took w rest)"
      "buffer_inv buf" "contents buf = d" "bpos buf = 0"
    using frame_loop [of "took w r" d c rest b 0] b' by (auto simp: r_def)
  have "getcompressed w = io_loop frame_step (0, b) (took w r)"
    unfolding getcompressed_def using b g1 g2 f1 g3 f2 g4 u
    by (simp add: andthen_def look_def wr_def defined_def ret_def CHRNUL_def del: of_nat_add replicate.simps replicate_Suc upt_rec_numeral)
  then show ?thesis using l by auto
qed

lemma low_byte_neg_sum: "(n + unat (low_byte_neg n)) mod 256 = 0"
proof -
  have "(of_nat (n + unat (low_byte_neg n)) :: u8) = of_nat n + low_byte_neg n" by simp
  also have "\<dots> = 0" by (simp add: low_byte_neg_def)
  finally have "unat (of_nat (n + unat (low_byte_neg n)) :: u8) = 0" by (simp only: unat_0)
  then show ?thesis by (simp only: unat_of_nat) simp
qed

section \<open>Any input\<close>

text \<open>
  \<open>getcompressed\<close> consumes input in every step, so it ends for every peer.
\<close>

definition shorter :: "'d world \<Rightarrow> 'd world \<Rightarrow> bool" where
  "shorter w' w \<longleftrightarrow> length (inp w') < length (inp w)"

lemma ends_getrawchar:
  assumes "\<And>c cs. inp w = c # cs \<Longrightarrow> Q c (took w cs)"
  shows "ends getrawchar w Q"
  using assms by (auto simp: getrawchar_def resettimeout_def io_rules took_def split: list.split)

text \<open>The array is long enough when it has an element behind the last one the loop can write, and has a string when that one is NUL.\<close>

lemma c_string_defined: "k < length a \<Longrightarrow> a ! k = Some 0 \<Longrightarrow> \<forall>j < k. a ! j \<noteq> None \<Longrightarrow> c_string a \<noteq> None"
proof (induction a arbitrary: k)
  case (Cons x a)
  show ?case
  proof (cases k)
    case 0
    then show ?thesis using Cons.prems by (simp add: CHRNUL_def)
  next
    case (Suc m)
    have "x \<noteq> None" using Cons.prems(3) Suc by auto
    moreover have "\<forall>j < m. a ! j \<noteq> None" using Cons.prems(3) Suc by auto
    then have "c_string a \<noteq> None" using Cons.IH [of m] Cons.prems(1,2) Suc by simp
    ultimately show ?thesis by auto
  qed
qed simp

lemma ends_read_field:
  assumes "i + n < length a" "a ! (i + n) = Some 0" "\<forall>j < i. a ! j \<noteq> None"
    and "\<And>a' l w'. length (inp w') \<le> length (inp w) \<Longrightarrow> outp w' = outp w \<Longrightarrow> c_string a' \<noteq> None \<Longrightarrow> Q (a', l) w'"
  shows "ends (read_field n i len a) w Q"
  using assms
proof (induction n arbitrary: i len a w)
  case 0
  then show ?case using c_string_defined [of i a] by (simp add: io_rules)
next
  case (Suc n)
  have i: "i < length a" using Suc.prems(1) by simp
  show ?case
  proof (simp only: read_field.simps, subst ends_andthen, rule ends_getrawchar)
    fix c cs assume c: "inp w = c # cs"
    let ?a = "a[i := Some c]"
    have "ends (if c = CHRNUL then andthen (ungetc c) (\<lambda>_. ret (?a, len)) else read_field n (Suc i) (len - 1) ?a) (took w cs) Q"
    proof (cases "c = CHRNUL")
      case True
      have "c_string ?a \<noteq> None" using c_string_defined [of i ?a] i True Suc.prems(3) by (auto simp: CHRNUL_def)
      then show ?thesis using True c Suc.prems(4) by (simp add: io_rules ungetc_def took_def)
    next
      case False
      have "ends (read_field n (Suc i) (len - 1) ?a) (took w cs) Q"
        by (rule Suc.IH) (use c Suc.prems in \<open>auto simp: took_def less_Suc_eq nth_list_update\<close>)
      then show ?thesis using False by simp
    qed
    then show "ends (andthen (defined (wr i (Some c) a)) (\<lambda>s. if c = CHRNUL then andthen (ungetc c) (\<lambda>_. ret (s, len)) else read_field n (Suc i) (len - 1) s)) (took w cs) Q"
      using i by (simp add: wr_def defined_def)
  qed
qed

lemma ends_read_block:
  "buffer_inv buf \<Longrightarrow> (\<And>x w'. length (inp w') \<le> length (inp w) \<Longrightarrow> outp w' = outp w \<Longrightarrow>
     (case x of None \<Rightarrow> True | Some (ck, b) \<Rightarrow> buffer_inv b \<and> length (contents b) = length (contents buf) + n) \<Longrightarrow> Q x w') \<Longrightarrow>
   ends (read_block n cksum buf) w Q"
proof (induction n arbitrary: cksum buf w)
  case 0
  then show ?case by (simp add: io_rules)
next
  case (Suc n)
  show ?case
    unfolding read_block.simps ends_andthen ends_look
  proof (rule ends_getrawchar)
    fix c cs assume i: "inp w = c # cs"
    obtain r buf' where a: "buffer_addchar (mem (took w cs)) buf (ucast c) = (r, buf')" by fastforce
    show "ends (case buffer_addchar (mem (took w cs)) buf (ucast c) of
        (r, buf') \<Rightarrow> if r = - 1 then ret None else read_block n ((cksum + unat c) mod 256) buf') (took w cs) Q"
      (is "ends ?m (took w cs) Q")
    proof (cases "r = -1")
      case True
      then show ?thesis using a i by (simp add: io_rules) (rule Suc.prems(2); simp add: took_def)
    next
      case False
      then have ok: "buffer_addchar (mem (took w cs)) buf (ucast c) = (0, buf')"
        using a buffer_addchar_fail [OF a] by blast
      have b: "buffer_inv buf'" "contents buf' = contents buf @ [c]"
        using buffer_addchar_ok [OF Suc.prems(1) ok] by simp_all
      have "ends (read_block n ((cksum + unat c) mod 256) buf') (took w cs) Q"
        by (rule Suc.IH [OF b(1)], rule Suc.prems(2))
          (use i b length_contents [OF b(1)] length_contents [OF Suc.prems(1)] in
            \<open>auto simp: took_def split: option.splits prod.splits\<close>)
      then show ?thesis using ok by simp
    qed
  qed
qed

lemma ends_frame_loop:
  fixes w :: "'d world"
  assumes "buffer_inv buf"
  shows "ends (io_loop frame_step (cksum, buf)) w (\<lambda>x w'. outp w' = outp w \<and> (case x of None \<Rightarrow> True | Some b \<Rightarrow> buffer_inv b))"
proof (rule ends_io_loop [where I = "\<lambda>s w'. buffer_inv (snd s) \<and> outp w' = outp w" and f = "\<lambda>s w. length (inp w)"])
  show "buffer_inv (snd (cksum, buf)) \<and> outp w = outp w" using assms by simp
  fix s :: "nat \<times> buffer" and v :: "'d world"
  assume I: "buffer_inv (snd s) \<and> outp v = outp w"
  then obtain ck b where s: "s = (ck, b)" "buffer_inv b" by (cases s) auto
  show "ends (frame_step s) v (\<lambda>x w'. case x of
      Inl s' \<Rightarrow> (buffer_inv (snd s') \<and> outp w' = outp w) \<and> length (inp w') < length (inp v)
    | Inr r \<Rightarrow> outp w' = outp w \<and> (case r of None \<Rightarrow> True | Some b \<Rightarrow> buffer_inv b))"
    unfolding frame_step_def s(1) prod.case ends_andthen
    by (rule ends_getrawchar)
      (auto simp: io_rules s I took_def intro!: ends_getrawchar ends_read_block split: option.splits)
qed

section \<open>Properties\<close>

text \<open>
  C11: What \<open>putcompressed\<close> sends for a message, \<open>getcompressed\<close> on the other side turns back into the
  same compressed bytes, and leaves the input behind them alone.  The title may be any C string: it is
  cut to 80 characters, as the receiver expects.
\<close>

theorem frame_round_trip:
  assumes "title p = Some t" and "0 \<notin> set t" and "cbuf p = Some b" and "buffer_inv b" and "csize p = dlen b"
    and "6 \<le> dlen b" and "dlen b \<le> 8000000" and "offset p = 0" and "writes w = None"
    and "plenty (mem v) (2 * dlen b + 32)"
  shows "\<exists>sent. putcompressed p w = Some (Returned (), w\<lparr>alarm := timeoutsecs w, outp := outp w @ sent\<rparr>) \<and>
    (\<forall>rest. inp v = sent @ rest \<longrightarrow>
      (\<exists>b'. getcompressed v = Some (Returned (Some b'), v\<lparr>alarm := timeoutsecs v, inp := rest\<rparr>) \<and>
        buffer_inv b' \<and> contents b' = contents b))"
proof -
  have "byte_sum (contents b) < 2 ^ 31"
    using byte_sum_bound [of "contents b"] assms(4,7) by simp
  note put = putcompressed_frame [OF assms(1,3,4,5,6,8) this assms(9)]
  have "\<exists>b'. getcompressed v = Some (Returned (Some b'), took v rest) \<and> buffer_inv b' \<and> contents b' = contents b"
    if i: "inp v = frame t (contents b) @ rest" for rest
  proof -
    have pl: "plenty (mem v) (2 * length (contents b) + 32)" using assms(4,10) by simp
    have "0 \<notin> set (take 80 t)" using assms(2) in_set_takeD by metis
    moreover have "inp v = [CHRSOH, of_nat (length (take 80 t) + 3)] @ take 80 t @ [CHRNUL, 48, CHRNUL] @
        blocks_of (contents b) @ [CHREOT, low_byte_neg (byte_sum (contents b))] @ rest"
      using i by (simp add: frame_def)
    ultimately show ?thesis
      using getcompressed_blocks [of v "take 80 t" "contents b" "low_byte_neg (byte_sum (contents b))" rest] pl
      by (auto simp: low_byte_neg_sum)
  qed
  then show ?thesis using put by (auto simp: took_def quiet_def)
qed

definition sample_world :: "u8 list \<Rightarrow> unit world" where
  "sample_world input = \<lparr>inp = input, outp = [], writes = None, timeoutsecs = 120, alarm = 120, timeout_flag = 1,
     mem = (\<lambda>_. True), tabs = static_codec, linebuf = None, outbox_ok = True, outbox = [], unlinkable = (\<lambda>_. True), creatable = (\<lambda>_. Some (1000000, 1000000)),
     dbops = \<lparr>db_open = (\<lambda>_. True), db_get = (\<lambda>_ _. None), db_put = (\<lambda>d _ _. (0, d)), db_del = (\<lambda>d _. d),
       db_cursor = (\<lambda>_. ([], True))\<rparr>, db = (), time_at = (\<lambda>_. 0), time_calls = 0, random_at = (\<lambda>_. 0), random_calls = 0, initialized = True, version = bytes ''0.14'',
     to_text = (\<lambda>_. []), sendmail_prefix = bytes ''sendmail -i'', sendmail = (\<lambda>_ _. Mail_ok), mails = [], gsendmsgonly_flag = False\<rparr>"

definition sample_proposal :: proposal where
  "sample_proposal = \<lparr>code = 67, type = 69, mid = bytes ''ABC_N2QZ'', usize = 2, csize = 6, path = None, ubuf = None,
     cbuf = Some (bytes_buffer [1, 2, 3, 4, 5, 255]), title = Some (bytes ''Hello''), offset = 0,
     accepted = False, delete = False\<rparr>"

theorem frame_round_trip_witness:
  "\<exists>sent. putcompressed sample_proposal (sample_world []) = Some (Returned (), (sample_world [])
      \<lparr>alarm := timeoutsecs (sample_world []), outp := outp (sample_world []) @ sent\<rparr>) \<and>
    (\<forall>rest. inp (sample_world (frame (bytes ''Hello'') [1, 2, 3, 4, 5, 255])) = sent @ rest \<longrightarrow>
      (\<exists>b'. getcompressed (sample_world (frame (bytes ''Hello'') [1, 2, 3, 4, 5, 255]))
        = Some (Returned (Some b'), (sample_world (frame (bytes ''Hello'') [1, 2, 3, 4, 5, 255]))
            \<lparr>alarm := timeoutsecs (sample_world (frame (bytes ''Hello'') [1, 2, 3, 4, 5, 255])), inp := rest\<rparr>) \<and>
        buffer_inv b' \<and> contents b' = contents (bytes_buffer [1, 2, 3, 4, 5, 255])))"
  by (rule frame_round_trip [where t = "bytes ''Hello''"])
    (simp_all add: sample_proposal_def sample_world_def bytes_buffer_inv bytes_def byte_of_def,
      simp_all add: bytes_buffer_def plenty_all)

text \<open>
  C12: A damaged message is refused: when the checksum byte does not make the sum of the data zero
  modulo 256, \<open>getcompressed\<close> returns \<open>NULL\<close>.
\<close>

theorem getcompressed_bad_checksum:
  assumes "inp w = [CHRSOH, of_nat (length t + 3)] @ t @ [CHRNUL, 48, CHRNUL] @ blocks_of d @ [CHREOT, c] @ rest"
    and "0 \<notin> set t" and "length t \<le> 80" and "plenty (mem w) (2 * length d + 32)"
    and "(byte_sum d + unat c) mod 256 \<noteq> 0"
  shows "getcompressed w = Some (Returned None, w\<lparr>alarm := timeoutsecs w, inp := rest\<rparr>)"
  using getcompressed_blocks [OF assms(1-4)] assms(5) by (auto simp: took_def)

theorem getcompressed_bad_checksum_witness:
  "getcompressed (sample_world ([CHRSOH, of_nat (length (bytes ''T'') + 3)] @ bytes ''T'' @ [CHRNUL, 48, CHRNUL] @
      blocks_of [7, 8] @ [CHREOT, 9] @ []))
    = Some (Returned None, (sample_world ([CHRSOH, of_nat (length (bytes ''T'') + 3)] @ bytes ''T'' @ [CHRNUL, 48, CHRNUL] @
        blocks_of [7, 8] @ [CHREOT, 9] @ []))\<lparr>alarm := timeoutsecs (sample_world ([CHRSOH, of_nat (length (bytes ''T'') + 3)] @
        bytes ''T'' @ [CHRNUL, 48, CHRNUL] @ blocks_of [7, 8] @ [CHREOT, 9] @ [])), inp := []\<rparr>)"
  by (rule getcompressed_bad_checksum [where t = "bytes ''T''" and d = "[7, 8]" and c = 9 and rest = "[]"])
    (simp_all add: sample_world_def plenty_all bytes_def byte_of_def)

text \<open>
  C13: \<open>getcompressed\<close> ends without undefined behaviour for every peer and every allocator: no byte is written behind the end of the
  arrays \<open>title[81]\<close> and \<open>offset[7]\<close>, whatever is sent for them, the strings in them end, nothing is sent, and the function returns
  \<open>NULL\<close> or a well-formed buffer, or the process exits because the connection was lost.
\<close>

theorem getcompressed_safe:
  "ends getcompressed w (\<lambda>x w'. outp w' = outp w \<and> (case x of None \<Rightarrow> True | Some b \<Rightarrow> buffer_inv b))"
proof -
  have fresh: "buffer_inv b" if "buffer_new (mem w) = Some b" for b using buffer_new_fresh that by blast
  have a: "80 < length ((replicate 81 None)[80 := Some 0] :: u8 option list)" "6 < length ((replicate 7 None)[6 := Some 0] :: u8 option list)"
    by simp_all
  have loop: "ends (io_loop frame_step (0, b)) w1 (\<lambda>x w'. outp w' = outp w \<and> (case x of None \<Rightarrow> True | Some b \<Rightarrow> buffer_inv b))"
    if "buffer_inv b" "outp w1 = outp w" for b w1
    using ends_frame_loop [OF that(1), of 0 w1] by (simp add: that(2))
  show ?thesis
    unfolding getcompressed_def
    by (auto simp: io_rules fresh wr_def defined_def took_def CHRNUL_def simp del: replicate.simps split: option.splits
        intro!: ends_getrawchar ends_read_field loop)
qed

text \<open>A title of 90 characters: 80 are stored, and the next one is not the NUL that must follow.\<close>

theorem getcompressed_safe_witness:
  "ends getcompressed (sample_world ([CHRSOH, 93] @ replicate 90 65 @ [0, 48, 0])) (\<lambda>x w'. outp w' = [])"
  using getcompressed_safe [of "sample_world ([CHRSOH, 93] @ replicate 90 65 @ [0, 48, 0])"]
  by (auto simp: ends_def sample_world_def split: option.splits outcome.splits)

end
