(* ===== verification/Wl2k_Proposal.thy ===== *)
theory Wl2k_Proposal
  imports Wl2k_Frame
begin

text \<open>
  Proposals in wl2k.c: the outbox as a list of proposals, the lines that offer them, the answers, and
  the parser for the lines of the other side.  The list \<open>oproplist\<close> is a list of proposals and the
  pointer \<open>nproplist\<close> into it the number of proposals before it.
\<close>

section \<open>Lines\<close>

text \<open>
  \<open>tgetline\<close> with its static buffer: characters that are not ASCII, and 0x1e, are dropped; the line
  ends at the terminator and is the string up to the first NUL.  \<open>None\<close> is the return of \<open>NULL\<close> at
  the end of the connection.
\<close>

definition tgetline_step :: "u8 \<Rightarrow> u8 \<Rightarrow> buffer \<Rightarrow> ('d, buffer + (cstr option)) io" where
  "tgetline_step terminator ignore buf = andthen resettimeout (\<lambda>_. andthen fgetc (\<lambda>c. andthen (look mem) (\<lambda>mem.
     case c of
       None \<Rightarrow> andthen (change (\<lambda>w. w\<lparr>linebuf := Some buf\<rparr>)) (\<lambda>_. ret (Inr None))
     | Some c \<Rightarrow>
         if c = 0x1e \<or> \<not> is_ascii c \<and> c \<noteq> terminator \<and> c \<noteq> ignore then ret (Inl buf)
         else if c = terminator then
           (case buffer_addchar mem buf 0 of
              (r, buf') \<Rightarrow>
                if r = -1 then fail
                else andthen (defined (cstring (data buf'))) (\<lambda>line.
                  andthen (change (\<lambda>w. w\<lparr>linebuf := Some buf'\<rparr>)) (\<lambda>_. ret (Inr (Some line)))))
         else
           (case (if c \<noteq> ignore then buffer_addchar mem buf (ucast c) else (0, buf)) of
              (r, buf') \<Rightarrow>
                if r = -1 then fail
                else andthen (look timeout_flag) (\<lambda>flag. if flag \<noteq> 1 then fail else ret (Inl buf'))))))"

definition tgetline :: "u8 \<Rightarrow> u8 \<Rightarrow> ('d, cstr option) io" where
  "tgetline terminator ignore = andthen (look (\<lambda>w. (linebuf w, mem w))) (\<lambda>(b, mem).
     andthen (case b of None \<Rightarrow> (case buffer_new mem of None \<Rightarrow> fail | Some b \<Rightarrow> ret b)
              | Some b \<Rightarrow> ret (buffer_truncate b))
       (io_loop (tgetline_step terminator ignore)))"

definition wl2kgetline :: "('d, cstr option) io" where
  "wl2kgetline = tgetline 13 10"

text \<open>A line that must come: \<open>connection closed\<close> ends the process.\<close>

definition getline_or_exit :: "('d, cstr) io" where
  "getline_or_exit = andthen wl2kgetline (\<lambda>line. case line of None \<Rightarrow> fail | Some l \<Rightarrow> ret l)"

text \<open>\<open>while (strbegins(line, prefix)) line = wl2kgetline(ifp);\<close>\<close>

definition skip_lines :: "cstr \<Rightarrow> cstr \<Rightarrow> ('d, cstr) io" where
  "skip_lines prefix line = io_loop (\<lambda>line.
     if strbegins line prefix then andthen getline_or_exit (\<lambda>l. ret (Inl l)) else ret (Inr line)) line"

section \<open>Parsing a proposal\<close>

text \<open>\<open>if (*cp++ != c) return NULL;\<close>\<close>

fun expect :: "u8 \<Rightarrow> cstr \<Rightarrow> cstr option" where
  "expect c [] = None"
| "expect c (x # cp) = (if x = c then Some cp else None)"

text \<open>The loop that copies the id: at most \<open>n\<close> characters, up to a space; a NUL is an error.\<close>

fun take_mid :: "nat \<Rightarrow> cstr \<Rightarrow> (cstr \<times> cstr) option" where
  "take_mid 0 cp = Some ([], cp)"
| "take_mid (Suc n) [] = None"
| "take_mid (Suc n) (c # cp) =
     (if c = 32 then Some ([], c # cp)
      else case take_mid n cp of None \<Rightarrow> None | Some (m, cp') \<Rightarrow> Some (c # m, cp'))"

text \<open>The character a pointer is at, with the NUL at the end of the string.\<close>

definition at :: "cstr \<Rightarrow> u8" where
  "at cp = (case cp of [] \<Rightarrow> 0 | c # _ \<Rightarrow> c)"

text \<open>
  \<open>parse_proposal\<close> fills a static structure, \<open>prev\<close>, whose members \<open>title\<close>, \<open>offset\<close> and
  \<open>accepted\<close> it leaves; \<open>None\<close> is the return of \<open>NULL\<close>.
\<close>

definition parse_proposal :: "proposal \<Rightarrow> cstr option \<Rightarrow> proposal option" where
  "parse_proposal prev propline =
     do { cp0 \<leftarrow> propline;
          cp1 \<leftarrow> expect 70 cp0;
          let c = at cp1;
          let p = prev\<lparr>code := c, path := None, cbuf := None, ubuf := None, delete := False\<rparr>;
          if c = 67 then
            do { cp2 \<leftarrow> expect 32 (tl cp1);
                 let t = at cp2;
                 cp3 \<leftarrow> (if t \<noteq> 67 \<and> t \<noteq> 69 then None else Some (tl cp2));
                 cp4 \<leftarrow> expect 77 cp3;
                 cp5 \<leftarrow> expect 32 cp4;
                 (m, cp6) \<leftarrow> take_mid MID_MAXLEN cp5;
                 cp7 \<leftarrow> expect 32 cp6;
                 let (us, cp8) = strtoul 10 cp7;
                 cp9 \<leftarrow> expect 32 cp8;
                 let (cs, cp10) = strtoul 10 cp9;
                 (if at cp10 \<noteq> 32 then None
                  else Some (p\<lparr>type := t, mid := m, usize := us, csize := cs mod 2 ^ 32\<rparr>)) }
          else Some (p\<lparr>type := 88, mid := [], usize := 0, csize := 0\<rparr>) }"

section \<open>Deleting what has been sent\<close>

definition unlink :: "cstr \<Rightarrow> ('d, bool) io" where
  "unlink f = (\<lambda>w. if unlinkable w f \<and> f \<in> fst ` set (outbox w)
     then Some (Returned True, w\<lparr>outbox := filter (\<lambda>e. fst e \<noteq> f) (outbox w)\<rparr>)
     else Some (Returned False, w))"

fun delete_props :: "proposal list \<Rightarrow> ('d, proposal list) io" where
  "delete_props [] = ret []"
| "delete_props (p # ps) =
     andthen (case path p of
                Some f \<Rightarrow> if delete p then andthen (unlink f) (\<lambda>_. ret (p\<lparr>delete := False\<rparr>)) else ret p
              | None \<Rightarrow> ret p)
       (\<lambda>p'. andthen (delete_props ps) (\<lambda>ps'. ret (p' # ps')))"

definition dodelete :: "proposal list \<Rightarrow> nat \<Rightarrow> ('d, proposal list) io" where
  "dodelete props n = andthen (delete_props (take n props)) (\<lambda>ps. ret (ps @ drop n props))"

section \<open>The outbox\<close>

text \<open>
  \<open>p2p_qualify\<close>, one line: \<open>Inr\<close> of the answer when it leaves the loop.  The strings are copies, so a
  cut at \<open>cp[80]\<close> is \<open>take 80\<close>.
\<close>

definition header_value :: "cstr \<Rightarrow> nat \<Rightarrow> cstr" where
  "header_value line n = take 80 (dropWhile is_space (drop n (strzapcc line)))"

definition qualify_line :: "mem \<Rightarrow> cstr \<Rightarrow> cstr \<Rightarrow> bool option option" where
  "qualify_line al remotecall line =
     (if strbegins line (bytes ''To:'') then
        (case strchr (header_value line 3) 58 of
           None \<Rightarrow> Some (Some False)
         | Some sp \<Rightarrow>
             let callsign = tl sp in
             if \<not> granted al (length callsign + 1) then None
             else
               (case strchr callsign 64 of
                  None \<Rightarrow> Some None
                | Some np \<Rightarrow>
                    (case strchr (tl np) 64 of
                       None \<Rightarrow>
                         (if take (length callsign - length np) (the (strupper (Some callsign))) \<noteq> remotecall
                          then Some (Some False) else Some None)
                     | Some _ \<Rightarrow> Some (Some False))))
      else if strbegins line (bytes ''Cc:'') then Some (Some False)
      else Some None)"

definition qualify_step :: "mem \<Rightarrow> cstr \<Rightarrow> buffer \<Rightarrow> (buffer + (bool \<times> buffer)) option" where
  "qualify_step al remotecall b =
     do { (line, b') \<leftarrow> buffer_getline al b 10;
          (case line of
             None \<Rightarrow> Some (Inr (True, b'))
           | Some l \<Rightarrow>
               do { q \<leftarrow> qualify_line al remotecall l;
                    Some (case q of None \<Rightarrow> Inl b' | Some r \<Rightarrow> Inr (r, b')) }) }"

definition p2p_qualify :: "mem \<Rightarrow> cstr \<Rightarrow> buffer \<Rightarrow> (bool \<times> buffer) option" where
  "p2p_qualify al remotecall b = loop (qualify_step al remotecall) b"

text \<open>The loop that looks for the subject; the last one counts.\<close>

definition title_step :: "mem \<Rightarrow> cstr option \<times> buffer \<Rightarrow> ((cstr option \<times> buffer) + (cstr option \<times> buffer)) option" where
  "title_step al = (\<lambda>(t, b).
     do { (line, b') \<leftarrow> buffer_getline al b 10;
          Some (case line of
             None \<Rightarrow> Inr (t, b')
           | Some l \<Rightarrow>
               Inl (if strbegins l (bytes ''Subject:'') then strdup al (header_value l 8) else t, b')) })"

text \<open>
  One directory entry that is a regular file (which can be read).  Without memory for its name the null pointer goes to
  \<open>fopen\<close>.  A message that does not qualify in peer-to-peer mode is freed, and then its buffer is freed through the freed
  structure.
\<close>

definition sizeof_proposal :: nat where "sizeof_proposal = 88"

definition prepare_proposal :: "bool \<Rightarrow> cstr \<Rightarrow> cstr \<Rightarrow> u8 list \<Rightarrow> ('d, proposal) io" where
  "prepare_proposal bp2p remotecall name content = andthen (look mem) (\<lambda>al.
     if \<not> granted al sizeof_proposal then fail
     else if strdup al name = None then undefined_behaviour
     else
     case buffer_readfile al (Some (content, True)) of
       None \<Rightarrow> fail
     | Some ub \<Rightarrow>
         andthen (if bp2p then defined (p2p_qualify al remotecall ub) else ret (True, ub)) (\<lambda>(ok, ub1).
         if \<not> ok then undefined_behaviour
         else
           andthen (look tabs) (\<lambda>g. andthen (defined (version_1_Encode al ub1 g)) (\<lambda>(cb, g', ub2).
           andthen (change (\<lambda>w. w\<lparr>tabs := g'\<rparr>)) (\<lambda>_.
             case cb of
               None \<Rightarrow> fail
             | Some cb \<Rightarrow>
                 andthen (defined (loop (title_step al) (None, buffer_rewind ub2))) (\<lambda>(t, ub3).
                   ret \<lparr>code = 67, type = 69, mid = name, usize = dlen ub1, csize = dlen cb, path = Some name,
                        ubuf = Some ub3, cbuf = Some cb,
                        title = (case t of None \<Rightarrow> strdup al (bytes ''No subject'') | Some t \<Rightarrow> Some t),
                        offset = 0, accepted = False, delete = False\<rparr>))))))"

fun prepare_entries :: "bool \<Rightarrow> cstr \<Rightarrow> (cstr \<times> u8 list option) list \<Rightarrow> ('d, proposal list) io" where
  "prepare_entries bp2p remotecall [] = ret []"
| "prepare_entries bp2p remotecall ((name, content) # es) =
     (if length name > MID_MAXLEN then prepare_entries bp2p remotecall es
      else
        case content of
          None \<Rightarrow> prepare_entries bp2p remotecall es
        | Some c \<Rightarrow>
            andthen (prepare_proposal bp2p remotecall name c) (\<lambda>p.
              andthen (prepare_entries bp2p remotecall es) (\<lambda>ps. ret (p # ps))))"

definition prepare_outbound_proposals :: "bool \<Rightarrow> cstr \<Rightarrow> ('d, proposal list) io" where
  "prepare_outbound_proposals bp2p remotecall = andthen (look (\<lambda>w. (outbox_ok w, outbox w))) (\<lambda>(ok, es).
     if \<not> ok then fail else prepare_entries bp2p remotecall es)"

section \<open>Offering proposals\<close>

text \<open>\<open>asprintf(&sp, "F%c %cM %s %lu %lu 0\\r", ..)\<close>\<close>

definition proposal_line :: "proposal \<Rightarrow> cstr" where
  "proposal_line p = cut_nul ([70, code p, 32, type p, 77, 32] @ mid p @ [32] @ show_dec (usize p) @ [32] @ show_dec (csize p) @ [32, 48, 13])"

fun offer :: "proposal list \<Rightarrow> nat \<Rightarrow> ('d, nat) io" where
  "offer [] cksum = ret cksum"
| "offer (p # ps) cksum =
     andthen (asprintf_or_exit (proposal_line p)) (\<lambda>sp.
     andthen (send sp) (\<lambda>_. offer ps (cksum + byte_sum sp)))"

text \<open>
  The answers, one character for each proposal; \<open>None\<close> is an answer that ends the process.  The
  counter the code compares with \<open>PROPLIMIT\<close> stays 0 in this loop.
\<close>

definition lower_or_upper :: "u8 \<Rightarrow> string \<Rightarrow> bool" where
  "lower_or_upper c s \<longleftrightarrow> c \<in> set (bytes s)"

fun answers :: "cstr \<Rightarrow> proposal list \<Rightarrow> proposal list option" where
  "answers cp [] = Some []"
| "answers [] (p # ps) = Some (p # ps)"
| "answers (c # cp) (p # ps) =
     (let p0 = p\<lparr>accepted := False, delete := False, offset := 0\<rparr> in
      if lower_or_upper c ''YyHh+'' then map_option ((#) (p0\<lparr>accepted := True\<rparr>)) (answers cp ps)
      else if lower_or_upper c ''NnRr-'' then map_option ((#) (p0\<lparr>delete := True\<rparr>)) (answers cp ps)
      else if lower_or_upper c ''Ll='' then map_option ((#) p0) (answers cp ps)
      else if lower_or_upper c ''Aa!'' then
        (case strtoul 10 (c # cp) of
           (v, endp) \<Rightarrow> map_option ((#) (p0\<lparr>accepted := True, offset := v\<rparr>)) (answers endp ps))
      else None)"

fun put_proposals :: "proposal list \<Rightarrow> ('d, proposal list) io" where
  "put_proposals [] = ret []"
| "put_proposals (p # ps) =
     andthen (if delete p then ret p else andthen (putcompressed p) (\<lambda>_. ret (p\<lparr>delete := True\<rparr>))) (\<lambda>p'.
       andthen (put_proposals ps) (\<lambda>ps'. ret (p' # ps')))"

text \<open>The result is the return value, the proposals, and the new \<open>nproplist\<close>.\<close>

definition b2outboundproposal :: "cstr \<Rightarrow> proposal list \<Rightarrow> nat \<Rightarrow> ('d, int \<times> proposal list \<times> nat) io" where
  "b2outboundproposal lastcommand props n =
     (if n < length props then
        andthen (offer (take PROPLIMIT (drop n props)) 0) (\<lambda>cksum.
        andthen (send (bytes ''F> '' @ show_hex2 (unat (low_byte_neg cksum)) @ [13])) (\<lambda>_.
        andthen getline_or_exit (\<lambda>line.
        andthen (skip_lines (bytes '';PM:'') line) (\<lambda>line.
        andthen (skip_lines (bytes '';FW:'') line) (\<lambda>line.
          if \<not> strbegins line (bytes ''FS '') then fail
          else
            case answers (dropWhile is_space (drop 3 line)) (drop n props) of
              None \<Rightarrow> fail
            | Some ps \<Rightarrow>
                andthen (put_proposals (take PROPLIMIT ps)) (\<lambda>ps'.
                  ret (0, take n props @ ps' @ drop PROPLIMIT ps, n + length ps')))))))
      else if strbegins lastcommand (bytes ''FF'') then
        andthen (send (bytes ''FQ'' @ [13])) (\<lambda>_. ret (-1, props, n))
      else
        andthen (send (bytes ''FF'' @ [13])) (\<lambda>_. ret (0, props, n)))"

section \<open>Reading lines\<close>

definition line_ok :: "'d world \<Rightarrow> bool" where
  "line_ok w \<longleftrightarrow> timeout_flag w = 1 \<and> (case linebuf w of None \<Rightarrow> True | Some b \<Rightarrow> buffer_inv b)"

definition kept :: "u8 list \<Rightarrow> u8 list" where
  "kept l = filter (\<lambda>c. c \<noteq> 0x1e \<and> is_ascii c \<and> c \<noteq> 10) l"

lemma kept_simps [simp]:
  "kept [] = []" "kept (c # l) = (if c \<noteq> 0x1e \<and> is_ascii c \<and> c \<noteq> 10 then c # kept l else kept l)"
  by (simp_all add: kept_def)

lemma tgetline_loop:
  assumes "inp w = l @ 13 # rest" "13 \<notin> set l" "buffer_inv buf" "timeout_flag w = 1"
    and "plenty (mem w) (2 * (dlen buf + length l + 1))"
  shows "\<exists>b'. io_loop (tgetline_step 13 10) buf w
      = Some (Returned (Some (cut_nul (contents buf @ kept l))), (took w rest)\<lparr>linebuf := Some b'\<rparr>) \<and> buffer_inv b'"
  using assms
proof (induction l arbitrary: w buf)
  case Nil
  have "plenty (mem w) (2 * Suc (dlen buf))" using Nil.prems(5) by simp
  then obtain b' where b: "buffer_addchar (mem w) buf 0 = (0, b')"
    using buffer_addchar_plenty [OF Nil.prems(3)] by (metis prod.collapse)
  have b': "buffer_inv b'" "contents b' = contents buf @ [0]"
    using buffer_addchar_ok [OF Nil.prems(3) b] by simp_all
  have "cstring (data b') = Some (cut_nul (contents buf))"
    using cstring_contents [OF b'(1)] b'(2) takeWhile_nul_snoc by simp
  then have "tgetline_step 13 10 buf w
      = Some (Returned (Inr (Some (cut_nul (contents buf)))), (took w rest)\<lparr>linebuf := Some b'\<rparr>)"
    using Nil.prems(1) b
    by (simp add: tgetline_step_def andthen_def resettimeout_def change_def fgetc_def look_def ret_def is_ascii_def took_def)
  from io_loop_done [of "tgetline_step 13 10", OF this] b'(1) show ?case by auto
next
  case (Cons c l)
  have c: "c \<noteq> 13" using Cons.prems(2) by simp
  show ?case
  proof (cases "c \<noteq> 0x1e \<and> is_ascii c \<and> c \<noteq> 10")
    case True
    have "plenty (mem w) (2 * Suc (dlen buf))" by (rule plenty_le [OF Cons.prems(5)]) simp
    then obtain b1 where b: "buffer_addchar (mem w) buf (ucast c) = (0, b1)"
      using buffer_addchar_plenty [OF Cons.prems(3)] by (metis prod.collapse)
    have b1: "buffer_inv b1" "contents b1 = contents buf @ [c]"
      using buffer_addchar_ok [OF Cons.prems(3) b] by simp_all
    have d: "dlen b1 = Suc (dlen buf)"
      using length_contents [OF b1(1)] length_contents [OF Cons.prems(3)] b1(2) by simp
    have st: "tgetline_step 13 10 buf w = Some (Returned (Inl b1), took w (l @ 13 # rest))"
      using Cons.prems(1,4) c b True
      by (simp add: tgetline_step_def andthen_def resettimeout_def change_def fgetc_def look_def ret_def took_def)
    have "plenty (mem (took w (l @ 13 # rest))) (2 * (dlen b1 + length l + 1))"
      using Cons.prems(5) d by simp
    then show ?thesis
      unfolding io_loop_next [of "tgetline_step 13 10", OF st]
      using Cons.IH [of "took w (l @ 13 # rest)" b1] Cons.prems b1 True by (simp add: took_def)
  next
    case False
    have st: "tgetline_step 13 10 buf w = Some (Returned (Inl buf), took w (l @ 13 # rest))"
      using Cons.prems(1,4) c False
      by (auto simp: tgetline_step_def andthen_def resettimeout_def change_def fgetc_def look_def ret_def took_def is_ascii_def)
    have "plenty (mem (took w (l @ 13 # rest))) (2 * (dlen buf + length l + 1))"
      by (simp add: plenty_le [OF Cons.prems(5)])
    then show ?thesis
      unfolding io_loop_next [of "tgetline_step 13 10", OF st]
      using Cons.IH [of "took w (l @ 13 # rest)" buf] Cons.prems False by (auto simp: took_def)
  qed
qed

text \<open>The state after a line: only the input, the timer and the static buffer have changed.\<close>

definition read_line :: "'d world \<Rightarrow> u8 list \<Rightarrow> 'd world \<Rightarrow> bool" where
  "read_line w rest w' \<longleftrightarrow> (\<exists>b. w' = (took w rest)\<lparr>linebuf := Some b\<rparr> \<and> buffer_inv b)"

lemma buffer_truncate_inv: "buffer_inv b \<Longrightarrow> buffer_inv (buffer_truncate b) \<and> contents (buffer_truncate b) = [] \<and> dlen (buffer_truncate b) = 0"
  by (simp add: buffer_truncate_def buffer_inv_def contents_def)

lemma wl2kgetline_line:
  assumes "inp w = l @ 13 # rest" "13 \<notin> set l" "line_ok w" "plenty (mem w) (2 * length l + 32)"
  shows "\<exists>w'. wl2kgetline w = Some (Returned (Some (cut_nul (kept l))), w') \<and> read_line w rest w'"
proof -
  have "\<exists>b. (case linebuf w of None \<Rightarrow> (case buffer_new (mem w) of None \<Rightarrow> fail | Some b \<Rightarrow> ret b)
        | Some b \<Rightarrow> ret (buffer_truncate b)) w = Some (Returned b, w) \<and> buffer_inv b \<and> contents b = [] \<and> dlen b = 0"
  proof (cases "linebuf w")
    case None
    obtain b where "buffer_new (mem w) = Some b" using buffer_new_plenty [OF assms(4)] by auto
    with None show ?thesis using buffer_new_fresh by (auto simp: ret_def)
  next
    case (Some b)
    then have "buffer_inv b" using assms(3) by (simp add: line_ok_def)
    with Some show ?thesis using buffer_truncate_inv by (auto simp: ret_def)
  qed
  then obtain b where b: "(case linebuf w of None \<Rightarrow> (case buffer_new (mem w) of None \<Rightarrow> fail | Some b \<Rightarrow> ret b)
        | Some b \<Rightarrow> ret (buffer_truncate b)) w = Some (Returned b, w)" "buffer_inv b" "contents b = []" "dlen b = 0"
    by blast
  have "plenty (mem w) (2 * (dlen b + length l + 1))" by (rule plenty_le [OF assms(4)]) (simp add: b(4))
  from tgetline_loop [OF assms(1,2) b(2) _ this] assms(3) b(3) obtain b' where
    "io_loop (tgetline_step 13 10) b w = Some (Returned (Some (cut_nul (kept l))), (took w rest)\<lparr>linebuf := Some b'\<rparr>)"
    "buffer_inv b'" by (auto simp: line_ok_def)
  moreover have "wl2kgetline w = io_loop (tgetline_step 13 10) b w"
    unfolding wl2kgetline_def tgetline_def using b(1) by (simp add: andthen_def look_def)
  ultimately show ?thesis unfolding read_line_def by auto
qed

text \<open>The same for any input: what changes is the input, the timer and the static buffer.\<close>

definition heard :: "'d world \<Rightarrow> 'd world \<Rightarrow> bool" where
  "heard w w' \<longleftrightarrow> (\<exists>i t b. w' = w\<lparr>inp := i, alarm := t, linebuf := b\<rparr> \<and> length i \<le> length (inp w)) \<and>
     (line_ok w \<longrightarrow> line_ok w')"

lemma heard_refl [simp]: "heard w w"
  unfolding heard_def by (intro conjI exI [of _ "inp w"] exI [of _ "alarm w"] exI [of _ "linebuf w"]) simp_all

lemma heardI:
  "length i \<le> length (inp w) \<Longrightarrow> (line_ok w \<Longrightarrow> case b of None \<Rightarrow> True | Some b \<Rightarrow> buffer_inv b) \<Longrightarrow>
   heard w (w\<lparr>inp := i, alarm := t, linebuf := b\<rparr>)"
  unfolding heard_def by (auto simp: line_ok_def)

lemma heard_trans:
  assumes "heard u v" "heard v w" shows "heard u w"
proof -
  obtain i t b where v: "v = u\<lparr>inp := i, alarm := t, linebuf := b\<rparr>" "length i \<le> length (inp u)"
    using assms(1) by (auto simp: heard_def)
  obtain j s c where w: "w = v\<lparr>inp := j, alarm := s, linebuf := c\<rparr>" "length j \<le> length (inp v)"
    using assms(2) by (auto simp: heard_def)
  have "w = u\<lparr>inp := j, alarm := s, linebuf := c\<rparr>" "length j \<le> length (inp u)" using v w by simp_all
  then show ?thesis using assms by (auto simp: heard_def)
qed

lemma heard_line_ok: "heard w w' \<Longrightarrow> line_ok w \<Longrightarrow> line_ok w'"
  by (simp add: heard_def)

lemma heard_outp: "heard w w' \<Longrightarrow> outp w' = outp w \<and> mem w' = mem w \<and> length (inp w') \<le> length (inp w)"
  by (auto simp: heard_def)

lemma ends_tgetline_step:
  assumes b: "buffer_inv b" and t: "timeout_flag v = 1"
    and eof: "inp v = [] \<Longrightarrow> Q (Inr None) (v\<lparr>alarm := timeoutsecs v, linebuf := Some b\<rparr>)"
    and skip: "\<And>c cs b'. inp v = c # cs \<Longrightarrow> buffer_inv b' \<Longrightarrow> Q (Inl b') (took v cs)"
    and line: "\<And>c cs b' l. inp v = c # cs \<Longrightarrow> buffer_inv b' \<Longrightarrow> Q (Inr (Some l)) ((took v cs)\<lparr>linebuf := Some b'\<rparr>)"
  shows "ends (tgetline_step x y b) v Q"
proof (cases "inp v")
  case Nil
  then show ?thesis using eof by (simp add: tgetline_step_def io_rules resettimeout_def)
next
  case (Cons c cs)
  obtain r b1 where a0: "buffer_addchar (mem v) b 0 = (r, b1)" by fastforce
  obtain s b2 where a1: "(if c \<noteq> y then buffer_addchar (mem v) b (ucast c) else (0, b)) = (s, b2)" by fastforce
  have r: "buffer_inv b1 \<and> (\<exists>l. cstring (data b1) = Some l)" if "r \<noteq> -1"
  proof -
    have "r = 0" using buffer_addchar_fail [OF a0] that by blast
    then show ?thesis
      using buffer_addchar_ok [OF b, of "mem v" 0 b1] a0 cstring_contents [of b1] by simp
  qed
  have s: "buffer_inv b2" if "s \<noteq> -1"
  proof (cases "c \<noteq> y")
    case True
    then have "s = 0" using buffer_addchar_fail [of "mem v" b "ucast c" s b2] a1 that by auto
    then show ?thesis using buffer_addchar_ok [OF b, of "mem v" "ucast c" b2] a1 True by simp
  next
    case False
    then show ?thesis using a1 b by simp
  qed
  have "took v cs = v\<lparr>alarm := timeoutsecs v, inp := cs\<rparr>" by (simp add: took_def)
  note Q = skip [OF Cons, unfolded this] line [OF Cons, unfolded this]
  show ?thesis
    using r s t Cons a1
    by (auto simp: tgetline_step_def io_rules resettimeout_def a0 b intro: Q split: prod.split)
qed

lemma ends_wl2kgetline:
  assumes ok: "line_ok w"
    and Q: "\<And>x w'. heard w w' \<Longrightarrow> (x \<noteq> None \<longrightarrow> length (inp w') < length (inp w)) \<Longrightarrow> Q x w'"
  shows "ends wl2kgetline w Q"
proof -
  have "ends (io_loop (tgetline_step 13 10) b) w Q" if b: "buffer_inv b" for b
  proof (rule ends_io_loop [where I = "\<lambda>b v. buffer_inv b \<and> (\<exists>i t. v = w\<lparr>inp := i, alarm := t\<rparr> \<and> length i \<le> length (inp w))"
        and f = "\<lambda>b v. length (inp v)"])
    have "w = w\<lparr>inp := inp w, alarm := alarm w\<rparr>" by simp
    then show "buffer_inv b \<and> (\<exists>i t. w = w\<lparr>inp := i, alarm := t\<rparr> \<and> length i \<le> length (inp w))" using b by blast
    fix b v assume I: "buffer_inv b \<and> (\<exists>i t. v = w\<lparr>inp := i, alarm := t\<rparr> \<and> length i \<le> length (inp w))"
    then obtain i t where v: "buffer_inv b" "v = w\<lparr>inp := i, alarm := t\<rparr>" "length i \<le> length (inp w)" by blast
    have tf: "timeout_flag v = 1" using ok v(2) by (simp add: line_ok_def)
    have eof: "Q None (v\<lparr>alarm := timeoutsecs v, linebuf := Some b\<rparr>)" if "inp v = []"
    proof -
      have "v\<lparr>alarm := timeoutsecs v, linebuf := Some b\<rparr> = w\<lparr>inp := [], alarm := timeoutsecs w, linebuf := Some b\<rparr>"
        using v(2) that by simp
      then show ?thesis by (auto intro!: Q heardI simp: v(1))
    qed
    have line: "Q (Some l) ((took v cs)\<lparr>linebuf := Some b'\<rparr>)" if "inp v = c # cs" "buffer_inv b'" for c cs b' l
    proof -
      have "(took v cs)\<lparr>linebuf := Some b'\<rparr> = w\<lparr>inp := cs, alarm := timeoutsecs w, linebuf := Some b'\<rparr>"
        using v(2) by (simp add: took_def)
      moreover have "Q (Some l) (w\<lparr>inp := cs, alarm := timeoutsecs w, linebuf := Some b'\<rparr>)"
        by (rule Q, rule heardI) (use that v in auto)
      ultimately show ?thesis by simp
    qed
    have more: "(\<exists>i t. took v cs = w\<lparr>inp := i, alarm := t\<rparr> \<and> length i \<le> length (inp w)) \<and> length (inp (took v cs)) < length (inp v)"
      if "inp v = c # cs" for c cs
    proof -
      have "took v cs = w\<lparr>inp := cs, alarm := timeoutsecs w\<rparr>" using v(2) by (simp add: took_def)
      moreover have "length cs \<le> length (inp w)" using that v by simp
      ultimately show ?thesis using that by auto
    qed
    show "ends (tgetline_step 13 10 b) v (\<lambda>x v'. case x of
        Inl b' \<Rightarrow> (buffer_inv b' \<and> (\<exists>i t. v' = w\<lparr>inp := i, alarm := t\<rparr> \<and> length i \<le> length (inp w))) \<and> length (inp v') < length (inp v)
      | Inr r \<Rightarrow> Q r v')"
      by (rule ends_tgetline_step [OF v(1) tf]) (use eof line more in auto)
  qed
  then show ?thesis
    unfolding wl2kgetline_def tgetline_def
    using ok by (auto simp: io_rules line_ok_def buffer_truncate_inv buffer_new_fresh split: option.split)
qed

section \<open>Proposals as text\<close>

text \<open>A proposal whose line the other side can read.\<close>

definition prop_ok :: "proposal \<Rightarrow> bool" where
  "prop_ok p \<longleftrightarrow> code p = 67 \<and> type p \<in> {67, 69} \<and> length (mid p) \<le> 12 \<and> 32 \<notin> set (mid p) \<and> 0 \<notin> set (mid p) \<and>
     usize p \<le> ULONG_MAX \<and> csize p < 2 ^ 32"

definition proposal_text :: "proposal \<Rightarrow> cstr" where
  "proposal_text p = [70, code p, 32, type p, 77, 32] @ mid p @ [32] @ show_dec (usize p) @ [32] @ show_dec (csize p) @ [32, 48]"

lemma show_dec_chars: "c \<in> set (show_dec n) \<Longrightarrow> 48 \<le> c \<and> c \<le> 57"
  using show_dec_digits [of c n]
  by (auto simp: is_digit_def digit_value_def word_le_nat_alt split: if_splits option.splits)

lemma proposal_line_text:
  assumes "prop_ok p"
  shows "proposal_line p = proposal_text p @ [13]"
proof -
  have "0 \<notin> set (show_dec n)" for n using show_dec_chars [of 0 n] by auto
  then have "0 \<notin> set (proposal_text p @ [13])" using assms by (auto simp: prop_ok_def proposal_text_def)
  from cut_nul_id [OF this] show ?thesis by (simp add: proposal_line_def proposal_text_def)
qed

lemma take_mid_mid: "32 \<notin> set m \<Longrightarrow> length m \<le> n \<Longrightarrow> take_mid n (m @ 32 # cp) = Some (m, 32 # cp)"
proof (induction m arbitrary: n)
  case Nil
  then show ?case by (cases n) auto
next
  case (Cons c m)
  then show ?case by (cases n) auto
qed

lemma parse_proposal_text:
  assumes "prop_ok p"
  shows "parse_proposal prev (Some (proposal_text p)) = Some (prev\<lparr>code := 67, type := type p, mid := mid p, usize := usize p,
    csize := csize p, path := None, cbuf := None, ubuf := None, delete := False\<rparr>)"
proof -
  have p: "code p = 67" "type p = 67 \<or> type p = 69" "take_mid MID_MAXLEN (mid p @ 32 # cp) = Some (mid p, 32 # cp)"
      "usize p \<le> ULONG_MAX" "csize p \<le> ULONG_MAX" "csize p mod 4294967296 = csize p" for cp
    using assms take_mid_mid [of "mid p" 12 cp] by (auto simp: prop_ok_def MID_MAXLEN_def ULONG_MAX_def)
  have sp: "\<not> is_digit 10 32" by (simp add: is_digit_def digit_value_def)
  have u: "strtoul 10 (show_dec (usize p) @ 32 # cp) = (usize p, 32 # cp)" for cp
    by (rule strtoul_show_dec [OF p(4)]) (simp add: sp)
  have c: "strtoul 10 (show_dec (csize p) @ 32 # cp) = (csize p, 32 # cp)" for cp
    by (rule strtoul_show_dec [OF p(5)]) (simp add: sp)
  show ?thesis
    using p(2) by (auto simp: parse_proposal_def proposal_text_def p(1,3,6) u c at_def intro: proposal.equality)
qed

text \<open>The line is made of ASCII characters other than those a line cannot carry.\<close>

definition line_char :: "u8 \<Rightarrow> bool" where
  "line_char c \<longleftrightarrow> 32 \<le> c \<and> c < 127"

lemma line_chars:
  assumes "\<forall>c \<in> set l. line_char c"
  shows "13 \<notin> set l" "cut_nul (kept l) = l"
proof -
  show "13 \<notin> set l" using assms by (auto simp: line_char_def)
  have ne: "\<not> line_char 10" "\<not> line_char 0x1e" "\<not> line_char 0" by (simp_all add: line_char_def)
  have "kept l = l"
    using assms unfolding kept_def filter_id_conv
    by (auto simp: is_ascii_def line_char_def word_less_nat_alt word_le_nat_alt)
  moreover have "0 \<notin> set l" using assms ne by auto
  ultimately show "cut_nul (kept l) = l" using cut_nul_id by metis
qed

section \<open>What deleting and answering do\<close>

definition without_files :: "'d world \<Rightarrow> cstr set \<Rightarrow> 'd world" where
  "without_files w S = w\<lparr>outbox := filter (\<lambda>e. \<not> (unlinkable w (fst e) \<and> fst e \<in> S)) (outbox w)\<rparr>"

lemma without_files_none [simp]: "without_files w {} = w"
  by (simp add: without_files_def)

lemma without_files_union: "without_files (without_files w S) T = without_files w (S \<union> T)"
  by (auto simp: without_files_def filter_filter intro!: arg_cong [of _ _ "\<lambda>x. outbox_update (\<lambda>_. x) w"] filter_cong)

lemma unlink_effect: "\<exists>b. unlink f w = Some (Returned b, without_files w {f})"
proof (cases "unlinkable w f \<and> f \<in> fst ` set (outbox w)")
  case True
  then have "filter (\<lambda>e. fst e \<noteq> f) (outbox w) = filter (\<lambda>e. \<not> (unlinkable w (fst e) \<and> fst e \<in> {f})) (outbox w)"
    by (intro filter_cong) auto
  then have "without_files w {f} = w\<lparr>outbox := filter (\<lambda>e. fst e \<noteq> f) (outbox w)\<rparr>"
    unfolding without_files_def by (simp only:)
  with True show ?thesis by (auto simp: unlink_def)
next
  case False
  then have "filter (\<lambda>e. \<not> (unlinkable w (fst e) \<and> fst e \<in> {f})) (outbox w) = outbox w"
    unfolding filter_id_conv by (auto simp: image_iff)
  then have "without_files w {f} = w" unfolding without_files_def by simp
  with False show ?thesis by (auto simp: unlink_def)
qed

text \<open>The files of the proposals that are marked.\<close>

definition marked_files :: "proposal list \<Rightarrow> cstr set" where
  "marked_files ps = {f. \<exists>p \<in> set ps. delete p \<and> path p = Some f}"

definition unmark :: "proposal \<Rightarrow> proposal" where
  "unmark p = (if path p = None then p else p\<lparr>delete := False\<rparr>)"

lemma delete_props_effect:
  "delete_props ps w = Some (Returned (map unmark ps), without_files w (marked_files ps))"
proof (induction ps arbitrary: w)
  case Nil
  then show ?case by (simp add: ret_def marked_files_def)
next
  case (Cons p ps)
  show ?case
  proof (cases "delete p \<and> path p \<noteq> None")
    case False
    then have same: "(case path p of Some f \<Rightarrow> if delete p then andthen (unlink f) (\<lambda>_. ret (p\<lparr>delete := False\<rparr>)) else ret p
              | None \<Rightarrow> ret p) = ret (unmark p)"
      by (cases p) (auto simp: unmark_def split: option.split)
    have "marked_files (p # ps) = marked_files ps" using False by (auto simp: marked_files_def)
    then show ?thesis unfolding delete_props.simps same using Cons.IH [of w] by (simp add: andthen_def ret_def)
  next
    case True
    then obtain f where f: "path p = Some f" "delete p" by blast
    obtain b where u: "unlink f w = Some (Returned b, without_files w {f})" using unlink_effect by blast
    have "marked_files (p # ps) = {f} \<union> marked_files ps" using f by (auto simp: marked_files_def)
    then show ?thesis
      using f u Cons.IH [of "without_files w {f}"] by (simp add: andthen_def ret_def unmark_def without_files_union)
  qed
qed

lemma dodelete_effect:
  "dodelete props n w = Some (Returned (map unmark (take n props) @ drop n props), without_files w (marked_files (take n props)))"
  by (simp add: dodelete_def andthen_def delete_props_effect ret_def)

text \<open>Sending: what is not marked is sent, in order, and then marked.\<close>

definition sendable :: "proposal \<Rightarrow> bool" where
  "sendable p \<longleftrightarrow> (\<exists>t b. title p = Some t \<and> 0 \<notin> set t \<and> cbuf p = Some b \<and> buffer_inv b \<and> csize p = dlen b \<and>
     6 \<le> dlen b \<and> dlen b \<le> 8000000)"

definition frame_of :: "proposal \<Rightarrow> u8 list" where
  "frame_of p = frame (the (title p)) (contents (the (cbuf p)))"

lemma sendable_frame:
  assumes "sendable p" "offset p = 0" "writes w = None"
  shows "putcompressed p w = Some (Returned (), quiet w (frame_of p))"
proof -
  obtain t b where p: "title p = Some t" "0 \<notin> set t" "cbuf p = Some b" "buffer_inv b" "csize p = dlen b"
      "6 \<le> dlen b" "dlen b \<le> 8000000" using assms(1) by (auto simp: sendable_def)
  have "byte_sum (contents b) < 2 ^ 31" using byte_sum_bound [of "contents b"] p by simp
  from putcompressed_frame [OF p(1,3,4,5,6) assms(2) this assms(3)] show ?thesis
    by (simp add: frame_of_def p)
qed

lemma put_proposals_sent:
  assumes "\<forall>p \<in> set ps. \<not> delete p \<longrightarrow> sendable p \<and> offset p = 0" "writes w = None" "alarm w = timeoutsecs w"
  shows "put_proposals ps w = Some (Returned (map (\<lambda>p. p\<lparr>delete := True\<rparr>) ps),
    quiet w (concat (map frame_of (filter (\<lambda>p. \<not> delete p) ps))))"
  using assms
proof (induction ps arbitrary: w)
  case Nil
  then have "quiet w [] = w" by (cases w) (simp add: quiet_def)
  then show ?case by (simp add: ret_def)
next
  case (Cons p ps)
  show ?case
  proof (cases "delete p")
    case True
    then have "p\<lparr>delete := True\<rparr> = p" by (cases p) simp
    then show ?thesis using True Cons.IH [of w] Cons.prems by (simp add: andthen_def ret_def)
  next
    case False
    then have s: "putcompressed p w = Some (Returned (), quiet w (frame_of p))"
      using sendable_frame [of p w] Cons.prems by simp
    have "alarm (quiet w (frame_of p)) = timeoutsecs (quiet w (frame_of p))" by (simp add: quiet_def)
    then show ?thesis
      using s False Cons.IH [of "quiet w (frame_of p)"] Cons.prems by (simp add: andthen_def ret_def)
  qed
qed

lemma offer_sent:
  "writes w = None \<Longrightarrow> alarm w = timeoutsecs w \<Longrightarrow> \<forall>p \<in> set ps. granted (mem w) (length (proposal_line p) + 1) \<Longrightarrow>
   offer ps cksum w = Some (Returned (cksum + byte_sum (concat (map proposal_line ps))), quiet w (concat (map proposal_line ps)))"
proof (induction ps arbitrary: cksum w)
  case Nil
  then have "quiet w [] = w" by (cases w) (simp add: quiet_def)
  then show ?case by (simp add: ret_def)
next
  case (Cons p ps)
  have s: "send (proposal_line p) w = Some (Returned (), quiet w (proposal_line p))"
    using Cons.prems(1) by (simp add: send_quiet)
  have "alarm (quiet w (proposal_line p)) = timeoutsecs (quiet w (proposal_line p))" by (simp add: quiet_def)
  moreover have "asprintf_or_exit (proposal_line p) w = Some (Returned (proposal_line p), w)"
    by (rule asprintf_returned) (use Cons.prems(3) in simp)
  ultimately show ?case
    using s Cons.IH [of "quiet w (proposal_line p)"] Cons.prems(1,3) by (simp add: andthen_def add.assoc)
qed

text \<open>The offer of a batch: the lines, and the line with their checksum.\<close>

definition batch_offer :: "proposal list \<Rightarrow> u8 list" where
  "batch_offer ps = concat (map proposal_line ps) @
     bytes ''F> '' @ show_hex2 (unat (low_byte_neg (byte_sum (concat (map proposal_line ps))))) @ [13]"

lemma skip_lines_none: "\<not> strbegins line prefix \<Longrightarrow> skip_lines prefix line w = Some (Returned line, w)"
  unfolding skip_lines_def by (rule io_loop_done) (simp add: ret_def)

text \<open>
  One call of \<open>b2outboundproposal\<close> with proposals to offer and an answer line from the other side.
\<close>

lemma b2outbound_answered:
  assumes n: "n < length props" and w: "writes w = None" "alarm w = timeoutsecs w" "line_ok w"
    and i: "inp w = bytes ''FS '' @ ans @ 13 # rest" and a: "\<forall>c \<in> set ans. line_char c"
    and mem: "plenty (mem w) (2 * length ans + 40)"
      "\<forall>p \<in> set (take PROPLIMIT (drop n props)). granted (mem w) (length (proposal_line p) + 1)"
    and ps: "answers (dropWhile is_space ans) (drop n props) = Some ps"
    and s: "\<forall>p \<in> set (take PROPLIMIT ps). \<not> delete p \<longrightarrow> sendable p \<and> offset p = 0"
  shows "\<exists>w'. b2outboundproposal lastcommand props n w
      = Some (Returned (0, take n props @ map (\<lambda>p. p\<lparr>delete := True\<rparr>) (take PROPLIMIT ps) @ drop PROPLIMIT ps,
          n + length (take PROPLIMIT ps)), w') \<and>
    outp w' = outp w @ batch_offer (take PROPLIMIT (drop n props)) @
      concat (map frame_of (filter (\<lambda>p. \<not> delete p) (take PROPLIMIT ps))) \<and>
    inp w' = rest \<and> heard w (w'\<lparr>outp := outp w\<rparr>) \<and> alarm w' = timeoutsecs w'"
proof -
  define L where "L = concat (map proposal_line (take PROPLIMIT (drop n props)))"
  define F where "F = bytes ''F> '' @ show_hex2 (unat (low_byte_neg (byte_sum L))) @ [13]"
  define w1 where "w1 = quiet w (L @ F)"
  have o: "offer (take PROPLIMIT (drop n props)) 0 w = Some (Returned (byte_sum L), quiet w L)"
    using offer_sent [OF w(1,2) mem(2)] by (simp add: L_def)
  have f: "send F (quiet w L) = Some (Returned (), w1)" using w(1) by (simp add: send_quiet w1_def)
  have fs: "\<forall>c \<in> set (bytes ''FS '' @ ans). line_char c"
    using a by (auto simp: bytes_def byte_of_def line_char_def)
  have i1: "inp w1 = (bytes ''FS '' @ ans) @ 13 # rest" using i by (simp add: w1_def)
  have ok1: "line_ok w1" using w(3) by (simp add: w1_def quiet_def line_ok_def)
  have mem1: "plenty (mem w1) (2 * length (bytes ''FS '' @ ans) + 32)"
    by (simp add: w1_def) (rule plenty_le [OF mem(1)], simp add: bytes_def)
  obtain w2 where l: "wl2kgetline w1 = Some (Returned (Some (bytes ''FS '' @ ans)), w2)" "read_line w1 rest w2"
    using wl2kgetline_line [OF i1 line_chars(1) [OF fs] ok1 mem1] line_chars(2) [OF fs] by auto
  obtain b where w2: "w2 = (took w1 rest)\<lparr>linebuf := Some b\<rparr>" "buffer_inv b" using l(2) by (auto simp: read_line_def)
  have w2f: "writes w2 = None" "alarm w2 = timeoutsecs w2" "outp w2 = outp w @ L @ F" "inp w2 = rest"
    using w by (simp_all add: w2 took_def w1_def quiet_def)
  have nopm: "\<not> strbegins (bytes ''FS '' @ ans) (bytes '';PM:'')" "\<not> strbegins (bytes ''FS '' @ ans) (bytes '';FW:'')"
      "strbegins (bytes ''FS '' @ ans) (bytes ''FS '')" "drop 3 (bytes ''FS '') = []" "length (bytes ''FS '') = 3"
    by (simp_all add: bytes_def byte_of_def)
  define out where "out = concat (map frame_of (filter (\<lambda>p. \<not> delete p) (take PROPLIMIT ps)))"
  have p: "put_proposals (take PROPLIMIT ps) w2 = Some (Returned (map (\<lambda>p. p\<lparr>delete := True\<rparr>) (take PROPLIMIT ps)), quiet w2 out)"
    unfolding out_def by (rule put_proposals_sent [OF s w2f(1,2)])
  have "b2outboundproposal lastcommand props n w
      = Some (Returned (0, take n props @ map (\<lambda>p. p\<lparr>delete := True\<rparr>) (take PROPLIMIT ps) @ drop PROPLIMIT ps,
          n + length (take PROPLIMIT ps)), quiet w2 out)"
    unfolding b2outboundproposal_def F_def [symmetric] using n ps
    by (simp add: andthen_def o F_def [symmetric] f getline_or_exit_def l(1) ret_def skip_lines_none nopm p)
  moreover have "heard w ((quiet w2 out)\<lparr>outp := outp w\<rparr>)"
  proof -
    have "(quiet w2 out)\<lparr>outp := outp w\<rparr> = w\<lparr>inp := rest, alarm := timeoutsecs w, linebuf := Some b\<rparr>"
      by (simp add: w2 took_def w1_def quiet_def)
    moreover have "length rest \<le> length (inp w)" using i by simp
    ultimately show ?thesis using heardI [of rest w "Some b"] w2(2) by simp
  qed
  ultimately show ?thesis
    using w2f by (intro exI [of _ "quiet w2 out"])
      (simp add: out_def batch_offer_def L_def [symmetric] F_def, simp add: quiet_def)
qed

section \<open>Properties\<close>

text \<open>
  C20: A proposal survives its own line: the line \<open>b2outboundproposal\<close> sends for it (without the final
  carriage return, as \<open>wl2kgetline\<close> delivers it) is parsed back to the same type, id and sizes, whatever
  the static structure of \<open>parse_proposal\<close> held before.
\<close>

theorem proposal_round_trip:
  assumes "prop_ok p"
  shows "\<exists>line q. proposal_line p = line @ [13] \<and> parse_proposal prev (Some line) = Some q \<and>
    code q = code p \<and> type q = type p \<and> mid q = mid p \<and> usize q = usize p \<and> csize q = csize p \<and> \<not> delete q"
  using proposal_line_text [OF assms] parse_proposal_text [OF assms, of prev] assms by (auto simp: prop_ok_def)

lemma sample_proposal_ok: "prop_ok sample_proposal"
  by (simp add: prop_ok_def sample_proposal_def bytes_def byte_of_def ULONG_MAX_def)

theorem proposal_round_trip_witness:
  "\<exists>line q. proposal_line sample_proposal = line @ [13] \<and> parse_proposal sample_proposal (Some line) = Some q \<and>
    code q = code sample_proposal \<and> type q = type sample_proposal \<and> mid q = mid sample_proposal \<and>
    usize q = usize sample_proposal \<and> csize q = csize sample_proposal \<and> \<not> delete q"
  by (rule proposal_round_trip [OF sample_proposal_ok])

text \<open>The letters of an answer, one for each proposal of the batch: what each does to its proposal.\<close>

definition answer_letter :: "u8 \<Rightarrow> bool" where
  "answer_letter c \<longleftrightarrow> c \<in> set (bytes ''YyHh+NnRr-Ll='')"

definition refused :: "u8 \<Rightarrow> bool" where
  "refused c \<longleftrightarrow> c \<in> set (bytes ''NnRr-'')"

definition answered :: "proposal \<times> u8 \<Rightarrow> proposal" where
  "answered = (\<lambda>(p, c). p\<lparr>accepted := c \<in> set (bytes ''YyHh+''), delete := refused c, offset := 0\<rparr>)"

lemma letters_disjoint: "refused c \<Longrightarrow> c \<notin> set (bytes ''YyHh+'')"
  by (auto simp: refused_def bytes_def byte_of_def)

lemma answers_letters:
  assumes "length ans = length ps" "\<forall>c \<in> set ans. answer_letter c"
  shows "answers ans (ps @ qs) = Some (map answered (zip ps ans) @ qs)"
  using assms
proof (induction ans ps rule: list_induct2)
  case Nil
  then show ?case by (cases qs) simp_all
next
  case (Cons c ans p ps)
  have IH: "answers ans (ps @ qs) = Some (map answered (zip ps ans) @ qs)" using Cons by simp
  consider "lower_or_upper c ''YyHh+''" | "refused c" | "lower_or_upper c ''Ll=''"
    using Cons.prems by (auto simp: answer_letter_def refused_def lower_or_upper_def bytes_def)
  then show ?case
  proof cases
    case 1
    then have "\<not> refused c" "c \<in> set (bytes ''YyHh+'')" using letters_disjoint [of c] by (auto simp: lower_or_upper_def)
    then show ?thesis using IH by (simp add: lower_or_upper_def answered_def)
  next
    case 2
    then show ?thesis using IH letters_disjoint [OF 2]
      by (simp add: lower_or_upper_def answered_def) (simp add: refused_def)
  next
    case 3
    then have "\<not> refused c" "c \<notin> set (bytes ''YyHh+'')" by (auto simp: refused_def lower_or_upper_def bytes_def byte_of_def)
    then show ?thesis using IH 3 by (simp add: answered_def Let_def) (simp add: lower_or_upper_def refused_def)
  qed
qed

lemma answer_letter_line: "answer_letter c \<Longrightarrow> line_char c \<and> \<not> is_space c"
  by (auto simp: answer_letter_def bytes_def byte_of_def line_char_def is_space_def)

text \<open>
  C21: One round of sending.  Of the proposals from position \<open>n\<close> on, \<open>b2outboundproposal\<close> offers the first five, or all when
  there are fewer, with the checksum of their lines.  The other side answers with one letter for each.  Then exactly the messages
  whose letter is not N, n, R, r or - are sent, in order and each with its own title and content; all of the batch is marked for
  deletion, with the letter's Y, y, H, h or + kept in \<open>accepted\<close> and the offset 0; the proposals before and behind the batch are
  not touched, \<open>nproplist\<close> is advanced behind the batch, and nothing but the answer is consumed.  (The letters A, a and !,
  which carry an offset, are not among these answers.)  The timer runs with the full time, the lines and the answer have memory,
  writing does not fail, and the messages that are sent have a title and between 6 and 8000000 compressed bytes.
\<close>

theorem b2outbound_batch:
  assumes "n < length props" and "writes w = None" and "alarm w = timeoutsecs w" and "line_ok w"
    and "batch = take PROPLIMIT (drop n props)" and "length ans = length batch" and "\<forall>c \<in> set ans. answer_letter c"
    and "inp w = bytes ''FS '' @ ans @ 13 # rest" and "plenty (mem w) 50"
    and "\<forall>p \<in> set batch. granted (mem w) (length (proposal_line p) + 1)"
    and "\<forall>(p, c) \<in> set (zip batch ans). \<not> refused c \<longrightarrow> sendable p"
  shows "\<exists>w'. b2outboundproposal lastcommand props n w
      = Some (Returned (0, take n props @
            map (\<lambda>(p, c). p\<lparr>accepted := c \<in> set (bytes ''YyHh+''), delete := True, offset := 0\<rparr>) (zip batch ans) @
            drop (n + PROPLIMIT) props, n + length batch), w') \<and>
    outp w' = outp w @ batch_offer batch @ concat (map (\<lambda>(p, c). frame_of p) (filter (\<lambda>(p, c). \<not> refused c) (zip batch ans))) \<and>
    inp w' = rest"
proof -
  have len: "length ans \<le> 5" using assms(5,6) by (simp add: PROPLIMIT_def)
  have "drop n props = batch @ drop (n + PROPLIMIT) props" using assms(5) by (simp add: add.commute flip: drop_drop)
  moreover have "dropWhile is_space ans = ans" using assms(7) answer_letter_line by (cases ans) auto
  ultimately have ps: "answers (dropWhile is_space ans) (drop n props) = Some (map answered (zip batch ans) @ drop (n + PROPLIMIT) props)"
    using answers_letters [OF assms(6,7)] by simp
  have tk: "take PROPLIMIT (map answered (zip batch ans) @ drop (n + PROPLIMIT) props) = map answered (zip batch ans)"
       "drop PROPLIMIT (map answered (zip batch ans) @ drop (n + PROPLIMIT) props) = drop (n + PROPLIMIT) props"
    using assms(5,6) by (auto simp: min_def)
  have sent: "sendable (answered (p, c)) = sendable p" "frame_of (answered (p, c)) = frame_of p" for p c
    by (simp_all add: answered_def sendable_def frame_of_def)
  have "map (\<lambda>p. p\<lparr>delete := True\<rparr>) (map answered (zip batch ans))
      = map (\<lambda>(p, c). p\<lparr>accepted := c \<in> set (bytes ''YyHh+''), delete := True, offset := 0\<rparr>) (zip batch ans)"
    by (auto simp: answered_def)
  moreover have "map frame_of (filter (\<lambda>p. \<not> delete p) (map answered xs)) = map (\<lambda>(p, c). frame_of p) (filter (\<lambda>(p, c). \<not> refused c) xs)" for xs
    by (induction xs) (auto simp: sent answered_def frame_of_def)
  moreover have "\<forall>p \<in> set (map answered (zip batch ans)). \<not> delete p \<longrightarrow> sendable p \<and> offset p = 0"
    using assms(11) by (auto simp: answered_def sendable_def)
  moreover have "\<forall>c \<in> set ans. line_char c" using assms(7) answer_letter_line by blast
  moreover have "plenty (mem w) (2 * length ans + 40)" by (rule plenty_le [OF assms(9)]) (use len in simp)
  ultimately show ?thesis
    using b2outbound_answered [OF assms(1-4) assms(8) _ _ _ ps, of lastcommand, unfolded tk] assms(5,6,10) by auto
qed

lemma sample_sendable: "sendable sample_proposal"
  by (simp add: sendable_def sample_proposal_def bytes_buffer_inv bytes_def byte_of_def, simp add: bytes_buffer_def)

lemma sample_line: "granted (\<lambda>_. True) (Suc (length (proposal_line sample_proposal)))"
proof -
  have "length (proposal_line sample_proposal) \<le> 30"
    unfolding proposal_line_def cut_nul_def
    by (rule order_trans [OF length_takeWhile_le]) (simp add: sample_proposal_def bytes_def show_dec.simps)
  then show ?thesis by (simp add: granted_def)
qed

lemma sample_untitled_line: "proposal_line (sample_proposal\<lparr>title := None\<rparr>) = proposal_line sample_proposal"
  by (simp add: proposal_line_def)

theorem b2outbound_batch_witness:
  "\<exists>w'. b2outboundproposal [] [sample_proposal, sample_proposal\<lparr>title := None\<rparr>, sample_proposal] 0
        (sample_world (bytes ''FS '' @ bytes ''YNL'' @ 13 # bytes ''FF''))
      = Some (Returned (0, [sample_proposal\<lparr>accepted := True, delete := True, offset := 0\<rparr>,
          sample_proposal\<lparr>title := None, accepted := False, delete := True, offset := 0\<rparr>,
          sample_proposal\<lparr>accepted := False, delete := True, offset := 0\<rparr>], 3), w') \<and>
    outp w' = batch_offer [sample_proposal, sample_proposal\<lparr>title := None\<rparr>, sample_proposal] @
      frame_of sample_proposal @ frame_of sample_proposal \<and> inp w' = bytes ''FF''"
proof -
  let ?b = "[sample_proposal, sample_proposal\<lparr>title := None\<rparr>, sample_proposal]"
  let ?w = "sample_world (bytes ''FS '' @ bytes ''YNL'' @ 13 # bytes ''FF'')"
  have "\<exists>w'. b2outboundproposal [] ?b 0 ?w
      = Some (Returned (0, take 0 ?b @
            map (\<lambda>(p, c). p\<lparr>accepted := c \<in> set (bytes ''YyHh+''), delete := True, offset := 0\<rparr>) (zip ?b (bytes ''YNL'')) @
            drop (0 + PROPLIMIT) ?b, 0 + length ?b), w') \<and>
    outp w' = outp ?w @ batch_offer ?b @ concat (map (\<lambda>(p, c). frame_of p) (filter (\<lambda>(p, c). \<not> refused c) (zip ?b (bytes ''YNL'')))) \<and>
    inp w' = bytes ''FF''"
  proof (rule b2outbound_batch)
    show "\<forall>c \<in> set (bytes ''YNL''). answer_letter c" by (simp add: answer_letter_def bytes_def byte_of_def)
    show "\<forall>(p, c) \<in> set (zip ?b (bytes ''YNL'')). \<not> refused c \<longrightarrow> sendable p"
      using sample_sendable by (auto simp: refused_def bytes_def byte_of_def)
    show "\<forall>p \<in> set ?b. granted (mem ?w) (length (proposal_line p) + 1)" using sample_line by (simp add: sample_world_def sample_untitled_line)
  qed (simp_all add: sample_world_def line_ok_def plenty_all PROPLIMIT_def bytes_def)
  moreover have "map (\<lambda>(p, c). p\<lparr>accepted := c \<in> set (bytes ''YyHh+''), delete := True, offset := 0\<rparr>) (zip ?b (bytes ''YNL''))
      = [sample_proposal\<lparr>accepted := True, delete := True, offset := 0\<rparr>,
         sample_proposal\<lparr>title := None, accepted := False, delete := True, offset := 0\<rparr>,
         sample_proposal\<lparr>accepted := False, delete := True, offset := 0\<rparr>]"
    "concat (map (\<lambda>(p, c). frame_of p) (filter (\<lambda>(p, c). \<not> refused c) (zip ?b (bytes ''YNL'')))) = frame_of sample_proposal @ frame_of sample_proposal"
    by (simp_all add: bytes_def byte_of_def refused_def)
  moreover have "outp ?w = []" by (simp add: sample_world_def)
  ultimately show ?thesis by (simp add: PROPLIMIT_def numeral_3_eq_3)
qed



text \<open>
  The offset of a partial transfer is never read: after an answer \<open>A\<close>, \<open>a\<close> or \<open>!\<close> every remaining
  proposal is accepted from offset 0, whatever follows in the line, because the number is looked for at
  the letter itself.
\<close>

lemma offset_answer_ignored:
  assumes "c \<in> set (bytes ''Aa!'')"
  shows "answers (c # cp) ps = Some (map (\<lambda>p. p\<lparr>accepted := True, delete := False, offset := 0\<rparr>) ps)"
proof (induction ps)
  case Nil
  then show ?case by simp
next
  case (Cons p ps)
  have c: "c \<in> {65, 97, 33}" using assms by (auto simp: bytes_def byte_of_def)
  then have "\<not> is_space c" "\<not> is_digit 10 c" "c \<noteq> 43" "c \<noteq> 45"
    by (auto simp: is_space_def is_digit_def digit_value_def)
  then have "strtoul 10 (c # cp) = (0, c # cp)" by (simp add: strtoul_def Let_def)
  moreover have "\<not> lower_or_upper c ''YyHh+''" "\<not> lower_or_upper c ''NnRr-''" "\<not> lower_or_upper c ''Ll=''" "lower_or_upper c ''Aa!''"
    using c by (auto simp: lower_or_upper_def bytes_def byte_of_def)
  ultimately show ?case using Cons by (simp add: Let_def)
qed

lemma offset_answer_ignored_sample:
  "answers (33 # bytes ''5000'') [sample_proposal, sample_proposal]
    = Some (map (\<lambda>p. p\<lparr>accepted := True, delete := False, offset := 0\<rparr>) [sample_proposal, sample_proposal])"
  by (rule offset_answer_ignored) (simp add: bytes_def byte_of_def)

text \<open>
  \<open>dodelete\<close> removes from the outbox exactly the files of the marked proposals before \<open>nproplist\<close>
  that can be removed; every other file stays, and so does the rest of the process.
\<close>

lemma dodelete_removes_marked:
  "\<exists>ps w'. dodelete props n w = Some (Returned ps, w') \<and> map path ps = map path props \<and> w' = w\<lparr>outbox := outbox w'\<rparr> \<and>
    (\<forall>e. e \<in> set (outbox w') \<longleftrightarrow> e \<in> set (outbox w) \<and>
       \<not> (unlinkable w (fst e) \<and> (\<exists>p \<in> set (take n props). delete p \<and> path p = Some (fst e))))"
proof -
  define S where "S = marked_files (take n props)"
  have "map path (map unmark ps) = map path ps" for ps by (induction ps) (simp_all add: unmark_def)
  then have p: "map path (map unmark (take n props) @ drop n props) = map path props"
    by (metis append_take_drop_id map_append)
  have w: "without_files w S = w\<lparr>outbox := outbox (without_files w S)\<rparr>"
    by (simp add: without_files_def)
  have o: "e \<in> set (outbox (without_files w S)) \<longleftrightarrow> e \<in> set (outbox w) \<and>
      \<not> (unlinkable w (fst e) \<and> (\<exists>p \<in> set (take n props). delete p \<and> path p = Some (fst e)))" for e
    by (simp add: without_files_def S_def marked_files_def)
  show ?thesis
    using dodelete_effect [of props n w] p w o unfolding S_def [symmetric] by blast
qed

end
