(* ===== verification/Mid.thy ===== *)
theory Mid
  imports Process
begin

text \<open>
  mid.c: the database of message ids that have been received, with the time each was recorded.  The
  database library is the parameter \<open>dbops\<close>; what the properties need of it is the predicate
  \<open>db_laws\<close>, the documented behaviour of \<open>get\<close>, \<open>put\<close> and \<open>del\<close> on one key.
\<close>

section \<open>Operations\<close>

definition MID_EXPIREDAYS :: int where "MID_EXPIREDAYS = 30"

text \<open>A \<open>time_t\<close> as the eight bytes that are stored.\<close>

definition time_bytes :: "64 word \<Rightarrow> u8 list" where
  "time_bytes t = map (\<lambda>k. ucast (drop_bit (8 * k) t)) [0..<8]"

definition bytes_time :: "u8 list \<Rightarrow> 64 word" where
  "bytes_time bs = foldr (\<lambda>b t. ucast b OR push_bit 8 t) bs 0"

text \<open>\<open>difftime(now, stored) > (MID_EXPIREDAYS * 24 * 60 * 60)\<close>\<close>

definition expired :: "64 word \<Rightarrow> 64 word \<Rightarrow> bool" where
  "expired now stored \<longleftrightarrow> sint now - sint stored > MID_EXPIREDAYS * 24 * 60 * 60"

definition mid_key :: "cstr \<Rightarrow> u8 list" where
  "mid_key m = m @ [0]"

definition db_is_open :: "'d world \<Rightarrow> bool" where
  "db_is_open w = db_open (dbops w) (db w)"

text \<open>The result of \<open>del\<close> is not looked at; \<open>db_del\<close> gives the database afterwards, which is the one before when the call fails.\<close>

definition db_delete :: "u8 list \<Rightarrow> ('d, unit) io" where
  "db_delete k = change (\<lambda>w. w\<lparr>db := db_del (dbops w) (db w) k\<rparr>)"

definition record_mid :: "cstr \<Rightarrow> ('d, int) io" where
  "record_mid m = andthen (look db_is_open) (\<lambda>ok.
     if \<not> ok then ret (-1)
     else andthen time_now (\<lambda>now.
       andthen (look (\<lambda>w. db_put (dbops w) (db w) (mid_key m) (time_bytes now))) (\<lambda>(r, d).
       andthen (change (\<lambda>w. w\<lparr>db := d\<rparr>)) (\<lambda>_. ret r))))"

definition check_mid :: "cstr \<Rightarrow> ('d, int) io" where
  "check_mid m = andthen (look db_is_open) (\<lambda>ok.
     if \<not> ok then ret (-1)
     else andthen (look (\<lambda>w. db_get (dbops w) (db w) (mid_key m))) (\<lambda>d.
       case d of
         None \<Rightarrow> ret 0
       | Some v \<Rightarrow>
           if length v = 8 then
             andthen time_now (\<lambda>now.
               if expired now (bytes_time v) then andthen (db_delete (mid_key m)) (\<lambda>_. ret 0) else ret 1)
           else fail))"

fun expire_loop :: "(u8 list \<times> u8 list) list \<Rightarrow> ('d, unit) io" where
  "expire_loop [] = ret ()"
| "expire_loop ((k, v) # rs) =
     (if length v = 8 then
        andthen time_now (\<lambda>now.
          andthen (if expired now (bytes_time v) then db_delete k else ret ()) (\<lambda>_. expire_loop rs))
      else fail)"

definition expire_mids :: "('d, int) io" where
  "expire_mids = andthen (look db_is_open) (\<lambda>ok.
     if \<not> ok then ret (-1)
     else andthen (look (\<lambda>w. db_cursor (dbops w) (db w))) (\<lambda>(rs, fin).
       andthen (expire_loop rs) (\<lambda>_. if \<not> fin then fail else ret 0)))"

definition midchars :: "u8 list" where
  "midchars = bytes ''ABCDEFGHIJKLMNOPQRSTUVWXYZ0123456789''"

definition CALLSIGN_MAXLEN :: nat where "CALLSIGN_MAXLEN = 6"
definition MID_LENGTH :: nat where "MID_LENGTH = 12"

fun random_chars :: "nat \<Rightarrow> ('d, cstr) io" where
  "random_chars 0 = ret []"
| "random_chars (Suc n) = andthen random_next (\<lambda>x.
     andthen (random_chars n) (\<lambda>cs. ret (midchars ! (x mod length midchars) # cs)))"

text \<open>\<open>do { ... } while ((r = check_mid(mid)) > 0);\<close> the result is \<open>r\<close> and the id.\<close>

definition mid_step :: "nat \<Rightarrow> cstr \<Rightarrow> unit \<Rightarrow> ('d, unit + (int \<times> cstr)) io" where
  "mid_step rlen callsign = (\<lambda>_. andthen (random_chars rlen) (\<lambda>cs.
     let mid = cs @ [95] @ callsign in
     andthen (check_mid mid) (\<lambda>r. ret (if r > 0 then Inl () else Inr (r, mid)))))"

text \<open>\<open>if (!initialized) { srandom(time(NULL)); initialized = 1; }\<close>; the seed is not part of the model.\<close>

definition seed_random :: "('d, unit) io" where
  "seed_random = andthen (look initialized) (\<lambda>i.
     if i then ret () else andthen time_now (\<lambda>_. change (\<lambda>w. w\<lparr>initialized := True\<rparr>)))"

definition generate_mid :: "cstr \<Rightarrow> bool \<Rightarrow> ('d, cstr option) io" where
  "generate_mid callsign bRecordMid =
     (let clen = length callsign in
      if clen > CALLSIGN_MAXLEN then ret None
      else if MID_LENGTH - 1 - clen < 1 then ret None
      else
        andthen seed_random (\<lambda>_.
        andthen (io_loop (mid_step (MID_LENGTH - 1 - clen) callsign) ()) (\<lambda>(r, mid).
          if r < 0 then ret None
          else
            andthen (if bRecordMid then record_mid mid else ret 0) (\<lambda>_. andthen (look mem) (\<lambda>al.
              ret (if granted al (length mid + 1) then Some mid else None))))))"

section \<open>Lemmas\<close>

definition db_laws :: "'d dbops \<Rightarrow> bool" where
  "db_laws ops \<longleftrightarrow>
     (\<forall>d k v d'. db_put ops d k v = (0, d') \<longrightarrow>
        db_get ops d' k = Some v \<and> (\<forall>j. j \<noteq> k \<longrightarrow> db_get ops d' j = db_get ops d j)) \<and>
     (\<forall>d k. db_get ops (db_del ops d k) k = None \<and> (\<forall>j. j \<noteq> k \<longrightarrow> db_get ops (db_del ops d k) j = db_get ops d j))"

lemma time_bytes_length [simp]: "length (time_bytes t) = 8"
  by (simp add: time_bytes_def)

lemma bit_bytes_time:
  "length bs \<le> 8 \<Longrightarrow> n < 64 \<Longrightarrow> bit (bytes_time bs) n \<longleftrightarrow> n div 8 < length bs \<and> bit (bs ! (n div 8)) (n mod 8)"
proof (induction bs arbitrary: n)
  case Nil
  then show ?case by (simp add: bytes_time_def)
next
  case (Cons b bs)
  have step: "bytes_time (b # bs) = ucast b OR push_bit 8 (bytes_time bs)" by (simp add: bytes_time_def)
  show ?case
  proof (cases "n < 8")
    case True
    then show ?thesis using Cons.prems by (simp add: step bit_simps)
  next
    case False
    then have b: "\<not> bit b n" using bit_imp_le_length [of b n] by auto
    have n: "n div 8 = Suc ((n - 8) div 8)" "n mod 8 = (n - 8) mod 8"
      using False by (simp_all add: le_div_geq le_mod_geq)
    have "bit (bytes_time bs) (n - 8) \<longleftrightarrow> (n - 8) div 8 < length bs \<and> bit (bs ! ((n - 8) div 8)) ((n - 8) mod 8)"
      using Cons.prems by (intro Cons.IH) simp_all
    then show ?thesis using False Cons.prems b by (simp add: step bit_simps n)
  qed
qed

lemma time_round_trip [simp]: "bytes_time (time_bytes t) = t"
proof (rule bit_word_eqI)
  fix n assume n: "n < LENGTH(64)"
  then have "n div 8 < 8" by simp
  then have "bit (time_bytes t ! (n div 8)) (n mod 8) \<longleftrightarrow> bit t n"
    by (simp add: time_bytes_def bit_simps)
  then show "bit (bytes_time (time_bytes t)) n = bit t n"
    using n bit_bytes_time [of "time_bytes t" n] \<open>n div 8 < 8\<close> by simp
qed

lemma random_chars_ends:
  "(\<And>cs w'. length cs = n \<Longrightarrow> set cs \<subseteq> set midchars \<Longrightarrow> db w' = db w \<Longrightarrow> dbops w' = dbops w \<Longrightarrow> Q cs w') \<Longrightarrow>
   ends (random_chars n) w Q"
proof (induction n arbitrary: Q w)
  case 0
  then show ?case by (simp add: io_rules)
next
  case (Suc n)
  have m: "midchars ! (x mod length midchars) \<in> set midchars" for x
    by (rule nth_mem, rule mod_less_divisor) (simp add: midchars_def bytes_def)
  show ?case
    unfolding random_chars.simps random_next_def io_rules
    by (rule Suc.IH) (auto intro!: Suc.prems simp: m)
qed

lemma random_chars_length: "random_chars n w = Some (Returned cs, w') \<Longrightarrow> length cs = n"
  using random_chars_ends [of n w "\<lambda>cs _. length cs = n"] by (auto simp: ends_def)

text \<open>What \<open>check_mid\<close> reports about an id, and what it does to the database: only this id can go.\<close>

lemma ends_check_mid:
  assumes "db_laws (dbops w)"
    and "\<And>r w'. (r = 0 \<longrightarrow> db_get (dbops w) (db w') (mid_key m) = None) \<Longrightarrow>
     (r \<noteq> 0 \<longrightarrow> db w' = db w) \<Longrightarrow> (\<forall>k. k \<noteq> mid_key m \<longrightarrow> db_get (dbops w) (db w') k = db_get (dbops w) (db w) k) \<Longrightarrow>
     r \<in> {-1, 0, 1} \<Longrightarrow> dbops w' = dbops w \<Longrightarrow> Q r w'"
  shows "ends (check_mid m) w Q"
proof -
  have del: "db_get (dbops w) (db_del (dbops w) (db w) (mid_key m)) (mid_key m) = None"
      "k \<noteq> mid_key m \<Longrightarrow> db_get (dbops w) (db_del (dbops w) (db w) (mid_key m)) k = db_get (dbops w) (db w) k" for k
    using assms(1) by (simp_all add: db_laws_def)
  show ?thesis
    by (auto simp: check_mid_def time_now_def db_delete_def io_rules del split: option.split intro!: assms(2))
qed

section \<open>What the functions change\<close>

text \<open>Only the database, the clock, the random numbers and their seeding.\<close>

definition mids_only :: "'d world \<Rightarrow> 'd world \<Rightarrow> bool" where
  "mids_only w w' \<longleftrightarrow> (\<exists>d t r i. w' = w\<lparr>db := d, time_calls := t, random_calls := r, initialized := i\<rparr>)"

lemma mids_only_steps:
  "mids_only w (w\<lparr>db := d\<rparr>)" "mids_only w (w\<lparr>time_calls := t\<rparr>)" "mids_only w (w\<lparr>random_calls := r\<rparr>)"
  "mids_only w (w\<lparr>initialized := i\<rparr>)" "mids_only w w"
proof -
  have "w\<lparr>db := d\<rparr> = w\<lparr>db := d, time_calls := time_calls w, random_calls := random_calls w, initialized := initialized w\<rparr>"
    "w\<lparr>time_calls := t\<rparr> = w\<lparr>db := db w, time_calls := t, random_calls := random_calls w, initialized := initialized w\<rparr>"
    "w\<lparr>random_calls := r\<rparr> = w\<lparr>db := db w, time_calls := time_calls w, random_calls := r, initialized := initialized w\<rparr>"
    "w\<lparr>initialized := i\<rparr> = w\<lparr>db := db w, time_calls := time_calls w, random_calls := random_calls w, initialized := i\<rparr>"
    "w = w\<lparr>db := db w, time_calls := time_calls w, random_calls := random_calls w, initialized := initialized w\<rparr>"
    by (cases w, simp)+
  then show "mids_only w (w\<lparr>db := d\<rparr>)" "mids_only w (w\<lparr>time_calls := t\<rparr>)" "mids_only w (w\<lparr>random_calls := r\<rparr>)"
    "mids_only w (w\<lparr>initialized := i\<rparr>)" "mids_only w w"
    unfolding mids_only_def by blast+
qed

lemma mids_only_trans:
  assumes "mids_only u v" "mids_only v w"
  shows "mids_only u w"
proof -
  obtain d t r i d' t' r' i' where "v = u\<lparr>db := d, time_calls := t, random_calls := r, initialized := i\<rparr>"
      "w = v\<lparr>db := d', time_calls := t', random_calls := r', initialized := i'\<rparr>"
    using assms unfolding mids_only_def by blast
  then have "w = u\<lparr>db := d', time_calls := t', random_calls := r', initialized := i'\<rparr>" by simp
  then show ?thesis unfolding mids_only_def by blast
qed

interpretation mids: run_relation mids_only
  by unfold_locales (fact mids_only_steps(5), fact mids_only_trans)

lemma mids_only_fields:
  assumes "mids_only w w'"
  shows "mem w' = mem w" "outbox w' = outbox w" "outbox_ok w' = outbox_ok w" "creatable w' = creatable w" "tabs w' = tabs w"
    "inp w' = inp w" "outp w' = outp w" "writes w' = writes w" "mails w' = mails w" "sendmail w' = sendmail w"
    "sendmail_prefix w' = sendmail_prefix w" "to_text w' = to_text w" "linebuf w' = linebuf w" "dbops w' = dbops w"
    "gsendmsgonly_flag w' = gsendmsgonly_flag w" "timeoutsecs w' = timeoutsecs w" "unlinkable w' = unlinkable w"
  using assms by (auto simp: mids_only_def)

lemmas mids_intros = mids.keeps_then mids.keeps_ret mids.keeps_look mids.keeps_change mids.keeps_fail mids.keeps_exit mids_only_steps

lemma mids_time_now: "keeps mids_only (\<lambda>_. True) time_now"
  unfolding time_now_def by (intro mids_intros TrueI)

lemma mids_check_mid: "keeps mids_only (\<lambda>_. True) (check_mid m)"
  unfolding check_mid_def db_delete_def by (auto intro!: mids_intros mids_time_now split: option.splits)

lemma mids_record_mid: "keeps mids_only (\<lambda>_. True) (record_mid m)"
  unfolding record_mid_def by (auto intro!: mids_intros mids_time_now split: prod.splits)

lemma mids_random_chars: "keeps mids_only (\<lambda>_. True) (random_chars n)"
  by (induction n) (auto simp: random_next_def intro!: mids_intros)

lemma mids_generate_mid: "keeps mids_only (\<lambda>_. True) (generate_mid c rec)"
proof -
  have step: "keeps mids_only (case_sum (\<lambda>_. True) (\<lambda>_. True)) (mid_step n c u)" for n u
    unfolding mid_step_def Let_def by (auto intro!: mids_intros mids_random_chars mids_check_mid split: sum.split)
  have "keeps mids_only (\<lambda>_. True) (io_loop (mid_step n c) ())" for n
    by (rule mids.keeps_io_loop [where I = "\<lambda>_. True"]) (simp, rule step)
  then show ?thesis
    unfolding generate_mid_def Let_def seed_random_def
    by (auto intro!: mids_intros mids_time_now mids_record_mid split: prod.splits)
qed

section \<open>Properties\<close>

text \<open>Any checks and records, one after the other, with the results of the checks.\<close>

datatype mid_op = Check cstr | Record cstr

fun run_mids :: "mid_op list \<Rightarrow> ('d, int list) io" where
  "run_mids [] = ret []"
| "run_mids (Check m # os) = andthen (check_mid m) (\<lambda>r. andthen (run_mids os) (\<lambda>rs. ret (r # rs)))"
| "run_mids (Record m # os) = andthen (record_mid m) (\<lambda>_. run_mids os)"

text \<open>A database that stays open, takes every record and has times of eight bytes, with the id under one of the times of the clock from \<open>a\<close> on.\<close>

definition working :: "'d world \<Rightarrow> bool" where
  "working w \<longleftrightarrow> db_laws (dbops w) \<and> (\<forall>d. db_open (dbops w) d) \<and> (\<forall>d k v. fst (db_put (dbops w) d k v) = 0) \<and>
     (\<forall>k v. db_get (dbops w) (db w) k = Some v \<longrightarrow> length v = 8)"

definition has_mid :: "nat \<Rightarrow> cstr \<Rightarrow> 'd world \<Rightarrow> bool" where
  "has_mid a m w \<longleftrightarrow> working w \<and> (\<exists>i. a \<le> i \<and> i < time_calls w \<and> db_get (dbops w) (db w) (mid_key m) = Some (time_bytes (time_at w i)))"

lemma record_mid_has:
  assumes "working w" and "a \<le> time_calls w" and "has_mid a m w \<or> n = m"
  shows "\<exists>d. record_mid n w = Some (Returned 0, w\<lparr>time_calls := Suc (time_calls w), db := d\<rparr>) \<and> has_mid a m (w\<lparr>time_calls := Suc (time_calls w), db := d\<rparr>)"
proof -
  let ?t = "time_at w (time_calls w)"
  obtain d where d: "db_put (dbops w) (db w) (mid_key n) (time_bytes ?t) = (0, d)"
    using assms(1) by (metis working_def prod.collapse)
  have get: "db_get (dbops w) d (mid_key n) = Some (time_bytes ?t)" "k \<noteq> mid_key n \<Longrightarrow> db_get (dbops w) d k = db_get (dbops w) (db w) k" for k
    using assms(1) d unfolding working_def db_laws_def by blast+
  have "length v = 8" if "db_get (dbops w) d k = Some v" for k v
    using that get assms(1) by (cases "k = mid_key n") (auto simp: working_def)
  then have "working (w\<lparr>time_calls := Suc (time_calls w), db := d\<rparr>)" using assms(1) by (simp add: working_def)
  moreover have "\<exists>i. a \<le> i \<and> i < Suc (time_calls w) \<and> db_get (dbops w) d (mid_key m) = Some (time_bytes (time_at w i))"
  proof (cases "n = m")
    case True
    then show ?thesis using get(1) assms(2) by (intro exI [of _ "time_calls w"]) simp
  next
    case False
    then have "mid_key m \<noteq> mid_key n" by (simp add: mid_key_def)
    moreover obtain i where "a \<le> i" "i < time_calls w" "db_get (dbops w) (db w) (mid_key m) = Some (time_bytes (time_at w i))"
      using assms(3) False by (auto simp: has_mid_def)
    ultimately show ?thesis using get(2) by (intro exI [of _ i]) simp
  qed
  ultimately have "has_mid a m (w\<lparr>time_calls := Suc (time_calls w), db := d\<rparr>)" by (simp add: has_mid_def)
  moreover have "record_mid n w = Some (Returned 0, w\<lparr>time_calls := Suc (time_calls w), db := d\<rparr>)"
    using assms(1) d by (simp add: record_mid_def andthen_def look_def time_now_def change_def ret_def db_is_open_def working_def)
  ultimately show ?thesis by blast
qed

lemma check_mid_has:
  assumes "has_mid a m w" and "\<forall>i j. a \<le> i \<and> i \<le> b \<and> a \<le> j \<and> j \<le> b \<longrightarrow> sint (time_at w i) - sint (time_at w j) \<le> 30 * 24 * 60 * 60"
    and "time_calls w \<le> b"
  shows "\<exists>r w'. check_mid n w = Some (Returned r, w') \<and> has_mid a m w' \<and> (n = m \<longrightarrow> r = 1) \<and> time_at w' = time_at w \<and>
    time_calls w' \<le> Suc (time_calls w)"
proof -
  obtain i where i: "a \<le> i" "i < time_calls w" "db_get (dbops w) (db w) (mid_key m) = Some (time_bytes (time_at w i))"
    and w: "working w" using assms(1) by (auto simp: has_mid_def)
  have op: "db_is_open w" using w by (simp add: working_def db_is_open_def)
  show ?thesis
  proof (cases "db_get (dbops w) (db w) (mid_key n)")
    case None
    then show ?thesis using op assms(1) i(3) by (auto simp: check_mid_def andthen_def look_def ret_def)
  next
    case (Some v)
    have v: "length v = 8" using w Some by (auto simp: working_def)
    let ?w = "w\<lparr>time_calls := Suc (time_calls w)\<rparr>" and ?e = "expired (time_at w (time_calls w)) (bytes_time v)"
    let ?d = "db_del (dbops w) (db w) (mid_key n)"
    have run: "check_mid n w = Some (if ?e then (Returned 0, ?w\<lparr>db := ?d\<rparr>) else (Returned 1, ?w))"
      using op Some v by (simp add: check_mid_def andthen_def look_def time_now_def change_def ret_def db_delete_def)
    have keep: "has_mid a m ?w" using w i by (auto simp: has_mid_def working_def)
    show ?thesis
    proof (cases ?e)
      case False
      then show ?thesis using run keep by simp
    next
      case True
      have "sint (time_at w (time_calls w)) - sint (time_at w i) \<le> 30 * 24 * 60 * 60" using assms(2,3) i(1,2) by auto
      then have "\<not> expired (time_at w (time_calls w)) (time_at w i)" by (simp add: expired_def MID_EXPIREDAYS_def)
      then have nm: "n \<noteq> m" using True Some i(3) by auto
      then have key: "mid_key m \<noteq> mid_key n" by (simp add: mid_key_def)
      have del: "db_get (dbops w) ?d (mid_key n) = None" "k \<noteq> mid_key n \<Longrightarrow> db_get (dbops w) ?d k = db_get (dbops w) (db w) k" for k
        using w unfolding working_def db_laws_def by blast+
      have "length x = 8" if "db_get (dbops w) ?d k = Some x" for k x
        using that del w by (cases "k = mid_key n") (auto simp: working_def)
      then have "working (?w\<lparr>db := ?d\<rparr>)" using w by (simp add: working_def)
      then have "has_mid a m (?w\<lparr>db := ?d\<rparr>)" using i del(2) [OF key] by (auto simp: has_mid_def intro!: exI [of _ i])
      then show ?thesis using run True nm by simp
    qed
  qed
qed

lemma run_mids_has:
  assumes "has_mid a m w" and "\<forall>i j. a \<le> i \<and> i \<le> b \<and> a \<le> j \<and> j \<le> b \<longrightarrow> sint (time_at w i) - sint (time_at w j) \<le> 30 * 24 * 60 * 60"
    and "time_calls w + length os \<le> b"
  shows "\<exists>rs w'. run_mids os w = Some (Returned rs, w') \<and> has_mid a m w' \<and> (\<forall>(q, r) \<in> set (zip [q. Check q \<leftarrow> os] rs). q = m \<longrightarrow> r = 1) \<and>
    length rs = length [q. Check q \<leftarrow> os]"
  using assms
proof (induction os arbitrary: w)
  case Nil
  then show ?case by (simp add: ret_def)
next
  case (Cons x os)
  show ?case
  proof (cases x)
    case (Check q)
    obtain r v where v: "check_mid q w = Some (Returned r, v)" "has_mid a m v" "q = m \<longrightarrow> r = 1" "time_at v = time_at w" "time_calls v \<le> Suc (time_calls w)"
      using check_mid_has [OF Cons.prems(1,2), of q] Cons.prems(3) by auto
    have "time_calls v + length os \<le> b" using Cons.prems(3) v(5) by simp
    from Cons.IH [OF v(2) _ this] Cons.prems(2) v(4) obtain rs w' where
      "run_mids os v = Some (Returned rs, w')" "has_mid a m w'" "\<forall>(q, r) \<in> set (zip [q. Check q \<leftarrow> os] rs). q = m \<longrightarrow> r = 1"
      "length rs = length [q. Check q \<leftarrow> os]" by auto
    then show ?thesis using v(1,3) Check by (auto simp: andthen_def ret_def)
  next
    case (Record q)
    have "working w" "a \<le> time_calls w" using Cons.prems(1) by (auto simp: has_mid_def)
    then obtain d where d: "record_mid q w = Some (Returned 0, w\<lparr>time_calls := Suc (time_calls w), db := d\<rparr>)"
        "has_mid a m (w\<lparr>time_calls := Suc (time_calls w), db := d\<rparr>)"
      using record_mid_has [of w a m q] Cons.prems(1) by blast
    from Cons.IH [OF d(2)] Cons.prems(2,3) d(1) Record show ?thesis by (auto simp: andthen_def)
  qed
qed

text \<open>
  C18: An id that has been recorded is found by every later check, whatever ids are checked and recorded in between, when the
  database can be opened and written, obeys its laws and has times of eight bytes, and no two readings of the clock from the record on
  are more than thirty days apart.
\<close>

theorem recorded_mid_is_found:
  assumes "working w"
    and "\<forall>i j. time_calls w \<le> i \<and> i \<le> time_calls w + Suc (length os) \<and> time_calls w \<le> j \<and> j \<le> time_calls w + Suc (length os) \<longrightarrow>
      sint (time_at w i) - sint (time_at w j) \<le> 30 * 24 * 60 * 60"
  shows "\<exists>w' rs w''. record_mid m w = Some (Returned 0, w') \<and> run_mids os w' = Some (Returned rs, w'') \<and>
    length rs = length [q. Check q \<leftarrow> os] \<and> (\<forall>(q, r) \<in> set (zip [q. Check q \<leftarrow> os] rs). q = m \<longrightarrow> r = 1)"
proof -
  obtain d where d: "record_mid m w = Some (Returned 0, w\<lparr>time_calls := Suc (time_calls w), db := d\<rparr>)"
      "has_mid (time_calls w) m (w\<lparr>time_calls := Suc (time_calls w), db := d\<rparr>)"
    using record_mid_has [OF assms(1), of "time_calls w" m m] by blast
  from run_mids_has [OF d(2), of "time_calls w + Suc (length os)" os] assms(2) d(1) show ?thesis by auto
qed

definition map_dbops :: "(u8 list \<Rightarrow> u8 list option) dbops" where
  "map_dbops = \<lparr>db_open = (\<lambda>_. True), db_get = (\<lambda>d k. d k), db_put = (\<lambda>d k v. (0, d(k \<mapsto> v))),
     db_del = (\<lambda>d k. d(k := None)), db_cursor = (\<lambda>_. ([], True))\<rparr>"

lemma map_dbops_laws: "db_laws map_dbops"
  by (simp add: db_laws_def map_dbops_def)

definition mid_world :: "(u8 list \<Rightarrow> u8 list option) world" where
  "mid_world = \<lparr>inp = [], outp = [], writes = None, timeoutsecs = 120, alarm = 120, timeout_flag = 1,
     mem = (\<lambda>_. True), tabs = static_codec, linebuf = None, outbox_ok = True, outbox = [], unlinkable = (\<lambda>_. True), creatable = (\<lambda>_. Some (1000000, 1000000)),
     dbops = map_dbops, db = (\<lambda>_. None), time_at = (\<lambda>n. of_nat (1000 + n)), time_calls = 0,
     random_at = (\<lambda>n. n), random_calls = 0, initialized = True, version = bytes ''0.14'', to_text = (\<lambda>_. []),
     sendmail_prefix = bytes ''sendmail -i'', sendmail = (\<lambda>_ _. Mail_ok), mails = [], gsendmsgonly_flag = False\<rparr>"

lemma mid_world_clock: "n < 5 \<Longrightarrow> sint (time_at mid_world n) = 1000 + int n"
proof -
  assume "n < 5"
  then have "n = 0 \<or> n = 1 \<or> n = 2 \<or> n = 3 \<or> n = 4" by arith
  then show ?thesis by (elim disjE) (simp_all add: mid_world_def)
qed

theorem recorded_mid_is_found_witness:
  "\<exists>w' rs w''. record_mid (bytes ''ABC_N2QZ'') mid_world = Some (Returned 0, w') \<and>
    run_mids [Check (bytes ''X''), Record (bytes ''Y''), Check (bytes ''ABC_N2QZ'')] w' = Some (Returned rs, w'') \<and> length rs = 2 \<and> rs ! 1 = 1"
proof -
  let ?os = "[Check (bytes ''X''), Record (bytes ''Y''), Check (bytes ''ABC_N2QZ'')]"
  have "working mid_world" by (simp add: working_def mid_world_def map_dbops_laws) (simp add: map_dbops_def)
  moreover have "\<forall>i j. time_calls mid_world \<le> i \<and> i \<le> time_calls mid_world + Suc (length ?os) \<and> time_calls mid_world \<le> j \<and>
      j \<le> time_calls mid_world + Suc (length ?os) \<longrightarrow> sint (time_at mid_world i) - sint (time_at mid_world j) \<le> 30 * 24 * 60 * 60"
  proof (intro allI impI)
    fix i j assume "time_calls mid_world \<le> i \<and> i \<le> time_calls mid_world + Suc (length ?os) \<and> time_calls mid_world \<le> j \<and>
      j \<le> time_calls mid_world + Suc (length ?os)"
    then have "i < 5" "j < 5" by (simp_all add: mid_world_def)
    then show "sint (time_at mid_world i) - sint (time_at mid_world j) \<le> 30 * 24 * 60 * 60" by (simp add: mid_world_clock)
  qed
  ultimately obtain w' rs w'' where "record_mid (bytes ''ABC_N2QZ'') mid_world = Some (Returned 0, w')" "run_mids ?os w' = Some (Returned rs, w'')"
      "length rs = length [q. Check q \<leftarrow> ?os]" "\<forall>(q, r) \<in> set (zip [q. Check q \<leftarrow> ?os] rs). q = bytes ''ABC_N2QZ'' \<longrightarrow> r = 1"
    using recorded_mid_is_found [of mid_world ?os "bytes ''ABC_N2QZ''"] by blast
  then show ?thesis by (auto simp: length_Suc_conv)
qed

lemma record_mid_returns: "\<exists>r v. record_mid m w = Some (Returned r, v) \<and> mem v = mem w"
  by (cases "db_put (dbops w) (db w) (mid_key m) (time_bytes (time_at w (time_calls w)))")
    (auto simp: record_mid_def andthen_def look_def time_now_def change_def ret_def db_is_open_def)

lemma sample_generate_at:
  assumes "length call = 4"
  shows "\<exists>m w'. generate_mid call rec (mid_world\<lparr>timeoutsecs := a, alarm := a\<rparr>) = Some (Returned (Some m), w') \<and> length m = 12"
proof -
  let ?w = "mid_world\<lparr>timeoutsecs := a, alarm := a\<rparr>"
  note c = assms
  obtain cs w1 where r: "random_chars 7 ?w = Some (Returned cs, w1)" "db w1 = db mid_world" "dbops w1 = dbops mid_world" "mem w1 = mem mid_world"
    by (simp add: eval_nat_numeral random_next_def andthen_def look_def change_def ret_def)
  have "db_is_open w1" "db_get (dbops w1) (db w1) k = None" for k
    using r by (simp_all add: mid_world_def map_dbops_def db_is_open_def)
  then have "mid_step 7 call () ?w = Some (Returned (Inr (0, cs @ [95] @ call)), w1)"
    using r by (simp add: mid_step_def Let_def andthen_def check_mid_def look_def ret_def)
  note loop = io_loop_done [of "mid_step 7 call", OF this]
  obtain rr w2 where rec: "(if rec then record_mid (cs @ [95] @ call) else ret 0) w1 = Some (Returned rr, w2)" "mem w2 = mem mid_world"
    using r(4) record_mid_returns [of "cs @ [95] @ call" w1] that by (cases rec) (auto simp: ret_def)
  have lk: "andthen (look f) g v = g (f v) v" for f :: "(u8 list \<Rightarrow> u8 list option) world \<Rightarrow> 'x" and g :: "'x \<Rightarrow> (u8 list \<Rightarrow> u8 list option, 'y) io" and v
    by (simp add: andthen_def look_def)
  have init: "initialized ?w" "granted (mem w2) (length (cs @ [95] @ call) + 1)"
    by (simp_all add: rec(2) random_chars_length [OF r(1)] mid_world_def granted_def c)
  have "seed_random ?w = Some (Returned (), ?w)" using init(1) by (simp add: seed_random_def lk) (simp add: ret_def)
  then have "generate_mid call rec ?w = andthen (if rec then record_mid (cs @ [95] @ call) else ret 0)
      (\<lambda>_. andthen (look mem) (\<lambda>al. ret (if granted al (length (cs @ [95] @ call) + 1) then Some (cs @ [95] @ call) else None))) w1"
    by (simp add: generate_mid_def Let_def c CALLSIGN_MAXLEN_def MID_LENGTH_def andthen_returned [where m = seed_random]
        andthen_returned [where m = "io_loop _ _", OF loop] cong: if_cong)
  also have "\<dots> = Some (Returned (Some (cs @ [95] @ call)), w2)"
    by (subst andthen_returned, rule rec(1)) (use init(2) in \<open>simp add: lk ret_def\<close>)
  finally have "generate_mid call rec ?w = Some (Returned (Some (cs @ [95] @ call)), w2)" .
  then show ?thesis using random_chars_length [OF r(1)] c by auto
qed

lemma sample_generate:
  "\<exists>m w'. generate_mid (bytes ''N2QZ'') False mid_world = Some (Returned (Some m), w') \<and> length m = 12"
proof -
  have "mid_world\<lparr>timeoutsecs := 120, alarm := 120\<rparr> = mid_world" by (simp add: mid_world_def)
  then show ?thesis using sample_generate_at [of "bytes ''N2QZ''" False 120] by (simp add: bytes_def)
qed

lemma sample_recorded:
  "\<exists>m w'. generate_mid (bytes ''N2QZ'') True mid_world = Some (Returned (Some m), w')"
proof -
  have "mid_world\<lparr>timeoutsecs := 120, alarm := 120\<rparr> = mid_world" by (simp add: mid_world_def)
  then show ?thesis using sample_generate_at [of "bytes ''N2QZ''" True 120] by (auto simp: bytes_def)
qed



end
