(* ===== verification/Md5.thy ===== *)
theory Md5
  imports Strutil
begin

text \<open>
  md5.c with the macros of md5_loc.h, on a little-endian machine (\<open>SWAP(n)\<close> is \<open>n\<close>), and RFC 1321 as
  the reference: padding, the four rounds as one indexed step, and the digest of the whole message.
  Memory is a list of bytes, \<open>None\<close> for those that have not been set; a read or a copy outside of it
  has no result.
\<close>

section \<open>The macros of md5\_loc.h\<close>

definition FF :: "u32 \<Rightarrow> u32 \<Rightarrow> u32 \<Rightarrow> u32" where
  "FF b c d = d XOR (b AND (c XOR d))"

definition FG :: "u32 \<Rightarrow> u32 \<Rightarrow> u32 \<Rightarrow> u32" where
  "FG b c d = FF d b c"

definition FH :: "u32 \<Rightarrow> u32 \<Rightarrow> u32 \<Rightarrow> u32" where
  "FH b c d = (b XOR c XOR d)"

definition FI :: "u32 \<Rightarrow> u32 \<Rightarrow> u32 \<Rightarrow> u32" where
  "FI b c d = c XOR (b OR NOT d)"

definition CYCLIC :: "u32 \<Rightarrow> nat \<Rightarrow> u32" where
  "CYCLIC w s = push_bit s w OR drop_bit (32 - s) w"

text \<open>The variables \<open>A\<close> to \<open>D\<close>; a macro call names the ones it works on, the first is assigned.\<close>

datatype reg = RA | RB | RC | RD

datatype md5_op =
    OP1 reg reg reg reg nat u32
  | OP234 "u32 \<Rightarrow> u32 \<Rightarrow> u32 \<Rightarrow> u32" reg reg reg reg nat nat u32

type_synonym memory = "u8 option list"

text \<open>\<open>memcpy(c_p, b_p, sizeof(md5_uint32))\<close> into a word.\<close>

definition le_word :: "u8 list \<Rightarrow> u32" where
  "le_word bs = foldr (\<lambda>b w. ucast b OR push_bit 8 w) bs 0"

definition load_word :: "memory \<Rightarrow> u32 option" where
  "load_word buf = do { b0 \<leftarrow> rd buf 0; b1 \<leftarrow> rd buf 1; b2 \<leftarrow> rd buf 2; b3 \<leftarrow> rd buf 3;
     c0 \<leftarrow> b0; c1 \<leftarrow> b1; c2 \<leftarrow> b2; c3 \<leftarrow> b3; Some (le_word [c0, c1, c2, c3]) }"

text \<open>The common part of the macros: \<open>a += x + T; a = CYCLIC(a, s); a += b;\<close>\<close>

definition mix :: "reg \<Rightarrow> reg \<Rightarrow> nat \<Rightarrow> u32 \<Rightarrow> (reg \<Rightarrow> u32) \<Rightarrow> reg \<Rightarrow> u32" where
  "mix a b s x v =
     (let v1 = v(a := v a + x); v2 = v1(a := CYCLIC (v1 a) s) in v2(a := v2 a + v2 b))"

text \<open>State: the variables, the words stored in \<open>correct\<close> so far, and the memory at \<open>buf_p\<close>.\<close>

fun run_op :: "md5_op \<Rightarrow> (reg \<Rightarrow> u32) \<times> u32 list \<times> memory \<Rightarrow> ((reg \<Rightarrow> u32) \<times> u32 list \<times> memory) option" where
  "run_op (OP1 a b c d s T) (v, corr, buf) =
     do { w \<leftarrow> load_word buf;
          Some (mix a b s (FF (v b) (v c) (v d) + w + T) v, corr @ [w], drop 4 buf) }"
| "run_op (OP234 f a b c d k s T) (v, corr, buf) =
     do { w \<leftarrow> rd corr k;
          Some (mix a b s (f (v b) (v c) (v d) + w + T) v, corr, buf) }"

fun run_ops :: "md5_op list \<Rightarrow> (reg \<Rightarrow> u32) \<times> u32 list \<times> memory \<Rightarrow> ((reg \<Rightarrow> u32) \<times> u32 list \<times> memory) option" where
  "run_ops [] st = Some st"
| "run_ops (op # ops) st = do { st' \<leftarrow> run_op op st; run_ops ops st' }"

section \<open>md5.c\<close>

definition round1 :: "md5_op list" where
  "round1 = [
     OP1 RA RB RC RD 7 0xd76aa478,
     OP1 RD RA RB RC 12 0xe8c7b756,
     OP1 RC RD RA RB 17 0x242070db,
     OP1 RB RC RD RA 22 0xc1bdceee,
     OP1 RA RB RC RD 7 0xf57c0faf,
     OP1 RD RA RB RC 12 0x4787c62a,
     OP1 RC RD RA RB 17 0xa8304613,
     OP1 RB RC RD RA 22 0xfd469501,
     OP1 RA RB RC RD 7 0x698098d8,
     OP1 RD RA RB RC 12 0x8b44f7af,
     OP1 RC RD RA RB 17 0xffff5bb1,
     OP1 RB RC RD RA 22 0x895cd7be,
     OP1 RA RB RC RD 7 0x6b901122,
     OP1 RD RA RB RC 12 0xfd987193,
     OP1 RC RD RA RB 17 0xa679438e,
     OP1 RB RC RD RA 22 0x49b40821]"

definition round2 :: "md5_op list" where
  "round2 = [
     OP234 FG RA RB RC RD 1 5 0xf61e2562,
     OP234 FG RD RA RB RC 6 9 0xc040b340,
     OP234 FG RC RD RA RB 11 14 0x265e5a51,
     OP234 FG RB RC RD RA 0 20 0xe9b6c7aa,
     OP234 FG RA RB RC RD 5 5 0xd62f105d,
     OP234 FG RD RA RB RC 10 9 0x02441453,
     OP234 FG RC RD RA RB 15 14 0xd8a1e681,
     OP234 FG RB RC RD RA 4 20 0xe7d3fbc8,
     OP234 FG RA RB RC RD 9 5 0x21e1cde6,
     OP234 FG RD RA RB RC 14 9 0xc33707d6,
     OP234 FG RC RD RA RB 3 14 0xf4d50d87,
     OP234 FG RB RC RD RA 8 20 0x455a14ed,
     OP234 FG RA RB RC RD 13 5 0xa9e3e905,
     OP234 FG RD RA RB RC 2 9 0xfcefa3f8,
     OP234 FG RC RD RA RB 7 14 0x676f02d9,
     OP234 FG RB RC RD RA 12 20 0x8d2a4c8a]"

definition round3 :: "md5_op list" where
  "round3 = [
     OP234 FH RA RB RC RD 5 4 0xfffa3942,
     OP234 FH RD RA RB RC 8 11 0x8771f681,
     OP234 FH RC RD RA RB 11 16 0x6d9d6122,
     OP234 FH RB RC RD RA 14 23 0xfde5380c,
     OP234 FH RA RB RC RD 1 4 0xa4beea44,
     OP234 FH RD RA RB RC 4 11 0x4bdecfa9,
     OP234 FH RC RD RA RB 7 16 0xf6bb4b60,
     OP234 FH RB RC RD RA 10 23 0xbebfbc70,
     OP234 FH RA RB RC RD 13 4 0x289b7ec6,
     OP234 FH RD RA RB RC 0 11 0xeaa127fa,
     OP234 FH RC RD RA RB 3 16 0xd4ef3085,
     OP234 FH RB RC RD RA 6 23 0x04881d05,
     OP234 FH RA RB RC RD 9 4 0xd9d4d039,
     OP234 FH RD RA RB RC 12 11 0xe6db99e5,
     OP234 FH RC RD RA RB 15 16 0x1fa27cf8,
     OP234 FH RB RC RD RA 2 23 0xc4ac5665]"

definition round4 :: "md5_op list" where
  "round4 = [
     OP234 FI RA RB RC RD 0 6 0xf4292244,
     OP234 FI RD RA RB RC 7 10 0x432aff97,
     OP234 FI RC RD RA RB 14 15 0xab9423a7,
     OP234 FI RB RC RD RA 5 21 0xfc93a039,
     OP234 FI RA RB RC RD 12 6 0x655b59c3,
     OP234 FI RD RA RB RC 3 10 0x8f0ccc92,
     OP234 FI RC RD RA RB 10 15 0xffeff47d,
     OP234 FI RB RC RD RA 1 21 0x85845dd1,
     OP234 FI RA RB RC RD 8 6 0x6fa87e4f,
     OP234 FI RD RA RB RC 15 10 0xfe2ce6e0,
     OP234 FI RC RD RA RB 6 15 0xa3014314,
     OP234 FI RB RC RD RA 13 21 0x4e0811a1,
     OP234 FI RA RB RC RD 4 6 0xf7537e82,
     OP234 FI RD RA RB RC 11 10 0xbd3af235,
     OP234 FI RC RD RA RB 2 15 0x2ad7d2bb,
     OP234 FI RB RC RD RA 9 21 0xeb86d391]"

definition MAX_MD5_UINT32 :: u32 where "MAX_MD5_UINT32 = 4294967295"
definition MD5_BLOCK_SIZE :: u32 where "MD5_BLOCK_SIZE = 64"
definition BLOCK_SIZE_MASK :: u32 where "BLOCK_SIZE_MASK = MD5_BLOCK_SIZE - 1"
definition MD5_SIZE :: nat where "MD5_SIZE = 16"

record md5_t =
  md_A :: u32
  md_B :: u32
  md_C :: u32
  md_D :: u32
  md_total0 :: u32
  md_total1 :: u32
  md_buf_len :: u32
  md_buffer :: memory

definition count_bytes :: "u32 \<Rightarrow> md5_t \<Rightarrow> md5_t" where
  "count_bytes n m =
     (if md_total0 m > MAX_MD5_UINT32 - n
      then m\<lparr>md_total0 := md_total0 m - (MAX_MD5_UINT32 + 1 - n), md_total1 := md_total1 m + 1\<rparr>
      else m\<lparr>md_total0 := md_total0 m + n\<rparr>)"

text \<open>\<open>while (buf_p < end_p)\<close> with \<open>n\<close> bytes up to \<open>end_p\<close>.\<close>

function run_blocks :: "(reg \<Rightarrow> u32) \<Rightarrow> memory \<Rightarrow> nat \<Rightarrow> (reg \<Rightarrow> u32) option" where
  "run_blocks v buf n =
     (if n = 0 then Some v
      else do { (v', corr, buf') \<leftarrow> run_ops (round1 @ round2 @ round3 @ round4) (v, [], buf);
                run_blocks (\<lambda>r. v' r + v r) buf' (n - 64) })"
  by pat_completeness auto
termination
  by (relation "measure (\<lambda>(v, buf, n). n)") auto

declare run_blocks.simps [simp del]

definition process_block :: "md5_t \<Rightarrow> memory \<Rightarrow> u32 \<Rightarrow> md5_t option" where
  "process_block m buf buf_len =
     do { v \<leftarrow> run_blocks (case_reg (md_A m) (md_B m) (md_C m) (md_D m)) buf (unat buf_len div 4 * 4);
          Some ((count_bytes buf_len m)\<lparr>md_A := v RA, md_B := v RB, md_C := v RC, md_D := v RD\<rparr>) }"

definition word_bytes :: "u32 \<Rightarrow> u8 list" where
  "word_bytes w = map (\<lambda>k. ucast (drop_bit (8 * k) w)) [0..<4]"

definition md5_get_result :: "md5_t \<Rightarrow> u8 list" where
  "md5_get_result m = word_bytes (md_A m) @ word_bytes (md_B m) @ word_bytes (md_C m) @ word_bytes (md_D m)"

definition md5_init :: "md5_t \<Rightarrow> md5_t" where
  "md5_init m = m\<lparr>md_A := 0x67452301, md_B := 0xefcdab89, md_C := 0x98badcfe, md_D := 0x10325476,
     md_total0 := 0, md_total1 := 0, md_buf_len := 0\<rparr>"

text \<open>\<open>memcpy(dst + pos, src, n)\<close>\<close>

definition copy_to :: "memory \<Rightarrow> nat \<Rightarrow> memory \<Rightarrow> nat \<Rightarrow> memory option" where
  "copy_to dst pos src n =
     (if pos + n \<le> length dst \<and> n \<le> length src then Some (take pos dst @ take n src @ drop (pos + n) dst) else None)"

text \<open>\<open>md5_process\<close>: filling the internal buffer, then whole blocks from the caller's, then the rest.\<close>

definition fill_buffer :: "md5_t \<Rightarrow> memory \<Rightarrow> u32 \<Rightarrow> (md5_t \<times> memory \<times> u32) option" where
  "fill_buffer m buf len =
     (let in_block = md_buf_len m;
          add = (if in_block + len > 128 then 128 - in_block else len) in
      do { mb \<leftarrow> copy_to (md_buffer m) (unat in_block) buf (unat add);
           let m1 = m\<lparr>md_buf_len := md_buf_len m + add, md_buffer := mb\<rparr>;
           let in_block1 = in_block + add;
           m3 \<leftarrow> (if in_block1 > MD5_BLOCK_SIZE then
                    do { m2 \<leftarrow> process_block m1 (md_buffer m1) (in_block1 AND NOT BLOCK_SIZE_MASK);
                         mb \<leftarrow> copy_to (md_buffer m2) 0 (drop (unat (in_block1 AND NOT BLOCK_SIZE_MASK)) (md_buffer m2))
                           (unat (in_block1 AND BLOCK_SIZE_MASK));
                         Some (m2\<lparr>md_buf_len := in_block1 AND BLOCK_SIZE_MASK, md_buffer := mb\<rparr>) }
                  else Some m1);
           Some (m3, drop (unat add) buf, len - add) })"

definition md5_process :: "md5_t \<Rightarrow> memory \<Rightarrow> u32 \<Rightarrow> md5_t option" where
  "md5_process m buf buf_len =
     do { (m1, buf1, len1) \<leftarrow> (if md_buf_len m > 0 then fill_buffer m buf buf_len else Some (m, buf, buf_len));
          (m2, buf2, len2) \<leftarrow>
            (if len1 > MD5_BLOCK_SIZE then
               do { m2 \<leftarrow> process_block m1 buf1 (len1 AND NOT BLOCK_SIZE_MASK);
                    Some (m2, drop (unat (len1 AND NOT BLOCK_SIZE_MASK)) buf1, len1 AND BLOCK_SIZE_MASK) }
             else Some (m1, buf1, len1));
          (if len2 > 0 then
             do { mb \<leftarrow> copy_to (md_buffer m2) 0 buf2 (unat len2);
                  Some (m2\<lparr>md_buf_len := len2, md_buffer := mb\<rparr>) }
           else Some m2) }"

text \<open>\<open>md5_finish\<close>; the result is the signature.\<close>

definition md5_finish :: "md5_t \<Rightarrow> u8 list option" where
  "md5_finish m =
     (let bytes = md_buf_len m;
          m1 = count_bytes bytes m;
          pad0 = sint (MD5_BLOCK_SIZE - 4 * 2 - bytes);
          pad = (if pad0 \<le> 0 then pad0 + 64 else pad0) in
      do { (mb, bytes1) \<leftarrow>
             (if pad > 0 then
                do { mb \<leftarrow> wr (unat bytes) (Some 0x80) (md_buffer m1);
                     mb \<leftarrow> (if pad > 1 then copy_to mb (unat bytes + 1) (replicate (nat (pad - 1)) (Some 0)) (nat (pad - 1))
                            else Some mb);
                     Some (mb, bytes + of_int pad) }
              else Some (md_buffer m1, bytes));
           mb \<leftarrow> copy_to mb (unat bytes1) (map Some (word_bytes (push_bit 3 (md_total0 m1 AND 0x1FFFFFFF)))) 4;
           mb \<leftarrow> copy_to mb (unat (bytes1 + 4))
             (map Some (word_bytes (push_bit 3 (md_total1 m1) OR drop_bit 29 (md_total0 m1 AND 0xE0000000)))) 4;
           m2 \<leftarrow> process_block (m1\<lparr>md_buffer := mb\<rparr>) mb (bytes1 + 4 + 4);
           Some (md5_get_result m2) })"

definition md5_buffer :: "memory \<Rightarrow> u32 \<Rightarrow> u8 list option" where
  "md5_buffer buf buf_len =
     do { m \<leftarrow> md5_process (md5_init \<lparr>md_A = 0, md_B = 0, md_C = 0, md_D = 0, md_total0 = 0, md_total1 = 0,
            md_buf_len = 0, md_buffer = replicate 128 None\<rparr>) buf buf_len;
          md5_finish m }"

definition HEX_STRING :: cstr where
  "HEX_STRING = bytes ''0123456789abcdef''"

text \<open>The bytes written to \<open>str\<close>, whose size is \<open>str_len\<close>.\<close>

fun sig_chars :: "u8 list \<Rightarrow> int \<Rightarrow> u8 list \<Rightarrow> u8 list" where
  "sig_chars [] str_len str = str"
| "sig_chars (b # sig) str_len str =
     (if int (length str) + 1 \<ge> str_len then str
      else sig_chars sig str_len (str @ [HEX_STRING ! (unat b div 16), HEX_STRING ! (unat b mod 16)]))"

definition md5_sig_to_string :: "u8 list \<Rightarrow> int \<Rightarrow> u8 list" where
  "md5_sig_to_string sig str_len =
     (let str = sig_chars (take MD5_SIZE sig) str_len [] in
      if int (length str) < str_len then str @ [0] else str)"

text \<open>\<open>strchr(hex, c) - hex\<close>, defined when the character is found; the terminating NUL is at 16.\<close>

definition hex_index :: "u8 \<Rightarrow> nat option" where
  "hex_index c = (if c = 0 then Some 16
     else case strchr HEX_STRING c of None \<Rightarrow> None | Some p \<Rightarrow> Some (length HEX_STRING - length p))"

fun sig_bytes :: "nat \<Rightarrow> u8 list \<Rightarrow> u8 list option" where
  "sig_bytes 0 str = Some []"
| "sig_bytes (Suc n) str =
     do { c0 \<leftarrow> rd str 0; c1 \<leftarrow> rd str 1; high \<leftarrow> hex_index c0; low \<leftarrow> hex_index c1;
          bs \<leftarrow> sig_bytes n (drop 2 str);
          Some (of_nat (high * 16 + low) # bs) }"

definition md5_sig_from_string :: "u8 list \<Rightarrow> u8 list option" where
  "md5_sig_from_string str = sig_bytes MD5_SIZE str"

section \<open>RFC 1321\<close>

definition rfc_f :: "nat \<Rightarrow> u32 \<Rightarrow> u32 \<Rightarrow> u32 \<Rightarrow> u32" where
  "rfc_f i = (if i < 16 then (\<lambda>x y z. (x AND y) OR (NOT x AND z))
     else if i < 32 then (\<lambda>x y z. (x AND z) OR (y AND NOT z))
     else if i < 48 then (\<lambda>x y z. x XOR y XOR z)
     else (\<lambda>x y z. y XOR (x OR NOT z)))"

definition rfc_k :: "nat \<Rightarrow> nat" where
  "rfc_k i = (if i < 16 then i else if i < 32 then (5 * i + 1) mod 16
     else if i < 48 then (3 * i + 5) mod 16 else 7 * i mod 16)"

definition rfc_s :: "nat \<Rightarrow> nat" where
  "rfc_s i = [[7, 12, 17, 22], [5, 9, 14, 20], [4, 11, 16, 23], [6, 10, 15, 21]] ! (i div 16) ! (i mod 4)"

text \<open>The table \<open>T\<close> of the RFC: the integer part of 4294967296 times \<open>abs(sin(i + 1))\<close>.\<close>

definition rfc_T :: "u32 list" where
  "rfc_T = [
     0xd76aa478, 0xe8c7b756, 0x242070db, 0xc1bdceee, 0xf57c0faf, 0x4787c62a, 0xa8304613, 0xfd469501,
     0x698098d8, 0x8b44f7af, 0xffff5bb1, 0x895cd7be, 0x6b901122, 0xfd987193, 0xa679438e, 0x49b40821,
     0xf61e2562, 0xc040b340, 0x265e5a51, 0xe9b6c7aa, 0xd62f105d, 0x02441453, 0xd8a1e681, 0xe7d3fbc8,
     0x21e1cde6, 0xc33707d6, 0xf4d50d87, 0x455a14ed, 0xa9e3e905, 0xfcefa3f8, 0x676f02d9, 0x8d2a4c8a,
     0xfffa3942, 0x8771f681, 0x6d9d6122, 0xfde5380c, 0xa4beea44, 0x4bdecfa9, 0xf6bb4b60, 0xbebfbc70,
     0x289b7ec6, 0xeaa127fa, 0xd4ef3085, 0x04881d05, 0xd9d4d039, 0xe6db99e5, 0x1fa27cf8, 0xc4ac5665,
     0xf4292244, 0x432aff97, 0xab9423a7, 0xfc93a039, 0x655b59c3, 0x8f0ccc92, 0xffeff47d, 0x85845dd1,
     0x6fa87e4f, 0xfe2ce6e0, 0xa3014314, 0x4e0811a1, 0xf7537e82, 0xbd3af235, 0x2ad7d2bb, 0xeb86d391]"

type_synonym quad = "u32 \<times> u32 \<times> u32 \<times> u32"

definition rfc_step :: "u32 list \<Rightarrow> quad \<Rightarrow> nat \<Rightarrow> quad" where
  "rfc_step X = (\<lambda>(a, b, c, d) i. (d, b + word_rotl (rfc_s i) (a + rfc_f i b c d + X ! rfc_k i + rfc_T ! i), b, c))"

definition rfc_words :: "u8 list \<Rightarrow> u32 list" where
  "rfc_words blk = map (\<lambda>i. le_word (take 4 (drop (4 * i) blk))) [0..<16]"

definition rfc_block :: "quad \<Rightarrow> u8 list \<Rightarrow> quad" where
  "rfc_block q blk = (case foldl (rfc_step (rfc_words blk)) q [0..<64] of
     (a, b, c, d) \<Rightarrow> case q of (a0, b0, c0, d0) \<Rightarrow> (a + a0, b + b0, c + c0, d + d0))"

function blocks64 :: "u8 list \<Rightarrow> u8 list list" where
  "blocks64 bs = (if bs = [] then [] else take 64 bs # blocks64 (drop 64 bs))"
  by pat_completeness auto
termination
  by (relation "measure length") auto

declare blocks64.simps [simp del]

definition rfc_init :: quad where
  "rfc_init = (0x67452301, 0xefcdab89, 0x98badcfe, 0x10325476)"

text \<open>A one bit, zeros up to 56 modulo 64, and the number of bits as two words, the low-order one first.\<close>

definition rfc_pad :: "u8 list \<Rightarrow> u8 list" where
  "rfc_pad msg = msg @ [0x80] @ replicate ((119 - length msg mod 64) mod 64) 0 @
     word_bytes (of_nat (8 * length msg)) @ word_bytes (of_nat (8 * length msg div 2 ^ 32))"

definition rfc_md5 :: "u8 list \<Rightarrow> u8 list" where
  "rfc_md5 msg = (case foldl rfc_block rfc_init (blocks64 (rfc_pad msg)) of
     (a, b, c, d) \<Rightarrow> word_bytes a @ word_bytes b @ word_bytes c @ word_bytes d)"

section \<open>The rounds\<close>

lemma FF_rfc: "FF = rfc_f i" if "i < 16"
  by (rule ext)+ (rule bit_word_eqI, use that in \<open>auto simp: FF_def rfc_f_def bit_simps\<close>)

lemma FG_rfc: "FG = rfc_f i" if "16 \<le> i" "i < 32"
  by (rule ext)+ (rule bit_word_eqI, use that in \<open>auto simp: FG_def FF_def rfc_f_def bit_simps\<close>)

lemma FH_rfc: "FH = rfc_f i" if "32 \<le> i" "i < 48"
  by (rule ext)+ (use that in \<open>simp add: FH_def rfc_f_def\<close>)

lemma FI_rfc: "FI = rfc_f i" if "48 \<le> i"
  by (rule ext)+ (use that in \<open>simp add: FI_def rfc_f_def\<close>)

lemma CYCLIC_rotl: "s < 32 \<Longrightarrow> 0 < s \<Longrightarrow> CYCLIC w s = word_rotl s w"
proof (rule bit_word_eqI)
  fix n assume "s < 32" "0 < s" and n: "n < LENGTH(32)"
  then show "bit (CYCLIC w s) n = bit (word_rotl s w) n"
  proof (cases "n < s")
    case True
    moreover have "bit (drop_bit (32 - s) w) n = bit w (32 - s + n)" by (simp only: bit_drop_bit_eq o_def)
    moreover have "bit (word_rotl s w) n = bit w (32 - s + n)"
    proof -
      have "(n + (LENGTH(32) - s mod LENGTH(32))) mod LENGTH(32) = 32 - s + n"
        using True n \<open>s < 32\<close> \<open>0 < s\<close> by (simp add: mod_if) linarith
      then show ?thesis using n by (simp only: bit_word_rotl_iff) simp
    qed
    ultimately show ?thesis using n by (simp only: CYCLIC_def bit_or_iff bit_push_bit_iff) simp
  next
    case False
    then have "\<not> bit w (32 - s + n)" using bit_imp_le_length [of w "32 - s + n"] \<open>s < 32\<close> by auto
    moreover have "(n + 32 - s) mod 32 = n - s" "(n + (32 - s)) mod 32 = n - s" using False n \<open>s < 32\<close> by (simp_all add: mod_if)
    ultimately show ?thesis using False n by (simp add: CYCLIC_def bit_simps)
  qed
qed


text \<open>The variables as the RFC's quadruple: the roles of the registers rotate with each step.\<close>

definition roles :: "nat \<Rightarrow> reg \<times> reg \<times> reg \<times> reg" where
  "roles i = [(RA, RB, RC, RD), (RD, RA, RB, RC), (RC, RD, RA, RB), (RB, RC, RD, RA)] ! (i mod 4)"

definition view :: "nat \<Rightarrow> (reg \<Rightarrow> u32) \<Rightarrow> quad" where
  "view i v = (case roles i of (a, b, c, d) \<Rightarrow> (v a, v b, v c, v d))"

fun is_step :: "md5_op \<Rightarrow> nat \<Rightarrow> bool" where
  "is_step (OP1 a b c d s T) i \<longleftrightarrow> i < 16 \<and> (a, b, c, d) = roles i \<and> s = rfc_s i \<and> T = rfc_T ! i"
| "is_step (OP234 f a b c d k s T) i \<longleftrightarrow>
     16 \<le> i \<and> i < 64 \<and> (a, b, c, d) = roles i \<and> f = rfc_f i \<and> k = rfc_k i \<and> s = rfc_s i \<and> T = rfc_T ! i"

lemma roles_cases:
  obtains "i mod 4 = 0" "roles i = (RA, RB, RC, RD)" "roles (Suc i) = (RD, RA, RB, RC)"
  | "i mod 4 = 1" "roles i = (RD, RA, RB, RC)" "roles (Suc i) = (RC, RD, RA, RB)"
  | "i mod 4 = 2" "roles i = (RC, RD, RA, RB)" "roles (Suc i) = (RB, RC, RD, RA)"
  | "i mod 4 = 3" "roles i = (RB, RC, RD, RA)" "roles (Suc i) = (RA, RB, RC, RD)"
proof -
  have "i mod 4 = 0 \<or> i mod 4 = 1 \<or> i mod 4 = 2 \<or> i mod 4 = 3" by presburger
  then show thesis
    by (elim disjE) (rule that, simp_all add: roles_def mod_Suc numeral_2_eq_2 numeral_3_eq_3)+
qed

lemma mix_view:
  assumes "roles i = (a, b, c, d)" "view i v = (x, y, z, u)" "s < 32" "0 < s"
  shows "view (Suc i) (mix a b s k v) = (u, y + word_rotl s (x + k), y, z)"
  by (rule roles_cases [of i]) (use assms in \<open>auto simp: view_def mix_def Let_def CYCLIC_rotl add.commute\<close>)

lemma rfc_s_range: "i < 64 \<Longrightarrow> rfc_s i < 32 \<and> 0 < rfc_s i"
proof -
  assume "i < 64"
  then have "i div 16 < 4" "i mod 4 < 4" by auto
  then have "i div 16 \<in> {0, 1, 2, 3}" "i mod 4 \<in> {0, 1, 2, 3}" by auto
  then show ?thesis by (auto simp: rfc_s_def numeral_2_eq_2 numeral_3_eq_3)
qed

lemma load_word_block:
  assumes "length blk = 64" "i < 16"
  shows "load_word (map Some (drop (4 * i) blk) @ rest) = Some (rfc_words blk ! i)"
proof -
  obtain b0 b1 b2 b3 bs where d: "drop (4 * i) blk = b0 # b1 # b2 # b3 # bs"
  proof -
    have "4 \<le> length (drop (4 * i) blk)" using assms by simp
    then obtain b0 bs0 where 0: "drop (4 * i) blk = b0 # bs0" "3 \<le> length bs0" by (cases "drop (4 * i) blk") auto
    then obtain b1 bs1 where 1: "bs0 = b1 # bs1" "2 \<le> length bs1" by (cases bs0) auto
    then obtain b2 bs2 where 2: "bs1 = b2 # bs2" "1 \<le> length bs2" by (cases bs1) auto
    then obtain b3 bs3 where "bs2 = b3 # bs3" by (cases bs2) auto
    then show thesis using that 0 1 2 by simp
  qed
  have "take 4 (b0 # b1 # b2 # b3 # bs) = [b0, b1, b2, b3]" by simp
  then show ?thesis using assms by (simp add: d load_word_def rd_def rfc_words_def nth_Cons')
qed

lemma run_op_step:
  assumes "is_step op i" "view i v = q" "length blk = 64"
  shows "\<exists>v'. run_op op (v, take i (rfc_words blk), map Some (drop (4 * i) blk) @ rest)
      = Some (v', take (Suc i) (rfc_words blk), map Some (drop (4 * Suc i) blk) @ rest) \<and>
    view (Suc i) v' = rfc_step (rfc_words blk) q i"
proof -
  define X where "X = rfc_words blk"
  have X: "length X = 16" by (simp add: X_def rfc_words_def)
  obtain x y z u where q: "q = (x, y, z, u)" by (metis prod_cases4)
  show ?thesis
  proof (cases op)
    case (OP1 a b c d s T)
    then have i: "i < 16" "roles i = (a, b, c, d)" "s = rfc_s i" "T = rfc_T ! i" using assms(1) by auto
    have v: "v b = y" "v c = z" "v d = u" using assms(2) i(2) by (auto simp: view_def q)
    have "s < 32" "0 < s" using rfc_s_range [of i] i by auto
    from mix_view [OF i(2) assms(2) [unfolded q] this] have m: "\<And>k. view (Suc i) (mix a b s k v) = (u, y + word_rotl s (x + k), y, z)" .
    have "rfc_k i = i" using i(1) by (simp add: rfc_k_def)
    moreover have "take i X @ [X ! i] = take (Suc i) X" using X i(1) by (simp add: take_Suc_conv_app_nth)
    moreover have "drop 4 (map Some (drop (4 * i) blk) @ rest) = map Some (drop (4 * Suc i) blk) @ rest"
      using i(1) assms(3) by (simp add: drop_map add.commute)
    ultimately show ?thesis
      using OP1 i load_word_block [OF assms(3) i(1)] m FF_rfc [OF i(1)] v
      by (simp add: rfc_step_def q X_def add.assoc)
  next
    case (OP234 f a b c d k s T)
    then have i: "16 \<le> i" "i < 64" "roles i = (a, b, c, d)" "f = rfc_f i" "k = rfc_k i" "s = rfc_s i" "T = rfc_T ! i"
      using assms(1) by auto
    have v: "v b = y" "v c = z" "v d = u" using assms(2) i(3) by (auto simp: view_def q)
    have "s < 32" "0 < s" using rfc_s_range [of i] i by auto
    from mix_view [OF i(3) assms(2) [unfolded q] this] have m: "\<And>k. view (Suc i) (mix a b s k v) = (u, y + word_rotl s (x + k), y, z)" .
    have "take i X = X" "take (Suc i) X = X" using X i(1) by simp_all
    moreover have "rfc_k i < 16" using i(1) by (simp add: rfc_k_def)
    moreover have "drop (4 * i) blk = []" "drop (4 * Suc i) blk = []" using i(1) assms(3) by simp_all
    ultimately show ?thesis
      using OP234 i m v X by (simp add: rfc_step_def q X_def [symmetric] rd_def add.assoc)
  qed
qed

lemma run_ops_steps:
  assumes "length blk = 64" "list_all2 is_step ops [i..<j]" "i \<le> j" "view i v = q"
  shows "\<exists>v'. run_ops ops (v, take i (rfc_words blk), map Some (drop (4 * i) blk) @ rest)
      = Some (v', take j (rfc_words blk), map Some (drop (4 * j) blk) @ rest) \<and>
    view j v' = foldl (rfc_step (rfc_words blk)) q [i..<j]"
  using assms(2-4)
proof (induction ops arbitrary: i v q)
  case Nil
  then have "i = j" by (cases "i < j") (simp_all add: upt_conv_Cons)
  then show ?case using Nil by simp
next
  case (Cons op ops)
  then have ij: "i < j" by (cases "i < j") simp_all
  then have up: "[i..<j] = i # [Suc i..<j]" by (rule upt_conv_Cons)
  then have st: "is_step op i" "list_all2 is_step ops [Suc i..<j]" using Cons.prems(1) by simp_all
  from run_op_step [OF st(1) Cons.prems(3) assms(1)] obtain v' where
    "run_op op (v, take i (rfc_words blk), map Some (drop (4 * i) blk) @ rest)
      = Some (v', take (Suc i) (rfc_words blk), map Some (drop (4 * Suc i) blk) @ rest)"
    "view (Suc i) v' = rfc_step (rfc_words blk) q i" by blast
  with Cons.IH [OF st(2) _ this(2)] ij show ?case by (simp add: up)
qed

lemma all_steps: "list_all2 is_step (round1 @ round2 @ round3 @ round4) [0..<64]"
proof -
  have "[0..<64] = [0..<16] @ [16..<32] @ [32..<48] @ [48..<64]"
    using upt_add_eq_append [of 0 48 16] upt_add_eq_append [of 0 32 16] upt_add_eq_append [of 0 16 16] by simp
  moreover have "[0..<16] = [0, 1, 2, 3, 4, 5, 6, 7, 8, 9, 10, 11, 12, 13, 14, 15]" by code_simp
  then have "list_all2 is_step round1 [0..<16]"
    by (simp add: round1_def upt_rec_numeral roles_def rfc_s_def rfc_T_def)
  moreover have "list_all2 is_step round2 [16..<32]"
    by (simp add: round2_def upt_rec_numeral roles_def rfc_s_def rfc_T_def rfc_k_def FG_rfc)
  moreover have "list_all2 is_step round3 [32..<48]"
    by (simp add: round3_def upt_rec_numeral roles_def rfc_s_def rfc_T_def rfc_k_def FH_rfc)
  moreover have "list_all2 is_step round4 [48..<64]"
    by (simp add: round4_def upt_rec_numeral roles_def rfc_s_def rfc_T_def rfc_k_def FI_rfc)
  ultimately show ?thesis by (simp only: list_all2_appendI)
qed

lemma run_rounds:
  assumes "length blk = 64"
  shows "\<exists>v'. run_ops (round1 @ round2 @ round3 @ round4) (v, [], map Some blk @ rest) = Some (v', rfc_words blk, rest) \<and>
    view 0 v' = foldl (rfc_step (rfc_words blk)) (view 0 v) [0..<64]"
proof -
  have "view 64 v' = view 0 v'" for v' by (simp add: view_def roles_def)
  then show ?thesis
    using run_ops_steps [OF assms all_steps, of v "view 0 v" rest] assms by (simp add: rfc_words_def)
qed

lemma run_blocks_rfc:
  "64 dvd length bs \<Longrightarrow> \<exists>v'. run_blocks v (map Some bs @ rest) (length bs) = Some v' \<and>
    view 0 v' = foldl rfc_block (view 0 v) (blocks64 bs)"
proof (induction bs arbitrary: v rule: blocks64.induct)
  case (1 bs)
  show ?case
  proof (cases "bs = []")
    case True
    then show ?thesis by (simp add: run_blocks.simps blocks64.simps)
  next
    case False
    then have len: "64 \<le> length bs" using 1(2) by (metis dvd_imp_le length_greater_0_conv)
    have bs: "map Some bs @ rest = map Some (take 64 bs) @ (map Some (drop 64 bs) @ rest)"
      by (metis append.assoc append_take_drop_id map_append)
    obtain v1 where r: "run_ops (round1 @ round2 @ round3 @ round4) (v, [], map Some bs @ rest)
        = Some (v1, rfc_words (take 64 bs), map Some (drop 64 bs) @ rest)"
        "view 0 v1 = foldl (rfc_step (rfc_words (take 64 bs))) (view 0 v) [0..<64]"
      using run_rounds [of "take 64 bs" v "map Some (drop 64 bs) @ rest"] len bs by auto
    have q: "view 0 (\<lambda>r. v1 r + v r) = rfc_block (view 0 v) (take 64 bs)"
      using r(2) by (auto simp: rfc_block_def view_def roles_def split: prod.split)
    have "64 dvd length (drop 64 bs)" using 1(2) len by simp
    from 1(1) [OF False this] obtain v' where
      "run_blocks (\<lambda>r. v1 r + v r) (map Some (drop 64 bs) @ rest) (length (drop 64 bs)) = Some v'"
      "view 0 v' = foldl rfc_block (view 0 (\<lambda>r. v1 r + v r)) (blocks64 (drop 64 bs))" by blast
    then show ?thesis
      using False r(1) q by (subst run_blocks.simps, subst blocks64.simps) simp
  qed
qed


section \<open>Counting and buffering\<close>

lemma mask_unat:
  "unat (w AND BLOCK_SIZE_MASK) = unat w mod 64" "unat (w AND NOT BLOCK_SIZE_MASK) = unat w div 64 * 64"
proof -
  have m: "BLOCK_SIZE_MASK = mask 6" by (simp add: BLOCK_SIZE_MASK_def MD5_BLOCK_SIZE_def mask_eq_exp_minus_1)
  have "unat (w AND mask 6) = take_bit 6 (unat w)" by (simp add: take_bit_eq_mask [symmetric] unsigned_take_bit_eq)
  then show "unat (w AND BLOCK_SIZE_MASK) = unat w mod 64" by (simp add: m take_bit_eq_mod)
  have w: "unat w < 2 ^ 32" using unsigned_less [of w] by simp
  have "w AND NOT (mask 6) = push_bit 6 (drop_bit 6 w)" by (rule bit_word_eqI) (auto simp: bit_simps)
  then have "unat (w AND NOT (mask 6)) = take_bit 32 (push_bit 6 (drop_bit 6 (unat w)))"
    using take_bit_nat_eq_self [OF w]
    by (simp add: unsigned_push_bit_eq unsigned_drop_bit_eq)
  also have "\<dots> = unat w div 64 * 64"
  proof -
    have "unat w div 64 * 64 < 2 ^ 32" using w by (rule le_less_trans [rotated]) simp
    then show ?thesis by (simp add: push_bit_eq_mult drop_bit_eq_div take_bit_eq_mod)
  qed
  finally show "unat (w AND NOT BLOCK_SIZE_MASK) = unat w div 64 * 64" by (simp add: m)
qed

lemma count_bytes_total:
  assumes "md_total0 m = of_nat N" "md_total1 m = of_nat (N div 2 ^ 32)"
  shows "md_total0 (count_bytes n m) = of_nat (N + unat n)" "md_total1 (count_bytes n m) = of_nat ((N + unat n) div 2 ^ 32)"
proof -
  have n: "unat n < 2 ^ 32" using unsigned_less [of n] by simp
  have "unat (MAX_MD5_UINT32 - n) = 2 ^ 32 - 1 - unat n"
    using n by (subst unat_sub) (simp_all add: MAX_MD5_UINT32_def word_le_nat_alt)
  moreover have "unat (md_total0 m) = N mod 2 ^ 32" by (simp add: assms(1) unat_of_nat)
  ultimately have c: "md_total0 m > MAX_MD5_UINT32 - n \<longleftrightarrow> 2 ^ 32 \<le> N mod 2 ^ 32 + unat n"
    using n by (auto simp: word_less_nat_alt)
  have "MAX_MD5_UINT32 + 1 = 0" by (simp add: MAX_MD5_UINT32_def)
  then show "md_total0 (count_bytes n m) = of_nat (N + unat n)"
    using assms(1) by (simp add: count_bytes_def)
  have "(N + unat n) div 2 ^ 32 = N div 2 ^ 32 + (if 2 ^ 32 \<le> N mod 2 ^ 32 + unat n then 1 else 0)"
    using n by (simp add: div_add1_eq [of N "unat n"]) (simp add: div_if)
  then show "md_total1 (count_bytes n m) = of_nat ((N + unat n) div 2 ^ 32)"
    using assms(2) c by (simp add: count_bytes_def)
qed

lemma count_bytes_rest [simp]:
  "md_A (count_bytes n m) = md_A m" "md_B (count_bytes n m) = md_B m" "md_C (count_bytes n m) = md_C m"
  "md_D (count_bytes n m) = md_D m" "md_buffer (count_bytes n m) = md_buffer m" "md_buf_len (count_bytes n m) = md_buf_len m"
  by (simp_all add: count_bytes_def)

lemma blocks64_append: "64 dvd length p \<Longrightarrow> blocks64 (p @ q) = blocks64 p @ blocks64 q"
proof (induction p rule: blocks64.induct)
  case (1 p)
  show ?case
  proof (cases "p = []")
    case True
    then show ?thesis by (simp add: blocks64.simps [of "[]"])
  next
    case False
    then have "64 \<le> length p" using 1(2) by (metis dvd_imp_le length_greater_0_conv)
    then show ?thesis
      using 1 False by (subst blocks64.simps, subst (2) blocks64.simps) simp
  qed
qed

text \<open>The whole blocks \<open>p\<close> have been processed; \<open>b\<close> waits in the internal buffer.\<close>

definition absorbed :: "u8 list \<Rightarrow> md5_t \<Rightarrow> bool" where
  "absorbed p m \<longleftrightarrow> 64 dvd length p \<and> (md_A m, md_B m, md_C m, md_D m) = foldl rfc_block rfc_init (blocks64 p) \<and>
     md_total0 m = of_nat (length p) \<and> md_total1 m = of_nat (length p div 2 ^ 32)"

definition holding :: "u8 list \<Rightarrow> md5_t \<Rightarrow> bool" where
  "holding b m \<longleftrightarrow> length (md_buffer m) = 128 \<and> length b \<le> 128 \<and> take (length b) (md_buffer m) = map Some b \<and>
     md_buf_len m = of_nat (length b)"

definition md5_state :: "u8 list \<Rightarrow> md5_t \<Rightarrow> bool" where
  "md5_state msg m \<longleftrightarrow> (\<exists>p b. msg = p @ b \<and> absorbed p m \<and> holding b m \<and> length b \<le> 64)"

lemma process_block_absorbed:
  assumes "absorbed p m" "64 dvd length q" "unat n = length q"
  shows "\<exists>m'. process_block m (map Some q @ rest) n = Some m' \<and> absorbed (p @ q) m' \<and>
    md_buffer m' = md_buffer m \<and> md_buf_len m' = md_buf_len m"
proof -
  define v where "v = case_reg (md_A m) (md_B m) (md_C m) (md_D m)"
  have v: "view 0 v = (md_A m, md_B m, md_C m, md_D m)" by (simp add: view_def roles_def v_def)
  obtain v' where r: "run_blocks v (map Some q @ rest) (length q) = Some v'" "view 0 v' = foldl rfc_block (view 0 v) (blocks64 q)"
    using run_blocks_rfc [OF assms(2)] by blast
  have "length q div 4 * 4 = length q" using assms(2) by (auto elim!: dvdE)
  then have pb: "process_block m (map Some q @ rest) n
      = Some ((count_bytes n m)\<lparr>md_A := v' RA, md_B := v' RB, md_C := v' RC, md_D := v' RD\<rparr>)"
    using r(1) assms(3) by (simp add: process_block_def v_def)
  have "(v' RA, v' RB, v' RC, v' RD) = foldl rfc_block rfc_init (blocks64 (p @ q))"
    using r(2) v assms(1) by (simp add: view_def roles_def absorbed_def blocks64_append)
  moreover have "64 dvd length (p @ q)" using assms(1,2) by (simp add: absorbed_def)
  ultimately show ?thesis
    using pb count_bytes_total [of m "length p" n] assms(1,3) by (simp add: absorbed_def)
qed

lemma copy_to_in:
  "pos + n \<le> length dst \<Longrightarrow> n \<le> length src \<Longrightarrow> copy_to dst pos src n = Some (take pos dst @ take n src @ drop (pos + n) dst)"
  by (simp add: copy_to_def)


lemma fill_buffer_state:
  assumes "absorbed p m" "holding b m" "length b \<le> 64" "unat n = length c" "length c + 128 < 2 ^ 32"
  shows "\<exists>m' p' b' c'. fill_buffer m (map Some c) n = Some (m', map Some c', of_nat (length c')) \<and>
    p @ b @ c = p' @ b' @ c' \<and> absorbed p' m' \<and> holding b' m' \<and> length b' \<le> 64 \<and> (c' = [] \<or> b' = [])"
proof -
  define k where "k = min (128 - length b) (length c)"
  have b: "unat (md_buf_len m) = length b" "length (md_buffer m) = 128" "take (length b) (md_buffer m) = map Some b"
    using assms(2,3) by (simp_all add: holding_def unat_of_nat)
  have sum: "unat (md_buf_len m + n) = length b + length c"
    using b(1) assms(3-5) by (subst unat_word_ariths) simp
  define add where "add = (if md_buf_len m + n > 128 then 128 - md_buf_len m else n)"
  have add: "unat add = k"
  proof (cases "md_buf_len m + n > 128")
    case True
    then have "128 < length b + length c" using sum by (simp add: word_less_nat_alt)
    moreover have "unat (128 - md_buf_len m) = 128 - length b"
      using b(1) assms(3) by (subst unat_sub) (simp_all add: word_le_nat_alt)
    ultimately show ?thesis using True by (simp add: add_def k_def)
  next
    case False
    then have "length b + length c \<le> 128" using sum by (simp add: word_less_nat_alt)
    then show ?thesis using False assms(4) by (simp add: add_def k_def)
  qed
  define c1 where "c1 = take k c"
  define c2 where "c2 = drop k c"
  have c: "c = c1 @ c2" "length c1 = k" "length b + k \<le> 128" using assms(3) by (simp_all add: c1_def c2_def k_def)
  define mb where "mb = map Some (b @ c1) @ drop (length b + k) (md_buffer m)"
  have cp: "copy_to (md_buffer m) (length b) (map Some c) k = Some mb"
    using b c by (simp add: copy_to_in mb_def k_def c1_def take_map)
  have n': "n - add = of_nat (length c2)"
  proof -
    have "n = of_nat (length c)" "add = of_nat k" using assms(4) add by (simp_all flip: assms(4) add)
    moreover have "k \<le> length c" by (simp add: k_def)
    ultimately show ?thesis by (simp add: c2_def of_nat_diff)
  qed
  define ib where "ib = md_buf_len m + add"
  define m1 where "m1 = m\<lparr>md_buf_len := ib, md_buffer := mb\<rparr>"
  have ib: "unat ib = length (b @ c1)" using b(1) add c by (simp add: ib_def unat_word_ariths)
  have mb: "length mb = 128" using b(2) c by (simp add: mb_def)
  have h1: "absorbed p m1" "holding (b @ c1) m1"
  proof -
    show "absorbed p m1" using assms(1) by (simp add: absorbed_def m1_def)
    have "md_buf_len m1 = of_nat (length (b @ c1))" by (simp only: m1_def flip: ib) simp
    then show "holding (b @ c1) m1" using mb c by (simp add: holding_def) (simp add: m1_def mb_def)
  qed
  show ?thesis
  proof (cases "MD5_BLOCK_SIZE < ib")
    case False
    then have le: "length (b @ c1) \<le> 64" using ib by (simp add: MD5_BLOCK_SIZE_def word_less_nat_alt)
    then have "length c \<le> 128 - length b" using assms(3) c(2) by (auto simp: k_def)
    then have "c2 = []" by (simp add: c2_def k_def)
    moreover have "fill_buffer m (map Some c) n = Some (m1, map Some c2, of_nat (length c2))"
      using cp False n' by (simp add: fill_buffer_def Let_def add_def [symmetric] add b(1) m1_def ib_def c2_def drop_map)
    ultimately show ?thesis using h1 le c(1) by (intro exI [of _ m1] exI [of _ p] exI [of _ "b @ c1"] exI [of _ c2]) simp
  next
    case True
    define d where "d = b @ c1"
    define q where "q = length d div 64 * 64"
    have q: "q \<le> length d" "64 dvd length (take q d)" "length (take q d) = q" "length (drop q d) = length d mod 64"
      by (simp_all add: q_def min_absorb2 minus_div_mult_eq_mod)
    have md: "md_buffer m1 = map Some (take q d) @ (map Some (drop q d) @ drop (length b + k) (md_buffer m))"
    proof -
      have "map Some d = map Some (take q d) @ map Some (drop q d)" by (metis append_take_drop_id map_append)
      then show ?thesis by (simp add: m1_def mb_def d_def [symmetric])
    qed
    have "unat (ib AND NOT BLOCK_SIZE_MASK) = length (take q d)"
      using ib by (simp add: mask_unat q(3)) (simp add: q_def d_def)
    from process_block_absorbed [OF h1(1) q(2) this, of "map Some (drop q d) @ drop (length b + k) (md_buffer m)"]
    obtain m2 where m2: "process_block m1 (md_buffer m1) (ib AND NOT BLOCK_SIZE_MASK) = Some m2" "absorbed (p @ take q d) m2"
        "md_buffer m2 = md_buffer m1" by (auto simp: md)
    have ml: "unat (ib AND BLOCK_SIZE_MASK) = length (drop q d)" using ib q(4) unfolding d_def [symmetric] by (simp add: mask_unat)
    have dl: "length (drop q d) \<le> 64" by (simp only: q(4))
    have dq: "drop q (md_buffer m1) = map Some (drop q d) @ drop (length b + k) (md_buffer m)"
      using q(3) by (simp add: md)
    have l1: "length (md_buffer m1) = 128" using mb by (simp add: m1_def)
    define mb2 where "mb2 = map Some (drop q d) @ drop (length (drop q d)) (md_buffer m1)"
    have cp2: "copy_to (md_buffer m2) 0 (drop q (md_buffer m2)) (length (drop q d)) = Some mb2"
      using q(3) l1 dq dl by (subst copy_to_in) (simp_all add: m2(3) mb2_def)
    define m3 where "m3 = m2\<lparr>md_buf_len := ib AND BLOCK_SIZE_MASK, md_buffer := mb2\<rparr>"
    have f: "fill_buffer m (map Some c) n = Some (m3, map Some c2, of_nat (length c2))"
      using cp True n' m2(1) cp2 ml \<open>unat (ib AND NOT BLOCK_SIZE_MASK) = length (take q d)\<close> q(3)
      by (simp add: fill_buffer_def Let_def add_def [symmetric] add b(1) m1_def [symmetric] ib_def [symmetric] c2_def drop_map m3_def)
        (simp add: m1_def)
    have h3: "absorbed (p @ take q d) m3" "holding (drop q d) m3"
      using m2(2) ml l1 q by (auto simp: absorbed_def holding_def m3_def mb2_def word_unat_eq_iff unat_of_nat)
    have "length (drop q d) \<le> 64" using q(4) by simp
    moreover have "c2 = [] \<or> drop q d = []"
    proof (cases "c2 = []")
      case False
      then have "length d = 128" using c(2) assms(3) by (auto simp: d_def c2_def k_def)
      then show ?thesis by (simp add: q_def)
    qed simp
    moreover have "p @ b @ c = (p @ take q d) @ drop q d @ c2" 
    proof -
      have "p @ b @ c = p @ d @ c2" using c(1) by (simp add: d_def)
      then show ?thesis by (metis append_assoc append_take_drop_id)
    qed
    ultimately show ?thesis using f h3 by blast
  qed
qed


lemma md5_process_state:
  assumes "md5_state msg m" "unat n = length c" "length c + 128 < 2 ^ 32"
  shows "\<exists>m'. md5_process m (map Some c) n = Some m' \<and> md5_state (msg @ c) m'"
proof -
  obtain p b where m: "msg = p @ b" "absorbed p m" "holding b m" "length b \<le> 64"
    using assms(1) by (auto simp: md5_state_def)
  have bl: "md_buf_len m > 0 \<longleftrightarrow> b \<noteq> []"
    using m(3,4) by (auto simp: holding_def word_less_nat_alt unat_of_nat)
  have "\<exists>m1 p1 b1 c1. (if md_buf_len m > 0 then fill_buffer m (map Some c) n else Some (m, map Some c, n))
      = Some (m1, map Some c1, of_nat (length c1)) \<and> msg @ c = p1 @ b1 @ c1 \<and> absorbed p1 m1 \<and> holding b1 m1 \<and>
      length b1 \<le> 64 \<and> (c1 = [] \<or> b1 = []) \<and> length c1 \<le> length c"
  proof (cases "b = []")
    case True
    have "n = of_nat (length c)" by (simp flip: assms(2))
    then show ?thesis using True bl m by (intro exI [of _ m] exI [of _ p] exI [of _ b] exI [of _ c]) simp
  next
    case False
    from fill_buffer_state [OF m(2,3,4) assms(2,3)] obtain m1 p1 b1 c1 where
      f: "fill_buffer m (map Some c) n = Some (m1, map Some c1, of_nat (length c1))"
        "p @ b @ c = p1 @ b1 @ c1" "absorbed p1 m1" "holding b1 m1" "length b1 \<le> 64" "c1 = [] \<or> b1 = []" by blast
    have "length c1 \<le> length c"
    proof (cases "c1 = []")
      case False
      then show ?thesis using f(1) by (auto simp: fill_buffer_def Let_def split: bind_splits if_splits dest!: arg_cong [where f = length])
    qed simp
    then show ?thesis using False bl f m(1) by auto
  qed
  then obtain m1 p1 b1 c1 where f: "(if md_buf_len m > 0 then fill_buffer m (map Some c) n else Some (m, map Some c, n))
      = Some (m1, map Some c1, of_nat (length c1))" "msg @ c = p1 @ b1 @ c1" "absorbed p1 m1" "holding b1 m1"
      "length b1 \<le> 64" "c1 = [] \<or> b1 = []" "length c1 \<le> length c" by blast
  define l where "l = (of_nat (length c1) :: u32)"
  have l: "unat l = length c1" using f(7) assms(3) by (simp add: l_def unat_of_nat)
  define e where "e = (if l > MD5_BLOCK_SIZE then length c1 div 64 * 64 else 0)"
  have el: "e \<le> length c1" "64 dvd e" "length c1 - e \<le> 64" "l > MD5_BLOCK_SIZE \<Longrightarrow> unat (l AND NOT BLOCK_SIZE_MASK) = e"
      "l > MD5_BLOCK_SIZE \<Longrightarrow> length c1 mod 64 = length c1 - e"
    using l by (auto simp: e_def mask_unat word_less_nat_alt MD5_BLOCK_SIZE_def minus_div_mult_eq_mod)
  define c2 where "c2 = drop e c1"
  have c2: "length c2 \<le> 64" "c1 = take e c1 @ c2" using el by (simp_all add: c2_def)
  have "\<exists>m2. (if l > MD5_BLOCK_SIZE then
        do { m2 \<leftarrow> process_block m1 (map Some c1) (l AND NOT BLOCK_SIZE_MASK);
             Some (m2, drop (unat (l AND NOT BLOCK_SIZE_MASK)) (map Some c1), l AND BLOCK_SIZE_MASK) }
      else Some (m1, map Some c1, l)) = Some (m2, map Some c2, of_nat (length c2)) \<and>
      absorbed (p1 @ take e c1) m2 \<and> holding b1 m2"
  proof (cases "l > MD5_BLOCK_SIZE")
    case True
    have "64 dvd length (take e c1)" "unat (l AND NOT BLOCK_SIZE_MASK) = length (take e c1)"
      using el True by (simp_all add: min_absorb2)
    from process_block_absorbed [OF f(3) this, of "map Some c2"] obtain m2 where
      "process_block m1 (map Some c1) (l AND NOT BLOCK_SIZE_MASK) = Some m2" "absorbed (p1 @ take e c1) m2"
      "md_buffer m2 = md_buffer m1" "md_buf_len m2 = md_buf_len m1"
      using c2(2) by (metis map_append)
    moreover have "unat (l AND BLOCK_SIZE_MASK) = length c2" using el True l by (simp add: mask_unat c2_def)
    then have "l AND BLOCK_SIZE_MASK = of_nat (length c2)" by (simp flip: \<open>unat (l AND BLOCK_SIZE_MASK) = length c2\<close>)
    ultimately show ?thesis using True f(4) el(4) by (simp add: holding_def c2_def drop_map)
  next
    case False
    then show ?thesis using f by (simp add: e_def c2_def l_def)
  qed
  then obtain m2 where m2: "(if l > MD5_BLOCK_SIZE then
        do { m2 \<leftarrow> process_block m1 (map Some c1) (l AND NOT BLOCK_SIZE_MASK);
             Some (m2, drop (unat (l AND NOT BLOCK_SIZE_MASK)) (map Some c1), l AND BLOCK_SIZE_MASK) }
      else Some (m1, map Some c1, l)) = Some (m2, map Some c2, of_nat (length c2))"
      "absorbed (p1 @ take e c1) m2" "holding b1 m2" by blast
  have msg: "msg @ c = (p1 @ take e c1) @ b1 @ c2"
    using f(2,6) c2(2) by (cases "b1 = []") (simp_all add: c2_def)
  have "(of_nat (length c2) :: u32) > 0 \<longleftrightarrow> c2 \<noteq> []" "unat (of_nat (length c2) :: u32) = length c2"
    using c2(1) by (auto simp: word_less_nat_alt unat_of_nat)
  note z = this
  have pr: "md5_process m (map Some c) n =
     (if (of_nat (length c2) :: u32) > 0 then
        do { mb \<leftarrow> copy_to (md_buffer m2) 0 (map Some c2) (unat (of_nat (length c2) :: u32));
             Some (m2\<lparr>md_buf_len := of_nat (length c2), md_buffer := mb\<rparr>) }
      else Some m2)"
    unfolding md5_process_def f(1) Option.bind_lunit prod.case
    unfolding l_def [symmetric]
    by (subst m2(1)) (simp only: Option.bind_lunit prod.case)
  show ?thesis
  proof (cases "c2 = []")
    case True
    then have "md5_process m (map Some c) n = Some m2"
      using pr by simp
    then show ?thesis using m2(2,3) True f(5) msg unfolding md5_state_def
      by (intro exI [of _ m2] conjI exI [of _ "p1 @ take e c1"] exI [of _ b1]) simp_all
  next
    case False
    then have b1: "b1 = []" using f(6) by (auto simp: c2_def)
    define mb where "mb = map Some c2 @ drop (length c2) (md_buffer m2)"
    have "copy_to (md_buffer m2) 0 (map Some c2) (length c2) = Some mb" "length mb = 128"
      using m2(3) c2(1) by (simp_all add: copy_to_in holding_def mb_def)
    then have "md5_process m (map Some c) n = Some (m2\<lparr>md_buf_len := of_nat (length c2), md_buffer := mb\<rparr>)"
      using pr z False by simp
    moreover have "holding c2 (m2\<lparr>md_buf_len := of_nat (length c2), md_buffer := mb\<rparr>)"
      using \<open>length mb = 128\<close> c2(1) by (simp add: holding_def mb_def)
    moreover have "absorbed (p1 @ take e c1) (m2\<lparr>md_buf_len := of_nat (length c2), md_buffer := mb\<rparr>)"
      using m2(2) by (simp add: absorbed_def)
    ultimately show ?thesis using msg b1 c2(1) unfolding md5_state_def
      by (intro exI [of _ "m2\<lparr>md_buf_len := of_nat (length c2), md_buffer := mb\<rparr>"] conjI exI [of _ "p1 @ take e c1"] exI [of _ c2]) simp_all
  qed
qed

lemma md5_init_state: "length (md_buffer m) = 128 \<Longrightarrow> md5_state [] (md5_init m)"
  by (simp add: md5_state_def md5_init_def absorbed_def holding_def rfc_init_def blocks64.simps)


section \<open>Padding and the result\<close>

lemma low_length_word: "push_bit 3 ((of_nat N :: u32) AND 0x1FFFFFFF) = of_nat (8 * N)"
proof (rule bit_word_eqI)
  fix i assume i: "i < LENGTH(32)"
  have m: "(0x1FFFFFFF :: u32) = mask 29" by (simp add: mask_eq_exp_minus_1)
  have "8 * N = push_bit 3 N" by (simp add: push_bit_eq_mult)
  then show "bit (push_bit 3 ((of_nat N :: u32) AND 0x1FFFFFFF)) i = bit (of_nat (8 * N) :: u32) i"
    using i by (auto simp: m bit_simps)
qed

lemma high_length_word:
  "push_bit 3 (of_nat (N div 2 ^ 32) :: u32) OR drop_bit 29 ((of_nat N :: u32) AND 0xE0000000) = of_nat (8 * N div 2 ^ 32)"
proof (rule bit_word_eqI)
  fix i assume i: "i < LENGTH(32)"
  have m: "(0xE0000000 :: u32) = push_bit 29 (mask 3)" by (simp add: mask_eq_exp_minus_1 push_bit_eq_mult)
  have n: "8 * N div 2 ^ 32 = drop_bit 32 (push_bit 3 N)" "N div 2 ^ 32 = drop_bit 32 N"
    by (simp_all add: push_bit_eq_mult drop_bit_eq_div)
  show "bit (push_bit 3 (of_nat (N div 2 ^ 32) :: u32) OR drop_bit 29 ((of_nat N :: u32) AND 0xE0000000)) i
      = bit (of_nat (8 * N div 2 ^ 32) :: u32) i"
  proof (cases "i < 3")
    case True
    then show ?thesis unfolding n m using i by (auto simp: bit_simps)
  next
    case False
    then have "29 + i = 32 + (i - 3)" by simp
    then show ?thesis unfolding n m using i False by (auto simp: bit_simps)
  qed
qed

lemma word_bytes_length [simp]: "length (word_bytes w) = 4"
  by (simp add: word_bytes_def)

lemma pad_length:
  assumes "n \<le> 64"
  shows "sint (MD5_BLOCK_SIZE - 4 * 2 - of_nat n) = 56 - int n"
proof -
  have "MD5_BLOCK_SIZE - 4 * 2 - of_nat n = (of_int (56 - int n) :: u32)"
    by (simp add: MD5_BLOCK_SIZE_def)
  moreover have "sint (of_int (56 - int n) :: u32) = 56 - int n"
    using assms by (subst signed_of_int) (simp add: signed_take_bit_int_eq_self)
  ultimately show ?thesis by (simp only:)
qed

lemma pad_cases:
  assumes "(n :: nat) \<le> 64"
  shows "(119 - n mod 64) mod 64 = (if n < 56 then 55 - n else 119 - n)"
proof -
  consider "n < 56" | "56 \<le> n" "n < 64" | "n = 64" using assms by linarith
  then show ?thesis
  proof cases
    case 1
    then have "119 - n = 55 - n + 64" by simp
    moreover have "(55 - n + 64) mod 64 = 55 - n" by (simp only: mod_add_self2) simp
    ultimately show ?thesis using 1 by simp
  qed simp_all
qed

lemma md5_finish_state:
  assumes "md5_state msg m"
  shows "md5_finish m = Some (rfc_md5 msg)"
proof -
  obtain p b where m: "msg = p @ b" "absorbed p m" "holding b m" "length b \<le> 64"
    using assms by (auto simp: md5_state_def)
  define n where "n = length b"
  define N where "N = length msg"
  define k where "k = (119 - N mod 64) mod 64"
  have p64: "64 dvd length p" using m(2) by (simp add: absorbed_def)
  then have Nn: "N mod 64 = n mod 64" by (auto simp: N_def n_def m(1) elim!: dvdE)
  have n: "n \<le> 64" "md_buf_len m = of_nat n" "unat (md_buf_len m) = n" "length (md_buffer m) = 128"
      "take n (md_buffer m) = map Some b"
    using m(3,4) by (simp_all add: holding_def n_def unat_of_nat)
  define pad where "pad = (if 56 - int n \<le> 0 then 56 - int n + 64 else 56 - int n)"
  have k: "k = (if n < 56 then 55 - n else 119 - n)" using pad_cases [OF n(1)] by (simp add: k_def Nn)
  have pad: "pad = 1 + int k" and nk: "n + 1 + k = 56 \<or> n + 1 + k = 120"
    using n(1) by (auto simp: pad_def k)
  define m1 where "m1 = count_bytes (md_buf_len m) m"
  have tot: "md_total0 m1 = of_nat N" "md_total1 m1 = of_nat (N div 2 ^ 32)"
    using count_bytes_total [of m "length p" "md_buf_len m"] m(2) n(3)
    by (simp_all add: m1_def absorbed_def N_def m(1) n_def)
  have mb0: "md_buffer m1 = map Some b @ drop n (md_buffer m)"
    using n(5) by (simp add: m1_def) (metis append_take_drop_id)
  define W1 where "W1 = word_bytes (of_nat (8 * N))"
  define W2 where "W2 = word_bytes (of_nat (8 * N div 2 ^ 32))"
  define R where "R j = drop j (md_buffer m)" for j
  have R: "length (R j) = 128 - j" for j using n(4) by (simp add: R_def)
  have dR: "drop i (R j) = R (i + j)" for i j by (simp add: R_def)
  define z where "z = map Some (b @ [0x80] @ replicate k 0)"
  have z: "length z = n + 1 + k" by (simp add: z_def n_def)
  have w1: "wr n (Some 0x80) (md_buffer m1) = Some (map Some (b @ [0x80]) @ R (n + 1))"
    using n(1,4) by (simp add: wr_def mb0 n_def list_update_append R_def Cons_nth_drop_Suc [symmetric])
  have w2: "(if pad > 1 then copy_to (map Some (b @ [0x80]) @ R (n + 1)) (n + 1) (replicate (nat (pad - 1)) (Some 0)) (nat (pad - 1))
       else Some (map Some (b @ [0x80]) @ R (n + 1))) = Some (z @ R (n + 1 + k))"
    using nk R [of "n + 1"] dR
    by (auto simp: pad copy_to_def n_def z_def map_replicate_const add.commute add.left_commute)
  have l1: "unat (md_buf_len m + of_int pad) = n + 1 + k" "unat (md_buf_len m + of_int pad + 4) = n + 1 + k + 4"
      "unat (md_buf_len m + of_int pad + 4 + 4) = n + 1 + k + 8"
  proof -
    have e: "md_buf_len m + of_int pad = of_nat (n + 1 + k)" by (simp add: n(2) pad)
    have u: "unat (of_nat (n + 1 + k + j) :: u32) = n + 1 + k + j" if "j \<le> 8" for j
      by (subst unat_of_nat, rule mod_less) (use nk that in auto)
    show "unat (md_buf_len m + of_int pad) = n + 1 + k" unfolding e using u [of 0] by (simp only: add_0_right)
    have "md_buf_len m + of_int pad + 4 = of_nat (n + 1 + k + 4)" "md_buf_len m + of_int pad + 4 + 4 = of_nat (n + 1 + k + 8)"
      unfolding e by simp_all
    then show "unat (md_buf_len m + of_int pad + 4) = n + 1 + k + 4" "unat (md_buf_len m + of_int pad + 4 + 4) = n + 1 + k + 8"
      using u [of 4] u [of 8] by (simp_all only:)
  qed
  have c1: "copy_to (z @ R (n + 1 + k)) (n + 1 + k) (map Some W1) 4 = Some (z @ map Some W1 @ R (n + 1 + k + 4))"
    using nk R [of "n + 1 + k"] dR z by (auto simp: copy_to_def W1_def add.commute)
  have c2: "copy_to (z @ map Some W1 @ R (n + 1 + k + 4)) (n + 1 + k + 4) (map Some W2) 4
      = Some (z @ map Some W1 @ map Some W2 @ R (n + 1 + k + 8))"
    using nk R [of "n + 1 + k + 4"] dR z by (auto simp: copy_to_def W1_def W2_def add.commute)
  define q where "q = b @ [0x80] @ replicate k 0 @ W1 @ W2"
  have q: "z @ map Some W1 @ map Some W2 @ R (n + 1 + k + 8) = map Some q @ R (n + 1 + k + 8)" "length q = n + 1 + k + 8"
    by (simp_all add: q_def z_def W1_def W2_def n_def)
  have pq: "p @ q = rfc_pad msg" by (simp add: q_def rfc_pad_def m(1) W1_def W2_def k_def N_def)
  have q64: "64 dvd length q" using nk q(2) by auto
  define M where "M = map Some q @ R (n + 1 + k + 8)"
  have s: "sint (MD5_BLOCK_SIZE - 4 * 2 - md_buf_len m) = 56 - int n" using pad_length [OF n(1)] by (simp only: n(2))
  have W: "word_bytes (push_bit 3 (md_total0 m1 AND 0x1FFFFFFF)) = W1"
      "word_bytes (push_bit 3 (md_total1 m1) OR drop_bit 29 (md_total0 m1 AND 0xE0000000)) = W2"
    by (simp_all only: tot low_length_word high_length_word W1_def W2_def)
  have "pad > 0" by (simp add: pad)
  then have run: "md5_finish m = do { m2 \<leftarrow> process_block (m1\<lparr>md_buffer := M\<rparr>) M (md_buf_len m + of_int pad + 4 + 4); Some (md5_get_result m2) }"
    by (simp only: md5_finish_def Let_def s pad_def [symmetric] m1_def [symmetric] n(3) if_True w1 w2 Option.bind_lunit
        prod.case l1 W c1 c2 q(1) M_def)
  have "absorbed p (m\<lparr>md_buffer := M\<rparr>)" using m(2) by (simp add: absorbed_def)
  then obtain v where v: "run_blocks (case_reg (md_A m) (md_B m) (md_C m) (md_D m)) M (length q) = Some v"
      "(v RA, v RB, v RC, v RD) = foldl rfc_block rfc_init (blocks64 (rfc_pad msg))"
  proof -
    define v0 where "v0 = case_reg (md_A m) (md_B m) (md_C m) (md_D m)"
    have "view 0 v0 = foldl rfc_block rfc_init (blocks64 p)" using m(2) by (simp add: view_def roles_def v0_def absorbed_def)
    then show thesis
      using that run_blocks_rfc [OF q64, of v0 "R (n + 1 + k + 8)"]
      by (auto simp: M_def v0_def view_def roles_def pq [symmetric] blocks64_append [OF p64])
  qed
  have "length q div 4 * 4 = length q" using q64 by (auto elim!: dvdE)
  then have "unat (md_buf_len m + of_int pad + 4 + 4) div 4 * 4 = length q" by (simp only: l1(3) q(2))
  then show ?thesis
    using v unfolding run process_block_def
    by (simp add: m1_def md5_get_result_def rfc_md5_def split: prod.split) (metis prod.inject)
qed


section \<open>Signatures as text\<close>

lemma hex_index_digit: "i < 16 \<Longrightarrow> hex_index (HEX_STRING ! i) = Some i"
proof -
  have "list_all (\<lambda>i. hex_index (HEX_STRING ! i) = Some i) [0..<16]" by code_simp
  then show "i < 16 \<Longrightarrow> hex_index (HEX_STRING ! i) = Some i" by (simp add: list_all_iff)
qed

lemma sig_chars_all:
  "int (length str + 2 * length sig) < str_len \<Longrightarrow> sig_chars sig str_len str
    = str @ concat (map (\<lambda>b. [HEX_STRING ! (unat b div 16), HEX_STRING ! (unat b mod 16)]) sig)"
  by (induction sig arbitrary: str) simp_all

lemma sig_bytes_chars:
  "sig_bytes (length sig) (concat (map (\<lambda>b. [HEX_STRING ! (unat b div 16), HEX_STRING ! (unat b mod 16)]) sig) @ rest) = Some sig"
proof (induction sig)
  case (Cons b sig)
  have "unat b < 256" using unsigned_less [of b] by simp
  then have "hex_index (HEX_STRING ! (unat b div 16)) = Some (unat b div 16)" "hex_index (HEX_STRING ! (unat b mod 16)) = Some (unat b mod 16)"
    using hex_index_digit by simp_all
  moreover have "of_nat (unat b div 16) * 16 + of_nat (unat b mod 16) = b"
  proof -
    have "of_nat (unat b div 16) * 16 + of_nat (unat b mod 16) = (of_nat (unat b div 16 * 16 + unat b mod 16) :: u8)"
      by (simp only: of_nat_add of_nat_mult of_nat_numeral)
    also have "\<dots> = of_nat (unat b)" by (simp only: div_mult_mod_eq)
    also have "\<dots> = b" by simp
    finally show ?thesis .
  qed
  ultimately show ?case using Cons by (simp add: rd_def)
qed simp

lemma rfc_step_num:
  "i < 64 \<Longrightarrow> rfc_step X (a, b, c, d) i = (d, b + CYCLIC (a + rfc_f i b c d + X ! rfc_k i + rfc_T ! i) (rfc_s i), b, c)"
  using rfc_s_range [of i] by (simp add: rfc_step_def CYCLIC_rotl)

lemma four_rounds:
  "foldl f q [0..<64] = foldl f (foldl f (foldl f (foldl f q [0..<16]) [16..<32]) [32..<48]) [48..<64]"
proof -
  have "[0..<64] = [0..<16] @ [16..<32] @ [32..<48] @ [48..<64]"
    using upt_add_eq_append [of 0 48 16] upt_add_eq_append [of 0 32 16] upt_add_eq_append [of 0 16 16] by simp
  then show ?thesis by (simp only: foldl_append)
qed

text \<open>A vector of the RFC's test suite, computed by the reference definitions: the digest of \<open>abc\<close>.\<close>

lemma abc_rounds:
  defines "X \<equiv> [0x80636261, 0, 0, 0, 0, 0, 0, 0, 0, 0, 0, 0, 0, 0, 24, 0]"
  shows "foldl (rfc_step X) rfc_init [0..<64] = (822795919, 3229755059, 3833903576, 1649249458)"
proof -
  have u: "[0..<16] = 0 # 1 # [2..<16]" by (simp add: upt_conv_Cons numeral_2_eq_2)
  note step = X_def rfc_step_num CYCLIC_def rfc_f_def rfc_k_def rfc_s_def rfc_T_def
  have "foldl (rfc_step X) rfc_init [0..<16] = (3718887846, 1924133600, 3818292587, 2701465749)"
    by (simp add: u rfc_init_def upt_rec_numeral step)
  moreover have "foldl (rfc_step X) (3718887846, 1924133600, 3818292587, 2701465749) [16..<32]
      = (2030729211, 1919107795, 2787673258, 2672289016)"
    by (simp add: upt_rec_numeral step)
  moreover have "foldl (rfc_step X) (2030729211, 1919107795, 2787673258, 2672289016) [32..<48]
      = (2133741691, 2079037184, 2410570649, 2581161885)"
    by (simp add: upt_rec_numeral step)
  moreover have "foldl (rfc_step X) (2133741691, 2079037184, 2410570649, 2581161885) [48..<64]
      = (822795919, 3229755059, 3833903576, 1649249458)"
    by (simp add: upt_rec_numeral step)
  ultimately show ?thesis by (simp only: four_rounds)
qed

lemma rfc_md5_abc:
  "rfc_md5 (bytes ''abc'') = [0x90, 0x01, 0x50, 0x98, 0x3c, 0xd2, 0x4f, 0xb0, 0xd6, 0x96, 0x3f, 0x7d, 0x28, 0xe1, 0x7f, 0x72]"
proof -
  have u: "[0..<4] = [0, 1, 2, 3]" "[0..<16] = [0, 1, 2, 3, 4, 5, 6, 7, 8, 9, 10, 11, 12, 13, 14, 15]"
    by (simp_all add: upt_conv_Cons)
  have p: "rfc_pad (bytes ''abc'') = [0x61, 0x62, 0x63, 0x80] @ replicate 52 0 @ [24, 0, 0, 0, 0, 0, 0, 0]"
    by (simp add: rfc_pad_def bytes_def byte_of_def word_bytes_def u)
  then have b: "blocks64 (rfc_pad (bytes ''abc'')) = [rfc_pad (bytes ''abc'')]" by (simp add: blocks64.simps)
  have w: "rfc_words (rfc_pad (bytes ''abc'')) = [0x80636261, 0, 0, 0, 0, 0, 0, 0, 0, 0, 0, 0, 0, 0, 24, 0]"
  proof -
    have "(push_bit 8 ^^ n) (0 :: u32) = 0" for n by (induction n) simp_all
    then show ?thesis by (simp add: p rfc_words_def u le_word_def)
  qed
  have "rfc_block rfc_init (rfc_pad (bytes ''abc'')) = (0x98500190, 0xb04fd23c, 0x7d3f96d6, 0x727fe128)"
    by (simp add: rfc_block_def w abc_rounds, simp add: rfc_init_def)
  then show ?thesis by (simp add: rfc_md5_def b word_bytes_def u)
qed

lemma md5_digest:
  assumes "unat n = length msg" and "length msg + 128 < 2 ^ 32"
  shows "md5_buffer (map Some msg) n = Some (rfc_md5 msg)"
proof -
  define m where "m = md5_init \<lparr>md_A = 0, md_B = 0, md_C = 0, md_D = 0, md_total0 = 0, md_total1 = 0,
     md_buf_len = 0, md_buffer = replicate 128 None\<rparr>"
  have "md5_state [] m" unfolding m_def by (rule md5_init_state) simp
  from md5_process_state [OF this assms] obtain m' where "md5_process m (map Some msg) n = Some m'" "md5_state msg m'" by auto
  then show ?thesis using md5_finish_state by (simp add: md5_buffer_def m_def)
qed

section \<open>Properties\<close>

text \<open>
  C24: \<open>md5_buffer\<close> computes the MD5 digest of RFC 1321: the unrolled rounds, the optimised round functions,
  the counter in two words and the padding inside the internal buffer give the digest of the padded message.
\<close>

theorem md5_buffer_rfc:
  assumes "unat n = length msg" and "length msg + 128 < 2 ^ 32"
  shows "md5_buffer (map Some msg) n = Some (rfc_md5 msg)"
  using assms by (rule md5_digest)

theorem md5_buffer_rfc_witness:
  "md5_buffer (map Some (bytes ''abc'')) 3
    = Some [0x90, 0x01, 0x50, 0x98, 0x3c, 0xd2, 0x4f, 0xb0, 0xd6, 0x96, 0x3f, 0x7d, 0x28, 0xe1, 0x7f, 0x72]"
proof -
  have "md5_buffer (map Some (bytes ''abc'')) 3 = Some (rfc_md5 (bytes ''abc''))"
    by (rule md5_buffer_rfc) (simp_all add: bytes_def)
  then show ?thesis by (simp only: rfc_md5_abc)
qed

text \<open>\<open>md5_process\<close> called on the pieces of a message in turn.\<close>

fun process_pieces :: "md5_t \<Rightarrow> u8 list list \<Rightarrow> md5_t option" where
  "process_pieces m [] = Some m"
| "process_pieces m (c # cs) = do { m' \<leftarrow> md5_process m (map Some c) (of_nat (length c)); process_pieces m' cs }"

lemma process_pieces_state:
  "md5_state msg m \<Longrightarrow> \<forall>c \<in> set cs. length c + 128 < 2 ^ 32 \<Longrightarrow>
   \<exists>m'. process_pieces m cs = Some m' \<and> md5_state (msg @ concat cs) m'"
proof (induction cs arbitrary: msg m)
  case (Cons c cs)
  have "unat (of_nat (length c) :: u32) = length c" using Cons.prems(2) by (simp add: unat_of_nat)
  then obtain m' where "md5_process m (map Some c) (of_nat (length c)) = Some m'" "md5_state (msg @ c) m'"
    using md5_process_state [OF Cons.prems(1), of "of_nat (length c)" c] Cons.prems(2) by auto
  with Cons.IH [OF this(2)] Cons.prems(2) show ?case by auto
qed simp

text \<open>
  C25: The digest does not depend on how the message is cut into pieces: \<open>md5_init\<close>, any calls of
  \<open>md5_process\<close> and \<open>md5_finish\<close> give the RFC's digest of all the bytes, whatever the structure held before.
\<close>

theorem md5_pieces:
  assumes "length (md_buffer m) = 128" and "\<forall>c \<in> set cs. length c + 128 < 2 ^ 32"
  shows "\<exists>m'. process_pieces (md5_init m) cs = Some m' \<and> md5_finish m' = Some (rfc_md5 (concat cs))"
  using process_pieces_state [OF md5_init_state [OF assms(1)] assms(2)] md5_finish_state by auto

theorem md5_pieces_witness:
  "\<exists>m'. process_pieces (md5_init \<lparr>md_A = 1, md_B = 2, md_C = 3, md_D = 4, md_total0 = 5, md_total1 = 6,
      md_buf_len = 7, md_buffer = replicate 128 None\<rparr>) [replicate 64 1, [], [2], replicate 200 3] = Some m' \<and>
    md5_finish m' = Some (rfc_md5 (concat [replicate 64 1, [], [2], replicate 200 3]))"
  by (rule md5_pieces) simp_all

text \<open>
  A signature survives its text form: \<open>md5_sig_from_string\<close> reads back what \<open>md5_sig_to_string\<close> writes into
  a string of at least 33 characters.
\<close>

lemma md5_sig_round_trip:
  assumes "length sig = 16" and "33 \<le> str_len"
  shows "md5_sig_from_string (md5_sig_to_string sig str_len) = Some sig"
proof -
  have "sig_chars sig str_len []
      = concat (map (\<lambda>b. [HEX_STRING ! (unat b div 16), HEX_STRING ! (unat b mod 16)]) sig)"
    using sig_chars_all [of "[]" sig str_len] assms by simp
  moreover have "take MD5_SIZE sig = sig" using assms(1) by (simp add: MD5_SIZE_def)
  ultimately show ?thesis
    using sig_bytes_chars [of sig] sig_bytes_chars [of sig "[]"] assms(1)
    by (simp add: md5_sig_to_string_def md5_sig_from_string_def MD5_SIZE_def Let_def)
qed

lemma md5_sig_round_trip_sample:
  "md5_sig_from_string (md5_sig_to_string (replicate 16 0xa7) 33) = Some (replicate 16 0xa7)"
  by (rule md5_sig_round_trip) simp_all

end
