(* ===== verification/Wl2k_Session.thy ===== *)
theory Wl2k_Session
  imports Wl2k_Proposal Mid Md5 Conf
begin

text \<open>
  Sessions in wl2k.c: the identification and the secure login, the two handshakes, the parser for the
  commands of the other side with the delivery of received messages, and the two exchanges the drivers
  call.  The results of \<open>select\<close> and \<open>getpeername\<close> are a list the waiting loop takes them from.
\<close>

section \<open>Identification\<close>

text \<open>The text for \<open>sidbuf\<close>, which has room for 31 characters.\<close>

definition sid :: "cstr \<Rightarrow> cstr" where
  "sid v = bytes ''[UnixLINK-'' @ v @ bytes ''-B2FIHM$]''"

definition send_my_sid :: "('d, unit) io" where
  "send_my_sid = andthen (look version) (\<lambda>v.
     if length (sid v) \<ge> 32 then undefined_behaviour else send (sid v @ [13]))"

definition parse_inboundsid :: "cstr \<Rightarrow> ('d, cstr) io" where
  "parse_inboundsid line = andthen (look mem) (\<lambda>al. andthen (defined (strdup al line)) (\<lambda>inboundsid.
     case strrchr inboundsid 45 of
       None \<Rightarrow> fail
     | Some cp \<Rightarrow> andthen (defined (strdup al cp)) (\<lambda>codes.
         case strrchr codes 93 of
           None \<Rightarrow> fail
         | Some cp \<Rightarrow>
             let codes = the (strupper (Some (take (length codes - length cp) codes))) in
             if strstr codes (bytes ''B2F'') = None then fail else ret codes)))"

section \<open>Secure login\<close>

definition sl_salt :: "u8 list" where
  "sl_salt = [77, 197, 101, 206, 190, 249,
     93, 200, 51, 243, 93, 237,
     71, 94, 239, 138, 68, 108,
     70, 185, 225, 137, 217, 16,
     51, 122, 193, 48, 194, 195,
     198, 175, 172, 169, 70, 84,
     61, 62, 104, 186, 114, 52,
     61, 168, 66, 129, 192, 208,
     187, 249, 232, 193, 41, 113,
     41, 45, 240, 16, 29, 228,
     208, 228, 61, 20]"

definition secure_value :: "u8 list \<Rightarrow> nat" where
  "secure_value s = unat (s ! 3 AND 0x3f) * 2 ^ 24 + unat (s ! 2) * 2 ^ 16 + unat (s ! 1) * 2 ^ 8 + unat (s ! 0)"

text \<open>The result of \<open>malloc\<close> is not checked.\<close>

definition compute_secure_login_response :: "mem \<Rightarrow> cstr \<Rightarrow> cstr \<Rightarrow> cstr option" where
  "compute_secure_login_response al challenge pw =
     (let m = length challenge + length pw; n = m + length sl_salt in
      if \<not> granted al n then None
      else
        do { hash_sig \<leftarrow> md5_buffer (map Some (challenge @ pw @ sl_salt)) (of_nat n);
             let pr_str = show_dec8 (secure_value hash_sig);
             let n = length pr_str;
             Some (if n > 8 then drop (n - 8) pr_str else pr_str) })"

definition send_secure_login_response :: "cstr \<Rightarrow> cstr option \<Rightarrow> ('d, bool) io" where
  "send_secure_login_response challenge sl_pass =
     (case sl_pass of
        None \<Rightarrow> ret False
      | Some pw \<Rightarrow>
          if length challenge > 0 then
            andthen send_my_sid (\<lambda>_. andthen (look mem) (\<lambda>al.
            andthen (defined (compute_secure_login_response al challenge pw)) (\<lambda>response.
            andthen (send (bytes '';PR: '' @ response @ [13])) (\<lambda>_. ret True))))
          else ret False)"

section \<open>Handshakes\<close>

text \<open>\<open>line[strlen(line) - 1] == '>'\<close>, undefined on the empty line.\<close>

definition is_prompt :: "cstr \<Rightarrow> bool option" where
  "is_prompt line = (if line = [] then None else Some (last line = 62))"

text \<open>\<open>snprintf(qtcbuf, 63, ">; %s DE %s (%s)", yourcall, mycall, gridsquare)\<close>\<close>

definition qtc_text :: "cfg_t \<Rightarrow> cstr option" where
  "qtc_text cfg = do { yourcall \<leftarrow> targetcall cfg; my \<leftarrow> mycall cfg; grid \<leftarrow> gridsquare cfg;
     Some (take 62 (bytes ''>; '' @ yourcall @ bytes '' DE '' @ my @ bytes '' ('' @ grid @ bytes '')'')) }"

text \<open>State: \<open>inboundsidcodes\<close> and \<open>challenge\<close>.\<close>

definition handshake_step :: "cfg_t \<Rightarrow> cstr option \<times> cstr \<Rightarrow> ('d, (cstr option \<times> cstr) + cstr) io" where
  "handshake_step cfg = (\<lambda>(codes, challenge). andthen wl2kgetline (\<lambda>line. case line of
       None \<Rightarrow> fail
     | Some line \<Rightarrow>
         if strchr line 91 \<noteq> None then
           andthen (parse_inboundsid line) (\<lambda>c. ret (Inl (Some c, challenge)))
         else if strbegins line (bytes '';'') then
           ret (Inl (codes, if strbegins line (bytes '';PQ: '') \<and> length (drop 5 line) = 8 then drop 5 line else challenge))
         else
           andthen (defined (is_prompt line)) (\<lambda>prompt.
             if \<not> prompt then ret (Inl (codes, challenge))
             else
               case codes of
                 None \<Rightarrow> fail
               | Some c \<Rightarrow>
                   andthen (send_secure_login_response challenge (wl2k_password cfg)) (\<lambda>sent_pr.
                   andthen (if strchr c 73 \<noteq> None
                            then andthen (defined (qtc_text cfg)) (\<lambda>qtc. send (bytes ''; '' @ qtc @ [13]))
                            else ret ()) (\<lambda>_.
                   andthen (if \<not> sent_pr then send_my_sid else ret ()) (\<lambda>_. ret (Inr line)))))))"

definition handshake :: "cfg_t \<Rightarrow> ('d, cstr) io" where
  "handshake cfg = io_loop (handshake_step cfg) (None, [])"

text \<open>\<open>handshake_no_secure_login\<close>; \<open>inboundsidcodes\<close> is set only where the loop is left.\<close>

definition no_secure_step :: "cfg_t \<Rightarrow> nat \<Rightarrow> cstr option \<Rightarrow> ('d, cstr option + cstr) io" where
  "no_secure_step cfg opropcount codes = andthen wl2kgetline (\<lambda>line. case line of
       None \<Rightarrow> fail
     | Some line \<Rightarrow>
         andthen (skip_lines (bytes '';FW:'') line) (\<lambda>line.
           if strchr line 91 \<noteq> None then andthen (parse_inboundsid line) (\<lambda>_. ret (Inr line))
           else if strbegins line (bytes '';'') then
             andthen (defined (do { my \<leftarrow> mycall cfg; yourcall \<leftarrow> targetcall cfg;
                 Some (take 62 (my @ bytes '' DE '' @ yourcall @ bytes '' '')) })) (\<lambda>strbuf.
               if strstr line strbuf \<noteq> None then ret (Inl codes) else ret (Inr line))
           else
             andthen (defined (is_prompt line)) (\<lambda>prompt.
               if \<not> prompt then ret (Inl codes)
               else
                 case codes of
                   None \<Rightarrow> fail
                 | Some c \<Rightarrow>
                     andthen (if strchr c 73 \<noteq> None
                              then andthen (defined (do { yourcall \<leftarrow> targetcall cfg; my \<leftarrow> mycall cfg;
                                  Some (bytes ''; '' @ yourcall @ bytes '' DE '' @ my @ bytes '' QTC '' @ show_dec opropcount @ [13]) })) send
                              else ret ()) (\<lambda>_.
                     andthen send_my_sid (\<lambda>_. ret (Inr line))))))"

definition handshake_no_secure_login :: "cfg_t \<Rightarrow> nat \<Rightarrow> ('d, cstr) io" where
  "handshake_no_secure_login cfg opropcount = io_loop (no_secure_step cfg opropcount) None"

definition p2p_startmsg :: "cfg_t \<Rightarrow> nat \<Rightarrow> nat \<Rightarrow> ('d, unit) io" where
  "p2p_startmsg cfg opropcount oprop_usize = andthen resettimeout (\<lambda>_.
     andthen (if opropcount \<noteq> 0 then ret () else fprintf_or_exit (bytes ''No Traffic'' @ [13])) (\<lambda>_.
     andthen (defined (do { yourcall \<leftarrow> targetcall cfg; my \<leftarrow> mycall cfg;
         Some (if opropcount \<noteq> 0
               then yourcall @ bytes '' de '' @ my @ bytes '' QTC '' @ show_dec opropcount @ bytes '' msg '' @
                 show_dec ((oprop_usize + 18) mod 2 ^ 64) @ bytes '' char>'' @ [13]
               else yourcall @ bytes '' de '' @ my @ bytes ''>'' @ [13]) })) (\<lambda>s.
     andthen (asprintf_or_exit s) (\<lambda>sp. fprintf_or_exit sp))))"


section \<open>Receiving\<close>

text \<open>The loop that answers the proposals: the answers, and the proposals with \<open>accepted\<close> set.\<close>

fun answer_proposals :: "proposal list \<Rightarrow> ('d, proposal list \<times> cstr) io" where
  "answer_proposals [] = ret ([], [])"
| "answer_proposals (p # ps) =
     andthen (if code p = 67 then andthen (check_mid (mid p)) (\<lambda>r. ret (if r \<noteq> 0 then (78, False) else (89, True)))
              else ret (76, False)) (\<lambda>(responsechar, acc).
     andthen (answer_proposals ps) (\<lambda>(ps', cs). ret (p\<lparr>accepted := acc\<rparr> # ps', responsechar # cs)))"

text \<open>The mail to sendmail: the command, the pipe, and its status.\<close>

definition send_mail :: "cstr option \<Rightarrow> buffer \<Rightarrow> ('d, unit) io" where
  "send_mail emailaddress mimebuf = andthen (look sendmail_prefix) (\<lambda>pre. andthen (defined emailaddress) (\<lambda>addr.
     andthen (asprintf_or_exit (pre @ [32] @ addr)) (\<lambda>command.
     andthen (defined (read_all mimebuf)) (\<lambda>mail.
     andthen (look (\<lambda>w. sendmail w command mail)) (\<lambda>r.
       if r = Mail_ok \<or> r = Mail_nochild then change (\<lambda>w. w\<lparr>mails := mails w @ [(command, mail)]\<rparr>) else fail)))))"

text \<open>One accepted proposal.\<close>

definition receive_message :: "cstr option \<Rightarrow> proposal \<Rightarrow> ('d, unit) io" where
  "receive_message emailaddress p = andthen getcompressed (\<lambda>c. case c of
       None \<Rightarrow> fail
     | Some cb \<Rightarrow>
         andthen (look (\<lambda>w. version_1_Decode (mem w) cb (tabs w))) (\<lambda>d. andthen (defined d) (\<lambda>r. case r of
             Inl n \<Rightarrow> exit n
           | Inr (ub, g, _) \<Rightarrow> andthen (change (\<lambda>w. w\<lparr>tabs := g\<rparr>)) (\<lambda>_. case ub of
                 None \<Rightarrow> fail
               | Some ub \<Rightarrow>
                   andthen (look (\<lambda>w. wl2mime (mem w) (to_text w) (buffer_rewind ub))) (\<lambda>m. andthen (defined m) (\<lambda>r. case r of
                       Inl n \<Rightarrow> exit n
                     | Inr None \<Rightarrow> fail
                     | Inr (Some m) \<Rightarrow>
                         andthen (send_mail emailaddress (buffer_rewind m)) (\<lambda>_.
                         andthen (record_mid (mid p)) (\<lambda>_. ret ()))))))))"

fun receive_messages :: "cstr option \<Rightarrow> proposal list \<Rightarrow> ('d, unit) io" where
  "receive_messages emailaddress [] = ret ()"
| "receive_messages emailaddress (p # ps) =
     andthen (if \<not> accepted p then ret () else receive_message emailaddress p) (\<lambda>_. receive_messages emailaddress ps)"

text \<open>
  The variables of \<open>inbound_parser\<close>: \<open>oproplist\<close>, the position of \<open>nproplist\<close> in it, the used part of
  \<open>ipropary\<close>, and \<open>proposalcksum\<close>; \<open>sprop\<close> is the static structure of \<open>parse_proposal\<close>.
\<close>

record parser =
  oprops :: "proposal list"
  nprop :: nat
  iprops :: "proposal list"
  proposalcksum :: nat
  sprop :: proposal

text \<open>\<open>if ((b2outret = b2outboundproposal(...)) != 0) return(b2outret);\<close>\<close>

definition outbound_turn :: "cstr \<Rightarrow> parser \<Rightarrow> ('d, parser + (int \<times> proposal list)) io" where
  "outbound_turn line s = andthen (b2outboundproposal line (oprops s) (nprop s)) (\<lambda>(r, ps, n).
     ret (if r \<noteq> 0 then Inr (r, ps) else Inl (s\<lparr>oprops := ps, nprop := n\<rparr>)))"

definition proposal_command :: "cstr \<Rightarrow> parser \<Rightarrow> ('d, parser + (int \<times> proposal list)) io" where
  "proposal_command line s = andthen (dodelete (oprops s) (nprop s)) (\<lambda>ps.
     andthen (defined (add_bytes (map Some (line @ [13])) (proposalcksum s))) (\<lambda>(cksum, _).
       if length (iprops s) = PROPLIMIT then fail
       else
         case parse_proposal (sprop s) (Some line) of
           None \<Rightarrow> fail
         | Some p \<Rightarrow> ret (Inl (s\<lparr>oprops := ps, iprops := iprops s @ [p], proposalcksum := cksum, sprop := p\<rparr>))))"

definition end_of_proposals :: "cstr option \<Rightarrow> cstr \<Rightarrow> parser \<Rightarrow> ('d, parser + (int \<times> proposal list)) io" where
  "end_of_proposals emailaddress line s = andthen (look gsendmsgonly_flag) (\<lambda>flag.
     if flag then andthen (send (bytes ''FF'' @ [13])) (\<lambda>_. ret (Inl s))
     else if fst (strtoul 16 (drop 2 line)) \<noteq> unat (low_byte_neg (proposalcksum s)) then fail
     else
       andthen (if iprops s = [] then ret ()
                else andthen (answer_proposals (iprops s)) (\<lambda>(ps, responses).
                  andthen (send (bytes ''FS '' @ responses @ [13])) (\<lambda>_. receive_messages emailaddress ps))) (\<lambda>_.
       outbound_turn line (s\<lparr>iprops := [], proposalcksum := 0\<rparr>)))"

text \<open>Any other line is compared at an address before its buffer.\<close>

definition inbound_step :: "cstr option \<Rightarrow> parser \<Rightarrow> ('d, parser + (int \<times> proposal list)) io" where
  "inbound_step emailaddress s = andthen wl2kgetline (\<lambda>line. case line of
       None \<Rightarrow> fail
     | Some line \<Rightarrow>
         if strbegins line (bytes '';'') then ret (Inl s)
         else if length line = 0 then ret (Inl s)
         else if strbegins line (bytes ''FC'') then proposal_command line s
         else if strbegins line (bytes ''FF'') then
           andthen (dodelete (oprops s) (nprop s)) (\<lambda>ps. outbound_turn line (s\<lparr>oprops := ps\<rparr>))
         else if strbegins line (bytes ''B'') then ret (Inr (-1, oprops s))
         else if strbegins line (bytes ''FQ'') then
           andthen (dodelete (oprops s) (nprop s)) (\<lambda>ps. ret (Inr (-1, ps)))
         else if strbegins line (bytes ''F>'') then end_of_proposals emailaddress line s
         else undefined_behaviour)"

definition static_proposal :: proposal where
  "static_proposal = \<lparr>code = 0, type = 0, mid = [], usize = 0, csize = 0, path = None, ubuf = None, cbuf = None,
     title = None, offset = 0, accepted = False, delete = False\<rparr>"

definition inbound_parser :: "proposal list \<Rightarrow> nat \<Rightarrow> cstr option \<Rightarrow> ('d, int \<times> proposal list) io" where
  "inbound_parser props n emailaddress = io_loop (inbound_step emailaddress)
     \<lparr>oprops = props, nprop = n, iprops = [], proposalcksum = 0, sprop = static_proposal\<rparr>"

section \<open>Exchanges\<close>

text \<open>
  A result of \<open>select\<close>: input, a time-out with what \<open>isax25connected\<close> then finds, or an error that is
  \<open>EBADF\<close> or not.
\<close>

datatype select_result = Select_input | Select_timeout bool | Select_error bool

fun wl2k_wait_for_response :: "select_result list \<Rightarrow> ('d, bool) io" where
  "wl2k_wait_for_response [] = undefined_behaviour"
| "wl2k_wait_for_response (Select_input # rs) = andthen resettimeout (\<lambda>_. ret True)"
| "wl2k_wait_for_response (Select_timeout conn # rs) = andthen resettimeout (\<lambda>_.
     if \<not> conn then ret False else wl2k_wait_for_response rs)"
| "wl2k_wait_for_response (Select_error ebadf # rs) = (if ebadf then ret False else wl2k_wait_for_response rs)"

definition wl2k_exchange :: "cfg_t \<Rightarrow> select_result list \<Rightarrow> ('d, unit) io" where
  "wl2k_exchange cfg sel = andthen expire_mids (\<lambda>r. if r = -1 then fail else
     andthen (prepare_outbound_proposals False []) (\<lambda>oproplist.
     andthen (handshake cfg) (\<lambda>line.
     andthen (b2outboundproposal line oproplist 0) (\<lambda>(r, ps, n).
       if r \<noteq> 0 then ret ()
       else
         andthen (wl2k_wait_for_response sel) (\<lambda>ok.
           if \<not> ok then ret () else andthen (inbound_parser ps n (emailaddr cfg)) (\<lambda>_. ret ()))))))"

definition wl2kd_exchange :: "cfg_t \<Rightarrow> ('d, unit) io" where
  "wl2kd_exchange cfg = andthen expire_mids (\<lambda>r. if r = -1 then fail else
     andthen (defined (targetcall cfg)) (\<lambda>yourcall.
     andthen (prepare_outbound_proposals True yourcall) (\<lambda>oproplist.
     andthen (p2p_startmsg cfg (length oproplist) (sum_list (map usize oproplist) mod 2 ^ 64)) (\<lambda>_.
     andthen (handshake_no_secure_login cfg (length oproplist)) (\<lambda>_.
     andthen (inbound_parser oproplist 0 (emailaddr cfg)) (\<lambda>(inbound_ret, ps).
       if inbound_ret = 0 then
         andthen (look linebuf) (\<lambda>b. andthen (defined (do { b \<leftarrow> b; cstring (data b) })) (\<lambda>line.
         andthen (b2outboundproposal line ps 0) (\<lambda>_. ret ())))
       else ret ()))))))"


section \<open>The secure login\<close>

lemma digits_value_less: "\<forall>c \<in> set ds. is_digit 10 c \<Longrightarrow> digits_value 10 ds < 10 ^ length ds"
proof (induction ds rule: rev_induct)
  case Nil
  then show ?case by (simp add: digits_value_def)
next
  case (snoc c ds)
  obtain v where "digit_value c = Some v" "v < 10" using snoc.prems by (auto simp: is_digit_def split: option.splits)
  moreover have "digits_value 10 ds < 10 ^ length ds" using snoc by simp
  ultimately show ?case by (simp add: digits_value_snoc)
qed

lemma digits_value_append: "digits_value 10 (xs @ ys) = digits_value 10 xs * 10 ^ length ys + digits_value 10 ys"
proof (induction ys rule: rev_induct)
  case Nil
  then show ?case by (simp add: digits_value_def)
next
  case (snoc y ys)
  then show ?case by (simp add: digits_value_snoc algebra_simps flip: append_assoc)
qed

lemma show_dec8_digits: "c \<in> set (show_dec8 n) \<Longrightarrow> is_digit 10 c"
proof -
  have "is_digit 10 48" by (simp add: is_digit_def digit_value_def)
  then show "c \<in> set (show_dec8 n) \<Longrightarrow> is_digit 10 c" using show_dec_digits by (auto simp: show_dec8_def)
qed

lemma show_dec8_value: "digits_value 10 (show_dec8 n) = n" "8 \<le> length (show_dec8 n)"
proof -
  have "digits_value 10 (replicate k 48) = 0" for k
    by (induction k) (simp_all add: digits_value_snoc digit_value_def replicate_append_same [symmetric] digits_value_def)
  then show "digits_value 10 (show_dec8 n) = n" by (simp add: show_dec8_def digits_value_append show_dec_value)
qed (simp add: show_dec8_def)

section \<open>Runs of the parser\<close>

lemma silent_fgetc: "keeps (\<lambda>w w'. outp w' = outp w) (\<lambda>_. True) fgetc"
  by (auto simp: keeps_def fgetc_def split: list.splits)

lemma silent_resettimeout: "keeps (\<lambda>w w'. outp w' = outp w) (\<lambda>_. True) resettimeout"
  unfolding resettimeout_def by (rule silent.keeps_change) simp_all

lemma silent_tgetline_step: "keeps (\<lambda>w w'. outp w' = outp w) (\<lambda>_. True) (tgetline_step x y b)"
  unfolding tgetline_step_def
  by (intro silent.keeps_then silent_resettimeout silent_fgetc)
    (auto split: option.split prod.split intro!: silent.keeps_then silent.keeps_look silent.keeps_change silent.keeps_ret
       silent.keeps_fail silent.keeps_defined)

lemma silent_wl2kgetline: "keeps (\<lambda>w w'. outp w' = outp w) (\<lambda>_. True) wl2kgetline"
proof -
  have "keeps (\<lambda>w w'. outp w' = outp w) (\<lambda>_. True) (io_loop (tgetline_step x y) b)" for x y b
  proof (rule silent.keeps_io_loop [where I = "\<lambda>_. True"])
    have "case_sum (\<lambda>_. True) (\<lambda>_. True) = (\<lambda>_. True)" by (auto split: sum.split)
    then show "keeps (\<lambda>w w'. outp w' = outp w) (case_sum (\<lambda>_. True) (\<lambda>_. True)) (tgetline_step x y s)" for s
      using silent_tgetline_step by simp
  qed simp
  then show ?thesis
    unfolding wl2kgetline_def tgetline_def
    by (auto split: option.split prod.split intro!: silent.keeps_then silent.keeps_look silent.keeps_ret silent.keeps_fail)
qed

lemma silent_getline_or_exit: "keeps (\<lambda>w w'. outp w' = outp w) (\<lambda>_. True) getline_or_exit"
  unfolding getline_or_exit_def
  by (auto split: option.split intro!: silent.keeps_then silent_wl2kgetline silent.keeps_ret silent.keeps_fail)

lemma silent_skip_lines: "keeps (\<lambda>w w'. outp w' = outp w) (\<lambda>_. True) (skip_lines pre line)"
  unfolding skip_lines_def
proof (rule silent.keeps_io_loop [where I = "\<lambda>_. True"])
  fix l
  show "keeps (\<lambda>w w'. outp w' = outp w) (case_sum (\<lambda>_. True) (\<lambda>_. True))
      (if strbegins l pre then andthen getline_or_exit (\<lambda>l. ret (Inl l)) else ret (Inr l))"
    by (auto intro!: silent.keeps_then silent_getline_or_exit silent.keeps_ret)
qed simp

lemma silent_parse_inboundsid: "keeps (\<lambda>w w'. outp w' = outp w) (\<lambda>_. True) (parse_inboundsid line)"
  unfolding parse_inboundsid_def Let_def
  by (auto split: option.split intro!: silent.keeps_then silent.keeps_look silent.keeps_defined silent.keeps_ret silent.keeps_fail)

lemma result_any: "keeps (\<lambda>_ _. True) (\<lambda>_. True) m"
  by (simp add: keeps_def)

lemma result_b2outbound: "keeps (\<lambda>_ _. True) (\<lambda>x. fst x = 0 \<or> fst x = -1) (b2outboundproposal line props n)"
  unfolding b2outboundproposal_def
  by (auto split: option.split intro!: result.keeps_then result_any result.keeps_ret result.keeps_fail)

lemma silent_no_secure_step:
  "keeps (\<lambda>w w'. outp w' = outp w) (case_sum (\<lambda>codes. codes = None) (\<lambda>_. True)) (no_secure_step cfg n None)"
  unfolding no_secure_step_def
  by (auto split: option.split intro!: silent.keeps_then silent_wl2kgetline silent_skip_lines silent_parse_inboundsid
      silent.keeps_defined silent.keeps_ret silent.keeps_fail)

lemma result_inbound_step:
  "keeps (\<lambda>_ _. True) (case_sum (\<lambda>_. True) (\<lambda>x. fst x = -1)) (inbound_step addr s)"
proof -
  have out: "keeps (\<lambda>_ _. True) (case_sum (\<lambda>_. True) (\<lambda>x. fst x = -1)) (outbound_turn line s)" for line s
    unfolding outbound_turn_def
    by (rule result.keeps_andthen [OF result_b2outbound]) (auto intro!: result.keeps_ret)
  show ?thesis
    unfolding inbound_step_def proposal_command_def end_of_proposals_def
    by (auto split: option.split prod.split intro!: result.keeps_then [OF result_any] out result.keeps_ret result.keeps_fail
        result.keeps_undefined)
qed

text \<open>The first line of the input, when it is made of printable characters.\<close>

lemma first_line:
  assumes "inp w = l @ 13 # rest" "\<forall>c \<in> set l. line_char c" "line_ok w" "plenty (mem w) (2 * length l + 32)"
  shows "\<exists>b. wl2kgetline w = Some (Returned (Some l), (took w rest)\<lparr>linebuf := Some b\<rparr>) \<and> buffer_inv b"
  using wl2kgetline_line [OF assms(1) line_chars(1) [OF assms(2)] assms(3,4)] line_chars(2) [OF assms(2)]
  by (auto simp: read_line_def)

lemma io_loop_undefined: "body s w = None \<Longrightarrow> io_loop body s w = None"
  unfolding io_loop_def by (subst loop.simps) (simp add: io_body_def)

text \<open>What the secure login answers: the last eight digits of the number made of the RFC's digest.\<close>

definition login_response :: "cstr \<Rightarrow> cstr \<Rightarrow> cstr" where
  "login_response challenge pw =
     (let s = show_dec8 (secure_value (rfc_md5 (challenge @ pw @ sl_salt))) in drop (length s - 8) s)"

lemma compute_response:
  assumes "granted al (length challenge + length pw + 64)" and "length challenge + length pw + 192 < 2 ^ 32"
  shows "compute_secure_login_response al challenge pw = Some (login_response challenge pw)"
proof -
  have salt: "length sl_salt = 64" by (simp add: sl_salt_def)
  have "md5_buffer (map Some (challenge @ pw @ sl_salt)) (of_nat (length challenge + length pw + length sl_salt))
      = Some (rfc_md5 (challenge @ pw @ sl_salt))"
  proof (rule md5_digest)
    show "unat (of_nat (length challenge + length pw + length sl_salt) :: u32) = length (challenge @ pw @ sl_salt)"
      by (subst unat_of_nat, subst mod_less) (use assms(2) salt in simp_all)
  qed (use assms(2) salt in simp)
  then show ?thesis
    using assms(1) by (auto simp: compute_secure_login_response_def Let_def salt login_response_def)
qed

lemma low_30_bits:
  fixes x y z v :: nat
  assumes "x < 256" "y < 256" "z < 256"
  shows "(x + (y + (z + v * 256) * 256) * 256) mod 2 ^ 30 = x + y * 256 + z * 65536 + (v mod 64) * 2 ^ 24"
proof -
  obtain a b where v: "v = 64 * a + b" "b < 64" by (metis mult_div_mod_eq mod_less_divisor zero_less_numeral)
  have "x + (y + (z + v * 256) * 256) * 256 = (x + y * 256 + z * 65536 + b * 2 ^ 24) + a * 2 ^ 30" by (simp add: v(1))
  moreover have "x + y * 256 + z * 65536 + b * 2 ^ 24 < 2 ^ 30" using assms v(2) by simp
  moreover have "v mod 64 = b" using v by simp
  ultimately show ?thesis by (simp only: mod_mult_self1 mod_less)
qed

text \<open>The mask in \<open>secure_value\<close> keeps the low 30 bits of the number that the first four bytes are, the low-order one first.\<close>

lemma secure_value_number:
  assumes "4 \<le> length s"
  shows "secure_value s = horner_sum unat 256 (take 4 s) mod 2 ^ 30"
proof -
  obtain b0 b1 b2 b3 r where s: "s = b0 # b1 # b2 # b3 # r"
    using assms by (auto simp: numeral_eq_Suc Suc_le_length_iff)
  have mask: "unat (b3 AND 0x3f) = unat b3 mod 2 ^ 6"
  proof -
    have "(mask 6 :: u8) = 0x3f" by (simp add: mask_eq_exp_minus_1)
    then show ?thesis by (metis take_bit_eq_mask take_bit_eq_mod unsigned_take_bit_eq)
  qed
  have byte: "unat b < 256" for b :: u8 using unsigned_less [of b] by simp
  note low = low_30_bits [OF byte [of b0] byte [of b1] byte [of b2], of "unat b3"]
  have "horner_sum unat 256 (take 4 s) = unat b0 + (unat b1 + (unat b2 + unat b3 * 256) * 256) * 256" by (simp add: s)
  then show ?thesis using low mask by (simp add: secure_value_def s ac_simps)
qed

lemma rfc_md5_length: "length (rfc_md5 msg) = 16"
  by (simp add: rfc_md5_def split: prod.split)

text \<open>A known response: the two blocks of its digest, computed by the reference definitions.\<close>

lemma login_rounds1:
  defines "X \<equiv> [892810034, 942814515, 1112493894, 3310178881, 4190031461, 4080257117, 1581772125, 1816431343, 2313271622, 2050167001, 3284283585, 2846666694, 1044206662, 879934056, 2168629309, 4189835456]"
  shows "foldl (rfc_step X) (1732584193, 4023233417, 2562383102, 271733878) [0..<64] = (193428104, 3056367064, 2581644970, 1252115008)"
proof -
  have u: "[0..<16] = 0 # 1 # [2..<16]" by (simp add: upt_conv_Cons numeral_2_eq_2)
  note step = X_def rfc_step_num CYCLIC_def rfc_f_def rfc_k_def rfc_s_def rfc_T_def
  have "foldl (rfc_step X) (1732584193, 4023233417, 2562383102, 271733878) [0..<16] = (3879111288, 1999832169, 2210659898, 2805832179)"
    by (simp add: u upt_rec_numeral step)
  moreover have "foldl (rfc_step X) (3879111288, 1999832169, 2210659898, 2805832179) [16..<32] = (3272426190, 4057552955, 735233253, 2853525272)"
    by (simp add: upt_rec_numeral step)
  moreover have "foldl (rfc_step X) (3272426190, 4057552955, 735233253, 2853525272) [32..<48] = (2297615476, 2475327075, 366688720, 1014941678)"
    by (simp add: upt_rec_numeral step)
  moreover have "foldl (rfc_step X) (2297615476, 2475327075, 366688720, 1014941678) [48..<64] = (193428104, 3056367064, 2581644970, 1252115008)"
    by (simp add: upt_rec_numeral step)
  ultimately show ?thesis by (simp only: four_rounds)
qed

lemma login_rounds2:
  defines "X \<equiv> [1898562024, 284175657, 3838895133, 8393789, 0, 0, 0, 0, 0, 0, 0, 0, 0, 0, 624, 0]"
  shows "foldl (rfc_step X) (1926012297, 2784633185, 849060776, 1523848886) [0..<64] = (2441723414, 3163763332, 4058464054, 51677837)"
proof -
  have u: "[0..<16] = 0 # 1 # [2..<16]" by (simp add: upt_conv_Cons numeral_2_eq_2)
  note step = X_def rfc_step_num CYCLIC_def rfc_f_def rfc_k_def rfc_s_def rfc_T_def
  have "foldl (rfc_step X) (1926012297, 2784633185, 849060776, 1523848886) [0..<16] = (2877923718, 396183803, 3175400068, 1819245009)"
    by (simp add: u upt_rec_numeral step)
  moreover have "foldl (rfc_step X) (2877923718, 396183803, 3175400068, 1819245009) [16..<32] = (2826301272, 1571045391, 422334076, 3035326959)"
    by (simp add: upt_rec_numeral step)
  moreover have "foldl (rfc_step X) (2826301272, 1571045391, 422334076, 3035326959) [32..<48] = (4085516641, 610999896, 3621408423, 4258834061)"
    by (simp add: upt_rec_numeral step)
  moreover have "foldl (rfc_step X) (4085516641, 610999896, 3621408423, 4258834061) [48..<64] = (2441723414, 3163763332, 4058464054, 51677837)"
    by (simp add: upt_rec_numeral step)
  ultimately show ?thesis by (simp only: four_rounds)
qed

lemma login_digest: "rfc_md5 (bytes ''23753528'' @ bytes ''FOOBAR'' @ sl_salt) = word_bytes 72768415 @ word_bytes 1653429221 @ word_bytes 612557534 @ word_bytes 1575526723"
proof -
  let ?m = "bytes ''23753528'' @ bytes ''FOOBAR'' @ sl_salt"
  have u: "[0..<4] = [0, 1, 2, 3]" "[0..<16] = [0, 1, 2, 3, 4, 5, 6, 7, 8, 9, 10, 11, 12, 13, 14, 15]"
    by (simp_all add: upt_conv_Cons)
  let ?b1 = "[50, 51, 55, 53, 51, 53, 50, 56, 70, 79, 79, 66, 65, 82, 77, 197, 101, 206, 190, 249, 93, 200, 51, 243, 93, 237, 71, 94, 239, 138, 68, 108, 70, 185, 225, 137, 217, 16, 51, 122, 193, 48, 194, 195, 198, 175, 172, 169, 70, 84, 61, 62, 104, 186, 114, 52, 61, 168, 66, 129, 192, 208, 187, 249] :: u8 list" and ?b2 = "[232, 193, 41, 113, 41, 45, 240, 16, 29, 228, 208, 228, 61, 20, 128, 0, 0, 0, 0, 0, 0, 0, 0, 0, 0, 0, 0, 0, 0, 0, 0, 0, 0, 0, 0, 0, 0, 0, 0, 0, 0, 0, 0, 0, 0, 0, 0, 0, 0, 0, 0, 0, 0, 0, 0, 0, 112, 2, 0, 0, 0, 0, 0, 0] :: u8 list"
  have "replicate 41 (0 :: u8) = [0, 0, 0, 0, 0, 0, 0, 0, 0, 0, 0, 0, 0, 0, 0, 0, 0, 0, 0, 0, 0, 0, 0, 0, 0, 0, 0, 0, 0, 0, 0, 0, 0, 0, 0, 0, 0, 0, 0, 0, 0]"
    by (simp add: numeral_eq_Suc)
  then have "rfc_pad ?m = ?b1 @ ?b2"
    by (simp add: rfc_pad_def sl_salt_def bytes_def byte_of_def word_bytes_def u)
  then have b: "blocks64 (rfc_pad ?m) = [?b1, ?b2]" by (simp add: blocks64.simps)
  have z: "(push_bit 8 ^^ n) (0 :: u32) = 0" for n by (induction n) simp_all
  have w: "rfc_words ?b1 = [892810034, 942814515, 1112493894, 3310178881, 4190031461, 4080257117, 1581772125, 1816431343, 2313271622, 2050167001, 3284283585, 2846666694, 1044206662, 879934056, 2168629309, 4189835456]" "rfc_words ?b2 = [1898562024, 284175657, 3838895133, 8393789, 0, 0, 0, 0, 0, 0, 0, 0, 0, 0, 624, 0]"
    by (simp_all add: rfc_words_def u le_word_def z)
  have "rfc_block rfc_init ?b1 = (1926012297, 2784633185, 849060776, 1523848886)"
    using login_rounds1 by (simp add: rfc_block_def w rfc_init_def)
  moreover have "rfc_block (1926012297, 2784633185, 849060776, 1523848886) ?b2 = (72768415, 1653429221, 612557534, 1575526723)"
    using login_rounds2 by (simp add: rfc_block_def w)
  ultimately show ?thesis by (simp add: rfc_md5_def b)
qed


section \<open>Properties\<close>

text \<open>
  C26: The secure login answers a challenge with eight decimal digits, which fit the buffer of nine bytes: take the MD5 digest of
  the challenge, the password and the 64 bytes of salt, read its first four bytes as a number with the low-order byte first, keep
  the low 30 bits of it, and of that the last eight decimal digits.  The challenge and the password are together shorter than
  \<open>2 ^ 32 - 192\<close> bytes, and there is memory for them and the salt.  (To the challenge 23753528 a station with the password
  FOOBAR answers 72768415.)
\<close>

theorem secure_login_response:
  assumes "granted al (length challenge + length pw + 64)" and "length challenge + length pw + 192 < 2 ^ 32"
  shows "\<exists>r. compute_secure_login_response al challenge pw = Some r \<and> length r = 8 \<and> (\<forall>c \<in> set r. 48 \<le> c \<and> c \<le> 57) \<and>
    digits_value 10 r = horner_sum unat 256 (take 4 (rfc_md5 (challenge @ pw @ sl_salt))) mod 2 ^ 30 mod 10 ^ 8"
proof -
  define s where "s = show_dec8 (secure_value (rfc_md5 (challenge @ pw @ sl_salt)))"
  define r where "r = drop (length s - 8) s"
  have s: "8 \<le> length s" "\<forall>c \<in> set s. is_digit 10 c"
      "digits_value 10 s = horner_sum unat 256 (take 4 (rfc_md5 (challenge @ pw @ sl_salt))) mod 2 ^ 30"
    using show_dec8_value show_dec8_digits secure_value_number by (auto simp: s_def rfc_md5_length)
  have "compute_secure_login_response al challenge pw = Some r"
    using compute_response [OF assms] by (simp add: login_response_def Let_def r_def s_def)
  moreover have "length r = 8" using s(1) by (simp add: r_def)
  moreover have "\<forall>c \<in> set r. is_digit 10 c" using s(2) by (auto simp: r_def dest: in_set_dropD)
  moreover have "digits_value 10 r = digits_value 10 s mod 10 ^ 8"
  proof -
    have "digits_value 10 s = digits_value 10 (take (length s - 8) s) * 10 ^ 8 + digits_value 10 r"
      using digits_value_append [of "take (length s - 8) s" r] s(1) by (simp add: r_def)
    moreover have "digits_value 10 r < 10 ^ 8"
      using digits_value_less [of r] \<open>\<forall>c \<in> set r. is_digit 10 c\<close> \<open>length r = 8\<close> by simp
    ultimately show ?thesis by simp
  qed
  moreover have "is_digit 10 c \<Longrightarrow> 48 \<le> c \<and> c \<le> 57" for c
    by (auto simp: is_digit_def digit_value_def word_le_nat_alt split: if_splits option.splits)
  ultimately show ?thesis using s(3) by auto
qed

theorem secure_login_response_witness:
  "\<exists>r. compute_secure_login_response (\<lambda>_. True) (bytes ''23753528'') (bytes ''FOOBAR'') = Some r \<and> length r = 8 \<and>
    (\<forall>c \<in> set r. 48 \<le> c \<and> c \<le> 57) \<and> digits_value 10 r = 72768415"
proof -
  have "horner_sum unat 256 (take 4 (rfc_md5 (bytes ''23753528'' @ bytes ''FOOBAR'' @ sl_salt))) mod 2 ^ 30 mod 10 ^ 8 = (72768415 :: nat)"
    by (simp add: login_digest word_bytes_def upt_conv_Cons)
  moreover have "granted (\<lambda>_. True) (length (bytes ''23753528'') + length (bytes ''FOOBAR'') + 64)"
      "length (bytes ''23753528'') + length (bytes ''FOOBAR'') + 192 < 2 ^ 32" by (simp_all add: granted_def bytes_def)
  ultimately show ?thesis using secure_login_response [of "\<lambda>_. True" "bytes ''23753528''" "bytes ''FOOBAR''"] by simp
qed

text \<open>
  C27: \<open>inbound_parser\<close> returns nothing but -1: every way out of its loop is the end of the session, so the code after it
  in \<open>wl2kd_exchange\<close>, which sends more proposals when it returned 0, is never executed.
\<close>

theorem inbound_parser_ends_session:
  assumes "inbound_parser props n addr w = Some (Returned (r, ps), w')"
  shows "r = -1"
proof -
  have "keeps (\<lambda>_ _. True) (\<lambda>x. fst x = -1) (inbound_parser props n addr)"
    unfolding inbound_parser_def
    by (rule result.keeps_io_loop [where I = "\<lambda>_. True"]) (auto intro!: result_inbound_step)
  from keeps_value [OF this assms] show ?thesis by simp
qed

theorem inbound_parser_ends_session_witness:
  "\<exists>w'. inbound_parser [] 0 None (sample_world (bytes ''FQ'' @ [13])) = Some (Returned (-1, []), w') \<and> (-1 :: int) = -1"
proof -
  have "plenty (mem (sample_world (bytes ''FQ'' @ [13]))) (2 * length (bytes ''FQ'') + 32)"
    by (simp add: sample_world_def plenty_all bytes_def)
  then obtain b where l: "wl2kgetline (sample_world (bytes ''FQ'' @ [13]))
      = Some (Returned (Some (bytes ''FQ'')), (took (sample_world (bytes ''FQ'' @ [13])) [])\<lparr>linebuf := Some b\<rparr>)"
    using first_line [of "sample_world (bytes ''FQ'' @ [13])" "bytes ''FQ''" "[]"]
    by (auto simp: sample_world_def line_ok_def bytes_def byte_of_def line_char_def)
  have "\<exists>w'. inbound_step None \<lparr>oprops = [], nprop = 0, iprops = [], proposalcksum = 0, sprop = static_proposal\<rparr>
      (sample_world (bytes ''FQ'' @ [13])) = Some (Returned (Inr (-1, [])), w')"
    by (simp add: inbound_step_def andthen_def l dodelete_def ret_def) (simp add: bytes_def byte_of_def ret_def)
  then obtain w' where "inbound_parser [] 0 None (sample_world (bytes ''FQ'' @ [13])) = Some (Returned (-1, []), w')"
    unfolding inbound_parser_def using io_loop_done [of "inbound_step None"] by blast
  with inbound_parser_ends_session [OF this] show ?thesis by blast
qed


definition sample_cfg :: cfg_t where
  "sample_cfg = \<lparr>mycall = Some (bytes ''N2QZ''), targetcall = Some (bytes ''W1AW''), hostname = None, hostport = 8772,
     password = None, ax25port = None, emailaddr = Some (bytes ''user''), wl2k_password = None, gridsquare = None,
     welcomemsg = None, cfg_timeoutsecs = 120, bVerbose = False, bSendonly = False, serialdevice = None,
     modem = 0, baudrate = 0, modemfp = False, pathbuf = None\<rparr>"

lemma sample_first_line:
  assumes "\<forall>c \<in> set l. line_char c" "length l < 1000"
  shows "\<exists>b. wl2kgetline (sample_world (l @ 13 # rest))
    = Some (Returned (Some l), (took (sample_world (l @ 13 # rest)) rest)\<lparr>linebuf := Some b\<rparr>) \<and> buffer_inv b"
proof -
  have "plenty (mem (sample_world (l @ 13 # rest))) (2 * length l + 32)"
    using assms(2) by (simp add: sample_world_def plenty_all)
  then show ?thesis
    using first_line [of "sample_world (l @ 13 # rest)" l rest] assms(1) by (simp add: sample_world_def line_ok_def)
qed



text \<open>
  The branch for a prompt of the other side is broken: on every line that is not one of the known commands,
  \<open>CMS>\<close> among them, \<open>inbound_parser\<close> looks for the length of a string that begins before the line's buffer.
\<close>

lemma prompt_line_undefined:
  assumes "inp w = line @ 13 # rest" and "\<forall>c \<in> set line. line_char c" and "line \<noteq> []" and "line_ok w"
    and "plenty (mem w) (2 * length line + 32)"
    and "\<forall>c \<in> {'';'', ''FC'', ''FF'', ''B'', ''FQ'', ''F>''}. \<not> strbegins line (bytes c)"
  shows "inbound_parser props n addr w = None"
proof -
  obtain w' where "wl2kgetline w = Some (Returned (Some line), w')" using first_line [OF assms(1,2,4,5)] by blast
  then have "inbound_step addr s w = None" for s
    using assms(3,6) by (simp add: inbound_step_def andthen_def undefined_behaviour_def)
  then show ?thesis unfolding inbound_parser_def by (rule io_loop_undefined)
qed

text \<open>
  An empty line during the handshake is undefined behaviour: the code reads the character before the first.
\<close>

lemma handshake_empty_line:
  assumes "inp w = 13 # rest" and "line_ok w" and "plenty (mem w) 32"
  shows "handshake cfg w = None \<and> handshake_no_secure_login cfg n w = None"
proof
  obtain w' where l: "wl2kgetline w = Some (Returned (Some []), w')" using first_line [of w "[]"] assms by auto
  have n: "\<not> strbegins [] (bytes '';'')" "\<not> strbegins [] (bytes '';FW:'')" "strchr [] 91 = None"
    by (simp_all add: bytes_def strchr_def)
  have "handshake_step cfg s w = None" for s
    by (cases s) (simp add: handshake_step_def andthen_def l n is_prompt_def defined_def undefined_behaviour_def)
  then show "handshake cfg w = None" unfolding handshake_def by (rule io_loop_undefined)
  have "no_secure_step cfg n None w = None"
    by (simp add: no_secure_step_def andthen_def l n skip_lines_none is_prompt_def defined_def undefined_behaviour_def)
  then show "handshake_no_secure_login cfg n w = None" unfolding handshake_no_secure_login_def by (rule io_loop_undefined)
qed

lemma handshake_empty_line_sample:
  "handshake sample_cfg (sample_world [13]) = None \<and> handshake_no_secure_login sample_cfg 0 (sample_world [13]) = None"
  using handshake_empty_line [of "sample_world [13]" "[]" sample_cfg 0]
  by (simp add: sample_world_def line_ok_def plenty_all)

lemma answers_unreadable:
  assumes "\<not> db_is_open w" "\<forall>p \<in> set ps. code p = 67"
  shows "answer_proposals ps w = Some (Returned (map (\<lambda>p. p\<lparr>accepted := False\<rparr>) ps, replicate (length ps) 78), w)"
  using assms(2)
  by (induction ps) (simp_all add: ret_def andthen_def check_mid_def look_def assms(1))

lemma receive_none: "\<forall>p \<in> set ps. \<not> accepted p \<Longrightarrow> receive_messages addr ps v = Some (Returned (), v)"
  by (induction ps) (simp_all add: ret_def andthen_def)



definition closed_world :: "unit world" where
  "closed_world = (sample_world [])\<lparr>dbops := dbops (sample_world [])\<lparr>db_open := (\<lambda>_. False)\<rparr>\<rparr>"

definition sample_parser :: parser where
  "sample_parser = \<lparr>oprops = [], nprop = 0, iprops = [sample_proposal, sample_proposal], proposalcksum = 0xf7, sprop = static_proposal\<rparr>"


end
