(* ===== verification/Loadconfig.thy ===== *)
theory Loadconfig
  imports Getopt Wl2k_Session
begin

text \<open>
  \<open>loadconfig\<close> of the four programs wl2ktelnet, wl2kserial, wl2kax25 and wl2kax25d: the configuration is filled with defaults,
  then from the configuration file, then from the command line, and is checked.  Parameters are the user name that
  \<open>cuserid\<close> gives, the contents of the configuration file and the arguments after the program's name.  What the first
  three print on the terminal is not modelled; the standard output of wl2kax25d is the connection.
\<close>

section \<open>The parts the programs share\<close>

text \<open>\<open>usage\<close> of the programs on a terminal: \<open>exit(EXIT_SUCCESS)\<close>.\<close>

definition usage :: "('d, 'a) io" where
  "usage = exit 0"

text \<open>The configuration before \<open>loadconfig\<close>: a static variable.\<close>

definition no_config :: cfg_t where
  "no_config = \<lparr>mycall = None, targetcall = None, hostname = None, hostport = 0, password = None, ax25port = None,
     emailaddr = None, wl2k_password = None, gridsquare = None, welcomemsg = None, cfg_timeoutsecs = 0, bVerbose = False,
     bSendonly = False, serialdevice = None, modem = 0, baudrate = 0, modemfp = False, pathbuf = None\<rparr>"

text \<open>\<open>sprintf(cfgbuf, "%s@localhost", cuserid(NULL)); strdup(cfgbuf)\<close>, in a buffer of 256 bytes.\<close>

definition default_email :: "cstr \<Rightarrow> ('d, cstr option) io" where
  "default_email user =
     (if length user + 11 > 256 then undefined_behaviour
      else andthen (look mem) (\<lambda>al. ret (strdup al (user @ bytes ''@localhost''))))"

definition string_copy :: "string \<Rightarrow> ('d, cstr option) io" where
  "string_copy s = andthen (look mem) (\<lambda>al. ret (strdup al (bytes s)))"

text \<open>\<open>conf_read\<close> and the call sign that must be there.\<close>

definition read_file :: "(u8 list \<times> bool) option \<Rightarrow> ('d, conf list) io" where
  "read_file conffile = andthen (look (\<lambda>w. conf_read (mem w) conffile)) (\<lambda>r. andthen (defined r) (\<lambda>r. case r of
     Inl n \<Rightarrow> exit n | Inr conf \<Rightarrow> ret conf))"

definition file_call :: "conf list \<Rightarrow> cfg_t \<Rightarrow> ('d, cfg_t) io" where
  "file_call conf c = andthen (defined (conf_get conf (bytes ''mycall''))) (\<lambda>v. case v of
     None \<Rightarrow> fail | Some s \<Rightarrow> ret (c\<lparr>mycall := Some s\<rparr>))"

text \<open>A setting of the file that is a string, and one that is a number.\<close>

definition file_string :: "conf list \<Rightarrow> string \<Rightarrow> (cstr \<Rightarrow> 'c \<Rightarrow> 'c) \<Rightarrow> 'c \<Rightarrow> ('d, 'c) io" where
  "file_string conf name f c = andthen (defined (conf_get conf (bytes name))) (\<lambda>v. case v of
     None \<Rightarrow> ret c | Some s \<Rightarrow> ret (f s c))"

definition file_number :: "('d, 'c) io \<Rightarrow> conf list \<Rightarrow> string \<Rightarrow> (int \<Rightarrow> 'c \<Rightarrow> 'c) \<Rightarrow> 'c \<Rightarrow> ('d, 'c) io" where
  "file_number bad conf name f c = andthen (defined (conf_get conf (bytes name))) (\<lambda>v. case v of
     None \<Rightarrow> ret c
   | Some s \<Rightarrow> (case strtol s of (n, endp) \<Rightarrow> if endp \<noteq> [] then bad else ret (f n c)))"

text \<open>\<open>(unsigned int) strtol(...)\<close>.\<close>

abbreviation set_timeout :: "int \<Rightarrow> cfg_t \<Rightarrow> cfg_t" where
  "set_timeout n c \<equiv> c\<lparr>cfg_timeoutsecs := word_of_int n\<rparr>"

abbreviation set_email :: "cstr \<Rightarrow> cfg_t \<Rightarrow> cfg_t" where
  "set_email s c \<equiv> c\<lparr>emailaddr := Some s\<rparr>"

abbreviation set_gridsquare :: "cstr \<Rightarrow> cfg_t \<Rightarrow> cfg_t" where
  "set_gridsquare s c \<equiv> c\<lparr>gridsquare := Some s\<rparr>"

abbreviation set_wl2k_password :: "cstr \<Rightarrow> cfg_t \<Rightarrow> cfg_t" where
  "set_wl2k_password s c \<equiv> c\<lparr>wl2k_password := Some s\<rparr>"

abbreviation set_ax25port :: "cstr \<Rightarrow> cfg_t \<Rightarrow> cfg_t" where
  "set_ax25port s c \<equiv> c\<lparr>ax25port := Some s\<rparr>"

text \<open>
  The variables of the loop over the options: the configuration, the flags, and the pointers \<open>pBaudRate\<close> and \<open>pModemType\<close>
  of wl2kserial.
\<close>

record opts =
  config :: cfg_t
  gverbose_flag :: bool
  sendonly_flag :: bool
  displayconfig_flag :: bool
  bDisplayVersion_flag :: bool
  pBaudRate :: cstr
  pModemType :: cstr

definition start_opts :: "cfg_t \<Rightarrow> opts" where
  "start_opts c = \<lparr>config = c, gverbose_flag = False, sendonly_flag = False, displayconfig_flag = False, bDisplayVersion_flag = False,
     pBaudRate = bytes ''9600'', pModemType = bytes ''PTC-IIpro''\<rparr>"

text \<open>The options all programs have; \<open>None\<close> is a call of \<open>usage\<close>.\<close>

fun set_flag :: "flag \<Rightarrow> opts \<Rightarrow> opts" where
  "set_flag Gverbose_flag o' = o'\<lparr>gverbose_flag := True\<rparr>"
| "set_flag Displayconfig_flag o' = o'\<lparr>displayconfig_flag := True\<rparr>"
| "set_flag Gsendmsgonly_flag o' = o'\<lparr>sendonly_flag := True\<rparr>"

definition set_config :: "(cfg_t \<Rightarrow> cfg_t) \<Rightarrow> opts \<Rightarrow> opts" where
  "set_config f o' = o'\<lparr>config := f (config o')\<rparr>"

fun common_option :: "event \<Rightarrow> opts \<Rightarrow> opts option" where
  "common_option (Flag f) o' = Some (set_flag f o')"
| "common_option (Opt c) o' =
     (if c = CHR ''v'' then Some (o'\<lparr>bDisplayVersion_flag := True\<rparr>)
      else if c = CHR ''V'' then Some (set_flag Gverbose_flag o')
      else if c = CHR ''C'' then Some (set_flag Displayconfig_flag o')
      else if c = CHR ''s'' then Some (set_flag Gsendmsgonly_flag o')
      else None)"
| "common_option (Opt_arg c a) o' =
     (if c = CHR ''c'' then Some (set_config (\<lambda>k. k\<lparr>targetcall := Some a\<rparr>) o')
      else if c = CHR ''t'' then
        (case strtol a of (n, endp) \<Rightarrow> if endp \<noteq> [] then None else Some (set_config (set_timeout n) o'))
      else if c = CHR ''e'' then Some (set_config (set_email a) o')
      else None)"
| "common_option Unknown o' = None"

text \<open>The loop, and the flags copied to the configuration behind it; \<open>gsendmsgonly_flag\<close> is global.\<close>

fun handle :: "(event \<Rightarrow> opts \<Rightarrow> opts option) \<Rightarrow> event list \<Rightarrow> opts \<Rightarrow> opts option" where
  "handle h [] o' = Some o'"
| "handle h (e # es) o' = (case h e o' of None \<Rightarrow> None | Some o'' \<Rightarrow> handle h es o'')"

definition copy_flags :: "opts \<Rightarrow> opts" where
  "copy_flags o' = set_config (\<lambda>k. k\<lparr>bSendonly := sendonly_flag o', bVerbose := gverbose_flag o'\<rparr>) o'"

definition read_options :: "('d, opts) io \<Rightarrow> (event \<Rightarrow> opts \<Rightarrow> opts option) \<Rightarrow> event list \<Rightarrow> opts \<Rightarrow> ('d, opts) io" where
  "read_options bad h es o' = (case handle h es o' of
     None \<Rightarrow> bad
   | Some o'' \<Rightarrow> andthen (change (\<lambda>w. w\<lparr>gsendmsgonly_flag := sendonly_flag o''\<rparr>)) (\<lambda>_. ret (copy_flags o'')))"

text \<open>\<open>strupper\<close> of the two call signs.\<close>

definition upper_calls :: "cfg_t \<Rightarrow> cfg_t" where
  "upper_calls c = c\<lparr>mycall := strupper (mycall c), targetcall := strupper (targetcall c)\<rparr>"

text \<open>
  The end on a terminal, with the missing parameters already looked at: \<open>-C\<close> ends the program, then what is missing.
\<close>

definition finish :: "bool \<Rightarrow> opts \<Rightarrow> ('d, bool \<times> cfg_t) io" where
  "finish complete o' =
     (let c = upper_calls (config o') in
      if displayconfig_flag o' then exit 0 else if \<not> complete then usage else ret (True, c))"

text \<open>The options of all programs, with the names in \<open>long_options\<close>.\<close>

definition opt :: "string \<Rightarrow> bool \<Rightarrow> flag + char \<Rightarrow> long_option" where
  "opt name a s = \<lparr>lname = bytes name, has_arg = a, sets = s\<rparr>"

definition common_options :: "long_option list" where
  "common_options =
     [opt ''verbose'' False (Inl Gverbose_flag), opt ''config'' False (Inl Displayconfig_flag),
      opt ''send-only'' False (Inl Gsendmsgonly_flag), opt ''version'' False (Inr CHR ''v''), opt ''help'' False (Inr CHR ''h''),
      opt ''target-call'' True (Inr CHR ''c''), opt ''timeout'' True (Inr CHR ''t''), opt ''email-address'' True (Inr CHR ''e'')]"

section \<open>wl2ktelnet.c\<close>

definition telnet_options :: "long_option list" where
  "telnet_options = common_options @
     [opt ''password'' True (Inr CHR ''p''), opt ''wl2k-passwd'' True (Inr CHR ''P'')]"

definition telnet_args :: "cstr list \<Rightarrow> event list \<times> cstr list" where
  "telnet_args = getopt_long (optstring ''hVvsCc:t:e:p:P:'') telnet_options"

definition telnet_defaults :: "cstr \<Rightarrow> ('d, cfg_t) io" where
  "telnet_defaults user = andthen (default_email user) (\<lambda>email.
     andthen (string_copy ''CMSTelnet'') (\<lambda>pw.
     andthen (string_copy ''wl2k'') (\<lambda>call.
     andthen (string_copy ''cms.winlink.org'') (\<lambda>host.
       ret (no_config\<lparr>emailaddr := email, password := pw, targetcall := call, hostname := host, cfg_timeoutsecs := 120, hostport := 8772\<rparr>)))))"

definition telnet_file :: "conf list \<Rightarrow> cfg_t \<Rightarrow> ('d, cfg_t) io" where
  "telnet_file conf c = andthen (file_call conf c) (\<lambda>c.
     andthen (file_number usage conf ''timeout'' set_timeout c) (\<lambda>c.
     andthen (file_string conf ''email'' set_email c) (\<lambda>c.
     andthen (file_string conf ''password'' (\<lambda>s c. c\<lparr>password := Some s\<rparr>) c) (\<lambda>c.
     andthen (file_string conf ''wl2k-password'' set_wl2k_password c) (\<lambda>c.
     andthen (file_string conf ''gridsquare'' set_gridsquare c) (\<lambda>c.
     andthen (file_string conf ''hostname'' (\<lambda>s c. c\<lparr>hostname := Some s\<rparr>) c) (\<lambda>c.
       file_number usage conf ''hostport'' (\<lambda>n c. c\<lparr>hostport := word_of_int n\<rparr>) c)))))))"

fun telnet_option :: "event \<Rightarrow> opts \<Rightarrow> opts option" where
  "telnet_option (Opt_arg c a) o' =
     (if c = CHR ''p'' then Some (set_config (\<lambda>k. k\<lparr>password := Some a\<rparr>) o')
      else if c = CHR ''P'' then Some (set_config (set_wl2k_password a) o')
      else common_option (Opt_arg c a) o')"
| "telnet_option e o' = common_option e o'"

text \<open>The host and its port behind the options; further arguments are ignored.\<close>

fun telnet_positional :: "cstr list \<Rightarrow> opts \<Rightarrow> ('d, opts) io" where
  "telnet_positional [] o' = ret o'"
| "telnet_positional [h] o' = ret (set_config (\<lambda>k. k\<lparr>hostname := Some h\<rparr>) o')"
| "telnet_positional (h # p # _) o' = (case strtol p of (n, endp) \<Rightarrow>
     if endp \<noteq> [] then usage else ret (set_config (\<lambda>k. k\<lparr>hostname := Some h, hostport := word_of_int n\<rparr>) o'))"

definition telnet_complete :: "cfg_t \<Rightarrow> bool" where
  "telnet_complete c \<longleftrightarrow> targetcall c \<noteq> None \<and> hostname c \<noteq> None \<and> hostport c \<noteq> 0"

definition telnet_loadconfig :: "cstr \<Rightarrow> (u8 list \<times> bool) option \<Rightarrow> cstr list \<Rightarrow> ('d, bool \<times> cfg_t) io" where
  "telnet_loadconfig user conffile args = andthen (look mem) (\<lambda>al.
     if \<not> granted al 256 then ret (False, no_config)
     else andthen (telnet_defaults user) (\<lambda>c.
       andthen (read_file conffile) (\<lambda>conf.
       andthen (telnet_file conf c) (\<lambda>c.
         case telnet_args args of (es, rest) \<Rightarrow>
           andthen (read_options usage telnet_option es (start_opts c)) (\<lambda>o'.
           andthen (telnet_positional rest o') (\<lambda>o'.
             if bDisplayVersion_flag o' then exit 0 else finish (telnet_complete (config o')) o'))))))"

section \<open>wl2kserial.c\<close>

text \<open>The tables of the speeds, with the constants of termios on Linux, and of the modems.\<close>

definition baudrates :: "(string \<times> u32) list" where
  "baudrates = [(''50'', 1), (''75'', 2), (''110'', 3), (''134'', 4), (''150'', 5), (''200'', 6), (''300'', 7), (''600'', 8),
     (''1200'', 9), (''1800'', 10), (''2400'', 11), (''4800'', 12), (''9600'', 13), (''19200'', 14), (''38400'', 15),
     (''57600'', 4097), (''115200'', 4098), (''230400'', 4099), (''460800'', 4100), (''921600'', 4103)]"

definition SCSMODEM_PTCIIPRO :: int where "SCSMODEM_PTCIIPRO = 1"
definition SCSMODEM_P4DRAGON :: int where "SCSMODEM_P4DRAGON = 2"
definition B38400 :: u32 where "B38400 = 15"

definition modems :: "(string \<times> int) list" where
  "modems = [(''PTC-IIpro'', SCSMODEM_PTCIIPRO), (''P4dragon'', SCSMODEM_P4DRAGON)]"

text \<open>The loops over the tables; a name that is not found leaves \<open>B0\<close> and \<open>SCSMODEM_UNDEFINED\<close>, both 0.\<close>

fun find_baud :: "(string \<times> u32) list \<Rightarrow> cstr \<Rightarrow> u32" where
  "find_baud [] s = 0"
| "find_baud ((asc, num) # bs) s = (if bytes asc = s then num else find_baud bs s)"

fun find_modem :: "(string \<times> int) list \<Rightarrow> cstr \<Rightarrow> int" where
  "find_modem [] s = 0"
| "find_modem ((name, m) # ms) s = (if strcaseeq (bytes name) s then m else find_modem ms s)"

definition serial_options :: "long_option list" where
  "serial_options = common_options @
     [opt ''device'' True (Inr CHR ''d''), opt ''baudrate'' True (Inr CHR ''b''), opt ''wl2k-passwd'' True (Inr CHR ''P''),
      opt ''modem'' True (Inr CHR ''m'')]"

definition serial_args :: "cstr list \<Rightarrow> event list \<times> cstr list" where
  "serial_args = getopt_long (optstring ''hVvsCc:t:e:d:b:P:m:'') serial_options"

definition serial_defaults :: "cstr \<Rightarrow> ('d, cfg_t) io" where
  "serial_defaults user = andthen (default_email user) (\<lambda>email.
     ret (no_config\<lparr>emailaddr := email, cfg_timeoutsecs := 120, baudrate := 13, modem := SCSMODEM_PTCIIPRO\<rparr>))"

definition serial_file :: "conf list \<Rightarrow> cfg_t \<Rightarrow> ('d, opts) io" where
  "serial_file conf c = andthen (file_call conf c) (\<lambda>c.
     andthen (file_number usage conf ''timeout'' set_timeout c) (\<lambda>c.
     andthen (file_string conf ''email'' set_email c) (\<lambda>c.
     andthen (file_string conf ''wl2k-password'' set_wl2k_password c) (\<lambda>c.
     andthen (file_string conf ''gridsquare'' set_gridsquare c) (\<lambda>c.
     andthen (file_string conf ''device'' (\<lambda>s c. c\<lparr>serialdevice := Some s\<rparr>) c) (\<lambda>c.
     andthen (file_string conf ''baud'' (\<lambda>s o'. o'\<lparr>pBaudRate := s\<rparr>) (start_opts c)) (\<lambda>o'.
       file_string conf ''modem'' (\<lambda>s o'. o'\<lparr>pModemType := s\<rparr>) o')))))))"

fun serial_option :: "event \<Rightarrow> opts \<Rightarrow> opts option" where
  "serial_option (Opt_arg c a) o' =
     (if c = CHR ''P'' then Some (set_config (set_wl2k_password a) o')
      else if c = CHR ''d'' then Some (set_config (\<lambda>k. k\<lparr>serialdevice := Some a\<rparr>) o')
      else if c = CHR ''b'' then Some (o'\<lparr>pBaudRate := a\<rparr>)
      else if c = CHR ''m'' then Some (o'\<lparr>pModemType := a\<rparr>)
      else common_option (Opt_arg c a) o')"
| "serial_option e o' = common_option e o'"

text \<open>The speed and the modem; the P4dragon has its own speed.\<close>

definition serial_speed :: "opts \<Rightarrow> ('d, opts) io" where
  "serial_speed o' =
     (let b = find_baud baudrates (pBaudRate o'); m = find_modem modems (pModemType o') in
      if b = 0 then usage
      else if m = 0 then usage
      else ret (set_config (\<lambda>k. k\<lparr>baudrate := if m = SCSMODEM_P4DRAGON then B38400 else b, modem := m\<rparr>) o'))"

definition serial_complete :: "cfg_t \<Rightarrow> bool" where
  "serial_complete c \<longleftrightarrow> targetcall c \<noteq> None \<and> serialdevice c \<noteq> None \<and> baudrate c \<noteq> 0"

definition serial_loadconfig :: "cstr \<Rightarrow> (u8 list \<times> bool) option \<Rightarrow> cstr list \<Rightarrow> ('d, bool \<times> cfg_t) io" where
  "serial_loadconfig user conffile args = andthen (look mem) (\<lambda>al.
     if \<not> granted al 256 then ret (False, no_config)
     else andthen (serial_defaults user) (\<lambda>c.
       andthen (read_file conffile) (\<lambda>conf.
       andthen (serial_file conf c) (\<lambda>o'.
         case serial_args args of (es, _) \<Rightarrow>
           andthen (read_options usage serial_option es o') (\<lambda>o'.
           andthen (serial_speed o') (\<lambda>o'.
             if bDisplayVersion_flag o' then exit 0 else finish (serial_complete (config o')) o'))))))"

section \<open>wl2kax25.c\<close>

definition ax25_options :: "long_option list" where
  "ax25_options = common_options @ [opt ''ax25port'' True (Inr CHR ''a''), opt ''wl2k-passwd'' True (Inr CHR ''P'')]"

definition ax25_args :: "cstr list \<Rightarrow> event list \<times> cstr list" where
  "ax25_args = getopt_long (optstring ''hVvsCc:t:e:a:P:'') ax25_options"

definition ax25_defaults :: "cstr \<Rightarrow> ('d, cfg_t) io" where
  "ax25_defaults user = andthen (default_email user) (\<lambda>email.
     ret (no_config\<lparr>emailaddr := email, cfg_timeoutsecs := 120\<rparr>))"

definition ax25_file :: "conf list \<Rightarrow> cfg_t \<Rightarrow> ('d, cfg_t) io" where
  "ax25_file conf c = andthen (file_call conf c) (\<lambda>c.
     andthen (file_number usage conf ''timeout'' set_timeout c) (\<lambda>c.
     andthen (file_string conf ''email'' set_email c) (\<lambda>c.
     andthen (file_string conf ''ax25port'' set_ax25port c) (\<lambda>c.
     andthen (file_string conf ''wl2k-password'' set_wl2k_password c) (\<lambda>c.
       file_string conf ''gridsquare'' set_gridsquare c)))))"

fun ax25_option :: "event \<Rightarrow> opts \<Rightarrow> opts option" where
  "ax25_option (Opt_arg c a) o' =
     (if c = CHR ''P'' then Some (set_config (set_wl2k_password a) o')
      else if c = CHR ''a'' then Some (set_config (set_ax25port a) o')
      else common_option (Opt_arg c a) o')"
| "ax25_option e o' = common_option e o'"

text \<open>
  The arguments behind the options are a path of digipeaters: they are put behind the target call in a growable
  buffer, whose results are not looked at, and the call becomes a pointer to its text.
\<close>

fun add_path :: "mem \<Rightarrow> buffer \<Rightarrow> cstr list \<Rightarrow> buffer" where
  "add_path al b [] = b"
| "add_path al b (a # as) =
     (let b = snd (buffer_addstring al b (bytes '' '')) in add_path al (snd (buffer_addstring al b a)) as)"

definition path_buffer :: "mem \<Rightarrow> buffer \<Rightarrow> cstr option \<Rightarrow> cstr list \<Rightarrow> buffer" where
  "path_buffer al b call args =
     (let b = (case call of None \<Rightarrow> b | Some s \<Rightarrow> snd (buffer_setstring al b s)) in
      snd (buffer_addchar al (add_path al b args) 0))"

definition ax25_path :: "cstr list \<Rightarrow> opts \<Rightarrow> ('d, opts) io" where
  "ax25_path args o' =
     (if args = [] then ret o'
      else andthen (look mem) (\<lambda>al. case buffer_new al of
          None \<Rightarrow> fail
        | Some b \<Rightarrow>
            (let b = path_buffer al b (targetcall (config o')) args in
             andthen (if gverbose_flag o' then andthen (defined (cstring (data b))) (\<lambda>_. ret ()) else ret ()) (\<lambda>_.
               ret (set_config (\<lambda>k. k\<lparr>pathbuf := Some b\<rparr>) o')))))"

text \<open>The text the pointer \<open>targetcall\<close> points to.\<close>

definition path_call :: "opts \<Rightarrow> ('d, opts) io" where
  "path_call o' = (case pathbuf (config o') of
     None \<Rightarrow> ret o'
   | Some b \<Rightarrow> andthen (defined (cstring (data b))) (\<lambda>s. ret (set_config (\<lambda>k. k\<lparr>targetcall := Some s\<rparr>) o')))"

definition ax25_complete :: "cfg_t \<Rightarrow> bool" where
  "ax25_complete c \<longleftrightarrow> targetcall c \<noteq> None \<and> ax25port c \<noteq> None"

definition ax25_loadconfig :: "cstr \<Rightarrow> (u8 list \<times> bool) option \<Rightarrow> cstr list \<Rightarrow> ('d, bool \<times> cfg_t) io" where
  "ax25_loadconfig user conffile args = andthen (look mem) (\<lambda>al.
     if \<not> granted al 256 then fail
     else andthen (ax25_defaults user) (\<lambda>c.
       andthen (read_file conffile) (\<lambda>conf.
       andthen (ax25_file conf c) (\<lambda>c.
         case ax25_args args of (es, rest) \<Rightarrow>
           andthen (read_options usage ax25_option es (start_opts c)) (\<lambda>o'.
           andthen (ax25_path rest o') (\<lambda>o'.
             if bDisplayVersion_flag o' then exit 0
             else andthen (path_call o') (\<lambda>o'. finish (ax25_complete (config o')) o')))))))"

section \<open>Where a value comes from\<close>

text \<open>What the file says for a name, and a number read from the first source that has one.\<close>

definition file_value :: "conf list \<Rightarrow> string \<Rightarrow> cstr option" where
  "file_value conf name = (case conf_get conf (bytes name) of None \<Rightarrow> None | Some v \<Rightarrow> v)"

definition number :: "'a::len word \<Rightarrow> cstr option \<Rightarrow> 'a word" where
  "number d v = (case v of None \<Rightarrow> d | Some s \<Rightarrow> word_of_int (fst (strtol s)))"

named_theorems load_rules \<open>rules for the values a configuration run returns\<close>

lemma result_usage [load_rules]: "keeps (\<lambda>_ _. True) P usage"
  by (simp add: usage_def result.keeps_exit)

definition with_value :: "cstr option \<Rightarrow> (cstr \<Rightarrow> 'c \<Rightarrow> 'c) \<Rightarrow> 'c \<Rightarrow> 'c" where
  "with_value v f c = (case v of None \<Rightarrow> c | Some s \<Rightarrow> f s c)"

lemma with_value_other: "(\<And>s c. h (f s c) = h c) \<Longrightarrow> h (with_value v f c) = h c"
  by (simp add: with_value_def split: option.split)

lemma with_value_string: "(\<And>s. h (f s c) = Some s) \<Longrightarrow> h (with_value v f c) = first_of [v, h c]"
  by (simp add: with_value_def split: option.split)

lemma with_value_number: "(\<And>s. h (f s c) = word_of_int (fst (strtol s))) \<Longrightarrow> h (with_value v f c) = number (h c) v"
  by (simp add: with_value_def number_def split: option.split)

text \<open>One rule of each kind for a member of the configuration.\<close>

lemmas value_rules =
  with_value_other [where h = mycall] with_value_other [where h = targetcall] with_value_other [where h = hostname]
  with_value_other [where h = hostport] with_value_other [where h = password] with_value_other [where h = ax25port]
  with_value_other [where h = emailaddr] with_value_other [where h = wl2k_password] with_value_other [where h = gridsquare]
  with_value_other [where h = welcomemsg] with_value_other [where h = cfg_timeoutsecs] with_value_other [where h = serialdevice]
  with_value_other [where h = pathbuf]
  with_value_string [where h = hostname] with_value_string [where h = password] with_value_string [where h = ax25port]
  with_value_string [where h = emailaddr] with_value_string [where h = wl2k_password] with_value_string [where h = gridsquare]
  with_value_string [where h = welcomemsg] with_value_string [where h = serialdevice]
  with_value_number [where h = cfg_timeoutsecs] with_value_number [where h = hostport]

lemma result_file_string:
  assumes "P (with_value (file_value conf name) f c)"
  shows "keeps (\<lambda>_ _. True) P (file_string conf name f c)"
  unfolding file_string_def
  by (rule result.keeps_andthen [where Q = "\<lambda>v. v = file_value conf name"])
    (use assms in \<open>auto simp: file_value_def with_value_def intro!: result.keeps_defined result.keeps_ret split: option.splits\<close>)

lemma result_file_number:
  assumes "keeps (\<lambda>_ _. True) (\<lambda>_. False) bad" "P (with_value (file_value conf name) (\<lambda>s. f (fst (strtol s))) c)"
  shows "keeps (\<lambda>_ _. True) P (file_number bad conf name f c)"
proof -
  have "keeps (\<lambda>_ _. True) P bad" using assms(1) by (simp add: keeps_def)
  then show ?thesis
    unfolding file_number_def
    by (intro result.keeps_andthen [where Q = "\<lambda>v. v = file_value conf name"])
      (use assms(2) in \<open>auto simp: file_value_def with_value_def intro!: result.keeps_defined result.keeps_ret split: option.splits prod.splits\<close>)
qed

text \<open>The same in front of the rest of a run.\<close>

lemma string_then [load_rules]:
  "keeps (\<lambda>_ _. True) P (g (with_value (file_value conf name) f c)) \<Longrightarrow>
    keeps (\<lambda>_ _. True) P (andthen (file_string conf name f c) g)"
  by (rule result.keeps_andthen [where Q = "\<lambda>k. k = with_value (file_value conf name) f c"])
    (auto intro: result_file_string)

lemma number_then [load_rules]:
  "keeps (\<lambda>_ _. True) (\<lambda>_. False) bad \<Longrightarrow>
    keeps (\<lambda>_ _. True) P (g (with_value (file_value conf name) (\<lambda>s. f (fst (strtol s))) c)) \<Longrightarrow>
    keeps (\<lambda>_ _. True) P (andthen (file_number bad conf name f c) g)"
  by (rule result.keeps_andthen [where Q = "\<lambda>k. k = with_value (file_value conf name) (\<lambda>s. f (fst (strtol s))) c"])
    (auto intro: result_file_number)

lemma call_then [load_rules]:
  assumes "\<And>s. file_value conf ''mycall'' = Some s \<Longrightarrow> keeps (\<lambda>_ _. True) P (g (c\<lparr>mycall := Some s\<rparr>))"
  shows "keeps (\<lambda>_ _. True) P (andthen (file_call conf c) g)"
proof (rule result.keeps_andthen)
  show "keeps (\<lambda>_ _. True) (\<lambda>k. \<exists>s. file_value conf ''mycall'' = Some s \<and> k = c\<lparr>mycall := Some s\<rparr>) (file_call conf c)"
    unfolding file_call_def
    by (rule result.keeps_andthen [where Q = "\<lambda>v. v = file_value conf ''mycall''"])
      (auto simp: file_value_def intro!: result.keeps_defined result.keeps_ret result.keeps_fail split: option.splits)
qed (use assms in blast)

lemma telnet_file_values:
  "keeps (\<lambda>_ _. True) (\<lambda>k. file_value conf ''mycall'' \<noteq> None \<and> mycall k = file_value conf ''mycall'' \<and>
      targetcall k = targetcall c \<and> hostname k = first_of [file_value conf ''hostname'', hostname c] \<and>
      hostport k = number (hostport c) (file_value conf ''hostport'') \<and>
      password k = first_of [file_value conf ''password'', password c] \<and>
      emailaddr k = first_of [file_value conf ''email'', emailaddr c] \<and>
      wl2k_password k = first_of [file_value conf ''wl2k-password'', wl2k_password c] \<and>
      gridsquare k = first_of [file_value conf ''gridsquare'', gridsquare c] \<and>
      cfg_timeoutsecs k = number (cfg_timeoutsecs c) (file_value conf ''timeout''))
    (telnet_file conf c)"
  unfolding telnet_file_def
  by (rule load_rules)+ (rule result_file_number, rule result_usage, simp add: value_rules)

text \<open>The same for the options.\<close>

lemma given_cons: "first_of [given c (e # es), d] = first_of [given c es, first_of [given c [e], d]]"
  by (cases "given c es"; cases e) auto

lemma number_given: "number d (given c (e # es)) = number (number d (given c [e])) (given c es)"
  by (cases "given c es"; cases e) (auto simp: number_def)

lemma handle_keeps:
  assumes "handle h es o' = Some o''" "Q o'" "\<And>e o' o''. h e o' = Some o'' \<Longrightarrow> Q o' \<Longrightarrow> Q o''"
  shows "Q o''"
  using assms(1,2) by (induction es arbitrary: o') (auto split: option.splits dest: assms(3))

lemma common_values:
  assumes "common_option e o' = Some o''"
  shows "mycall (config o'') = mycall (config o') \<and> targetcall (config o'') = first_of [given CHR ''c'' [e], targetcall (config o')] \<and>
    emailaddr (config o'') = first_of [given CHR ''e'' [e], emailaddr (config o')] \<and>
    cfg_timeoutsecs (config o'') = number (cfg_timeoutsecs (config o')) (given CHR ''t'' [e]) \<and>
    gridsquare (config o'') = gridsquare (config o') \<and> wl2k_password (config o'') = wl2k_password (config o') \<and>
    password (config o'') = password (config o') \<and> hostname (config o'') = hostname (config o') \<and>
    hostport (config o'') = hostport (config o') \<and> pathbuf (config o'') = pathbuf (config o') \<and>
    ax25port (config o'') = ax25port (config o') \<and> serialdevice (config o'') = serialdevice (config o')"
proof (cases e)
  case (Flag f)
  then show ?thesis using assms by (cases f) (auto simp: first_of_two number_def)
next
  case (Opt c)
  then show ?thesis using assms by (auto simp: first_of_two number_def split: if_splits)
next
  case (Opt_arg c a)
  then show ?thesis using assms by (auto simp: first_of_two number_def set_config_def split: if_splits prod.splits)
qed (use assms in simp)

lemma telnet_option_values:
  assumes "telnet_option e o' = Some o''"
  shows "mycall (config o'') = mycall (config o') \<and> targetcall (config o'') = first_of [given CHR ''c'' [e], targetcall (config o')] \<and>
    emailaddr (config o'') = first_of [given CHR ''e'' [e], emailaddr (config o')] \<and>
    cfg_timeoutsecs (config o'') = number (cfg_timeoutsecs (config o')) (given CHR ''t'' [e]) \<and>
    gridsquare (config o'') = gridsquare (config o') \<and>
    wl2k_password (config o'') = first_of [given CHR ''P'' [e], wl2k_password (config o')] \<and>
    password (config o'') = first_of [given CHR ''p'' [e], password (config o')] \<and> hostname (config o'') = hostname (config o') \<and>
    hostport (config o'') = hostport (config o')"
proof (cases "\<exists>a. e = Opt_arg CHR ''p'' a \<or> e = Opt_arg CHR ''P'' a")
  case True
  then show ?thesis using assms by (auto simp: set_config_def number_def)
next
  case False
  then have "common_option e o' = Some o''" "given CHR ''p'' [e] = None" "given CHR ''P'' [e] = None"
    using assms by (cases e; auto split: if_splits)+
  then show ?thesis using common_values [of e o' o''] by simp
qed

lemma telnet_handle_values:
  assumes "handle telnet_option es o' = Some o''"
  shows "mycall (config o'') = mycall (config o') \<and> targetcall (config o'') = first_of [given CHR ''c'' es, targetcall (config o')] \<and>
    emailaddr (config o'') = first_of [given CHR ''e'' es, emailaddr (config o')] \<and>
    cfg_timeoutsecs (config o'') = number (cfg_timeoutsecs (config o')) (given CHR ''t'' es) \<and>
    gridsquare (config o'') = gridsquare (config o') \<and>
    wl2k_password (config o'') = first_of [given CHR ''P'' es, wl2k_password (config o')] \<and>
    password (config o'') = first_of [given CHR ''p'' es, password (config o')] \<and> hostname (config o'') = hostname (config o') \<and>
    hostport (config o'') = hostport (config o')"
  using assms
proof (induction es arbitrary: o')
  case Nil
  then show ?case by (simp add: number_def)
next
  case (Cons e es)
  then obtain o1 where o1: "telnet_option e o' = Some o1" "handle telnet_option es o1 = Some o''" by (auto split: option.splits)
  show ?case using telnet_option_values [OF o1(1)] Cons.IH [OF o1(2)]
    by (simp add: given_cons [of _ e es] number_given [of _ _ e es] del: given.simps)
qed

text \<open>An argument behind the options.\<close>

definition argument :: "nat \<Rightarrow> cstr list \<Rightarrow> cstr option" where
  "argument n args = (if n < length args then Some (args ! n) else None)"

lemma result_read_options:
  assumes "\<And>o''. handle h es o' = Some o'' \<Longrightarrow> P (copy_flags o'')" "keeps (\<lambda>_ _. True) P bad"
  shows "keeps (\<lambda>_ _. True) P (read_options bad h es o')"
proof (cases "handle h es o'")
  case (Some o'')
  have "keeps (\<lambda>_ _. True) (\<lambda>_. True) (change (\<lambda>w. w\<lparr>gsendmsgonly_flag := sendonly_flag o''\<rparr>))"
    by (simp add: result.keeps_change)
  then show ?thesis using assms(1) [OF Some] Some
    by (auto simp: read_options_def intro!: result.keeps_then result.keeps_ret)
qed (use assms in \<open>simp add: read_options_def\<close>)

lemma result_finish: "(P (True, upper_calls (config o')) \<or> \<not> complete) \<Longrightarrow> keeps (\<lambda>_ _. True) P (finish complete o')"
  by (auto simp: finish_def Let_def usage_def intro!: result.keeps_exit result.keeps_ret)

lemma result_positional:
  assumes "\<And>k. hostname (config k) = first_of [argument 0 rest, hostname (config o')] \<Longrightarrow>
      hostport (config k) = number (hostport (config o')) (argument 1 rest) \<Longrightarrow>
      k = set_config (\<lambda>c. c\<lparr>hostname := hostname (config k), hostport := hostport (config k)\<rparr>) o' \<Longrightarrow> P k"
  shows "keeps (\<lambda>_ _. True) P (telnet_positional rest o')"
proof (cases "(rest, o')" rule: telnet_positional.cases)
  case (1 k)
  have "P o'" by (rule assms) (use 1 in \<open>simp_all add: argument_def number_def set_config_def\<close>)
  then show ?thesis using 1 by (simp add: result.keeps_ret)
next
  case (2 h k)
  have "P (set_config (\<lambda>c. c\<lparr>hostname := Some h\<rparr>) o')"
    by (rule assms) (use 2 in \<open>simp_all add: argument_def number_def set_config_def\<close>)
  then show ?thesis using 2 by (simp add: result.keeps_ret)
next
  case (3 h p r k)
  have "P (set_config (\<lambda>k. k\<lparr>hostname := Some h, hostport := word_of_int (fst (strtol p))\<rparr>) o')"
    by (rule assms) (use 3 in \<open>simp_all add: argument_def number_def set_config_def\<close>)
  then show ?thesis using 3 by (auto simp: usage_def intro!: result.keeps_ret result.keeps_exit split: prod.splits)
qed

section \<open>Properties\<close>

text \<open>A run that returns has memory for the buffer, has read the file, and has gone through the steps.\<close>

lemma string_copy_run: "string_copy s w = Some (Returned (strdup (mem w) (bytes s)), w)"
  by (simp add: string_copy_def andthen_def look_def ret_def)

lemma telnet_defaults_run:
  "telnet_defaults user w = Some (r, w') \<Longrightarrow>
    w' = w \<and> r = Returned (no_config\<lparr>emailaddr := strdup (mem w) (user @ bytes ''@localhost''), password := strdup (mem w) (bytes ''CMSTelnet''),
      targetcall := strdup (mem w) (bytes ''wl2k''), hostname := strdup (mem w) (bytes ''cms.winlink.org''), cfg_timeoutsecs := 120, hostport := 8772\<rparr>)"
  by (auto simp: telnet_defaults_def default_email_def andthen_def look_def string_copy_run ret_def undefined_behaviour_def split: if_splits)

lemma read_file_run:
  "read_file conffile w = Some (Returned conf, w') \<longleftrightarrow> w' = w \<and> conf_read (mem w) conffile = Some (Inr conf)"
  by (auto simp: read_file_def andthen_Returned look_def defined_def ret_def exit_def undefined_behaviour_def
      split: option.splits sum.splits)

lemma finish_run:
  "finish complete o' w = Some (Returned x, w') \<Longrightarrow> complete \<and> x = (True, upper_calls (config o')) \<and> w' = w"
  by (auto simp: finish_def Let_def usage_def exit_def ret_def split: if_splits)

lemma telnet_loadconfig_run:
  assumes "telnet_loadconfig user conffile args w = Some (Returned (True, c), w')" "telnet_args args = (es, rest)"
    and "conf_read (mem w) conffile = Some (Inr conf)"
  shows "\<exists>o' :: opts. telnet_complete (config o') \<and> c = upper_calls (config o') \<and>
    mycall (config o') = file_value conf ''mycall'' \<and> mycall (config o') \<noteq> None \<and>
    targetcall (config o') = first_of [given CHR ''c'' es, strdup (mem w) (bytes ''wl2k'')] \<and>
    hostname (config o') = first_of [argument 0 rest, file_value conf ''hostname'', strdup (mem w) (bytes ''cms.winlink.org'')] \<and>
    hostport (config o') = number (number 8772 (file_value conf ''hostport'')) (argument 1 rest) \<and>
    password (config o') = first_of [given CHR ''p'' es, file_value conf ''password'', strdup (mem w) (bytes ''CMSTelnet'')] \<and>
    wl2k_password (config o') = first_of [given CHR ''P'' es, file_value conf ''wl2k-password''] \<and>
    emailaddr (config o') = first_of [given CHR ''e'' es, file_value conf ''email'', strdup (mem w) (user @ bytes ''@localhost'')] \<and>
    gridsquare (config o') = file_value conf ''gridsquare'' \<and>
    cfg_timeoutsecs (config o') = number (number 120 (file_value conf ''timeout'')) (given CHR ''t'' es)"
proof -
  obtain d k w1 o1 w2 o2 w3 where
      d: "telnet_defaults user w = Some (Returned d, w)" and k: "telnet_file conf d w = Some (Returned k, w1)"
    and o1: "read_options usage telnet_option es (start_opts k) w1 = Some (Returned o1, w2)"
    and o2: "telnet_positional rest o1 w2 = Some (Returned o2, w3)" and fin: "telnet_complete (config o2)" "c = upper_calls (config o2)"
    using assms
    by (auto simp: telnet_loadconfig_def andthen_Returned look_def ret_def read_file_run exit_def split: if_splits
        dest!: finish_run dest: telnet_defaults_run)
  note dv = telnet_defaults_run [OF d]
  note kv = keeps_value [OF telnet_file_values k]
  have "keeps (\<lambda>_ _. True) (\<lambda>o''. \<exists>o'. handle telnet_option es (start_opts k) = Some o' \<and> o'' = copy_flags o')
      (read_options usage telnet_option es (start_opts k))"
    by (rule result_read_options) (auto simp: result_usage)
  from keeps_value [OF this o1] obtain o0 where o0: "handle telnet_option es (start_opts k) = Some o0" "o1 = copy_flags o0" by blast
  note ov = telnet_handle_values [OF o0(1)]
  have "keeps (\<lambda>_ _. True) (\<lambda>k. hostname (config k) = first_of [argument 0 rest, hostname (config o1)] \<and>
      hostport (config k) = number (hostport (config o1)) (argument 1 rest) \<and>
      k = set_config (\<lambda>c. c\<lparr>hostname := hostname (config k), hostport := hostport (config k)\<rparr>) o1) (telnet_positional rest o1)"
    by (rule result_positional) blast
  note pv = keeps_value [OF this o2]
  have pv': "hostname (config o2) = first_of [argument 0 rest, hostname (config o1)]"
      "hostport (config o2) = number (hostport (config o1)) (argument 1 rest)" using pv by blast+
  define h p where "h = hostname (config o2)" and "p = hostport (config o2)"
  from pv have "o2 = set_config (\<lambda>c. c\<lparr>hostname := h, hostport := p\<rparr>) o1" unfolding h_def p_def by blast
  then have "mycall (config o2) = mycall (config o1)" "targetcall (config o2) = targetcall (config o1)"
      "password (config o2) = password (config o1)" "wl2k_password (config o2) = wl2k_password (config o1)"
      "emailaddr (config o2) = emailaddr (config o1)" "gridsquare (config o2) = gridsquare (config o1)"
      "cfg_timeoutsecs (config o2) = cfg_timeoutsecs (config o1)"
    by (simp_all add: set_config_def)
  moreover have "mycall (config o1) = mycall (config o0)" "targetcall (config o1) = targetcall (config o0)"
      "password (config o1) = password (config o0)" "wl2k_password (config o1) = wl2k_password (config o0)"
      "emailaddr (config o1) = emailaddr (config o0)" "gridsquare (config o1) = gridsquare (config o0)"
      "cfg_timeoutsecs (config o1) = cfg_timeoutsecs (config o0)" "hostname (config o1) = hostname (config o0)"
      "hostport (config o1) = hostport (config o0)"
    by (simp_all add: o0(2) copy_flags_def set_config_def)
  moreover have "config (start_opts k) = k" by (simp add: start_opts_def)
  moreover have "first_of [x, first_of [y, z]] = first_of [x, y, z]" for x y z :: "cstr option" by (cases x; simp)
  moreover have "first_of [y, None] = y" for y :: "cstr option" by (cases y; simp)
  moreover have "first_of [x, y, None] = first_of [x, y]" for x y :: "cstr option" by (cases x; cases y; simp)
  ultimately show ?thesis using fin dv kv ov pv' by - (rule exI [of _ o2], auto simp: no_config_def)
qed

text \<open>The call sign of the station is kept on the way, and the tables hold what is set.\<close>

lemma my_call_kept:
  "mycall (config (copy_flags o')) = mycall (config o')" "mycall (with_value v f c) = mycall c" if "\<And>s c. mycall (f s c) = mycall c"
  using that by (simp_all add: copy_flags_def set_config_def with_value_def split: option.split)

lemma find_baud_table: "find_baud bs s \<noteq> 0 \<Longrightarrow> find_baud bs s \<in> snd ` set bs"
  by (induction bs s rule: find_baud.induct) auto

lemma find_modem_table: "find_modem ms s \<noteq> 0 \<Longrightarrow> find_modem ms s \<in> snd ` set ms"
  by (induction ms s rule: find_modem.induct) auto

lemma serial_option_call: "serial_option e o' = Some o'' \<Longrightarrow> mycall (config o'') = mycall (config o')"
  using common_values [of e o' o''] by (cases e) (auto simp: set_config_def split: if_splits)

lemma ax25_option_call: "ax25_option e o' = Some o'' \<Longrightarrow> mycall (config o'') = mycall (config o')"
  using common_values [of e o' o''] by (cases e) (auto simp: set_config_def split: if_splits)

lemma read_options_call:
  assumes "read_options bad h es o' w = Some (Returned o'', w')" "\<And>P. keeps (\<lambda>_ _. True) P bad"
    and "\<And>e p q. h e p = Some q \<Longrightarrow> mycall (config q) = mycall (config p)"
  shows "mycall (config o'') = mycall (config o')"
proof -
  have "mycall (config o3) = mycall (config o')" if "handle h es o' = Some o3" for o3
    by (rule handle_keeps [where h = h, OF that]) (simp_all add: assms(3))
  then have "keeps (\<lambda>_ _. True) (\<lambda>k. mycall (config k) = mycall (config o')) (read_options bad h es o')"
    by (intro result_read_options) (simp_all add: copy_flags_def set_config_def assms(2))
  from keeps_value [OF this assms(1)] show ?thesis .
qed

lemma serial_file_call: "keeps (\<lambda>_ _. True) (\<lambda>o'. mycall (config o') \<noteq> None) (serial_file conf c)"
  unfolding serial_file_def
  by (rule load_rules)+ (rule result_file_string, simp add: with_value_other [where h = "\<lambda>o'. mycall (config o')"] start_opts_def value_rules)

lemma ax25_file_call: "keeps (\<lambda>_ _. True) (\<lambda>k. mycall k \<noteq> None) (ax25_file conf c)"
  unfolding ax25_file_def by (rule load_rules)+ (rule result_file_string, simp add: value_rules)

definition call_ok :: "cstr option \<Rightarrow> bool" where
  "call_ok v \<longleftrightarrow> (\<exists>s. v = Some s \<and> (\<forall>c \<in> set s. \<not> is_lower c))"

lemma upper_not_lower:
  assumes "is_lower c"
  shows "\<not> is_lower (to_upper c)"
proof -
  have "97 \<le> unat c" "unat c \<le> 122" using assms by (simp_all add: is_lower_def word_le_nat_alt)
  then have "unat (c - 32) = unat c - 32" by (subst unat_sub) (simp_all add: word_le_nat_alt)
  then show ?thesis using assms \<open>unat c \<le> 122\<close> by (simp add: to_upper_def is_lower_def word_le_nat_alt)
qed

lemma upper_call_ok: "v \<noteq> None \<Longrightarrow> call_ok (strupper v)"
  by (auto simp: call_ok_def strupper_def upper_not_lower)

lemma serial_loadconfig_run:
  fixes w :: "'d world"
  assumes "serial_loadconfig user conffile args w = Some (Returned (True, c), w')"
  shows "call_ok (mycall c) \<and> call_ok (targetcall c) \<and> serialdevice c \<noteq> None \<and> baudrate c \<in> snd ` set baudrates \<and>
    modem c \<in> snd ` set modems \<and> (modem c = SCSMODEM_P4DRAGON \<longrightarrow> baudrate c = B38400)"
proof -
  obtain es rest where args: "serial_args args = (es, rest)" by fastforce
  obtain conf d and v :: "'d world" and o1 w1 o2 w2 o3 w3 where run: "serial_file conf d v = Some (Returned o1, w1)" "serial_args args = (es, rest)"
      "read_options usage serial_option es o1 w1 = Some (Returned o2, w2)" "serial_speed o2 w2 = Some (Returned o3, w3)"
      "serial_complete (config o3)" "c = upper_calls (config o3)"
    using assms args
    by (auto simp: serial_loadconfig_def andthen_Returned look_def ret_def read_file_run exit_def split: if_splits prod.splits
        dest!: finish_run)
  define b m where "b = find_baud baudrates (pBaudRate o2)" and "m = find_modem modems (pModemType o2)"
  have o3: "o3 = set_config (\<lambda>k. k\<lparr>baudrate := if m = SCSMODEM_P4DRAGON then B38400 else b, modem := m\<rparr>) o2" "b \<noteq> 0" "m \<noteq> 0"
    using run(4) unfolding b_def m_def
    by (simp_all add: serial_speed_def Let_def usage_def exit_def ret_def split: if_splits)
  have "B38400 \<in> snd ` set baudrates" by (simp add: B38400_def baudrates_def)
  moreover have "b \<in> snd ` set baudrates" "m \<in> snd ` set modems"
    using o3(2,3) find_baud_table find_modem_table unfolding b_def m_def by blast+
  ultimately have speed: "baudrate (config o3) \<in> snd ` set baudrates" "modem (config o3) \<in> snd ` set modems"
      "modem (config o3) = SCSMODEM_P4DRAGON \<longrightarrow> baudrate (config o3) = B38400" "mycall (config o3) = mycall (config o2)"
    by (simp_all add: o3(1) set_config_def)
  have "mycall (config o2) \<noteq> None"
    using keeps_value [OF serial_file_call run(1)] read_options_call [OF run(3) result_usage serial_option_call] by simp
  then show ?thesis
    using run(5) speed by (simp add: run(6) upper_calls_def serial_complete_def upper_call_ok)
qed

lemma ax25_loadconfig_run:
  fixes w :: "'d world"
  assumes "ax25_loadconfig user conffile args w = Some (Returned (True, c), w')"
  shows "call_ok (mycall c) \<and> call_ok (targetcall c) \<and> ax25port c \<noteq> None"
proof -
  obtain es rest where args: "ax25_args args = (es, rest)" by fastforce
  obtain conf d and v :: "'d world" and k w0 o1 w1 o2 w2 o3 w3 where run: "ax25_file conf d v = Some (Returned k, w0)" "ax25_args args = (es, rest)"
      "read_options usage ax25_option es (start_opts k) w0 = Some (Returned o1, w1)" "ax25_path rest o1 w1 = Some (Returned o2, w2)"
      "path_call o2 w2 = Some (Returned o3, w3)" "ax25_complete (config o3)" "c = upper_calls (config o3)"
    using assms args
    by (auto simp: ax25_loadconfig_def andthen_Returned look_def ret_def fail_def read_file_run exit_def split: if_splits prod.splits
        dest!: finish_run)
  have "mycall (config o3) = mycall (config o2)"
    using run(5) by (auto simp: path_call_def ret_def andthen_Returned set_config_def split: option.splits)
  moreover have "mycall (config o2) = mycall (config o1)"
    using run(4) by (auto simp: ax25_path_def ret_def andthen_Returned look_def set_config_def fail_def exit_def Let_def split: option.splits if_splits)
  moreover have "mycall (config o1) \<noteq> None"
    using keeps_value [OF ax25_file_call run(1)] read_options_call [OF run(3) result_usage ax25_option_call] by (simp add: start_opts_def)
  ultimately show ?thesis using run(6) by (simp add: run(7) upper_calls_def ax25_complete_def upper_call_ok)
qed

text \<open>A file with settings of all programs, and a command line.\<close>

definition sample_settings :: "(cstr \<times> cstr) list" where
  "sample_settings = [(bytes ''mycall'', bytes ''n2qz''), (bytes ''timeout'', bytes ''60''), (bytes ''hostname'', bytes ''cms.local''),
     (bytes ''password'', bytes ''secret''), (bytes ''device'', bytes ''ttyS0''), (bytes ''baud'', bytes ''1200'')]"

definition sample_file :: "(u8 list \<times> bool) option" where
  "sample_file = Some (concat (map setting_line sample_settings), True)"

lemma sample_file_read:
  "\<exists>conf. conf_read (\<lambda>_. True) sample_file = Some (Inr conf) \<and> (\<forall>name. conf_get conf name = Some (map_of sample_settings name))"
  unfolding sample_file_def
  by (rule conf_read_settings) (simp_all add: sample_settings_def setting_ok_def setting_line_def bytes_def byte_of_def is_space_def plenty_all)

lemma sample_values:
  "map_of sample_settings (bytes ''mycall'') = Some (bytes ''n2qz'')" "map_of sample_settings (bytes ''timeout'') = Some (bytes ''60'')"
  "map_of sample_settings (bytes ''hostname'') = Some (bytes ''cms.local'')" "map_of sample_settings (bytes ''password'') = Some (bytes ''secret'')"
  "map_of sample_settings (bytes ''device'') = Some (bytes ''ttyS0'')" "map_of sample_settings (bytes ''baud'') = Some (bytes ''1200'')"
  "map_of sample_settings (bytes ''email'') = None" "map_of sample_settings (bytes ''wl2k-password'') = None"
  "map_of sample_settings (bytes ''gridsquare'') = None" "map_of sample_settings (bytes ''hostport'') = None"
  "map_of sample_settings (bytes ''ax25port'') = None" "map_of sample_settings (bytes ''modem'') = None"
  "map_of sample_settings (bytes ''welcomemsg'') = None"
  by (simp_all add: sample_settings_def bytes_def byte_of_def)

lemma sample_args:
  "telnet_args [bytes ''-Vsc'', bytes ''w1aw'', bytes ''localhost'', bytes ''--pass=abc'', bytes ''-t90'', bytes ''8773''] =
    ([Opt CHR ''V'', Opt CHR ''s'', Opt_arg CHR ''c'' (bytes ''w1aw''), Opt_arg CHR ''p'' (bytes ''abc''), Opt_arg CHR ''t'' (bytes ''90'')],
     [bytes ''localhost'', bytes ''8773''])"
  by (simp add: telnet_args_def getopt_long.simps bytes_def byte_of_def long_def find_long_def telnet_options_def common_options_def opt_def
      long_arg_event_def)

lemma sample_numbers: "strtol (bytes ''60'') = (60, [])" "strtol (bytes ''90'') = (90, [])" "strtol (bytes ''8773'') = (8773, [])"
  by (simp_all add: strtol_def bytes_def byte_of_def is_space_def is_digit_def digit_value_def digits_value_def LONG_MAX_def)

text \<open>The steps of a run on known values.\<close>

lemma file_string_step: "conf_get conf (bytes name) = Some v \<Longrightarrow> file_string conf name f c = ret (with_value v f c)"
  by (simp add: file_string_def with_value_def split: option.split)

lemma file_number_step:
  "conf_get conf (bytes name) = Some None \<Longrightarrow> file_number bad conf name f c = ret c"
  "conf_get conf (bytes name) = Some (Some s) \<Longrightarrow> strtol s = (n, []) \<Longrightarrow> file_number bad conf name f c = ret (f n c)"
  by (simp_all add: file_number_def)

lemma file_call_step: "conf_get conf (bytes ''mycall'') = Some (Some s) \<Longrightarrow> file_call conf c = ret (c\<lparr>mycall := Some s\<rparr>)"
  by (simp add: file_call_def)

lemma run_steps:
  "andthen (look g) f w = f (g w) w" "andthen (change h) f' w = f' () (h w)"
  by (simp_all add: andthen_def look_def change_def)

definition sample_line :: "cstr list" where
  "sample_line = [bytes ''-Vsc'', bytes ''w1aw'', bytes ''localhost'', bytes ''--pass=abc'', bytes ''-t90'', bytes ''8773'']"

lemma sample_run:
  assumes "mem w = (\<lambda>_. True)"
  shows "\<exists>conf. conf_read (mem w) sample_file = Some (Inr conf) \<and> (\<forall>name. conf_get conf name = Some (map_of sample_settings name)) \<and>
    telnet_loadconfig (bytes ''user'') sample_file sample_line w = Some (Returned (True, no_config\<lparr>mycall := Some (bytes ''N2QZ''),
      targetcall := Some (bytes ''W1AW''), hostname := Some (bytes ''localhost''), hostport := 8773, password := Some (bytes ''abc''),
      emailaddr := Some (bytes ''user@localhost''), cfg_timeoutsecs := 90, bVerbose := True, bSendonly := True\<rparr>), w\<lparr>gsendmsgonly_flag := True\<rparr>)"
proof -
  obtain conf where conf: "conf_read (\<lambda>_. True) sample_file = Some (Inr conf)" "\<forall>name. conf_get conf name = Some (map_of sample_settings name)"
    using sample_file_read by blast
  define d where "d = no_config\<lparr>emailaddr := Some (bytes ''user@localhost''), password := Some (bytes ''CMSTelnet''),
      targetcall := Some (bytes ''wl2k''), hostname := Some (bytes ''cms.winlink.org''), cfg_timeoutsecs := 120, hostport := 8772\<rparr>"
  have d: "telnet_defaults (bytes ''user'') w = Some (Returned d, w)"
    by (simp add: telnet_defaults_def default_email_def andthen_def look_def string_copy_run ret_def assms strdup_def granted_def bytes_def d_def)
  have c: "telnet_file conf d w = Some (Returned (d\<lparr>mycall := Some (bytes ''n2qz''), cfg_timeoutsecs := 60, password := Some (bytes ''secret''),
      hostname := Some (bytes ''cms.local'')\<rparr>), w)"
    by (simp add: telnet_file_def file_string_step file_number_step file_call_step conf(2) sample_values sample_numbers with_value_def)
      (simp add: ret_def)
  have up: "strupper (Some (bytes ''n2qz'')) = Some (bytes ''N2QZ'')" "strupper (Some (bytes ''w1aw'')) = Some (bytes ''W1AW'')"
    by (simp_all add: strupper_def bytes_def byte_of_def is_lower_def to_upper_def)
  have "read_file sample_file w = Some (Returned conf, w)" by (simp add: read_file_run assms conf)
  then show ?thesis
    using d c conf
    by (simp add: assms telnet_loadconfig_def andthen_def look_def granted_def sample_args sample_line_def read_options_def sample_numbers start_opts_def
        set_config_def change_def ret_def copy_flags_def finish_def telnet_complete_def d_def no_config_def upper_calls_def up)
qed

text \<open>
  C15: What \<open>wl2ktelnet\<close> runs with, setting by setting.  The password, the secure login password, the e-mail address and the timeout
  are taken from the last option on the command line, or without one from the first line of the configuration file, or without
  one from the default (none for the secure login password); host and port from the arguments behind the options, then the lines
  \<open>hostname\<close> and \<open>hostport\<close> of the file, then \<open>cms.winlink.org\<close> and 8772; the own call and the gridsquare from the file alone;
  the target call from the last option \<open>-c\<close> or the default \<open>wl2k\<close>, never from the file, whose line \<open>targetcall\<close> is not read.
  The two calls are in upper case.  A number that is too long for its type is cut off, and a port that is then 0 is not accepted.
  (The file can be read, and the command line is one the program goes on after.)
\<close>

theorem telnet_settings:
  assumes "telnet_loadconfig user conffile args w = Some (Returned (True, c), w')" and "telnet_args args = (es, rest)"
    and "conf_read (mem w) conffile = Some (Inr conf)"
  shows "mycall c = strupper (file_value conf ''mycall'') \<and>
    targetcall c = strupper (first_of [given CHR ''c'' es, strdup (mem w) (bytes ''wl2k'')]) \<and>
    hostname c = first_of [argument 0 rest, file_value conf ''hostname'', strdup (mem w) (bytes ''cms.winlink.org'')] \<and>
    hostport c = number 8772 (first_of [argument 1 rest, file_value conf ''hostport'']) \<and> hostport c \<noteq> 0 \<and>
    password c = first_of [given CHR ''p'' es, file_value conf ''password'', strdup (mem w) (bytes ''CMSTelnet'')] \<and>
    wl2k_password c = first_of [given CHR ''P'' es, file_value conf ''wl2k-password''] \<and>
    emailaddr c = first_of [given CHR ''e'' es, file_value conf ''email'', strdup (mem w) (user @ bytes ''@localhost'')] \<and>
    gridsquare c = file_value conf ''gridsquare'' \<and>
    cfg_timeoutsecs c = number 120 (first_of [given CHR ''t'' es, file_value conf ''timeout''])"
proof -
  have n: "number (number d x) y = number d (first_of [y, x])" for d :: "'n::len word" and x y
    by (cases y) (simp_all add: number_def)
  show ?thesis
    using telnet_loadconfig_run [OF assms] by (auto simp: upper_calls_def telnet_complete_def n)
qed

theorem telnet_settings_witness:
  "\<exists>c w'. telnet_loadconfig (bytes ''user'') sample_file sample_line (sample_world []) = Some (Returned (True, c), w') \<and>
    mycall c = Some (bytes ''N2QZ'') \<and> targetcall c = Some (bytes ''W1AW'') \<and> hostname c = Some (bytes ''localhost'') \<and>
    hostport c = 8773 \<and> password c = Some (bytes ''abc'') \<and> wl2k_password c = None \<and>
    emailaddr c = Some (bytes ''user@localhost'') \<and> cfg_timeoutsecs c = 90"
proof -
  have mem: "mem (sample_world []) = (\<lambda>_. True)" by (simp add: sample_world_def)
  obtain conf c w' where r: "conf_read (mem (sample_world [])) sample_file = Some (Inr conf)"
      "\<forall>name. conf_get conf name = Some (map_of sample_settings name)"
      "telnet_loadconfig (bytes ''user'') sample_file sample_line (sample_world []) = Some (Returned (True, c), w')"
    using sample_run [OF mem] by blast
  show ?thesis
    using telnet_settings [OF r(3) sample_args [folded sample_line_def] r(1)] r(2,3)
    by (simp add: file_value_def sample_values argument_def number_def sample_numbers strdup_def granted_def mem)
      (simp add: strupper_def bytes_def byte_of_def is_lower_def to_upper_def)
qed

end
