(* ===== verification/Serial_Line.thy ===== *)
theory Serial_Line
  imports Loadconfig
begin

text \<open>
  The serial line of \<open>wl2kserial.c\<close>: the attributes \<open>main\<close> sets, bit by bit, and the divisor for the speed of the P4dragon.  What the
  kernel gives and takes is a parameter.  The constants are those of Linux.
\<close>

section \<open>Attributes\<close>

text \<open>Of the control characters, those that are set.\<close>

record termios =
  c_iflag :: u32
  c_oflag :: u32
  c_cflag :: u32
  c_lflag :: u32
  vmin :: u8
  vtime :: u8

definition IGNBRK :: u32 where "IGNBRK = 0x1"
definition IGNPAR :: u32 where "IGNPAR = 0x4"
definition INPCK :: u32 where "INPCK = 0x10"
definition ISTRIP :: u32 where "ISTRIP = 0x20"
definition INLCR :: u32 where "INLCR = 0x40"
definition IGNCR :: u32 where "IGNCR = 0x80"
definition ICRNL :: u32 where "ICRNL = 0x100"
definition IXON :: u32 where "IXON = 0x400"
definition IXOFF :: u32 where "IXOFF = 0x1000"
definition IMAXBEL :: u32 where "IMAXBEL = 0x2000"
definition OPOST :: u32 where "OPOST = 0x1"
definition CSIZE :: u32 where "CSIZE = 0x30"
definition CS8 :: u32 where "CS8 = 0x30"
definition CSTOPB :: u32 where "CSTOPB = 0x40"
definition CREAD :: u32 where "CREAD = 0x80"
definition PARENB :: u32 where "PARENB = 0x100"
definition PARODD :: u32 where "PARODD = 0x200"
definition HUPCL :: u32 where "HUPCL = 0x400"
definition CLOCAL :: u32 where "CLOCAL = 0x800"
definition CRTSCTS :: u32 where "CRTSCTS = 0x80000000"
definition CBAUD :: u32 where "CBAUD = 0x100F"
definition ISIG :: u32 where "ISIG = 0x1"
definition ICANON :: u32 where "ICANON = 0x2"
definition ECHO :: u32 where "ECHO = 0x8"
definition IEXTEN :: u32 where "IEXTEN = 0x8000"

text \<open>\<open>CCTS_OFLOW\<close>, \<open>CCTS_IFLOW\<close> and \<open>MDMBUF\<close> are 0, as Linux does not have them.\<close>

definition line_attributes :: "int \<Rightarrow> termios \<Rightarrow> termios" where
  "line_attributes m t =
     (let t = t\<lparr>
        c_iflag := (c_iflag t AND NOT (INPCK OR ISTRIP OR INLCR OR IGNCR OR ICRNL OR IXON OR IXOFF OR IMAXBEL)) OR (IGNBRK OR IGNPAR),
        c_oflag := c_oflag t AND NOT OPOST,
        c_cflag := (c_cflag t AND NOT (CSIZE OR PARENB OR CRTSCTS)) OR (CS8 OR CREAD OR CLOCAL),
        c_lflag := c_lflag t AND NOT (ICANON OR ISIG OR IEXTEN OR ECHO),
        vmin := 1, vtime := 0\<rparr>
      in if m = SCSMODEM_P4DRAGON then t\<lparr>c_oflag := 0, c_lflag := 0,
           c_cflag := (c_cflag t AND NOT (CSTOPB OR PARENB OR PARODD OR HUPCL)) OR (CS8 OR CRTSCTS OR CREAD OR CLOCAL)\<rparr>
         else t)"

section \<open>The divisor\<close>

record serial_struct =
  custom_divisor :: int
  serial_flags :: u32

definition ASYNC_SPD_CUST :: u32 where "ASYNC_SPD_CUST = 0x30"

definition custom_speed :: "serial_struct \<Rightarrow> serial_struct" where
  "custom_speed s = s\<lparr>custom_divisor := 29, serial_flags := serial_flags s OR ASYNC_SPD_CUST\<rparr>"

section \<open>The device\<close>

text \<open>
  Whether the device can be opened and how; what \<open>tcgetattr\<close> gives, how \<open>cfsetspeed\<close> changes it and whether \<open>tcsetattr\<close> takes it; what
  \<open>TIOCGSERIAL\<close> gives and whether \<open>TIOCSSERIAL\<close> takes it; whether the descriptor becomes a stream.
\<close>

record device =
  opens :: "cstr \<Rightarrow> bool"
  attributes :: "termios option"
  cfsetspeed :: "u32 \<Rightarrow> termios \<Rightarrow> termios option"
  accepts :: "termios \<Rightarrow> bool"
  serial_info :: "serial_struct option"
  accepts_serial :: "serial_struct \<Rightarrow> bool"
  stream_ok :: bool

text \<open>What has been set when the program gets to the stream, or gives up before.\<close>

datatype setting = Tcsetattr termios | Tiocsserial serial_struct

definition set_divisor :: "device \<Rightarrow> setting list \<times> bool" where
  "set_divisor dev = (case serial_info dev of
     None \<Rightarrow> ([], False)
   | Some s \<Rightarrow> if accepts_serial dev (custom_speed s) then ([Tiocsserial (custom_speed s)], True) else ([], False))"

definition set_line :: "device \<Rightarrow> cfg_t \<Rightarrow> cstr \<Rightarrow> setting list \<times> bool" where
  "set_line dev c d =
     (if \<not> opens dev d then ([], False)
      else case attributes dev of
        None \<Rightarrow> ([], False)
      | Some init \<Rightarrow> (case cfsetspeed dev (baudrate c) init of
          None \<Rightarrow> ([], False)
        | Some t \<Rightarrow>
            let t = line_attributes (modem c) t in
            if \<not> accepts dev t then ([], False)
            else if modem c = SCSMODEM_P4DRAGON then (case set_divisor dev of (ss, ok) \<Rightarrow> (Tcsetattr t # ss, ok))
            else ([Tcsetattr t], True)))"

section \<open>What the line is then\<close>

text \<open>\<open>cfsetspeed\<close> changes the speed and nothing else.\<close>

definition sets_speed :: "device \<Rightarrow> bool" where
  "sets_speed dev \<longleftrightarrow> (\<forall>b t t'. cfsetspeed dev b t = Some t' \<longrightarrow>
     c_cflag t' AND CBAUD = b \<and> c_cflag t' AND NOT CBAUD = c_cflag t AND NOT CBAUD)"

text \<open>
  Eight bits without parity, nothing changed or interpreted in either direction, every byte given to the reader at once; for the
  P4dragon with hardware flow control, for other modems with none.
\<close>

definition transparent :: "int \<Rightarrow> termios \<Rightarrow> bool" where
  "transparent m t \<longleftrightarrow>
     c_iflag t AND (INPCK OR ISTRIP OR INLCR OR IGNCR OR ICRNL OR IXON OR IXOFF OR IMAXBEL) = 0 \<and> c_oflag t AND OPOST = 0 \<and>
     c_cflag t AND (CSIZE OR PARENB OR CREAD OR CLOCAL) = CS8 OR CREAD OR CLOCAL \<and>
     c_cflag t AND CRTSCTS = (if m = SCSMODEM_P4DRAGON then CRTSCTS else 0) \<and>
     c_lflag t AND (ICANON OR ISIG OR IEXTEN OR ECHO) = 0 \<and> vmin t = 1 \<and> vtime t = 0"

lemmas flag_defs = IGNBRK_def IGNPAR_def INPCK_def ISTRIP_def INLCR_def IGNCR_def ICRNL_def IXON_def IXOFF_def IMAXBEL_def OPOST_def
  CSIZE_def CS8_def CSTOPB_def CREAD_def PARENB_def PARODD_def HUPCL_def CLOCAL_def CRTSCTS_def CBAUD_def ISIG_def ICANON_def ECHO_def
  IEXTEN_def

lemma bits_absorbed: "k OR s = s \<Longrightarrow> x AND k OR s = s" for k :: "'a::len word"
  by (simp add: bit.disj_conj_distrib2 bit.conj_disj_distrib2 or.assoc and.commute)

lemma line_transparent: "transparent m (line_attributes m t)"
  by (simp add: transparent_def line_attributes_def Let_def flag_defs bit.conj_disj_distrib2 and.assoc bits_absorbed)

lemma line_speed: "c_cflag (line_attributes m t) AND CBAUD = c_cflag t AND CBAUD"
  by (simp add: line_attributes_def Let_def flag_defs bit.conj_disj_distrib2 and.assoc)

lemma line_set:
  assumes "set_line dev c d = (ss, True)" and "sets_speed dev"
  shows "\<exists>t more. ss = Tcsetattr t # more \<and> transparent (modem c) t \<and> c_cflag t AND CBAUD = baudrate c \<and> (more \<noteq> [] \<longleftrightarrow> modem c = SCSMODEM_P4DRAGON)"
  using assms
  by (auto simp: set_line_def set_divisor_def sets_speed_def line_transparent line_speed Let_def split: if_splits option.splits prod.splits)

end
