(* ===== verification/Drivers.thy ===== *)
theory Drivers
  imports Serial_Line
begin

text \<open>
  The programs \<open>wl2ktelnet\<close>, \<open>wl2kserial\<close> and \<open>wl2kax25d\<close>, and the child process of \<open>wl2kax25\<close>: the configuration, the way to the peer's
  prompt, the exchange and the end.  Which of the operating system's calls succeed is a parameter; what is printed on a
  terminal is not modelled.  The results of \<open>fprintf\<close> are not looked at here.
\<close>

section \<open>Waiting for a prompt\<close>

definition put :: "cstr \<Rightarrow> ('d, unit) io" where
  "put s = andthen (fprintf s) (\<lambda>_. ret ())"

text \<open>
  \<open>while ((line = wl2kgetline(fp)) != NULL)\<close> up to a line that is a prompt, which gets an answer; other lines can get another
  one.  Without a prompt the program ends.
\<close>

definition await_step :: "(cstr \<Rightarrow> bool) \<Rightarrow> ('d, unit) io \<Rightarrow> ('d, unit) io \<Rightarrow> unit \<Rightarrow> ('d, unit + unit) io" where
  "await_step prompt reply other = (\<lambda>_. andthen wl2kgetline (\<lambda>line. case line of
     None \<Rightarrow> fail
   | Some line \<Rightarrow> if prompt line then andthen reply (\<lambda>_. ret (Inr ())) else andthen other (\<lambda>_. ret (Inl ()))))"

definition await :: "(cstr \<Rightarrow> bool) \<Rightarrow> ('d, unit) io \<Rightarrow> ('d, unit) io \<Rightarrow> ('d, unit) io" where
  "await prompt reply other = io_loop (await_step prompt reply other) ()"

section \<open>wl2ktelnet.c\<close>

record net =
  socket_ok :: bool
  resolves :: "cstr \<Rightarrow> bool"
  connect_ok :: bool
  fdopen_ok :: bool

definition telnet_login :: "cfg_t \<Rightarrow> ('d, unit) io" where
  "telnet_login c =
     andthen (await (\<lambda>line. strbegins line (bytes ''Callsign''))
       (andthen (defined (mycall c)) (\<lambda>my. put (bytes ''.'' @ my @ [13, 10]))) (ret ())) (\<lambda>_.
     await (\<lambda>line. strbegins line (bytes ''Password''))
       (andthen (defined (password c)) (\<lambda>pw. put (pw @ [13, 10]))) (ret ()))"

text \<open>
  The value of \<open>loadconfig\<close> is not looked at; \<open>inet_addr\<close> is given a null pointer when there is no host name.
\<close>

definition telnet_main :: "net \<Rightarrow> cstr \<Rightarrow> (u8 list \<times> bool) option \<Rightarrow> cstr list \<Rightarrow> select_result list \<Rightarrow> ('d, unit) io" where
  "telnet_main net user conffile args sel = andthen (telnet_loadconfig user conffile args) (\<lambda>(_, c).
     if \<not> socket_ok net then fail
     else andthen (defined (hostname c)) (\<lambda>host.
       if \<not> resolves net host then fail
       else andthen (settimeout (cfg_timeoutsecs c)) (\<lambda>_.
         if \<not> connect_ok net then fail
         else andthen resettimeout (\<lambda>_.
           if \<not> fdopen_ok net then fail
           else andthen (telnet_login c) (\<lambda>_.
             andthen (wl2k_exchange c sel) (\<lambda>_. exit 0))))))"

section \<open>wl2kserial.c\<close>

text \<open>\<open>disconnect\<close>: host mode is left and the link closed; the stream must be there.\<close>

definition disconnect :: "cfg_t \<Rightarrow> ('d, unit) io" where
  "disconnect c =
     (if modem c = SCSMODEM_P4DRAGON then
        (if \<not> modemfp c then undefined_behaviour
         else andthen (put ([27] @ bytes ''JHOST0'' @ [13])) (\<lambda>_. put (bytes ''D'' @ [13])))
      else ret ())"

text \<open>The handler of \<open>SIGALRM\<close> in this program.\<close>

definition serial_sigalrm :: "cfg_t \<Rightarrow> ('d, 'a) io" where
  "serial_sigalrm c = andthen (disconnect c) (\<lambda>_. sigalrm)"

fun put_commands :: "string list \<Rightarrow> ('d, unit) io" where
  "put_commands [] = ret ()"
| "put_commands (s # ss) = andthen (put (bytes s @ [13])) (\<lambda>_. put_commands ss)"

text \<open>The first commands for a P4dragon.\<close>

definition dragon_commands :: "string list" where
  "dragon_commands = [''MAXERR 30'', ''MODE 0'', ''MAXSUM 20'', ''CWID 0'', ''PTCC 0'', ''VER'', ''ADDLF 0'', ''ARX 0'', ''BC 0'',
     ''BKCHR 2'', ''CMSG 0'', ''LISTEN 0'', ''MAIL 0'', ''REMOTE 0'', ''PAC CBELL 0'', ''PAC CMSG 0'', ''PAC PRBOX 0'',
     ''STATUS 0'', ''PTCHN 31'', ''PDUPLEX 1'', ''PDTIMER 5'', ''JHOST4'']"

definition modem_setup :: "cfg_t \<Rightarrow> ('d, unit) io" where
  "modem_setup c = andthen (defined (mycall c)) (\<lambda>my.
     andthen (put (bytes ''mycall '' @ my @ [13])) (\<lambda>_.
     andthen (put_commands [''tones 4'', ''chobell 0'', ''lfignore 1'']) (\<lambda>_.
       if modem c = SCSMODEM_P4DRAGON then put_commands dragon_commands else ret ())))"

definition modem_prompt :: "cstr \<Rightarrow> bool" where
  "modem_prompt line \<longleftrightarrow> strstr line (bytes ''cmd:'') \<noteq> None"

definition serial_call :: "cfg_t \<Rightarrow> ('d, unit) io" where
  "serial_call c = andthen (put [13, 10]) (\<lambda>_.
     andthen (await modem_prompt (modem_setup c) (put [13, 10])) (\<lambda>_.
       await modem_prompt (andthen (defined (targetcall c)) (\<lambda>call. put (bytes ''c '' @ call @ [13]))) (ret ())))"

definition serial_main :: "device \<Rightarrow> cstr \<Rightarrow> (u8 list \<times> bool) option \<Rightarrow> cstr list \<Rightarrow> select_result list \<Rightarrow> ('d, unit) io" where
  "serial_main dev user conffile args sel = andthen (serial_loadconfig user conffile args) (\<lambda>(_, c).
     andthen (settimeout (cfg_timeoutsecs c)) (\<lambda>_.
     andthen (defined (serialdevice c)) (\<lambda>d.
       if \<not> snd (set_line dev c d) then fail
       else andthen resettimeout (\<lambda>_.
         if \<not> stream_ok dev then fail
         else let c = c\<lparr>modemfp := True\<rparr> in
           andthen (serial_call c) (\<lambda>_.
           andthen (wl2k_exchange c sel) (\<lambda>_.
           andthen (disconnect c) (\<lambda>_. exit 0)))))))"

section \<open>wl2kax25.c: the child process\<close>

definition ax25_child :: "bool \<Rightarrow> cfg_t \<Rightarrow> select_result list \<Rightarrow> ('d, unit) io" where
  "ax25_child fdopen c sel =
     (if \<not> fdopen then fail
      else andthen (settimeout (cfg_timeoutsecs c)) (\<lambda>_. andthen (wl2k_exchange c sel) (\<lambda>_. exit 0)))"

section \<open>wl2kax25d.c\<close>

text \<open>
  The program is started by \<open>ax25d\<close> with the connection as standard input and output, so that all it prints goes to the peer.
\<close>

definition putchar :: "u8 \<Rightarrow> ('d, unit) io" where
  "putchar c = put [c]"

definition print_esc_char :: "u8 \<Rightarrow> bool \<Rightarrow> ('d, unit) io" where
  "print_esc_char c bXlate =
     (if c = 97 then putchar 7
      else if c = 98 then putchar 8
      else if c = 99 then exit 0
      else if c = 102 then putchar 12
      else if c = 110 then putchar 10
      else if c = 114 then andthen (putchar 13) (\<lambda>_. if bXlate then putchar 10 else ret ())
      else if c = 116 then putchar 9
      else putchar c)"

text \<open>
  A backslash at the end of the string escapes the terminating NUL, and the loop goes on behind it.
\<close>

fun print_esc_string :: "cstr \<Rightarrow> bool \<Rightarrow> ('d, unit) io" where
  "print_esc_string [] bXlate = ret ()"
| "print_esc_string (c # s) bXlate =
     (if c = 92 then
        (case s of
           [] \<Rightarrow> andthen (print_esc_char 0 bXlate) (\<lambda>_. undefined_behaviour)
         | d # s \<Rightarrow> andthen (print_esc_char d bXlate) (\<lambda>_. print_esc_string s bXlate))
      else andthen (putchar c) (\<lambda>_. print_esc_string s bXlate))"

text \<open>The name of the program and the version of GMime are parameters; \<open>gmime\<close> is the text with the latter.\<close>

definition ax25d_usage :: "cstr \<Rightarrow> ('d, 'a) io" where
  "ax25d_usage progname = andthen (put (bytes ''Usage:  '' @ progname @ bytes '' -c target-call [options]'' @ [10] @
       bytes ''  -c  --target-call   Set callsign to call'' @ [10] @
       bytes ''  -a  --ax25port      Set AX25 port to use'' @ [10] @
       bytes ''  -t  --timeout       Set timeout in seconds'' @ [10] @
       bytes ''  -e  --email-address Set your e-mail address'' @ [10] @
       bytes ''  -s  --send-only     Send messages only'' @ [10] @
       bytes ''  -V  --verbose       Print verbose messages to log file'' @ [10] @
       bytes ''  -v  --version       Display program version only'' @ [10] @
       bytes ''  -C  --configuration Display configuration only'' @ [10] @
       bytes ''  -h  --help          Display this usage info'' @ [10])) (\<lambda>_. exit 0)"

definition displayversion :: "cstr \<Rightarrow> cstr \<Rightarrow> bool \<Rightarrow> ('d, unit) io" where
  "displayversion progname gmime verbose = andthen (look version) (\<lambda>v.
     put (progname @ bytes ''  '' @ v @ (if verbose then bytes '', Using gmime version '' @ gmime else []) @ [10]))"

definition display_string :: "string \<Rightarrow> cstr option \<Rightarrow> ('d, unit) io" where
  "display_string name v = (case v of None \<Rightarrow> ret () | Some s \<Rightarrow> put (bytes name @ bytes '': '' @ s @ [10]))"

text \<open>The format \<open>%d\<close> of an \<open>unsigned int\<close>.\<close>

definition show_signed :: "u32 \<Rightarrow> cstr" where
  "show_signed n = (let i = sint n in if i < 0 then 45 # show_dec (nat (- i)) else show_dec (nat i))"

definition on_off :: "bool \<Rightarrow> cstr" where
  "on_off b = bytes (if b then ''On'' else ''Off'')"

definition displayconfig :: "cstr \<Rightarrow> cfg_t \<Rightarrow> ('d, unit) io" where
  "displayconfig progname c = andthen (put (progname @ bytes '': Using this config:'' @ [10])) (\<lambda>_.
     andthen (display_string ''  My callsign'' (mycall c)) (\<lambda>_.
     andthen (display_string ''  Target callsign'' (targetcall c)) (\<lambda>_.
     andthen (display_string ''  Ax25 port'' (ax25port c)) (\<lambda>_.
     andthen (put (bytes ''  Timeout: '' @ show_signed (cfg_timeoutsecs c) @ [10])) (\<lambda>_.
     andthen (display_string ''  Email address'' (emailaddr c)) (\<lambda>_.
     andthen (display_string ''  Grid square'' (gridsquare c)) (\<lambda>_.
     andthen (case welcomemsg c of
         None \<Rightarrow> ret ()
       | Some s \<Rightarrow> andthen (put (bytes ''  Welcome msg: '')) (\<lambda>_. print_esc_string s True)) (\<lambda>_.
       put (bytes ''  Flags: verbose = '' @ on_off (bVerbose c) @ bytes '', send-only = '' @ on_off (bSendonly c) @ [10])))))))))"

definition ax25d_options :: "long_option list" where
  "ax25d_options = common_options @ [opt ''ax25port'' True (Inr CHR ''a'')]"

definition ax25d_args :: "cstr list \<Rightarrow> event list \<times> cstr list" where
  "ax25d_args = getopt_long (optstring ''hVvsCc:t:e:a:'') ax25d_options"

definition ax25d_defaults :: "cstr \<Rightarrow> ('d, cfg_t) io" where
  "ax25d_defaults user = andthen (default_email user) (\<lambda>email.
     ret (no_config\<lparr>emailaddr := email, cfg_timeoutsecs := 120\<rparr>))"

definition ax25d_file :: "cstr \<Rightarrow> conf list \<Rightarrow> cfg_t \<Rightarrow> ('d, cfg_t) io" where
  "ax25d_file progname conf c = andthen (file_call conf c) (\<lambda>c.
     andthen (file_number (ax25d_usage progname) conf ''timeout'' set_timeout c) (\<lambda>c.
     andthen (file_string conf ''email'' set_email c) (\<lambda>c.
     andthen (file_string conf ''ax25port'' set_ax25port c) (\<lambda>c.
     andthen (file_string conf ''gridsquare'' set_gridsquare c) (\<lambda>c.
       file_string conf ''welcomemsg'' (\<lambda>s c. c\<lparr>welcomemsg := Some s\<rparr>) c)))))"

fun ax25d_option :: "event \<Rightarrow> opts \<Rightarrow> opts option" where
  "ax25d_option (Opt_arg c a) o' =
     (if c = CHR ''a'' then Some (set_config (set_ax25port a) o') else common_option (Opt_arg c a) o')"
| "ax25d_option e o' = common_option e o'"

text \<open>The target call is not among the required parameters.\<close>

definition ax25d_loadconfig :: "cstr \<Rightarrow> cstr \<Rightarrow> cstr \<Rightarrow> (u8 list \<times> bool) option \<Rightarrow> cstr list \<Rightarrow> ('d, bool \<times> cfg_t) io" where
  "ax25d_loadconfig progname gmime user conffile args = andthen (look mem) (\<lambda>al.
     if \<not> granted al 256 then ret (False, no_config)
     else andthen (ax25d_defaults user) (\<lambda>c.
       andthen (read_file conffile) (\<lambda>conf.
       andthen (ax25d_file progname conf c) (\<lambda>c.
       andthen (read_options (ax25d_usage progname) ax25d_option
           (fst (ax25d_args args)) (start_opts c)) (\<lambda>o'.
         let c = upper_calls (config o') in
         if bDisplayVersion_flag o' then andthen (displayversion progname gmime (gverbose_flag o')) (\<lambda>_. exit 0)
         else if displayconfig_flag o' then
           andthen (displayversion progname gmime (gverbose_flag o')) (\<lambda>_. andthen (displayconfig progname c) (\<lambda>_. exit 0))
         else if ax25port c = None then ax25d_usage progname
         else ret (True, c))))))"

definition daemon_greeting :: "cfg_t \<Rightarrow> ('d, unit) io" where
  "daemon_greeting c = andthen (look version) (\<lambda>v.
     andthen (put (bytes ''[UnixLINK-'' @ v @ bytes ''-B2FIHM$]'' @ [13])) (\<lambda>_.
     andthen (put (bytes ''(am|em:h1,g:'' @ (case gridsquare c of Some g \<Rightarrow> g | None \<Rightarrow> bytes ''XXyyzz'') @ bytes '')'' @ [13])) (\<lambda>_.
       print_esc_string (case welcomemsg c of Some m \<Rightarrow> m | None \<Rightarrow> bytes ''Welcome'' @ [13]) False)))"

definition ax25d_main :: "bool \<Rightarrow> cstr \<Rightarrow> cstr \<Rightarrow> cstr \<Rightarrow> (u8 list \<times> bool) option \<Rightarrow> cstr list \<Rightarrow> ('d, unit) io" where
  "ax25d_main fcntl progname gmime user conffile args = andthen (ax25d_loadconfig progname gmime user conffile args) (\<lambda>(_, c).
     if \<not> fcntl then fail
     else andthen (settimeout (cfg_timeoutsecs c)) (\<lambda>_.
       andthen (daemon_greeting c) (\<lambda>_.
       andthen (wl2kd_exchange c) (\<lambda>_.
       andthen unsettimeout (\<lambda>_. exit 0)))))"

section \<open>Properties\<close>

lemma ax25d_option_call: "ax25d_option e o' = Some o'' \<Longrightarrow> mycall (config o'') = mycall (config o')"
  using common_values [of e o' o''] by (cases e) (auto simp: set_config_def split: if_splits)

lemma ax25d_usage_exits [simp]: "ax25d_usage progname w \<noteq> Some (Returned x, w')"
  by (simp add: ax25d_usage_def andthen_Returned exit_def)

lemma ax25d_usage_result [load_rules]: "keeps (\<lambda>_ _. True) P (ax25d_usage progname)"
  unfolding keeps_def by auto

lemma ax25d_file_call: "keeps (\<lambda>_ _. True) (\<lambda>k. mycall k \<noteq> None) (ax25d_file progname conf c)"
  unfolding ax25d_file_def by (rule load_rules)+ (rule result_file_string, simp add: value_rules)

lemma ax25d_loadconfig_run:
  fixes w :: "'d world"
  assumes "ax25d_loadconfig progname gmime user conffile args w = Some (Returned (True, c), w')"
  shows "call_ok (mycall c) \<and> ax25port c \<noteq> None"
proof -
  obtain conf d and v :: "'d world" and k w0 o1 w1 where run: "ax25d_file progname conf d v = Some (Returned k, w0)"
      "read_options (ax25d_usage progname) ax25d_option (fst (ax25d_args args)) (start_opts k) w0 = Some (Returned o1, w1)"
      "ax25port (config o1) \<noteq> None" "c = upper_calls (config o1)"
    using assms
    by (auto simp: ax25d_loadconfig_def andthen_Returned look_def ret_def read_file_run exit_def Let_def upper_calls_def split: if_splits)
  have "mycall (config o1) \<noteq> None"
    using keeps_value [OF ax25d_file_call run(1)] read_options_call [OF run(2) ax25d_usage_result ax25d_option_call]
    by (simp add: start_opts_def)
  then show ?thesis using run(3) by (simp add: run(4) upper_calls_def upper_call_ok)
qed

lemma telnet_loadconfig_calls:
  assumes "telnet_loadconfig user conffile args w = Some (Returned (True, c), w')"
  shows "call_ok (mycall c) \<and> call_ok (targetcall c) \<and> hostname c \<noteq> None \<and> hostport c \<noteq> 0"
proof -
  obtain es rest where a: "telnet_args args = (es, rest)" by fastforce
  obtain conf where "conf_read (mem w) conffile = Some (Inr conf)"
    using assms
    by (auto simp: telnet_loadconfig_def andthen_Returned look_def ret_def read_file_run split: if_splits dest: telnet_defaults_run)
  from telnet_loadconfig_run [OF assms a this] obtain o' :: opts
    where "telnet_complete (config o')" "c = upper_calls (config o')" "mycall (config o') \<noteq> None" by blast
  then show ?thesis by (simp add: upper_calls_def telnet_complete_def upper_call_ok)
qed

section \<open>The configuration does nothing else\<close>

text \<open>But for the global flag, a run of \<open>loadconfig\<close> leaves the process as it was.\<close>

interpretation still: run_relation "\<lambda>w w'. w' = w"
  by unfold_locales simp_all

lemmas still_rules = still.keeps_then still.keeps_ret still.keeps_look still.keeps_exit still.keeps_undefined still.keeps_defined still.keeps_fail

lemma still_steps:
  "keeps (\<lambda>w w'. w' = w) (\<lambda>_. True) (file_call conf c)" "keeps (\<lambda>w w'. w' = w) (\<lambda>_. True) (file_string conf name f k)"
  "keeps (\<lambda>w w'. w' = w) (\<lambda>_. True) (file_number usage conf name g k)" "keeps (\<lambda>w w'. w' = w) (\<lambda>_. True) (default_email user)"
  by (auto simp: file_call_def file_string_def file_number_def usage_def default_email_def intro!: still_rules split: option.split prod.split)

lemma still_file: "keeps (\<lambda>w w'. w' = w) (\<lambda>_. True) (telnet_file conf c)"
  unfolding telnet_file_def by (intro still_rules still_steps)

lemma still_positional: "keeps (\<lambda>w w'. w' = w) (\<lambda>o''. bSendonly (config o'') = bSendonly (config o')) (telnet_positional args o')"
  by (cases "(args, o')" rule: telnet_positional.cases) (auto simp: usage_def set_config_def intro!: still_rules split: prod.split)

lemma telnet_loadconfig_world:
  assumes "telnet_loadconfig user conffile args w = Some (Returned (True, c), w')"
  shows "w' = w\<lparr>gsendmsgonly_flag := bSendonly c\<rparr>"
proof -
  obtain es rest where a: "telnet_args args = (es, rest)" by fastforce
  obtain conf d k w1 o1 w2 o2 where
      k: "telnet_file conf d w = Some (Returned k, w1)"
    and o1: "read_options usage telnet_option es (start_opts k) w1 = Some (Returned o1, w2)"
    and o2: "telnet_positional rest o1 w2 = Some (Returned o2, w')" "c = upper_calls (config o2)"
    using assms a
    by (auto simp: telnet_loadconfig_def andthen_Returned look_def ret_def read_file_run exit_def split: if_splits
        dest!: finish_run dest: telnet_defaults_run)
  have "w2 = w1\<lparr>gsendmsgonly_flag := bSendonly (config o1)\<rparr>"
    using o1 by (auto simp: read_options_def andthen_Returned change_def ret_def copy_flags_def set_config_def usage_def exit_def split: option.splits)
  moreover have "w1 = w" by (rule keepsD [OF still_file k])
  moreover have "w' = w2" by (rule keepsD [OF still_positional o2(1)])
  moreover have "bSendonly c = bSendonly (config o1)" using keeps_value [OF still_positional o2(1)] by (simp add: o2(2) upper_calls_def)
  ultimately show ?thesis by simp
qed

lemma still_ax25:
  "keeps (\<lambda>w w'. w' = w) (\<lambda>_. True) (ax25_defaults user)" "keeps (\<lambda>w w'. w' = w) (\<lambda>_. True) (ax25_file conf c)"
  by (auto simp: ax25_defaults_def ax25_file_def intro!: still_rules still_steps split: option.split)

lemma still_serial:
  "keeps (\<lambda>w w'. w' = w) (\<lambda>_. True) (serial_defaults user)" "keeps (\<lambda>w w'. w' = w) (\<lambda>_. True) (serial_file conf c)"
  by (auto simp: serial_defaults_def serial_file_def intro!: still_rules still_steps split: option.split)

lemma still_speed: "keeps (\<lambda>w w'. w' = w) (\<lambda>o''. bSendonly (config o'') = bSendonly (config o')) (serial_speed o')"
  by (auto simp: serial_speed_def set_config_def usage_def Let_def intro!: still_rules)

lemma serial_loadconfig_world:
  assumes "serial_loadconfig user conffile args w = Some (Returned (True, c), w')"
  shows "w' = w\<lparr>gsendmsgonly_flag := bSendonly c\<rparr>"
proof -
  obtain es rest where args: "serial_args args = (es, rest)" by fastforce
  obtain conf d k w0 o1 w1 o2 v where run: "serial_defaults user w = Some (Returned d, v)" "serial_file conf d v = Some (Returned k, w0)"
      "read_options usage serial_option es k w0 = Some (Returned o1, w1)" "serial_speed o1 w1 = Some (Returned o2, w')" "c = upper_calls (config o2)"
    using assms args
    by (auto simp: serial_loadconfig_def andthen_Returned look_def ret_def fail_def read_file_run exit_def split: if_splits prod.splits
        dest!: finish_run)
  have "w1 = w0\<lparr>gsendmsgonly_flag := bSendonly (config o1)\<rparr>"
    using run(3) by (auto simp: read_options_def andthen_Returned change_def ret_def copy_flags_def set_config_def usage_def exit_def split: option.splits)
  moreover have "v = w" "w0 = v" "w' = w1"
    using keepsD [OF still_serial(1) run(1)] keepsD [OF still_serial(2) run(2)] keepsD [OF still_speed run(4)] by simp_all
  moreover have "bSendonly (config o2) = bSendonly (config o1)" using keeps_value [OF still_speed run(4)] .
  ultimately show ?thesis using run(5) by (simp add: upper_calls_def)
qed

lemma still_path:
  "keeps (\<lambda>w w'. w' = w) (\<lambda>o''. bSendonly (config o'') = bSendonly (config o')) (ax25_path args o')"
  "keeps (\<lambda>w w'. w' = w) (\<lambda>o''. bSendonly (config o'') = bSendonly (config o')) (path_call o')"
  by (auto simp: ax25_path_def path_call_def set_config_def Let_def intro!: still_rules split: option.split)

lemma ax25_loadconfig_world:
  assumes "ax25_loadconfig user conffile args w = Some (Returned (True, c), w')"
  shows "w' = w\<lparr>gsendmsgonly_flag := bSendonly c\<rparr>"
proof -
  obtain es rest where args: "ax25_args args = (es, rest)" by fastforce
  obtain conf d k w0 o1 w1 o2 w2 o3 v where run: "ax25_defaults user w = Some (Returned d, v)" "ax25_file conf d v = Some (Returned k, w0)"
      "read_options usage ax25_option es (start_opts k) w0 = Some (Returned o1, w1)" "ax25_path rest o1 w1 = Some (Returned o2, w2)"
      "path_call o2 w2 = Some (Returned o3, w')" "c = upper_calls (config o3)"
    using assms args
    by (auto simp: ax25_loadconfig_def andthen_Returned look_def ret_def fail_def read_file_run exit_def split: if_splits prod.splits
        dest!: finish_run)
  have "w1 = w0\<lparr>gsendmsgonly_flag := bSendonly (config o1)\<rparr>"
    using run(3) by (auto simp: read_options_def andthen_Returned change_def ret_def copy_flags_def set_config_def usage_def exit_def split: option.splits)
  moreover have "v = w" "w0 = v" using keepsD [OF still_ax25(1) run(1)] keepsD [OF still_ax25(2) run(2)] by simp_all
  moreover have "w2 = w1" "w' = w2" "bSendonly (config o3) = bSendonly (config o1)"
    using keepsD [OF still_path(1) run(4)] keepsD [OF still_path(2) run(5)] keeps_value [OF still_path(1) run(4)] keeps_value [OF still_path(2) run(5)] by simp_all
  ultimately show ?thesis using run(6) by (simp add: upper_calls_def)
qed

lemma file_number_world: "file_number (ax25d_usage progname) conf name f c w = Some (Returned k, w') \<Longrightarrow> w' = w"
  by (auto simp: file_number_def andthen_Returned defined_def ret_def undefined_behaviour_def split: option.splits prod.splits if_splits)

lemma ax25d_file_world: "ax25d_file progname conf c w = Some (Returned k, w') \<Longrightarrow> w' = w"
  by (auto simp: ax25d_file_def andthen_Returned dest!: keepsD [OF still_steps(1)] keepsD [OF still_steps(2)] file_number_world)

lemma ax25d_defaults_world: "ax25d_defaults user w = Some (Returned k, w') \<Longrightarrow> w' = w"
  by (auto simp: ax25d_defaults_def default_email_def andthen_Returned look_def ret_def undefined_behaviour_def split: if_splits)

lemma ax25d_loadconfig_world:
  assumes "ax25d_loadconfig progname gmime user conffile args w = Some (Returned (True, c), w')"
  shows "w' = w\<lparr>gsendmsgonly_flag := bSendonly c\<rparr>"
proof -
  obtain conf k and d :: cfg_t and w1 o1 where
      k: "ax25d_file progname conf d w = Some (Returned k, w1)"
    and o1: "read_options (ax25d_usage progname) ax25d_option (fst (ax25d_args args)) (start_opts k) w1 = Some (Returned o1, w')"
      "c = upper_calls (config o1)"
    using assms
    by (auto simp: ax25d_loadconfig_def andthen_Returned look_def ret_def read_file_run exit_def Let_def split: if_splits
        dest!: ax25d_defaults_world)
  have "w' = w1\<lparr>gsendmsgonly_flag := bSendonly (config o1)\<rparr>"
    using o1(1) by (auto simp: read_options_def andthen_Returned change_def ret_def copy_flags_def set_config_def split: option.splits)
  then show ?thesis using ax25d_file_world [OF k] o1(2) by (simp add: upper_calls_def)
qed

section \<open>What the configuration has\<close>

text \<open>
  C16: A configuration that is handed on is complete: whenever \<open>loadconfig\<close> returns true, the station's own call sign is
  there and in upper case, and so is the call of the peer in the three programs that call one; a host name and a port that is
  not 0, a serial device with a speed of the table, for the P4dragon the one its divisor needs, and a modem of the table, or a port of
  the AX.25 configuration, are there.  The daemon alone does not ask for the call of the peer.
\<close>

theorem loadconfig_complete:
  fixes w :: "'d world"
  shows "(telnet_loadconfig user conffile args w = Some (Returned (True, c), w') \<longrightarrow>
      call_ok (mycall c) \<and> call_ok (targetcall c) \<and> hostname c \<noteq> None \<and> hostport c \<noteq> 0) \<and>
    (serial_loadconfig user conffile args w = Some (Returned (True, c), w') \<longrightarrow>
      call_ok (mycall c) \<and> call_ok (targetcall c) \<and> serialdevice c \<noteq> None \<and> baudrate c \<in> snd ` set baudrates \<and>
      modem c \<in> snd ` set modems \<and> (modem c = SCSMODEM_P4DRAGON \<longrightarrow> baudrate c = B38400)) \<and>
    (ax25_loadconfig user conffile args w = Some (Returned (True, c), w') \<longrightarrow>
      call_ok (mycall c) \<and> call_ok (targetcall c) \<and> ax25port c \<noteq> None) \<and>
    (ax25d_loadconfig progname gmime user conffile args w = Some (Returned (True, c), w') \<longrightarrow>
      call_ok (mycall c) \<and> ax25port c \<noteq> None)"
  using telnet_loadconfig_calls [of user conffile args w c w'] serial_loadconfig_run [of user conffile args w c w']
    ax25_loadconfig_run [of user conffile args w c w'] ax25d_loadconfig_run [of progname gmime user conffile args w c w']
  by blast

lemmas option_rules = getopt_long.simps long_def find_long_def common_options_def opt_def long_arg_event_def long_event_def bytes_def byte_of_def

lemma sample_driver_args:
  "serial_args [bytes ''-mp4DRAGON'', bytes ''--target-call'', bytes ''w1aw''] =
    ([Opt_arg CHR ''m'' (bytes ''p4DRAGON''), Opt_arg CHR ''c'' (bytes ''w1aw'')], [])"
  "ax25_args [bytes ''-a'', bytes ''sm0'', bytes ''-cw1aw''] = ([Opt_arg CHR ''a'' (bytes ''sm0''), Opt_arg CHR ''c'' (bytes ''w1aw'')], [])"
  "ax25d_args [bytes ''-a'', bytes ''sm0''] = ([Opt_arg CHR ''a'' (bytes ''sm0'')], [])"
  by (simp_all add: serial_args_def ax25_args_def ax25d_args_def serial_options_def ax25_options_def ax25d_options_def option_rules)

lemma sample_tables: "find_baud baudrates (bytes ''1200'') = 9" "find_modem modems (bytes ''p4DRAGON'') = SCSMODEM_P4DRAGON"
  by (simp_all add: baudrates_def modems_def strcaseeq_def SCSMODEM_P4DRAGON_def bytes_def byte_of_def to_lower_def is_upper_def)

lemma sample_upper: "strupper (Some (bytes ''n2qz'')) = Some (bytes ''N2QZ'')" "strupper (Some (bytes ''w1aw'')) = Some (bytes ''W1AW'')"
  by (simp_all add: strupper_def bytes_def byte_of_def is_lower_def to_upper_def)

definition sample_serial :: cfg_t where
  "sample_serial = no_config\<lparr>mycall := Some (bytes ''N2QZ''), targetcall := Some (bytes ''W1AW''), emailaddr := Some (bytes ''user@localhost''),
     cfg_timeoutsecs := 60, serialdevice := Some (bytes ''ttyS0''), modem := SCSMODEM_P4DRAGON, baudrate := B38400\<rparr>"

definition sample_ax25 :: cfg_t where
  "sample_ax25 = no_config\<lparr>mycall := Some (bytes ''N2QZ''), targetcall := Some (bytes ''W1AW''), emailaddr := Some (bytes ''user@localhost''),
     cfg_timeoutsecs := 60, ax25port := Some (bytes ''sm0''), pathbuf := None\<rparr>"

lemma sample_driver_runs:
  fixes w :: "'d world"
  assumes mem: "mem w = (\<lambda>_. True)"
  shows "serial_loadconfig (bytes ''user'') sample_file [bytes ''-mp4DRAGON'', bytes ''--target-call'', bytes ''w1aw''] w
      = Some (Returned (True, sample_serial), w\<lparr>gsendmsgonly_flag := False\<rparr>)"
    and "ax25_loadconfig (bytes ''user'') sample_file [bytes ''-a'', bytes ''sm0'', bytes ''-cw1aw''] w
      = Some (Returned (True, sample_ax25), w\<lparr>gsendmsgonly_flag := False\<rparr>)"
    and "\<exists>c w'. ax25d_loadconfig progname gmime (bytes ''user'') sample_file [bytes ''-a'', bytes ''sm0''] w = Some (Returned (True, c), w')"
proof -
  obtain conf where conf: "conf_read (mem w) sample_file = Some (Inr conf)" "\<forall>name. conf_get conf name = Some (map_of sample_settings name)"
    using sample_file_read by (auto simp: mem)
  have email: "default_email (bytes ''user'') w = Some (Returned (Some (bytes ''user@localhost'')), w)"
    by (simp add: default_email_def andthen_def look_def ret_def mem strdup_def granted_def bytes_def)
  have read: "read_file sample_file w = Some (Returned conf, w)" by (simp add: read_file_run conf)
  note steps = run_steps file_string_step file_number_step file_call_step conf(2) sample_values sample_numbers with_value_def
    andthen_returned [where m = "default_email (bytes ''user'')" and w = w, OF email]
    andthen_returned [where m = "read_file sample_file" and w = w, OF read] andthen_assoc sample_driver_args sample_tables read_options_def
    copy_flags_def set_config_def start_opts_def no_config_def finish_def mem granted_def Let_def upper_calls_def sample_upper
  show "serial_loadconfig (bytes ''user'') sample_file [bytes ''-mp4DRAGON'', bytes ''--target-call'', bytes ''w1aw''] w
      = Some (Returned (True, sample_serial), w\<lparr>gsendmsgonly_flag := False\<rparr>)"
    by (simp add: serial_loadconfig_def serial_defaults_def serial_file_def serial_speed_def serial_complete_def steps)
      (simp add: ret_def SCSMODEM_P4DRAGON_def B38400_def sample_serial_def no_config_def)
  show "ax25_loadconfig (bytes ''user'') sample_file [bytes ''-a'', bytes ''sm0'', bytes ''-cw1aw''] w
      = Some (Returned (True, sample_ax25), w\<lparr>gsendmsgonly_flag := False\<rparr>)"
    by (simp add: ax25_loadconfig_def ax25_defaults_def ax25_file_def ax25_path_def path_call_def ax25_complete_def steps)
      (simp add: ret_def sample_ax25_def no_config_def)
  show "\<exists>c w'. ax25d_loadconfig progname gmime (bytes ''user'') sample_file [bytes ''-a'', bytes ''sm0''] w = Some (Returned (True, c), w')"
    by (simp add: ax25d_loadconfig_def ax25d_defaults_def ax25d_file_def steps) (simp add: ret_def)
qed

theorem loadconfig_complete_witness:
  "\<exists>c1 w1 c2 w2 c3 w3 c4 w4.
    telnet_loadconfig (bytes ''user'') sample_file sample_line (sample_world []) = Some (Returned (True, c1), w1) \<and> call_ok (targetcall c1) \<and> hostport c1 \<noteq> 0 \<and>
    serial_loadconfig (bytes ''user'') sample_file [bytes ''-mp4DRAGON'', bytes ''--target-call'', bytes ''w1aw''] (sample_world [])
      = Some (Returned (True, c2), w2) \<and> call_ok (targetcall c2) \<and> serialdevice c2 \<noteq> None \<and>
    ax25_loadconfig (bytes ''user'') sample_file [bytes ''-a'', bytes ''sm0'', bytes ''-cw1aw''] (sample_world [])
      = Some (Returned (True, c3), w3) \<and> call_ok (targetcall c3) \<and> ax25port c3 \<noteq> None \<and>
    ax25d_loadconfig (bytes ''wl2kax25d'') [] (bytes ''user'') sample_file [bytes ''-a'', bytes ''sm0''] (sample_world [])
      = Some (Returned (True, c4), w4) \<and> call_ok (mycall c4) \<and> ax25port c4 \<noteq> None"
proof -
  obtain c1 w1 where 1: "telnet_loadconfig (bytes ''user'') sample_file sample_line (sample_world [])
      = Some (Returned (True, c1), w1)" using sample_run [of "sample_world []"] by (auto simp: sample_world_def)
  obtain c2 w2 c3 w3 c4 w4 where
      2: "serial_loadconfig (bytes ''user'') sample_file [bytes ''-mp4DRAGON'', bytes ''--target-call'', bytes ''w1aw''] (sample_world [])
        = Some (Returned (True, c2), w2)"
    and 3: "ax25_loadconfig (bytes ''user'') sample_file [bytes ''-a'', bytes ''sm0'', bytes ''-cw1aw''] (sample_world []) = Some (Returned (True, c3), w3)"
    and 4: "ax25d_loadconfig (bytes ''wl2kax25d'') [] (bytes ''user'') sample_file [bytes ''-a'', bytes ''sm0''] (sample_world [])
        = Some (Returned (True, c4), w4)"
    using sample_driver_runs [of "sample_world []"] by (force simp: sample_world_def)
  have "call_ok (targetcall c1) \<and> hostport c1 \<noteq> 0" using loadconfig_complete 1 by blast
  moreover have "call_ok (targetcall c2) \<and> serialdevice c2 \<noteq> None" using loadconfig_complete 2 by blast
  moreover have "call_ok (targetcall c3) \<and> ax25port c3 \<noteq> None" using loadconfig_complete 3 by blast
  moreover have "call_ok (mycall c4) \<and> ax25port c4 \<noteq> None" using loadconfig_complete 4 by blast
  ultimately show ?thesis using 1 2 3 4 by blast
qed

end
