(* ===== verification/Delivery.thy ===== *)
theory Delivery
  imports Wl2k_Session
begin

text \<open>
  Two programs that talk to each other: a station with messages in its outbox runs \<open>b2outboundproposal\<close> and
  \<open>inbound_parser\<close>, the other one \<open>inbound_parser\<close> without messages of its own.  The lemmas follow one batch of
  proposals through both; what each side sends is exactly what the other one reads.
\<close>

section \<open>What stays the same\<close>

definition env :: "'d world \<Rightarrow> mem \<times> nat option \<times> int \<times> u32 \<times> 'd dbops \<times> (gmime_call list \<Rightarrow> cstr) \<times> cstr \<times> (cstr \<Rightarrow> u8 list \<Rightarrow> mail_status) \<times> bool" where
  "env w = (mem w, writes w, timeout_flag w, timeoutsecs w, dbops w, to_text w, sendmail_prefix w, sendmail w, gsendmsgonly_flag w)"

lemma env_fields:
  assumes "env w' = env w"
  shows "mem w' = mem w" "writes w' = writes w" "timeout_flag w' = timeout_flag w" "timeoutsecs w' = timeoutsecs w" "dbops w' = dbops w"
    "to_text w' = to_text w" "sendmail_prefix w' = sendmail_prefix w" "sendmail w' = sendmail w" "gsendmsgonly_flag w' = gsendmsgonly_flag w"
  using assms by (simp_all add: env_def)

text \<open>A station that can work, with \<open>n\<close> bytes of memory for every request.\<close>

definition ready :: "nat \<Rightarrow> 'd world \<Rightarrow> bool" where
  "ready n w \<longleftrightarrow> writes w = None \<and> line_ok w \<and> codec_shape (tabs w) \<and> plenty (mem w) n"

text \<open>The database of ids always opens and stores; the ids it has.\<close>

definition recording :: "'d world \<Rightarrow> bool" where
  "recording w \<longleftrightarrow> db_laws (dbops w) \<and> (\<forall>d. db_open (dbops w) d) \<and> (\<forall>d k v. fst (db_put (dbops w) d k v) = 0)"

definition known :: "'d world \<Rightarrow> cstr set" where
  "known w = {m. db_get (dbops w) (db w) (mid_key m) \<noteq> None}"

lemma recording_env:
  assumes "env w' = env w"
  shows "recording w' = recording w"
  by (simp add: recording_def env_fields(5) [OF assms])

lemma record_known:
  assumes "recording w"
  shows "\<exists>w'. record_mid m w = Some (Returned 0, w') \<and> mids_only w w' \<and> env w' = env w \<and> known w' = insert m (known w)"
proof -
  let ?t = "time_bytes (time_at w (time_calls w))"
  obtain d where d: "db_put (dbops w) (db w) (mid_key m) ?t = (0, d)"
    using assms by (cases "db_put (dbops w) (db w) (mid_key m) ?t") (simp add: recording_def, metis fst_conv)
  let ?w = "w\<lparr>time_calls := Suc (time_calls w), db := d\<rparr>"
  have r: "record_mid m w = Some (Returned 0, ?w)"
    using assms d by (simp add: record_mid_def andthen_def look_def time_now_def change_def ret_def db_is_open_def recording_def)
  have get: "db_get (dbops w) d (mid_key m) = Some ?t" "\<forall>j. j \<noteq> mid_key m \<longrightarrow> db_get (dbops w) d j = db_get (dbops w) (db w) j"
    using assms d by (auto simp: recording_def db_laws_def)
  have "x \<in> known ?w \<longleftrightarrow> x \<in> insert m (known w)" for x
    using get by (cases "x = m") (simp_all add: known_def mid_key_def)
  then have "known ?w = insert m (known w)" by blast
  then show ?thesis using r keepsD [OF mids_record_mid r] by (auto simp: env_def)
qed

lemma check_unknown:
  assumes "recording w" "m \<notin> known w"
  shows "check_mid m w = Some (Returned 0, w)"
  using assms by (simp add: check_mid_def andthen_def look_def ret_def db_is_open_def recording_def known_def)

section \<open>A compressed message\<close>

definition packs :: "u8 list \<Rightarrow> u8 list \<Rightarrow> bool" where
  "packs d m \<longleftrightarrow> (\<exists>h bytes. d = crc_low (crc_bytes 0 bytes) # crc_high (crc_bytes 0 bytes) # bytes \<and>
     StartHuff static_huff = Some h \<and> compressed h m bytes)"

lemma packs_encoded:
  assumes "codec_shape g" "length m \<le> 3867" "buffer_inv inb" "contents inb = m" "plenty al (12 * length m + 64)"
  shows "\<exists>out g' inb'. version_1_Encode al inb g = Some (Some out, g', inb') \<and> buffer_inv out \<and> packs (contents out) m \<and> codec_shape g'"
proof -
  have "StartHuff (hf g) = StartHuff static_huff"
    using StartHuff_unique [of "hf g" static_huff] assms(1) static_codec_shape by (simp add: codec_shape_def static_codec_def)
  with version_1_Encode_written [OF assms] show ?thesis unfolding packs_def by (elim exE conjE) (intro exI conjI, assumption+, simp_all)
qed

lemma packs_decoded:
  assumes "codec_shape g" "packs d m" "buffer_inv b" "unread b = d" "length m < 2 ^ 31" "plenty al (2 * length m + 4000)"
  shows "\<exists>out g' b'. version_1_Decode al b g = Some (Inr (Some out, g', b')) \<and> buffer_inv out \<and> contents out = m \<and> codec_shape g'"
proof -
  obtain h bytes where p: "d = crc_low (crc_bytes 0 bytes) # crc_high (crc_bytes 0 bytes) # bytes" "StartHuff static_huff = Some h"
      "compressed h m bytes" using assms(2) by (auto simp: packs_def)
  have "StartHuff (hf g) = Some h"
    using StartHuff_unique [of "hf g" static_huff] assms(1) static_codec_shape p(2) by (simp add: codec_shape_def static_codec_def)
  from version_1_Decode_compressed [OF assms(1,3) assms(4) [unfolded p(1)] this p(3) assms(5,6)] obtain out g' b' where
    d: "version_1_Decode al b g = Some (Inr (Some out, g', b'))" "buffer_inv out" "contents out = m" by blast
  moreover have "codec_shape g'" by (rule version_1_Decode_shape [OF assms(1,3) assms(4) [unfolded p(1)] d(1)])
  ultimately show ?thesis by blast
qed

section \<open>Receiving one message\<close>

definition converts :: "'d world \<Rightarrow> u8 list \<Rightarrow> cstr \<Rightarrow> bool" where
  "converts w m t \<longleftrightarrow> (\<forall>b. buffer_inv b \<and> unread b = m \<longrightarrow>
     (\<exists>ob. wl2mime (mem w) (to_text w) b = Some (Inr (Some ob)) \<and> buffer_inv ob \<and> contents ob = t))"

definition mail_command :: "'d world \<Rightarrow> cstr \<Rightarrow> cstr" where
  "mail_command w addr = sendmail_prefix w @ [32] @ addr"

definition delivers :: "'d world \<Rightarrow> cstr \<Rightarrow> nat \<Rightarrow> u8 list \<Rightarrow> cstr \<Rightarrow> bool" where
  "delivers w addr n m t \<longleftrightarrow> converts w m t \<and> sendmail w (mail_command w addr) t = Mail_ok \<and>
     granted (mem w) (length (mail_command w addr) + 1) \<and> length m < 2 ^ 31 \<and> 2 * length m + 4000 \<le> n"

lemma delivers_env:
  assumes "env w' = env w"
  shows "delivers w' addr n m t = delivers w addr n m t" "mail_command w' addr = mail_command w addr"
  by (simp_all add: delivers_def converts_def mail_command_def env_fields [OF assms])

lemma send_mail_delivered:
  assumes "buffer_inv b" "contents b = t" "sendmail w (mail_command w addr) t = Mail_ok" "granted (mem w) (length (mail_command w addr) + 1)"
  shows "send_mail (Some addr) (buffer_rewind b) w = Some (Returned (), w\<lparr>mails := mails w @ [(mail_command w addr, t)]\<rparr>)"
proof -
  have "read_all (buffer_rewind b) = Some t" using read_all_unread [of "buffer_rewind b"] assms(1,2) by simp
  then show ?thesis
    using assms(3,4) asprintf_returned [of w "mail_command w addr"]
    by (simp add: send_mail_def andthen_def look_def defined_def ret_def change_def mail_command_def)
qed

lemma receive_delivered:
  assumes "ready n w" "recording w" "inp w = frame s d @ rest" "0 \<notin> set s" "packs d m" "2 * length d + 32 \<le> n" "delivers w addr n m t"
  shows "\<exists>w'. receive_message (Some addr) q w = Some (Returned (), w') \<and> ready n w' \<and> env w' = env w \<and> inp w' = rest \<and>
    outp w' = outp w \<and> outbox w' = outbox w \<and> mails w' = mails w @ [(mail_command w addr, t)] \<and> known w' = insert (mid q) (known w) \<and>
    unlinkable w' = unlinkable w"
proof -
  have r: "writes w = None" "line_ok w" "codec_shape (tabs w)" "plenty (mem w) n" using assms(1) by (simp_all add: ready_def)
  have i: "inp w = [CHRSOH, of_nat (length (take 80 s) + 3)] @ take 80 s @ [CHRNUL, 48, CHRNUL] @ blocks_of d @
      [CHREOT, low_byte_neg (byte_sum d)] @ rest" using assms(3) by (simp add: frame_def)
  have "0 \<notin> set (take 80 s)" using assms(4) in_set_takeD by metis
  from getcompressed_blocks [OF i this _ plenty_le [OF r(4) assms(6)]] obtain cb where
    c: "getcompressed w = Some (Returned (Some cb), took w rest)" "buffer_inv cb" "contents cb = d" "bpos cb = 0"
    by (auto simp: low_byte_neg_sum)
  let ?w1 = "took w rest"
  have u: "unread cb = d" using c(3,4) by (simp add: unread_def)
  have dl: "converts w m t" "sendmail w (mail_command w addr) t = Mail_ok" "granted (mem w) (length (mail_command w addr) + 1)"
    "length m < 2 ^ 31" "2 * length m + 4000 \<le> n" using assms(7) by (simp_all add: delivers_def)
  obtain ub g cb' where v: "version_1_Decode (mem w) cb (tabs w) = Some (Inr (Some ub, g, cb'))" "buffer_inv ub" "contents ub = m" "codec_shape g"
    using packs_decoded [OF r(3) assms(5) c(2) u dl(4) plenty_le [OF r(4) dl(5)]] by blast
  let ?w2 = "?w1\<lparr>tabs := g\<rparr>"
  obtain ob where o: "wl2mime (mem w) (to_text w) (buffer_rewind ub) = Some (Inr (Some ob))" "buffer_inv ob" "contents ob = t"
    using dl(1) v(2,3) unfolding converts_def by (metis buffer_inv_rewind unread_rewind)
  let ?w3 = "?w2\<lparr>mails := mails ?w2 @ [(mail_command w addr, t)]\<rparr>"
  have m: "send_mail (Some addr) (buffer_rewind ob) ?w2 = Some (Returned (), ?w3)"
    using send_mail_delivered [OF o(2,3), of ?w2 addr] dl(2,3) by (simp add: mail_command_def took_def)
  have e3: "env ?w3 = env w" by (simp add: env_def took_def)
  obtain w' where k: "record_mid (mid q) ?w3 = Some (Returned 0, w')" "mids_only ?w3 w'" "env w' = env ?w3" "known w' = insert (mid q) (known ?w3)"
    using record_known [of ?w3 "mid q"] recording_env [OF e3] assms(2) by blast
  note same = mids_only_fields [OF k(2)]
  have "receive_message (Some addr) q w = Some (Returned (), w')"
    using c(1) v(1) o(1) m k(1)
    by (simp add: receive_message_def andthen_def look_def defined_def change_def ret_def took_def)
  moreover have "known ?w3 = known w" by (simp add: known_def took_def)
  moreover have "ready n w'"
    using r v(4) same k(3) e3 env_fields [OF k(3)] by (simp add: ready_def line_ok_def took_def)
  ultimately show ?thesis using k(3,4) e3 same by (intro exI [of _ w']) (simp add: took_def)
qed

section \<open>Proposals that can be offered\<close>

text \<open>\<open>M\<close> gives the message behind a message id.\<close>

definition outgoing :: "(cstr \<Rightarrow> u8 list) \<Rightarrow> proposal \<Rightarrow> bool" where
  "outgoing M p \<longleftrightarrow> prop_ok p \<and> sendable p \<and> offset p = 0 \<and> \<not> delete p \<and> (\<forall>c \<in> set (mid p). line_char c) \<and>
     path p \<noteq> None \<and> packs (contents (the (cbuf p))) (M (mid p))"

lemma show_dec_length: "n < 10 ^ Suc k \<Longrightarrow> length (show_dec n) \<le> Suc k"
proof (induction k arbitrary: n)
  case 0
  then show ?case by (simp add: show_dec.simps [of n])
next
  case (Suc k)
  show ?case
  proof (cases "n < 10")
    case False
    have "n div 10 < 10 ^ Suc k" using Suc.prems by (simp add: div_less_iff_less_mult algebra_simps)
    from Suc.IH [OF this] False show ?thesis by (subst show_dec.simps) simp
  qed (simp add: show_dec.simps [of n])
qed

lemma proposal_line_facts:
  assumes "prop_ok p" "\<forall>c \<in> set (mid p). line_char c"
  shows "proposal_line p = proposal_text p @ [13]" "\<forall>c \<in> set (proposal_text p). line_char c" "length (proposal_text p) \<le> 53"
    "strbegins (proposal_text p) (bytes ''FC'')" "\<not> strbegins (proposal_text p) (bytes '';'')"
proof -
  have p: "code p = 67" "type p = 67 \<or> type p = 69" "length (mid p) \<le> 12" "usize p \<le> ULONG_MAX" "csize p < 2 ^ 32"
    using assms(1) by (auto simp: prop_ok_def)
  show "proposal_line p = proposal_text p @ [13]" by (rule proposal_line_text [OF assms(1)])
  have d: "line_char c" if "c \<in> set (show_dec n)" for c n
    using show_dec_chars [OF that] by (auto simp: line_char_def word_le_nat_alt word_less_nat_alt)
  show "\<forall>c \<in> set (proposal_text p). line_char c"
    using p(1,2) assms(2) d by (auto simp: proposal_text_def line_char_def)
  have "length (show_dec (usize p)) \<le> Suc 19" by (rule show_dec_length) (use p(4) in \<open>simp add: ULONG_MAX_def\<close>)
  moreover have "length (show_dec (csize p)) \<le> Suc 9" by (rule show_dec_length) (use p(5) in simp)
  ultimately show "length (proposal_text p) \<le> 53" using p(3) by (simp add: proposal_text_def)
  show "strbegins (proposal_text p) (bytes ''FC'')" "\<not> strbegins (proposal_text p) (bytes '';'')"
    by (simp_all add: proposal_text_def p(1) bytes_def byte_of_def)
qed

section \<open>Reading lines\<close>

text \<open>A line that has been read, as far as the rest of the session can tell.\<close>

lemma read_line_ready:
  assumes "read_line w rest w'" "ready n w"
  shows "ready n w'" "env w' = env w" "inp w' = rest" "outp w' = outp w" "outbox w' = outbox w" "mails w' = mails w"
    "known w' = known w" "unlinkable w' = unlinkable w"
  using assms by (auto simp: read_line_def took_def ready_def env_def line_ok_def known_def)

lemma line_ready:
  assumes "ready n w" "inp w = l @ 13 # rest" "\<forall>c \<in> set l. line_char c" "2 * length l + 32 \<le> n"
  shows "\<exists>w'. wl2kgetline w = Some (Returned (Some l), w') \<and> read_line w rest w'"
  using wl2kgetline_line [OF assms(2) line_chars(1) [OF assms(3)] _ plenty_le [OF _ assms(4)]] line_chars(2) [OF assms(3)] assms(1)
  by (simp add: ready_def)

lemma send_ready:
  assumes "ready n w"
  shows "\<exists>w'. send bs w = Some (Returned (), w') \<and> ready n w' \<and> env w' = env w \<and> inp w' = inp w \<and> outp w' = outp w @ bs \<and>
    outbox w' = outbox w \<and> mails w' = mails w \<and> known w' = known w \<and> unlinkable w' = unlinkable w"
  using assms send_returned [of w bs] by (simp add: ready_def env_def line_ok_def known_def)

section \<open>The receiving side\<close>

lemma answers_unknown:
  assumes "recording w" "\<forall>p \<in> set ps. code p = 67 \<and> mid p \<notin> known w"
  shows "answer_proposals ps w = Some (Returned (map (\<lambda>p. p\<lparr>accepted := True\<rparr>) ps, replicate (length ps) 89), w)"
  using assms(2) by (induction ps) (simp_all add: ret_def andthen_def check_unknown [OF assms(1)])

lemma receive_all:
  assumes "ready n w" "recording w" "inp w = concat (map frame_of ps) @ rest"
    and "\<forall>p \<in> set ps. outgoing M p \<and> 2 * csize p + 32 \<le> n \<and> delivers w addr n (M (mid p)) (T (mid p))"
    and "map mid qs = map mid ps" "\<forall>q \<in> set qs. accepted q"
  shows "\<exists>w'. receive_messages (Some addr) qs w = Some (Returned (), w') \<and> ready n w' \<and> env w' = env w \<and> inp w' = rest \<and>
    outp w' = outp w \<and> outbox w' = outbox w \<and> mails w' = mails w @ map (\<lambda>p. (mail_command w addr, T (mid p))) ps \<and>
    known w' = known w \<union> mid ` set ps \<and> unlinkable w' = unlinkable w"
  using assms
proof (induction ps arbitrary: w qs)
  case Nil
  then show ?case by (simp add: ret_def)
next
  case (Cons p ps)
  then obtain q qs' where q: "qs = q # qs'" "mid q = mid p" "map mid qs' = map mid ps" "accepted q" "\<forall>q \<in> set qs'. accepted q"
    by (cases qs) auto
  have p: "outgoing M p" "2 * csize p + 32 \<le> n" "delivers w addr n (M (mid p)) (T (mid p))" using Cons.prems(4) by simp_all
  obtain t b where b: "title p = Some t" "0 \<notin> set t" "cbuf p = Some b" "buffer_inv b" "csize p = dlen b" "packs (contents b) (M (mid p))"
    using p(1) by (auto simp: outgoing_def sendable_def)
  have i: "inp w = frame t (contents b) @ concat (map frame_of ps) @ rest"
    using Cons.prems(3) b(1,3) frame_of_def [of p] by simp
  have len: "2 * length (contents b) + 32 \<le> n" using p(2) b(4,5) by simp
  from receive_delivered [OF Cons.prems(1,2) i b(2,6) len p(3), of q] obtain w1 where w1:
      "receive_message (Some addr) q w = Some (Returned (), w1)" "ready n w1" "env w1 = env w" "inp w1 = concat (map frame_of ps) @ rest"
      "outp w1 = outp w" "outbox w1 = outbox w" "mails w1 = mails w @ [(mail_command w addr, T (mid p))]" "known w1 = insert (mid q) (known w)"
      "unlinkable w1 = unlinkable w"
    by blast
  have "recording w1" using recording_env [OF w1(3)] Cons.prems(2) by simp
  moreover have "\<forall>p \<in> set ps. outgoing M p \<and> 2 * csize p + 32 \<le> n \<and> delivers w1 addr n (M (mid p)) (T (mid p))"
    using Cons.prems(4) delivers_env [OF w1(3)] by simp
  ultimately obtain w' where w': "receive_messages (Some addr) qs' w1 = Some (Returned (), w')" "ready n w'" "env w' = env w1" "inp w' = rest"
      "outp w' = outp w1" "outbox w' = outbox w1" "mails w' = mails w1 @ map (\<lambda>p. (mail_command w1 addr, T (mid p))) ps"
      "known w' = known w1 \<union> mid ` set ps" "unlinkable w' = unlinkable w1"
    using Cons.IH [OF w1(2) _ w1(4) _ q(3,5)] by blast
  then show ?case
    using w1 q delivers_env(2) [OF w1(3)] by (intro exI [of _ w']) (simp add: andthen_def)
qed

end
