(* ===== verification/Dialogue.thy ===== *)
theory Dialogue
  imports Delivery
begin

text \<open>
  Two stations that take turns.  What each of them says depends on what both have to offer; \<open>dialogue\<close> gives the two
  transcripts.  The result on a session is one induction along it with two claims, for the side that listens next
  and for the side that speaks next.
\<close>

section \<open>What a run leaves behind\<close>

text \<open>
  The process has read up to \<open>rest\<close>, written \<open>bs\<close>, handed \<open>ms\<close> to sendmail, recorded \<open>ids\<close> and deleted the files \<open>S\<close>.
\<close>

definition carries :: "'d world \<Rightarrow> u8 list \<Rightarrow> u8 list \<Rightarrow> (cstr \<times> u8 list) list \<Rightarrow> cstr set \<Rightarrow> cstr set \<Rightarrow> 'd world \<Rightarrow> bool" where
  "carries w rest bs ms ids S w' \<longleftrightarrow> inp w' = rest \<and> outp w' = outp w @ bs \<and> mails w' = mails w @ ms \<and> known w' = known w \<union> ids \<and>
     env w' = env w \<and> unlinkable w' = unlinkable w \<and> outbox w' = outbox (without_files w S)"

lemma carries_refl: "carries w (inp w) [] [] {} {} w"
  by (simp add: carries_def)

lemma outbox_without: "outbox u = outbox v \<Longrightarrow> unlinkable u = unlinkable v \<Longrightarrow> outbox (without_files u S) = outbox (without_files v S)"
  by (simp add: without_files_def)

lemma carries_trans:
  assumes "carries u r a ms i S v" "carries v s b ns j T w"
  shows "carries u s (a @ b) (ms @ ns) (i \<union> j) (S \<union> T) w"
proof -
  have "outbox (without_files v T) = outbox (without_files (without_files u S) T)"
    by (rule outbox_without) (use assms(1) in \<open>simp_all add: carries_def without_files_def\<close>)
  then show ?thesis using assms by (auto simp: carries_def without_files_union)
qed

lemma carries_line: "read_line w rest w' \<Longrightarrow> ready n w \<Longrightarrow> ready n w' \<and> carries w rest [] [] {} {} w'"
  using read_line_ready [of w rest w' n] by (simp add: carries_def)

lemma carries_send:
  assumes "ready n w"
  shows "\<exists>w'. send bs w = Some (Returned (), w') \<and> ready n w' \<and> carries w (inp w) bs [] {} {} w'"
  using send_ready [OF assms, of bs] by (simp add: carries_def) blast

lemma carries_files:
  assumes "ready n w"
  shows "ready n (without_files w S)" "carries w (inp w) [] [] {} S (without_files w S)"
  using assms by (simp_all add: carries_def without_files_def ready_def line_ok_def env_def known_def)

text \<open>What the proposals become that have been offered: accepted, sent and marked.\<close>

definition sent_mark :: "proposal \<Rightarrow> proposal" where
  "sent_mark p = p\<lparr>accepted := True, offset := 0, delete := True\<rparr>"

lemma sent_mark_fields [simp]:
  "path (sent_mark p) = path p" "delete (sent_mark p)"
  by (simp_all add: sent_mark_def)

definition files_of :: "proposal list \<Rightarrow> cstr set" where
  "files_of ps = {f. \<exists>p \<in> set ps. path p = Some f}"

lemma marked_files_append: "marked_files (ps @ qs) = marked_files ps \<union> marked_files qs"
  by (auto simp: marked_files_def)

lemma marked_unmark: "marked_files (map unmark ps) = {}"
  by (auto simp: marked_files_def unmark_def)

lemma marked_sent: "marked_files (map sent_mark ps) = files_of ps"
  by (auto simp: marked_files_def files_of_def)

lemma unmark_unmark: "map unmark (map unmark ps) = map unmark ps"
  by (induction ps) (simp_all add: unmark_def)

lemma carries_delete:
  assumes "ready n w"
  shows "\<exists>w'. dodelete (dn @ todo) (length dn) w = Some (Returned (map unmark dn @ todo), w') \<and> ready n w' \<and>
    carries w (inp w) [] [] {} (marked_files dn) w'"
  using dodelete_effect [of "dn @ todo" "length dn" w] carries_files [OF assms] by simp

section \<open>Reading an offer\<close>

definition holds :: "parser \<Rightarrow> proposal list \<Rightarrow> proposal list \<Rightarrow> bool" where
  "holds s dn todo \<longleftrightarrow> oprops s = dn @ todo \<and> nprop s = length dn"

lemma proposal_command_read:
  assumes "ready n w" "prop_ok p" "\<forall>c \<in> set (mid p). line_char c" "holds s dn todo" "length (iprops s) < PROPLIMIT"
    and "proposalcksum s + byte_sum (proposal_line p) < 2 ^ 31"
  shows "\<exists>q w'. proposal_command (proposal_text p) s w = Some (Returned (Inl (s\<lparr>oprops := map unmark dn @ todo, iprops := iprops s @ [q],
      proposalcksum := proposalcksum s + byte_sum (proposal_line p), sprop := q\<rparr>)), w') \<and>
    mid q = mid p \<and> code q = 67 \<and> ready n w' \<and> carries w (inp w) [] [] {} (marked_files dn) w'"
proof -
  let ?q = "(sprop s)\<lparr>code := 67, type := type p, mid := mid p, usize := usize p, csize := csize p, path := None, cbuf := None,
    ubuf := None, delete := False\<rparr>"
  have "add_bytes (map Some (proposal_text p @ [13])) (proposalcksum s) = Some (proposalcksum s + byte_sum (proposal_line p), proposal_text p @ [13])"
    using add_bytes_sum [of "proposalcksum s" "proposal_text p @ [13]"] assms(6) proposal_line_facts(1) [OF assms(2,3)] by simp
  moreover obtain w' where w': "dodelete (oprops s) (nprop s) w = Some (Returned (map unmark dn @ todo), w')" "ready n w'"
      "carries w (inp w) [] [] {} (marked_files dn) w'"
    using carries_delete [OF assms(1)] assms(4) by (auto simp: holds_def)
  ultimately have "proposal_command (proposal_text p) s w = Some (Returned (Inl (s\<lparr>oprops := map unmark dn @ todo, iprops := iprops s @ [?q],
      proposalcksum := proposalcksum s + byte_sum (proposal_line p), sprop := ?q\<rparr>)), w')"
    using parse_proposal_text [OF assms(2), of "sprop s"] assms(5)
    by (simp add: proposal_command_def andthen_def defined_def ret_def)
  then show ?thesis using w' by (intro exI [of _ ?q] exI [of _ w']) simp
qed

lemma inbound_read:
  assumes "ready n w" "prop_ok p" "\<forall>c \<in> set (mid p). line_char c" "inp w = proposal_line p @ rest" "138 \<le> n"
    and "holds s dn todo" "length (iprops s) < PROPLIMIT" "proposalcksum s + byte_sum (proposal_line p) < 2 ^ 31"
  shows "\<exists>q w'. inbound_step addr s w = Some (Returned (Inl (s\<lparr>oprops := map unmark dn @ todo, iprops := iprops s @ [q],
      proposalcksum := proposalcksum s + byte_sum (proposal_line p), sprop := q\<rparr>)), w') \<and>
    mid q = mid p \<and> code q = 67 \<and> ready n w' \<and> carries w rest [] [] {} (marked_files dn) w'"
proof -
  note l = proposal_line_facts [OF assms(2,3)]
  have "inp w = proposal_text p @ 13 # rest" using assms(4) l(1) by simp
  moreover have "2 * length (proposal_text p) + 32 \<le> n" using l(3) assms(5) by simp
  ultimately obtain w1 where w1: "wl2kgetline w = Some (Returned (Some (proposal_text p)), w1)" "ready n w1" "carries w rest [] [] {} {} w1"
    using line_ready [OF assms(1) _ l(2)] carries_line [OF _ assms(1)] by blast
  obtain q w' where q: "proposal_command (proposal_text p) s w1 = Some (Returned (Inl (s\<lparr>oprops := map unmark dn @ todo, iprops := iprops s @ [q],
      proposalcksum := proposalcksum s + byte_sum (proposal_line p), sprop := q\<rparr>)), w')"
      "mid q = mid p" "code q = 67" "ready n w'" "carries w1 (inp w1) [] [] {} (marked_files dn) w'"
    using proposal_command_read [OF w1(2) assms(2,3,6,7,8)] by blast
  have "carries w rest [] [] {} (marked_files dn) w'"
    using carries_trans [OF w1(3) q(5)] w1(3) by (simp add: carries_def)
  moreover have "length (proposal_text p) \<noteq> 0" by (simp add: proposal_text_def)
  ultimately show ?thesis
    using w1(1) q l(4,5) by (intro exI [of _ q] exI [of _ w']) (simp add: inbound_step_def andthen_def)
qed

lemma batch_read:
  assumes "ready n w" "\<forall>p \<in> set ps. prop_ok p \<and> (\<forall>c \<in> set (mid p). line_char c)" "inp w = concat (map proposal_line ps) @ rest"
    and "138 \<le> n" "holds s dn todo" "length (iprops s) + length ps \<le> PROPLIMIT"
    and "proposalcksum s + byte_sum (concat (map proposal_line ps)) < 2 ^ 31" "ps \<noteq> []"
  shows "\<exists>qs sp w'. io_loop (inbound_step addr) s w = io_loop (inbound_step addr) (s\<lparr>oprops := map unmark dn @ todo,
      iprops := iprops s @ qs, proposalcksum := proposalcksum s + byte_sum (concat (map proposal_line ps)), sprop := sp\<rparr>) w' \<and>
    map mid qs = map mid ps \<and> (\<forall>q \<in> set qs. code q = 67) \<and> ready n w' \<and> carries w rest [] [] {} (marked_files dn) w'"
  using assms
proof (induction ps arbitrary: s w dn)
  case Nil
  then show ?case by simp
next
  case (Cons p ps)
  have i: "inp w = proposal_line p @ concat (map proposal_line ps) @ rest" using Cons.prems(3) by simp
  obtain q w1 where st: "inbound_step addr s w = Some (Returned (Inl (s\<lparr>oprops := map unmark dn @ todo, iprops := iprops s @ [q],
        proposalcksum := proposalcksum s + byte_sum (proposal_line p), sprop := q\<rparr>)), w1)"
      "mid q = mid p" "code q = 67" "ready n w1" "carries w (concat (map proposal_line ps) @ rest) [] [] {} (marked_files dn) w1"
    using inbound_read [OF Cons.prems(1) _ _ i Cons.prems(4,5), of addr] Cons.prems(2,6,7) by auto
  let ?s = "s\<lparr>oprops := map unmark dn @ todo, iprops := iprops s @ [q], proposalcksum := proposalcksum s + byte_sum (proposal_line p), sprop := q\<rparr>"
  note go = io_loop_next [of "inbound_step addr", OF st(1)]
  show ?case
  proof (cases "ps = []")
    case True
    then show ?thesis using go st by (intro exI [of _ "[q]"] exI [of _ q] exI [of _ w1]) simp
  next
    case False
    have i1: "inp w1 = concat (map proposal_line ps) @ rest" using st(5) by (simp add: carries_def)
    have h: "holds ?s (map unmark dn) todo" using Cons.prems(5) by (simp add: holds_def)
    obtain qs sp w' where IH: "io_loop (inbound_step addr) ?s w1 = io_loop (inbound_step addr) (?s\<lparr>oprops := map unmark (map unmark dn) @ todo,
        iprops := iprops ?s @ qs, proposalcksum := proposalcksum ?s + byte_sum (concat (map proposal_line ps)), sprop := sp\<rparr>) w'"
      "map mid qs = map mid ps" "\<forall>q \<in> set qs. code q = 67" "ready n w'" "carries w1 rest [] [] {} (marked_files (map unmark dn)) w'"
      using Cons.IH [OF st(4) _ i1 Cons.prems(4) h _ _ False] Cons.prems(2,6,7) by (auto simp: add.assoc)
    have "io_loop (inbound_step addr) s w = io_loop (inbound_step addr) (s\<lparr>oprops := map unmark dn @ todo, iprops := iprops s @ q # qs,
        proposalcksum := proposalcksum s + byte_sum (concat (map proposal_line (p # ps))), sprop := sp\<rparr>) w'"
      using go IH(1) by (simp add: add.assoc unmark_unmark del: map_map)
    moreover have "carries w rest [] [] {} (marked_files dn) w'" using carries_trans [OF st(5) IH(5)] by (simp add: marked_unmark)
    ultimately show ?thesis
      using IH(2-4) st(2,3) by (intro exI [of _ "q # qs"] exI [of _ sp] exI [of _ w']) auto
  qed
qed

lemma batch_sum:
  assumes "\<forall>p \<in> set ps. prop_ok p \<and> (\<forall>c \<in> set (mid p). line_char c)" "length ps \<le> PROPLIMIT"
  shows "byte_sum (concat (map proposal_line ps)) < 2 ^ 31"
proof -
  have "length (concat (map proposal_line ps)) \<le> 54 * length ps"
    using assms(1)
  proof (induction ps)
    case (Cons p ps)
    then show ?case using proposal_line_facts(1,3) [of p] by simp
  qed simp
  then have "byte_sum (concat (map proposal_line ps)) \<le> 255 * (54 * length ps)"
    using byte_sum_bound [of "concat (map proposal_line ps)"] by (meson mult_le_mono2 order_trans)
  then show ?thesis using assms(2) by (simp add: PROPLIMIT_def)
qed

lemma end_line:
  "\<forall>c \<in> set (bytes ''F> '' @ show_hex2 (unat (b :: u8))). line_char c" "length (bytes ''F> '' @ show_hex2 n) = 5"
  "drop 2 (bytes ''F> '' @ show_hex2 n) = 32 # show_hex2 n"
proof -
  have "line_char (hex_digit k)" if "k < 16" for k
    using that by (simp add: line_char_def hex_digit_def word_le_nat_alt word_less_nat_alt unat_of_nat del: of_nat_add)
  then show "\<forall>c \<in> set (bytes ''F> '' @ show_hex2 (unat (b :: u8))). line_char c"
    by (simp add: bytes_def byte_of_def show_hex2_def, simp add: line_char_def)
qed (simp_all add: bytes_def byte_of_def show_hex2_def)

section \<open>Taking a batch\<close>

definition yes_answer :: "proposal list \<Rightarrow> u8 list" where
  "yes_answer ps = bytes ''FS '' @ replicate (length ps) 89 @ [13]"

text \<open>A process that can take all of the proposals \<open>ps\<close> of the other side, and what it then hands to sendmail.\<close>

definition takes :: "nat \<Rightarrow> cstr option \<Rightarrow> (cstr \<Rightarrow> u8 list) \<Rightarrow> (cstr \<Rightarrow> cstr) \<Rightarrow> 'd world \<Rightarrow> proposal list \<Rightarrow> bool" where
  "takes n email M T w ps \<longleftrightarrow> ready n w \<and> (ps \<noteq> [] \<longrightarrow> recording w \<and> \<not> gsendmsgonly_flag w \<and> email \<noteq> None) \<and> distinct (map mid ps) \<and>
     (\<forall>p \<in> set ps. outgoing M p \<and> 2 * csize p + 32 \<le> n \<and> delivers w (the email) n (M (mid p)) (T (mid p)) \<and> mid p \<notin> known w)"

definition mail_of :: "'d world \<Rightarrow> cstr option \<Rightarrow> (cstr \<Rightarrow> cstr) \<Rightarrow> proposal list \<Rightarrow> (cstr \<times> u8 list) list" where
  "mail_of w email T ps = map (\<lambda>p. (mail_command w (the email), T (mid p))) ps"

lemma takes_none: "takes n email M T w [] \<longleftrightarrow> ready n w"
  by (simp add: takes_def)

lemma takes_later:
  assumes "takes n email M T w (b @ r)" "ready n w'" "carries w rest bs ms (mid ` set b) S w'"
  shows "takes n email M T w' r" "mail_of w' email T r = mail_of w email T r"
proof -
  have e: "env w' = env w" "known w' = known w \<union> mid ` set b" using assms(3) by (simp_all add: carries_def)
  then show "takes n email M T w' r"
    using assms(1,2) recording_env [OF e(1)] env_fields(9) [OF e(1)] delivers_env(1) [OF e(1)] by (auto simp: takes_def)
  show "mail_of w' email T r = mail_of w email T r" using delivers_env(2) [OF e(1)] by (simp add: mail_of_def)
qed

lemma takes_env:
  assumes "takes n email M T w ps" "ready n w'" "env w' = env w" "known w' \<subseteq> known w"
  shows "takes n email M T w' ps" "mail_of w' email T ps = mail_of w email T ps"
  using assms(1,2,4) recording_env [OF assms(3)] env_fields(9) [OF assms(3)] delivers_env [OF assms(3)] by (auto simp: takes_def mail_of_def)

lemma takes_part: "takes n email M T w (b @ r) \<Longrightarrow> takes n email M T w b"
  by (simp add: takes_def)

lemma mail_of_append: "mail_of w email T (b @ r) = mail_of w email T b @ mail_of w email T r" and mail_of_none [simp]: "mail_of w email T [] = []"
  by (simp_all add: mail_of_def)

lemmas takes_same = takes_later [where b = "[]", simplified]

text \<open>The turn that comes after an offer has been taken, and after the line \<open>FF\<close>.\<close>

definition turn :: "cstr option \<Rightarrow> cstr \<Rightarrow> parser \<Rightarrow> ('d, int \<times> proposal list) io" where
  "turn addr line s = andthen (outbound_turn line s) (\<lambda>r. case r of Inl s' \<Rightarrow> io_loop (inbound_step addr) s' | Inr x \<Rightarrow> ret x)"

lemma io_loop_turn:
  assumes "inbound_step addr s w = outbound_turn line s' w'"
  shows "io_loop (inbound_step addr) s w = turn addr line s' w'"
proof (cases "outbound_turn line s' w'")
  case None
  then show ?thesis using assms io_loop_undefined [of "inbound_step addr" s w] by (simp add: turn_def andthen_def)
next
  case (Some x)
  obtain r v where x: "x = (r, v)" by fastforce
  show ?thesis
  proof (cases r)
    case (Returned y)
    then show ?thesis
      using Some assms io_loop_next [of "inbound_step addr" s w] io_loop_done [of "inbound_step addr" s w]
      by (cases y) (simp_all add: turn_def andthen_def ret_def x)
  next
    case (Exited k)
    then show ?thesis using Some assms io_loop_exit [of "inbound_step addr" s w] by (simp add: turn_def andthen_def x)
  qed
qed

lemma batch_taken:
  assumes t: "takes n email M T w ps" and n: "138 \<le> n" and ps: "ps \<noteq> []" "length ps \<le> PROPLIMIT"
    and i: "inp w = batch_offer ps @ concat (map frame_of ps) @ rest"
    and s: "holds s dn todo" "iprops s = []" "proposalcksum s = 0"
  shows "\<exists>sp F w'. io_loop (inbound_step email) s w
      = turn email F (s\<lparr>oprops := map unmark dn @ todo, sprop := sp\<rparr>) w' \<and> \<not> strbegins F (bytes ''FF'') \<and>
    ready n w' \<and> carries w rest (yes_answer ps) (mail_of w email T ps) (mid ` set ps) (marked_files dn) w'"
proof -
  have w: "ready n w" "recording w" "\<not> gsendmsgonly_flag w" "email \<noteq> None"
    and ok: "\<forall>p \<in> set ps. outgoing M p \<and> 2 * csize p + 32 \<le> n \<and> delivers w (the email) n (M (mid p)) (T (mid p)) \<and> mid p \<notin> known w"
    using t ps(1) by (simp_all add: takes_def)
  obtain addr where em: "email = Some addr" using w(4) by auto
  define L where "L = concat (map proposal_line ps)"
  define F where "F = bytes ''F> '' @ show_hex2 (unat (low_byte_neg (byte_sum L)))"
  have po: "\<forall>p \<in> set ps. prop_ok p \<and> (\<forall>c \<in> set (mid p). line_char c)" using ok by (simp add: outgoing_def)
  have sum: "byte_sum L < 2 ^ 31" unfolding L_def by (rule batch_sum [OF po ps(2)])
  have i': "inp w = concat (map proposal_line ps) @ F @ 13 # concat (map frame_of ps) @ rest"
    using i by (simp add: batch_offer_def L_def F_def)
  obtain qs sp w1 where b: "io_loop (inbound_step email) s w = io_loop (inbound_step email)
      (s\<lparr>oprops := map unmark dn @ todo, iprops := qs, proposalcksum := byte_sum L, sprop := sp\<rparr>) w1"
    "map mid qs = map mid ps" "\<forall>q \<in> set qs. code q = 67" "ready n w1"
    "carries w (F @ 13 # concat (map frame_of ps) @ rest) [] [] {} (marked_files dn) w1"
    using batch_read [OF w(1) po i' n s(1) _ _ ps(1), of email] ps(2) s(2,3) sum by (auto simp: L_def)
  let ?s = "s\<lparr>oprops := map unmark dn @ todo, iprops := qs, proposalcksum := byte_sum L, sprop := sp\<rparr>"
  have i1: "inp w1 = F @ 13 # concat (map frame_of ps) @ rest" using b(5) by (simp add: carries_def)
  have "2 * length F + 32 \<le> n" using n end_line(2) by (simp add: F_def)
  from line_ready [OF b(4) i1 _ this] obtain w2 where w2: "wl2kgetline w1 = Some (Returned (Some F), w2)"
      "ready n w2" "carries w1 (concat (map frame_of ps) @ rest) [] [] {} {} w2"
    using end_line(1) carries_line [OF _ b(4)] by (auto simp: F_def)
  obtain w3 where w3: "send (yes_answer ps) w2 = Some (Returned (), w3)" "ready n w3" "carries w2 (inp w2) (yes_answer ps) [] {} {} w3"
    using carries_send [OF w2(2)] by blast
  have c2: "carries w (inp w2) [] [] {} (marked_files dn) w2" using carries_trans [OF b(5) w2(3)] w2(3) by (simp add: carries_def)
  have c3: "carries w (concat (map frame_of ps) @ rest) (yes_answer ps) [] {} (marked_files dn) w3"
    using carries_trans [OF c2 w3(3)] w2(3) by (simp add: carries_def)
  have t3: "takes n email M T w3 ps" "mail_of w3 email T ps = mail_of w email T ps"
    using takes_same [OF t w3(2)] c3 by simp_all
  let ?qs = "map (\<lambda>q. q\<lparr>accepted := True\<rparr>) qs"
  have m3: "map mid ?qs = map mid ps" using b(2) by (simp add: comp_def)
  have i3: "inp w3 = concat (map frame_of ps) @ rest" using c3 by (simp add: carries_def)
  have "recording w3" "\<forall>p \<in> set ps. outgoing M p \<and> 2 * csize p + 32 \<le> n \<and> delivers w3 (the email) n (M (mid p)) (T (mid p))"
    using t3(1) ps(1) by (simp_all add: takes_def)
  from receive_all [OF w3(2) this(1) i3 this(2) m3] obtain w4 where w4: "receive_messages email ?qs w3 = Some (Returned (), w4)" "ready n w4"
      "carries w3 rest [] (mail_of w email T ps) (mid ` set ps) {} w4"
    using t3(2) by (auto simp: em carries_def mail_of_def without_files_def)
  have F: "\<not> strbegins F (bytes '';'')" "length F \<noteq> 0" "\<not> strbegins F (bytes ''FC'')" "\<not> strbegins F (bytes ''FF'')" "\<not> strbegins F (bytes ''B'')"
      "\<not> strbegins F (bytes ''FQ'')" "strbegins F (bytes ''F>'')"
    by (simp_all add: F_def bytes_def byte_of_def)
  have "drop 2 F = 32 # show_hex2 (unat (low_byte_neg (byte_sum L)))" unfolding F_def by (rule end_line(3))
  moreover have "unat (low_byte_neg (byte_sum L)) < 256" using unsigned_less [of "low_byte_neg (byte_sum L)"] by simp
  ultimately have ck: "fst (strtoul 16 (drop 2 F)) = unat (low_byte_neg (byte_sum L))" using strtoul_hex2 by simp
  have "takes n email M T w2 ps" using takes_same [OF t w2(2)] c2 by simp
  then have flag: "gsendmsgonly_flag w2 = False" "recording w2" and unknown: "\<forall>p \<in> set ps. mid p \<notin> known w2" using ps(1) by (simp_all add: takes_def)
  have "\<forall>q \<in> set qs. code q = 67 \<and> mid q \<notin> known w2"
    using b(2,3) unknown by (metis (no_types, lifting) imageE image_eqI list.set_map)
  note ans = answers_unknown [OF flag(2) this]
  have len: "length qs = length ps" using b(2) by (rule map_eq_imp_length_eq)
  have qs: "qs \<noteq> []" using len ps(1) by auto
  let ?t = "s\<lparr>oprops := map unmark dn @ todo, sprop := sp\<rparr>"
  have "?t = ?s\<lparr>iprops := [], proposalcksum := 0\<rparr>" using s(2,3) by simp
  then have "end_of_proposals email F ?s w2 = outbound_turn F ?t w4"
    using flag(1) ck qs ans w3(1) w4(1) by (simp add: end_of_proposals_def andthen_def look_def len yes_answer_def)
  then have "inbound_step email ?s w1 = outbound_turn F ?t w4"
    using w2(1) F by (simp add: inbound_step_def andthen_def)
  from b(1) io_loop_turn [OF this] have "io_loop (inbound_step email) s w = turn email F ?t w4" by simp
  moreover have "carries w rest (yes_answer ps) (mail_of w email T ps) (mid ` set ps) (marked_files dn) w4"
    using carries_trans [OF c3 w4(3)] by simp
  ultimately show ?thesis using w4(2) F(4) by blast
qed

section \<open>Making an offer\<close>

lemma answers_yes:
  assumes "k \<le> length ps"
  shows "answers (replicate k 89) ps = Some (map (\<lambda>p. p\<lparr>accepted := True, delete := False, offset := 0\<rparr>) (take k ps) @ drop k ps)"
  using assms
proof (induction k arbitrary: ps)
  case 0
  then show ?case by (cases ps) simp_all
next
  case (Suc k)
  then obtain p ps' where "ps = p # ps'" by (cases ps) auto
  with Suc show ?case by (simp add: lower_or_upper_def bytes_def byte_of_def Let_def)
qed

text \<open>The first line of an offer sets the timer, so what it was before does not matter.\<close>

lemma b2outbound_timer:
  assumes "n < length props" "granted (mem w) (length (proposal_line (props ! n)) + 1)"
  shows "b2outboundproposal line props n w = b2outboundproposal line props n (w\<lparr>alarm := timeoutsecs w\<rparr>)"
proof -
  obtain ps where ps: "take PROPLIMIT (drop n props) = props ! n # ps"
    using assms(1) by (simp add: PROPLIMIT_def flip: Cons_nth_drop_Suc)
  have "offer (props ! n # ps) 0 w = offer (props ! n # ps) 0 (w\<lparr>alarm := timeoutsecs w\<rparr>)"
    using assms(2) by (simp add: andthen_def asprintf_or_exit_def look_def ret_def send_def resettimeout_def change_def)
  then show ?thesis using assms(1) by (simp add: b2outboundproposal_def ps andthen_def del: offer.simps)
qed

lemma batch_sent:
  assumes v: "ready n v" "138 \<le> n" and todo: "todo \<noteq> []" "\<forall>p \<in> set todo. outgoing M p"
    and i: "inp v = yes_answer (take PROPLIMIT todo) @ rest"
  shows "\<exists>v'. b2outboundproposal line (dn @ todo) (length dn) v = Some (Returned
      (0, dn @ map sent_mark (take PROPLIMIT todo) @ drop PROPLIMIT todo, length dn + length (take PROPLIMIT todo)), v') \<and> ready n v' \<and>
    carries v rest (batch_offer (take PROPLIMIT todo) @ concat (map frame_of (take PROPLIMIT todo))) [] {} {} v'"
proof -
  define b where "b = take PROPLIMIT todo"
  define qs where "qs = map (\<lambda>p. p\<lparr>accepted := True, delete := False, offset := 0\<rparr>) b @ drop PROPLIMIT todo"
  have len: "length b \<le> PROPLIMIT" "length b \<le> length todo" by (simp_all add: b_def)
  have drop: "drop (length b) todo = drop PROPLIMIT todo" "take (length b) todo = b" by (simp_all add: b_def min_def)
  have qs5: "take PROPLIMIT qs = map (\<lambda>p. p\<lparr>accepted := True, delete := False, offset := 0\<rparr>) b" "drop PROPLIMIT qs = drop PROPLIMIT todo"
    by (cases "length todo \<le> PROPLIMIT"; simp add: qs_def b_def min_def)+
  have ok: "outgoing M p" if "p \<in> set b" for p using todo(2) that in_set_takeD unfolding b_def by metis
  have "\<not> is_space 89" by (simp add: is_space_def)
  then have "dropWhile is_space (replicate (length b) 89) = replicate (length b) 89" by (cases "length b") simp_all
  then have ans: "answers (dropWhile is_space (replicate (length b) 89)) (drop (length dn) (dn @ todo)) = Some qs"
    using answers_yes [OF len(2)] drop by (simp add: qs_def)
  let ?v = "v\<lparr>alarm := timeoutsecs v\<rparr>"
  have w: "writes ?v = None" "alarm ?v = timeoutsecs ?v" "line_ok ?v" "plenty (mem ?v) n" "codec_shape (tabs ?v)"
    using v(1) by (simp_all add: ready_def line_ok_def)
  have short: "granted (mem ?v) (length (proposal_line p) + 1)" if "outgoing M p" for p
  proof -
    have "length (proposal_line p) \<le> 54" using proposal_line_facts(1,3) [of p] that by (simp add: outgoing_def)
    then show ?thesis by (intro plenty_granted [OF w(4)]) (use v(2) in simp_all)
  qed
  have mem: "\<forall>p \<in> set (take PROPLIMIT (drop (length dn) (dn @ todo))). granted (mem ?v) (length (proposal_line p) + 1)"
    using short ok by (simp add: b_def)
  have send: "\<forall>p \<in> set (take PROPLIMIT qs). \<not> delete p \<longrightarrow> sendable p \<and> offset p = 0"
    using ok by (auto simp: qs5(1) outgoing_def sendable_def)
  have i': "inp ?v = bytes ''FS '' @ replicate (length b) 89 @ 13 # rest" using i by (simp add: yes_answer_def b_def)
  have yes: "\<forall>c \<in> set (replicate (length b) 89). line_char c" by (simp add: line_char_def)
  have n: "plenty (mem ?v) (2 * length (replicate (length b) (89 :: u8)) + 40)"
    by (rule plenty_le [OF w(4)]) (use len(1) v(2) in \<open>simp add: PROPLIMIT_def\<close>)
  have less: "length dn < length (dn @ todo)" using todo(1) by simp
  have "(dn @ todo) ! length dn \<in> set todo" using todo(1) by (cases todo) simp_all
  with b2outbound_timer [where w = v, OF less] short todo(2) have timer: "b2outboundproposal line (dn @ todo) (length dn) v
      = b2outboundproposal line (dn @ todo) (length dn) ?v" by simp
  from b2outbound_answered [OF less w(1-3) i' yes n mem ans send, of line] obtain v' where v':
      "b2outboundproposal line (dn @ todo) (length dn) ?v = Some (Returned (0, take (length dn) (dn @ todo) @
        map (\<lambda>p. p\<lparr>delete := True\<rparr>) (take PROPLIMIT qs) @ drop PROPLIMIT qs, length dn + length (take PROPLIMIT qs)), v')"
      "outp v' = outp ?v @ batch_offer (take PROPLIMIT (drop (length dn) (dn @ todo))) @
        concat (map frame_of (filter (\<lambda>p. \<not> delete p) (take PROPLIMIT qs)))"
      "inp v' = rest" "heard ?v (v'\<lparr>outp := outp ?v\<rparr>)" by blast
  obtain k t l where h: "v'\<lparr>outp := outp v\<rparr> = v\<lparr>inp := k, alarm := t, linebuf := l\<rparr>" "line_ok (v'\<lparr>outp := outp v\<rparr>)"
    using v'(4) w(3) unfolding heard_def by auto
  have "v' = (v'\<lparr>outp := outp v\<rparr>)\<lparr>outp := outp v'\<rparr>" by simp
  also have "\<dots> = v\<lparr>inp := k, alarm := t, linebuf := l, outp := outp v'\<rparr>" unfolding h(1) by simp
  finally have v'_eq: "v' = v\<lparr>inp := k, alarm := t, linebuf := l, outp := outp v'\<rparr>" .
  have "ready n v'"
    using h(2) w by (subst v'_eq, subst (asm) h(1)) (simp add: ready_def line_ok_def)
  moreover have "filter (\<lambda>p. \<not> delete p) (take PROPLIMIT qs) = take PROPLIMIT qs" by (simp add: qs5(1) filter_id_conv)
  then have "concat (map frame_of (filter (\<lambda>p. \<not> delete p) (take PROPLIMIT qs))) = concat (map frame_of b)"
    by (simp add: qs5(1) comp_def frame_of_def [abs_def])
  then have "carries v rest (batch_offer b @ concat (map frame_of b)) [] {} {} v'"
    using v'(2,3) by (simp add: b_def carries_def) (subst v'_eq, simp add: env_def known_def without_files_def)+
  moreover have "map (\<lambda>p. p\<lparr>delete := True\<rparr>) (take PROPLIMIT qs) = map sent_mark b" by (simp add: qs5(1) sent_mark_def)
  moreover have "length (take PROPLIMIT qs) = length b" by (simp only: qs5(1) length_map)
  ultimately show ?thesis
    using v'(1) qs5(2) timer by (intro exI [of _ v']) (simp add: b_def)
qed

section \<open>The transcripts\<close>

text \<open>
  What the side that speaks next, which has \<open>ps\<close> to offer, and the other one, which has \<open>qs\<close>, will say.  \<open>ff\<close> is whether
  the other one has just said that it has nothing.
\<close>

function dialogue :: "bool \<Rightarrow> proposal list \<Rightarrow> proposal list \<Rightarrow> u8 list \<times> u8 list" where
  "dialogue ff ps qs =
     (if ps \<noteq> [] then
        (case dialogue False qs (drop PROPLIMIT ps) of
           (hs, ms) \<Rightarrow> (batch_offer (take PROPLIMIT ps) @ concat (map frame_of (take PROPLIMIT ps)) @ ms, yes_answer (take PROPLIMIT ps) @ hs))
      else if ff then (bytes ''FQ'' @ [13], [])
      else (case dialogue True qs [] of (hs, ms) \<Rightarrow> (bytes ''FF'' @ [13] @ ms, hs)))"
  by pat_completeness auto
termination
  by (relation "measure (\<lambda>(ff, ps, qs). 2 * (length ps + length qs) + (if ff then 0 else 1))") (auto simp: PROPLIMIT_def simp flip: length_greater_0_conv)

declare dialogue.simps [simp del]

text \<open>The two claims: for the side that listens, which has \<open>qs\<close>, and for the side that speaks, which has \<open>ps\<close>.\<close>

definition listens_well :: "nat \<Rightarrow> cstr option \<Rightarrow> (cstr \<Rightarrow> u8 list) \<Rightarrow> (cstr \<Rightarrow> cstr) \<Rightarrow> u8 list \<Rightarrow> bool \<Rightarrow> proposal list \<Rightarrow> proposal list \<Rightarrow> 'd world \<Rightarrow> bool" where
  "listens_well n email M T rest ff ps qs w \<longleftrightarrow> takes n email M T w ps \<longrightarrow> inp w = fst (dialogue ff ps qs) @ rest \<longrightarrow>
     (\<forall>s dn. holds s dn qs \<longrightarrow> iprops s = [] \<longrightarrow> proposalcksum s = 0 \<longrightarrow>
       (\<exists>props w'. io_loop (inbound_step email) s w = Some (Returned (-1, props), w') \<and> ready n w' \<and>
         carries w rest (snd (dialogue ff ps qs)) (mail_of w email T ps) (mid ` set ps) (marked_files dn \<union> files_of qs) w'))"

definition speaks_well :: "nat \<Rightarrow> cstr option \<Rightarrow> (cstr \<Rightarrow> u8 list) \<Rightarrow> (cstr \<Rightarrow> cstr) \<Rightarrow> u8 list \<Rightarrow> bool \<Rightarrow> proposal list \<Rightarrow> proposal list \<Rightarrow> 'd world \<Rightarrow> bool" where
  "speaks_well n email M T rest ff ps qs w \<longleftrightarrow> takes n email M T w qs \<longrightarrow> inp w = snd (dialogue ff ps qs) @ rest \<longrightarrow>
     (\<forall>s dn line. holds s dn ps \<longrightarrow> iprops s = [] \<longrightarrow> proposalcksum s = 0 \<longrightarrow> marked_files dn = {} \<longrightarrow> strbegins line (bytes ''FF'') = ff \<longrightarrow>
       (\<exists>props w'. turn email line s w = Some (Returned (-1, props), w') \<and> ready n w' \<and>
         carries w rest (fst (dialogue ff ps qs)) (mail_of w email T qs) (mid ` set qs) (files_of ps) w'))"

lemma command_line:
  assumes "ready n w" "inp w = bytes cmd @ 13 # rest" "138 \<le> n" "cmd = ''FF'' \<or> cmd = ''FQ''"
  shows "\<exists>w'. wl2kgetline w = Some (Returned (Some (bytes cmd)), w') \<and> ready n w' \<and> carries w rest [] [] {} {} w'"
proof -
  have "\<forall>c \<in> set (bytes cmd). line_char c" "2 * length (bytes cmd) + 32 \<le> n"
    using assms(3,4) by (auto simp: bytes_def byte_of_def line_char_def)
  then show ?thesis using line_ready [OF assms(1,2)] carries_line [OF _ assms(1)] by blast
qed

text \<open>The side that listens: an offer, \<open>FF\<close> or \<open>FQ\<close>.\<close>

lemma listen_offer:
  fixes w :: "'d world"
  assumes IH: "\<And>w :: 'd world. speaks_well n email M T rest False qs (drop PROPLIMIT ps) w" and ps: "ps \<noteq> []" and n: "138 \<le> n"
  shows "listens_well n email M T rest ff ps qs w"
  unfolding listens_well_def
proof (intro impI allI)
  fix s :: parser and dn
  assume t: "takes n email M T w ps" and i: "inp w = fst (dialogue ff ps qs) @ rest" and s: "holds s dn qs" "iprops s = []" "proposalcksum s = 0"
  define b r where "b = take PROPLIMIT ps" and "r = drop PROPLIMIT ps"
  have br: "ps = b @ r" "b \<noteq> []" "length b \<le> PROPLIMIT" using ps by (simp_all add: b_def r_def PROPLIMIT_def)
  obtain hs ms where d: "dialogue False qs r = (hs, ms)" by fastforce
  have d': "dialogue ff ps qs = (batch_offer b @ concat (map frame_of b) @ ms, yes_answer b @ hs)"
    using ps d by (simp add: dialogue.simps [of ff ps] b_def r_def)
  have tb: "takes n email M T w b" using t br(1) takes_part by metis
  have "inp w = batch_offer b @ concat (map frame_of b) @ ms @ rest" using i d' by simp
  from batch_taken [OF tb n br(2,3) this s] obtain sp F w1 where w1: "io_loop (inbound_step email) s w
      = turn email F (s\<lparr>oprops := map unmark dn @ qs, sprop := sp\<rparr>) w1" "\<not> strbegins F (bytes ''FF'')" "ready n w1"
      "carries w (ms @ rest) (yes_answer b) (mail_of w email T b) (mid ` set b) (marked_files dn) w1" by blast
  have t1: "takes n email M T w1 r" "mail_of w1 email T r = mail_of w email T r" using takes_later [OF _ w1(3,4)] t br(1) by simp_all
  have i1: "inp w1 = snd (dialogue False qs r) @ rest" using w1(4) d by (simp add: carries_def)
  have h: "holds (s\<lparr>oprops := map unmark dn @ qs, sprop := sp\<rparr>) (map unmark dn) qs" using s(1) by (simp add: holds_def)
  from IH [of w1, folded r_def] t1(1) i1 h s(2,3) w1(2) obtain props w' where
      w': "turn email F (s\<lparr>oprops := map unmark dn @ qs, sprop := sp\<rparr>) w1 = Some (Returned (-1, props), w')" "ready n w'"
      "carries w1 rest hs (mail_of w1 email T r) (mid ` set r) (files_of qs) w'"
    unfolding speaks_well_def d by (fastforce simp: marked_unmark)
  have "carries w rest (snd (dialogue ff ps qs)) (mail_of w email T ps) (mid ` set ps) (marked_files dn \<union> files_of qs) w'"
    using carries_trans [OF w1(4) w'(3)] t1(2) d' br(1) by (simp add: mail_of_append image_Un)
  then show "\<exists>props w'. io_loop (inbound_step email) s w = Some (Returned (-1, props), w') \<and> ready n w' \<and>
      carries w rest (snd (dialogue ff ps qs)) (mail_of w email T ps) (mid ` set ps) (marked_files dn \<union> files_of qs) w'"
    using w1(1) w'(1,2) by auto
qed

lemma listen_FF:
  fixes w :: "'d world"
  assumes IH: "\<And>w :: 'd world. speaks_well n email M T rest True qs [] w" and n: "138 \<le> n"
  shows "listens_well n email M T rest False [] qs w"
  unfolding listens_well_def
proof (intro impI allI)
  fix s :: parser and dn
  assume t: "takes n email M T w []" and i: "inp w = fst (dialogue False [] qs) @ rest" and s: "holds s dn qs" "iprops s = []" "proposalcksum s = 0"
  obtain hs ms where d: "dialogue True qs [] = (hs, ms)" by fastforce
  have d': "dialogue False [] qs = (bytes ''FF'' @ [13] @ ms, hs)" using d by (simp add: dialogue.simps [of False "[]"])
  have r: "ready n w" using t by (simp add: takes_def)
  have i': "inp w = bytes ''FF'' @ 13 # (ms @ rest)" using i d' by simp
  obtain w1 where w1: "wl2kgetline w = Some (Returned (Some (bytes ''FF'')), w1)" "ready n w1" "carries w (ms @ rest) [] [] {} {} w1"
    using command_line [OF r i' n] by blast
  obtain w2 where w2: "dodelete (oprops s) (nprop s) w1 = Some (Returned (map unmark dn @ qs), w2)" "ready n w2"
      "carries w1 (inp w1) [] [] {} (marked_files dn) w2"
    using carries_delete [OF w1(2)] s(1) by (auto simp: holds_def)
  have c2: "carries w (ms @ rest) [] [] {} (marked_files dn) w2" using carries_trans [OF w1(3) w2(3)] w1(3) by (simp add: carries_def)
  let ?s = "s\<lparr>oprops := map unmark dn @ qs\<rparr>"
  have "inbound_step email s w = outbound_turn (bytes ''FF'') ?s w2"
    using w1(1) w2(1) by (simp add: inbound_step_def andthen_def) (simp add: bytes_def byte_of_def)
  note go = io_loop_turn [OF this]
  have t2: "takes n email M T w2 []" using takes_same(1) [OF t w2(2)] c2 by simp
  have i2: "inp w2 = snd (dialogue True qs []) @ rest" using c2 d by (simp add: carries_def)
  have h: "holds ?s (map unmark dn) qs" using s(1) by (simp add: holds_def)
  have ff: "strbegins (bytes ''FF'') (bytes ''FF'')" by (simp add: bytes_def)
  from IH [of w2] t2 i2 h s(2,3) ff obtain props w' where
      w': "turn email (bytes ''FF'') ?s w2 = Some (Returned (-1, props), w')" "ready n w'" "carries w2 rest hs [] {} (files_of qs) w'"
    unfolding speaks_well_def d by (fastforce simp: marked_unmark)
  then show "\<exists>props w'. io_loop (inbound_step email) s w = Some (Returned (-1, props), w') \<and> ready n w' \<and>
      carries w rest (snd (dialogue False [] qs)) (mail_of w email T []) (mid ` set []) (marked_files dn \<union> files_of qs) w'"
    using go carries_trans [OF c2 w'(3)] d' by auto
qed

lemma listen_FQ:
  assumes n: "138 \<le> n"
  shows "listens_well n email M T rest True [] [] w"
  unfolding listens_well_def
proof (intro impI allI)
  fix s :: parser and dn
  assume t: "takes n email M T w []" and i: "inp w = fst (dialogue True [] []) @ rest" and s: "holds s dn []" "iprops s = []" "proposalcksum s = 0"
  have r: "ready n w" using t by (simp add: takes_def)
  have d: "dialogue True [] [] = (bytes ''FQ'' @ [13], [])" by (simp add: dialogue.simps)
  have i': "inp w = bytes ''FQ'' @ 13 # rest" using i d by simp
  obtain w1 where w1: "wl2kgetline w = Some (Returned (Some (bytes ''FQ'')), w1)" "ready n w1" "carries w rest [] [] {} {} w1"
    using command_line [OF r i' n] by blast
  obtain w2 where w2: "dodelete (oprops s) (nprop s) w1 = Some (Returned (map unmark dn), w2)" "ready n w2"
      "carries w1 (inp w1) [] [] {} (marked_files dn) w2"
    using carries_delete [OF w1(2), of dn "[]"] s(1) by (auto simp: holds_def)
  have "inbound_step email s w = Some (Returned (Inr (-1, map unmark dn)), w2)"
    using w1(1) w2(1) by (simp add: inbound_step_def andthen_def ret_def) (simp add: bytes_def byte_of_def)
  note go = io_loop_done [of "inbound_step email", OF this]
  have "carries w rest [] [] {} (marked_files dn) w2" using carries_trans [OF w1(3) w2(3)] w1(3) by (simp add: carries_def)
  then show "\<exists>props w'. io_loop (inbound_step email) s w = Some (Returned (-1, props), w') \<and> ready n w' \<and>
      carries w rest (snd (dialogue True [] [])) (mail_of w email T []) (mid ` set []) (marked_files dn \<union> files_of []) w'"
    using go w2(2) d by (auto simp: files_of_def)
qed

text \<open>The side that speaks.\<close>

lemma speak_offer:
  fixes w :: "'d world"
  assumes IH: "\<And>w :: 'd world. listens_well n email M T rest False qs (drop PROPLIMIT ps) w" and ps: "ps \<noteq> []" "\<forall>p \<in> set ps. outgoing N p" and n: "138 \<le> n"
  shows "speaks_well n email M T rest ff ps qs w"
  unfolding speaks_well_def
proof (intro impI allI)
  fix s :: parser and dn line
  assume t: "takes n email M T w qs" and i: "inp w = snd (dialogue ff ps qs) @ rest" and s: "holds s dn ps" "iprops s = []" "proposalcksum s = 0"
    and dn: "marked_files dn = {}"
  define b r where "b = take PROPLIMIT ps" and "r = drop PROPLIMIT ps"
  have br: "ps = b @ r" by (simp add: b_def r_def)
  obtain hs ms where d: "dialogue False qs r = (hs, ms)" by fastforce
  have d': "dialogue ff ps qs = (batch_offer b @ concat (map frame_of b) @ ms, yes_answer b @ hs)"
    using ps d by (simp add: dialogue.simps [of ff ps] b_def r_def)
  have r: "ready n w" using t by (simp add: takes_def)
  have i': "inp w = yes_answer (take PROPLIMIT ps) @ hs @ rest" using i d' by (simp add: b_def)
  obtain w1 where w1: "b2outboundproposal line (dn @ ps) (length dn) w = Some (Returned (0, dn @ map sent_mark b @ r, length dn + length b), w1)"
      "ready n w1" "carries w (hs @ rest) (batch_offer b @ concat (map frame_of b)) [] {} {} w1"
    using batch_sent [OF r n ps i', of line dn] by (auto simp: b_def r_def)
  let ?d = "dn @ map sent_mark b"
  let ?s = "s\<lparr>oprops := ?d @ r, nprop := length ?d\<rparr>"
  have go: "turn email line s w = io_loop (inbound_step email) ?s w1"
    using w1(1) s(1) by (simp add: turn_def outbound_turn_def andthen_def ret_def holds_def)
  have t1: "takes n email M T w1 qs" "mail_of w1 email T qs = mail_of w email T qs" using takes_same [OF t w1(2)] w1(3) by simp_all
  have i1: "inp w1 = fst (dialogue False qs r) @ rest" using w1(3) d by (simp add: carries_def)
  have h: "holds ?s ?d r" by (simp add: holds_def)
  from IH [of w1, folded r_def] t1(1) i1 h s(2,3) obtain props w' where
      w': "io_loop (inbound_step email) ?s w1 = Some (Returned (-1, props), w')" "ready n w'"
      "carries w1 rest ms (mail_of w1 email T qs) (mid ` set qs) (marked_files ?d \<union> files_of r) w'"
    unfolding listens_well_def d by fastforce
  have "marked_files ?d \<union> files_of r = files_of ps"
    using dn by (auto simp: marked_files_append marked_sent files_of_def br)
  then show "\<exists>props w'. turn email line s w = Some (Returned (-1, props), w') \<and> ready n w' \<and>
      carries w rest (fst (dialogue ff ps qs)) (mail_of w email T qs) (mid ` set qs) (files_of ps) w'"
    using go w'(1,2) carries_trans [OF w1(3) w'(3)] t1(2) d' by auto
qed

lemma speak_FF:
  fixes w :: "'d world"
  assumes IH: "\<And>w :: 'd world. listens_well n email M T rest True qs [] w"
  shows "speaks_well n email M T rest False [] qs w"
  unfolding speaks_well_def
proof (intro impI allI)
  fix s :: parser and dn line
  assume t: "takes n email M T w qs" and i: "inp w = snd (dialogue False [] qs) @ rest" and s: "holds s dn []" "iprops s = []" "proposalcksum s = 0"
    and dn: "marked_files dn = {}" and line: "strbegins line (bytes ''FF'') = False"
  obtain hs ms where d: "dialogue True qs [] = (hs, ms)" by fastforce
  have d': "dialogue False [] qs = (bytes ''FF'' @ [13] @ ms, hs)" using d by (simp add: dialogue.simps [of False "[]"])
  have r: "ready n w" using t by (simp add: takes_def)
  obtain w1 where w1: "send (bytes ''FF'' @ [13]) w = Some (Returned (), w1)" "ready n w1" "carries w (inp w) (bytes ''FF'' @ [13]) [] {} {} w1"
    using carries_send [OF r] by blast
  have "s\<lparr>oprops := dn, nprop := length dn\<rparr> = s" using s(1) by (cases s) (simp add: holds_def)
  moreover have "turn email line s w = io_loop (inbound_step email) (s\<lparr>oprops := dn, nprop := length dn\<rparr>) w1"
    using w1(1) s(1) line by (simp add: turn_def outbound_turn_def b2outboundproposal_def andthen_def ret_def holds_def)
  ultimately have go: "turn email line s w = io_loop (inbound_step email) s w1" by simp
  have t1: "takes n email M T w1 qs" "mail_of w1 email T qs = mail_of w email T qs" using takes_same [OF t w1(2)] w1(3) by simp_all
  have i1: "inp w1 = fst (dialogue True qs []) @ rest" using w1(3) i d d' by (simp add: carries_def)
  from IH [of w1] t1(1) i1 s obtain props w' where
      w': "io_loop (inbound_step email) s w1 = Some (Returned (-1, props), w')" "ready n w'"
      "carries w1 rest ms (mail_of w1 email T qs) (mid ` set qs) (marked_files dn \<union> files_of []) w'"
    unfolding listens_well_def d by fastforce
  then show "\<exists>props w'. turn email line s w = Some (Returned (-1, props), w') \<and> ready n w' \<and>
      carries w rest (fst (dialogue False [] qs)) (mail_of w email T qs) (mid ` set qs) (files_of []) w'"
    using go carries_trans [OF w1(3) w'(3)] t1(2) d' dn by auto
qed

lemma speak_FQ: "speaks_well n email M T rest True [] [] w"
  unfolding speaks_well_def
proof (intro impI allI)
  fix s :: parser and dn line
  assume t: "takes n email M T w []" and i: "inp w = snd (dialogue True [] []) @ rest" and s: "holds s dn []" "iprops s = []" "proposalcksum s = 0"
    and line: "strbegins line (bytes ''FF'') = True"
  have d: "dialogue True [] [] = (bytes ''FQ'' @ [13], [])" by (simp add: dialogue.simps)
  have r: "ready n w" using t by (simp add: takes_def)
  obtain w1 where w1: "send (bytes ''FQ'' @ [13]) w = Some (Returned (), w1)" "ready n w1" "carries w (inp w) (bytes ''FQ'' @ [13]) [] {} {} w1"
    using carries_send [OF r] by blast
  have "turn email line s w = Some (Returned (-1, dn), w1)"
    using w1(1) s(1) line by (simp add: turn_def outbound_turn_def b2outboundproposal_def andthen_def ret_def holds_def)
  then show "\<exists>props w'. turn email line s w = Some (Returned (-1, props), w') \<and> ready n w' \<and>
      carries w rest (fst (dialogue True [] [])) (mail_of w email T []) (mid ` set []) (files_of []) w'"
    using w1(2,3) i d by (auto simp: files_of_def)
qed

lemma dialogue_held:
  fixes M N :: "cstr \<Rightarrow> u8 list" and w :: "'d world"
  assumes n: "138 \<le> n"
  shows "(ff \<longrightarrow> qs = []) \<Longrightarrow> (\<forall>p \<in> set qs. outgoing N p) \<Longrightarrow> listens_well n email M T rest ff ps qs w"
    and "(ff \<longrightarrow> qs = []) \<Longrightarrow> (\<forall>p \<in> set ps. outgoing N p) \<Longrightarrow> speaks_well n email M T rest ff ps qs w"
proof -
  have "(ff \<longrightarrow> qs = []) \<longrightarrow> ((\<forall>p \<in> set qs. outgoing N p) \<longrightarrow> (\<forall>w :: 'd world. listens_well n email M T rest ff ps qs w)) \<and>
      ((\<forall>p \<in> set ps. outgoing N p) \<longrightarrow> (\<forall>w :: 'd world. speaks_well n email M T rest ff ps qs w))"
  proof (induction ff ps qs rule: dialogue.induct)
    case (1 ff ps qs)
    show ?case
    proof (cases "ps = []")
      case False
      have "\<forall>p \<in> set (drop PROPLIMIT ps). outgoing N p" if "\<forall>p \<in> set ps. outgoing N p" using that in_set_dropD by fast
      then show ?thesis using "1.IH"(1) [OF False] listen_offer [OF _ False n] speak_offer [OF _ False _ n] by blast
    next
      case True
      show ?thesis
      proof (cases ff)
        case ff: True
        then show ?thesis using True listen_FQ [OF n] speak_FQ by auto
      next
        case False
        then have IH: "listens_well n email M T rest True qs [] w" "(\<forall>p \<in> set qs. outgoing N p) \<longrightarrow> speaks_well n email M T rest True qs [] w"
          for w :: "'d world" using "1.IH"(2) True by auto
        have "listens_well n email M T rest False [] qs w" if "\<forall>p \<in> set qs. outgoing N p" for w :: "'d world"
          by (rule listen_FF [OF _ n]) (use IH(2) that in blast)
        moreover have "speaks_well n email M T rest False [] qs w" for w :: "'d world" by (rule speak_FF) (rule IH(1))
        ultimately show ?thesis using True False by simp
      qed
    qed
  qed
  then show "(ff \<longrightarrow> qs = []) \<Longrightarrow> (\<forall>p \<in> set qs. outgoing N p) \<Longrightarrow> listens_well n email M T rest ff ps qs w"
    and "(ff \<longrightarrow> qs = []) \<Longrightarrow> (\<forall>p \<in> set ps. outgoing N p) \<Longrightarrow> speaks_well n email M T rest ff ps qs w" by blast+
qed

section \<open>The whole session\<close>

text \<open>
  The session of the station that is called, with the proposals \<open>qs\<close>, and of the one that calls, with the proposals \<open>ps\<close>:
  what each reads is what the other writes.
\<close>

lemma listening_session:
  assumes "takes n email M T w ps" and "\<forall>q \<in> set todo. outgoing N q" and "138 \<le> n" and "inp w = fst (dialogue ff ps todo) @ rest"
    and "ff \<longrightarrow> todo = []"
  shows "\<exists>props w'. inbound_parser (dn @ todo) (length dn) email w = Some (Returned (-1, props), w') \<and> ready n w' \<and>
    carries w rest (snd (dialogue ff ps todo)) (mail_of w email T ps) (mid ` set ps) (marked_files dn \<union> files_of todo) w'"
proof -
  let ?s = "\<lparr>oprops = dn @ todo, nprop = length dn, iprops = [], proposalcksum = 0, sprop = static_proposal\<rparr>"
  have "holds ?s dn todo" by (simp add: holds_def)
  moreover have "listens_well n email M T rest ff ps todo w" by (rule dialogue_held(1) [OF assms(3,5,2)])
  ultimately show ?thesis
    using assms(1,4) unfolding listens_well_def inbound_parser_def by fastforce
qed

lemma called_session:
  assumes "takes n email M T w ps" and "\<forall>q \<in> set qs. outgoing N q" and "138 \<le> n" and "inp w = fst (dialogue False ps qs) @ rest"
  shows "\<exists>props w'. inbound_parser qs 0 email w = Some (Returned (-1, props), w') \<and> ready n w' \<and>
    carries w rest (snd (dialogue False ps qs)) (mail_of w email T ps) (mid ` set ps) (files_of qs) w'"
  using listening_session [OF assms, of "[]"] by (simp add: marked_files_def)

lemma carries_alarm: "carries u r bs ms ids S v \<Longrightarrow> carries u r bs ms ids S (v\<lparr>alarm := t\<rparr>)"
proof -
  have "known (v\<lparr>alarm := t\<rparr>) = known v" "env (v\<lparr>alarm := t\<rparr>) = env v" by (simp_all add: known_def env_def)
  then show "carries u r bs ms ids S v \<Longrightarrow> carries u r bs ms ids S (v\<lparr>alarm := t\<rparr>)" by (simp add: carries_def)
qed

lemma ready_alarm: "ready n v \<Longrightarrow> ready n (v\<lparr>alarm := t\<rparr>)"
  by (simp add: ready_def line_ok_def)

lemma calling_session:
  assumes "takes n email M T v qs" and "\<forall>p \<in> set ps. outgoing N p" and "138 \<le> n" and "inp v = snd (dialogue False ps qs) @ rest"
    and "ps = [] \<Longrightarrow> \<not> strbegins line (bytes ''FF'')"
  shows "\<exists>props v1. b2outboundproposal line ps 0 v = Some (Returned (0, props, min PROPLIMIT (length ps)), v1) \<and>
    (\<forall>t. \<exists>props' v'. inbound_parser props (min PROPLIMIT (length ps)) email (v1\<lparr>alarm := t\<rparr>) = Some (Returned (-1, props'), v') \<and> ready n v' \<and>
      carries v rest (fst (dialogue False ps qs)) (mail_of v email T qs) (mid ` set qs) (files_of ps) v')"
proof -
  have r: "ready n v" using assms(1) by (simp add: takes_def)
  define ff where "ff = (ps = [])"
  define b todo where "b = take PROPLIMIT ps" and "todo = drop PROPLIMIT ps"
  have ps: "ps = b @ todo" "length b = min PROPLIMIT (length ps)" by (simp_all add: b_def todo_def)
  obtain ms hs where d: "dialogue ff qs todo = (hs, ms)" by fastforce
  define said heard where "said = (if ff then bytes ''FF'' @ [13] else batch_offer b @ concat (map frame_of b))"
    and "heard = (if ff then [] else yes_answer b)"
  have "dialogue False ps qs = (said @ ms, heard @ hs)"
    using d by (cases "ps = []") (simp_all add: dialogue.simps [of False ps] dialogue.simps [of False "[]"] ff_def b_def todo_def said_def heard_def)
  note d' = this
  obtain v1 where v1: "b2outboundproposal line ps 0 v = Some (Returned (0, map sent_mark b @ todo, length b), v1)" "ready n v1"
      "carries v (hs @ rest) said [] {} {} v1"
  proof (cases "ps = []")
    case True
    obtain v1 where "send (bytes ''FF'' @ [13]) v = Some (Returned (), v1)" "ready n v1" "carries v (inp v) (bytes ''FF'' @ [13]) [] {} {} v1"
      using carries_send [OF r] by blast
    then show thesis
      using that [of v1] True assms(4,5) d' by (simp add: b2outboundproposal_def andthen_def ret_def b_def todo_def said_def heard_def ff_def)
  next
    case False
    have "inp v = yes_answer (take PROPLIMIT ps) @ hs @ rest" using assms(4) d' False by (simp add: heard_def ff_def b_def)
    from batch_sent [OF r assms(3) False assms(2) this, of line "[]"] show thesis
      using that False by (auto simp: b_def todo_def said_def ff_def)
  qed
  have out: "\<forall>p \<in> set todo. outgoing N p" using assms(2) ps(1) by simp
  have S: "marked_files (map sent_mark b) \<union> files_of todo = files_of ps" by (subst ps(1)) (auto simp: marked_sent files_of_def)
  have "\<exists>props' v'. inbound_parser (map sent_mark b @ todo) (length b) email (v1\<lparr>alarm := t\<rparr>) = Some (Returned (-1, props'), v') \<and> ready n v' \<and>
      carries v rest (fst (dialogue False ps qs)) (mail_of v email T qs) (mid ` set qs) (files_of ps) v'" for t
  proof -
    note r1 = ready_alarm [OF v1(2), of t] and c1 = carries_alarm [OF v1(3), of t]
    note t1 = takes_same [OF assms(1) r1 c1]
    have i1: "inp (v1\<lparr>alarm := t\<rparr>) = fst (dialogue ff qs todo) @ rest" using c1 d by (simp add: carries_def)
    have "ff \<longrightarrow> todo = []" by (simp add: ff_def todo_def)
    from listening_session [OF t1(1) out assms(3) i1 this, of "map sent_mark b"] obtain props' v' where
      v': "inbound_parser (map sent_mark b @ todo) (length b) email (v1\<lparr>alarm := t\<rparr>) = Some (Returned (-1, props'), v')" "ready n v'"
        "carries (v1\<lparr>alarm := t\<rparr>) rest ms (mail_of v email T qs) (mid ` set qs) (files_of ps) v'"
      by (auto simp: S d t1(2))
    then show ?thesis using carries_trans [OF c1 v'(3)] d' by auto
  qed
  then show ?thesis using v1(1) ps(2) by auto
qed

end
