(* ===== verification/Outbox.thy ===== *)
theory Outbox
  imports Dialogue
begin

text \<open>
  From the outbox to the proposals: \<open>prepare_outbound_proposals\<close> makes of every file of the outbox a proposal that can
  be offered, and leaves the files alone.
\<close>

section \<open>Encoding keeps the text\<close>

definition same_text :: "buffer \<Rightarrow> buffer \<Rightarrow> bool" where
  "same_text b b' \<longleftrightarrow> contents b' = contents b \<and> dlen b' = dlen b \<and> (buffer_inv b \<longrightarrow> buffer_inv b')"

lemma same_text_refl [simp]: "same_text b b" and same_text_rewind: "same_text (buffer_rewind b) b' = same_text b b'"
  by (simp_all add: same_text_def) (simp add: buffer_rewind_def)

lemma same_text_trans: "same_text a b \<Longrightarrow> same_text b c \<Longrightarrow> same_text a c"
  by (simp add: same_text_def)

lemma iterchar_same: "buffer_iterchar b = Some (c, b') \<Longrightarrow> same_text b b'"
  using buffer_iterchar_contents [of b c b']
  by (auto simp: same_text_def buffer_iterchar_def buffer_inv_def split: if_splits bind_splits)

lemma fill_same:
  assumes "loop (fill_step r) (n, tb, b) = Some (n', tb', b')"
  shows "same_text b b'"
proof -
  have "case (n', tb', b') of (_, _, x) \<Rightarrow> same_text b x"
  proof (rule loop_partial [where I = "\<lambda>(_, _, x). same_text b x", OF assms])
    fix s s' assume "case s of (_, _, x) \<Rightarrow> same_text b x" "fill_step r s = Some (Inl s')"
    then show "case s' of (_, _, x) \<Rightarrow> same_text b x"
      by (auto simp: fill_step_def split: if_splits bind_splits option.splits dest!: iterchar_same simp: same_text_def)
  next
    fix s s' assume "case s of (_, _, x) \<Rightarrow> same_text b x" "fill_step r s = Some (Inr s')"
    then show "case s' of (_, _, x) \<Rightarrow> same_text b x"
      by (auto simp: fill_step_def split: if_splits bind_splits option.splits dest!: iterchar_same simp: same_text_def)
  qed simp
  then show ?thesis by simp
qed

lemma feed_same:
  assumes "loop (feed_step l) (i, s, r, z, b) = Some (i', s', r', z', b')"
  shows "same_text b b'"
proof -
  have "case (i', s', r', z', b') of (_, _, _, _, x) \<Rightarrow> same_text b x"
  proof (rule loop_partial [where I = "\<lambda>(_, _, _, _, x). same_text b x", OF assms])
    fix s s' assume "case s of (_, _, _, _, x) \<Rightarrow> same_text b x" "feed_step l s = Some (Inl s')"
    then show "case s' of (_, _, _, _, x) \<Rightarrow> same_text b x"
      by (auto simp: feed_step_def Let_def split: if_splits bind_splits option.splits dest!: iterchar_same simp: same_text_def)
  next
    fix s s' assume "case s of (_, _, _, _, x) \<Rightarrow> same_text b x" "feed_step l s = Some (Inr s')"
    then show "case s' of (_, _, _, _, x) \<Rightarrow> same_text b x"
      by (auto simp: feed_step_def Let_def split: if_splits bind_splits option.splits dest!: iterchar_same simp: same_text_def)
  qed simp
  then show ?thesis by simp
qed

lemma encode_same:
  assumes "loop (encode_step al) (s, r, l, g, b, out) = Some (ok, g', b', out')"
  shows "same_text b b'"
proof -
  have "case (ok, g', b', out') of (_, _, x, _) \<Rightarrow> same_text b x"
  proof (rule loop_partial [where I = "\<lambda>(_, _, _, _, x, _). same_text b x", OF assms])
    fix s s' assume "case s of (_, _, _, _, x, _) \<Rightarrow> same_text b x" "encode_step al s = Some (Inl s')"
    then show "case s' of (_, _, _, _, x, _) \<Rightarrow> same_text b x"
      by (auto simp: encode_step_def Let_def split: if_splits bind_splits prod.splits dest!: feed_same simp: same_text_def)
  next
    fix s s' assume "case s of (_, _, _, _, x, _) \<Rightarrow> same_text b x" "encode_step al s = Some (Inr s')"
    then show "case s' of (_, _, x, _) \<Rightarrow> same_text b x"
      by (auto simp: encode_step_def Let_def split: if_splits bind_splits prod.splits dest!: feed_same simp: same_text_def)
  qed simp
  then show ?thesis by simp
qed

lemma Encode_same:
  assumes "Encode al b g = Some (out, g', b')"
  shows "same_text b b'"
  using assms
  by (auto simp: Encode_def Let_def split: option.splits prod.splits if_splits bind_splits
      dest!: fill_same encode_same simp: same_text_rewind intro: same_text_trans)

lemma version_1_Encode_same:
  "version_1_Encode al b g = Some (out, g', b') \<Longrightarrow> same_text b b'"
  by (auto simp: version_1_Encode_def split: option.splits prod.splits if_splits bind_splits dest!: Encode_same)

section \<open>The title\<close>

lemma after_line_shorter: "unread b \<noteq> [] \<Longrightarrow> length (after_line t (unread b)) < length (unread b)"
  by (cases "unread b") (auto simp: after_line_def line_of_Cons)

lemma header_value_chars: "0 \<notin> set line \<Longrightarrow> 0 \<notin> set (header_value line n)" "length (header_value line n) \<le> 80"
proof -
  assume "0 \<notin> set line"
  moreover have "set (strzapcc line) \<subseteq> set line" by (auto simp: strzapcc_line dest: set_takeWhileD)
  ultimately show "0 \<notin> set (header_value line n)"
    unfolding header_value_def by (meson in_set_dropD in_set_takeD set_dropWhileD subsetD)
qed (simp add: header_value_def)

lemma title_found:
  assumes "buffer_inv b" "plenty al (2 * dlen b + 128)"
  shows "\<exists>t b'. loop (title_step al) (None, b) = Some (t, b') \<and> (case t of None \<Rightarrow> True | Some t \<Rightarrow> 0 \<notin> set t)"
proof -
  have "\<exists>r. loop (title_step al) (None, b) = Some r \<and> (case fst r of None \<Rightarrow> True | Some t \<Rightarrow> 0 \<notin> set t)"
  proof (rule loop_total [where m = "\<lambda>(_, x). length (unread x)" and
        I = "\<lambda>(t, x). buffer_inv x \<and> dlen x = dlen b \<and> (case t of None \<Rightarrow> True | Some t \<Rightarrow> 0 \<notin> set t)"])
    show "case (None :: cstr option, b) of (t, x) \<Rightarrow> buffer_inv x \<and> dlen x = dlen b \<and> (case t of None \<Rightarrow> True | Some t \<Rightarrow> 0 \<notin> set t)"
      using assms(1) by simp
    fix s :: "cstr option \<times> buffer"
    assume "case s of (t, x) \<Rightarrow> buffer_inv x \<and> dlen x = dlen b \<and> (case t of None \<Rightarrow> True | Some t \<Rightarrow> 0 \<notin> set t)"
    then obtain t x where s: "s = (t, x)" "buffer_inv x" "dlen x = dlen b" "case t of None \<Rightarrow> True | Some t \<Rightarrow> 0 \<notin> set t" by (cases s) auto
    show "(\<exists>s'. title_step al s = Some (Inl s') \<and>
            (case s' of (t, x) \<Rightarrow> buffer_inv x \<and> dlen x = dlen b \<and> (case t of None \<Rightarrow> True | Some t \<Rightarrow> 0 \<notin> set t)) \<and>
            (case s' of (_, x) \<Rightarrow> length (unread x)) < (case s of (_, x) \<Rightarrow> length (unread x))) \<or>
          (\<exists>r. title_step al s = Some (Inr r) \<and> (case fst r of None \<Rightarrow> True | Some t \<Rightarrow> 0 \<notin> set t))"
    proof (cases "unread x = []")
      case True
      then have "buffer_getline al x 10 = Some (None, x)" using buffer_getline_eof [OF s(2)] by blast
      then show ?thesis using s by (simp add: title_step_def)
    next
      case False
      have "length (unread x) \<le> dlen b" using s(2,3) length_contents [of x] by (simp add: unread_def)
      then have "plenty al (32 + 2 * length (unread x))" by (intro plenty_le [OF assms(2)]) simp
      then obtain x' where x': "buffer_getline al x 10 = Some (Some (cut_nul (line_of 10 (unread x))), x')" "buffer_inv x'"
          "unread x' = after_line 10 (unread x)" "contents x' = contents x"
        using buffer_getline_line [OF s(2) False] by blast
      let ?l = "cut_nul (line_of 10 (unread x))"
      have nz: "0 \<notin> set ?l" by (auto simp: cut_nul_def dest: set_takeWhileD)
      have "dlen x' = dlen x" using x'(4) length_contents [OF x'(2)] length_contents [OF s(2)] by simp
      moreover have "granted al (length (header_value ?l 8) + 1)"
        by (rule plenty_granted [OF assms(2)]) (use header_value_chars(2) [of ?l 8] in simp_all)
      ultimately show ?thesis
        using x' s header_value_chars(1) [OF nz, of 8] after_line_shorter [OF False, of 10]
        by (intro disjI1) (simp add: title_step_def strdup_def split: option.splits)
    qed
  qed
  then show ?thesis by auto
qed

section \<open>The proposals of the outbox\<close>

lemma packs_length:
  assumes "packs d m" "length m \<le> 3867"
  shows "6 \<le> length d" "length d \<le> 4 * length m + 6"
proof -
  obtain h bytes where p: "d = crc_low (crc_bytes 0 bytes) # crc_high (crc_bytes 0 bytes) # bytes" "StartHuff static_huff = Some h"
      "compressed h m bytes" using assms(1) by (auto simp: packs_def)
  have h: "huff_inv h" "freq h ! HR = 314"
    using StartHuff_inv [of static_huff] p(2) static_huff_shape by (auto simp: sizes)
  show "length d \<le> 4 * length m + 6" using compressed_size [OF p(3) h assms(2)] p(1) by simp
  have "4 \<le> length bytes" using p(3) by (auto simp: compressed_def length_header)
  then show "6 \<le> length d" using p(1) by simp
qed

text \<open>A file of the outbox as \<open>mail.wl2k\<close> leaves it: a short name of plain characters, and a message the coder can take.\<close>

definition mail_file :: "cstr \<times> u8 list option \<Rightarrow> bool" where
  "mail_file e \<longleftrightarrow> length (fst e) \<le> 12 \<and> (\<forall>c \<in> set (fst e). line_char c \<and> c \<noteq> 32) \<and>
     (\<exists>m. snd e = Some m \<and> length m \<le> 3867)"

lemma shorter_line: "m \<noteq> [] \<Longrightarrow> length (after_line 10 m) < length m"
  by (cases m) (auto simp: after_line_def line_of_Cons)

lemma strchr_length: "strchr s c = Some p \<Longrightarrow> length p \<le> length s"
  using length_dropWhile_le [of "\<lambda>x. x \<noteq> c" s] by (cases "dropWhile (\<lambda>x. x \<noteq> c) s") (auto simp: strchr_def)

text \<open>A message that goes to \<open>call\<close> without a server: none of its lines makes \<open>p2p_qualify\<close> refuse it.\<close>

function qualifies :: "cstr \<Rightarrow> u8 list \<Rightarrow> bool" where
  "qualifies call m = (if m = [] then True else qualify_line (\<lambda>_. True) call (cut_nul (line_of 10 m)) = Some None \<and> qualifies call (after_line 10 m))"
  by pat_completeness auto
termination
  by (relation "measure (\<lambda>(_, m). length m)") (auto intro: shorter_line)

declare qualifies.simps [simp del]

lemma qualify_line_plenty: "plenty al 128 \<Longrightarrow> qualify_line al call line = qualify_line (\<lambda>_. True) call line"
proof -
  assume al: "plenty al 128"
  have "granted al (length (tl sp) + 1)" if "strchr (header_value line 3) 58 = Some sp" for sp
  proof -
    have "length sp \<le> 80" using strchr_length [OF that] header_value_chars(2) [of line 3] by simp
    then show ?thesis by (intro plenty_granted [OF al]) simp_all
  qed
  then show ?thesis by (simp add: qualify_line_def granted_def split: option.split)
qed

lemma qualify_accepts:
  assumes "buffer_inv b" "plenty al (2 * dlen b + 128)" "qualifies call (unread b)"
  shows "\<exists>b'. p2p_qualify al call b = Some (True, b') \<and> buffer_inv b' \<and> contents b' = contents b"
proof -
  have al: "qualify_line al call line = qualify_line (\<lambda>_. True) call line" for line
    by (rule qualify_line_plenty, rule plenty_le [OF assms(2)]) simp
  have "\<exists>r. loop (qualify_step al call) b = Some r \<and> fst r \<and> buffer_inv (snd r) \<and> contents (snd r) = contents b"
  proof (rule loop_total [where m = "\<lambda>x. length (unread x)" and
        I = "\<lambda>x. buffer_inv x \<and> contents x = contents b \<and> qualifies call (unread x)"])
    show "buffer_inv b \<and> contents b = contents b \<and> qualifies call (unread b)" using assms by simp
    fix x :: buffer
    assume x: "buffer_inv x \<and> contents x = contents b \<and> qualifies call (unread x)"
    show "(\<exists>x'. qualify_step al call x = Some (Inl x') \<and> (buffer_inv x' \<and> contents x' = contents b \<and> qualifies call (unread x')) \<and>
            length (unread x') < length (unread x)) \<or>
          (\<exists>r. qualify_step al call x = Some (Inr r) \<and> fst r \<and> buffer_inv (snd r) \<and> contents (snd r) = contents b)"
    proof (cases "unread x = []")
      case True
      then have "buffer_getline al x 10 = Some (None, x)" using buffer_getline_eof x by blast
      then show ?thesis using x by (simp add: qualify_step_def)
    next
      case False
      have "length (unread x) \<le> dlen b"
        using x length_contents [of x] length_contents [OF assms(1)] by (simp add: unread_def)
      then have "plenty al (32 + 2 * length (unread x))" by (intro plenty_le [OF assms(2)]) simp
      then obtain x' where x': "buffer_getline al x 10 = Some (Some (cut_nul (line_of 10 (unread x))), x')" "buffer_inv x'"
          "unread x' = after_line 10 (unread x)" "contents x' = contents x"
        using buffer_getline_line [OF _ False] x by blast
      then show ?thesis
        using x al after_line_shorter [OF False, of 10] False qualifies.simps [of call "unread x"] by (intro disjI1) (simp add: qualify_step_def)
    qed
  qed
  then show ?thesis by (auto simp: p2p_qualify_def)
qed

text \<open>A message that does not go to \<open>call\<close> is refused at one of its lines.\<close>

lemma qualify_line_cases: "qualify_line (\<lambda>_. True) call line = Some None \<or> qualify_line (\<lambda>_. True) call line = Some (Some False)"
proof -
  have "granted (\<lambda>_. True) (length (tl sp) + 1)" if "strchr (header_value line 3) 58 = Some sp" for sp
    using strchr_length [OF that] header_value_chars(2) [of line 3] by (simp add: granted_def)
  then show ?thesis by (auto simp: qualify_line_def Let_def split: option.split)
qed

lemma qualify_refuses:
  assumes "buffer_inv b" "plenty al (2 * dlen b + 128)" "\<not> qualifies call (unread b)"
  shows "\<exists>b'. p2p_qualify al call b = Some (False, b')"
proof -
  have al: "qualify_line al call line = qualify_line (\<lambda>_. True) call line" for line
    by (rule qualify_line_plenty, rule plenty_le [OF assms(2)]) simp
  have "\<exists>r. loop (qualify_step al call) b = Some r \<and> \<not> fst r"
  proof (rule loop_total [where m = "\<lambda>x. length (unread x)" and
        I = "\<lambda>x. buffer_inv x \<and> contents x = contents b \<and> \<not> qualifies call (unread x)"])
    show "buffer_inv b \<and> contents b = contents b \<and> \<not> qualifies call (unread b)" using assms by simp
    fix x :: buffer
    assume x: "buffer_inv x \<and> contents x = contents b \<and> \<not> qualifies call (unread x)"
    have more: "unread x \<noteq> []" using x by (metis qualifies.simps)
    have "length (unread x) \<le> dlen b"
      using x length_contents [of x] length_contents [OF assms(1)] by (simp add: unread_def)
    then have "plenty al (32 + 2 * length (unread x))" by (intro plenty_le [OF assms(2)]) simp
    then obtain x' where x': "buffer_getline al x 10 = Some (Some (cut_nul (line_of 10 (unread x))), x')" "buffer_inv x'"
        "unread x' = after_line 10 (unread x)" "contents x' = contents x"
      using buffer_getline_line [OF _ more] x by blast
    consider "qualify_line (\<lambda>_. True) call (cut_nul (line_of 10 (unread x))) = Some None"
      | "qualify_line (\<lambda>_. True) call (cut_nul (line_of 10 (unread x))) = Some (Some False)"
      using qualify_line_cases by blast
    then show "(\<exists>x'. qualify_step al call x = Some (Inl x') \<and> (buffer_inv x' \<and> contents x' = contents b \<and> \<not> qualifies call (unread x')) \<and>
            length (unread x') < length (unread x)) \<or>
          (\<exists>r. qualify_step al call x = Some (Inr r) \<and> \<not> fst r)"
    proof cases
      case 1
      then show ?thesis
        using x x' al after_line_shorter [OF more, of 10] more qualifies.simps [of call "unread x"] by (intro disjI1) (simp add: qualify_step_def)
    next
      case 2
      then show ?thesis using x' al by (intro disjI2) (simp add: qualify_step_def)
    qed
  qed
  then show ?thesis by (auto simp: p2p_qualify_def)
qed

lemma prepare_proposal_outgoing:
  fixes v :: "'d world"
  assumes v: "codec_shape (tabs v)" "plenty (mem v) 60000" and e: "mail_file (name, Some m)" "M name = m" "bp2p \<Longrightarrow> qualifies call m"
  shows "\<exists>p g. (\<forall>u :: 'd world. mem u = mem v \<longrightarrow> tabs u = tabs v \<longrightarrow> prepare_proposal bp2p call name m u = Some (Returned p, u\<lparr>tabs := g\<rparr>)) \<and>
    outgoing M p \<and> mid p = name \<and> path p = Some name \<and>
    csize p \<le> 15480 \<and> codec_shape g"
proof -
  have m: "length m \<le> 3867" and name: "length name \<le> 12" "\<forall>c \<in> set name. line_char c \<and> c \<noteq> 32"
    using e(1) by (auto simp: mail_file_def)
  have al: "granted (mem v) sizeof_proposal" "strdup (mem v) name = Some name" "strdup (mem v) (bytes ''No subject'') = Some (bytes ''No subject'')"
    using name(1) plenty_granted [OF v(2)] by (simp_all add: strdup_def sizeof_proposal_def bytes_def)
  have "plenty (mem v) (2 * length m + 32)" by (rule plenty_le [OF v(2)]) (use m in simp)
  then obtain ub0 where ub0: "buffer_readfile (mem v) (Some (m, True)) = Some ub0" "buffer_inv ub0" "contents ub0 = m" "bpos ub0 = 0"
    using readfile_plenty by blast
  have len0: "dlen ub0 = length m" using length_contents [OF ub0(2)] ub0(3) by simp
  obtain ub where ub: "(if bp2p then p2p_qualify (mem v) call ub0 else Some (True, ub0)) = Some (True, ub)" "buffer_inv ub" "contents ub = m"
  proof (cases bp2p)
    case True
    have "unread ub0 = m" using ub0(3,4) by (simp add: unread_def)
    moreover have "plenty (mem v) (2 * dlen ub0 + 128)" by (rule plenty_le [OF v(2)]) (use m len0 in simp)
    ultimately show thesis using qualify_accepts [OF ub0(2), of "mem v" call] e(3) [OF True] True ub0(3) that by auto
  next
    case False
    then show thesis using ub0 that by simp
  qed
  have "plenty (mem v) (12 * length m + 64)" by (rule plenty_le [OF v(2)]) (use m in simp)
  then obtain cb g ub2 where c: "version_1_Encode (mem v) ub (tabs v) = Some (Some cb, g, ub2)" "buffer_inv cb" "packs (contents cb) m" "codec_shape g"
    using packs_encoded [OF v(1) m ub(2,3)] by blast
  have ub2: "buffer_inv ub2" "dlen ub2 = length m"
    using version_1_Encode_same [OF c(1)] ub(2,3) length_contents [OF ub(2)] by (simp_all add: same_text_def)
  have "plenty (mem v) (2 * dlen (buffer_rewind ub2) + 128)" by (rule plenty_le [OF v(2)]) (use m ub2(2) in \<open>simp add: buffer_rewind_def\<close>)
  then obtain t ub3 where t: "loop (title_step (mem v)) (None, buffer_rewind ub2) = Some (t, ub3)" "case t of None \<Rightarrow> True | Some t \<Rightarrow> 0 \<notin> set t"
    using title_found [of "buffer_rewind ub2" "mem v"] ub2(1) by (metis buffer_inv_rewind)
  let ?p = "\<lparr>code = 67, type = 69, mid = name, usize = dlen ub, csize = dlen cb, path = Some name, ubuf = Some ub3, cbuf = Some cb,
    title = Some (case t of None \<Rightarrow> bytes ''No subject'' | Some t \<Rightarrow> t), offset = 0, accepted = False, delete = False\<rparr>"
  have run: "\<forall>u :: 'd world. mem u = mem v \<longrightarrow> tabs u = tabs v \<longrightarrow> prepare_proposal bp2p call name m u = Some (Returned ?p, u\<lparr>tabs := g\<rparr>)"
    using ub0(1) ub(1) c(1) t(1) al
    by (cases bp2p; cases t) (simp_all add: prepare_proposal_def andthen_def look_def defined_def ret_def change_def)
  have size: "6 \<le> dlen cb" "dlen cb \<le> 15480"
    using packs_length [OF c(3) m] length_contents [OF c(2)] m by simp_all
  have "sendable ?p"
    using t(2) c(2) size by (auto simp: sendable_def bytes_def byte_of_def split: option.splits)
  moreover have "prop_ok ?p"
  proof -
    have "\<not> line_char 0" by (simp add: line_char_def)
    then show ?thesis
      using name size m length_contents [OF ub(2)] ub(3) by (auto simp: prop_ok_def ULONG_MAX_def)
  qed
  ultimately have "outgoing M ?p" using name c(3) e(2) by (simp add: outgoing_def)
  then show ?thesis using run size(2) c(4) by (intro exI [of _ ?p] exI [of _ g]) simp
qed

lemma prepare_entries_outgoing:
  fixes v :: "'d world"
  assumes "codec_shape (tabs v)" "plenty (mem v) 60000" "\<forall>e \<in> set es. mail_file e \<and> M (fst e) = the (snd e) \<and> (bp2p \<longrightarrow> qualifies call (the (snd e)))"
  shows "\<exists>ps g. (\<forall>u :: 'd world. mem u = mem v \<longrightarrow> tabs u = tabs v \<longrightarrow> prepare_entries bp2p call es u = Some (Returned ps, u\<lparr>tabs := g\<rparr>)) \<and>
    map mid ps = map fst es \<and>
    map path ps = map (\<lambda>e. Some (fst e)) es \<and> (\<forall>p \<in> set ps. outgoing M p \<and> csize p \<le> 15480) \<and> codec_shape g"
  using assms
proof (induction es arbitrary: v)
  case Nil
  then show ?case by (intro exI [of _ "[]"] exI [of _ "tabs v"]) (simp add: ret_def)
next
  case (Cons e es)
  obtain name m where e: "e = (name, Some m)" "mail_file (name, Some m)" "M name = m" "bp2p \<Longrightarrow> qualifies call m"
    using Cons.prems(3) by (cases e) (auto simp: mail_file_def)
  obtain p g where p: "\<forall>u :: 'd world. mem u = mem v \<longrightarrow> tabs u = tabs v \<longrightarrow> prepare_proposal bp2p call name m u = Some (Returned p, u\<lparr>tabs := g\<rparr>)" "outgoing M p" "mid p = name"
      "path p = Some name" "csize p \<le> 15480" "codec_shape g"
    using prepare_proposal_outgoing [where M = M and name = name and m = m and v = v and call = call, OF Cons.prems(1,2) e(2-4)] by blast
  obtain ps g' where ps: "\<forall>u :: 'd world. mem u = mem v \<longrightarrow> tabs u = g \<longrightarrow> prepare_entries bp2p call es u = Some (Returned ps, u\<lparr>tabs := g'\<rparr>)" "map mid ps = map fst es"
      "map path ps = map (\<lambda>e. Some (fst e)) es" "\<forall>p \<in> set ps. outgoing M p \<and> csize p \<le> 15480" "codec_shape g'"
    using Cons.IH [of "v\<lparr>tabs := g\<rparr>"] Cons.prems p(6) by auto
  have "\<not> length name > MID_MAXLEN" using e(2) by (simp add: mail_file_def MID_MAXLEN_def)
  then show ?case
    using e(1) p ps by (intro exI [of _ "p # ps"] exI [of _ g']) (simp add: andthen_def ret_def)
qed

text \<open>One message that is not for the caller, wherever it stands in the outbox, ends the preparation in undefined behaviour.\<close>

lemma prepare_unqualified:
  fixes u :: "'d world"
  assumes "plenty (mem u) 60000" "mail_file (name, Some m)" "\<not> qualifies call m"
  shows "prepare_proposal True call name m u = None"
proof -
  have m: "length m \<le> 3867" and name: "length name \<le> 12" using assms(2) by (auto simp: mail_file_def)
  have "plenty (mem u) (2 * length m + 32)" by (rule plenty_le [OF assms(1)]) (use m in simp)
  then obtain ub where ub: "buffer_readfile (mem u) (Some (m, True)) = Some ub" "buffer_inv ub" "contents ub = m" "bpos ub = 0"
    using readfile_plenty by blast
  have "plenty (mem u) (2 * dlen ub + 128)"
    by (rule plenty_le [OF assms(1)]) (use m length_contents [OF ub(2)] ub(3) in simp)
  with qualify_refuses [OF ub(2) this, of call] obtain ub' where q: "p2p_qualify (mem u) call ub = Some (False, ub')"
    using assms(3) ub(3,4) by (auto simp: unread_def)
  have "granted (mem u) sizeof_proposal" "strdup (mem u) name \<noteq> None"
    using name plenty_granted [OF assms(1)] by (simp_all add: strdup_def sizeof_proposal_def)
  then show ?thesis
    using ub(1) q by (simp add: prepare_proposal_def andthen_def look_def defined_def ret_def undefined_behaviour_def)
qed

lemma prepare_entries_unqualified:
  fixes u :: "'d world"
  assumes "codec_shape (tabs u)" "plenty (mem u) 60000" "\<forall>e \<in> set es. mail_file e" "e \<in> set es" "\<not> qualifies call (the (snd e))"
  shows "prepare_entries True call es u = None"
  using assms
proof (induction es arbitrary: u)
  case Nil
  then show ?case by simp
next
  case (Cons f es)
  obtain name m where f: "f = (name, Some m)" "mail_file (name, Some m)" using Cons.prems(3) by (cases f) (auto simp: mail_file_def)
  have name: "\<not> length name > MID_MAXLEN" using f(2) by (simp add: mail_file_def MID_MAXLEN_def)
  show ?case
  proof (cases "qualifies call m")
    case True
    obtain p g where p: "prepare_proposal True call name m u = Some (Returned p, u\<lparr>tabs := g\<rparr>)" "codec_shape g"
      using prepare_proposal_outgoing [OF Cons.prems(1,2) f(2), of "\<lambda>_. m" True call] True by auto
    have "e \<in> set es" using Cons.prems(4,5) True f(1) by auto
    then have "prepare_entries True call es (u\<lparr>tabs := g\<rparr>) = None"
      using Cons.IH [of "u\<lparr>tabs := g\<rparr>"] Cons.prems(2,3,5) p(2) by simp
    then show ?thesis using p(1) f(1) name by (simp add: andthen_def)
  next
    case False
    then show ?thesis using prepare_unqualified [OF Cons.prems(2) f(2)] f(1) name by (simp add: andthen_def)
  qed
qed

section \<open>Sessions between outboxes\<close>

text \<open>
  The station that is called, as far as messages go: of \<open>wl2kd_exchange\<close> the calls that prepare the outbox and answer the
  caller's lines.  This is what is assumed of a server, which is no program of the repository and makes its own greeting; where
  both stations run programs of the repository, the theorems are about \<open>wl2kd_exchange\<close> itself.
\<close>

definition answering_session :: "cstr \<Rightarrow> cstr option \<Rightarrow> ('d, int \<times> proposal list) io" where
  "answering_session call email = andthen (prepare_outbound_proposals True call) (\<lambda>props. inbound_parser props 0 email)"

text \<open>A station whose outbox is as \<open>mail.wl2k\<close> leaves it, and one that can take the files \<open>es\<close> of another.\<close>

definition box_ok :: "'d world \<Rightarrow> bool" where
  "box_ok v \<longleftrightarrow> outbox_ok v \<and> distinct (map fst (outbox v)) \<and> (\<forall>e \<in> set (outbox v). mail_file e \<and> unlinkable v (fst e)) \<and> ready 60000 v"

definition wants :: "'d world \<Rightarrow> cstr option \<Rightarrow> (cstr \<Rightarrow> cstr) \<Rightarrow> (cstr \<times> u8 list option) list \<Rightarrow> bool" where
  "wants w email T es \<longleftrightarrow> ready 60000 w \<and> (es \<noteq> [] \<longrightarrow> recording w \<and> \<not> gsendmsgonly_flag w \<and> email \<noteq> None) \<and>
     (\<forall>(name, m) \<in> set es. name \<notin> known w \<and> delivers w (the email) 60000 (the m) (T name))"

definition mail_from :: "'d world \<Rightarrow> cstr option \<Rightarrow> (cstr \<Rightarrow> cstr) \<Rightarrow> (cstr \<times> u8 list option) list \<Rightarrow> (cstr \<times> u8 list) list" where
  "mail_from w email T es = map (\<lambda>(name, m). (mail_command w (the email), T name)) es"

text \<open>The proposals of an outbox, for every process with its memory and coder.\<close>

definition offers :: "bool \<Rightarrow> cstr \<Rightarrow> 'd world \<Rightarrow> proposal list \<Rightarrow> codec \<Rightarrow> (cstr \<Rightarrow> u8 list) \<Rightarrow> bool" where
  "offers bp2p call v ps g M \<longleftrightarrow> (\<forall>u :: 'd world. mem u = mem v \<longrightarrow> tabs u = tabs v \<longrightarrow>
        prepare_entries bp2p call (outbox v) u = Some (Returned ps, u\<lparr>tabs := g\<rparr>)) \<and> codec_shape g \<and>
     map mid ps = map fst (outbox v) \<and> map path ps = map (\<lambda>e. Some (fst e)) (outbox v) \<and>
     (\<forall>p \<in> set ps. outgoing M p \<and> 2 * csize p + 32 \<le> 60000) \<and> (\<forall>e \<in> set (outbox v). M (fst e) = the (snd e))"

lemma outbox_proposals:
  fixes v :: "'d world"
  assumes "box_ok v" and "bp2p \<Longrightarrow> \<forall>e \<in> set (outbox v). qualifies call (the (snd e))"
  shows "\<exists>ps g M. offers bp2p call v ps g M"
proof -
  have box: "distinct (map fst (outbox v))" "\<forall>e \<in> set (outbox v). mail_file e" using assms(1) by (simp_all add: box_ok_def)
  define M where "M = (\<lambda>name. the (the (map_of (outbox v) name)))"
  have M: "M name = the m" if "(name, m) \<in> set (outbox v)" for name m
    using map_of_is_SomeI [OF box(1) that] by (simp add: M_def)
  have v: "codec_shape (tabs v)" "plenty (mem v) 60000" using assms(1) by (simp_all add: box_ok_def ready_def)
  have M': "\<forall>e \<in> set (outbox v). M (fst e) = the (snd e)" using M by auto
  with box(2) assms(2) have "\<forall>e \<in> set (outbox v). mail_file e \<and> M (fst e) = the (snd e) \<and> (bp2p \<longrightarrow> qualifies call (the (snd e)))" by blast
  from prepare_entries_outgoing [OF v this] obtain ps g where ps: "\<forall>u :: 'd world. mem u = mem v \<longrightarrow> tabs u = tabs v \<longrightarrow>
        prepare_entries bp2p call (outbox v) u = Some (Returned ps, u\<lparr>tabs := g\<rparr>)" "map mid ps = map fst (outbox v)"
      "map path ps = map (\<lambda>e. Some (fst e)) (outbox v)" "\<forall>p \<in> set ps. outgoing M p \<and> csize p \<le> 15480" "codec_shape g" by blast
  moreover have "\<forall>p \<in> set ps. outgoing M p \<and> 2 * csize p + 32 \<le> 60000" using ps(4) by fastforce
  ultimately show ?thesis using M' unfolding offers_def by blast
qed

lemma offers_prepare:
  fixes u v :: "'d world"
  assumes "offers bp2p call v ps g M" "outbox_ok u" "mem u = mem v" "tabs u = tabs v" "outbox u = outbox v"
  shows "prepare_outbound_proposals bp2p call u = Some (Returned ps, u\<lparr>tabs := g\<rparr>)"
  using assms by (simp add: offers_def prepare_outbound_proposals_def andthen_def look_def)

lemma offers_outgoing: "offers bp2p call v ps g M \<Longrightarrow> \<forall>p \<in> set ps. outgoing M p"
  and offers_none: "offers bp2p call v ps g M \<Longrightarrow> ps = [] \<longleftrightarrow> outbox v = []"
  by (auto simp: offers_def)

text \<open>What the proposals of an outbox are to the station that takes them, and to the outbox.\<close>

lemma wants_takes:
  assumes "wants w email T (outbox v)" and "offers bp2p call v ps g M" and "box_ok v"
  shows "takes 60000 email M T w ps" "mail_of w email T ps = mail_from w email T (outbox v)" "mid ` set ps = fst ` set (outbox v)"
proof -
  have ps: "map mid ps = map fst (outbox v)" "distinct (map fst (outbox v))" "\<forall>p \<in> set ps. outgoing M p \<and> 2 * csize p + 32 \<le> 60000"
      "\<forall>e \<in> set (outbox v). M (fst e) = the (snd e)"
    using assms(2,3) by (simp_all add: offers_def box_ok_def)
  have "delivers w (the email) 60000 (M (mid p)) (T (mid p)) \<and> mid p \<notin> known w" if "p \<in> set ps" for p
  proof -
    have "mid p \<in> set (map fst (outbox v))" using that ps(1) by (metis image_eqI list.set_map)
    then obtain e where "e \<in> set (outbox v)" "mid p = fst e" by auto
    then show ?thesis using assms(1) ps(4) by (auto simp: wants_def)
  qed
  then show "takes 60000 email M T w ps" using assms(1) ps offers_none [OF assms(2)] by (simp add: takes_def wants_def)
  show "mail_of w email T ps = mail_from w email T (outbox v)"
    using arg_cong [OF ps(1), of "map (\<lambda>n. (mail_command w (the email), T n))"] by (simp add: mail_of_def mail_from_def comp_def case_prod_beta)
  show "mid ` set ps = fst ` set (outbox v)" using arg_cong [OF ps(1), of set] by simp
qed

lemma files_gone:
  assumes "outbox v = outbox (without_files u (files_of ps))" and "offers bp2p call u ps g M" and "box_ok u"
  shows "outbox v = []"
proof -
  have p: "map path ps = map (\<lambda>e. Some (fst e)) (outbox u)" using assms(2) by (simp add: offers_def)
  have "fst e \<in> files_of ps" if "e \<in> set (outbox u)" for e
  proof -
    have "Some (fst e) \<in> set (map path ps)" using that by (simp only: p) force
    then show ?thesis by (auto simp: files_of_def)
  qed
  then show ?thesis using assms(1,3) by (simp add: box_ok_def without_files_def filter_empty_conv)
qed

text \<open>The called station, from what the caller has to offer.\<close>

lemma answering_run:
  assumes "box_ok w" "offers True call w qs h N" "takes 60000 addr M T w ps"
  shows "\<exists>qs' w'. answering_session call addr (w\<lparr>inp := fst (dialogue False ps qs)\<rparr>) = Some (Returned (-1, qs'), w') \<and>
    outp w' = outp w @ snd (dialogue False ps qs) \<and> outbox w' = [] \<and> mails w' = mails w @ mail_of w addr T ps \<and>
    known w' = known w \<union> mid ` set ps"
proof -
  let ?told = "fst (dialogue False ps qs)"
  let ?w = "w\<lparr>inp := ?told, tabs := h\<rparr>"
  have e: "env ?w = env w" "known ?w = known w" "ready 60000 ?w"
    using assms(1,2) by (simp_all add: env_def known_def ready_def line_ok_def box_ok_def offers_def)
  have o: "outbox (without_files ?w S) = outbox (without_files w S)" for S by (simp add: without_files_def)
  note t = takes_env [OF assms(3) e(3,1) eq_refl [OF e(2)]]
  obtain qs' w' where w': "inbound_parser qs 0 addr ?w = Some (Returned (-1, qs'), w')"
      "carries ?w [] (snd (dialogue False ps qs)) (mail_of w addr T ps) (mid ` set ps) (files_of qs) w'"
    using called_session [OF t(1) offers_outgoing [OF assms(2)], of "[]"] t(2) by auto
  have "prepare_outbound_proposals True call (w\<lparr>inp := ?told\<rparr>) = Some (Returned qs, ?w)"
    using offers_prepare [OF assms(2), of "w\<lparr>inp := ?told\<rparr>"] assms(1) by (simp add: box_ok_def)
  then have "answering_session call addr (w\<lparr>inp := ?told\<rparr>) = Some (Returned (-1, qs'), w')"
    using w'(1) by (simp add: answering_session_def andthen_def)
  moreover have "outbox w' = []" by (rule files_gone [OF _ assms(2,1)]) (use w'(2) o in \<open>simp add: carries_def\<close>)
  ultimately show ?thesis using w'(2) e(2) by (auto simp: carries_def)
qed

section \<open>Two sample outboxes\<close>

text \<open>Seven empty messages one way, so two batches, and two the other way.\<close>

definition seven_files :: "(cstr \<times> u8 list option) list" where
  "seven_files = map (\<lambda>n. ([n], Some crlf)) [65, 66, 67, 68, 69, 70, 71]"

definition two_files :: "(cstr \<times> u8 list option) list" where
  "two_files = map (\<lambda>n. ([n], Some crlf)) [72, 73]"

lemma sample_station:
  "ready 60000 (mid_world\<lparr>outbox := es\<rparr>)" "recording mid_world" "known mid_world = {}"
  by (simp_all add: ready_def mid_world_def line_ok_def plenty_all static_codec_shape recording_def known_def map_dbops_laws)
    (simp_all add: map_dbops_def)

lemma sample_delivers: "length addr \<le> 100 \<Longrightarrow> delivers mid_world addr 60000 crlf []"
proof -
  have "converts mid_world crlf []"
    unfolding converts_def
  proof (intro allI impI)
    fix b assume b: "buffer_inv b \<and> unread b = crlf"
    have "plenty (mem mid_world) (64 + 2 * length (unread b))" "plenty (mem mid_world) (2 * length (to_text mid_world []))"
      using b by (simp_all add: mid_world_def plenty_all crlf_def)
    from wl2mime_text [of "[]" b "[]" "mem mid_world" "[]" "to_text mid_world"] b this
    show "\<exists>ob. wl2mime (mem mid_world) (to_text mid_world) b = Some (Inr (Some ob)) \<and> buffer_inv ob \<and> contents ob = []"
      by (auto simp: mid_world_def)
  qed
  then show "length addr \<le> 100 \<Longrightarrow> delivers mid_world addr 60000 crlf []"
    by (simp add: delivers_def mail_command_def, simp add: mid_world_def granted_def bytes_def crlf_def)
qed

lemma empty_qualifies: "qualifies call crlf"
proof -
  have "line_of 10 crlf = crlf" "after_line 10 crlf = []" "cut_nul crlf = crlf"
    by (simp_all add: line_of_def after_line_def cut_nul_def crlf_def)
  then show ?thesis
    by (simp add: qualifies.simps [of call crlf] qualifies.simps [of call "[]"] qualify_line_def) (simp add: crlf_def bytes_def byte_of_def)
qed

lemma sample_boxes:
  assumes "es = seven_files \<or> es = two_files \<or> es = []"
  shows "box_ok (mid_world\<lparr>outbox := es\<rparr>)" "length addr \<le> 100 \<Longrightarrow> wants (mid_world\<lparr>outbox := fs\<rparr>) (Some addr) (\<lambda>_. []) es"
    "\<forall>e \<in> set es. qualifies call (the (snd e))"
proof -
  have e: "env (mid_world\<lparr>outbox := fs\<rparr>) = env mid_world" "known (mid_world\<lparr>outbox := fs\<rparr>) = known mid_world"
    by (simp_all add: env_def known_def)
  have files: "distinct (map fst es)" "\<forall>e \<in> set es. mail_file e" "\<forall>e \<in> set es. snd e = Some crlf"
    using assms by (auto simp: seven_files_def two_files_def mail_file_def line_char_def crlf_def)
  then show "box_ok (mid_world\<lparr>outbox := es\<rparr>)" using sample_station(1) by (simp add: box_ok_def) (simp add: mid_world_def)
  have "\<not> gsendmsgonly_flag mid_world" by (simp add: mid_world_def)
  then show "length addr \<le> 100 \<Longrightarrow> wants (mid_world\<lparr>outbox := fs\<rparr>) (Some addr) (\<lambda>_. []) es"
    using sample_station e(2) recording_env [OF e(1)] delivers_env(1) [OF e(1)] sample_delivers files(3) by (auto simp: wants_def)
  show "\<forall>e \<in> set es. qualifies call (the (snd e))" using files(3) empty_qualifies by simp
qed

end
