(* ===== verification/Telnet.thy ===== *)
theory Telnet
  imports Drivers Outbox
begin

text \<open>
  A whole run of \<open>wl2ktelnet\<close>: the login and the handshake with a server, then the session of the outbox.
\<close>

section \<open>Dialogues\<close>

text \<open>The process has read up to \<open>rest\<close> and written \<open>bs\<close>; otherwise only the timer and the line buffer have changed.\<close>

definition talks :: "'d world \<Rightarrow> u8 list \<Rightarrow> u8 list \<Rightarrow> 'd world \<Rightarrow> bool" where
  "talks w rest bs w' \<longleftrightarrow> (\<exists>b t. w' = w\<lparr>inp := rest, outp := outp w @ bs, linebuf := b, alarm := t\<rparr> \<and>
     (case b of None \<Rightarrow> True | Some b \<Rightarrow> buffer_inv b))"

lemma talks_trans: "talks u r a v \<Longrightarrow> talks v s b w \<Longrightarrow> talks u s (a @ b) w"
  by (fastforce simp: talks_def)

lemma talks_fields:
  assumes "talks w rest bs w'"
  shows "inp w' = rest" "outp w' = outp w @ bs" "outbox w' = outbox w" "env w' = env w" "unlinkable w' = unlinkable w"
    "tabs w' = tabs w" "version w' = version w" "outbox_ok w' = outbox_ok w"
    "mails w' = mails w" "known w' = known w"
  using assms by (auto simp: talks_def env_def known_def)

lemma talks_ready: "talks w rest bs w' \<Longrightarrow> ready n w \<Longrightarrow> ready n w'"
  by (auto simp: talks_def ready_def line_ok_def)

lemma talks_here: "ready n w \<Longrightarrow> talks w (inp w) [] w"
  unfolding talks_def by (intro exI [of _ "linebuf w"] exI [of _ "alarm w"]) (auto simp: ready_def line_ok_def split: option.split)

lemma talks_line:
  assumes "ready n w" "inp w = l @ 13 # rest" "\<forall>c \<in> set l. line_char c" "2 * length l + 32 \<le> n"
  shows "\<exists>w'. wl2kgetline w = Some (Returned (Some l), w') \<and> talks w rest [] w'"
proof -
  obtain b where b: "wl2kgetline w = Some (Returned (Some l), (took w rest)\<lparr>linebuf := Some b\<rparr>)" "buffer_inv b"
    using line_ready [OF assms] by (auto simp: read_line_def)
  have "talks w rest [] ((took w rest)\<lparr>linebuf := Some b\<rparr>)"
    unfolding talks_def using b(2) by (intro exI [of _ "Some b"] exI [of _ "timeoutsecs w"]) (simp add: took_def)
  then show ?thesis using b(1) by blast
qed

lemma talks_put:
  assumes "ready n w"
  shows "\<exists>w'. put s w = Some (Returned (), w') \<and> talks w (inp w) s w'"
proof -
  have "put s w = Some (Returned (), w\<lparr>outp := outp w @ s\<rparr>)"
    using assms by (simp add: ready_def put_def fprintf_def andthen_def ret_def)
  moreover have "talks w (inp w) s (w\<lparr>outp := outp w @ s\<rparr>)"
    unfolding talks_def using assms by (intro exI [of _ "linebuf w"] exI [of _ "alarm w"]) (simp add: ready_def line_ok_def split: option.split)
  ultimately show ?thesis by blast
qed

lemma talks_send:
  assumes "ready n w"
  shows "\<exists>w'. send s w = Some (Returned (), w') \<and> talks w (inp w) s w' \<and> alarm w' = timeoutsecs w'"
proof -
  have "send s w = Some (Returned (), w\<lparr>alarm := timeoutsecs w, outp := outp w @ s\<rparr>)"
    using assms by (simp add: send_returned ready_def)
  moreover have "talks w (inp w) s (w\<lparr>alarm := timeoutsecs w, outp := outp w @ s\<rparr>)"
    unfolding talks_def using assms by (intro exI [of _ "linebuf w"] exI [of _ "timeoutsecs w"]) (simp add: ready_def line_ok_def split: option.split)
  ultimately show ?thesis by simp
qed

text \<open>A line the peer can send, and the text of several.\<close>

definition plain_line :: "cstr \<Rightarrow> bool" where
  "plain_line l \<longleftrightarrow> (\<forall>c \<in> set l. line_char c) \<and> length l \<le> 1000"

definition lines_of :: "cstr list \<Rightarrow> u8 list" where
  "lines_of ls = concat (map (\<lambda>l. l @ [13]) ls)"

text \<open>An action that sends \<open>s\<close> and no more.\<close>

definition says :: "('d, unit) io \<Rightarrow> u8 list \<Rightarrow> bool" where
  "says m s \<longleftrightarrow> (\<forall>w. ready 60000 w \<longrightarrow> (\<exists>w'. m w = Some (Returned (), w') \<and> talks w (inp w) s w'))"

lemma says_run: "says m s \<Longrightarrow> ready 60000 w \<Longrightarrow> inp w = r \<Longrightarrow> \<exists>w'. m w = Some (Returned (), w') \<and> talks w r s w'"
  unfolding says_def by blast

lemma says_put [intro!, simp]: "says (put s) s"
  using talks_put unfolding says_def by blast

lemma says_ret [intro!, simp]: "says (ret ()) []"
  using talks_here unfolding says_def ret_def by blast

lemma says_then:
  assumes "says a s" "says b t"
  shows "says (andthen a (\<lambda>_. b)) (s @ t)"
  unfolding says_def
proof (intro allI impI)
  fix w :: "'a world"
  assume r: "ready 60000 w"
  obtain w1 where w1: "a w = Some (Returned (), w1)" "talks w (inp w) s w1" using says_run [OF assms(1) r refl] by blast
  obtain w2 where w2: "b w1 = Some (Returned (), w2)" "talks w1 (inp w) t w2"
    using says_run [OF assms(2) talks_ready [OF w1(2) r] talks_fields(1) [OF w1(2)]] by blast
  have "andthen a (\<lambda>_. b) w = Some (Returned (), w2)" using w1(1) w2(1) by (simp add: andthen_def)
  then show "\<exists>w'. andthen a (\<lambda>_. b) w = Some (Returned (), w') \<and> talks w (inp w) (s @ t) w'"
    using talks_trans [OF w1(2) w2(2)] by blast
qed

lemma await_found:
  assumes "ready 60000 w" "inp w = lines_of (ls @ [p]) @ rest" "\<forall>l \<in> set (ls @ [p]). plain_line l" "\<forall>l \<in> set ls. \<not> prompt l" "prompt p"
    and "says reply s" "says other t"
  shows "\<exists>w'. await prompt reply other w = Some (Returned (), w') \<and> talks w rest (concat (replicate (length ls) t) @ s) w'"
  using assms(1-5)
proof (induction ls arbitrary: w)
  case Nil
  obtain w1 where w1: "wl2kgetline w = Some (Returned (Some p), w1)" "talks w rest [] w1"
    using talks_line [OF Nil.prems(1), of p rest] Nil.prems(2,3) by (auto simp: lines_of_def plain_line_def)
  obtain w2 where w2: "reply w1 = Some (Returned (), w2)" "talks w1 rest s w2"
    using says_run [OF assms(6) talks_ready [OF w1(2) Nil.prems(1)] talks_fields(1) [OF w1(2)]] by blast
  have "await_step prompt reply other () w = Some (Returned (Inr ()), w2)"
    using w1(1) w2(1) Nil.prems(5) by (simp add: await_step_def andthen_def ret_def)
  from io_loop_done [of "await_step prompt reply other", OF this] talks_trans [OF w1(2) w2(2)]
  show ?case by (simp add: await_def)
next
  case (Cons l ls)
  obtain w1 where w1: "wl2kgetline w = Some (Returned (Some l), w1)" "talks w (lines_of (ls @ [p]) @ rest) [] w1"
    using talks_line [OF Cons.prems(1), of l "lines_of (ls @ [p]) @ rest"] Cons.prems(2,3) by (auto simp: lines_of_def plain_line_def)
  note r1 = talks_ready [OF w1(2) Cons.prems(1)]
  obtain w2 where w2: "other w1 = Some (Returned (), w2)" "talks w1 (lines_of (ls @ [p]) @ rest) t w2"
    using says_run [OF assms(7) r1 talks_fields(1) [OF w1(2)]] by blast
  have "await_step prompt reply other () w = Some (Returned (Inl ()), w2)"
    using w1(1) w2(1) Cons.prems(4) by (simp add: await_step_def andthen_def ret_def)
  note go = io_loop_next [of "await_step prompt reply other", OF this]
  from Cons.IH [OF talks_ready [OF w2(2) r1] talks_fields(1) [OF w2(2)]] Cons.prems(3-5) obtain w' where
    "await prompt reply other w2 = Some (Returned (), w')" "talks w2 rest (concat (replicate (length ls) t) @ s) w'" by auto
  then show ?case using go talks_trans [OF talks_trans [OF w1(2) w2(2)]] by (fastforce simp: await_def)
qed

lemma telnet_login_done:
  assumes "ready 60000 w" "inp w = lines_of (before @ [call_line]) @ lines_of (between @ [pw_line]) @ rest"
    and "\<forall>l \<in> set (before @ [call_line] @ between @ [pw_line]). plain_line l"
    and "\<forall>l \<in> set before. \<not> strbegins l (bytes ''Callsign'')" "strbegins call_line (bytes ''Callsign'')"
    and "\<forall>l \<in> set between. \<not> strbegins l (bytes ''Password'')" "strbegins pw_line (bytes ''Password'')"
    and "mycall c = Some my" "password c = Some pw"
  shows "\<exists>w'. telnet_login c w = Some (Returned (), w') \<and> talks w rest (bytes ''.'' @ my @ crlf @ pw @ crlf) w'"
proof -
  obtain w1 where w1: "await (\<lambda>line. strbegins line (bytes ''Callsign'')) (put (bytes ''.'' @ my @ crlf)) (ret ()) w = Some (Returned (), w1)"
      "talks w (lines_of (between @ [pw_line]) @ rest) (bytes ''.'' @ my @ crlf) w1"
    using await_found [OF assms(1,2) _ assms(4,5) says_put says_ret] assms(3) by auto
  obtain w2 where w2: "await (\<lambda>line. strbegins line (bytes ''Password'')) (put (pw @ crlf)) (ret ()) w1 = Some (Returned (), w2)"
      "talks w1 rest (pw @ crlf) w2"
    using await_found [OF talks_ready [OF w1(2) assms(1)] talks_fields(1) [OF w1(2)] _ assms(6,7) says_put says_ret] assms(3) by auto
  have "telnet_login c w = Some (Returned (), w2)"
    using w1(1) w2(1) assms(8,9) andthen_returned by (simp add: telnet_login_def crlf_def andthen_def [of "await _ _ _"])
  then show ?thesis using talks_trans [OF w1(2) w2(2)] by auto
qed

section \<open>The handshake\<close>

text \<open>The codes of an identification, behind its last minus.\<close>

definition sid_codes :: "cstr \<Rightarrow> cstr option" where
  "sid_codes line = do { cp \<leftarrow> strrchr line 45; e \<leftarrow> strrchr cp 93;
     let codes = the (strupper (Some (take (length cp - length e) cp))) in
     if strstr codes (bytes ''B2F'') = None then None else Some codes }"

lemma strrchr_length: "strrchr s c = Some t \<Longrightarrow> length t \<le> length s"
  by (induction s arbitrary: t) (auto split: option.splits if_splits)

lemma parse_inboundsid_codes:
  assumes "sid_codes line = Some codes" "plenty (mem w) (length line + 1)"
  shows "parse_inboundsid line w = Some (Returned codes, w)"
proof -
  obtain cp e where cp: "strrchr line 45 = Some cp" "strrchr cp 93 = Some e"
      "strstr (the (strupper (Some (take (length cp - length e) cp)))) (bytes ''B2F'') \<noteq> None"
      "codes = the (strupper (Some (take (length cp - length e) cp)))"
    using assms(1) by (auto simp: sid_codes_def Let_def bind_eq_Some_conv split: if_splits)
  have "strdup (mem w) line = Some line" "strdup (mem w) cp = Some cp"
    using assms(2) strrchr_length [OF cp(1)] by (auto simp: strdup_def plenty_def)
  then show ?thesis using cp by (auto simp: parse_inboundsid_def andthen_def look_def defined_def ret_def Let_def)
qed

definition prompt_line :: "cstr \<Rightarrow> bool" where
  "prompt_line l \<longleftrightarrow> plain_line l \<and> l \<noteq> [] \<and> last l = 62 \<and> strchr l 91 = None \<and> \<not> strbegins l (bytes '';'')"

text \<open>The lines between the identification and the prompt, and the challenge they leave.\<close>

definition note_line :: "cstr \<Rightarrow> bool" where
  "note_line l \<longleftrightarrow> plain_line l \<and> strchr l 91 = None \<and> (strbegins l (bytes '';'') \<or> l \<noteq> [] \<and> last l \<noteq> 62)"

definition next_challenge :: "cstr \<Rightarrow> cstr \<Rightarrow> cstr" where
  "next_challenge l ch = (if strbegins l (bytes '';PQ: '') \<and> length (drop 5 l) = 8 then drop 5 l else ch)"

definition challenge_of :: "cstr list \<Rightarrow> cstr" where
  "challenge_of noted = fold next_challenge noted []"

definition secret_ok :: "cfg_t \<Rightarrow> bool" where
  "secret_ok c \<longleftrightarrow> (case wl2k_password c of None \<Rightarrow> True | Some pw \<Rightarrow> length pw \<le> 1000)"

text \<open>What the program answers: the identification comes before the response, or last without one.\<close>

definition responds :: "cfg_t \<Rightarrow> cstr \<Rightarrow> bool" where
  "responds c challenge \<longleftrightarrow> wl2k_password c \<noteq> None \<and> challenge \<noteq> []"

definition hello :: "cfg_t \<Rightarrow> cstr \<Rightarrow> cstr \<Rightarrow> cstr \<Rightarrow> u8 list" where
  "hello c codes challenge v =
     (if responds c challenge
      then sid v @ [13] @ bytes '';PR: '' @ login_response challenge (the (wl2k_password c)) @ [13] else []) @
     (if strchr codes 73 \<noteq> None then bytes ''; '' @ the (qtc_text c) @ [13] else []) @
     (if responds c challenge then [] else sid v @ [13])"

lemma semicolon_first: "strbegins l (59 # p) \<Longrightarrow> strbegins l [59]"
  by (cases l) auto

lemma challenge_length: "length (fold next_challenge ls ch) \<le> max 8 (length ch)"
proof (induction ls arbitrary: ch)
  case (Cons l ls)
  have "length (next_challenge l ch) \<le> max 8 (length ch)" by (simp add: next_challenge_def)
  then show ?case using Cons.IH [of "next_challenge l ch"] by simp
qed simp

lemma notes_read:
  assumes "ready 60000 w" "inp w = lines_of ls @ rest" "\<forall>l \<in> set ls. note_line l"
  shows "\<exists>w'. talks w rest [] w' \<and>
    io_loop (handshake_step c) (codes, ch) w = io_loop (handshake_step c) (codes, fold next_challenge ls ch) w'"
  using assms
proof (induction ls arbitrary: w ch)
  case Nil
  have "talks w rest [] w" using talks_here [OF Nil.prems(1)] Nil.prems(2) by (simp add: lines_of_def)
  then show ?case by auto
next
  case (Cons l ls)
  have l: "note_line l" "\<forall>l \<in> set ls. note_line l" using Cons.prems(3) by simp_all
  obtain w1 where w1: "wl2kgetline w = Some (Returned (Some l), w1)" "talks w (lines_of ls @ rest) [] w1"
    using talks_line [OF Cons.prems(1), of l "lines_of ls @ rest"] Cons.prems(2) l(1) by (auto simp: lines_of_def plain_line_def note_line_def)
  have "handshake_step c (codes, ch) w = Some (Returned (Inl (codes, next_challenge l ch)), w1)"
    using w1(1) l(1) semicolon_first [of l "bytes ''PQ: ''"]
    by (auto simp: handshake_step_def andthen_def ret_def note_line_def is_prompt_def defined_def next_challenge_def bytes_def byte_of_def)
  note go = io_loop_next [of "handshake_step c", OF this]
  from Cons.IH [OF talks_ready [OF w1(2) Cons.prems(1)] talks_fields(1) [OF w1(2)] l(2)] obtain w' where
    "talks w1 rest [] w'"
    "io_loop (handshake_step c) (codes, next_challenge l ch) w1 =
      io_loop (handshake_step c) (codes, fold next_challenge ls (next_challenge l ch)) w'" by blast
  then show ?case using go talks_trans [OF w1(2)] by fastforce
qed

lemma sent_sid:
  assumes "ready 60000 w" "length (sid (version w)) < 32"
  shows "\<exists>w'. send_my_sid w = Some (Returned (), w') \<and> talks w (inp w) (sid (version w) @ [13]) w' \<and> alarm w' = timeoutsecs w'"
  using talks_send [OF assms(1), of "sid (version w) @ [13]"] assms(2) by (simp add: send_my_sid_def andthen_def look_def)

lemma sent_response:
  assumes "ready 60000 w" "length (sid (version w)) < 32" "secret_ok c" "length challenge \<le> 8"
  shows "\<exists>w'. send_secure_login_response challenge (wl2k_password c) w = Some (Returned (responds c challenge), w') \<and>
    talks w (inp w) (if responds c challenge
      then sid (version w) @ [13] @ bytes '';PR: '' @ login_response challenge (the (wl2k_password c)) @ [13] else []) w' \<and>
    (responds c challenge \<longrightarrow> alarm w' = timeoutsecs w')"
proof (cases "responds c challenge")
  case False
  then have "send_secure_login_response challenge (wl2k_password c) = (ret False :: ('a, bool) io)"
    by (auto simp: send_secure_login_response_def responds_def split: option.split)
  then show ?thesis using False talks_here [OF assms(1)] by (simp add: ret_def)
next
  case True
  then obtain pw where pw: "wl2k_password c = Some pw" "challenge \<noteq> []" by (auto simp: responds_def)
  let ?pr = "bytes '';PR: '' @ login_response challenge pw @ [13]"
  obtain w1 where w1: "send_my_sid w = Some (Returned (), w1)" "talks w (inp w) (sid (version w) @ [13]) w1"
    using sent_sid [OF assms(1,2)] by blast
  note r1 = talks_ready [OF w1(2) assms(1)]
  obtain w2 where w2: "send ?pr w1 = Some (Returned (), w2)" "talks w1 (inp w) ?pr w2" "alarm w2 = timeoutsecs w2"
    using talks_send [OF r1, of ?pr] talks_fields(1) [OF w1(2)] by auto
  have "granted (mem w1) (length challenge + length pw + 64)"
    using r1 assms(3,4) pw(1) by (simp add: ready_def plenty_def secret_ok_def)
  moreover have "length challenge + length pw + 192 < 2 ^ 32" using assms(3,4) pw(1) by (simp add: secret_ok_def)
  ultimately have "compute_secure_login_response (mem w1) challenge pw = Some (login_response challenge pw)" by (rule compute_response)
  then have "send_secure_login_response challenge (wl2k_password c) w = Some (Returned True, w2)"
    using w1(1) w2(1) pw by (simp add: send_secure_login_response_def andthen_def look_def defined_def ret_def)
  then show ?thesis using True talks_trans [OF w1(2) w2(2)] w2(3) pw(1) by auto
qed

lemma handshake_prompt:
  assumes "ready 60000 w" "inp w = prompt @ 13 # rest" "prompt_line prompt" "length challenge \<le> 8"
    and "length (sid (version w)) < 32" "strchr codes 73 \<noteq> None \<longrightarrow> qtc_text c \<noteq> None" "secret_ok c"
  shows "\<exists>w'. handshake_step c (Some codes, challenge) w = Some (Returned (Inr prompt), w') \<and>
    talks w rest (hello c codes challenge (version w)) w' \<and> alarm w' = timeoutsecs w'"
proof -
  let ?r = "responds c challenge" and ?qtc = "strchr codes 73 \<noteq> None"
  obtain w1 where w1: "wl2kgetline w = Some (Returned (Some prompt), w1)" "talks w rest [] w1"
    using talks_line [OF assms(1,2)] assms(3) by (auto simp: plain_line_def prompt_line_def)
  note r1 = talks_ready [OF w1(2) assms(1)] and f1 = talks_fields [OF w1(2)]
  obtain w2 where w2: "send_secure_login_response challenge (wl2k_password c) w1 = Some (Returned ?r, w2)"
      "talks w1 rest (if ?r then sid (version w) @ [13] @ bytes '';PR: '' @ login_response challenge (the (wl2k_password c)) @ [13] else []) w2"
      "?r \<longrightarrow> alarm w2 = timeoutsecs w2"
    using sent_response [OF r1 _ assms(7,4)] assms(5) unfolding f1(1,7) by blast
  note r2 = talks_ready [OF w2(2) r1] and f2 = talks_fields [OF w2(2)]
  let ?q = "if ?qtc then bytes ''; '' @ the (qtc_text c) @ [13] else []"
  obtain w3 where w3: "(if ?qtc then andthen (defined (qtc_text c)) (\<lambda>qtc. send (bytes ''; '' @ qtc @ [13])) else ret ()) w2
      = Some (Returned (), w3)" "talks w2 rest ?q w3" "?r \<longrightarrow> alarm w3 = timeoutsecs w3"
  proof (cases ?qtc)
    case True
    then show ?thesis using talks_send [OF r2, of ?q] f2(1) assms(6) by (auto intro: that)
  next
    case False
    then show ?thesis using talks_here [OF r2] f2(1) w2(3) by (intro that) (simp_all add: ret_def)
  qed
  note r3 = talks_ready [OF w3(2) r2] and f3 = talks_fields [OF w3(2)]
  obtain w4 where w4: "(if \<not> ?r then send_my_sid else ret ()) w3 = Some (Returned (), w4)"
      "talks w3 rest (if ?r then [] else sid (version w) @ [13]) w4" "alarm w4 = timeoutsecs w4"
  proof (cases ?r)
    case True
    then show ?thesis using talks_here [OF r3] f3(1) w3(3) by (intro that) (simp_all add: ret_def)
  next
    case False
    then show ?thesis using sent_sid [OF r3] f3(1,7) f2(7) f1(7) assms(5) by (auto intro: that)
  qed
  have "handshake_step c (Some codes, challenge) w =
      andthen (send_secure_login_response challenge (wl2k_password c)) (\<lambda>sent_pr.
        andthen (if ?qtc then andthen (defined (qtc_text c)) (\<lambda>qtc. send (bytes ''; '' @ qtc @ [13])) else ret ())
          (\<lambda>_. andthen (if \<not> sent_pr then send_my_sid else ret ()) (\<lambda>_. ret (Inr prompt)))) w1"
    using assms(3)
    by (simp add: handshake_step_def is_prompt_def prompt_line_def andthen_returned [where m = wl2kgetline and w = w, OF w1(1)])
  also have "\<dots> = andthen (if ?qtc then andthen (defined (qtc_text c)) (\<lambda>qtc. send (bytes ''; '' @ qtc @ [13])) else ret ())
      (\<lambda>_. andthen (if \<not> ?r then send_my_sid else ret ()) (\<lambda>_. ret (Inr prompt))) w2"
    by (rule andthen_returned) (rule w2(1))
  also have "\<dots> = andthen (if \<not> ?r then send_my_sid else ret ()) (\<lambda>_. ret (Inr prompt)) w3"
    by (rule andthen_returned) (rule w3(1))
  also have "\<dots> = ret (Inr prompt) w4"
    by (rule andthen_returned) (rule w4(1))
  finally have "handshake_step c (Some codes, challenge) w = Some (Returned (Inr prompt), w4)" by (simp add: ret_def)
  moreover have "talks w rest (hello c codes challenge (version w)) w4"
    using talks_trans [OF talks_trans [OF talks_trans [OF w1(2) w2(2)] w3(2)] w4(2)] by (simp add: hello_def)
  ultimately show ?thesis using w4(3) by blast
qed

text \<open>What an answering station says first: the identification, with notes before and behind it, and the prompt.\<close>

definition first_words :: "cstr list \<Rightarrow> cstr \<Rightarrow> cstr list \<Rightarrow> cstr \<Rightarrow> u8 list" where
  "first_words early sid_line noted prompt = lines_of (early @ sid_line # noted @ [prompt])"

definition first_words_ok :: "cstr \<Rightarrow> cstr list \<Rightarrow> cstr \<Rightarrow> cstr list \<Rightarrow> cstr \<Rightarrow> bool" where
  "first_words_ok codes early sid_line noted prompt \<longleftrightarrow> (\<forall>l \<in> set early. note_line l) \<and> plain_line sid_line \<and> strchr sid_line 91 \<noteq> None \<and> sid_codes sid_line = Some codes \<and>
     (\<forall>l \<in> set noted. note_line l) \<and> prompt_line prompt"

lemma handshake_done:
  assumes "ready 60000 w" "inp w = first_words early sid_line noted prompt @ rest" "first_words_ok codes early sid_line noted prompt"
    and "length (sid (version w)) < 32" "strchr codes 73 \<noteq> None \<longrightarrow> qtc_text c \<noteq> None" "secret_ok c"
  shows "\<exists>w'. handshake c w = Some (Returned prompt, w') \<and> talks w rest (hello c codes (challenge_of (early @ noted)) (version w)) w' \<and>
    alarm w' = timeoutsecs w'"
proof -
  have ok: "plain_line sid_line" "strchr sid_line 91 \<noteq> None" "sid_codes sid_line = Some codes" "\<forall>l \<in> set noted. note_line l" "prompt_line prompt"
      "\<forall>l \<in> set early. note_line l"
    using assms(3) by (simp_all add: first_words_ok_def)
  let ?ch = "fold next_challenge early []"
  have "inp w = lines_of early @ sid_line @ 13 # lines_of noted @ prompt @ 13 # rest" using assms(2) by (simp add: first_words_def lines_of_def)
  from notes_read [OF assms(1) this ok(6), of c None "[]"] obtain w0 where
    w0: "talks w (sid_line @ 13 # lines_of noted @ prompt @ 13 # rest) [] w0" "handshake c w = io_loop (handshake_step c) (None, ?ch) w0"
    by (auto simp: handshake_def)
  note r0 = talks_ready [OF w0(1) assms(1)]
  obtain w1 where w1: "wl2kgetline w0 = Some (Returned (Some sid_line), w1)" "talks w0 (lines_of noted @ prompt @ 13 # rest) [] w1"
    using talks_line [OF r0 talks_fields(1) [OF w0(1)]] ok(1) by (auto simp: plain_line_def)
  note r1 = talks_ready [OF w1(2) r0] and t1 = talks_trans [OF w0(1) w1(2)]
  have "plenty (mem w1) (length sid_line + 1)"
    by (rule plenty_le [where n = 60000]) (use r1 ok(1) in \<open>simp_all add: ready_def plain_line_def\<close>)
  from parse_inboundsid_codes [OF ok(3) this]
  have "handshake_step c (None, ?ch) w0 = Some (Returned (Inl (Some codes, ?ch)), w1)"
    using w1(1) ok(2) by (simp add: handshake_step_def andthen_def ret_def)
  note go = io_loop_next [of "handshake_step c", OF this]
  obtain w2 where w2: "talks w1 (prompt @ 13 # rest) [] w2"
      "io_loop (handshake_step c) (Some codes, ?ch) w1 = io_loop (handshake_step c) (Some codes, challenge_of (early @ noted)) w2"
    using notes_read [OF r1 talks_fields(1) [OF w1(2)] ok(4), of c "Some codes" ?ch] by (auto simp: challenge_of_def)
  note t2 = talks_trans [OF t1 w2(1)]
  have "length (challenge_of (early @ noted)) \<le> 8" using challenge_length [of "early @ noted" "[]"] by (simp add: challenge_of_def)
  from handshake_prompt [OF talks_ready [OF w2(1) r1] talks_fields(1) [OF w2(1)] ok(5) this, of codes c] obtain w3 where
    w3: "handshake_step c (Some codes, challenge_of (early @ noted)) w2 = Some (Returned (Inr prompt), w3)"
      "talks w2 rest (hello c codes (challenge_of (early @ noted)) (version w)) w3" "alarm w3 = timeoutsecs w3"
    using assms(4-6) talks_fields(7) [OF t2] by auto
  from io_loop_done [of "handshake_step c", OF w3(1)] go w2(2) w0(2) have "handshake c w = Some (Returned prompt, w3)" by simp
  then show ?thesis using talks_trans [OF t2 w3(2)] w3(3) by auto
qed

section \<open>Expiry\<close>

definition sound_cursor :: "'d world \<Rightarrow> bool" where
  "sound_cursor w \<longleftrightarrow> (\<forall>d. snd (db_cursor (dbops w) d) \<and> (\<forall>(k, x) \<in> set (fst (db_cursor (dbops w) d)). length x = 8))"

lemma mids_expire_loop: "keeps mids_only (\<lambda>_. True) (expire_loop rs)"
  by (induction rs rule: expire_loop.induct) (auto simp: db_delete_def intro!: mids_intros mids_time_now)

lemma expire_loop_runs: "\<forall>(k, x) \<in> set rs. length x = 8 \<Longrightarrow> \<exists>w'. expire_loop rs w = Some (Returned (), w')"
  by (induction rs arbitrary: w rule: expire_loop.induct)
    (auto simp: andthen_def time_now_def look_def change_def ret_def db_delete_def)

text \<open>Expiry forgets ids and does not invent any.\<close>

lemma expire_loop_known:
  assumes "expire_loop rs w = Some (Returned (), w')" "recording w"
  shows "known w' \<subseteq> known w"
  using assms
proof (induction rs arbitrary: w rule: expire_loop.induct)
  case 1
  then show ?case by (simp add: ret_def)
next
  case (2 k v rs)
  let ?w = "w\<lparr>time_calls := Suc (time_calls w)\<rparr>"
  obtain u where u: "length v = 8" "expire_loop rs u = Some (Returned (), w')" "u = ?w \<or> u = ?w\<lparr>db := db_del (dbops w) (db w) k\<rparr>"
    using 2(2)
    by (auto simp: andthen_def time_now_def look_def change_def ret_def db_delete_def fail_def exit_def split: if_splits)
  have "recording u" using u(3) 2(3) by (auto simp: recording_def)
  moreover have "known u \<subseteq> known w"
    using u(3) 2(3) by (auto simp: known_def recording_def db_laws_def) (metis option.distinct(1))+
  ultimately show ?case using 2(1) [OF u(1,2)] by blast
qed

lemma expire_mids_known:
  assumes "recording w" "sound_cursor w"
  shows "\<exists>w'. expire_mids w = Some (Returned 0, w') \<and> mids_only w w' \<and> known w' \<subseteq> known w"
proof -
  define rs where "rs = fst (db_cursor (dbops w) (db w))"
  have rs: "db_cursor (dbops w) (db w) = (rs, True)" "\<forall>(k, x) \<in> set rs. length x = 8"
    using assms(2) by (simp_all add: sound_cursor_def rs_def prod_eq_iff)
  obtain w' where w': "expire_loop rs w = Some (Returned (), w')" using expire_loop_runs [OF rs(2)] by blast
  have "expire_mids w = Some (Returned 0, w')"
    using rs(1) w' assms(1) by (simp add: expire_mids_def andthen_def look_def ret_def db_is_open_def recording_def)
  then show ?thesis using keepsD [OF mids_expire_loop w'] expire_loop_known [OF w' assms(1)] by blast
qed

section \<open>The exchange\<close>

text \<open>A process that has read and written, with its files as they were and some ids expired.\<close>

definition started :: "'d world \<Rightarrow> u8 list \<Rightarrow> u8 list \<Rightarrow> 'd world \<Rightarrow> bool" where
  "started w rest bs w' \<longleftrightarrow> ready 60000 w' \<and> inp w' = rest \<and> outp w' = outp w @ bs \<and> env w' = env w \<and> known w' \<subseteq> known w \<and>
     mails w' = mails w \<and> outbox w' = outbox w \<and> unlinkable w' = unlinkable w"

lemma started_talks: "started u r a v \<Longrightarrow> talks v s b w \<Longrightarrow> started u s (a @ b) w"
  using talks_fields [of v s b w] talks_ready [of v s b w] by (simp add: started_def)

lemma started_takes:
  assumes "started w r bs w'" "takes 60000 email M T w ps"
  shows "takes 60000 email M T w' ps" "mail_of w' email T ps = mail_of w email T ps"
  using takes_env [OF assms(2), of w'] assms(1) by (simp_all add: started_def)

text \<open>The caller up to the session, and with it against a station that offers \<open>qs\<close>.\<close>

lemma caller_start:
  assumes "box_ok v" and "offers False [] v ps g M" and "recording v" and "sound_cursor v"
    and u: "talks v (first_words early sid_line noted prompt @ rest) bs u"
    and "first_words_ok codes early sid_line noted prompt" and "length (sid (version v)) < 32" "strchr codes 73 \<noteq> None \<longrightarrow> qtc_text c \<noteq> None"
    and "secret_ok c"
  shows "\<exists>u1 u3. expire_mids u = Some (Returned 0, u1) \<and> prepare_outbound_proposals False [] u1 = Some (Returned ps, u1\<lparr>tabs := g\<rparr>) \<and>
    handshake c (u1\<lparr>tabs := g\<rparr>) = Some (Returned prompt, u3) \<and> started v rest (bs @ hello c codes (challenge_of (early @ noted)) (version v)) u3"
proof -
  note fu = talks_fields [OF u]
  have rv: "ready 60000 v" using assms(1) by (simp add: box_ok_def)
  have ru: "ready 60000 u" by (rule talks_ready [OF u rv])
  have "recording u" "sound_cursor u"
    using assms(3,4) recording_env [OF fu(4)] env_fields(5) [OF fu(4)] by (simp_all add: sound_cursor_def)
  then obtain u1 where u1: "expire_mids u = Some (Returned 0, u1)" "mids_only u u1" "known u1 \<subseteq> known u" using expire_mids_known by blast
  then obtain d tc r i where "u1 = u\<lparr>db := d, time_calls := tc, random_calls := r, initialized := i\<rparr>" by (auto simp: mids_only_def)
  then have f1: "outbox u1 = outbox v" "outbox_ok u1" "mem u1 = mem v" "tabs u1 = tabs v" "inp u1 = inp u" "outp u1 = outp u" "version u1 = version v"
      "unlinkable u1 = unlinkable v" "ready 60000 u1" "mails u1 = mails u" "env u1 = env v"
    using fu assms(1) env_fields(1) [OF fu(4)] ru by (simp_all add: ready_def line_ok_def box_ok_def env_def)
  let ?u2 = "u1\<lparr>tabs := g\<rparr>"
  have prep: "prepare_outbound_proposals False [] u1 = Some (Returned ps, ?u2)" by (rule offers_prepare [OF assms(2) f1(2,3,4,1)])
  have r2: "ready 60000 ?u2" "inp ?u2 = first_words early sid_line noted prompt @ rest" "length (sid (version ?u2)) < 32"
    using f1 fu(1) assms(2,7) by (simp_all add: ready_def line_ok_def offers_def)
  have "known ?u2 \<subseteq> known v" "env ?u2 = env v" using u1(3) fu(10) f1(11) by (simp_all add: known_def env_def)
  then have st: "started v (inp ?u2) bs ?u2" using r2(1) f1 fu by (simp add: started_def)
  from handshake_done [OF r2(1,2) assms(6) r2(3) assms(8,9)] obtain u3 where
      u3: "handshake c ?u2 = Some (Returned prompt, u3)" "talks ?u2 rest (hello c codes (challenge_of (early @ noted)) (version v)) u3"
    using f1(7) by auto
  then show ?thesis using u1(1) prep started_talks [OF st u3(2)] by auto
qed

lemma caller_exchange:
  assumes "box_ok v" and "offers False [] v ps g M" and "recording v" and "sound_cursor v" and "takes 60000 (emailaddr c) N S v qs"
    and u: "talks v (first_words early sid_line noted prompt @ snd (dialogue False ps qs)) bs u"
    and "first_words_ok codes early sid_line noted prompt" and "length (sid (version v)) < 32" "strchr codes 73 \<noteq> None \<longrightarrow> qtc_text c \<noteq> None"
    and "secret_ok c" and "ps = [] \<longrightarrow> \<not> strbegins prompt (bytes ''FF'')"
  shows "\<exists>u'. wl2k_exchange c [Select_input] u = Some (Returned (), u') \<and> ready 60000 u' \<and>
    outp u' = outp u @ hello c codes (challenge_of (early @ noted)) (version v) @ fst (dialogue False ps qs) \<and> outbox u' = [] \<and>
    mails u' = mails u @ mail_of v (emailaddr c) S qs \<and> mid ` set qs \<subseteq> known u' \<and> known u' \<subseteq> known v \<union> mid ` set qs"
proof -
  let ?told = "fst (dialogue False ps qs)"
  note fu = talks_fields [OF u]
  obtain u1 u3 where run: "expire_mids u = Some (Returned 0, u1)" "prepare_outbound_proposals False [] u1 = Some (Returned ps, u1\<lparr>tabs := g\<rparr>)"
      "handshake c (u1\<lparr>tabs := g\<rparr>) = Some (Returned prompt, u3)"
    and st: "started v (snd (dialogue False ps qs)) (bs @ hello c codes (challenge_of (early @ noted)) (version v)) u3"
    using caller_start [OF assms(1-4) u assms(7-10)] by blast
  note t3 = started_takes [OF st assms(5)]
  have i3: "inp u3 = snd (dialogue False ps qs) @ []" using st by (simp add: started_def)
  have no: "ps = [] \<Longrightarrow> \<not> strbegins prompt (bytes ''FF'')" using assms(11) by simp
  obtain props v1 where
    b: "b2outboundproposal prompt ps 0 u3 = Some (Returned (0, props, min PROPLIMIT (length ps)), v1)"
    "\<forall>t. \<exists>ps' v'. inbound_parser props (min PROPLIMIT (length ps)) (emailaddr c) (v1\<lparr>alarm := t\<rparr>) = Some (Returned (-1, ps'), v') \<and>
      ready 60000 v' \<and> carries u3 [] ?told (mail_of v (emailaddr c) S qs) (mid ` set qs) (files_of ps) v'"
    using calling_session [OF t3(1) offers_outgoing [OF assms(2)] _ i3 no] t3(2) by auto
  obtain ps' v' where v': "inbound_parser props (min PROPLIMIT (length ps)) (emailaddr c) (v1\<lparr>alarm := timeoutsecs v1\<rparr>) = Some (Returned (-1, ps'), v')"
      "ready 60000 v'" "carries u3 [] ?told (mail_of v (emailaddr c) S qs) (mid ` set qs) (files_of ps) v'"
    using b(2) by blast
  have "wl2k_exchange c [Select_input] u = Some (Returned (), v')"
    using run b(1) v'(1)
    by (simp add: wl2k_exchange_def andthen_def resettimeout_def change_def ret_def)
  moreover have "outbox (without_files u3 X) = outbox (without_files v X)" for X using st by (simp add: started_def without_files_def)
  then have "outbox v' = []" by (intro files_gone [OF _ assms(2,1)]) (use v'(3) in \<open>simp add: carries_def\<close>)
  moreover have "outp v' = outp u @ hello c codes (challenge_of (early @ noted)) (version v) @ ?told" "mails v' = mails u @ mail_of v (emailaddr c) S qs"
      "mid ` set qs \<subseteq> known v'" "known v' \<subseteq> known v \<union> mid ` set qs"
    using v'(3) st fu by (auto simp: carries_def started_def)
  ultimately show ?thesis using v'(2) by blast
qed

text \<open>Without messages, and with a prompt that reads as \<open>FF\<close>, the caller says \<open>FQ\<close> at once.\<close>

lemma caller_quits:
  assumes "box_ok v" and "outbox v = []" and "recording v" and "sound_cursor v"
    and u: "talks v (first_words early sid_line noted prompt @ rest) bs u"
    and "first_words_ok codes early sid_line noted prompt" and "length (sid (version v)) < 32" "strchr codes 73 \<noteq> None \<longrightarrow> qtc_text c \<noteq> None"
    and "secret_ok c" and "strbegins prompt (bytes ''FF'')"
  shows "\<exists>u'. wl2k_exchange c [Select_input] u = Some (Returned (), u') \<and>
    outp u' = outp u @ hello c codes (challenge_of (early @ noted)) (version v) @ bytes ''FQ'' @ [13] \<and> inp u' = rest \<and> mails u' = mails u"
proof -
  obtain ps g M where ps: "offers False [] v ps g M" using outbox_proposals [OF assms(1), of False] by blast
  have none: "ps = []" using offers_none [OF ps] assms(2) by simp
  obtain u1 u3 where run: "expire_mids u = Some (Returned 0, u1)" "prepare_outbound_proposals False [] u1 = Some (Returned [], u1\<lparr>tabs := g\<rparr>)"
      "handshake c (u1\<lparr>tabs := g\<rparr>) = Some (Returned prompt, u3)"
    and st: "started v rest (bs @ hello c codes (challenge_of (early @ noted)) (version v)) u3"
    using caller_start [OF assms(1) ps assms(3,4) u assms(6-9)] none by blast
  obtain u4 where u4: "send (bytes ''FQ'' @ [13]) u3 = Some (Returned (), u4)" "talks u3 (inp u3) (bytes ''FQ'' @ [13]) u4"
    using talks_send [of 60000 u3] st by (auto simp: started_def)
  have "b2outboundproposal prompt [] 0 u3 = Some (Returned (-1, [], 0), u4)"
    using u4(1) assms(10) by (simp add: b2outboundproposal_def andthen_def ret_def)
  then have "wl2k_exchange c [Select_input] u = Some (Returned (), u4)" using run by (simp add: wl2k_exchange_def andthen_def ret_def)
  then show ?thesis using st talks_fields [OF u4(2)] talks_fields [OF u] by (auto simp: started_def)
qed

text \<open>The caller and a station that answers, when both have messages.\<close>

lemma caller_and_station:
  fixes v :: "'d world" and w :: "'e world"
  assumes "box_ok v" "recording v" "sound_cursor v" and "box_ok w" "\<forall>e \<in> set (outbox w). qualifies call (the (snd e))"
    and "wants w addr T (outbox v)" and "wants v (emailaddr c) S (outbox w)"
    and "first_words_ok codes early sid_line noted prompt" and "outbox v = [] \<longrightarrow> \<not> strbegins prompt (bytes ''FF'')"
    and "length (sid (version v)) < 32" "strchr codes 73 \<noteq> None \<longrightarrow> qtc_text c \<noteq> None" "secret_ok c"
  shows "\<exists>told answered w' qs. answering_session call addr (w\<lparr>inp := told\<rparr>) = Some (Returned (-1, qs), w') \<and>
    outp w' = outp w @ answered \<and> outbox w' = [] \<and> mails w' = mails w @ mail_from w addr T (outbox v) \<and> known w' = known w \<union> fst ` set (outbox v) \<and>
    (\<forall>u bs. talks v (first_words early sid_line noted prompt @ answered) bs u \<longrightarrow> (\<exists>u'. wl2k_exchange c [Select_input] u = Some (Returned (), u') \<and> ready 60000 u' \<and>
      outp u' = outp v @ bs @ hello c codes (challenge_of (early @ noted)) (version v) @ told \<and> outbox u' = [] \<and>
      mails u' = mails v @ mail_from v (emailaddr c) S (outbox w) \<and> fst ` set (outbox w) \<subseteq> known u'))"
proof -
  have v: "ready 60000 v" using assms(1) by (simp add: box_ok_def)
  obtain ps gg M where ps: "offers False [] v ps gg M" using outbox_proposals [OF assms(1), of False] by blast
  obtain qs h N where qs: "offers True call w qs h N" using outbox_proposals [OF assms(4), of True call] assms(5) by blast
  note tw = wants_takes [OF assms(6) ps assms(1)] and tv = wants_takes [OF assms(7) qs assms(4)]
  let ?told = "fst (dialogue False ps qs)" and ?answered = "snd (dialogue False ps qs)"
  from answering_run [OF assms(4) qs tw(1)] obtain qs' w' where w': "answering_session call addr (w\<lparr>inp := ?told\<rparr>) = Some (Returned (-1, qs'), w')"
      "outp w' = outp w @ ?answered" "outbox w' = []" "mails w' = mails w @ mail_from w addr T (outbox v)" "known w' = known w \<union> fst ` set (outbox v)"
    unfolding tw(2,3) by blast
  have no: "ps = [] \<longrightarrow> \<not> strbegins prompt (bytes ''FF'')" using assms(9) offers_none [OF ps] by simp
  have "\<exists>u'. wl2k_exchange c [Select_input] u = Some (Returned (), u') \<and> ready 60000 u' \<and>
      outp u' = outp v @ bs @ hello c codes (challenge_of (early @ noted)) (version v) @ ?told \<and> outbox u' = [] \<and>
      mails u' = mails v @ mail_from v (emailaddr c) S (outbox w) \<and> fst ` set (outbox w) \<subseteq> known u'"
    if t: "talks v (first_words early sid_line noted prompt @ ?answered) bs u" for u bs
    using caller_exchange [OF assms(1) ps assms(2,3) tv(1) t assms(8,10-12) no] talks_fields(2,9) [OF t] tv(2,3) by auto
  then show ?thesis using w' by (intro exI [of _ ?told] exI [of _ ?answered] exI [of _ w'] exI [of _ qs']) simp
qed

text \<open>The world when the configuration is read and the alarm set.\<close>

definition settled :: "cfg_t \<Rightarrow> 'd world \<Rightarrow> 'd world" where
  "settled c v = v\<lparr>gsendmsgonly_flag := bSendonly c, timeoutsecs := cfg_timeoutsecs c, alarm := cfg_timeoutsecs c\<rparr>"

lemma settled_station:
  assumes "box_ok v" and "recording v" and "sound_cursor v"
  shows "box_ok (settled c v)" "recording (settled c v)" "sound_cursor (settled c v)" "outbox (settled c v) = outbox v" "outp (settled c v) = outp v"
    "version (settled c v) = version v" "mails (settled c v) = mails v"
  using assms by (simp_all add: settled_def box_ok_def ready_def line_ok_def recording_def sound_cursor_def)

lemma settled_wants:
  assumes "wants (v\<lparr>gsendmsgonly_flag := bSendonly c\<rparr>) email S box" and "box_ok v" and "recording v"
  shows "wants (settled c v) email S box" "mail_from (settled c v) email S box = mail_from v email S box"
proof -
  have "ready 60000 (settled c v)" using assms(2) by (simp add: settled_def box_ok_def ready_def line_ok_def)
  moreover have "known (settled c v) = known (v\<lparr>gsendmsgonly_flag := bSendonly c\<rparr>)" "delivers (settled c v) = delivers (v\<lparr>gsendmsgonly_flag := bSendonly c\<rparr>)"
      and cmd: "mail_command (settled c v) = mail_command v" and "recording (settled c v)" "gsendmsgonly_flag (settled c v) = bSendonly c"
    using assms(3) by (simp_all add: settled_def known_def delivers_def converts_def mail_command_def recording_def fun_eq_iff)
  ultimately show "wants (settled c v) email S box" using assms(1) unfolding wants_def by simp
  show "mail_from (settled c v) email S box = mail_from v email S box" unfolding mail_from_def cmd by simp
qed

section \<open>Properties\<close>

definition login :: "cstr list \<Rightarrow> cstr \<Rightarrow> cstr list \<Rightarrow> cstr \<Rightarrow> u8 list" where
  "login before call_line between pw_line = lines_of (before @ [call_line]) @ lines_of (between @ [pw_line])"

definition login_ok :: "cstr list \<Rightarrow> cstr \<Rightarrow> cstr list \<Rightarrow> cstr \<Rightarrow> bool" where
  "login_ok before call_line between pw_line \<longleftrightarrow>
     (\<forall>l \<in> set (before @ [call_line] @ between @ [pw_line]). plain_line l) \<and>
     (\<forall>l \<in> set before. \<not> strbegins l (bytes ''Callsign'')) \<and> strbegins call_line (bytes ''Callsign'') \<and>
     (\<forall>l \<in> set between. \<not> strbegins l (bytes ''Password'')) \<and> strbegins pw_line (bytes ''Password'')"

text \<open>
  C2: A run of \<open>wl2ktelnet\<close>, command line to end, exchanges the mail with the server, if: each file of both outboxes has a
  name of at most 12 plain characters, at most 3867 bytes, is removable; no id is known to its receiver, who converts each
  message, is not send-only, and whose sendmail takes it; the server's messages qualify for the caller; memory, id databases and
  socket work; lines are plain, these and the secure password at most 1000 bytes; \<open>select\<close> reports input once; the own
  identification has less than 32 bytes; the gridsquare is set if the server's codes have I; without messages the prompt is not FF.
  The server asks for call and password, identifies itself (notes, a challenge), prompts, and then is as
  wl2k.c behind the handshake (\<open>answering_session\<close>).  The program logs in, answers the challenge if it has the password
  for it, sends its whole outbox, takes all of the server's, exits with 0; neither has a file left, each gave all messages of the
  other to sendmail and recorded the ids.
\<close>

theorem telnet_delivers:
  fixes v :: "'d world" and w :: "'e world"
  assumes "box_ok v" and "recording v" and "sound_cursor v"
    and "box_ok w" and "\<forall>e \<in> set (outbox w). qualifies call (the (snd e))"
    and "wants w addr T (outbox v)" and "wants (v\<lparr>gsendmsgonly_flag := bSendonly c\<rparr>) (emailaddr c) S (outbox w)"
    and "\<forall>x. \<exists>v1. telnet_loadconfig user conffile args (v\<lparr>inp := x\<rparr>) = Some (Returned (True, c), v1)" and "password c = Some pw"
    and "socket_ok net \<and> connect_ok net \<and> fdopen_ok net \<and> resolves net (the (hostname c))"
    and "login_ok before call_line between pw_line" and "first_words_ok codes early sid_line noted prompt"
    and "outbox v = [] \<longrightarrow> \<not> strbegins prompt (bytes ''FF'')"
    and "length (sid (version v)) < 32" and "strchr codes 73 \<noteq> None \<longrightarrow> gridsquare c \<noteq> None" and "secret_ok c"
  shows "\<exists>told answered v' w' qs.
    telnet_main net user conffile args [Select_input] (v\<lparr>inp := login before call_line between pw_line @ first_words early sid_line noted prompt @ answered\<rparr>)
      = Some (Exited 0, v') \<and>
    answering_session call addr (w\<lparr>inp := told\<rparr>) = Some (Returned (-1, qs), w') \<and>
    outp v' = outp v @ bytes ''.'' @ the (mycall c) @ crlf @ pw @ crlf @ hello c codes (challenge_of (early @ noted)) (version v) @ told \<and>
    outp w' = outp w @ answered \<and> outbox v' = [] \<and> outbox w' = [] \<and>
    mails w' = mails w @ mail_from w addr T (outbox v) \<and> mails v' = mails v @ mail_from v (emailaddr c) S (outbox w) \<and>
    known w' = known w \<union> fst ` set (outbox v) \<and> fst ` set (outbox w) \<subseteq> known v'"
proof -
  have calls: "call_ok (mycall c)" "call_ok (targetcall c)" "hostname c \<noteq> None"
    using assms(8) telnet_loadconfig_calls by blast+
  then obtain my where my: "mycall c = Some my" by (auto simp: call_ok_def)
  have q: "strchr codes 73 \<noteq> None \<longrightarrow> qtc_text c \<noteq> None"
    using assms(15) calls by (auto simp: qtc_text_def call_ok_def)
  note v = settled_station [OF assms(1-3), of c] and s = settled_wants [OF assms(7,1,2)]
  have w: "wants w addr T (outbox (settled c v))" "outbox (settled c v) = [] \<longrightarrow> \<not> strbegins prompt (bytes ''FF'')"
      "length (sid (version (settled c v))) < 32"
    using assms(6,13,14) v(4,6) by simp_all
  obtain told answered w' qs where
    w': "answering_session call addr (w\<lparr>inp := told\<rparr>) = Some (Returned (-1, qs), w')"
      "outp w' = outp w @ answered" "outbox w' = []" "mails w' = mails w @ mail_from w addr T (outbox v)" "known w' = known w \<union> fst ` set (outbox v)"
    and v': "\<forall>u bs. talks (settled c v) (first_words early sid_line noted prompt @ answered) bs u \<longrightarrow> (\<exists>u'. wl2k_exchange c [Select_input] u = Some (Returned (), u') \<and> ready 60000 u' \<and>
      outp u' = outp v @ bs @ hello c codes (challenge_of (early @ noted)) (version v) @ told \<and> outbox u' = [] \<and>
      mails u' = mails v @ mail_from v (emailaddr c) S (outbox w) \<and> fst ` set (outbox w) \<subseteq> known u')"
    using caller_and_station [OF v(1-3) assms(4,5) w(1) s(1) assms(12) w(2,3) q assms(16), unfolded v(4-7) s(2)]
    by - (elim exE conjE, rule that, assumption+)
  let ?x = "login before call_line between pw_line @ first_words early sid_line noted prompt @ answered"
  obtain v1 where "telnet_loadconfig user conffile args (v\<lparr>inp := ?x\<rparr>) = Some (Returned (True, c), v1)" using assms(8) by blast
  with telnet_loadconfig_world [OF this]
  have load: "telnet_loadconfig user conffile args (v\<lparr>inp := ?x\<rparr>) = Some (Returned (True, c), v\<lparr>inp := ?x, gsendmsgonly_flag := bSendonly c\<rparr>)" by simp
  let ?u = "v\<lparr>inp := ?x, gsendmsgonly_flag := bSendonly c, timeoutsecs := cfg_timeoutsecs c, alarm := cfg_timeoutsecs c\<rparr>"
  have u: "ready 60000 ?u" "inp ?u = lines_of (before @ [call_line]) @ lines_of (between @ [pw_line]) @ (first_words early sid_line noted prompt @ answered)"
    using assms(1) by (simp_all add: box_ok_def ready_def line_ok_def login_def)
  from telnet_login_done [OF u _ _ _ _ _ my assms(9)] assms(11) obtain u2 where
    u2: "telnet_login c ?u = Some (Returned (), u2)" "talks ?u (first_words early sid_line noted prompt @ answered) (bytes ''.'' @ my @ crlf @ pw @ crlf) u2"
    by (auto simp: login_ok_def)
  from u2(2) have "talks (settled c v) (first_words early sid_line noted prompt @ answered) (bytes ''.'' @ my @ crlf @ pw @ crlf) u2"
    by (simp add: talks_def settled_def)
  from v' [rule_format, OF this] obtain u3 where u3: "wl2k_exchange c [Select_input] u2 = Some (Returned (), u3)"
      "outp u3 = outp v @ (bytes ''.'' @ my @ crlf @ pw @ crlf) @ hello c codes (challenge_of (early @ noted)) (version v) @ told" "outbox u3 = []"
      "mails u3 = mails v @ mail_from v (emailaddr c) S (outbox w)" "fst ` set (outbox w) \<subseteq> known u3" by blast
  have "telnet_main net user conffile args [Select_input] (v\<lparr>inp := ?x\<rparr>) = Some (Exited 0, u3)"
    using load u2(1) u3(1) assms(10) calls(3)
    by (auto simp: telnet_main_def andthen_def settimeout_def resettimeout_def change_def defined_def ret_def exit_def)
  then show ?thesis using u3 w' my by (intro exI [of _ told] exI [of _ answered] exI [of _ u3] exI [of _ w'] exI [of _ qs]) simp
qed

text \<open>Seven messages to a server with two lines of welcome, and two from it.\<close>

definition sample_net :: net where
  "sample_net = \<lparr>socket_ok = True, resolves = (\<lambda>_. True), connect_ok = True, fdopen_ok = True\<rparr>"

lemma sample_greeting:
  "login_ok [bytes ''Welcome''] (bytes ''Callsign :'') [] (bytes ''Password :'')"
  "first_words_ok (bytes ''-B2FWHJM$'') [bytes ''*** N2QZ Connected to CMS''] (bytes ''[WL2K-5.0-B2FWHJM$]'') [bytes '';PQ: 23753528''] (bytes ''CMS>'')"
  "strchr (bytes ''-B2FWHJM$'') 73 = None"
  by (simp_all add: login_ok_def first_words_ok_def note_line_def plain_line_def prompt_line_def sid_codes_def strchr_def strstr.simps strupper_def bytes_def byte_of_def
      line_char_def is_lower_def)

definition two_way_line :: "cstr list" where
  "two_way_line = [bytes ''-cw1aw'']"

definition two_way_config :: cfg_t where
  "two_way_config = no_config\<lparr>mycall := Some (bytes ''N2QZ''), targetcall := Some (bytes ''W1AW''), hostname := Some (bytes ''cms.local''),
      hostport := 8772, password := Some (bytes ''secret''), emailaddr := Some (bytes ''user@localhost''), cfg_timeoutsecs := 60\<rparr>"

lemma two_way_run:
  assumes "mem w = (\<lambda>_. True)"
  shows "\<exists>w'. telnet_loadconfig (bytes ''user'') sample_file two_way_line w = Some (Returned (True, two_way_config), w')"
proof -
  obtain conf where conf: "conf_read (\<lambda>_. True) sample_file = Some (Inr conf)" "\<forall>name. conf_get conf name = Some (map_of sample_settings name)"
    using sample_file_read by blast
  define d where "d = no_config\<lparr>emailaddr := Some (bytes ''user@localhost''), password := Some (bytes ''CMSTelnet''),
      targetcall := Some (bytes ''wl2k''), hostname := Some (bytes ''cms.winlink.org''), cfg_timeoutsecs := 120, hostport := 8772\<rparr>"
  have d: "telnet_defaults (bytes ''user'') w = Some (Returned d, w)"
    by (simp add: telnet_defaults_def default_email_def andthen_def look_def string_copy_run ret_def assms strdup_def granted_def bytes_def d_def)
  have c: "telnet_file conf d w = Some (Returned (d\<lparr>mycall := Some (bytes ''n2qz''), cfg_timeoutsecs := 60, password := Some (bytes ''secret''),
      hostname := Some (bytes ''cms.local'')\<rparr>), w)"
    by (simp add: telnet_file_def file_string_step file_number_step file_call_step conf(2) sample_values sample_numbers with_value_def)
      (simp add: ret_def)
  have up: "strupper (Some (bytes ''n2qz'')) = Some (bytes ''N2QZ'')" "strupper (Some (bytes ''w1aw'')) = Some (bytes ''W1AW'')"
    by (simp_all add: strupper_def bytes_def byte_of_def is_lower_def to_upper_def)
  have args: "telnet_args two_way_line = ([Opt_arg CHR ''c'' (bytes ''w1aw'')], [])"
    by (simp add: two_way_line_def telnet_args_def telnet_options_def option_rules)
  have "read_file sample_file w = Some (Returned conf, w)" by (simp add: read_file_run assms conf)
  then show ?thesis
    using d c conf
    by (simp add: assms telnet_loadconfig_def andthen_def look_def granted_def args read_options_def start_opts_def
        set_config_def change_def ret_def copy_flags_def finish_def telnet_complete_def d_def no_config_def upper_calls_def up two_way_config_def)
qed

theorem telnet_delivers_witness:
  "\<exists>told answered v' w' qs.
    telnet_main sample_net (bytes ''user'') sample_file two_way_line [Select_input] (mid_world\<lparr>outbox := seven_files,
        inp := login [bytes ''Welcome''] (bytes ''Callsign :'') [] (bytes ''Password :'') @
          first_words [bytes ''*** N2QZ Connected to CMS''] (bytes ''[WL2K-5.0-B2FWHJM$]'') [bytes '';PQ: 23753528''] (bytes ''CMS>'') @ answered\<rparr>)
      = Some (Exited 0, v') \<and>
    answering_session (bytes ''N2QZ'') (Some (bytes ''n2qz'')) (mid_world\<lparr>outbox := two_files, inp := told\<rparr>) = Some (Returned (-1, qs), w') \<and>
    outp v' = bytes ''.N2QZ'' @ crlf @ bytes ''secret'' @ crlf @ bytes ''[UnixLINK-0.14-B2FIHM$]'' @ [13] @ told \<and> outp w' = answered \<and>
    outbox v' = [] \<and> outbox w' = [] \<and> length (mails w') = 7 \<and> length (mails v') = 2"
proof -
  let ?v = "mid_world\<lparr>outbox := seven_files\<rparr>" and ?w = "mid_world\<lparr>outbox := two_files\<rparr>" and ?c = two_way_config
  have load: "\<forall>x. \<exists>v1. telnet_loadconfig (bytes ''user'') sample_file two_way_line (?v\<lparr>inp := x\<rparr>) = Some (Returned (True, ?c), v1)"
    by (intro allI two_way_run) (simp add: mid_world_def)
  have st: "recording ?v" "sound_cursor ?v"
    using sample_station(2) by (simp_all add: sound_cursor_def recording_def) (simp_all add: mid_world_def map_dbops_def)
  have box: "box_ok ?v" "box_ok ?w" "\<forall>e \<in> set (outbox ?w). qualifies (bytes ''N2QZ'') (the (snd e))"
      "wants ?w (Some (bytes ''n2qz'')) (\<lambda>_. []) (outbox ?v)"
    using sample_boxes(1,2) sample_boxes(3) [of two_files "bytes ''N2QZ''"] by (simp_all add: bytes_def)
  have "?v\<lparr>gsendmsgonly_flag := bSendonly ?c\<rparr> = ?v" by (simp add: two_way_config_def no_config_def mid_world_def)
  moreover have "emailaddr ?c = Some (bytes ''user@localhost'')" by (simp add: two_way_config_def)
  ultimately have wv: "wants (?v\<lparr>gsendmsgonly_flag := bSendonly ?c\<rparr>) (emailaddr ?c) (\<lambda>_. []) (outbox ?w)"
    using sample_boxes(2) [of two_files] by (simp add: bytes_def)
  have net: "socket_ok sample_net \<and> connect_ok sample_net \<and> fdopen_ok sample_net \<and> resolves sample_net (the (hostname ?c))"
    by (simp add: sample_net_def)
  have pw: "password ?c = Some (bytes ''secret'')" and my: "mycall ?c = Some (bytes ''N2QZ'')" by (simp_all add: two_way_config_def)
  have ver: "length (sid (version ?v)) < 32" "sid (version ?v) = bytes ''[UnixLINK-0.14-B2FIHM$]''"
    by (simp_all add: mid_world_def sid_def bytes_def byte_of_def)
  have grid: "strchr (bytes ''-B2FWHJM$'') 73 \<noteq> None \<longrightarrow> gridsquare ?c \<noteq> None" using sample_greeting(3) by simp
  have secret: "secret_ok ?c" by (simp add: secret_ok_def two_way_config_def no_config_def)
  have line: "outbox ?v = [] \<longrightarrow> \<not> strbegins (bytes ''CMS>'') (bytes ''FF'')" by (simp add: bytes_def byte_of_def)
  have out: "outp ?v = []" "outp ?w = []" "mails ?v = []" "mails ?w = []" "length (outbox ?v) = 7" "length (outbox ?w) = 2"
    by (simp_all add: seven_files_def two_files_def, simp_all add: mid_world_def)
  obtain told answered v' w' qs where r:
    "telnet_main sample_net (bytes ''user'') sample_file two_way_line [Select_input] (?v\<lparr>
        inp := login [bytes ''Welcome''] (bytes ''Callsign :'') [] (bytes ''Password :'') @
          first_words [bytes ''*** N2QZ Connected to CMS''] (bytes ''[WL2K-5.0-B2FWHJM$]'') [bytes '';PQ: 23753528''] (bytes ''CMS>'') @ answered\<rparr>)
      = Some (Exited 0, v')"
    "answering_session (bytes ''N2QZ'') (Some (bytes ''n2qz'')) (?w\<lparr>inp := told\<rparr>) = Some (Returned (-1, qs), w')"
    "outp v' = outp ?v @ bytes ''.'' @ the (mycall ?c) @ crlf @ bytes ''secret'' @ crlf @
      hello ?c (bytes ''-B2FWHJM$'') (challenge_of ([bytes ''*** N2QZ Connected to CMS''] @ [bytes '';PQ: 23753528''])) (version ?v) @ told"
    "outp w' = outp ?w @ answered" "outbox v' = []" "outbox w' = []"
    "mails w' = mails ?w @ mail_from ?w (Some (bytes ''n2qz'')) (\<lambda>_. []) (outbox ?v)"
    "mails v' = mails ?v @ mail_from ?v (emailaddr ?c) (\<lambda>_. []) (outbox ?w)"
    using telnet_delivers [OF box(1) st box(2-4) wv load pw net sample_greeting(1,2) line ver(1) grid secret]
    by - (elim exE conjE, rule that, assumption+)
  have "hello ?c (bytes ''-B2FWHJM$'') (challenge_of ([bytes ''*** N2QZ Connected to CMS''] @ [bytes '';PQ: 23753528''])) (version ?v) = bytes ''[UnixLINK-0.14-B2FIHM$]'' @ [13]"
    using sample_greeting(3) ver(2) by (simp add: hello_def responds_def two_way_config_def no_config_def)
  with r(3) have "outp v' = bytes ''.N2QZ'' @ crlf @ bytes ''secret'' @ crlf @ bytes ''[UnixLINK-0.14-B2FIHM$]'' @ [13] @ told"
    unfolding out(1) my by (simp add: bytes_def)
  moreover have "outp w' = answered" "length (mails w') = 7" "length (mails v') = 2" using r(4,7,8) out(2-6) by (simp_all add: mail_from_def)
  ultimately show ?thesis using r(1,2,5,6) by blast
qed

end
