(* ===== verification/Relay.thy ===== *)
theory Relay
  imports Drivers
begin

text \<open>
  The parent process of \<open>wl2kax25\<close>: it carries bytes between the radio, a socket of AX.25 packets, and the child process
  that runs the exchange, which is on the other end of a socket pair.
\<close>

section \<open>Writing\<close>

text \<open>
  The result of a call of \<open>write\<close>: the number of bytes it could take, of which it takes no more than it is given, -1 with
  \<open>EAGAIN\<close>, or -1 with another error.
\<close>

datatype wrote = Wrote nat | Would_block | Write_error

definition paclen :: nat where
  "paclen = 255"

text \<open>
  The loop that writes what has been read, \<open>d\<close>: its variables are \<open>pbuf\<close>, as an index into the array, \<open>len\<close>, the number of
  calls so far and the packets taken.  An index below 0 is outside the array.
\<close>

type_synonym writing = "int \<times> int \<times> nat \<times> u8 list list"

definition write_step :: "(nat \<Rightarrow> wrote) \<Rightarrow> u8 list \<Rightarrow> writing \<Rightarrow> (writing + nat \<times> u8 list list) option" where
  "write_step ws d = (\<lambda>(pbuf, len, i, out).
     if len \<le> 0 then Some (Inr (i, out))
     else if pbuf < 0 then None
     else let packet = take (min paclen (nat len)) (drop (nat pbuf) d) in
       (case ws i of
          Wrote k \<Rightarrow>
            (let n = min k (length packet) in
             if n = 0 then Some (Inr (Suc i, out))
             else Some (Inl (pbuf + int n, len - int n, Suc i, out @ [take n packet])))
        | Would_block \<Rightarrow> Some (Inl (pbuf - 1, len + 1, Suc i, out))
        | Write_error \<Rightarrow> Some (Inr (Suc i, out))))"

definition write_all :: "(nat \<Rightarrow> wrote) \<Rightarrow> u8 list \<Rightarrow> nat \<Rightarrow> (nat \<times> u8 list list) option" where
  "write_all ws d i = loop (write_step ws d) (0, int (length d), i, [])"

section \<open>The loop over poll\<close>

text \<open>
  What \<open>read\<close> gives on a descriptor that is ready, where nothing is the end of the file, and the result of a call of \<open>poll\<close>: an
  error, with the information whether it is \<open>EINTR\<close>, or the descriptors of the radio and of the child that are ready.
\<close>

datatype readable = Got "u8 list" | Read_error

datatype polled = Poll_error bool | Ready "readable option" "readable option"

text \<open>How the loop ends: with the end of the process, by leaving it, or not yet.\<close>

datatype relay_end = Process_ends int | Loop_left | Waiting

text \<open>The packets written so far, and the number of calls of \<open>write\<close>.\<close>

record relay =
  to_child :: "u8 list list"
  to_radio :: "u8 list list"
  child_writes :: nat
  radio_writes :: nat

text \<open>One turn; the outbound side is only looked at when the inbound side has not ended the process.\<close>

definition forward :: "(nat \<Rightarrow> wrote) \<Rightarrow> readable option \<Rightarrow> nat \<Rightarrow> (nat \<times> u8 list list) option" where
  "forward ws i n = (case i of Some (Got d) \<Rightarrow> write_all ws d n | _ \<Rightarrow> Some (n, []))"

definition relay_inbound :: "(nat \<Rightarrow> wrote) \<Rightarrow> readable option \<Rightarrow> relay \<Rightarrow> (relay + relay_end \<times> relay) option" where
  "relay_inbound ws i r =
     (if i = Some (Got []) then Some (Inr (Process_ends 1, r))
      else do { (n, ps) \<leftarrow> forward ws i (child_writes r);
                Some (Inl (r\<lparr>to_child := to_child r @ ps, child_writes := n\<rparr>)) })"

definition relay_outbound :: "(nat \<Rightarrow> wrote) \<Rightarrow> readable option \<Rightarrow> relay \<Rightarrow> (relay + relay_end \<times> relay) option" where
  "relay_outbound ws i r =
     (if i = Some (Got []) then Some (Inr (Loop_left, r))
      else do { (n, ps) \<leftarrow> forward ws i (radio_writes r);
                Some (Inl (r\<lparr>to_radio := to_radio r @ ps, radio_writes := n\<rparr>)) })"

definition relay_round :: "(nat \<Rightarrow> wrote) \<Rightarrow> (nat \<Rightarrow> wrote) \<Rightarrow> int \<Rightarrow> polled \<Rightarrow> relay \<Rightarrow> (relay + relay_end \<times> relay) option" where
  "relay_round cw rw flag p r = (case p of
     Poll_error eintr \<Rightarrow> Some (Inr (if eintr then Loop_left else Process_ends 1, r))
   | Ready i o' \<Rightarrow>
       do { x \<leftarrow> relay_inbound cw i r;
            case x of
              Inr e \<Rightarrow> Some (Inr e)
            | Inl r \<Rightarrow>
                do { x \<leftarrow> relay_outbound rw o' r;
                     Some (case x of Inr e \<Rightarrow> Inr e | Inl r \<Rightarrow> if flag \<noteq> 1 then Inr (Loop_left, r) else Inl r) } })"

text \<open>The loop over the results of \<open>poll\<close>; behind the last of them the process waits.\<close>

fun relay_loop :: "(nat \<Rightarrow> wrote) \<Rightarrow> (nat \<Rightarrow> wrote) \<Rightarrow> int \<Rightarrow> polled list \<Rightarrow> relay \<Rightarrow> (relay_end \<times> relay) option" where
  "relay_loop cw rw flag [] r = Some (Waiting, r)"
| "relay_loop cw rw flag (p # ps) r =
     do { x \<leftarrow> relay_round cw rw flag p r;
          case x of Inr e \<Rightarrow> Some e | Inl r \<Rightarrow> relay_loop cw rw flag ps r }"

text \<open>
  The status of the parent: behind the loop it is that of the child, if \<open>waitpid\<close> gives one, and 0 otherwise.
\<close>

definition relay_status :: "relay_end \<Rightarrow> int option \<Rightarrow> int option" where
  "relay_status e child = (case e of
     Process_ends n \<Rightarrow> Some n | Loop_left \<Rightarrow> Some (case child of None \<Rightarrow> 0 | Some n \<Rightarrow> n) | Waiting \<Rightarrow> None)"

section \<open>What is carried\<close>

text \<open>The bytes a reader of the two descriptors gets until the relay ends.\<close>

definition bytes_read :: "readable option \<Rightarrow> u8 list" where
  "bytes_read i = (case i of Some (Got d) \<Rightarrow> d | _ \<Rightarrow> [])"

fun carried :: "polled list \<Rightarrow> u8 list \<times> u8 list" where
  "carried [] = ([], [])"
| "carried (Poll_error _ # ps) = ([], [])"
| "carried (Ready i o' # ps) =
     (if i = Some (Got []) then ([], [])
      else if o' = Some (Got []) then (bytes_read i, [])
      else (case carried ps of (a, b) \<Rightarrow> (bytes_read i @ a, bytes_read o' @ b)))"

definition accepting :: "(nat \<Rightarrow> wrote) \<Rightarrow> bool" where
  "accepting ws \<longleftrightarrow> (\<forall>i. \<exists>k. ws i = Wrote (Suc k))"

definition packet_ok :: "u8 list \<Rightarrow> bool" where
  "packet_ok p \<longleftrightarrow> p \<noteq> [] \<and> length p \<le> paclen"

lemma write_all_accepting:
  assumes "accepting ws"
  shows "\<exists>n ps. write_all ws d i = Some (n, ps) \<and> concat ps = d \<and> (\<forall>p \<in> set ps. packet_ok p)"
proof -
  let ?I = "\<lambda>(pbuf, len, j, out). 0 \<le> pbuf \<and> 0 \<le> len \<and> pbuf + len = int (length d) \<and>
      concat out = take (nat pbuf) d \<and> (\<forall>p \<in> set out. packet_ok p)"
  have "\<exists>r. loop (write_step ws d) (0, int (length d), i, []) = Some r \<and> (case r of (n, ps) \<Rightarrow> concat ps = d \<and> (\<forall>p \<in> set ps. packet_ok p))"
  proof (rule loop_total [where I = ?I and m = "\<lambda>(pbuf, len, j, out). nat len"])
    show "?I (0, int (length d), i, [])" by simp
    fix s :: writing assume "?I s"
    moreover obtain pbuf len j out where s: "s = (pbuf, len, j, out)" by (cases s) auto
    ultimately have I: "0 \<le> pbuf" "0 \<le> len" "pbuf + len = int (length d)" "concat out = take (nat pbuf) d" "\<forall>p \<in> set out. packet_ok p"
      by simp_all
    show "(\<exists>s'. write_step ws d s = Some (Inl s') \<and> ?I s' \<and>
          (case s' of (pbuf, len, j, out) \<Rightarrow> nat len) < (case s of (pbuf, len, j, out) \<Rightarrow> nat len)) \<or>
        (\<exists>r. write_step ws d s = Some (Inr r) \<and> (case r of (n, ps) \<Rightarrow> concat ps = d \<and> (\<forall>p \<in> set ps. packet_ok p)))"
    proof (cases "len = 0")
      case True
      then show ?thesis using I by (simp add: s write_step_def)
    next
      case False
      obtain k where k: "ws j = Wrote (Suc k)" using assms by (auto simp: accepting_def)
      define packet where "packet = take (min paclen (nat len)) (drop (nat pbuf) d)"
      define n where "n = min (Suc k) (length packet)"
      have len: "length packet = min paclen (nat len)" using I(1,2,3) by (auto simp: packet_def)
      have n: "0 < n" "n \<le> length packet" "n \<le> paclen" "int n \<le> len" using False I(2) len by (auto simp: n_def paclen_def)
      have "write_step ws d s = Some (Inl (pbuf + int n, len - int n, Suc j, out @ [take n packet]))"
        using False I(1,2) k n(1) by (simp add: s write_step_def packet_def [symmetric] n_def [symmetric] Let_def)
      moreover have "take n packet = take n (drop (nat pbuf) d)" using n len by (simp add: packet_def min_def)
      then have "concat (out @ [take n packet]) = take (nat (pbuf + int n)) d"
        using I(1,4) by (simp add: nat_add_distrib take_add)
      moreover have "packet_ok (take n packet)" using n by (auto simp: packet_ok_def)
      ultimately show ?thesis using I n by (auto simp: s)
    qed
  qed
  then show ?thesis unfolding write_all_def by auto
qed

lemma forward_accepting:
  assumes "accepting ws"
  shows "\<exists>n' ps. forward ws i n = Some (n', ps) \<and> concat ps = bytes_read i \<and> (\<forall>p \<in> set ps. packet_ok p)"
proof (cases "\<exists>d. i = Some (Got d)")
  case True
  then obtain d where "i = Some (Got d)" by blast
  then show ?thesis using write_all_accepting [OF assms, of d n] by (simp add: forward_def bytes_read_def)
next
  case False
  then have "forward ws i n = Some (n, [])" "bytes_read i = []"
    by (auto simp: forward_def bytes_read_def split: option.splits readable.splits)
  then show ?thesis by simp
qed

lemma relay_inbound_accepting:
  assumes "accepting ws" "i \<noteq> Some (Got [])"
  shows "\<exists>r' ps. relay_inbound ws i r = Some (Inl r') \<and> to_child r' = to_child r @ ps \<and> to_radio r' = to_radio r \<and>
    concat ps = bytes_read i \<and> (\<forall>p \<in> set ps. packet_ok p)"
proof -
  obtain n ps where "forward ws i (child_writes r) = Some (n, ps)" "concat ps = bytes_read i" "\<forall>p \<in> set ps. packet_ok p"
    using forward_accepting [OF assms(1)] by blast
  then show ?thesis using assms(2) by (simp add: relay_inbound_def)
qed

lemma relay_outbound_accepting:
  assumes "accepting ws" "i \<noteq> Some (Got [])"
  shows "\<exists>r' ps. relay_outbound ws i r = Some (Inl r') \<and> to_radio r' = to_radio r @ ps \<and> to_child r' = to_child r \<and>
    concat ps = bytes_read i \<and> (\<forall>p \<in> set ps. packet_ok p)"
proof -
  obtain n ps where "forward ws i (radio_writes r) = Some (n, ps)" "concat ps = bytes_read i" "\<forall>p \<in> set ps. packet_ok p"
    using forward_accepting [OF assms(1)] by blast
  then show ?thesis using assms(2) by (simp add: relay_outbound_def)
qed

text \<open>What the two sides have got, as a relation between two states of the relay.\<close>

definition moved :: "relay \<Rightarrow> u8 list \<times> u8 list \<Rightarrow> relay \<Rightarrow> bool" where
  "moved r ab r' \<longleftrightarrow> (\<exists>ps qs. to_child r' = to_child r @ ps \<and> to_radio r' = to_radio r @ qs \<and>
     concat ps = fst ab \<and> concat qs = snd ab \<and> (\<forall>p \<in> set (ps @ qs). packet_ok p))"

lemma moved_refl: "moved r ([], []) r"
  by (simp add: moved_def)

lemma moved_trans:
  assumes "moved r (a, b) s" "moved s (c, d) t"
  shows "moved r (a @ c, b @ d) t"
proof -
  obtain ps qs where 1: "to_child s = to_child r @ ps" "to_radio s = to_radio r @ qs" "concat ps = a" "concat qs = b"
    "\<forall>p \<in> set (ps @ qs). packet_ok p" using assms(1) by (auto simp: moved_def)
  obtain ps' qs' where 2: "to_child t = to_child s @ ps'" "to_radio t = to_radio s @ qs'" "concat ps' = c" "concat qs' = d"
    "\<forall>p \<in> set (ps' @ qs'). packet_ok p" using assms(2) by (auto simp: moved_def)
  from 1 2 show ?thesis unfolding moved_def by (intro exI [of _ "ps @ ps'"] exI [of _ "qs @ qs'"]) auto
qed

lemma inbound_moved:
  assumes "accepting ws" "i \<noteq> Some (Got [])"
  shows "\<exists>r'. relay_inbound ws i r = Some (Inl r') \<and> moved r (bytes_read i, []) r'"
  using relay_inbound_accepting [OF assms, of r] unfolding moved_def by fastforce

lemma outbound_moved:
  assumes "accepting ws" "i \<noteq> Some (Got [])"
  shows "\<exists>r'. relay_outbound ws i r = Some (Inl r') \<and> moved r ([], bytes_read i) r'"
  using relay_outbound_accepting [OF assms, of r] unfolding moved_def by fastforce

lemma relay_loop_carries:
  assumes "accepting cw" "accepting rw"
  shows "\<exists>e r'. relay_loop cw rw 1 ps r = Some (e, r') \<and> moved r (carried ps) r'"
proof (induction ps arbitrary: r rule: carried.induct)
  case 1
  then show ?case by (simp add: moved_refl)
next
  case (2 eintr ps)
  then show ?case by (simp add: relay_round_def moved_refl)
next
  case (3 i k ps)
  show ?case
  proof (cases "i = Some (Got [])")
    case True
    then show ?thesis by (simp add: relay_round_def relay_inbound_def moved_refl)
  next
    case i: False
    obtain s where s: "relay_inbound cw i r = Some (Inl s)" "moved r (bytes_read i, []) s"
      using inbound_moved [OF assms(1) i] by blast
    show ?thesis
    proof (cases "k = Some (Got [])")
      case True
      then show ?thesis using i s by (simp add: relay_round_def relay_outbound_def)
    next
      case k: False
      obtain u where u: "relay_outbound rw k s = Some (Inl u)" "moved s ([], bytes_read k) u"
        using outbound_moved [OF assms(2) k] by blast
      obtain e r' where r: "relay_loop cw rw 1 ps u = Some (e, r')" "moved u (carried ps) r'" using 3 [OF i k] by blast
      obtain a b where ab: "carried ps = (a, b)" by fastforce
      have "moved r (bytes_read i @ [], [] @ bytes_read k) u" by (rule moved_trans [OF s(2) u(2)])
      from moved_trans [OF this] r(2) ab have "moved r (bytes_read i @ a, bytes_read k @ b) r'" by simp
      then show ?thesis using i k s(1) u(1) r(1) ab by (simp add: relay_round_def)
    qed
  qed
qed

section \<open>Properties\<close>

text \<open>
  C14: The relay of \<open>wl2kax25\<close> neither hangs nor loses, adds or reorders a byte: as long as every \<open>write\<close> takes something,
  the loop comes to its end or to a further wait whatever \<open>poll\<close> and \<open>read\<close> give, and the child and the radio have
  got exactly the bytes that were read on the other side, in packets that are not empty and have at most 255 bytes.
\<close>

theorem relay_forwards:
  assumes "\<forall>i. \<exists>k. cw i = Wrote (Suc k)" and "\<forall>i. \<exists>k. rw i = Wrote (Suc k)"
  shows "\<exists>e r' ps qs. relay_loop cw rw 1 rounds r = Some (e, r') \<and>
    to_child r' = to_child r @ ps \<and> concat ps = fst (carried rounds) \<and>
    to_radio r' = to_radio r @ qs \<and> concat qs = snd (carried rounds) \<and>
    (\<forall>p \<in> set (ps @ qs). p \<noteq> [] \<and> length p \<le> 255)"
  using relay_loop_carries [of cw rw rounds r] assms
  by (auto simp: accepting_def moved_def packet_ok_def paclen_def)

text \<open>A session of three turns, with a radio that takes at most 100 bytes at a time.\<close>

definition no_relay :: relay where
  "no_relay = \<lparr>to_child = [], to_radio = [], child_writes = 0, radio_writes = 0\<rparr>"

definition sample_rounds :: "polled list" where
  "sample_rounds = [Ready (Some (Got (bytes ''W1AW>''))) None, Ready None (Some (Got (replicate 300 65))),
     Ready (Some (Got (bytes ''FF''))) (Some (Got []))]"

theorem relay_forwards_witness:
  "\<exists>e r' ps qs. relay_loop (\<lambda>_. Wrote 512) (\<lambda>_. Wrote 100) 1 sample_rounds no_relay = Some (e, r') \<and>
    to_child r' = ps \<and> concat ps = bytes ''W1AW>FF'' \<and> to_radio r' = qs \<and> concat qs = replicate 300 65 \<and>
    (\<forall>p \<in> set (ps @ qs). p \<noteq> [] \<and> length p \<le> 255)"
proof -
  have "\<forall>i :: nat. \<exists>k. (\<lambda>_. Wrote 512) i = Wrote (Suc k)" "\<forall>i :: nat. \<exists>k. (\<lambda>_. Wrote 100) i = Wrote (Suc k)"
    by (auto intro: exI [of _ 511] exI [of _ 99])
  moreover have "carried sample_rounds = (bytes ''W1AW>FF'', replicate 300 65)"
    by (simp add: sample_rounds_def bytes_read_def bytes_def)
  ultimately show ?thesis
    using relay_forwards [of "\<lambda>_. Wrote 512" "\<lambda>_. Wrote 100" sample_rounds no_relay] by (simp add: no_relay_def)
qed

text \<open>
  C17: The retry after \<open>EAGAIN\<close> is wrong: -1 is added to the pointer like a number of bytes.  When the first call of \<open>write\<close>
  would block, the next one reads before the array, and after \<open>j\<close> bytes have been taken the last of them is sent again.
\<close>

theorem relay_retry_rewinds:
  assumes "d \<noteq> []" and "length d \<le> paclen"
  shows "(ws i = Would_block \<longrightarrow> write_all ws d i = None) \<and>
    (0 < j \<and> j < length d \<and> ws i = Wrote j \<and> ws (Suc i) = Would_block \<and> ws (i + 2) = Wrote paclen \<longrightarrow>
      write_all ws d i = Some (i + 3, [take j d, drop (j - 1) d]))"
proof (intro conjI impI)
  assume "ws i = Would_block"
  then have "write_step ws d (0, int (length d), i, []) = Some (Inl (-1, int (length d) + 1, Suc i, []))"
    using assms(1) by (simp add: write_step_def Let_def)
  moreover have "write_step ws d (-1, int (length d) + 1, Suc i, []) = None" by (simp add: write_step_def)
  ultimately show "write_all ws d i = None"
    unfolding write_all_def by (simp add: loop_next) (simp add: loop.simps)
next
  assume *: "0 < j \<and> j < length d \<and> ws i = Wrote j \<and> ws (Suc i) = Would_block \<and> ws (i + 2) = Wrote paclen"
  have 1: "write_step ws d (0, int (length d), i, []) = Some (Inl (int j, int (length d) - int j, Suc i, [take j d]))"
    using * assms by (auto simp: write_step_def Let_def min_def)
  have 2: "write_step ws d (int j, int (length d) - int j, Suc i, [take j d])
      = Some (Inl (int j - 1, int (length d) - int j + 1, i + 2, [take j d]))"
    using * by (simp add: write_step_def Let_def)
  have d: "drop (j - 1) d \<noteq> []" "length (drop (j - 1) d) \<le> paclen" using * assms(2) by auto
  have "write_step ws d (int j - 1, int (length d) - int j + 1, i + 2, [take j d])
      = Some (Inl (int (length d), 0, i + 3, [take j d] @ [drop (j - 1) d]))"
    using * assms(2) d by (auto simp: write_step_def Let_def min_def nat_diff_distrib')
  then show "write_all ws d i = Some (i + 3, [take j d, drop (j - 1) d])"
    unfolding write_all_def by (simp add: loop_next 1 2) (simp add: loop_exit write_step_def)
qed

theorem relay_retry_rewinds_witness:
  "write_all (\<lambda>_. Would_block) (bytes ''FF'') 0 = None \<and>
    write_all (\<lambda>i. if i = 0 then Wrote 2 else if i = 1 then Would_block else Wrote paclen) (bytes ''FS YN'') 0
      = Some (3, [bytes ''FS'', bytes ''S YN''])"
proof
  show "write_all (\<lambda>_. Would_block) (bytes ''FF'') 0 = None"
    using relay_retry_rewinds [of "bytes ''FF''" "\<lambda>_. Would_block" 0] by (simp add: bytes_def paclen_def)
  show "write_all (\<lambda>i. if i = 0 then Wrote 2 else if i = 1 then Would_block else Wrote paclen) (bytes ''FS YN'') 0
      = Some (3, [bytes ''FS'', bytes ''S YN''])"
    using relay_retry_rewinds [of "bytes ''FS YN''" "\<lambda>i. if i = 0 then Wrote 2 else if i = 1 then Would_block else Wrote paclen" 0 2]
    by (simp add: bytes_def paclen_def)
qed

end
