(* ===== verification/Ax25.thy ===== *)
theory Ax25
  imports Relay
begin

text \<open>
  \<open>main\<close> of \<open>wl2kax25\<close>: the calls of libax25 and the kernel up to the connection, the fork, and what parent and child do then.
\<close>

section \<open>The connection\<close>

text \<open>\<open>struct full_sockaddr_ax25\<close>: the station, the number of digipeaters and their array.\<close>

record ax25_address =
  fsa_call :: cstr
  sax25_ndigis :: nat
  fsa_digipeater :: "cstr list"

datatype connection = Connected | Not_connected | Timed_out

text \<open>
  The library and the kernel: whether \<open>socketpair\<close> succeeds, the device and the call of a port, whether there is an AX.25 socket,
  how \<open>ax25_aton\<close> fills an address, what \<open>ax25_aton_entry\<close> makes of a call, which addresses can be bound, and how the attempt to
  connect to an address ends.
\<close>

record ax25_stack =
  socketpair_ok :: bool
  port_dev :: "cstr \<Rightarrow> bool"
  port_addr :: "cstr option \<Rightarrow> cstr option"
  ax25_socket_ok :: bool
  ax25_aton :: "cstr \<Rightarrow> ax25_address \<Rightarrow> int \<times> ax25_address"
  ax25_aton_entry :: "cstr \<Rightarrow> cstr"
  can_bind :: "ax25_address \<Rightarrow> bool"
  connects :: "ax25_address \<Rightarrow> connection"

text \<open>The own address, in a structure that was \<open>a\<close>: the call of the port is the digipeater when \<open>mycall\<close> names none.\<close>

definition own_address :: "ax25_stack \<Rightarrow> cfg_t \<Rightarrow> ax25_address \<Rightarrow> ax25_address option" where
  "own_address st c a =
     do { p \<leftarrow> port_addr st (ax25port c);
          my \<leftarrow> mycall c;
          let a = snd (ax25_aton st p a);
          let a = snd (ax25_aton st my a);
          Some (if sax25_ndigis a = 0
                then a\<lparr>sax25_ndigis := 1, fsa_digipeater := (fsa_digipeater a)[0 := ax25_aton_entry st p]\<rparr> else a) }"

definition ax25_connect :: "ax25_stack \<Rightarrow> ax25_address \<Rightarrow> cfg_t \<Rightarrow> ('d, unit) io" where
  "ax25_connect st a c =
     (if \<not> socketpair_ok st then fail
      else if (case ax25port c of None \<Rightarrow> False | Some p \<Rightarrow> \<not> port_dev st p) then fail
      else if \<not> ax25_socket_ok st then fail
      else andthen (defined (own_address st c a)) (\<lambda>own.
        if \<not> can_bind st own then fail
        else andthen (defined (targetcall c)) (\<lambda>target.
          case ax25_aton st target own of (r, peer) \<Rightarrow>
            if r < 0 then fail
            else andthen (settimeout (cfg_timeoutsecs c)) (\<lambda>_.
              case connects st peer of
                Not_connected \<Rightarrow> fail
              | Timed_out \<Rightarrow> sigalrm
              | Connected \<Rightarrow> unsettimeout))))"

section \<open>Parent and child\<close>

text \<open>
  The parent, from the results of \<open>poll\<close>, \<open>read\<close> and \<open>write\<close> and the status of the child; if the results end while it waits, it
  does not end.
\<close>

definition ax25_parent :: "(nat \<Rightarrow> wrote) \<Rightarrow> (nat \<Rightarrow> wrote) \<Rightarrow> polled list \<Rightarrow> int option \<Rightarrow> ('d, unit) io" where
  "ax25_parent cw rw polls child = andthen (look timeout_flag) (\<lambda>flag.
     andthen (defined (relay_loop cw rw flag polls \<lparr>to_child = [], to_radio = [], child_writes = 0, radio_writes = 0\<rparr>)) (\<lambda>(e, _).
       case relay_status e child of Some n \<Rightarrow> exit n | None \<Rightarrow> undefined_behaviour))"

text \<open>How \<open>fork\<close> returns, with what the process meets then: for the child, whether its end of the socket pair can be opened as a stream.\<close>

datatype forked = Fork_error | Child bool "select_result list" | Parent "nat \<Rightarrow> wrote" "nat \<Rightarrow> wrote" "polled list" "int option"

definition ax25_main :: "ax25_stack \<Rightarrow> ax25_address \<Rightarrow> cstr \<Rightarrow> (u8 list \<times> bool) option \<Rightarrow> cstr list \<Rightarrow> forked \<Rightarrow> ('d, unit) io" where
  "ax25_main st a user conffile args f = andthen (ax25_loadconfig user conffile args) (\<lambda>(_, c).
     andthen (ax25_connect st a c) (\<lambda>_.
       case f of
         Fork_error \<Rightarrow> fail
       | Child fdopen sel \<Rightarrow> ax25_child fdopen c sel
       | Parent cw rw polls child \<Rightarrow> ax25_parent cw rw polls child))"

text \<open>The calls that lead to a connection succeed.\<close>

definition reachable :: "ax25_stack \<Rightarrow> ax25_address \<Rightarrow> cfg_t \<Rightarrow> bool" where
  "reachable st a c \<longleftrightarrow> socketpair_ok st \<and> (\<forall>p. ax25port c = Some p \<longrightarrow> port_dev st p) \<and> ax25_socket_ok st \<and>
     (\<exists>own target. own_address st c a = Some own \<and> can_bind st own \<and> targetcall c = Some target \<and>
       0 \<le> fst (ax25_aton st target own) \<and> connects st (snd (ax25_aton st target own)) = Connected)"

lemma ax25_connect_done:
  "reachable st a c \<Longrightarrow> ax25_connect st a c w = Some (Returned (), w\<lparr>timeoutsecs := cfg_timeoutsecs c, alarm := 0\<rparr>)"
  by (auto simp: reachable_def ax25_connect_def andthen_def defined_def ret_def settimeout_def unsettimeout_def change_def split: option.split prod.split)

lemma ax25_connect_fails:
  assumes "mycall c = Some my" "targetcall c = Some target" "ax25port c = Some p" and "\<forall>p. port_dev st p \<longrightarrow> port_addr st (Some p) \<noteq> None"
    and "\<not> reachable st a c"
  shows "\<exists>w'. ax25_connect st a c w = Some (Exited 1, w') \<and> inp w' = inp w \<and> outp w' = outp w \<and> outbox w' = outbox w \<and> mails w' = mails w"
proof (cases "socketpair_ok st \<and> port_dev st p \<and> ax25_socket_ok st")
  case False
  then show ?thesis using assms(3) by (auto simp: ax25_connect_def fail_def exit_def)
next
  case True
  then obtain q where q: "port_addr st (ax25port c) = Some q" using assms(3,4) by auto
  then obtain own where own: "own_address st c a = Some own" using assms(1) by (simp add: own_address_def Let_def)
  obtain r peer where peer: "ax25_aton st target own = (r, peer)" by fastforce
  have "ax25_connect st a c w = (if \<not> can_bind st own \<or> r < 0 then fail
      else andthen (settimeout (cfg_timeoutsecs c)) (\<lambda>_. case connects st peer of Not_connected \<Rightarrow> fail | Timed_out \<Rightarrow> sigalrm | Connected \<Rightarrow> unsettimeout)) w"
    using True own peer assms(2,3) by (simp add: ax25_connect_def defined_def)
  moreover have "\<not> can_bind st own \<or> r < 0 \<or> connects st peer \<noteq> Connected"
    using assms(5) True own peer assms(2,3) by (auto simp: reachable_def)
  ultimately show ?thesis
    by (cases "connects st peer") (auto simp: fail_def exit_def andthen_def settimeout_def change_def sigalrm_def)
qed

lemma ax25_main_child:
  assumes "ax25_loadconfig user conffile args w = Some (Returned (True, c), w1)" and "reachable st a c"
  shows "ax25_main st a user conffile args (Child fdopen sel) w =
    (if fdopen then ax25_child True c sel (w\<lparr>gsendmsgonly_flag := bSendonly c\<rparr>)
     else Some (Exited 1, w\<lparr>gsendmsgonly_flag := bSendonly c, timeoutsecs := cfg_timeoutsecs c, alarm := 0\<rparr>))"
proof -
  note conn = ax25_connect_done [OF assms(2), of w1, unfolded ax25_loadconfig_world [OF assms(1)]]
  have "ax25_main st a user conffile args (Child fdopen sel) w
      = ax25_child fdopen c sel (w\<lparr>gsendmsgonly_flag := bSendonly c, timeoutsecs := cfg_timeoutsecs c, alarm := 0\<rparr>)"
    using assms(1) conn ax25_loadconfig_world [OF assms(1)] by (simp add: ax25_main_def andthen_def)
  then show ?thesis by (simp add: ax25_child_def andthen_def settimeout_def change_def fail_def exit_def)
qed

section \<open>Properties\<close>

text \<open>
  C32: When the connection cannot be made, the caller ends with status 1 and has touched nothing: whichever call fails, from the
  socket pair to the connection itself, refused or timed out, no byte is read or sent and the outbox is as before.
\<close>

theorem ax25_unreachable_exits:
  assumes "ax25_loadconfig user conffile args w = Some (Returned (True, c), w1)" and "\<forall>p. port_dev st p \<longrightarrow> port_addr st (Some p) \<noteq> None"
    and "\<not> reachable st a c"
  shows "\<exists>w'. ax25_main st a user conffile args f w = Some (Exited 1, w') \<and> inp w' = inp w \<and> outp w' = outp w \<and> outbox w' = outbox w \<and> mails w' = mails w"
proof -
  obtain my target p where c: "mycall c = Some my" "targetcall c = Some target" "ax25port c = Some p"
    using ax25_loadconfig_run [OF assms(1)] by (auto simp: call_ok_def)
  have "w1 = w\<lparr>gsendmsgonly_flag := bSendonly c\<rparr>" by (rule ax25_loadconfig_world [OF assms(1)])
  moreover have "\<exists>w'. ax25_connect st a c w1 = Some (Exited 1, w') \<and> inp w' = inp w1 \<and> outp w' = outp w1 \<and> outbox w' = outbox w1 \<and> mails w' = mails w1"
    using ax25_connect_fails [OF c assms(2,3)] .
  ultimately show ?thesis using assms(1) by (auto simp: ax25_main_def andthen_def)
qed

text \<open>A port with a call, and a station that answers or not.\<close>

definition sample_stack :: "connection \<Rightarrow> ax25_stack" where
  "sample_stack r = \<lparr>socketpair_ok = True, port_dev = (\<lambda>p. p = bytes ''sm0''), port_addr = (\<lambda>p. if p = Some (bytes ''sm0'') then Some (bytes ''W1AW-1'') else None),
     ax25_socket_ok = True, ax25_aton = (\<lambda>call a. (1, a\<lparr>fsa_call := call, sax25_ndigis := 0\<rparr>)), ax25_aton_entry = (\<lambda>call. call),
     can_bind = (\<lambda>a. sax25_ndigis a = 1), connects = (\<lambda>_. r)\<rparr>"

definition no_address :: ax25_address where
  "no_address = \<lparr>fsa_call = [], sax25_ndigis = 0, fsa_digipeater = replicate 8 []\<rparr>"

lemma sample_ports: "\<forall>p. port_dev (sample_stack r) p \<longrightarrow> port_addr (sample_stack r) (Some p) \<noteq> None"
  by (simp add: sample_stack_def)

lemma sample_reachable:
  "ax25port c = Some (bytes ''sm0'') \<Longrightarrow> mycall c \<noteq> None \<Longrightarrow> targetcall c \<noteq> None \<Longrightarrow> reachable (sample_stack r) no_address c \<longleftrightarrow> r = Connected"
  by (auto simp: reachable_def own_address_def sample_stack_def no_address_def)

theorem ax25_unreachable_exits_witness:
  "\<exists>w'. ax25_main (sample_stack Timed_out) no_address (bytes ''user'') sample_file [bytes ''-a'', bytes ''sm0'', bytes ''-cw1aw'']
      (Child True [Select_input]) (sample_world [65, 66]) = Some (Exited 1, w') \<and> inp w' = [65, 66] \<and> outp w' = []"
proof -
  have w: "mem (sample_world [65, 66]) = (\<lambda>_. True)" "inp (sample_world [65, 66]) = [65, 66]" "outp (sample_world [65, 66]) = []"
    by (simp_all add: sample_world_def)
  have "ax25port sample_ax25 = Some (bytes ''sm0'')" "mycall sample_ax25 \<noteq> None" "targetcall sample_ax25 \<noteq> None"
    by (simp_all add: sample_ax25_def no_config_def)
  from sample_reachable [OF this] have "\<not> reachable (sample_stack Timed_out) no_address sample_ax25" by simp
  from ax25_unreachable_exits [OF sample_driver_runs(2) [OF w(1)] sample_ports this, of "Child True [Select_input]", unfolded w(2,3)]
  show ?thesis by (elim exE conjE) (intro exI conjI)
qed

end
