(* ===== verification/P2p.thy ===== *)
theory P2p
  imports Telnet Ax25
begin

text \<open>
  Two stations: the exchange of \<open>wl2kax25\<close> on one side, a whole run of \<open>wl2kax25d\<close> on the other, with the greeting and the
  identification of each answered by the other.
\<close>

section \<open>The greeting\<close>

text \<open>What \<open>print_esc_string\<close> prints; it has no result when the string ends the program or ends in a backslash.\<close>

definition escape :: "u8 \<Rightarrow> u8" where
  "escape c = (if c = 97 then 7 else if c = 98 then 8 else if c = 102 then 12 else if c = 110 then 10 else if c = 114 then 13
     else if c = 116 then 9 else c)"

fun escaped :: "cstr \<Rightarrow> cstr option" where
  "escaped [] = Some []"
| "escaped (c # s) =
     (if c = 92 then
        (case s of [] \<Rightarrow> None | d # s \<Rightarrow> if d = 99 then None else map_option ((#) (escape d)) (escaped s))
      else map_option ((#) c) (escaped s))"

lemma put_run: "writes w = None \<Longrightarrow> put s w = Some (Returned (), w\<lparr>outp := outp w @ s\<rparr>)"
  by (simp add: put_def fprintf_def andthen_def ret_def)

lemma print_esc_char_run:
  assumes "writes w = None" "c \<noteq> 99"
  shows "print_esc_char c False w = Some (Returned (), w\<lparr>outp := outp w @ [escape c]\<rparr>)"
  using assms put_run [OF assms(1)] by (simp add: print_esc_char_def putchar_def escape_def andthen_def ret_def)

lemma print_esc_string_run:
  assumes "escaped s = Some t" "writes w = None"
  shows "print_esc_string s False w = Some (Returned (), w\<lparr>outp := outp w @ t\<rparr>)"
  using assms
proof (induction s arbitrary: t w rule: escaped.induct)
  case 1
  then show ?case by (simp add: ret_def)
next
  case (2 c s)
  show ?case
  proof (cases "c = 92")
    case True
    then obtain d s' t' where s: "s = d # s'" "d \<noteq> 99" "escaped s' = Some t'" "t = escape d # t'"
      using 2(3) by (auto split: list.splits if_splits)
    have "print_esc_string s' False (w\<lparr>outp := outp w @ [escape d]\<rparr>) = Some (Returned (), w\<lparr>outp := outp w @ t\<rparr>)"
      using 2(1) [OF True s(1,2,3), of "w\<lparr>outp := outp w @ [escape d]\<rparr>"] 2(4) s(4) by simp
    then show ?thesis using True s(1) print_esc_char_run [OF 2(4) s(2)] by (simp add: andthen_def)
  next
    case False
    then obtain t' where t: "escaped s = Some t'" "t = c # t'" using 2(3) by auto
    have "print_esc_string s False (w\<lparr>outp := outp w @ [c]\<rparr>) = Some (Returned (), w\<lparr>outp := outp w @ t\<rparr>)"
      using 2(2) [OF False t(1), of "w\<lparr>outp := outp w @ [c]\<rparr>"] 2(4) t(2) by simp
    then show ?thesis using False put_run [OF 2(4)] by (simp add: andthen_def putchar_def)
  qed
qed

definition grid_text :: "cfg_t \<Rightarrow> cstr" where
  "grid_text c = bytes ''(am|em:h1,g:'' @ (case gridsquare c of Some g \<Rightarrow> g | None \<Rightarrow> bytes ''XXyyzz'') @ bytes '')''"

definition banner :: "cfg_t \<Rightarrow> cstr" where
  "banner c = (case welcomemsg c of Some m \<Rightarrow> m | None \<Rightarrow> bytes ''Welcome'' @ [13])"

lemma talks_outp: "ready n w \<Longrightarrow> talks w (inp w) s (w\<lparr>outp := outp w @ s\<rparr>)"
  unfolding talks_def by (intro exI [of _ "linebuf w"] exI [of _ "alarm w"]) (simp add: ready_def line_ok_def split: option.split)

lemma daemon_greeting_done:
  fixes w :: "'d world"
  assumes "ready n w" "escaped (banner c) = Some t"
  shows "\<exists>w'. daemon_greeting c w = Some (Returned (), w') \<and> talks w (inp w) (sid (version w) @ [13] @ grid_text c @ [13] @ t) w'"
proof -
  let ?w = "w\<lparr>outp := outp w @ sid (version w) @ [13] @ grid_text c @ [13] @ t\<rparr>"
  have "writes w = None" using assms(1) by (simp add: ready_def)
  then have "daemon_greeting c w = Some (Returned (), ?w)"
    using print_esc_string_run [where w = "w\<lparr>outp := outp w @ x\<rparr>" for x, OF assms(2)]
    by (simp add: daemon_greeting_def andthen_def look_def put_run sid_def grid_text_def banner_def)
  then show ?thesis using talks_outp [OF assms(1)] by blast
qed

text \<open>The line that ends the greeting of a daemon, and the one before it.\<close>

definition call_line :: "cstr \<Rightarrow> cstr \<Rightarrow> proposal list \<Rightarrow> cstr" where
  "call_line a b qs = a @ bytes '' de '' @ b @
     (if qs = [] then []
      else bytes '' QTC '' @ show_dec (length qs) @ bytes '' msg '' @ show_dec ((sum_list (map usize qs) mod 2 ^ 64 + 18) mod 2 ^ 64) @ bytes '' char'') @
     bytes ''>''"

definition no_traffic :: "proposal list \<Rightarrow> u8 list" where
  "no_traffic qs = (if qs = [] then bytes ''No Traffic'' @ [13] else [])"

lemma call_line_length:
  assumes "length a \<le> 20" "length b \<le> 20" "length qs < 2 ^ 31"
  shows "length (call_line a b qs) \<le> 100"
proof -
  have d: "length (show_dec n) \<le> 20" if "n < 2 ^ 64" for n
    using that show_dec_length [of n 19] by simp
  have "length (show_dec (length qs)) \<le> 20" by (rule d) (use assms(3) in simp)
  moreover have "length (show_dec ((sum_list (map usize qs) mod 2 ^ 64 + 18) mod 2 ^ 64)) \<le> 20" by (rule d) (rule mod_less_divisor, simp)
  ultimately show ?thesis using assms(1,2) by (simp add: call_line_def bytes_def)
qed

lemma p2p_startmsg_done:
  assumes "ready 60000 w" "targetcall c = Some a" "mycall c = Some b" "length a \<le> 20" "length b \<le> 20" "length qs < 2 ^ 31"
  shows "\<exists>w'. p2p_startmsg c (length qs) (sum_list (map usize qs) mod 2 ^ 64) w = Some (Returned (), w') \<and>
    talks w (inp w) (no_traffic qs @ call_line a b qs @ [13]) w'"
proof -
  let ?s = "no_traffic qs @ call_line a b qs @ [13]"
  let ?w = "w\<lparr>alarm := timeoutsecs w, outp := outp w @ ?s\<rparr>"
  have w: "writes w = None" "granted (mem w) (length (call_line a b qs @ [13]) + 1)"
    using assms(1) call_line_length [OF assms(4-6)] by (simp_all add: ready_def plenty_granted [where n = 60000])
  have "p2p_startmsg c (length qs) (sum_list (map usize qs) mod 2 ^ 64) w = Some (Returned (), ?w)"
    using w assms(2,3)
    by (cases "qs = []")
      (simp_all add: p2p_startmsg_def andthen_def resettimeout_def change_def fprintf_or_exit_def fprintf_def defined_def asprintf_or_exit_def
        look_def ret_def call_line_def no_traffic_def bytes_def)
  moreover have "talks w (inp w) ?s ?w"
    unfolding talks_def using assms(1) by (intro exI [of _ "linebuf w"] exI [of _ "timeoutsecs w"]) (simp add: ready_def line_ok_def split: option.split)
  ultimately show ?thesis by blast
qed

section \<open>Lines\<close>

definition text_line :: "cstr \<Rightarrow> bool" where
  "text_line l \<longleftrightarrow> plain_line l \<and> strchr l 91 = None \<and> \<not> strbegins l (bytes '';'') \<and> l \<noteq> [] \<and> last l \<noteq> 62"

definition call_text :: "cstr \<Rightarrow> bool" where
  "call_text s \<longleftrightarrow> length s \<le> 20 \<and> (\<forall>c \<in> set s. line_char c \<and> c \<noteq> 59 \<and> c \<noteq> 91)"

lemma text_line_note: "text_line l \<Longrightarrow> note_line l" "text_line l \<Longrightarrow> next_challenge l ch = ch"
  using semicolon_first [of l "bytes ''PQ: ''"]
  by (auto simp: text_line_def note_line_def next_challenge_def bytes_def byte_of_def)

lemma text_challenge: "\<forall>l \<in> set ls. text_line l \<Longrightarrow> challenge_of ls = []"
proof -
  have "\<forall>l \<in> set ls. text_line l \<Longrightarrow> fold next_challenge ls ch = ch" for ch
    by (induction ls) (simp_all add: text_line_note)
  then show "\<forall>l \<in> set ls. text_line l \<Longrightarrow> challenge_of ls = []" by (simp add: challenge_of_def)
qed

lemma strchr_none: "c \<notin> set s \<Longrightarrow> strchr s c = None"
  by (induction s) (auto simp: strchr_def)

lemma strrchr_tail: "strrchr t c = Some u \<Longrightarrow> strrchr (s @ t) c = Some u"
  by (induction s) auto

lemma strstr_found: "strstr (s @ t @ r) t \<noteq> None"
proof (induction s)
  case Nil
  then show ?case by (simp add: strstr.simps)
next
  case (Cons c s)
  then show ?case by (subst strstr.simps) simp
qed

lemma take_behind: "length p \<le> n \<Longrightarrow> take n (p @ s) = p @ take (n - length p) s"
  by simp

lemma sid_line:
  assumes "\<forall>c \<in> set v. line_char c" "length (sid v) < 32"
  shows "plain_line (sid v)" "strchr (sid v) 91 \<noteq> None" "sid_codes (sid v) = Some (bytes ''-B2FIHM$'')" "\<not> strbegins (sid v) (bytes '';FW:'')"
    "take 1 (sid v) = [91]"
proof -
  show "take 1 (sid v) = [91]" by (simp add: sid_def bytes_def byte_of_def)
  show "plain_line (sid v)" using assms by (auto simp: plain_line_def sid_def bytes_def byte_of_def line_char_def)
  show "strchr (sid v) 91 \<noteq> None" by (simp add: sid_def bytes_def byte_of_def strchr_def)
  show "\<not> strbegins (sid v) (bytes '';FW:'')" by (simp add: sid_def bytes_def byte_of_def)
  have "strrchr (bytes ''-B2FIHM$]'') 45 = Some (bytes ''-B2FIHM$]'')" by (simp add: bytes_def byte_of_def)
  then have "strrchr (sid v) 45 = Some (bytes ''-B2FIHM$]'')"
    using strrchr_tail [of _ _ _ "bytes ''[UnixLINK-'' @ v"] by (simp add: sid_def)
  then show "sid_codes (sid v) = Some (bytes ''-B2FIHM$'')"
    by (simp add: sid_codes_def bytes_def byte_of_def strupper_def strstr.simps to_upper_def is_lower_def)
qed

lemma call_prompt:
  assumes "call_text a" "call_text b" "length qs < 2 ^ 31"
  shows "prompt_line (call_line a b qs)"
proof -
  have digits: "line_char c \<and> c \<noteq> 59 \<and> c \<noteq> 91" if "c \<in> set (show_dec n)" for c n
    using show_dec_chars [OF that] by (auto simp: line_char_def word_le_nat_alt word_less_nat_alt)
  have "\<forall>c \<in> set (call_line a b qs). line_char c \<and> c \<noteq> 59 \<and> c \<noteq> 91"
    using assms(1,2) digits by (auto simp: call_text_def call_line_def bytes_def byte_of_def line_char_def)
  moreover have "last (call_line a b qs) = 62" "call_line a b qs \<noteq> []" by (simp_all add: call_line_def bytes_def byte_of_def)
  moreover have "length (call_line a b qs) \<le> 1000" using call_line_length [of a b qs] assms by (simp add: call_text_def)
  moreover from calculation(1,3) have "\<not> strbegins (call_line a b qs) (bytes '';'')"
    by (cases "call_line a b qs") (auto simp: bytes_def byte_of_def)
  ultimately show ?thesis by (auto simp: prompt_line_def plain_line_def strchr_none)
qed

text \<open>The line with which the caller introduces itself, and what the daemon looks for in it.\<close>

lemma qtc_line:
  assumes "call_text a" "call_text b" "\<forall>x \<in> set g. line_char x \<and> x \<noteq> 91"
    and "mycall c = Some a" "targetcall c = Some b" "gridsquare c = Some g"
  shows "\<exists>q. qtc_text c = Some q \<and> plain_line (bytes ''; '' @ q) \<and> strchr (bytes ''; '' @ q) 91 = None \<and>
    strstr (bytes ''; '' @ q) (take 62 (b @ bytes '' DE '' @ a @ bytes '' '')) \<noteq> None"
proof -
  let ?t = "b @ bytes '' DE '' @ a @ bytes '' ''"
  let ?q = "take 62 (bytes ''>; '' @ b @ bytes '' DE '' @ a @ bytes '' ('' @ g @ bytes '')'')"
  have q: "qtc_text c = Some ?q" using assms(4-6) by (simp add: qtc_text_def)
  have len: "length ?t \<le> 45" using assms(1,2) by (simp add: call_text_def bytes_def)
  have "bytes ''>; '' @ b @ bytes '' DE '' @ a @ bytes '' ('' @ g @ bytes '')'' = (bytes ''>; '' @ ?t) @ (bytes ''('' @ g @ bytes '')'')"
    by (simp add: bytes_def)
  moreover have "length (bytes ''>; '' @ ?t) \<le> 62" using len by (simp add: bytes_def)
  note take_behind [OF this, of "bytes ''('' @ g @ bytes '')''"]
  ultimately have "?q = bytes ''>; '' @ ?t @ take (62 - length (bytes ''>; '' @ ?t)) (bytes ''('' @ g @ bytes '')'')"
    by (simp only: append_assoc)
  then have "strstr (bytes ''; '' @ ?q) ?t \<noteq> None"
    using strstr_found [of "bytes ''; '' @ bytes ''>; ''" ?t] by simp
  moreover have "take 62 ?t = ?t" using len by simp
  moreover have "\<forall>x \<in> set ?q. line_char x \<and> x \<noteq> 91"
    using assms(1-3) by (auto dest!: in_set_takeD simp: call_text_def bytes_def byte_of_def line_char_def)
  then have chars: "\<forall>x \<in> set (bytes ''; '' @ ?q). line_char x \<and> x \<noteq> 91" by (simp add: bytes_def byte_of_def line_char_def)
  have "strchr (bytes ''; '' @ ?q) 91 = None" by (rule strchr_none) (use chars in blast)
  moreover have "plain_line (bytes ''; '' @ ?q)"
    unfolding plain_line_def using chars by (simp add: bytes_def)
  ultimately show ?thesis using q by simp
qed

section \<open>The daemon\<close>

lemma daemon_handshake_done:
  assumes "ready 60000 w" "inp w = lines_of [bytes ''; '' @ q, sid_text] @ rest"
    and "plain_line (bytes ''; '' @ q)" "strchr (bytes ''; '' @ q) 91 = None"
    and "strstr (bytes ''; '' @ q) (take 62 (b @ bytes '' DE '' @ a @ bytes '' '')) \<noteq> None"
    and "plain_line sid_text" "strchr sid_text 91 \<noteq> None" "sid_codes sid_text = Some codes" "\<not> strbegins sid_text (bytes '';FW:'')"
    and "mycall d = Some b" "targetcall d = Some a"
  shows "\<exists>w'. handshake_no_secure_login d k w = Some (Returned sid_text, w') \<and> talks w rest [] w'"
proof -
  obtain w1 where w1: "wl2kgetline w = Some (Returned (Some (bytes ''; '' @ q)), w1)" "talks w (lines_of [sid_text] @ rest) [] w1"
    using talks_line [OF assms(1), of "bytes ''; '' @ q" "lines_of [sid_text] @ rest"] assms(2,3) by (auto simp: lines_of_def plain_line_def)
  note r1 = talks_ready [OF w1(2) assms(1)]
  have no: "\<not> strbegins (bytes ''; '' @ q) (bytes '';FW:'')" by (simp add: bytes_def byte_of_def)
  have "no_secure_step d k None w = Some (Returned (Inl None), w1)"
    using w1(1) assms(4,5,10,11) skip_lines_none [OF no, of w1]
    by (simp add: no_secure_step_def andthen_def defined_def ret_def) (simp add: bytes_def byte_of_def ret_def)
  note go = io_loop_next [of "no_secure_step d k", OF this]
  obtain w2 where w2: "wl2kgetline w1 = Some (Returned (Some sid_text), w2)" "talks w1 rest [] w2"
    using talks_line [OF r1, of sid_text rest] talks_fields(1) [OF w1(2)] assms(6) by (auto simp: lines_of_def plain_line_def)
  have "plenty (mem w2) (length sid_text + 1)"
    by (rule plenty_le [where n = 60000]) (use talks_ready [OF w2(2) r1] assms(6) in \<open>simp_all add: ready_def plain_line_def\<close>)
  from parse_inboundsid_codes [OF assms(8) this]
  have "no_secure_step d k None w1 = Some (Returned (Inr sid_text), w2)"
    using w2(1) assms(7) skip_lines_none [OF assms(9), of w2] by (simp add: no_secure_step_def andthen_def ret_def)
  from io_loop_done [of "no_secure_step d k", OF this] go
  have "handshake_no_secure_login d k w = Some (Returned sid_text, w2)" by (simp add: handshake_no_secure_login_def)
  then show ?thesis using talks_trans [OF w1(2) w2(2)] by auto
qed

text \<open>The exchange of a daemon up to the first line of the caller.\<close>

lemma daemon_start:
  assumes "box_ok w" "offers True a w qs h N" "recording w" "sound_cursor w" "length qs < 2 ^ 31"
    and "mycall d = Some b" "targetcall d = Some a" "call_text a" "call_text b"
  shows "\<exists>w1 w2. expire_mids w = Some (Returned 0, w1) \<and> prepare_outbound_proposals True a w1 = Some (Returned qs, w1\<lparr>tabs := h\<rparr>) \<and>
    p2p_startmsg d (length qs) (sum_list (map usize qs) mod 2 ^ 64) (w1\<lparr>tabs := h\<rparr>) = Some (Returned (), w2) \<and>
    started w (inp w) (no_traffic qs @ call_line a b qs @ [13]) w2"
proof -
  obtain w1 where w1: "expire_mids w = Some (Returned 0, w1)" "mids_only w w1" "known w1 \<subseteq> known w"
    using expire_mids_known [OF assms(3,4)] by blast
  then obtain dd tc r i where "w1 = w\<lparr>db := dd, time_calls := tc, random_calls := r, initialized := i\<rparr>" by (auto simp: mids_only_def)
  then have f1: "outbox w1 = outbox w" "outbox_ok w1" "mem w1 = mem w" "tabs w1 = tabs w" "inp w1 = inp w" "outp w1 = outp w"
      "unlinkable w1 = unlinkable w" "ready 60000 w1" "mails w1 = mails w" "env w1 = env w"
    using assms(1) by (simp_all add: box_ok_def ready_def line_ok_def env_def)
  have prep: "prepare_outbound_proposals True a w1 = Some (Returned qs, w1\<lparr>tabs := h\<rparr>)" by (rule offers_prepare [OF assms(2) f1(2,3,4,1)])
  have r: "ready 60000 (w1\<lparr>tabs := h\<rparr>)" using f1(8) assms(2) by (simp add: ready_def line_ok_def offers_def)
  moreover have "known (w1\<lparr>tabs := h\<rparr>) = known w1" "env (w1\<lparr>tabs := h\<rparr>) = env w1" by (simp_all add: known_def env_def)
  ultimately have st: "started w (inp w) [] (w1\<lparr>tabs := h\<rparr>)" using f1 w1(3) by (simp add: started_def)
  have "length a \<le> 20" "length b \<le> 20" using assms(8,9) by (simp_all add: call_text_def)
  from p2p_startmsg_done [OF r assms(7,6) this assms(5)] obtain w2 where
      w2: "p2p_startmsg d (length qs) (sum_list (map usize qs) mod 2 ^ 64) (w1\<lparr>tabs := h\<rparr>) = Some (Returned (), w2)"
      "talks (w1\<lparr>tabs := h\<rparr>) (inp w) (no_traffic qs @ call_line a b qs @ [13]) w2"
    using f1(5) by auto
  then show ?thesis using w1(1) prep started_talks [OF st w2(2)] by auto
qed

lemma daemon_exchange_done:
  fixes w :: "'e world"
  assumes "box_ok w" "offers True a w qs h N" "recording w" "sound_cursor w" "length qs < 2 ^ 31"
    and "inp w = lines_of [bytes ''; '' @ q, sid_text] @ fst (dialogue False ps qs)"
    and "plain_line (bytes ''; '' @ q)" "strchr (bytes ''; '' @ q) 91 = None"
    and "strstr (bytes ''; '' @ q) (take 62 (b @ bytes '' DE '' @ a @ bytes '' '')) \<noteq> None"
    and "plain_line sid_text" "strchr sid_text 91 \<noteq> None" "sid_codes sid_text = Some codes" "\<not> strbegins sid_text (bytes '';FW:'')"
    and "mycall d = Some b" "targetcall d = Some a" "call_text a" "call_text b" and "takes 60000 (emailaddr d) M T w ps"
  shows "\<exists>w'. wl2kd_exchange d w = Some (Returned (), w') \<and>
    outp w' = outp w @ no_traffic qs @ call_line a b qs @ [13] @ snd (dialogue False ps qs) \<and> outbox w' = [] \<and>
    mails w' = mails w @ mail_of w (emailaddr d) T ps \<and> mid ` set ps \<subseteq> known w' \<and> known w' \<subseteq> known w \<union> mid ` set ps"
proof -
  obtain w1 w2 where w1: "expire_mids w = Some (Returned 0, w1)" "prepare_outbound_proposals True a w1 = Some (Returned qs, w1\<lparr>tabs := h\<rparr>)"
      "p2p_startmsg d (length qs) (sum_list (map usize qs) mod 2 ^ 64) (w1\<lparr>tabs := h\<rparr>) = Some (Returned (), w2)"
    and st2: "started w (inp w) (no_traffic qs @ call_line a b qs @ [13]) w2"
    using daemon_start [OF assms(1-5,14-17)] by blast
  have r2: "ready 60000 w2" "inp w2 = lines_of [bytes ''; '' @ q, sid_text] @ fst (dialogue False ps qs)" using st2 assms(6) by (simp_all add: started_def)
  from daemon_handshake_done [OF r2 assms(7-15)] obtain w3 where
    w3: "handshake_no_secure_login d (length qs) w2 = Some (Returned sid_text, w3)" "talks w2 (fst (dialogue False ps qs)) [] w3" by blast
  note st3 = started_talks [OF st2 w3(2)]
  have i3: "inp w3 = fst (dialogue False ps qs) @ []" using st3 by (simp add: started_def)
  from called_session [OF started_takes(1) [OF st3 assms(18)] offers_outgoing [OF assms(2)] _ i3] obtain props w' where
    w': "inbound_parser qs 0 (emailaddr d) w3 = Some (Returned (-1, props), w')"
      "carries w3 [] (snd (dialogue False ps qs)) (mail_of w (emailaddr d) T ps) (mid ` set ps) (files_of qs) w'"
    using started_takes(2) [OF st3 assms(18)] by auto
  have "wl2kd_exchange d w = Some (Returned (), w')"
    using w1 w3(1) w'(1) assms(15) by (simp add: wl2kd_exchange_def andthen_def defined_def ret_def)
  moreover have "outbox (without_files w3 X) = outbox (without_files w X)" for X using st3 by (simp add: started_def without_files_def)
  then have "outbox w' = []" by (intro files_gone [OF _ assms(2,1)]) (use w'(2) in \<open>simp add: carries_def\<close>)
  moreover have "outp w' = outp w @ no_traffic qs @ call_line a b qs @ [13] @ snd (dialogue False ps qs)"
      "mails w' = mails w @ mail_of w (emailaddr d) T ps" "mid ` set ps \<subseteq> known w'" "known w' \<subseteq> known w \<union> mid ` set ps"
    using w'(2) st3 by (auto simp: carries_def started_def)
  ultimately show ?thesis by blast
qed

text \<open>The same with a caller that is not recognised.\<close>

lemma daemon_exchange_lost:
  assumes "box_ok w" "offers True a w qs h N" "recording w" "sound_cursor w" "length qs < 2 ^ 31"
    and "inp w = lines_of [bytes ''; '' @ q, sid_text] @ rest"
    and "plain_line (bytes ''; '' @ q)" "strchr (bytes ''; '' @ q) 91 = None"
    and "strstr (bytes ''; '' @ q) (take 62 (b @ bytes '' DE '' @ a @ bytes '' '')) = None"
    and "mycall d = Some b" "targetcall d = Some a" "call_text a" "call_text b"
    and "plain_line sid_text" "strchr sid_text 91 \<noteq> None" "sid_codes sid_text = Some codes" "\<not> strbegins sid_text (bytes '';FW:'')"
    and "take 1 sid_text = [91]"
  shows "wl2kd_exchange d w = None"
proof -
  obtain w1 k where w1: "expire_mids w = Some (Returned 0, w1)" "prepare_outbound_proposals True a w1 = Some (Returned qs, w1\<lparr>tabs := h\<rparr>)"
      "p2p_startmsg d (length qs) (sum_list (map usize qs) mod 2 ^ 64) (w1\<lparr>tabs := h\<rparr>) = Some (Returned (), k)"
    and st: "started w (inp w) (no_traffic qs @ call_line a b qs @ [13]) k"
    using daemon_start [OF assms(1-5,10-13)] by blast
  have r: "ready 60000 k" "inp k = inp w" using st by (simp_all add: started_def)
  obtain w2 where w2: "wl2kgetline k = Some (Returned (Some (bytes ''; '' @ q)), w2)" "talks k (lines_of [sid_text] @ rest) [] w2"
    using talks_line [OF r(1), of "bytes ''; '' @ q" "lines_of [sid_text] @ rest"] r(2) assms(6,7) by (auto simp: lines_of_def plain_line_def)
  have no: "\<not> strbegins (bytes ''; '' @ q) (bytes '';FW:'')" by (simp add: bytes_def byte_of_def)
  have "no_secure_step d (length qs) None k = Some (Returned (Inr (bytes ''; '' @ q)), w2)"
    using w2(1) assms(8-11) skip_lines_none [OF no, of w2]
    by (simp add: no_secure_step_def andthen_def defined_def ret_def) (simp add: bytes_def byte_of_def ret_def)
  from io_loop_done [of "no_secure_step d (length qs)", OF this]
  have h: "handshake_no_secure_login d (length qs) k = Some (Returned (bytes ''; '' @ q), w2)" by (simp add: handshake_no_secure_login_def)
  have "\<forall>c \<in> {'';'', ''FC'', ''FF'', ''B'', ''FQ'', ''F>''}. \<not> strbegins sid_text (bytes c)" "sid_text \<noteq> []"
    using assms(18) by (cases sid_text; simp add: bytes_def byte_of_def)+
  moreover have "plenty (mem w2) (2 * length sid_text + 32)" "line_ok w2"
    using talks_ready [OF w2(2) r(1)] assms(14) plenty_le [of _ 60000] by (auto simp: ready_def plain_line_def)
  ultimately have "inbound_parser qs 0 (emailaddr d) w2 = None"
    using talks_fields(1) [OF w2(2)] assms(14) by (intro prompt_line_undefined [of _ sid_text rest]) (simp_all add: lines_of_def plain_line_def)
  then show ?thesis
    using w1 h assms(11) by (simp add: wl2kd_exchange_def andthen_def defined_def ret_def)
qed

text \<open>The child process of the caller, against a station that offers \<open>qs\<close>.\<close>

lemma caller_run:
  fixes v :: "'d world" and c :: cfg_t
  defines "v1 \<equiv> v\<lparr>timeoutsecs := cfg_timeoutsecs c, alarm := cfg_timeoutsecs c\<rparr>"
  assumes "box_ok v1" and "offers False [] v1 ps g M" and "recording v" and "sound_cursor v" and "takes 60000 (emailaddr c) N S v1 qs"
    and "first_words_ok codes [] sid_line noted prompt" and "length (sid (version v)) < 32" "strchr codes 73 \<noteq> None \<longrightarrow> qtc_text c \<noteq> None"
    and "secret_ok c" and "ps = [] \<longrightarrow> \<not> strbegins prompt (bytes ''FF'')"
  shows "\<exists>v'. ax25_child True c [Select_input] (v\<lparr>inp := first_words [] sid_line noted prompt @ snd (dialogue False ps qs)\<rparr>) = Some (Exited 0, v') \<and>
    outp v' = outp v @ hello c codes (challenge_of noted) (version v) @ fst (dialogue False ps qs) \<and> outbox v' = [] \<and>
    mails v' = mails v @ mail_of v (emailaddr c) S qs \<and> mid ` set qs \<subseteq> known v' \<and> known v' \<subseteq> known v \<union> mid ` set qs"
proof -
  let ?x = "first_words [] sid_line noted prompt @ snd (dialogue False ps qs)"
  have v1: "recording v1" "sound_cursor v1" "version v1 = version v" "known v1 = known v" "mails v1 = mails v" "outp v1 = outp v"
      "mail_of v1 = (mail_of v :: cstr option \<Rightarrow> (cstr \<Rightarrow> cstr) \<Rightarrow> proposal list \<Rightarrow> (cstr \<times> u8 list) list)"
    using assms(4,5) by (simp_all add: v1_def recording_def sound_cursor_def known_def mail_of_def mail_command_def fun_eq_iff)
  have "ready 60000 v1" using assms(2) by (simp add: box_ok_def)
  then have t: "talks v1 ?x [] (v1\<lparr>inp := ?x\<rparr>)"
    using talks_here [of 60000 "v1\<lparr>inp := ?x\<rparr>"] by (simp add: talks_def ready_def line_ok_def)
  have "length (sid (version v1)) < 32" using assms(8) v1(3) by simp
  from caller_exchange [OF assms(2,3) v1(1,2) assms(6) t assms(7) this assms(9-11)] obtain v' where
    v': "wl2k_exchange c [Select_input] (v1\<lparr>inp := ?x\<rparr>) = Some (Returned (), v')"
      "outp v' = outp (v1\<lparr>inp := ?x\<rparr>) @ hello c codes (challenge_of noted) (version v) @ fst (dialogue False ps qs)" "outbox v' = []"
      "mails v' = mails (v1\<lparr>inp := ?x\<rparr>) @ mail_of v (emailaddr c) S qs" "mid ` set qs \<subseteq> known v'" "known v' \<subseteq> known v \<union> mid ` set qs"
    unfolding v1(3,4,7) append_Nil by blast
  have "v1\<lparr>inp := ?x\<rparr> = v\<lparr>inp := ?x, timeoutsecs := cfg_timeoutsecs c, alarm := cfg_timeoutsecs c\<rparr>" by (simp add: v1_def)
  note run = v'(1) [unfolded this]
  have "ax25_child True c [Select_input] (v\<lparr>inp := ?x\<rparr>) = Some (Exited 0, v')"
    using run by (simp add: ax25_child_def andthen_def settimeout_def change_def exit_def)
  then show ?thesis using v'(2-6) v1(5,6) by (intro exI [of _ v']) simp
qed

text \<open>The world in which a run of the daemon talks to its caller, and a run whose caller introduces itself.\<close>

definition serving :: "cfg_t \<Rightarrow> 'd world \<Rightarrow> 'd world" where
  "serving d w = w\<lparr>gsendmsgonly_flag := bSendonly d, timeoutsecs := cfg_timeoutsecs d, alarm := cfg_timeoutsecs d\<rparr>"

lemma serving_fields:
  "outbox (serving d w) = outbox w" "outbox_ok (serving d w) = outbox_ok w" "ready n (serving d w) = ready n w" "recording (serving d w) = recording w"
  "sound_cursor (serving d w) = sound_cursor w" "known (serving d w) = known w" "mails (serving d w) = mails w" "outp (serving d w) = outp w"
  "version (serving d w) = version w" "box_ok (serving d w) = box_ok w" "unlinkable (serving d w) = unlinkable w"
  by (simp_all add: serving_def ready_def line_ok_def recording_def sound_cursor_def known_def box_ok_def)

lemma serving_mail: "mail_of (serving d w) email T ps = mail_of w email T ps" "mail_from (serving d w) email T es = mail_from w email T es"
  by (simp_all add: serving_def mail_of_def mail_from_def mail_command_def)

lemma talks_box:
  fixes u w :: "'d world"
  assumes "talks u rest bs w"
  shows "box_ok u \<Longrightarrow> box_ok w" "offers bp2p call u qs h N \<Longrightarrow> offers bp2p call w qs h N" "recording u \<Longrightarrow> recording w" "sound_cursor u \<Longrightarrow> sound_cursor w"
proof -
  note f = talks_fields [OF assms]
  show "box_ok u \<Longrightarrow> box_ok w" using f(3,5,8) talks_ready [OF assms] by (simp add: box_ok_def)
  show "offers bp2p call u qs h N \<Longrightarrow> offers bp2p call w qs h N" using f(3,6) env_fields(1) [OF f(4)] by (simp add: offers_def)
  show "recording u \<Longrightarrow> recording w" using recording_env [OF f(4)] by simp
  show "sound_cursor u \<Longrightarrow> sound_cursor w" using env_fields(5) [OF f(4)] by (simp add: sound_cursor_def)
qed

lemma daemon_greets_anyone:
  fixes w :: "'e world"
  assumes "box_ok w" and "recording w" "sound_cursor w" "escaped (banner d) = Some t"
    and load: "\<forall>x. \<exists>w1. ax25d_loadconfig progname gmime user conffile args (w\<lparr>inp := x\<rparr>) = Some (Returned (True, d), w1)"
  shows "\<exists>u1. talks (serving d w) x (sid (version w) @ [13] @ grid_text d @ [13] @ t) u1 \<and> box_ok u1 \<and> recording u1 \<and> sound_cursor u1 \<and>
    (wl2kd_exchange d u1 = None \<longrightarrow> ax25d_main True progname gmime user conffile args (w\<lparr>inp := x\<rparr>) = None) \<and>
    (\<forall>u2. wl2kd_exchange d u1 = Some (Returned (), u2) \<longrightarrow>
      ax25d_main True progname gmime user conffile args (w\<lparr>inp := x\<rparr>) = Some (Exited 0, u2\<lparr>alarm := 0\<rparr>))"
proof -
  let ?u = "(serving d w)\<lparr>inp := x\<rparr>"
  have u: "ready 60000 ?u" using assms(1) by (simp add: serving_def box_ok_def ready_def line_ok_def)
  obtain u1 where u1: "daemon_greeting d ?u = Some (Returned (), u1)"
      "talks ?u (inp ?u) (sid (version ?u) @ [13] @ grid_text d @ [13] @ t) u1"
    using daemon_greeting_done [OF u assms(4)] by blast
  then have t1: "talks (serving d w) x (sid (version w) @ [13] @ grid_text d @ [13] @ t) u1" by (simp add: talks_def serving_def)
  obtain w2 where "ax25d_loadconfig progname gmime user conffile args (w\<lparr>inp := x\<rparr>) = Some (Returned (True, d), w2)" using load by blast
  with ax25d_loadconfig_world [OF this]
  have load: "ax25d_loadconfig progname gmime user conffile args (w\<lparr>inp := x\<rparr>)
    = Some (Returned (True, d), w\<lparr>inp := x, gsendmsgonly_flag := bSendonly d\<rparr>)" by simp
  have "?u = w\<lparr>inp := x, gsendmsgonly_flag := bSendonly d, timeoutsecs := cfg_timeoutsecs d, alarm := cfg_timeoutsecs d\<rparr>" by (simp add: serving_def)
  note greet = u1(1) [unfolded this]
  have "wl2kd_exchange d u1 = None \<longrightarrow> ax25d_main True progname gmime user conffile args (w\<lparr>inp := x\<rparr>) = None"
    "\<forall>u2. wl2kd_exchange d u1 = Some (Returned (), u2) \<longrightarrow>
      ax25d_main True progname gmime user conffile args (w\<lparr>inp := x\<rparr>) = Some (Exited 0, u2\<lparr>alarm := 0\<rparr>)"
    using load greet by (simp_all add: ax25d_main_def andthen_def settimeout_def unsettimeout_def change_def exit_def)
  then show ?thesis using t1 talks_box [OF t1] assms(1-3) by (auto simp: serving_fields)
qed

lemma daemon_greets:
  fixes w :: "'e world"
  assumes "box_ok w" and "offers True call (serving d w) qs h N" "recording w" "sound_cursor w" "escaped (banner d) = Some t"
    and "\<forall>x. \<exists>w1. ax25d_loadconfig progname gmime user conffile args (w\<lparr>inp := x\<rparr>) = Some (Returned (True, d), w1)"
  shows "\<exists>u1. talks (serving d w) x (sid (version w) @ [13] @ grid_text d @ [13] @ t) u1 \<and> box_ok u1 \<and> offers True call u1 qs h N \<and>
    recording u1 \<and> sound_cursor u1 \<and>
    (wl2kd_exchange d u1 = None \<longrightarrow> ax25d_main True progname gmime user conffile args (w\<lparr>inp := x\<rparr>) = None) \<and>
    (\<forall>u2. wl2kd_exchange d u1 = Some (Returned (), u2) \<longrightarrow>
      ax25d_main True progname gmime user conffile args (w\<lparr>inp := x\<rparr>) = Some (Exited 0, u2\<lparr>alarm := 0\<rparr>))"
proof -
  from daemon_greets_anyone [OF assms(1,3-6), of x] obtain u1 where
    u1: "talks (serving d w) x (sid (version w) @ [13] @ grid_text d @ [13] @ t) u1" "box_ok u1" "recording u1" "sound_cursor u1"
      "wl2kd_exchange d u1 = None \<longrightarrow> ax25d_main True progname gmime user conffile args (w\<lparr>inp := x\<rparr>) = None"
      "\<forall>u2. wl2kd_exchange d u1 = Some (Returned (), u2) \<longrightarrow>
        ax25d_main True progname gmime user conffile args (w\<lparr>inp := x\<rparr>) = Some (Exited 0, u2\<lparr>alarm := 0\<rparr>)"
    by - (elim exE conjE, rule that, assumption+)
  show ?thesis
    by (intro exI conjI)
      (rule u1(1), rule u1(2), rule talks_box(2) [OF u1(1) assms(2)], rule u1(3), rule u1(4), rule u1(5), rule u1(6))
qed

text \<open>A daemon that holds a message for somebody else gets no further than its outbox.\<close>

lemma daemon_exchange_unqualified:
  fixes u :: "'e world"
  assumes "box_ok u" "recording u" "sound_cursor u" "targetcall d = Some a"
    and "e \<in> set (outbox u)" "\<not> qualifies a (the (snd e))"
  shows "wl2kd_exchange d u = None"
proof -
  obtain u1 where u1: "expire_mids u = Some (Returned 0, u1)" "mids_only u u1"
    using expire_mids_known [OF assms(2,3)] by blast
  then obtain dd tc r i where "u1 = u\<lparr>db := dd, time_calls := tc, random_calls := r, initialized := i\<rparr>" by (auto simp: mids_only_def)
  then have f: "outbox u1 = outbox u" "outbox_ok u1" "codec_shape (tabs u1)" "plenty (mem u1) 60000" "\<forall>e \<in> set (outbox u). mail_file e"
    using assms(1) by (simp_all add: box_ok_def ready_def)
  have "prepare_outbound_proposals True a u1 = None"
    using prepare_entries_unqualified [OF f(3,4,5) assms(5,6)] f(1,2) by (simp add: prepare_outbound_proposals_def andthen_def look_def)
  then show ?thesis using u1(1) assms(4) by (simp add: wl2kd_exchange_def andthen_def defined_def ret_def)
qed

lemma daemon_run:
  fixes w :: "'e world"
  assumes "box_ok w" "offers True a (serving d w) qs h N" "recording w" "sound_cursor w" "length qs < 2 ^ 31"
    and "plain_line (bytes ''; '' @ q)" "strchr (bytes ''; '' @ q) 91 = None"
    and "strstr (bytes ''; '' @ q) (take 62 (b @ bytes '' DE '' @ a @ bytes '' '')) \<noteq> None"
    and "plain_line sid_text" "strchr sid_text 91 \<noteq> None" "sid_codes sid_text = Some codes" "\<not> strbegins sid_text (bytes '';FW:'')"
    and "mycall d = Some b" "targetcall d = Some a" "call_text a" "call_text b" and "takes 60000 (emailaddr d) M T (serving d w) ps"
    and "escaped (banner d) = Some t" "t @ no_traffic qs = lines_of ls"
    and load: "\<forall>x. \<exists>w1. ax25d_loadconfig progname gmime user conffile args (w\<lparr>inp := x\<rparr>) = Some (Returned (True, d), w1)"
  shows "\<exists>w'. ax25d_main True progname gmime user conffile args
      (w\<lparr>inp := lines_of [bytes ''; '' @ q, sid_text] @ fst (dialogue False ps qs)\<rparr>) = Some (Exited 0, w') \<and>
    outp w' = outp w @ first_words [] (sid (version w)) (grid_text d # ls) (call_line a b qs) @ snd (dialogue False ps qs) \<and> outbox w' = [] \<and>
    mails w' = mails w @ mail_of w (emailaddr d) T ps \<and> mid ` set ps \<subseteq> known w' \<and> known w' \<subseteq> known w \<union> mid ` set ps"
proof -
  obtain u1 where t1: "talks (serving d w) (lines_of [bytes ''; '' @ q, sid_text] @ fst (dialogue False ps qs))
        (sid (version w) @ [13] @ grid_text d @ [13] @ t) u1"
    and u1: "box_ok u1" "offers True a u1 qs h N" "recording u1" "sound_cursor u1"
    and run: "\<forall>u2. wl2kd_exchange d u1 = Some (Returned (), u2) \<longrightarrow> ax25d_main True progname gmime user conffile args
      (w\<lparr>inp := lines_of [bytes ''; '' @ q, sid_text] @ fst (dialogue False ps qs)\<rparr>) = Some (Exited 0, u2\<lparr>alarm := 0\<rparr>)"
    using daemon_greets [OF assms(1-4,18) load] by metis
  note f1 = talks_fields [OF t1]
  have r1: "ready 60000 u1" using u1(1) by (simp add: box_ok_def)
  note tk = takes_env [OF assms(17) r1 f1(4) eq_refl [OF f1(10)]]
  from daemon_exchange_done [OF u1 assms(5) f1(1) assms(6-16) tk(1)] obtain u2 where
    u2: "wl2kd_exchange d u1 = Some (Returned (), u2)"
      "outp u2 = outp u1 @ no_traffic qs @ call_line a b qs @ [13] @ snd (dialogue False ps qs)" "outbox u2 = []"
      "mails u2 = mails u1 @ mail_of w (emailaddr d) T ps" "mid ` set ps \<subseteq> known u2" "known u2 \<subseteq> known w \<union> mid ` set ps"
    unfolding f1(10) tk(2) serving_mail serving_fields(6) by blast
  have "first_words [] (sid (version w)) (grid_text d # ls) (call_line a b qs)
      = sid (version w) @ [13] @ grid_text d @ [13] @ lines_of ls @ call_line a b qs @ [13]"
    by (simp add: first_words_def lines_of_def)
  then have "outp u2 = outp w @ first_words [] (sid (version w)) (grid_text d # ls) (call_line a b qs) @ snd (dialogue False ps qs)"
    using u2(2) f1(2) by (simp add: serving_fields flip: assms(19))
  moreover have "mails u2 = mails w @ mail_of w (emailaddr d) T ps" using u2(4) f1(9) by (simp add: serving_fields)
  moreover have "known (u2\<lparr>alarm := 0\<rparr>) = known u2" by (simp add: known_def)
  ultimately show ?thesis using run u2(1,3,5,6) by (intro exI [of _ "u2\<lparr>alarm := 0\<rparr>"]) simp
qed

section \<open>Properties\<close>

definition plain_version :: "'d world \<Rightarrow> bool" where
  "plain_version w \<longleftrightarrow> (\<forall>x \<in> set (version w). line_char x) \<and> length (sid (version w)) < 32"

text \<open>The greeting, with the line about traffic, is lines that are no commands.\<close>

definition greeting_ok :: "cfg_t \<Rightarrow> bool \<Rightarrow> cstr list \<Rightarrow> bool" where
  "greeting_ok d idle ls \<longleftrightarrow> (\<exists>t. escaped (banner d) = Some t \<and> t @ (if idle then bytes ''No Traffic'' @ [13] else []) = lines_of ls) \<and>
     text_line (grid_text d) \<and> (\<forall>l \<in> set ls. text_line l)"

definition calls_fit :: "cfg_t \<Rightarrow> cfg_t \<Rightarrow> bool" where
  "calls_fit c d \<longleftrightarrow> (\<exists>a b g. mycall c = Some a \<and> targetcall c = Some b \<and> gridsquare c = Some g \<and>
     mycall d = Some b \<and> targetcall d = Some a \<and> call_text a \<and> call_text b \<and> (\<forall>x \<in> set g. line_char x \<and> x \<noteq> 91))"

lemma call_line_no_FF:
  assumes "\<not> strbegins a (bytes ''FF'')"
  shows "\<not> strbegins (call_line a b qs) (bytes ''FF'')"
proof (cases a)
  case Nil
  then show ?thesis by (simp add: call_line_def bytes_def byte_of_def)
next
  case (Cons x xs)
  then show ?thesis using assms by (cases xs) (simp_all add: call_line_def bytes_def byte_of_def)
qed

text \<open>The exchange of the two, from the caller's child process on.\<close>

lemma stations_exchange:
  fixes v :: "'d world" and w :: "'e world"
  assumes "box_ok v" and "recording v" and "sound_cursor v" and "plain_version v"
    and "box_ok w" and "recording w" and "sound_cursor w" and "plain_version w" and "length (outbox w) < 2 ^ 31"
    and "calls_fit c d" and "secret_ok c" and "greeting_ok d (outbox w = []) ls"
    and "\<forall>e \<in> set (outbox w). qualifies (the (targetcall d)) (the (snd e))"
    and "wants (w\<lparr>gsendmsgonly_flag := bSendonly d\<rparr>) (emailaddr d) T (outbox v)" and "wants v (emailaddr c) S (outbox w)"
    and "outbox v = [] \<longrightarrow> \<not> strbegins (the (targetcall d)) (bytes ''FF'')"
    and "\<forall>x. \<exists>w1. ax25d_loadconfig progname gmime user conffile args (w\<lparr>inp := x\<rparr>) = Some (Returned (True, d), w1)"
  shows "\<exists>told answered v' w'.
    ax25_child True c [Select_input] (v\<lparr>inp := answered\<rparr>) = Some (Exited 0, v') \<and>
    ax25d_main True progname gmime user conffile args (w\<lparr>inp := told\<rparr>) = Some (Exited 0, w') \<and>
    outp v' = outp v @ told \<and> outp w' = outp w @ answered \<and> outbox v' = [] \<and> outbox w' = [] \<and>
    mails w' = mails w @ mail_from w (emailaddr d) T (outbox v) \<and> mails v' = mails v @ mail_from v (emailaddr c) S (outbox w) \<and>
    fst ` set (outbox v) \<subseteq> known w' \<and> fst ` set (outbox w) \<subseteq> known v'"
proof -
  obtain a b g where calls: "mycall c = Some a" "targetcall c = Some b" "gridsquare c = Some g" "mycall d = Some b" "targetcall d = Some a"
      "call_text a" "call_text b" "\<forall>x \<in> set g. line_char x \<and> x \<noteq> 91"
    using assms(10) by (auto simp: calls_fit_def)
  let ?v = "v\<lparr>timeoutsecs := cfg_timeoutsecs c, alarm := cfg_timeoutsecs c\<rparr>" and ?w = "serving d w"
  have v: "box_ok ?v" "outbox ?v = outbox v" using assms(1) by (simp_all add: box_ok_def ready_def line_ok_def)
  have w: "box_ok ?w" "outbox ?w = outbox w" using assms(5) by (simp_all add: serving_fields)
  obtain ps gg M where ps: "offers False [] ?v ps gg M" using outbox_proposals [OF v(1), of False] by blast
  obtain qs h N where qs: "offers True a ?w qs h N" using outbox_proposals [OF w(1), of True a] assms(13) calls(5) w(2) by auto
  have "wants ?w (emailaddr d) T (outbox ?v)" "wants ?v (emailaddr c) S (outbox ?w)"
    using assms(14,15) unfolding v(2) w(2)
    by (simp_all add: wants_def serving_def ready_def line_ok_def recording_def known_def delivers_def converts_def mail_command_def)
  note tw = wants_takes [OF this(1) ps v(1), unfolded v(2)] and tv = wants_takes [OF this(2) qs w(1), unfolded w(2)]
  have mv: "mail_of v (emailaddr c) S qs = mail_from v (emailaddr c) S (outbox w)"
    using tv(2) by (simp add: mail_of_def mail_from_def mail_command_def)
  have mw: "mail_of w (emailaddr d) T ps = mail_from w (emailaddr d) T (outbox v)" using tw(2) unfolding serving_mail .
  have "map mid qs = map fst (outbox w)" using qs w(2) by (simp add: offers_def)
  then have len: "length qs < 2 ^ 31" using assms(9) map_eq_imp_length_eq by metis
  have empty: "qs = [] \<longleftrightarrow> outbox w = []" "ps = [] \<longleftrightarrow> outbox v = []" using offers_none [OF qs] w(2) offers_none [OF ps] v(2) by simp_all
  obtain t where t: "escaped (banner d) = Some t" "t @ no_traffic qs = lines_of ls" "text_line (grid_text d)" "\<forall>l \<in> set ls. text_line l"
    using assms(12) by (auto simp: greeting_ok_def no_traffic_def empty(1))
  obtain q where q: "qtc_text c = Some q" "plain_line (bytes ''; '' @ q)" "strchr (bytes ''; '' @ q) 91 = None"
      "strstr (bytes ''; '' @ q) (take 62 (b @ bytes '' DE '' @ a @ bytes '' '')) \<noteq> None"
    using qtc_line [OF calls(6-8,1-3)] by blast
  have sv: "\<forall>x \<in> set (version v). line_char x" "length (sid (version v)) < 32"
    and sw: "\<forall>x \<in> set (version w). line_char x" "length (sid (version w)) < 32"
    using assms(4,8) by (simp_all add: plain_version_def)
  let ?noted = "grid_text d # ls" and ?codes = "bytes ''-B2FIHM$''" and ?told = "fst (dialogue False ps qs)" and ?answered = "snd (dialogue False ps qs)"
  have words: "first_words_ok ?codes [] (sid (version w)) ?noted (call_line a b qs)"
    using sid_line [OF sw] t(3,4) call_prompt [OF calls(6,7) len] text_line_note(1) by (simp add: first_words_ok_def)
  have "challenge_of ?noted = []" using t(3,4) by (intro text_challenge) simp
  then have hello: "hello c ?codes (challenge_of ?noted) (version v) = lines_of [bytes ''; '' @ q, sid (version v)]"
    using q(1) by (simp add: hello_def responds_def lines_of_def) (simp add: bytes_def byte_of_def strchr_def)
  have qtc: "strchr ?codes 73 \<noteq> None \<longrightarrow> qtc_text c \<noteq> None" using q(1) by simp
  have "ps = [] \<longrightarrow> \<not> strbegins (call_line a b qs) (bytes ''FF'')" using call_line_no_FF assms(16) calls(5) empty(2) by simp
  from caller_run [OF v(1) ps assms(2,3) tv(1) words sv(2) qtc assms(11) this] obtain v' where
    v': "ax25_child True c [Select_input] (v\<lparr>inp := first_words [] (sid (version w)) ?noted (call_line a b qs) @ ?answered\<rparr>) = Some (Exited 0, v')"
      "outp v' = outp v @ lines_of [bytes ''; '' @ q, sid (version v)] @ ?told" "outbox v' = []"
      "mails v' = mails v @ mail_from v (emailaddr c) S (outbox w)" "fst ` set (outbox w) \<subseteq> known v'"
    unfolding hello mv tv(3) by blast
  from daemon_run [OF assms(5) qs assms(6,7) len q(2-4) sid_line(1-4) [OF sv] calls(4-7) tw(1) t(1,2) assms(17)] obtain w' where
    w': "ax25d_main True progname gmime user conffile args (w\<lparr>inp := lines_of [bytes ''; '' @ q, sid (version v)] @ ?told\<rparr>) = Some (Exited 0, w')"
      "outp w' = outp w @ first_words [] (sid (version w)) ?noted (call_line a b qs) @ ?answered" "outbox w' = []"
      "mails w' = mails w @ mail_from w (emailaddr d) T (outbox v)" "fst ` set (outbox v) \<subseteq> known w'"
    unfolding mw tw(3) by blast
  show ?thesis
    by (intro exI conjI) (rule v'(1), rule w'(1), rule v'(2), rule w'(2), rule v'(3), rule w'(3), rule w'(4), rule v'(4), rule w'(5), rule v'(5))
qed

text \<open>The two programs from their command lines to their ends.\<close>

lemma programs_exchange:
  fixes v :: "'d world" and w :: "'e world"
  assumes "box_ok v" and "recording v" and "sound_cursor v" and "plain_version v"
    and "box_ok w" and "recording w" and "sound_cursor w" and "plain_version w" and "length (outbox w) < 2 ^ 31"
    and "calls_fit c d" and "secret_ok c" and "greeting_ok d (outbox w = []) ls"
    and "\<forall>e \<in> set (outbox w). qualifies (the (targetcall d)) (the (snd e))"
    and "wants (w\<lparr>gsendmsgonly_flag := bSendonly d\<rparr>) (emailaddr d) T (outbox v)" and "wants (v\<lparr>gsendmsgonly_flag := bSendonly c\<rparr>) (emailaddr c) S (outbox w)"
    and "outbox v = [] \<longrightarrow> \<not> strbegins (the (targetcall d)) (bytes ''FF'')"
    and "\<forall>x. \<exists>v1. ax25_loadconfig caller callerconf callerargs (v\<lparr>inp := x\<rparr>) = Some (Returned (True, c), v1)" and "reachable st addr c"
    and "\<forall>x. \<exists>w1. ax25d_loadconfig progname gmime user conffile args (w\<lparr>inp := x\<rparr>) = Some (Returned (True, d), w1)"
  shows "\<exists>told answered v' w'.
    ax25_main st addr caller callerconf callerargs (Child True [Select_input]) (v\<lparr>inp := answered\<rparr>) = Some (Exited 0, v') \<and>
    ax25d_main True progname gmime user conffile args (w\<lparr>inp := told\<rparr>) = Some (Exited 0, w') \<and>
    outp v' = outp v @ told \<and> outp w' = outp w @ answered \<and> outbox v' = [] \<and> outbox w' = [] \<and>
    mails w' = mails w @ mail_from w (emailaddr d) T (outbox v) \<and> mails v' = mails v @ mail_from v (emailaddr c) S (outbox w) \<and>
    fst ` set (outbox v) \<subseteq> known w' \<and> fst ` set (outbox w) \<subseteq> known v'"
proof -
  let ?v = "v\<lparr>gsendmsgonly_flag := bSendonly c\<rparr>"
  have v: "box_ok ?v" "recording ?v" "sound_cursor ?v" "plain_version ?v" "outbox ?v = outbox v" "outp ?v = outp v" "mails ?v = mails v"
    using assms(1-4) by (simp_all add: box_ok_def ready_def line_ok_def recording_def sound_cursor_def plain_version_def)
  have mv: "mail_from ?v = (mail_from v :: cstr option \<Rightarrow> (cstr \<Rightarrow> cstr) \<Rightarrow> (cstr \<times> u8 list option) list \<Rightarrow> (cstr \<times> u8 list) list)"
    by (simp add: fun_eq_iff mail_from_def mail_command_def)
  have run: "ax25_main st addr caller callerconf callerargs (Child True [Select_input]) (v\<lparr>inp := x\<rparr>) = ax25_child True c [Select_input] (?v\<lparr>inp := x\<rparr>)" for x
  proof -
    obtain v1 where "ax25_loadconfig caller callerconf callerargs (v\<lparr>inp := x\<rparr>) = Some (Returned (True, c), v1)" using assms(17) by blast
    note main = ax25_main_child [OF this assms(18), of True "[Select_input]", simplified]
    have "?v\<lparr>inp := x\<rparr> = v\<lparr>inp := x, gsendmsgonly_flag := bSendonly c\<rparr>" by simp
    then show ?thesis using main by (simp only:)
  qed
  show ?thesis
    using stations_exchange [OF v(1-4) assms(5-13), unfolded v(5-7) mv, OF assms(14-16,19)] unfolding run .
qed

text \<open>
  C3: \<open>wl2kax25\<close> calls a station that runs \<open>wl2kax25d\<close>, no server between.  If: files (below 2^31) with names of at
  most 12 plain characters, at most 3867 bytes, removable; ids unknown to the receiver, who converts each message, is not send-only, and
  whose sendmail takes it; the daemon's qualify for its \<open>-c\<close>; the caller's call is that \<open>-c\<close>, its target the
  daemon's call, its gridsquare set, calls plain, at most 20 long (\<open>calls_fit\<close>); the banner's lines hold no \<open>[\<close>, do
  not begin with \<open>;\<close> or end in \<open>>\<close> (\<open>greeting_ok\<close>); identifications below 32 bytes, secure password at most 1000;
  memory and id databases work; the stack connects, \<open>select\<close> reports input once; a caller without messages has no call in FF.
  There are two transcripts, each what one writes and the other reads, with which the caller (command line to the end of its
  child) and the daemon (command line to end, greeting included) exit with 0; neither has a file left; each gave all
  messages of the other, converted, to sendmail and recorded the ids.
\<close>

theorem p2p_delivers:
  fixes v :: "'d world" and w :: "'e world"
  assumes "box_ok v" and "recording v" and "sound_cursor v" and "plain_version v"
    and "box_ok w" and "recording w" and "sound_cursor w" and "plain_version w" and "length (outbox w) < 2 ^ 31"
    and "calls_fit c d" and "secret_ok c" and "greeting_ok d (outbox w = []) ls"
    and "\<forall>e \<in> set (outbox w). qualifies (the (targetcall d)) (the (snd e))"
    and "wants (w\<lparr>gsendmsgonly_flag := bSendonly d\<rparr>) (emailaddr d) T (outbox v)" and "wants (v\<lparr>gsendmsgonly_flag := bSendonly c\<rparr>) (emailaddr c) S (outbox w)"
    and "outbox v = [] \<longrightarrow> \<not> strbegins (the (targetcall d)) (bytes ''FF'')"
    and "\<forall>x. \<exists>v1. ax25_loadconfig caller callerconf callerargs (v\<lparr>inp := x\<rparr>) = Some (Returned (True, c), v1)" and "reachable st addr c"
    and "\<forall>x. \<exists>w1. ax25d_loadconfig progname gmime user conffile args (w\<lparr>inp := x\<rparr>) = Some (Returned (True, d), w1)"
  shows "\<exists>told answered v' w'.
    ax25_main st addr caller callerconf callerargs (Child True [Select_input]) (v\<lparr>inp := answered\<rparr>) = Some (Exited 0, v') \<and>
    ax25d_main True progname gmime user conffile args (w\<lparr>inp := told\<rparr>) = Some (Exited 0, w') \<and>
    outp v' = outp v @ told \<and> outp w' = outp w @ answered \<and> outbox v' = [] \<and> outbox w' = [] \<and>
    mails w' = mails w @ mail_from w (emailaddr d) T (outbox v) \<and> mails v' = mails v @ mail_from v (emailaddr c) S (outbox w) \<and>
    fst ` set (outbox v) \<subseteq> known w' \<and> fst ` set (outbox w) \<subseteq> known v'"
  using assms by (rule programs_exchange)

text \<open>Seven messages of W1AW to N2QZ, and two the other way.\<close>

definition sample_daemon :: cfg_t where
  "sample_daemon = no_config\<lparr>mycall := Some (bytes ''N2QZ''), targetcall := Some (bytes ''W1AW''), ax25port := Some (bytes ''sm0''),
     emailaddr := Some (bytes ''n2qz''), cfg_timeoutsecs := 60\<rparr>"

definition sample_caller :: cfg_t where
  "sample_caller = no_config\<lparr>mycall := Some (bytes ''W1AW''), targetcall := Some (bytes ''N2QZ''), gridsquare := Some (bytes ''FN31''),
     emailaddr := Some (bytes ''user@localhost''), cfg_timeoutsecs := 120, ax25port := Some (bytes ''sm0'')\<rparr>"

definition caller_settings :: "(cstr \<times> cstr) list" where
  "caller_settings = [(bytes ''mycall'', bytes ''w1aw''), (bytes ''ax25port'', bytes ''sm0''), (bytes ''gridsquare'', bytes ''FN31'')]"

definition caller_file :: "(u8 list \<times> bool) option" where
  "caller_file = Some (concat (map setting_line caller_settings), True)"

definition caller_args :: "cstr list" where
  "caller_args = [bytes ''-cn2qz'']"

lemma caller_args_read: "ax25_args caller_args = ([Opt_arg CHR ''c'' (bytes ''n2qz'')], [])"
  by (simp add: caller_args_def ax25_args_def ax25_options_def option_rules)

lemma caller_values:
  "map_of caller_settings (bytes ''mycall'') = Some (bytes ''w1aw'')" "map_of caller_settings (bytes ''timeout'') = None"
  "map_of caller_settings (bytes ''email'') = None" "map_of caller_settings (bytes ''ax25port'') = Some (bytes ''sm0'')"
  "map_of caller_settings (bytes ''wl2k-password'') = None" "map_of caller_settings (bytes ''gridsquare'') = Some (bytes ''FN31'')"
  by (simp_all add: caller_settings_def bytes_def byte_of_def)

definition daemon_args :: "cstr list" where
  "daemon_args = [bytes ''-a'', bytes ''sm0'', bytes ''-cw1aw'', bytes ''-en2qz'']"

lemma daemon_args_read:
  "ax25d_args daemon_args = ([Opt_arg CHR ''a'' (bytes ''sm0''), Opt_arg CHR ''c'' (bytes ''w1aw''), Opt_arg CHR ''e'' (bytes ''n2qz'')], [])"
  by (simp add: daemon_args_def ax25d_args_def ax25d_options_def option_rules)

lemma upper_sample: "strupper (Some (bytes ''n2qz'')) = Some (bytes ''N2QZ'')" "strupper (Some (bytes ''w1aw'')) = Some (bytes ''W1AW'')"
  by (simp_all add: strupper_def bytes_def byte_of_def to_upper_def is_lower_def)

lemma sample_daemon_run:
  assumes "mem w = (\<lambda>_. True)"
  shows "\<exists>w'. ax25d_loadconfig progname gmime (bytes ''user'') sample_file daemon_args w = Some (Returned (True, sample_daemon), w')"
proof -
  obtain conf where conf: "conf_read (mem w) sample_file = Some (Inr conf)" "\<forall>name. conf_get conf name = Some (map_of sample_settings name)"
    using sample_file_read by (auto simp: assms)
  have email: "default_email (bytes ''user'') w = Some (Returned (Some (bytes ''user@localhost'')), w)"
    by (simp add: default_email_def andthen_def look_def ret_def assms strdup_def granted_def bytes_def)
  have read: "read_file sample_file w = Some (Returned conf, w)" by (simp add: read_file_run conf)
  note steps = run_steps file_string_step file_number_step file_call_step conf(2) sample_values sample_numbers with_value_def
    andthen_returned [where m = "default_email (bytes ''user'')" and w = w, OF email]
    andthen_returned [where m = "read_file sample_file" and w = w, OF read] andthen_assoc daemon_args_read read_options_def
    copy_flags_def set_config_def start_opts_def no_config_def finish_def assms granted_def Let_def
  show ?thesis
    by (simp add: ax25d_loadconfig_def ax25d_defaults_def ax25d_file_def upper_calls_def steps)
      (simp add: ret_def sample_daemon_def no_config_def upper_sample)
qed

lemma sample_caller_run:
  assumes "mem w = (\<lambda>_. True)"
  shows "\<exists>w'. ax25_loadconfig (bytes ''user'') caller_file caller_args w = Some (Returned (True, sample_caller), w')"
proof -
  have "\<exists>conf. conf_read (mem w) caller_file = Some (Inr conf) \<and> (\<forall>name. conf_get conf name = Some (map_of caller_settings name))"
    unfolding caller_file_def
    by (rule conf_read_settings) (simp_all add: caller_settings_def setting_ok_def setting_line_def bytes_def byte_of_def is_space_def plenty_all assms)
  then obtain conf where conf: "conf_read (mem w) caller_file = Some (Inr conf)" "\<forall>name. conf_get conf name = Some (map_of caller_settings name)" by blast
  have email: "default_email (bytes ''user'') w = Some (Returned (Some (bytes ''user@localhost'')), w)"
    by (simp add: default_email_def andthen_def look_def ret_def assms strdup_def granted_def bytes_def)
  have read: "read_file caller_file w = Some (Returned conf, w)" by (simp add: read_file_run conf)
  note steps = run_steps file_string_step file_number_step file_call_step conf(2) caller_values with_value_def
    andthen_returned [where m = "default_email (bytes ''user'')" and w = w, OF email]
    andthen_returned [where m = "read_file caller_file" and w = w, OF read] andthen_assoc caller_args_read read_options_def
    copy_flags_def set_config_def start_opts_def no_config_def finish_def assms granted_def Let_def
  show ?thesis
    by (simp add: ax25_loadconfig_def ax25_defaults_def ax25_file_def ax25_path_def path_call_def ax25_complete_def upper_calls_def steps)
      (simp add: ret_def sample_caller_def no_config_def upper_sample)
qed

lemma sample_p2p:
  "calls_fit sample_caller sample_daemon" "secret_ok sample_caller" "greeting_ok sample_daemon False [bytes ''Welcome'']"
  "emailaddr sample_daemon = Some (bytes ''n2qz'')" "emailaddr sample_caller = Some (bytes ''user@localhost'')" "\<not> bSendonly sample_daemon" "plain_version (mid_world\<lparr>outbox := es\<rparr>)"
proof -
  show "calls_fit sample_caller sample_daemon"
    by (simp add: calls_fit_def sample_caller_def sample_daemon_def call_text_def bytes_def byte_of_def line_char_def)
  show "secret_ok sample_caller" by (simp add: sample_caller_def secret_ok_def no_config_def)
  have "escaped (banner sample_daemon) = Some (bytes ''Welcome'' @ [13])" "lines_of [bytes ''Welcome''] = bytes ''Welcome'' @ [13]"
    by (simp_all add: banner_def sample_daemon_def no_config_def bytes_def byte_of_def lines_of_def)
  moreover have "text_line (grid_text sample_daemon)" "text_line (bytes ''Welcome'')"
    by (simp_all add: text_line_def plain_line_def grid_text_def sample_daemon_def no_config_def bytes_def byte_of_def line_char_def strchr_def)
  ultimately show "greeting_ok sample_daemon False [bytes ''Welcome'']" by (simp add: greeting_ok_def)
  show "emailaddr sample_daemon = Some (bytes ''n2qz'')" "emailaddr sample_caller = Some (bytes ''user@localhost'')" "\<not> bSendonly sample_daemon"
    by (simp_all add: sample_daemon_def sample_caller_def no_config_def)
  show "plain_version (mid_world\<lparr>outbox := es\<rparr>)" by (simp add: plain_version_def mid_world_def sid_def bytes_def byte_of_def line_char_def)
qed

theorem p2p_delivers_witness:
  "\<exists>told answered v' w'.
    ax25_main (sample_stack Connected) no_address (bytes ''user'') caller_file caller_args (Child True [Select_input]) (mid_world\<lparr>outbox := seven_files, inp := answered\<rparr>) = Some (Exited 0, v') \<and>
    ax25d_main True (bytes ''wl2kax25d'') [] (bytes ''user'') sample_file daemon_args (mid_world\<lparr>outbox := two_files, inp := told\<rparr>)
      = Some (Exited 0, w') \<and>
    outp v' = told \<and> outp w' = answered \<and> outbox v' = [] \<and> outbox w' = [] \<and> length (mails w') = 7 \<and> length (mails v') = 2"
proof -
  let ?v = "mid_world\<lparr>outbox := seven_files\<rparr>" and ?w = "mid_world\<lparr>outbox := two_files\<rparr>"
  have st: "recording ?v" "sound_cursor ?v" "recording ?w" "sound_cursor ?w"
    using sample_station(2) by (simp_all add: sound_cursor_def recording_def) (simp_all add: mid_world_def map_dbops_def)
  have box: "box_ok ?v" "box_ok ?w" using sample_boxes(1) by simp_all
  have out: "outp ?v = []" "outp ?w = []" "mails ?v = []" "mails ?w = []" "length (outbox ?v) = 7" "length (outbox ?w) = 2"
      "(outbox ?w = []) = False"
    by (simp_all add: seven_files_def two_files_def, simp_all add: mid_world_def)
  have "?w\<lparr>gsendmsgonly_flag := bSendonly sample_daemon\<rparr> = ?w" using sample_p2p(6) by (simp add: mid_world_def)
  moreover have "?v\<lparr>gsendmsgonly_flag := bSendonly sample_caller\<rparr> = ?v" by (simp add: sample_caller_def no_config_def mid_world_def)
  ultimately have ww: "wants (?w\<lparr>gsendmsgonly_flag := bSendonly sample_daemon\<rparr>) (emailaddr sample_daemon) (\<lambda>_. []) (outbox ?v)"
    and wv: "wants (?v\<lparr>gsendmsgonly_flag := bSendonly sample_caller\<rparr>) (emailaddr sample_caller) (\<lambda>_. []) (outbox ?w)"
    using sample_boxes(2) by (simp_all add: sample_p2p(4,5) bytes_def)
  have q: "\<forall>e \<in> set (outbox ?w). qualifies (the (targetcall sample_daemon)) (the (snd e))" using sample_boxes(3) [of two_files] by simp
  have small: "length (outbox ?w) < 2 ^ 31" using out(6) by simp
  have line: "outbox ?v = [] \<longrightarrow> \<not> strbegins (the (targetcall sample_daemon)) (bytes ''FF'')" using out(5) by auto
  have load: "\<forall>x. \<exists>w1. ax25d_loadconfig (bytes ''wl2kax25d'') [] (bytes ''user'') sample_file daemon_args (?w\<lparr>inp := x\<rparr>)
      = Some (Returned (True, sample_daemon), w1)"
    by (intro allI sample_daemon_run) (simp add: mid_world_def)
  have call: "\<forall>x. \<exists>v1. ax25_loadconfig (bytes ''user'') caller_file caller_args (?v\<lparr>inp := x\<rparr>) = Some (Returned (True, sample_caller), v1)"
    by (intro allI sample_caller_run) (simp add: mid_world_def)
  have air: "reachable (sample_stack Connected) no_address sample_caller" by (subst sample_reachable) (simp_all add: sample_caller_def no_config_def)
  note greet = sample_p2p(3) [folded out(7)]
  obtain told answered v' w' where r: "ax25_main (sample_stack Connected) no_address (bytes ''user'') caller_file caller_args (Child True [Select_input]) (?v\<lparr>inp := answered\<rparr>) = Some (Exited 0, v')"
      "ax25d_main True (bytes ''wl2kax25d'') [] (bytes ''user'') sample_file daemon_args (?w\<lparr>inp := told\<rparr>) = Some (Exited 0, w')"
      "outp v' = outp ?v @ told" "outp w' = outp ?w @ answered" "outbox v' = []" "outbox w' = []"
      "mails w' = mails ?w @ mail_from ?w (emailaddr sample_daemon) (\<lambda>_. []) (outbox ?v)"
      "mails v' = mails ?v @ mail_from ?v (emailaddr sample_caller) (\<lambda>_. []) (outbox ?w)"
    using p2p_delivers [OF box(1) st(1,2) sample_p2p(7) box(2) st(3,4) sample_p2p(7) small sample_p2p(1,2) greet q ww wv line call air load]
    by - (elim exE conjE, rule that, assumption+)
  have "outp v' = told" "outp w' = answered" "length (mails w') = 7" "length (mails v') = 2" using r(3,4,7,8) out by (simp_all add: mail_from_def)
  then show ?thesis using r(1,2,5,6) by blast
qed

text \<open>
  C23: A daemon whose outbox holds a message that is not for its caller is undefined, whoever calls and whatever is received: from
  its command line on, with any input, \<open>wl2kax25d\<close> gets as far as the message, whichever place it has in the outbox (the messages
  before it may be for the caller), and there \<open>prepare_outbound_proposals\<close> frees the structure of the proposal and then follows
  its member \<open>ubuf\<close>.  (A message is not for the caller when one of its lines is a \<open>Cc:\<close> or a \<open>To:\<close> with another address;
  \<open>qualifies\<close>.  The files of the outbox have names of at most 12 plain characters and hold at most 3867 bytes, can be read and
  removed, the database of message ids works, and the welcome message has no \<open>\c\<close>.)
\<close>

theorem unqualified_message_use_after_free:
  fixes w :: "'e world"
  assumes "box_ok w" and "recording w" and "sound_cursor w"
    and "e \<in> set (outbox w)" and "\<not> qualifies a (the (snd e))"
    and "targetcall d = Some a" and "escaped (banner d) = Some t"
    and "\<forall>x. \<exists>w1. ax25d_loadconfig progname gmime user conffile args (w\<lparr>inp := x\<rparr>) = Some (Returned (True, d), w1)"
  shows "ax25d_main True progname gmime user conffile args (w\<lparr>inp := x\<rparr>) = None"
proof -
  obtain u1 where u1: "talks (serving d w) x (sid (version w) @ [13] @ grid_text d @ [13] @ t) u1" "box_ok u1" "recording u1" "sound_cursor u1"
      "wl2kd_exchange d u1 = None \<longrightarrow> ax25d_main True progname gmime user conffile args (w\<lparr>inp := x\<rparr>) = None"
    using daemon_greets_anyone [OF assms(1-3,7,8)] by metis
  have "outbox u1 = outbox w" using talks_fields(3) [OF u1(1)] by (simp add: serving_fields)
  then show ?thesis using daemon_exchange_unqualified [OF u1(2-4) assms(6)] assms(4,5) u1(5) by simp
qed

text \<open>The first message is for W1AW, the second goes to a second station as well.\<close>

definition shared_files :: "(cstr \<times> u8 list option) list" where
  "shared_files = [(bytes ''ONE'', Some (bytes ''To: x@y:W1AW@z'' @ [10])), (bytes ''TWO'', Some (bytes ''Cc: N0CALL'' @ [10]))]"

lemma shared_first: "qualifies (bytes ''W1AW'') (bytes ''To: x@y:W1AW@z'' @ [10])"
proof -
  let ?m = "bytes ''To: x@y:W1AW@z'' @ [10]"
  have "line_of 10 ?m = ?m" "after_line 10 ?m = []" "cut_nul ?m = ?m"
    by (simp_all add: line_of_def after_line_def cut_nul_def bytes_def byte_of_def)
  moreover have "qualify_line (\<lambda>_. True) (bytes ''W1AW'') ?m = Some None"
    by (simp add: qualify_line_def header_value_def strzapcc_def cut_at_takeWhile strchr_def strupper_def granted_def bytes_def
        byte_of_def is_space_def is_lower_def to_upper_def Let_def)
  ultimately show ?thesis by (simp add: qualifies.simps [of _ ?m] qualifies.simps [of _ "[]"])
qed

lemma shared_second: "\<not> qualifies call (bytes ''Cc: N0CALL'' @ [10])"
proof -
  let ?m = "bytes ''Cc: N0CALL'' @ [10]"
  have "cut_nul (line_of 10 ?m) = ?m" by (simp add: line_of_def cut_nul_def bytes_def byte_of_def)
  moreover have "qualify_line (\<lambda>_. True) call ?m = Some (Some False)"
    by (simp add: qualify_line_def bytes_def byte_of_def)
  ultimately show ?thesis by (simp add: qualifies.simps [of _ ?m])
qed

theorem unqualified_message_use_after_free_witness:
  "qualifies (bytes ''W1AW'') (the (snd (shared_files ! 0))) \<and>
    (\<forall>x. ax25d_main True (bytes ''wl2kax25d'') [] (bytes ''user'') sample_file daemon_args (mid_world\<lparr>outbox := shared_files, inp := x\<rparr>) = None)"
proof (intro conjI allI)
  fix x :: "u8 list"
  let ?w = "mid_world\<lparr>outbox := shared_files\<rparr>"
  show "qualifies (bytes ''W1AW'') (the (snd (shared_files ! 0)))" using shared_first by (simp add: shared_files_def)
  have files: "distinct (map fst shared_files)" "\<forall>e \<in> set shared_files. mail_file e"
    by (simp_all add: shared_files_def mail_file_def bytes_def byte_of_def line_char_def)
  then have box: "box_ok ?w" using sample_station(1) by (simp add: box_ok_def) (simp add: mid_world_def)
  have world: "recording ?w" "sound_cursor ?w" using sample_station(2)
    by (simp_all add: sound_cursor_def recording_def) (simp_all add: mid_world_def map_dbops_def)
  have second: "(bytes ''TWO'', Some (bytes ''Cc: N0CALL'' @ [10])) \<in> set (outbox ?w)" by (simp add: shared_files_def)
  have load: "\<forall>x. \<exists>w1. ax25d_loadconfig (bytes ''wl2kax25d'') [] (bytes ''user'') sample_file daemon_args (?w\<lparr>inp := x\<rparr>)
      = Some (Returned (True, sample_daemon), w1)"
    by (intro allI sample_daemon_run) (simp add: mid_world_def)
  have ban: "escaped (banner sample_daemon) = Some (bytes ''Welcome'' @ [13])"
    by (simp add: banner_def sample_daemon_def no_config_def bytes_def byte_of_def)
  have call: "targetcall sample_daemon = Some (bytes ''W1AW'')" by (simp add: sample_daemon_def)
  have other: "\<not> qualifies (bytes ''W1AW'') (the (snd (bytes ''TWO'', Some (bytes ''Cc: N0CALL'' @ [10]))))" using shared_second by simp
  from unqualified_message_use_after_free [OF box world second other call ban load, of x]
  show "ax25d_main True (bytes ''wl2kax25d'') [] (bytes ''user'') sample_file daemon_args (mid_world\<lparr>outbox := shared_files, inp := x\<rparr>) = None" .
qed

text \<open>
  C30: A caller that the daemon does not recognise ends it in undefined behaviour: when the line in which the caller introduces
  itself does not have the daemon's call, \<open>DE\<close> and the call the daemon was started with, as for a caller with an SSID, which
  \<open>ax25d\<close> leaves out, the handshake ends there, and the identification that comes next is taken for a command.
\<close>

theorem unknown_caller_undefined:
  fixes w :: "'e world"
  assumes "box_ok w" and "recording w" and "sound_cursor w" and "length (outbox w) < 2 ^ 31"
    and "\<forall>e \<in> set (outbox w). qualifies a (the (snd e))"
    and "plain_line (bytes ''; '' @ q)" and "strchr (bytes ''; '' @ q) 91 = None"
    and "strstr (bytes ''; '' @ q) (take 62 (b @ bytes '' DE '' @ a @ bytes '' '')) = None"
    and "mycall d = Some b" and "targetcall d = Some a" and "call_text a" and "call_text b" and "escaped (banner d) = Some t"
    and "\<forall>x. \<exists>w1. ax25d_loadconfig progname gmime user conffile args (w\<lparr>inp := x\<rparr>) = Some (Returned (True, d), w1)"
    and "\<forall>x \<in> set v. line_char x" and "length (sid v) < 32"
  shows "ax25d_main True progname gmime user conffile args (w\<lparr>inp := lines_of [bytes ''; '' @ q, sid v] @ rest\<rparr>) = None"
proof -
  have w: "box_ok (serving d w)" "outbox (serving d w) = outbox w" using assms(1) by (simp_all add: serving_fields)
  obtain qs h N where qs: "offers True a (serving d w) qs h N" using outbox_proposals [OF w(1), of True a] assms(5) w(2) by auto
  have "map mid qs = map fst (outbox w)" using qs w(2) by (simp add: offers_def)
  then have len: "length qs < 2 ^ 31" using assms(4) map_eq_imp_length_eq by metis
  obtain u1 where u1: "talks (serving d w) (lines_of [bytes ''; '' @ q, sid v] @ rest) (sid (version w) @ [13] @ grid_text d @ [13] @ t) u1"
      "box_ok u1" "offers True a u1 qs h N" "recording u1" "sound_cursor u1"
      "wl2kd_exchange d u1 = None \<longrightarrow> ax25d_main True progname gmime user conffile args (w\<lparr>inp := lines_of [bytes ''; '' @ q, sid v] @ rest\<rparr>) = None"
    using daemon_greets [OF assms(1) qs assms(2,3,13,14)] by metis
  from daemon_exchange_lost [OF u1(2-5) len talks_fields(1) [OF u1(1)] assms(6-12) sid_line [OF assms(15,16)]] u1(6) show ?thesis by blast
qed

theorem unknown_caller_undefined_witness:
  "qtc_text (sample_caller\<lparr>mycall := Some (bytes ''W1AW-5'')\<rparr>) = Some (bytes ''>; N2QZ DE W1AW-5 (FN31)'') \<and>
    ax25d_main True (bytes ''wl2kax25d'') [] (bytes ''user'') sample_file daemon_args
      (mid_world\<lparr>inp := lines_of [bytes ''; '' @ bytes ''>; N2QZ DE W1AW-5 (FN31)'', sid (version mid_world)] @ []\<rparr>) = None"
proof
  show "qtc_text (sample_caller\<lparr>mycall := Some (bytes ''W1AW-5'')\<rparr>) = Some (bytes ''>; N2QZ DE W1AW-5 (FN31)'')"
    by (simp add: qtc_text_def sample_caller_def bytes_def)
  have ver: "\<forall>x \<in> set (version mid_world). line_char x" "length (sid (version mid_world)) < 32"
    using sample_p2p(7) [of "[]"] by (simp_all add: plain_version_def)
  have load: "\<forall>x. \<exists>w1. ax25d_loadconfig (bytes ''wl2kax25d'') [] (bytes ''user'') sample_file daemon_args (mid_world\<lparr>inp := x\<rparr>)
      = Some (Returned (True, sample_daemon), w1)"
    by (intro allI sample_daemon_run) (simp add: mid_world_def)
  have ban: "escaped (banner sample_daemon) = Some (bytes ''Welcome'' @ [13])"
    by (simp add: banner_def sample_daemon_def no_config_def bytes_def byte_of_def)
  have calls: "mycall sample_daemon = Some (bytes ''N2QZ'')" "targetcall sample_daemon = Some (bytes ''W1AW'')"
      "call_text (bytes ''W1AW'')" "call_text (bytes ''N2QZ'')"
    by (simp_all add: sample_daemon_def call_text_def bytes_def byte_of_def line_char_def)
  have line: "plain_line (bytes ''; '' @ bytes ''>; N2QZ DE W1AW-5 (FN31)'')" "strchr (bytes ''; '' @ bytes ''>; N2QZ DE W1AW-5 (FN31)'') 91 = None"
      "strstr (bytes ''; '' @ bytes ''>; N2QZ DE W1AW-5 (FN31)'') (take 62 (bytes ''N2QZ'' @ bytes '' DE '' @ bytes ''W1AW'' @ bytes '' '')) = None"
    by (simp_all add: plain_line_def bytes_def byte_of_def line_char_def strchr_def strstr.simps)
  show "ax25d_main True (bytes ''wl2kax25d'') [] (bytes ''user'') sample_file daemon_args
      (mid_world\<lparr>inp := lines_of [bytes ''; '' @ bytes ''>; N2QZ DE W1AW-5 (FN31)'', sid (version mid_world)] @ []\<rparr>) = None"
    by (rule unknown_caller_undefined [OF _ _ _ _ _ line calls(1,2,3,4) ban load ver])
      (use sample_boxes(1) [of "[]"] sample_station(2) in \<open>simp_all add: sound_cursor_def recording_def mid_world_def\<close>,
        simp_all add: map_dbops_def)
qed

text \<open>
  C31: A caller without messages of its own whose call begins with \<open>FF\<close> receives none either: the prompt of the daemon begins
  with the caller's call, the line is taken for the command \<open>FF\<close>, and the caller says \<open>FQ\<close> and exits with status 0, leaving what
  the daemon would offer unread.
\<close>

theorem idle_FF_caller_quits:
  fixes v :: "'d world"
  assumes "box_ok v" and "outbox v = []" and "recording v" and "sound_cursor v"
    and "first_words_ok codes [] sid_line noted (call_line a b qs)" and "length (sid (version v)) < 32" and "strchr codes 73 \<noteq> None \<longrightarrow> qtc_text c \<noteq> None"
    and "secret_ok c" and "strbegins a (bytes ''FF'')"
  shows "\<exists>v'. ax25_child True c [Select_input] (v\<lparr>inp := first_words [] sid_line noted (call_line a b qs) @ rest\<rparr>) = Some (Exited 0, v') \<and>
    outp v' = outp v @ hello c codes (challenge_of noted) (version v) @ bytes ''FQ'' @ [13] \<and> inp v' = rest \<and> mails v' = mails v"
proof -
  let ?v = "v\<lparr>timeoutsecs := cfg_timeoutsecs c, alarm := cfg_timeoutsecs c\<rparr>" and ?x = "first_words [] sid_line noted (call_line a b qs) @ rest"
  have v: "box_ok ?v" "outbox ?v = []" "recording ?v" "sound_cursor ?v" "version ?v = version v"
    using assms(1-4) by (simp_all add: box_ok_def ready_def line_ok_def recording_def sound_cursor_def)
  have "ready 60000 ?v" using v(1) by (simp add: box_ok_def)
  then have t: "talks ?v ?x [] (?v\<lparr>inp := ?x\<rparr>)"
    using talks_here [of 60000 "?v\<lparr>inp := ?x\<rparr>"] by (simp add: talks_def ready_def line_ok_def)
  have "length (sid (version ?v)) < 32" using assms(6) v(5) by simp
  moreover have "strbegins (call_line a b qs) (bytes ''FF'')"
    using assms(9) by (cases a; cases "tl a") (simp_all add: call_line_def bytes_def byte_of_def)
  ultimately obtain v' where v': "wl2k_exchange c [Select_input] (?v\<lparr>inp := ?x\<rparr>) = Some (Returned (), v')"
      "outp v' = outp v @ hello c codes (challenge_of noted) (version v) @ bytes ''FQ'' @ [13]" "inp v' = rest" "mails v' = mails v"
    using caller_quits [OF v(1-4) t assms(5) _ assms(7,8)] by auto
  have "?v\<lparr>inp := ?x\<rparr> = v\<lparr>inp := ?x, timeoutsecs := cfg_timeoutsecs c, alarm := cfg_timeoutsecs c\<rparr>" by simp
  note run = v'(1) [unfolded this]
  have "ax25_child True c [Select_input] (v\<lparr>inp := ?x\<rparr>) = Some (Exited 0, v')"
    using run by (simp add: ax25_child_def andthen_def settimeout_def change_def exit_def)
  then show ?thesis using v'(2-4) by blast
qed

definition idle_caller :: cfg_t where
  "idle_caller = sample_caller\<lparr>mycall := Some (bytes ''FF1ABC'')\<rparr>"

theorem idle_FF_caller_quits_witness:
  "\<exists>v'. ax25_child True idle_caller [Select_input] (mid_world\<lparr>outbox := [],
      inp := first_words [] (sid (version mid_world)) [bytes ''Welcome''] (call_line (bytes ''FF1ABC'') (bytes ''N2QZ'') [static_proposal]) @ bytes ''FC EM A''\<rparr>)
    = Some (Exited 0, v') \<and> inp v' = bytes ''FC EM A'' \<and> mails v' = []"
proof -
  let ?v = "mid_world\<lparr>outbox := []\<rparr>"
  have v: "box_ok ?v" "outbox ?v = []" "recording ?v" "sound_cursor ?v" "mails ?v = []"
    using sample_boxes(1) [of "[]"] sample_station(2)
    by (simp_all add: sound_cursor_def recording_def) (simp_all add: mid_world_def map_dbops_def)
  have ver: "\<forall>x \<in> set (version mid_world). line_char x" "length (sid (version mid_world)) < 32" "length (sid (version ?v)) < 32"
    using sample_p2p(7) [of "[]"] by (simp_all add: plain_version_def)
  have "call_text (bytes ''FF1ABC'')" "call_text (bytes ''N2QZ'')" "text_line (bytes ''Welcome'')"
    by (simp_all add: call_text_def text_line_def plain_line_def bytes_def byte_of_def line_char_def strchr_def)
  then have words: "first_words_ok (bytes ''-B2FIHM$'') [] (sid (version mid_world)) [bytes ''Welcome''] (call_line (bytes ''FF1ABC'') (bytes ''N2QZ'') [static_proposal])"
    using sid_line [OF ver(1,2)] call_prompt text_line_note(1) by (simp add: first_words_ok_def)
  have "qtc_text idle_caller \<noteq> None" "secret_ok idle_caller"
    by (simp_all add: idle_caller_def sample_caller_def qtc_text_def secret_ok_def no_config_def)
  then obtain v' where "ax25_child True idle_caller [Select_input] (?v\<lparr>inp := first_words [] (sid (version mid_world)) [bytes ''Welcome'']
        (call_line (bytes ''FF1ABC'') (bytes ''N2QZ'') [static_proposal]) @ bytes ''FC EM A''\<rparr>) = Some (Exited 0, v')" "inp v' = bytes ''FC EM A''" "mails v' = mails ?v"
    using idle_FF_caller_quits [OF v(1-4) words ver(3)] by (auto simp: bytes_def)
  then show ?thesis using v(5) by auto
qed

end
