(* ===== verification/Mime2wl.thy ===== *)
theory Mime2wl
  imports Mid
begin

text \<open>
  mime2wl.c: the conversion of a mail to a Winlink message.  The mail is parsed by the GMime library (version 2, which
  configure.ac forces); the record \<open>message\<close> holds what the code asks the library about it, and a list of
  objects stands for those \<open>g_mime_message_foreach\<close> visits, in their order.
\<close>

section \<open>What the code reads of a mail\<close>

record part =
  filename :: "cstr option"
  is_type :: "cstr \<Rightarrow> cstr \<Rightarrow> bool"
  content :: "u8 list"

datatype gmime_object =
    Message_part "gmime_object list"
  | Message_partial
  | Multipart
  | Part part
  | Other_object

text \<open>A missing header is a null pointer; a missing date is 0.\<close>

record message =
  msg_date :: int
  msg_sender :: "cstr option"
  msg_to :: "cstr list"
  msg_cc :: "cstr list"
  msg_bcc :: "cstr list"
  msg_subject :: "cstr option"
  msg_reply_to :: "cstr option"
  msg_objects :: "gmime_object list"

text \<open>\<open>struct wl2kmessage\<close>\<close>

record wl2kmessage =
  hbuf :: buffer
  fbuf :: buffer
  bbuf :: buffer
  abuf :: buffer

section \<open>Operations\<close>

definition roundup_np2 :: "u32 \<Rightarrow> u32" where
  "roundup_np2 v =
     (let v = v - 1;
          v = v OR drop_bit 1 v;
          v = v OR drop_bit 2 v;
          v = v OR drop_bit 4 v;
          v = v OR drop_bit 8 v;
          v = v OR drop_bit 16 v in
      v + 1)"

text \<open>
  \<open>mbo_header\<close>: the memory is filled with zeros, so the string is what is copied to its start; a copy that does not
  fit is undefined, and so is the difference of pointers when there is no \<open>@\<close>.
\<close>

definition mbo_header :: "mem \<Rightarrow> cstr \<Rightarrow> cstr option option" where
  "mbo_header al mh_from =
     (let memsize = unat (roundup_np2 (of_nat (length mh_from + 6))) in
      if \<not> granted al memsize then Some None
      else
        let fits = (\<lambda>s. if length s < memsize then Some (Some s) else None) in
        case strchr mh_from 64 of
          None \<Rightarrow> None
        | Some atptr \<Rightarrow>
            if length (drop 1 atptr) > 0 then
              (if \<not> strcasebegins (drop 1 atptr) (bytes ''winlink'')
               then fits (bytes ''SMTP:'' @ take (min (length mh_from) ((memsize + 2 ^ 64 - 6) mod 2 ^ 64)) mh_from)
               else fits (take (min (length mh_from - length atptr) ((memsize + 2 ^ 64 - 1) mod 2 ^ 64)) mh_from))
            else fits (take (min (length mh_from - length atptr) ((memsize + 2 ^ 64 - 1) mod 2 ^ 64)) mh_from))"

definition address_cleanup :: "mem \<Rightarrow> cstr \<Rightarrow> cstr option option" where
  "address_cleanup al addr =
     (case strdup al addr of
        None \<Rightarrow> Some None
      | Some tmp \<Rightarrow>
        (case buffer_new al of
           None \<Rightarrow> Some None
         | Some buf \<Rightarrow>
             let p = dropWhile is_space tmp;
                 other = cut_at 32 p;
                 s = (case strchr p 60 of
                        None \<Rightarrow> other
                      | Some a \<Rightarrow>
                          (case strchr a 62 of
                             None \<Rightarrow> other
                           | Some b \<Rightarrow> drop 1 (take (length a - length b) a))) in
             buffer_getstring al (snd (buffer_addchar al (add_string al buf s) 0))))"

definition add_strings :: "mem \<Rightarrow> buffer \<Rightarrow> cstr list \<Rightarrow> buffer" where
  "add_strings al b ss = foldl (add_string al) b ss"

text \<open>The loop over the characters of a part, each through \<open>buffer_addchar\<close> whose result is ignored.\<close>

definition add_chars :: "mem \<Rightarrow> buffer \<Rightarrow> u8 list \<Rightarrow> buffer" where
  "add_chars al b cs = foldl (\<lambda>b c. snd (buffer_addchar al b (ucast c))) b cs"

text \<open>One leaf of the mail; the body is the first text that is not a file.  \<open>Inl\<close> is the status of a call of \<open>exit\<close>.\<close>

definition is_body :: "part \<Rightarrow> wl2kmessage \<Rightarrow> bool" where
  "is_body p m \<longleftrightarrow> filename p = None \<and> buffer_length (bbuf m) = 0 \<and>
     (is_type p (bytes ''text'') (bytes ''plain'') \<or> is_type p (bytes ''text'') (bytes ''html''))"

definition file_name :: "part \<Rightarrow> cstr" where
  "file_name p =
     (case filename p of
        Some fn \<Rightarrow> fn
      | None \<Rightarrow> if is_type p (bytes ''text'') (bytes ''*'') then bytes ''attachment.txt'' else bytes ''attachment.bin'')"

definition mime_part :: "mem \<Rightarrow> part \<Rightarrow> wl2kmessage \<Rightarrow> int + wl2kmessage" where
  "mime_part al p m =
     (let slen = show_dec (length (content p)) in
      if \<not> granted al (length slen + 1) then Inl 1
      else if is_body p m then
        Inr (m\<lparr>hbuf := add_strings al (hbuf m) [bytes ''Body: '', slen, crlf],
               bbuf := add_chars al (add_string al (bbuf m) crlf) (content p)\<rparr>)
      else
        Inr (m\<lparr>fbuf := add_strings al (fbuf m) [bytes ''File: '', slen, bytes '' '', file_name p, crlf],
               abuf := add_chars al (add_string al (abuf m) crlf) (content p)\<rparr>))"

text \<open>\<open>g_mime_message_foreach\<close> with \<open>mime_foreach_callback\<close>; the failed assertion aborts the program.\<close>

fun mime_foreach :: "mem \<Rightarrow> gmime_object list \<Rightarrow> wl2kmessage \<Rightarrow> int + wl2kmessage" where
  "mime_foreach al [] m = Inr m"
| "mime_foreach al (Message_part os # rest) m =
     (case mime_foreach al os m of Inl n \<Rightarrow> Inl n | Inr m \<Rightarrow> mime_foreach al rest m)"
| "mime_foreach al (Message_partial # rest) m = mime_foreach al rest m"
| "mime_foreach al (Multipart # rest) m = mime_foreach al rest m"
| "mime_foreach al (Part p # rest) m =
     (case mime_part al p m of Inl n \<Rightarrow> Inl n | Inr m \<Rightarrow> mime_foreach al rest m)"
| "mime_foreach al (Other_object # rest) m = Inl 134"

text \<open>A cleaned address after its keyword; a null pointer is followed.\<close>

definition add_address :: "mem \<Rightarrow> cstr \<Rightarrow> cstr \<Rightarrow> buffer \<Rightarrow> (cstr \<times> buffer) option" where
  "add_address al keyword addr b =
     do { c \<leftarrow> address_cleanup al addr;
          clean \<leftarrow> c;
          let b = add_string al b keyword;
          let b = (if strchr clean 64 \<noteq> None then add_string al b (bytes ''SMTP:'') else b);
          Some (clean, add_strings al b [clean, crlf]) }"

fun add_addresses :: "mem \<Rightarrow> cstr \<Rightarrow> cstr list \<Rightarrow> buffer \<Rightarrow> buffer option" where
  "add_addresses al keyword [] b = Some b"
| "add_addresses al keyword (h # hs) b = do { (_, b) \<leftarrow> add_address al keyword h b; add_addresses al keyword hs b }"

text \<open>The header from the message id to \<open>Mbo:\<close>.\<close>

definition mime_header :: "mem \<Rightarrow> message \<Rightarrow> cstr \<Rightarrow> cstr \<Rightarrow> buffer \<Rightarrow> buffer option" where
  "mime_header al msg mid date b =
     do { let b = add_strings al b [bytes ''Mid: '', mid, crlf, bytes ''Date: '', date, crlf, bytes ''Type: Private'' @ crlf];
          sndr \<leftarrow> msg_sender msg;
          (mheader_from, b) \<leftarrow> add_address al (bytes ''From: '') sndr b;
          b \<leftarrow> add_addresses al (bytes ''To: '') (msg_to msg) b;
          b \<leftarrow> add_addresses al (bytes ''Cc: '') (msg_cc msg) b;
          b \<leftarrow> add_addresses al (bytes ''Bcc: '') (msg_bcc msg) b;
          subject \<leftarrow> msg_subject msg;
          let b = add_strings al b [bytes ''Subject: '', subject, crlf];
          let b = (case msg_reply_to msg of None \<Rightarrow> b | Some r \<Rightarrow> add_strings al b [bytes ''Reply-To: '', r, crlf]);
          mbo \<leftarrow> mbo_header al mheader_from;
          mheader_mbo \<leftarrow> mbo;
          Some (add_strings al b [bytes ''Mbo: '', mheader_mbo, crlf]) }"

definition nobody :: cstr where
  "nobody = bytes ''No message body'' @ crlf"

text \<open>The text for a mail without a body.\<close>

definition add_nobody :: "mem \<Rightarrow> wl2kmessage \<Rightarrow> int + wl2kmessage" where
  "add_nobody al m =
     (if buffer_length (bbuf m) = 0 then
        let slen = show_dec (length nobody) in
        if \<not> granted al (length slen + 1) then Inl 1
        else Inr (m\<lparr>hbuf := add_strings al (hbuf m) [bytes ''Body: '', slen, crlf], bbuf := add_string al (bbuf m) nobody\<rparr>)
      else Inr m)"

text \<open>The four buffers put together.\<close>

definition join_buffers :: "mem \<Rightarrow> wl2kmessage \<Rightarrow> buffer option option" where
  "join_buffers al m =
     (case buffer_new al of
        None \<Rightarrow> Some None
      | Some buf \<Rightarrow>
          do { (_, buf, _) \<leftarrow> buffer_addbuf al buf (hbuf m);
               (_, buf, _) \<leftarrow> buffer_addbuf al buf (fbuf m);
               (_, buf, _) \<leftarrow> buffer_addbuf al buf (bbuf m);
               (_, buf, _) \<leftarrow> buffer_addbuf al buf (abuf m);
               Some (Some buf) })"

text \<open>\<open>gmtime\<close> gives a null pointer, which \<open>strftime\<close> follows, for a year out of range.\<close>

definition mime2wl :: "message \<Rightarrow> cstr \<Rightarrow> bool \<Rightarrow> ('d, buffer option) io" where
  "mime2wl msg callsign bRecMid = andthen (look mem) (\<lambda>al.
     case buffer_new al of
       None \<Rightarrow> ret None
     | Some b \<Rightarrow>
         andthen (generate_mid callsign bRecMid) (\<lambda>mid. case mid of
             None \<Rightarrow> ret None
           | Some mid \<Rightarrow>
               andthen (if msg_date msg = 0 then andthen time_now (\<lambda>t. ret (sint t)) else ret (msg_date msg)) (\<lambda>tloc.
               andthen (defined (gmtime tloc)) (\<lambda>tm. case strftime_date 17 tm of
                   None \<Rightarrow> ret None
                 | Some date \<Rightarrow>
                     andthen (defined (mime_header al msg mid date b)) (\<lambda>h.
                       case mime_foreach al (msg_objects msg) \<lparr>hbuf = h, fbuf = b, bbuf = b, abuf = b\<rparr> of
                         Inl n \<Rightarrow> exit n
                       | Inr m \<Rightarrow> (case add_nobody al m of
                             Inl n \<Rightarrow> exit n
                           | Inr m \<Rightarrow> defined (join_buffers al m)))))))"

section \<open>Rounding up to a power of two\<close>

text \<open>A word whose bit \<open>n\<close> is the disjunction of the bits \<open>n\<close> to \<open>n + k - 1\<close> of \<open>x\<close>.\<close>

definition smeared :: "nat \<Rightarrow> u32 \<Rightarrow> u32 \<Rightarrow> bool" where
  "smeared k x v \<longleftrightarrow> (\<forall>n. bit v n \<longleftrightarrow> (\<exists>i < k. bit x (n + i)))"

lemma smeared_step:
  assumes "smeared k x v"
  shows "smeared (2 * k) x (v OR drop_bit k v)"
  unfolding smeared_def
proof
  fix n
  have "bit (v OR drop_bit k v) n \<longleftrightarrow> (\<exists>i < k. bit x (n + i)) \<or> (\<exists>i < k. bit x (n + (k + i)))"
    using assms by (auto simp: smeared_def bit_simps ac_simps)
  also have "\<dots> \<longleftrightarrow> (\<exists>i < 2 * k. bit x (n + i))"
  proof
    assume "(\<exists>i < k. bit x (n + i)) \<or> (\<exists>i < k. bit x (n + (k + i)))"
    then show "\<exists>i < 2 * k. bit x (n + i)"
    proof
      assume "\<exists>i < k. bit x (n + i)"
      then obtain i where "i < k" "bit x (n + i)" by blast
      then show ?thesis by (intro exI [of _ i]) simp
    next
      assume "\<exists>i < k. bit x (n + (k + i))"
      then obtain i where "i < k" "bit x (n + (k + i))" by blast
      then show ?thesis by (intro exI [of _ "k + i"]) simp
    qed
  next
    assume "\<exists>i < 2 * k. bit x (n + i)"
    then obtain i where i: "i < 2 * k" "bit x (n + i)" by blast
    show "(\<exists>i < k. bit x (n + i)) \<or> (\<exists>i < k. bit x (n + (k + i)))"
    proof (cases "i < k")
      case True
      with i show ?thesis by blast
    next
      case False
      then have "bit x (n + (k + (i - k)))" "i - k < k" using i by simp_all
      then show ?thesis by blast
    qed
  qed
  finally show "bit (v OR drop_bit k v) n \<longleftrightarrow> (\<exists>i < 2 * k. bit x (n + i))" .
qed

lemma smeared_mask:
  fixes x :: u32
  assumes "smeared 32 x y" "2 ^ t \<le> unat x" "unat x < 2 ^ (t + 1)"
  shows "unat y = 2 ^ (t + 1) - 1"
proof -
  have bit: "bit x n \<longleftrightarrow> odd (unat x div 2 ^ n)" for n
  proof -
    have "bit x n \<longleftrightarrow> bit (unat x) n" by (simp add: bit_unsigned_iff)
    then show ?thesis by (simp add: bit_iff_odd)
  qed
  have "unat x div 2 ^ t = 1" using assms(2,3) by (simp add: div_nat_eqI)
  then have top: "bit x t" by (simp add: bit)
  have above: "\<not> bit x n" if "t < n" for n
  proof -
    have "unat x < 2 ^ n" using assms(3) power_increasing [of "t + 1" n "2 :: nat"] that by simp
    then show ?thesis by (simp add: bit)
  qed
  have t: "t < 32" using bit_imp_le_length [OF top] by simp
  have "bit y n \<longleftrightarrow> n \<le> t" for n
  proof
    assume "bit y n"
    then show "n \<le> t" using assms(1) above by (metis le_add1 le_trans linorder_not_less smeared_def)
  next
    assume "n \<le> t"
    then have "bit x (n + (t - n))" "t - n < 32" using top t by simp_all
    then show "bit y n" using assms(1) by (auto simp: smeared_def)
  qed
  then have "bit (unat y) n \<longleftrightarrow> bit (mask (t + 1) :: nat) n" for n
    by (simp add: bit_unsigned_iff bit_mask_iff less_Suc_eq_le)
  then have "unat y = mask (t + 1)" by (intro bit_eqI) simp
  then show ?thesis by (simp add: mask_eq_exp_minus_1)
qed

lemma roundup_power:
  assumes "0 < n" "n \<le> 2 ^ 31"
  shows "\<exists>k. unat (roundup_np2 (of_nat n)) = 2 ^ k \<and> n \<le> 2 ^ k \<and> 2 ^ k < 2 * n"
proof -
  define x :: u32 where "x = of_nat n - 1"
  define y where "y = (let v = x OR drop_bit 1 x; v = v OR drop_bit 2 v; v = v OR drop_bit 4 v; v = v OR drop_bit 8 v
     in v OR drop_bit 16 v)"
  have r: "roundup_np2 (of_nat n) = y + 1" by (simp add: roundup_np2_def y_def x_def Let_def)
  have "smeared 1 x x" by (simp add: smeared_def)
  from smeared_step [OF this] have "smeared 2 x (x OR drop_bit 1 x)" by simp
  from smeared_step [OF smeared_step [OF smeared_step [OF smeared_step [OF this]]]]
  have sm: "smeared 32 x y" by (simp add: y_def Let_def)
  have "x = of_nat (n - 1)" using assms(1) by (simp add: x_def of_nat_diff)
  then have x: "unat x = n - 1" using assms(2) by (simp add: unat_of_nat)
  show ?thesis
  proof (cases "n = 1")
    case True
    then have "y = 0" by (simp add: y_def x_def Let_def)
    then have "unat (roundup_np2 (of_nat n)) = 2 ^ 0" by (simp only: r) simp
    then show ?thesis using True by (intro exI [of _ 0]) simp
  next
    case False
    then obtain t where t: "2 ^ t \<le> n - 1" "n - 1 < 2 ^ (t + 1)" using ex_power_ivl1 [of 2 "n - 1"] assms(1) by fastforce
    have "t < 31"
    proof (rule ccontr)
      assume "\<not> t < 31"
      then have "(2 :: nat) ^ 31 \<le> 2 ^ t" by (intro power_increasing) simp_all
      then show False using t(1) assms by simp
    qed
    then have "(2 :: nat) ^ (t + 1) \<le> 2 ^ 31" by (intro power_increasing) simp_all
    moreover have "unat y = 2 ^ (t + 1) - 1" using smeared_mask [OF sm] t x by simp
    ultimately have "unat (y + 1) = 2 ^ (t + 1)" by (simp add: unat_word_ariths)
    moreover have "n \<le> 2 ^ (t + 1)" "2 ^ t < n" using t assms(1) by linarith+
    ultimately show ?thesis by (intro exI [of _ "t + 1"]) (simp add: r)
  qed
qed

section \<open>Addresses\<close>

text \<open>What \<open>address_cleanup\<close> keeps of an address, and the text of the header \<open>Mbo:\<close>.\<close>

definition clean_address :: "cstr \<Rightarrow> cstr" where
  "clean_address s =
     (let p = dropWhile is_space s; a = dropWhile (\<lambda>c. c \<noteq> 60) p in
      if 62 \<in> set a then drop 1 (takeWhile (\<lambda>c. c \<noteq> 62) a) else takeWhile (\<lambda>c. c \<noteq> 32) p)"

definition domain :: "cstr \<Rightarrow> cstr" where
  "domain s = drop 1 (dropWhile (\<lambda>c. c \<noteq> 64) s)"

definition mbo_of :: "cstr \<Rightarrow> cstr" where
  "mbo_of s = (if domain s \<noteq> [] \<and> \<not> strcasebegins (domain s) (bytes ''winlink'') then bytes ''SMTP:'' @ s
     else takeWhile (\<lambda>c. c \<noteq> 64) s)"

lemma strchr_in: "strchr s c = (if c \<in> set s then Some (dropWhile (\<lambda>x. x \<noteq> c) s) else None)"
proof (cases "c \<in> set s")
  case True
  then have "dropWhile (\<lambda>x. x \<noteq> c) s \<noteq> []" by (auto simp: dropWhile_eq_Nil_conv)
  then show ?thesis using True by (cases "dropWhile (\<lambda>x. x \<noteq> c) s") (simp_all add: strchr_def)
next
  case False
  then have "dropWhile (\<lambda>x. x \<noteq> c) s = []" by (auto simp: dropWhile_eq_Nil_conv)
  then show ?thesis using False by (simp only: strchr_def list.case if_False)
qed

lemma take_before:
  fixes s :: cstr
  shows "c \<in> set s \<Longrightarrow> take (length s - length (dropWhile (\<lambda>x. x \<noteq> c) s)) s = takeWhile (\<lambda>x. x \<noteq> c) s"
  using cut_at_takeWhile [of c s] by (simp add: cut_at_def strchr_in)

lemma set_clean_address: "set (clean_address s) \<subseteq> set s"
proof -
  have "set (takeWhile P (dropWhile Q xs)) \<subseteq> set xs" for P Q and xs :: cstr
    using set_takeWhileD set_dropWhileD by fastforce
  moreover have "set (drop 1 xs) \<subseteq> set xs" for xs :: cstr by (rule set_drop_subset)
  ultimately show ?thesis
    unfolding clean_address_def Let_def by (auto dest!: set_takeWhileD set_dropWhileD in_set_dropD)
qed

lemma length_clean_address: "length (clean_address s) \<le> length s"
proof -
  have t: "length (takeWhile P xs) \<le> length xs" and d: "length (dropWhile P xs) \<le> length xs" for P and xs :: cstr
    by (rule length_takeWhile_le, rule length_dropWhile_le)
  define p where "p = dropWhile is_space s"
  define a where "a = dropWhile (\<lambda>c. c \<noteq> 60) p"
  have "length a \<le> length p" "length p \<le> length s" by (simp_all add: a_def p_def d)
  moreover have "clean_address s = (if 62 \<in> set a then drop 1 (takeWhile (\<lambda>c. c \<noteq> 62) a) else takeWhile (\<lambda>c. c \<noteq> 32) p)"
    by (simp add: clean_address_def p_def a_def)
  ultimately show ?thesis using t [of "\<lambda>c. c \<noteq> 62" a] t [of "\<lambda>c. c \<noteq> 32" p] by auto
qed

lemma address_cleanup_ok:
  assumes "0 \<notin> set s" "plenty al (2 * length s + 40)"
  shows "address_cleanup al s = Some (Some (clean_address s))"
proof -
  have g: "granted al (length s + 1)" by (rule plenty_granted [OF assms(2)]) simp
  obtain e where e: "buffer_new al = Some e" using buffer_new_plenty [OF assms(2)] by auto
  then have fresh: "buffer_inv e" "contents e = []" "dlen e = 0" using buffer_new_fresh by blast+
  let ?c = "clean_address s"
  have c: "length ?c \<le> length s" "0 \<notin> set ?c" using length_clean_address set_clean_address assms(1) by blast+
  have "plenty al (2 * (dlen e + length ?c))" by (rule plenty_le [OF assms(2)]) (use c fresh in simp)
  note b = add_string_plenty [OF fresh(1) this]
  have "plenty al (2 * Suc (length (contents (add_string al e ?c))))"
    by (rule plenty_le [OF assms(2)]) (use c fresh b in simp)
  then obtain b' where b': "buffer_addchar al (add_string al e ?c) (ucast (0 :: u8)) = (0, b')" "buffer_inv b'"
      "contents b' = ?c @ [0]" using buf.put_success [of "add_string al e ?c" al 0] b fresh by auto
  have "cstring (data b') = Some ?c"
    using cstring_contents [OF b'(2)] b'(3) takeWhile_nul_snoc cut_nul_id [OF c(2)] by simp
  moreover have "granted al (length ?c + 1)" by (rule plenty_granted [OF assms(2)]) (use c in simp)
  ultimately have get: "buffer_getstring al (snd (buffer_addchar al (add_string al e ?c) 0)) = Some (Some ?c)"
    using b'(1) by (simp add: buffer_getstring_def strdup_storage_def)
  have "(case strchr (dropWhile is_space s) 60 of None \<Rightarrow> cut_at 32 (dropWhile is_space s)
      | Some a \<Rightarrow> case strchr a 62 of None \<Rightarrow> cut_at 32 (dropWhile is_space s) | Some b \<Rightarrow> drop 1 (take (length a - length b) a))
    = ?c"
  proof (cases "60 \<in> set (dropWhile is_space s)")
    case True
    then show ?thesis by (simp add: strchr_in clean_address_def Let_def cut_at_takeWhile take_before)
  next
    case False
    then have "dropWhile (\<lambda>c. c \<noteq> 60) (dropWhile is_space s) = []" by (auto simp: dropWhile_eq_Nil_conv)
    then have "?c = takeWhile (\<lambda>c. c \<noteq> 32) (dropWhile is_space s)"
      unfolding clean_address_def Let_def by (simp only: list.set empty_iff if_False)
    with False show ?thesis by (simp add: strchr_in cut_at_takeWhile)
  qed
  then show ?thesis using g e get by (simp add: address_cleanup_def strdup_def Let_def)
qed

lemma mbo_header_ok:
  assumes "64 \<in> set s" "length s + 6 \<le> 2 ^ 31" "plenty al (2 * length s + 12)"
  shows "mbo_header al s = Some (Some (mbo_of s))"
proof -
  obtain k where k: "unat (roundup_np2 (of_nat (length s + 6))) = 2 ^ k" "length s + 6 \<le> 2 ^ k" "2 ^ k < 2 * (length s + 6)"
    using roundup_power [of "length s + 6"] assms(2) by auto
  define m where "m = unat (roundup_np2 (of_nat (length s + 6)))"
  have m: "length s + 6 \<le> m" "m \<le> 2 * length s + 12" "m < 2 ^ 33" using k assms(2) by (simp_all add: m_def)
  have g: "granted al m" by (rule plenty_granted [OF assms(3) m(2)])
  have sub: "(m + 2 ^ 64 - 6) mod 2 ^ 64 = m - 6" "(m + 2 ^ 64 - 1) mod 2 ^ 64 = m - 1"
  proof -
    have "m + 2 ^ 64 - j = (m - j) + 2 ^ 64" if "j \<le> 6" for j using m(1) that by simp
    then show "(m + 2 ^ 64 - 6) mod 2 ^ 64 = m - 6" "(m + 2 ^ 64 - 1) mod 2 ^ 64 = m - 1" using m(3) by simp_all
  qed
  have w: "take (min (length s - length (dropWhile (\<lambda>x. x \<noteq> 64) s)) (m - 1)) s = takeWhile (\<lambda>x. x \<noteq> 64) s"
    using take_before [OF assms(1)] m(1) by (simp add: min_absorb1)
  have l: "length (takeWhile (\<lambda>x. x \<noteq> 64) s) < m" using length_takeWhile_le [of "\<lambda>x. x \<noteq> 64" s] m(1) by simp
  have mbo: "mbo_header al s =
      (if domain s \<noteq> [] \<and> \<not> strcasebegins (domain s) (bytes ''winlink'') then
         (if length (bytes ''SMTP:'' @ take (min (length s) (m - 6)) s) < m then Some (Some (bytes ''SMTP:'' @ take (min (length s) (m - 6)) s)) else None)
       else if length (takeWhile (\<lambda>x. x \<noteq> 64) s) < m then Some (Some (takeWhile (\<lambda>x. x \<noteq> 64) s)) else None)"
    unfolding mbo_header_def Let_def m_def [symmetric] sub strchr_in domain_def [symmetric]
    using assms(1) g by (simp only: option.case if_True not_True_eq_False if_False w domain_def [symmetric]) simp
  have "take (min (length s) (m - 6)) s = s" "length (bytes ''SMTP:'' @ s) < m" using m(1) by (simp_all add: min_absorb1 bytes_def)
  then show ?thesis using l by (simp only: mbo mbo_of_def if_True) simp
qed

section \<open>Text\<close>

lemma add_strings_plenty:
  "buffer_inv b \<Longrightarrow> plenty al (2 * (dlen b + length (concat ss))) \<Longrightarrow>
   buffer_inv (add_strings al b ss) \<and> contents (add_strings al b ss) = contents b @ concat ss"
proof (induction ss arbitrary: b)
  case Nil
  then show ?case by (simp add: add_strings_def)
next
  case (Cons s ss)
  have "plenty al (2 * (dlen b + length s))" by (rule plenty_le [OF Cons.prems(2)]) simp
  note a = add_string_plenty [OF Cons.prems(1) this]
  have "dlen (add_string al b s) = dlen b + length s"
    using a length_contents [of "add_string al b s"] length_contents [OF Cons.prems(1)] by simp
  then have "plenty al (2 * (dlen (add_string al b s) + length (concat ss)))" using Cons.prems(2) by (simp add: algebra_simps)
  from Cons.IH [OF _ this] a show ?case by (simp add: add_strings_def)
qed

lemma add_chars_string:
  "buffer_inv b \<Longrightarrow> plenty al (2 * (dlen b + length cs)) \<Longrightarrow>
   buffer_inv (add_chars al b cs) \<and> contents (add_chars al b cs) = contents b @ cs"
proof (induction cs arbitrary: b)
  case Nil
  then show ?case by (simp add: add_chars_def)
next
  case (Cons c cs)
  have "plenty al (2 * Suc (length (contents b)))" by (rule plenty_le [OF Cons.prems(2)]) (simp add: Cons.prems(1))
  then obtain b1 where b1: "buffer_addchar al b (ucast c) = (0, b1)" "buffer_inv b1" "contents b1 = contents b @ [c]"
    using buf.put_success [OF Cons.prems(1)] by blast
  have "dlen b1 = Suc (dlen b)" using b1(3) length_contents [OF b1(2)] length_contents [OF Cons.prems(1)] by simp
  then have "plenty al (2 * (dlen b1 + length cs))" using Cons.prems(2) by simp
  from Cons.IH [OF b1(2) this] b1 show ?case by (simp add: add_chars_def)
qed

text \<open>A buffer and the text in it.\<close>

definition holds :: "buffer \<Rightarrow> u8 list \<Rightarrow> bool" where
  "holds b s \<longleftrightarrow> buffer_inv b \<and> contents b = s"

lemma holds_length: "holds b s \<Longrightarrow> dlen b = length s"
  using length_contents [of b] by (simp add: holds_def)

lemma holds_new: "buffer_new al = Some b \<Longrightarrow> holds b []"
  using buffer_new_fresh [of al b] by (simp add: holds_def)

lemma holds_add_string:
  "holds b s \<Longrightarrow> plenty al n \<Longrightarrow> 2 * length (s @ u) \<le> n \<Longrightarrow> holds (add_string al b u) (s @ u)"
  using add_string_plenty [of b al u] holds_length [of b s] plenty_le [of al n "2 * length (s @ u)"] by (simp add: holds_def)

lemma holds_add_strings:
  "holds b s \<Longrightarrow> plenty al n \<Longrightarrow> 2 * length (s @ concat us) \<le> n \<Longrightarrow> holds (add_strings al b us) (s @ concat us)"
  using add_strings_plenty [of b al us] holds_length [of b s] plenty_le [of al n "2 * length (s @ concat us)"] by (simp add: holds_def)

lemma holds_add_chars:
  "holds b s \<Longrightarrow> plenty al n \<Longrightarrow> 2 * length (s @ u) \<le> n \<Longrightarrow> holds (add_chars al b u) (s @ u)"
  using add_chars_string [of b al u] holds_length [of b s] plenty_le [of al n "2 * length (s @ u)"] by (simp add: holds_def)

text \<open>The lines of the header, and the text of a mail with the body \<open>p\<close> and the attachments \<open>ps\<close>.\<close>

definition mailbox_text :: "string \<Rightarrow> cstr \<Rightarrow> cstr" where
  "mailbox_text keyword a = bytes keyword @ (if 64 \<in> set a then bytes ''SMTP:'' else []) @ a"

definition mailbox_texts :: "string \<Rightarrow> cstr list \<Rightarrow> cstr list" where
  "mailbox_texts keyword as = map (\<lambda>a. mailbox_text keyword (clean_address a)) as"

definition mail_header :: "message \<Rightarrow> cstr \<Rightarrow> cstr \<Rightarrow> cstr list" where
  "mail_header msg mid date =
     [bytes ''Mid: '' @ mid, bytes ''Date: '' @ date, bytes ''Type: Private'',
      mailbox_text ''From: '' (clean_address (the (msg_sender msg)))] @
     mailbox_texts ''To: '' (msg_to msg) @ mailbox_texts ''Cc: '' (msg_cc msg) @ mailbox_texts ''Bcc: '' (msg_bcc msg) @
     [bytes ''Subject: '' @ the (msg_subject msg)] @
     (case msg_reply_to msg of None \<Rightarrow> [] | Some r \<Rightarrow> [bytes ''Reply-To: '' @ r]) @
     [bytes ''Mbo: '' @ mbo_of (clean_address (the (msg_sender msg)))]"

lemma add_address_ok:
  assumes "holds b s" "0 \<notin> set a" "plenty al n" "2 * length a + 40 \<le> n"
    and "2 * length (s @ mailbox_text k (clean_address a) @ crlf) \<le> n"
  shows "\<exists>b'. add_address al (bytes k) a b = Some (clean_address a, b') \<and> holds b' (s @ mailbox_text k (clean_address a) @ crlf)"
proof -
  let ?us = "[bytes k] @ (if 64 \<in> set (clean_address a) then [bytes ''SMTP:''] else []) @ [clean_address a, crlf]"
  have c: "concat ?us = mailbox_text k (clean_address a) @ crlf" by (simp add: mailbox_text_def)
  have "address_cleanup al a = Some (Some (clean_address a))"
    by (rule address_cleanup_ok [OF assms(2) plenty_le [OF assms(3,4)]])
  then have "add_address al (bytes k) a b = Some (clean_address a, add_strings al b ?us)"
    by (simp add: add_address_def Let_def strchr_in add_strings_def)
  moreover have "2 * length (s @ concat ?us) \<le> n" using assms(5) by (simp only: c)
  from holds_add_strings [OF assms(1,3) this] have "holds (add_strings al b ?us) (s @ mailbox_text k (clean_address a) @ crlf)"
    by (simp only: c)
  ultimately show ?thesis by blast
qed

lemma add_addresses_ok:
  "holds b s \<Longrightarrow> plenty al n \<Longrightarrow> \<forall>a \<in> set as. 0 \<notin> set a \<and> 2 * length a + 40 \<le> n \<Longrightarrow>
   2 * length (s @ lines (mailbox_texts k as)) \<le> n \<Longrightarrow>
   \<exists>b'. add_addresses al (bytes k) as b = Some b' \<and> holds b' (s @ lines (mailbox_texts k as))"
proof (induction as arbitrary: b s)
  case Nil
  then show ?case by (simp add: mailbox_texts_def)
next
  case (Cons a as)
  let ?t = "s @ mailbox_text k (clean_address a) @ crlf"
  have "2 * length ?t \<le> n" using Cons.prems(4) by (simp add: mailbox_texts_def)
  then obtain b1 where b1: "add_address al (bytes k) a b = Some (clean_address a, b1)" "holds b1 ?t"
    using add_address_ok [OF Cons.prems(1) _ Cons.prems(2)] Cons.prems(3) by force
  have "2 * length (?t @ lines (mailbox_texts k as)) \<le> n" using Cons.prems(4) by (simp add: mailbox_texts_def)
  from Cons.IH [OF b1(2) Cons.prems(2) _ this] Cons.prems(3) b1(1) show ?case by (auto simp: mailbox_texts_def)
qed

text \<open>The strings a mail gives to the header.\<close>

definition addresses :: "message \<Rightarrow> cstr list" where
  "addresses msg = the (msg_sender msg) # msg_to msg @ msg_cc msg @ msg_bcc msg"

lemma mime_header_ok:
  assumes sndr: "msg_sender msg = Some sndr" "64 \<in> set (clean_address sndr)" "length sndr + 6 \<le> 2 ^ 31"
    and subj: "msg_subject msg \<noteq> None"
    and adr: "\<forall>a \<in> set (addresses msg). 0 \<notin> set a \<and> 2 * length a + 40 \<le> n"
    and al: "plenty al n" "2 * length (lines (mail_header msg mid date)) \<le> n" and b: "holds b []"
  shows "\<exists>h. mime_header al msg mid date b = Some h \<and> holds h (lines (mail_header msg mid date))"
proof -
  obtain sub where sub: "msg_subject msg = Some sub" using subj by blast
  have adr': "0 \<notin> set sndr" "2 * length sndr + 40 \<le> n"
      "\<forall>a \<in> set (msg_to msg). 0 \<notin> set a \<and> 2 * length a + 40 \<le> n" "\<forall>a \<in> set (msg_cc msg). 0 \<notin> set a \<and> 2 * length a + 40 \<le> n"
      "\<forall>a \<in> set (msg_bcc msg). 0 \<notin> set a \<and> 2 * length a + 40 \<le> n"
    using adr by (simp_all add: addresses_def sndr(1))
  define t1 where "t1 = lines [bytes ''Mid: '' @ mid, bytes ''Date: '' @ date, bytes ''Type: Private'']"
  define t2 where "t2 = t1 @ mailbox_text ''From: '' (clean_address sndr) @ crlf"
  define t3 where "t3 = t2 @ lines (mailbox_texts ''To: '' (msg_to msg))"
  define t4 where "t4 = t3 @ lines (mailbox_texts ''Cc: '' (msg_cc msg))"
  define t5 where "t5 = t4 @ lines (mailbox_texts ''Bcc: '' (msg_bcc msg))"
  define t6 where "t6 = t5 @ bytes ''Subject: '' @ sub @ crlf"
  define t7 where "t7 = t6 @ (case msg_reply_to msg of None \<Rightarrow> [] | Some r \<Rightarrow> bytes ''Reply-To: '' @ r @ crlf)"
  define t8 where "t8 = t7 @ bytes ''Mbo: '' @ mbo_of (clean_address sndr) @ crlf"
  have t8: "lines (mail_header msg mid date) = t8"
    by (simp add: mail_header_def sndr(1) sub t8_def t7_def t6_def t5_def t4_def t3_def t2_def t1_def split: option.split)
  have len: "length t1 \<le> length t2" "length t2 \<le> length t3" "length t3 \<le> length t4" "length t4 \<le> length t5" "length t5 \<le> length t6"
      "length t6 \<le> length t7" "length t7 \<le> length t8" "2 * length t8 \<le> n"
    using al(2) t8 by (simp_all add: t8_def t7_def t6_def t5_def t4_def t3_def t2_def)
  let ?u1 = "[bytes ''Mid: '', mid, crlf, bytes ''Date: '', date, crlf, bytes ''Type: Private'' @ crlf]"
  have u1: "[] @ concat ?u1 = t1" by (simp add: t1_def)
  have "2 * length ([] @ concat ?u1) \<le> n" unfolding u1 using len by linarith
  from holds_add_strings [OF b al(1) this] have b1: "holds (add_strings al b ?u1) t1" by (simp only: u1)
  obtain b2 where b2: "add_address al (bytes ''From: '') sndr (add_strings al b ?u1) = Some (clean_address sndr, b2)" "holds b2 t2"
    using add_address_ok [OF b1 adr'(1) al(1) adr'(2), of "''From: ''"] len by (auto simp: t2_def)
  obtain b3 where b3: "add_addresses al (bytes ''To: '') (msg_to msg) b2 = Some b3" "holds b3 t3"
    using add_addresses_ok [OF b2(2) al(1) adr'(3), of "''To: ''"] len by (auto simp: t3_def)
  obtain b4 where b4: "add_addresses al (bytes ''Cc: '') (msg_cc msg) b3 = Some b4" "holds b4 t4"
    using add_addresses_ok [OF b3(2) al(1) adr'(4), of "''Cc: ''"] len by (auto simp: t4_def)
  obtain b5 where b5: "add_addresses al (bytes ''Bcc: '') (msg_bcc msg) b4 = Some b5" "holds b5 t5"
    using add_addresses_ok [OF b4(2) al(1) adr'(5), of "''Bcc: ''"] len by (auto simp: t5_def)
  have "2 * length (t5 @ concat [bytes ''Subject: '', sub, crlf]) \<le> n" using len by (simp add: t6_def)
  from holds_add_strings [OF b5(2) al(1) this] have b6: "holds (add_strings al b5 [bytes ''Subject: '', sub, crlf]) t6"
    by (simp add: t6_def)
  define b7 where "b7 = (case msg_reply_to msg of None \<Rightarrow> add_strings al b5 [bytes ''Subject: '', sub, crlf]
     | Some r \<Rightarrow> add_strings al (add_strings al b5 [bytes ''Subject: '', sub, crlf]) [bytes ''Reply-To: '', r, crlf])"
  have b7: "holds b7 t7"
  proof (cases "msg_reply_to msg")
    case None
    then show ?thesis using b6 by (simp add: b7_def t7_def)
  next
    case (Some r)
    then have "2 * length (t6 @ concat [bytes ''Reply-To: '', r, crlf]) \<le> n" using len by (simp add: t7_def)
    from holds_add_strings [OF b6 al(1) this] Some show ?thesis by (simp add: b7_def t7_def)
  qed
  have c: "length (clean_address sndr) \<le> length sndr" by (rule length_clean_address)
  have "plenty al (2 * length (clean_address sndr) + 12)" by (rule plenty_le [OF al(1)]) (use c adr'(2) in linarith)
  with mbo_header_ok [OF sndr(2)] c sndr(3) have m: "mbo_header al (clean_address sndr) = Some (Some (mbo_of (clean_address sndr)))" by simp
  have "2 * length (t7 @ concat [bytes ''Mbo: '', mbo_of (clean_address sndr), crlf]) \<le> n" using len by (simp add: t8_def)
  from holds_add_strings [OF b7 al(1) this]
  have "holds (add_strings al b7 [bytes ''Mbo: '', mbo_of (clean_address sndr), crlf]) t8" by (simp add: t8_def)
  moreover have "mime_header al msg mid date b = Some (add_strings al b7 [bytes ''Mbo: '', mbo_of (clean_address sndr), crlf])"
    unfolding mime_header_def Let_def
    by (simp only: sndr(1) sub option.case bind.bind_lunit b2(1) b3(1) b4(1) b5(1) m prod.case b7_def)
  ultimately show ?thesis unfolding t8 by blast
qed

section \<open>Parts\<close>

text \<open>The leaves of a mail in the order they are visited; \<open>None\<close> when an object is of no known class.\<close>

fun leaves :: "gmime_object list \<Rightarrow> part list option" where
  "leaves [] = Some []"
| "leaves (Message_part os # rest) = do { ps \<leftarrow> leaves os; qs \<leftarrow> leaves rest; Some (ps @ qs) }"
| "leaves (Message_partial # rest) = leaves rest"
| "leaves (Multipart # rest) = leaves rest"
| "leaves (Part p # rest) = do { ps \<leftarrow> leaves rest; Some (p # ps) }"
| "leaves (Other_object # rest) = None"

definition text_part :: "part \<Rightarrow> bool" where
  "text_part p \<longleftrightarrow> filename p = None \<and> (is_type p (bytes ''text'') (bytes ''plain'') \<or> is_type p (bytes ''text'') (bytes ''html''))"

definition size_line :: "part \<Rightarrow> cstr" where
  "size_line p = bytes ''Body: '' @ show_dec (length (content p))"

definition file_header :: "part \<Rightarrow> cstr" where
  "file_header p = bytes ''File: '' @ show_dec (length (content p)) @ bytes '' '' @ file_name p"

definition files_text :: "part list \<Rightarrow> u8 list" where
  "files_text ps = concat (map (\<lambda>p. crlf @ content p) ps)"

fun mime_parts :: "mem \<Rightarrow> part list \<Rightarrow> wl2kmessage \<Rightarrow> int + wl2kmessage" where
  "mime_parts al [] m = Inr m"
| "mime_parts al (p # ps) m = (case mime_part al p m of Inl n \<Rightarrow> Inl n | Inr m \<Rightarrow> mime_parts al ps m)"

lemma mime_parts_append:
  "mime_parts al (ps @ qs) m = (case mime_parts al ps m of Inl n \<Rightarrow> Inl n | Inr m \<Rightarrow> mime_parts al qs m)"
  by (induction ps arbitrary: m) (auto split: sum.split)

lemma mime_foreach_leaves: "leaves os = Some ps \<Longrightarrow> mime_foreach al os m = mime_parts al ps m"
  by (induction al os m arbitrary: ps rule: mime_foreach.induct)
    (auto simp: mime_parts_append split: bind_splits sum.split)

text \<open>A record of four buffers and their texts.\<close>

definition holds4 :: "wl2kmessage \<Rightarrow> u8 list \<Rightarrow> u8 list \<Rightarrow> u8 list \<Rightarrow> u8 list \<Rightarrow> bool" where
  "holds4 m h f b a \<longleftrightarrow> holds (hbuf m) h \<and> holds (fbuf m) f \<and> holds (bbuf m) b \<and> holds (abuf m) a"

lemma granted_size:
  assumes "plenty al n" "2 * length cs \<le> n" "2 \<le> n"
  shows "granted al (length (show_dec (length cs)) + 1)"
proof (rule plenty_granted [OF assms(1)])
  have "length (show_dec k) \<le> max 1 k" for k
  proof (induction k rule: show_dec.induct)
    case (1 k)
    show ?case
    proof (cases "k < 10")
      case False
      then have "length (show_dec k) = Suc (length (show_dec (k div 10)))" by (subst show_dec.simps) simp
      also have "\<dots> \<le> Suc (max 1 (k div 10))" using 1 [OF False] by simp
      also have "\<dots> \<le> max 1 k" using False by simp
      finally show ?thesis .
    qed (subst show_dec.simps, simp)
  qed
  from this [of "length cs"] show "length (show_dec (length cs)) + 1 \<le> n" using assms(2,3) by (cases cs) auto
qed

lemma attachments:
  assumes "plenty al n" "holds4 m h f b a" "b \<noteq> [] \<or> (\<forall>p \<in> set ps. \<not> text_part p)"
    and "2 * length (f @ lines (map file_header ps)) \<le> n" "2 * length (a @ files_text ps) \<le> n"
  shows "\<exists>m'. mime_parts al ps m = Inr m' \<and> holds4 m' h (f @ lines (map file_header ps)) b (a @ files_text ps)"
  using assms
proof (induction ps arbitrary: m f a)
  case Nil
  then show ?case by (simp add: files_text_def)
next
  case (Cons p ps)
  let ?f = "f @ concat [bytes ''File: '', show_dec (length (content p)), bytes '' '', file_name p, crlf]"
  let ?a = "a @ crlf @ content p"
  have f: "?f = f @ file_header p @ crlf" by (simp add: file_header_def)
  have la: "2 * length ?a \<le> n" "2 * length (a @ crlf) \<le> n" using Cons.prems(5) by (simp_all add: files_text_def)
  have lf: "2 * length ?f \<le> n" unfolding f using Cons.prems(4) by simp
  note m = Cons.prems(2) [unfolded holds4_def]
  have "2 * length (content p) \<le> n" "2 \<le> n" using la by (simp_all add: crlf_def)
  then have g: "granted al (length (show_dec (length (content p))) + 1)" using granted_size [OF Cons.prems(1)] by blast
  have body: "\<not> is_body p m"
    using Cons.prems(3) m holds_length [of "bbuf m" b] by (auto simp: is_body_def text_part_def buffer_length_def)
  define m1 where "m1 = m\<lparr>fbuf := add_strings al (fbuf m) [bytes ''File: '', show_dec (length (content p)), bytes '' '', file_name p, crlf],
    abuf := add_chars al (add_string al (abuf m) crlf) (content p)\<rparr>"
  have "mime_part al p m = Inr m1" using g body by (simp add: mime_part_def Let_def m1_def)
  moreover have "holds4 m1 h (f @ file_header p @ crlf) b ?a"
    using m holds_add_strings [OF _ Cons.prems(1) lf] holds_add_string [OF _ Cons.prems(1) la(2)]
      holds_add_chars [OF _ Cons.prems(1), of _ "a @ crlf" "content p"] la(1)
    unfolding f by (simp add: holds4_def m1_def)
  ultimately show ?case
    using Cons.IH [of m1 "f @ file_header p @ crlf" ?a] Cons.prems by (simp add: files_text_def)
qed

lemma body_part:
  assumes "plenty al n" "holds4 m h f [] a" "text_part p" "2 * length (h @ size_line p @ crlf) \<le> n" "2 * length (crlf @ content p) \<le> n"
  shows "\<exists>m'. mime_part al p m = Inr m' \<and> holds4 m' (h @ size_line p @ crlf) f (crlf @ content p) a"
proof -
  let ?h = "h @ concat [bytes ''Body: '', show_dec (length (content p)), crlf]"
  have h: "?h = h @ size_line p @ crlf" by (simp add: size_line_def)
  have lh: "2 * length ?h \<le> n" unfolding h using assms(4) by simp
  note m = assms(2) [unfolded holds4_def]
  have "2 * length (content p) \<le> n" "2 \<le> n" using assms(5) by (simp_all add: crlf_def)
  then have g: "granted al (length (show_dec (length (content p))) + 1)" using granted_size [OF assms(1)] by blast
  have body: "is_body p m"
    using assms(3) m holds_length [of "bbuf m" "[]"] by (auto simp: is_body_def text_part_def buffer_length_def)
  define m1 where "m1 = m\<lparr>hbuf := add_strings al (hbuf m) [bytes ''Body: '', show_dec (length (content p)), crlf],
    bbuf := add_chars al (add_string al (bbuf m) crlf) (content p)\<rparr>"
  have "mime_part al p m = Inr m1" using g body by (simp add: mime_part_def Let_def m1_def)
  moreover have lb: "2 * length ([] @ crlf) \<le> n" using assms(5) by simp
  have "holds4 m1 (h @ size_line p @ crlf) f (crlf @ content p) a"
    using m holds_add_strings [OF _ assms(1) lh] holds_add_string [OF _ assms(1) lb]
      holds_add_chars [OF _ assms(1) assms(5)]
    unfolding h by (simp add: holds4_def m1_def)
  ultimately show ?thesis by blast
qed

lemma join_buffers_ok:
  assumes "plenty al n" "holds4 m h f b a" "32 \<le> n" "2 * length (h @ f @ b @ a) \<le> n"
  shows "\<exists>buf. join_buffers al m = Some (Some buf) \<and> holds buf (h @ f @ b @ a)"
proof -
  have add: "\<exists>b' s'. buffer_addbuf al b s = Some (0, b', s') \<and> holds b' (x @ y)"
    if "holds b x" "holds s y" "2 * length (x @ y) \<le> n" for b s x y
  proof -
    have "plenty al (2 * (dlen b + length (unread (buffer_rewind s))))"
      using that holds_length [OF that(1)] by (intro plenty_le [OF assms(1)]) (simp add: holds_def)
    then show ?thesis
      using buffer_addbuf_loop_contents [of b "buffer_rewind s" al] that by (auto simp: holds_def buffer_addbuf_def)
  qed
  obtain e where e: "buffer_new al = Some e" using buffer_new_plenty [OF assms(1,3)] by auto
  note m = assms(2) [unfolded holds4_def]
  obtain b1 s1 where b1: "buffer_addbuf al e (hbuf m) = Some (0, b1, s1)" "holds b1 h"
    using add [OF holds_new [OF e], of "hbuf m" h] m assms(4) by auto
  obtain b2 s2 where b2: "buffer_addbuf al b1 (fbuf m) = Some (0, b2, s2)" "holds b2 (h @ f)"
    using add [OF b1(2), of "fbuf m" f] m assms(4) by auto
  obtain b3 s3 where b3: "buffer_addbuf al b2 (bbuf m) = Some (0, b3, s3)" "holds b3 (h @ f @ b)"
    using add [OF b2(2), of "bbuf m" b] m assms(4) by auto
  obtain b4 s4 where b4: "buffer_addbuf al b3 (abuf m) = Some (0, b4, s4)" "holds b4 (h @ f @ b @ a)"
    using add [OF b3(2), of "abuf m" a] m assms(4) by auto
  show ?thesis using e b1(1) b2(1) b3(1) b4 by (simp add: join_buffers_def)
qed

section \<open>The whole message\<close>

definition mail_text :: "message \<Rightarrow> cstr \<Rightarrow> cstr \<Rightarrow> part \<Rightarrow> part list \<Rightarrow> u8 list" where
  "mail_text msg mid date p ps =
     lines (mail_header msg mid date @ [size_line p] @ map file_header ps) @ crlf @ content p @ files_text ps"

text \<open>Without a body no empty line ends the header, and the text \<open>nobody\<close> takes its place.\<close>

definition nobody_line :: cstr where
  "nobody_line = bytes ''Body: '' @ show_dec (length nobody)"

definition nobody_text :: "message \<Rightarrow> cstr \<Rightarrow> cstr \<Rightarrow> part list \<Rightarrow> u8 list" where
  "nobody_text msg mid date ps =
     lines (mail_header msg mid date @ [nobody_line] @ map file_header ps) @ nobody @ files_text ps"

text \<open>What a mail must have to be converted at all, and a bound of the memory the conversion needs beside its text.\<close>

definition convertible :: "message \<Rightarrow> nat \<Rightarrow> bool" where
  "convertible msg n \<longleftrightarrow> (\<exists>sndr. msg_sender msg = Some sndr \<and> 64 \<in> set (clean_address sndr) \<and> length sndr + 6 \<le> 2 ^ 31) \<and>
     msg_subject msg \<noteq> None \<and> 0 < msg_date msg \<and> msg_date msg < 253402300800 \<and> 32 \<le> n \<and>
     (\<forall>a \<in> set (addresses msg). 0 \<notin> set a \<and> 2 * length a + 40 \<le> n)"

definition date_of :: "message \<Rightarrow> cstr" where
  "date_of msg = the (strftime_date 17 (the (gmtime (msg_date msg))))"

lemma date_of_ok:
  assumes "convertible msg n"
  shows "\<exists>x. gmtime (msg_date msg) = Some x \<and> strftime_date 17 x = Some (date_of msg)"
    "set (date_of msg) \<inter> {0, 10, 13} = {}" "\<not> is_space (hd (date_of msg))" "date_of msg \<noteq> []"
    "\<exists>y. strptime_date (date_of msg) = Some y \<and> wl_timegm y = msg_date msg - msg_date msg mod 60"
proof -
  obtain x s y where "gmtime (msg_date msg) = Some x" "strftime_date 17 x = Some s" "length s = 16" "set s \<inter> {0, 10, 13} = {}"
      "\<not> is_space (hd s)" "strptime_date s = Some y" "wl_timegm y = msg_date msg - msg_date msg mod 60"
    using date_text [of "msg_date msg"] assms by (auto simp: convertible_def)
  moreover from this have "date_of msg = s" by (simp add: date_of_def)
  ultimately show "\<exists>x. gmtime (msg_date msg) = Some x \<and> strftime_date 17 x = Some (date_of msg)"
    "set (date_of msg) \<inter> {0, 10, 13} = {}" "\<not> is_space (hd (date_of msg))" "date_of msg \<noteq> []"
    "\<exists>y. strptime_date (date_of msg) = Some y \<and> wl_timegm y = msg_date msg - msg_date msg mod 60" by auto
qed

lemma date_of_length: "convertible msg n \<Longrightarrow> length (date_of msg) = 16"
  using date_text [of "msg_date msg"] by (auto simp: convertible_def date_of_def)

lemma mime2wl_start:
  assumes "convertible msg n" "plenty (mem w) n" "generate_mid callsign rec w = Some (Returned (Some mid), w1)"
    and "2 * length (lines (mail_header msg mid (date_of msg))) \<le> n"
  shows "\<exists>b h. holds4 \<lparr>hbuf = h, fbuf = b, bbuf = b, abuf = b\<rparr> (lines (mail_header msg mid (date_of msg))) [] [] [] \<and>
    mime2wl msg callsign rec w =
      (case mime_foreach (mem w) (msg_objects msg) \<lparr>hbuf = h, fbuf = b, bbuf = b, abuf = b\<rparr> of
         Inl k \<Rightarrow> exit k
       | Inr m \<Rightarrow> (case add_nobody (mem w) m of Inl k \<Rightarrow> exit k | Inr m \<Rightarrow> defined (join_buffers (mem w) m))) w1"
proof -
  obtain x where x: "gmtime (msg_date msg) = Some x" "strftime_date 17 x = Some (date_of msg)" using date_of_ok(1) [OF assms(1)] by blast
  have n: "32 \<le> n" "msg_date msg \<noteq> 0" using assms(1) by (auto simp: convertible_def)
  obtain b where b: "buffer_new (mem w) = Some b" using buffer_new_plenty [OF assms(2) n(1)] by auto
  obtain h where h: "mime_header (mem w) msg mid (date_of msg) b = Some h" "holds h (lines (mail_header msg mid (date_of msg)))"
    using mime_header_ok [OF _ _ _ _ _ assms(2,4) holds_new [OF b]] assms(1) by (auto simp: convertible_def)
  show ?thesis
    using h holds_new [OF b] b assms(3) n(2) x
    by (intro exI [of _ b] exI [of _ h]) (simp add: mime2wl_def andthen_def look_def ret_def holds4_def)
qed

lemma mime2wl_text:
  assumes "convertible msg n" "plenty (mem w) n" "generate_mid callsign rec w = Some (Returned (Some mid), w1)"
    and ps: "leaves (msg_objects msg) = Some (as @ p # bs)" "\<forall>q \<in> set as. \<not> text_part q" "text_part p"
    and len: "2 * length (mail_text msg mid (date_of msg) p (as @ bs)) \<le> n"
  shows "\<exists>buf. mime2wl msg callsign rec w = Some (Returned (Some buf), w1) \<and> holds buf (mail_text msg mid (date_of msg) p (as @ bs))"
proof -
  let ?h = "lines (mail_header msg mid (date_of msg))"
  have "2 * length ?h \<le> n" using len by (simp add: mail_text_def)
  with mime2wl_start [OF assms(1-3)] obtain b h where
      s: "holds4 \<lparr>hbuf = h, fbuf = b, bbuf = b, abuf = b\<rparr> ?h [] [] []"
        "mime2wl msg callsign rec w =
      (case mime_foreach (mem w) (msg_objects msg) \<lparr>hbuf = h, fbuf = b, bbuf = b, abuf = b\<rparr> of
         Inl k \<Rightarrow> exit k
       | Inr m \<Rightarrow> (case add_nobody (mem w) m of Inl k \<Rightarrow> exit k | Inr m \<Rightarrow> defined (join_buffers (mem w) m))) w1" by blast
  have files: "files_text (xs @ ys) = files_text xs @ files_text ys" for xs ys by (simp add: files_text_def)
  note bounds = len [unfolded mail_text_def files map_append lines_append]
  obtain m1 where m1: "mime_parts (mem w) as \<lparr>hbuf = h, fbuf = b, bbuf = b, abuf = b\<rparr> = Inr m1"
      "holds4 m1 ?h (lines (map file_header as)) [] (files_text as)"
    using attachments [OF assms(2) s(1), of as] ps(2) bounds by auto
  obtain m2 where m2: "mime_part (mem w) p m1 = Inr m2"
      "holds4 m2 (?h @ size_line p @ crlf) (lines (map file_header as)) (crlf @ content p) (files_text as)"
    using body_part [OF assms(2) m1(2) ps(3)] bounds by auto
  obtain m3 where m3: "mime_parts (mem w) bs m2 = Inr m3"
      "holds4 m3 (?h @ size_line p @ crlf) (lines (map file_header as) @ lines (map file_header bs)) (crlf @ content p) (files_text as @ files_text bs)"
    using attachments [OF assms(2) m2(2), of bs] bounds by (auto simp: crlf_def)
  have "mime_foreach (mem w) (msg_objects msg) \<lparr>hbuf = h, fbuf = b, bbuf = b, abuf = b\<rparr> = Inr m3"
    by (simp add: mime_foreach_leaves [OF ps(1)] mime_parts_append m1(1) m2(1) m3(1))
  moreover have "buffer_length (bbuf m3) \<noteq> 0"
    using m3(2) holds_length [of "bbuf m3"] by (auto simp: holds4_def buffer_length_def crlf_def)
  then have "add_nobody (mem w) m3 = Inr m3" by (simp add: add_nobody_def)
  moreover have "32 \<le> n" using assms(1) by (simp add: convertible_def)
  with join_buffers_ok [OF assms(2) m3(2)] bounds obtain buf where
    "join_buffers (mem w) m3 = Some (Some buf)" "holds buf (mail_text msg mid (date_of msg) p (as @ bs))"
    by (auto simp: mail_text_def files)
  ultimately show ?thesis using s(2) by (simp add: ret_def)
qed

lemma mime2wl_nobody:
  assumes "convertible msg n" "plenty (mem w) n" "generate_mid callsign rec w = Some (Returned (Some mid), w1)"
    and ps: "leaves (msg_objects msg) = Some ps" "\<forall>q \<in> set ps. \<not> text_part q"
    and len: "2 * length (nobody_text msg mid (date_of msg) ps) \<le> n"
  shows "\<exists>buf. mime2wl msg callsign rec w = Some (Returned (Some buf), w1) \<and> holds buf (nobody_text msg mid (date_of msg) ps)"
proof -
  let ?h = "lines (mail_header msg mid (date_of msg))"
  have "2 * length ?h \<le> n" using len by (simp add: nobody_text_def)
  with mime2wl_start [OF assms(1-3)] obtain b h where
      s: "holds4 \<lparr>hbuf = h, fbuf = b, bbuf = b, abuf = b\<rparr> ?h [] [] []"
        "mime2wl msg callsign rec w =
      (case mime_foreach (mem w) (msg_objects msg) \<lparr>hbuf = h, fbuf = b, bbuf = b, abuf = b\<rparr> of
         Inl k \<Rightarrow> exit k
       | Inr m \<Rightarrow> (case add_nobody (mem w) m of Inl k \<Rightarrow> exit k | Inr m \<Rightarrow> defined (join_buffers (mem w) m))) w1" by blast
  note bounds = len [unfolded nobody_text_def lines_append]
  obtain m1 where m1: "mime_parts (mem w) ps \<lparr>hbuf = h, fbuf = b, bbuf = b, abuf = b\<rparr> = Inr m1"
      "holds4 m1 ?h (lines (map file_header ps)) [] (files_text ps)"
    using attachments [OF assms(2) s(1), of ps] ps(2) bounds by auto
  note m = m1(2) [unfolded holds4_def]
  let ?us = "[bytes ''Body: '', show_dec (length nobody), crlf]"
  define m2 where "m2 = m1\<lparr>hbuf := add_strings (mem w) (hbuf m1) ?us, bbuf := add_string (mem w) (bbuf m1) nobody\<rparr>"
  have n: "32 \<le> n" using assms(1) by (simp add: convertible_def)
  have "granted (mem w) (length (show_dec (length nobody)) + 1)"
    by (rule granted_size [OF assms(2)]) (use n bounds in simp_all)
  moreover have "buffer_length (bbuf m1) = 0" using m holds_length [of "bbuf m1"] by (auto simp: buffer_length_def)
  ultimately have nb: "add_nobody (mem w) m1 = Inr m2" by (simp add: add_nobody_def Let_def m2_def)
  have "2 * length (?h @ concat ?us) \<le> n" using bounds by (simp add: nobody_line_def)
  from holds_add_strings [OF _ assms(2) this] have h2: "holds (add_strings (mem w) (hbuf m1) ?us) (?h @ concat ?us)" using m by blast
  have "2 * length ([] @ nobody) \<le> n" using bounds by simp
  from holds_add_string [OF _ assms(2) this] have "holds (add_string (mem w) (bbuf m1) nobody) nobody" using m by simp
  with h2 have "holds4 m2 (?h @ concat ?us) (lines (map file_header ps)) nobody (files_text ps)"
    using m by (simp add: holds4_def m2_def)
  from join_buffers_ok [OF assms(2) this n] bounds obtain buf where
    "join_buffers (mem w) m2 = Some (Some buf)" "holds buf (nobody_text msg mid (date_of msg) ps)"
    by (auto simp: nobody_text_def nobody_line_def)
  moreover have "mime_foreach (mem w) (msg_objects msg) \<lparr>hbuf = h, fbuf = b, bbuf = b, abuf = b\<rparr> = Inr m1"
    by (simp add: mime_foreach_leaves [OF ps(1)] m1(1))
  ultimately show ?thesis using s(2) nb by (simp add: ret_def)
qed

end
