(* ===== verification/Mime_Trip.thy ===== *)
theory Mime_Trip
  imports Mime2wl
begin

text \<open>
  A mail that is converted by mime2wl.c, and the result of that by wl2mime.c: which calls of the GMime library the second
  conversion makes, line by line of the header, and what of the mail has survived.
\<close>

section \<open>Header lines\<close>

lemma is_space_32: "is_space 32"
  by (simp add: is_space_def)

lemma header_line_text:
  assumes "set l \<inter> {0, 10, 13} = {}"
  shows "header_line al (l @ crlf) b = header_line al l b"
proof -
  have "strzapcc l = l" using assms by (auto simp: strzapcc_line takeWhile_eq_all_conv)
  then show ?thesis unfolding header_line_def line_split(4) [OF assms] by simp
qed

lemmas keyword_simps = header_line_def strzapcc_line bytes_def byte_of_def to_lower_def is_upper_def strchr_def
  word_le_nat_alt

lemma no_break: "set l \<inter> {0, 10, 13} = {} \<Longrightarrow> takeWhile (\<lambda>c. c \<noteq> 13 \<and> c \<noteq> 10) l = l"
  by (auto simp: takeWhile_eq_all_conv)

lemma header_mid:
  "set m \<inter> {0, 10, 13} = {} \<Longrightarrow>
   header_line al (bytes ''Mid: '' @ m) b = Some (Inr ([Set_message_id (dropWhile is_space m)], b))"
  by (simp add: keyword_simps no_break is_space_32)

lemma header_date:
  "set d \<inter> {0, 10, 13} = {} \<Longrightarrow> strptime_date (dropWhile is_space d) = Some tm \<Longrightarrow>
   header_line al (bytes ''Date: '' @ d) b = Some (Inr ([Set_date (wl_timegm tm)], b))"
  by (simp add: keyword_simps no_break is_space_32)

lemma header_subject:
  "set s \<inter> {0, 10, 13} = {} \<Longrightarrow>
   header_line al (bytes ''Subject: '' @ s) b = Some (Inr ([Set_subject (dropWhile is_space s)], b))"
  by (simp add: keyword_simps no_break is_space_32)

lemma header_reply_to:
  "set s \<inter> {0, 10, 13} = {} \<Longrightarrow>
   header_line al (bytes ''Reply-To: '' @ s) b = Some (Inr ([Add_mailbox Reply_To (dropWhile is_space s)], b))"
  by (simp add: keyword_simps no_break is_space_32)

lemma header_ignored:
  "set s \<inter> {0, 10, 13} = {} \<Longrightarrow> header_line al (bytes ''Mbo: '' @ s) b = Some (Inr ([], b))"
  "header_line al (bytes ''Type: Private'') b = Some (Inr ([], b))"
  "header_line al (bytes ''No message body'') b = Some (Inr ([], b))"
  by (simp_all add: keyword_simps no_break is_space_32)

text \<open>An address that survives: one without an \<open>@\<close> becomes one at winlink.org.\<close>

definition address_ok :: "cstr \<Rightarrow> bool" where
  "address_ok a \<longleftrightarrow> set a \<inter> {0, 10, 13} = {} \<and>
     (64 \<notin> set a \<longrightarrow> (a = [] \<or> \<not> is_space (hd a)) \<and> \<not> strcasebegins a (bytes ''SMTP:''))"

definition full_address :: "cstr \<Rightarrow> cstr" where
  "full_address a = (if 64 \<in> set a then a else a @ bytes ''@winlink.org'')"

lemma mailbox_address_ok:
  assumes "address_ok a" "granted al (length a + 13)"
  shows "mailbox_address al (dropWhile is_space ((if 64 \<in> set a then bytes ''SMTP:'' else []) @ a)) = Inr (full_address a)"
proof (cases "64 \<in> set a")
  case True
  have "dropWhile is_space (bytes ''SMTP:'' @ a) = bytes ''SMTP:'' @ a" by (simp add: bytes_def byte_of_def is_space_def)
  moreover have "strcasebegins (bytes ''SMTP:'' @ a) (bytes ''SMTP:'')" by (simp add: bytes_def)
  ultimately show ?thesis using True by (simp add: mailbox_address_def full_address_def) (simp add: bytes_def)
next
  case False
  then have "dropWhile is_space a = a" using assms(1) by (cases a) (auto simp: address_ok_def)
  moreover have "length (a @ bytes ''@winlink.org'') + 1 = length a + 13" by (simp add: bytes_def)
  ultimately show ?thesis
    using False assms unfolding mailbox_address_def Let_def by (simp only: address_ok_def full_address_def if_False append_Nil) simp
qed

lemma header_mailbox:
  assumes "address_ok a" "granted al (length a + 13)"
  shows "header_line al (mailbox_text ''From: '' a) b = Some (Inr ([Add_mailbox Sender (full_address a)], b))"
    "header_line al (mailbox_text ''To: '' a) b = Some (Inr ([Add_mailbox To (full_address a)], b))"
    "header_line al (mailbox_text ''Cc: '' a) b = Some (Inr ([Add_mailbox Cc (full_address a)], b))"
    "header_line al (mailbox_text ''Bcc: '' a) b = Some (Inr ([Add_mailbox Bcc (full_address a)], b))"
proof -
  define d where "d = (if 64 \<in> set a then bytes ''SMTP:'' else []) @ a"
  have d: "set d \<inter> {0, 10, 13} = {}"
    using assms(1) by (auto simp: d_def address_ok_def bytes_def byte_of_def)
  have "mailbox_line al k (dropWhile is_space d) b = Inr ([Add_mailbox k (full_address a)], b)" for k
    using mailbox_address_ok [OF assms] by (simp add: mailbox_line_def d_def)
  then show "header_line al (mailbox_text ''From: '' a) b = Some (Inr ([Add_mailbox Sender (full_address a)], b))"
    "header_line al (mailbox_text ''To: '' a) b = Some (Inr ([Add_mailbox To (full_address a)], b))"
    "header_line al (mailbox_text ''Cc: '' a) b = Some (Inr ([Add_mailbox Cc (full_address a)], b))"
    "header_line al (mailbox_text ''Bcc: '' a) b = Some (Inr ([Add_mailbox Bcc (full_address a)], b))"
    unfolding mailbox_text_def d_def [symmetric] using d by (simp_all add: keyword_simps no_break is_space_32)
qed

lemma digit_space: "dropWhile is_space (show_dec n @ s) = show_dec n @ s"
proof -
  obtain c cs where "show_dec n = c # cs" by (cases "show_dec n") auto
  then show ?thesis using is_digit_sign [OF show_dec_digits [of c n]] by simp
qed

lemma decimal_plain: "set (show_dec n) \<inter> {0, 10, 13} = {}"
  using show_dec_text [of n] by auto

lemma header_body:
  "n \<le> ULONG_MAX \<Longrightarrow>
   header_line al (bytes ''Body: '' @ show_dec n) b =
     map_option (\<lambda>(cs, b). Inr ([Add_part (bytes ''text'') (bytes ''plain'') cs None False], b)) (read_part n b)"
  using decimal_plain [of n] digit_space [of n "[]"] strtoul_show_dec [of n "[]"]
  by (cases "read_part n b") (simp_all add: keyword_simps no_break is_space_32 body_line_def split: prod.split)

lemma header_file:
  assumes "n \<le> ULONG_MAX" "set s \<inter> {0, 10, 13} = {}"
  shows "header_line al (bytes ''File: '' @ show_dec n @ bytes '' '' @ s) b =
     do { (_, b) \<leftarrow> buffer_iterchar b; (_, b) \<leftarrow> buffer_iterchar b; (cs, b) \<leftarrow> read_part n b;
          Some (Inr ([Add_part (bytes ''application'') (bytes ''octet-stream'') cs (Some (dropWhile is_space s)) True], b)) }"
proof -
  have "\<not> is_digit 10 32" by (simp add: is_digit_def digit_value_def word_le_nat_alt)
  then have d: "strtoul 10 (show_dec n @ 32 # s) = (n, 32 # s)" using assms(1) by (intro strtoul_show_dec) auto
  have c: "set (show_dec n @ 32 # s) \<inter> {0, 10, 13} = {}" using decimal_plain [of n] assms(2) by auto
  have "file_line (show_dec n @ 32 # s) b =
     do { (_, b) \<leftarrow> buffer_iterchar b; (_, b) \<leftarrow> buffer_iterchar b; (cs, b) \<leftarrow> read_part n b;
          Some ([Add_part (bytes ''application'') (bytes ''octet-stream'') cs (Some (dropWhile is_space s)) True], b) }"
    by (simp add: file_line_def d is_space_32)
  moreover have "header_line al (bytes ''File: '' @ show_dec n @ 32 # s) b = map_option Inr (file_line (show_dec n @ 32 # s) b)"
    using c digit_space [of n "32 # s"] by (simp add: keyword_simps no_break [OF c] is_space_32)
  moreover have "bytes '' '' @ s = 32 # s" by (simp add: bytes_def byte_of_def)
  ultimately show ?thesis by (auto split: bind_splits prod.splits)
qed

section \<open>The header of a converted mail\<close>

lemma header_lines_text:
  "\<forall>l \<in> set ls. text_line l \<Longrightarrow> header_lines al (map (\<lambda>l. l @ crlf) ls) b = header_lines al ls b"
  by (induction ls arbitrary: b) (simp_all add: header_line_text text_line_def split: sum.split)

text \<open>The calls for the header, for the body, and for a file.\<close>

definition mailbox_calls :: "mailbox \<Rightarrow> cstr list \<Rightarrow> gmime_call list" where
  "mailbox_calls k as = map (\<lambda>a. Add_mailbox k (full_address (clean_address a))) as"

definition mail_calls :: "message \<Rightarrow> cstr \<Rightarrow> gmime_call list" where
  "mail_calls msg mid =
     [Set_message_id mid, Set_date (msg_date msg - msg_date msg mod 60)] @
     mailbox_calls Sender [the (msg_sender msg)] @ mailbox_calls To (msg_to msg) @ mailbox_calls Cc (msg_cc msg) @
     mailbox_calls Bcc (msg_bcc msg) @
     [Set_subject (dropWhile is_space (the (msg_subject msg)))] @
     (case msg_reply_to msg of None \<Rightarrow> [] | Some r \<Rightarrow> [Add_mailbox Reply_To (dropWhile is_space r)])"

definition body_call :: "part \<Rightarrow> gmime_call" where
  "body_call p = Add_part (bytes ''text'') (bytes ''plain'') (content p) None False"

definition file_call :: "part \<Rightarrow> gmime_call" where
  "file_call p = Add_part (bytes ''application'') (bytes ''octet-stream'') (content p) (Some (dropWhile is_space (file_name p))) True"

text \<open>The strings of a mail are single lines, and its addresses survive.\<close>

definition plain_mail :: "message \<Rightarrow> bool" where
  "plain_mail msg \<longleftrightarrow> (\<forall>a \<in> set (addresses msg). address_ok (clean_address a)) \<and>
     set (the (msg_subject msg)) \<inter> {0, 10, 13} = {} \<and>
     (\<forall>r. msg_reply_to msg = Some r \<longrightarrow> set r \<inter> {0, 10, 13} = {})"

definition plain_id :: "cstr \<Rightarrow> bool" where
  "plain_id m \<longleftrightarrow> m \<noteq> [] \<and> set m \<inter> {0, 10, 13} = {} \<and> \<not> is_space (hd m)"

lemma mailbox_text_line:
  "address_ok a \<Longrightarrow> k \<in> {''From: '', ''To: '', ''Cc: '', ''Bcc: ''} \<Longrightarrow> text_line (mailbox_text k a)"
  by (auto simp: mailbox_text_def text_line_def address_ok_def bytes_def byte_of_def)

lemma set_mbo_of: "set (mbo_of a) \<subseteq> set (bytes ''SMTP:'') \<union> set a"
  by (auto simp: mbo_of_def dest: set_takeWhileD)

lemma mail_header_text:
  assumes "convertible msg n" "plain_mail msg" "plain_id mid"
  shows "\<forall>l \<in> set (mail_header msg mid (date_of msg)). text_line l"
proof -
  have a: "address_ok (clean_address a)" if "a \<in> set (addresses msg)" for a using assms(2) that by (simp add: plain_mail_def)
  have m: "\<forall>l \<in> set (mailbox_texts k as). text_line l"
    if "set as \<subseteq> set (addresses msg)" "k \<in> {''From: '', ''To: '', ''Cc: '', ''Bcc: ''}" for k as
  proof -
    have "text_line (mailbox_text k (clean_address a))" if "a \<in> set as" for a
      using mailbox_text_line [OF a] that \<open>set as \<subseteq> set (addresses msg)\<close> \<open>k \<in> _\<close> by blast
    then show ?thesis by (auto simp: mailbox_texts_def)
  qed
  have s: "the (msg_sender msg) \<in> set (addresses msg)" by (simp add: addresses_def)
  have sub: "set (msg_to msg) \<subseteq> set (addresses msg)" "set (msg_cc msg) \<subseteq> set (addresses msg)" "set (msg_bcc msg) \<subseteq> set (addresses msg)"
    by (auto simp: addresses_def)
  have boxes: "\<forall>l \<in> set (mailbox_texts ''To: '' (msg_to msg)). text_line l" "\<forall>l \<in> set (mailbox_texts ''Cc: '' (msg_cc msg)). text_line l"
    "\<forall>l \<in> set (mailbox_texts ''Bcc: '' (msg_bcc msg)). text_line l" "text_line (mailbox_text ''From: '' (clean_address (the (msg_sender msg))))"
    using m [OF sub(1), of "''To: ''"] m [OF sub(2), of "''Cc: ''"] m [OF sub(3), of "''Bcc: ''"] mailbox_text_line [OF a [OF s], of "''From: ''"]
    by simp_all
  have kw: "text_line (bytes k @ t)" if "set t \<inter> {0, 10, 13} = {}" "k \<in> {''Mid: '', ''Date: '', ''Subject: '', ''Reply-To: '', ''Mbo: ''}" for k t
    using that by (auto simp: text_line_def bytes_def byte_of_def)
  have "set (mbo_of (clean_address (the (msg_sender msg)))) \<inter> {0, 10, 13} = {}"
    using set_mbo_of [of "clean_address (the (msg_sender msg))"] a [OF s] by (auto simp: address_ok_def bytes_def byte_of_def)
  from kw [OF this] have mbo: "text_line (bytes ''Mbo: '' @ mbo_of (clean_address (the (msg_sender msg))))" by blast
  have "set mid \<inter> {0, 10, 13} = {}" "set (the (msg_subject msg)) \<inter> {0, 10, 13} = {}"
      "\<forall>r. msg_reply_to msg = Some r \<longrightarrow> set r \<inter> {0, 10, 13} = {}"
    using assms(2,3) unfolding plain_mail_def plain_id_def by blast+
  then have "text_line (bytes ''Mid: '' @ mid)" "text_line (bytes ''Date: '' @ date_of msg)" "text_line (bytes ''Subject: '' @ the (msg_subject msg))"
      "\<forall>l \<in> set (case msg_reply_to msg of None \<Rightarrow> [] | Some r \<Rightarrow> [bytes ''Reply-To: '' @ r]). text_line l"
    using kw date_of_ok(2) [OF assms(1)] by (blast, blast, blast, cases "msg_reply_to msg") simp_all
  moreover have "text_line (bytes ''Type: Private'')" by (simp add: text_line_def bytes_def byte_of_def)
  ultimately show ?thesis
    using boxes mbo unfolding mail_header_def set_append ball_Un list.set by blast
qed

lemma header_lines_one: "header_line al l b = Some (Inr (cs, b')) \<Longrightarrow> header_lines al [l] b = Some (Inr (cs, b'))"
  by simp

lemma header_lines_mailboxes:
  assumes "\<And>a. a \<in> set as \<Longrightarrow> header_line al (mailbox_text k (clean_address a)) b = Some (Inr ([Add_mailbox K (full_address (clean_address a))], b))"
  shows "header_lines al (mailbox_texts k as) b = Some (Inr (mailbox_calls K as, b))"
  using assms by (induction as) (simp_all add: mailbox_texts_def mailbox_calls_def)

lemma mail_header_calls:
  assumes "convertible msg n" "plain_mail msg" "plain_id mid" "plenty al n"
  shows "header_lines al (mail_header msg mid (date_of msg)) b = Some (Inr (mail_calls msg mid, b))"
proof -
  have box: "address_ok (clean_address a)" "granted al (length (clean_address a) + 13)" if "a \<in> set (addresses msg)" for a
  proof -
    show "address_ok (clean_address a)" using assms(2) that by (simp add: plain_mail_def)
    have "length (clean_address a) + 13 \<le> n" using assms(1) that length_clean_address [of a] by (force simp: convertible_def)
    then show "granted al (length (clean_address a) + 13)" by (rule plenty_granted [OF assms(4)])
  qed
  note m = header_mailbox [OF box]
  obtain y where y: "strptime_date (date_of msg) = Some y" "wl_timegm y = msg_date msg - msg_date msg mod 60"
    using date_of_ok(5) [OF assms(1)] by blast
  have d: "dropWhile is_space (date_of msg) = date_of msg" using date_of_ok(3,4) [OF assms(1)] by (cases "date_of msg") simp_all
  have mid: "dropWhile is_space mid = mid" "set mid \<inter> {0, 10, 13} = {}" using assms(3) by (cases mid; simp add: plain_id_def)+
  have s: "header_lines al [mailbox_text ''From: '' (clean_address (the (msg_sender msg)))] b = Some (Inr (mailbox_calls Sender [the (msg_sender msg)], b))"
    using m(1) by (simp add: addresses_def mailbox_calls_def)
  have t: "header_lines al (mailbox_texts ''To: '' (msg_to msg)) b = Some (Inr (mailbox_calls To (msg_to msg), b))"
    "header_lines al (mailbox_texts ''Cc: '' (msg_cc msg)) b = Some (Inr (mailbox_calls Cc (msg_cc msg), b))"
    "header_lines al (mailbox_texts ''Bcc: '' (msg_bcc msg)) b = Some (Inr (mailbox_calls Bcc (msg_bcc msg), b))"
    using header_lines_mailboxes [of "msg_to msg", OF m(2)] header_lines_mailboxes [of "msg_cc msg", OF m(3)]
      header_lines_mailboxes [of "msg_bcc msg", OF m(4)] by (simp_all add: addresses_def)
  have top: "header_lines al [bytes ''Mid: '' @ mid, bytes ''Date: '' @ date_of msg, bytes ''Type: Private''] b
      = Some (Inr ([Set_message_id mid, Set_date (msg_date msg - msg_date msg mod 60)], b))"
    using header_mid [OF mid(2)] header_date [OF date_of_ok(2) [OF assms(1)]] mid(1) d y by (simp add: header_ignored)
  have sub: "header_lines al [bytes ''Subject: '' @ the (msg_subject msg)] b = Some (Inr ([Set_subject (dropWhile is_space (the (msg_subject msg)))], b))"
    using assms(2) by (simp add: header_subject plain_mail_def)
  have re: "header_lines al (case msg_reply_to msg of None \<Rightarrow> [] | Some r \<Rightarrow> [bytes ''Reply-To: '' @ r]) b =
      Some (Inr (case msg_reply_to msg of None \<Rightarrow> [] | Some r \<Rightarrow> [Add_mailbox Reply_To (dropWhile is_space r)], b))"
    using assms(2) by (cases "msg_reply_to msg") (simp_all add: header_reply_to plain_mail_def)
  have "set (mbo_of (clean_address (the (msg_sender msg)))) \<inter> {0, 10, 13} = {}"
    using set_mbo_of [of "clean_address (the (msg_sender msg))"] box(1) [of "the (msg_sender msg)"]
    by (auto simp: address_ok_def bytes_def byte_of_def addresses_def)
  then have "header_lines al [bytes ''Mbo: '' @ mbo_of (clean_address (the (msg_sender msg)))] b = Some (Inr ([], b))"
    by (simp add: header_ignored)
  note app = header_lines_append [OF header_lines_append [OF header_lines_append [OF header_lines_append [OF header_lines_append
    [OF header_lines_append [OF header_lines_append [OF top s] t(1)] t(2)] t(3)] sub] re] this]
  show ?thesis using app by (simp add: mail_header_def mail_calls_def)
qed

lemma file_header_text: "set (file_name p) \<inter> {0, 10, 13} = {} \<Longrightarrow> text_line (file_header p)"
  using decimal_plain [of "length (content p)"]
  by (auto simp: text_line_def file_header_def bytes_def byte_of_def)

lemma size_line_text: "text_line (size_line p)"
  using decimal_plain [of "length (content p)"] by (auto simp: text_line_def size_line_def bytes_def byte_of_def)

lemma header_lines_files:
  assumes "\<forall>p \<in> set ps. set (file_name p) \<inter> {0, 10, 13} = {} \<and> length (content p) \<le> ULONG_MAX"
    and "buffer_inv b" "unread b = files_text ps"
  shows "\<exists>b'. header_lines al (map file_header ps) b = Some (Inr (map file_call ps, b'))"
  using assms
proof (induction ps arbitrary: b)
  case Nil
  then show ?case by simp
next
  case (Cons p ps)
  have u: "unread b = 13 # 10 # content p @ files_text ps" using Cons.prems(3) by (simp add: files_text_def crlf_def)
  obtain b1 where b1: "buffer_iterchar b = Some (Some 13, b1)" "buffer_inv b1" "unread b1 = 10 # content p @ files_text ps"
    using src.get_byte [OF Cons.prems(2) u] by blast
  obtain b2 where b2: "buffer_iterchar b1 = Some (Some 10, b2)" "buffer_inv b2" "unread b2 = content p @ files_text ps"
    using src.get_byte [OF b1(2,3)] by blast
  obtain b3 where b3: "read_part (length (content p)) b2 = Some (content p, b3)" "buffer_inv b3" "unread b3 = files_text ps"
    using read_part_unread [OF b2(2,3)] by blast
  have "header_line al (file_header p) b = Some (Inr ([file_call p], b3))"
    using Cons.prems(1) by (simp add: file_header_def header_file b1(1) b2(1) b3(1) file_call_def)
  moreover obtain b' where "header_lines al (map file_header ps) b3 = Some (Inr (map file_call ps, b'))"
    using Cons.IH [OF _ b3(2,3)] Cons.prems(1) by auto
  ultimately show ?case by simp
qed

lemma file_name_content: "file_name (p\<lparr>content := c\<rparr>) = file_name p"
  by (simp add: file_name_def)

section \<open>Generated ids\<close>

lemma random_chars_drawn: "keeps (\<lambda>_ _. True) (\<lambda>cs. length cs = n \<and> set cs \<subseteq> set midchars) (random_chars n)"
proof (induction n)
  case 0
  then show ?case by (simp add: result.keeps_ret)
next
  case (Suc n)
  have m: "midchars ! (x mod length midchars) \<in> set midchars" for x
    by (rule nth_mem, rule mod_less_divisor) (simp add: midchars_def bytes_def)
  have r: "keeps (\<lambda>_ _. True) (\<lambda>_. True) random_next" by (simp add: keeps_def)
  show ?case
    unfolding random_chars.simps
    by (rule result.keeps_then [OF r], rule result.keeps_andthen [OF Suc.IH], rule result.keeps_ret) (use m in auto)
qed

lemma generate_mid_chars:
  fixes w :: "'d world"
  assumes "generate_mid c rec w = Some (Returned (Some m), w')"
  shows "\<exists>cs. m = cs @ [95] @ c \<and> cs \<noteq> [] \<and> set cs \<subseteq> set midchars"
proof -
  have step: "keeps (\<lambda>_ _. True) (case_sum (\<lambda>_. True) (\<lambda>(r, m). \<exists>cs. m = cs @ [95] @ c \<and> length cs = n \<and> set cs \<subseteq> set midchars)) (mid_step n c u)" for n u
    unfolding mid_step_def Let_def
    by (rule result.keeps_andthen [OF random_chars_drawn], rule result.keeps_then)
      (simp add: keeps_def, rule result.keeps_ret, auto)
  have "keeps (\<lambda>_ _. True) (\<lambda>m. \<forall>x. m = Some x \<longrightarrow> (\<exists>cs. x = cs @ [95] @ c \<and> cs \<noteq> [] \<and> set cs \<subseteq> set midchars)) (generate_mid c rec :: ('d, cstr option) io)"
  proof (cases "length c > CALLSIGN_MAXLEN \<or> MID_LENGTH - 1 - length c < 1")
    case True
    then show ?thesis by (auto simp: generate_mid_def Let_def intro!: result.keeps_ret)
  next
    case False
    have any: "keeps (\<lambda>_ _. True) (\<lambda>_. True) f" for f by (simp add: keeps_def)
    have l: "keeps (\<lambda>_ _. True) (\<lambda>(r, m). \<exists>cs. m = cs @ [95] @ c \<and> length cs = MID_LENGTH - 1 - length c \<and> set cs \<subseteq> set midchars)
        (io_loop (mid_step (MID_LENGTH - 1 - length c) c) ())"
      by (rule result.keeps_io_loop [where I = "\<lambda>_. True"]) (simp, rule step)
    have "(generate_mid c rec :: ('d, cstr option) io) = andthen seed_random (\<lambda>_. andthen (io_loop (mid_step (MID_LENGTH - 1 - length c) c) ()) (\<lambda>(r, mid).
          if r < 0 then ret None
          else andthen (if rec then record_mid mid else ret 0) (\<lambda>_. andthen (look mem) (\<lambda>al.
              ret (if granted al (length mid + 1) then Some mid else None)))))"
      using False by (simp add: generate_mid_def Let_def)
    moreover have "keeps (\<lambda>_ _. True) (\<lambda>m. \<forall>x. m = Some x \<longrightarrow> (\<exists>cs. x = cs @ [95] @ c \<and> cs \<noteq> [] \<and> set cs \<subseteq> set midchars)) \<dots>"
      by (rule result.keeps_then [OF any], rule result.keeps_andthen [OF l])
        (use False in \<open>auto intro!: result.keeps_ret result.keeps_then [OF any] split: if_splits\<close>)
    ultimately show ?thesis by simp
  qed
  from keeps_value [OF this assms] show ?thesis by blast
qed

lemma generate_mid_plain:
  fixes w :: "'d world"
  assumes "generate_mid c rec w = Some (Returned (Some m), w')" "set c \<inter> {0, 10, 13} = {}"
  shows "plain_id m"
proof -
  obtain cs where cs: "m = cs @ [95] @ c" "cs \<noteq> []" "set cs \<subseteq> set midchars" using generate_mid_chars [OF assms(1)] by blast
  have ok: "x \<notin> {0, 10, 13} \<and> \<not> is_space x" if "x \<in> set midchars" for x
    using that by (auto simp: midchars_def bytes_def byte_of_def is_space_def word_le_nat_alt)
  have "hd cs \<in> set cs" using cs(2) by simp
  then have "\<not> is_space (hd cs)" using ok cs(3) by blast
  then show ?thesis using cs ok assms(2) unfolding plain_id_def by (auto simp: hd_append)
qed

text \<open>A sample mail.\<close>

definition sample_part :: part where
  "sample_part = \<lparr>filename = None, is_type = (\<lambda>t s. t = bytes ''text'' \<and> (s = bytes ''plain'' \<or> s = bytes ''*'')), content = bytes ''Hello.'' @ crlf\<rparr>"

definition sample_file :: part where
  "sample_file = \<lparr>filename = Some (bytes ''data.bin''), is_type = (\<lambda>_ _. False), content = [0, 255, 13, 10, 7]\<rparr>"

definition sample_mail :: "gmime_object list \<Rightarrow> message" where
  "sample_mail os = \<lparr>msg_date = 1199145600, msg_sender = Some (bytes ''Nick <n2qz@arrl.net>''),
     msg_to = [bytes ''W1AW'', bytes ''Joe <joe@example.org>''], msg_cc = [], msg_bcc = [], msg_subject = Some (bytes ''Test''),
     msg_reply_to = None, msg_objects = os\<rparr>"

lemma sample_clean:
  "clean_address (bytes ''Nick <n2qz@arrl.net>'') = bytes ''n2qz@arrl.net''"
  "clean_address (bytes ''Joe <joe@example.org>'') = bytes ''joe@example.org''"
  "clean_address (bytes ''W1AW'') = bytes ''W1AW''"
  by (simp_all add: clean_address_def bytes_def byte_of_def is_space_def Let_def word_le_nat_alt)

lemma sample_mail_ok:
  assumes "1000 \<le> n"
  shows "convertible (sample_mail os) n" "plain_mail (sample_mail os)"
proof -
  have "64 \<in> set (bytes ''n2qz@arrl.net'')" "0 \<notin> set (bytes ''Nick <n2qz@arrl.net>'')" "0 \<notin> set (bytes ''W1AW'')" "0 \<notin> set (bytes ''Joe <joe@example.org>'')"
    by (simp_all add: bytes_def byte_of_def)
  then show "convertible (sample_mail os) n"
    using assms by (simp add: convertible_def sample_mail_def addresses_def sample_clean, simp add: bytes_def)
  show "plain_mail (sample_mail os)"
    by (simp add: plain_mail_def sample_mail_def addresses_def sample_clean,
      simp add: address_ok_def bytes_def byte_of_def is_space_def to_lower_def is_upper_def word_le_nat_alt)
qed

lemmas sample_ok = sample_mail_ok [of 100000, simplified]

text \<open>The contents of the parts, as a text made of the calls.\<close>

fun sample_text :: "gmime_call list \<Rightarrow> cstr" where
  "sample_text [] = []"
| "sample_text (Add_part _ _ c _ _ # cs) = c @ sample_text cs"
| "sample_text (_ # cs) = sample_text cs"

text \<open>What \<open>mime2wl\<close> has written, \<open>wl2mime\<close> reads.\<close>

lemma mail_read:
  assumes "convertible msg n" "plain_mail msg" "plain_id mid" "plenty al n"
    and "\<forall>q \<in> set (as @ bs). set (file_name q) \<inter> {0, 10, 13} = {}"
    and len: "2 * length (mail_text msg mid (date_of msg) p (as @ bs)) + 64 \<le> n" and n: "n \<le> ULONG_MAX"
    and out: "2 * length (f (mail_calls msg mid @ [body_call p] @ map file_call (as @ bs))) \<le> n"
    and buf: "buffer_inv buf" "unread buf = mail_text msg mid (date_of msg) p (as @ bs)"
  shows "\<exists>obuf. wl2mime al f buf = Some (Inr (Some obuf)) \<and> buffer_inv obuf \<and>
    contents obuf = f (mail_calls msg mid @ [body_call p] @ map file_call (as @ bs))"
proof -
  let ?calls = "mail_calls msg mid @ [body_call p] @ map file_call (as @ bs)"
  let ?ls = "mail_header msg mid (date_of msg) @ [size_line p] @ map file_header (as @ bs)"
  have lines: "\<forall>l \<in> set ?ls. text_line l"
    using mail_header_text [OF assms(1-3)] size_line_text file_header_text assms(5) by auto
  have qs: "\<forall>q \<in> set (as @ bs). set (file_name q) \<inter> {0, 10, 13} = {} \<and> length (content q) \<le> ULONG_MAX"
  proof
    fix q assume q: "q \<in> set (as @ bs)"
    then have "length (content q) \<le> length (files_text (as @ bs))"
      unfolding files_text_def length_concat by (intro member_le_sum_list [THEN order_trans [rotated]]) auto
    also have "\<dots> \<le> length (mail_text msg mid (date_of msg) p (as @ bs))" by (simp add: mail_text_def)
    finally show "set (file_name q) \<inter> {0, 10, 13} = {} \<and> length (content q) \<le> ULONG_MAX" using assms(5) len n q by auto
  qed
  have plen: "length (content p) \<le> ULONG_MAX" using len n by (simp add: mail_text_def)
  have calls: "\<exists>b'. header_lines al (map (\<lambda>l. l @ crlf) ?ls) b = Some (Inr (?calls, b'))"
    if b: "buffer_inv b" "unread b = content p @ files_text (as @ bs)" for b
  proof -
    obtain b1 where b1: "read_part (length (content p)) b = Some (content p, b1)" "buffer_inv b1" "unread b1 = files_text (as @ bs)"
      using read_part_unread [OF b] by blast
    have "header_lines al [size_line p] b = Some (Inr ([body_call p], b1))"
      by (simp add: size_line_def header_body [OF plen] b1(1) body_call_def)
    moreover obtain b2 where "header_lines al (map file_header (as @ bs)) b1 = Some (Inr (map file_call (as @ bs), b2))"
      using header_lines_files [OF qs b1(2,3)] by blast
    ultimately have "header_lines al ?ls b = Some (Inr (?calls, b2))"
      by (intro header_lines_append [OF mail_header_calls [OF assms(1-4)]] header_lines_append)
    then show ?thesis using header_lines_text [OF lines] by simp
  qed
  have t: "unread buf = lines ?ls @ crlf @ content p @ files_text (as @ bs)" using buf(2) by (simp add: mail_text_def)
  have "plenty al (64 + 2 * length (unread buf))"
    by (rule plenty_le [OF assms(4)]) (use len in \<open>simp add: buf(2)\<close>)
  from wl2mime_text [where to_text = f and calls = ?calls, OF lines buf(1) t this calls plenty_le [OF assms(4) out]] show ?thesis
    by blast
qed

section \<open>Properties\<close>

text \<open>
  A mail survives the conversions of the two sides: the calls \<open>wl2mime\<close> makes on what \<open>mime2wl\<close> has written rebuild
  the message id, the date to the minute, sender, recipients, subject, the body and every file, byte for byte, with
  its name; for every text the GMime library may make of them.
\<close>

lemma mime_round_trip:
  fixes w :: "'d world"
  assumes "convertible msg n" and "plain_mail msg" and "set callsign \<inter> {0, 10, 13} = {}" and "plenty (mem w) n"
    and "generate_mid callsign rec w = Some (Returned (Some mid), w1)"
    and "leaves (msg_objects msg) = Some (as @ p # bs)" and "\<forall>q \<in> set as. \<not> text_part q" and "text_part p"
    and "\<forall>q \<in> set (as @ bs). set (file_name q) \<inter> {0, 10, 13} = {}"
    and "2 * length (mail_text msg mid (date_of msg) p (as @ bs)) + 64 \<le> n" and "n \<le> ULONG_MAX"
    and "2 * length (f (mail_calls msg mid @ [body_call p] @ map file_call (as @ bs))) \<le> n"
  shows "\<exists>buf obuf. mime2wl msg callsign rec w = Some (Returned (Some buf), w1) \<and>
    wl2mime (mem w) f (buffer_rewind buf) = Some (Inr (Some obuf)) \<and>
    contents obuf = f (mail_calls msg mid @ [body_call p] @ map file_call (as @ bs))"
proof -
  have "2 * length (mail_text msg mid (date_of msg) p (as @ bs)) \<le> n" using assms(10) by simp
  from mime2wl_text [OF assms(1,4,5,6,7,8) this] obtain buf where
    buf: "mime2wl msg callsign rec w = Some (Returned (Some buf), w1)" "holds buf (mail_text msg mid (date_of msg) p (as @ bs))" by blast
  have "buffer_inv (buffer_rewind buf)" "unread (buffer_rewind buf) = mail_text msg mid (date_of msg) p (as @ bs)"
    using buf(2) by (simp_all add: holds_def)
  from mail_read [where f = f, OF assms(1,2) generate_mid_plain [OF assms(5,3)] assms(4,9-12) this] buf(1) show ?thesis by blast
qed

lemma mime_round_trip_sample:
  "\<exists>mid w1 buf obuf. mime2wl (sample_mail [Multipart, Part sample_part, Part sample_file]) (bytes ''N2QZ'') False mid_world = Some (Returned (Some buf), w1) \<and>
    wl2mime (mem mid_world) sample_text (buffer_rewind buf) = Some (Inr (Some obuf)) \<and>
    contents obuf = bytes ''Hello.'' @ crlf @ [0, 255, 13, 10, 7]"
proof -
  let ?msg = "sample_mail [Multipart, Part sample_part, Part sample_file]"
  obtain mid w1 where g: "generate_mid (bytes ''N2QZ'') False mid_world = Some (Returned (Some mid), w1)" "length mid = 12"
    using sample_generate by blast
  have al: "plenty (mem mid_world) 100000" by (simp add: mid_world_def plenty_all)
  have d: "length (date_of ?msg) = 16" using date_of_length [OF sample_ok(1)] .
  have len: "2 * length (mail_text ?msg mid (date_of ?msg) sample_part ([] @ [sample_file])) + 64 \<le> 100000"
    using g(2) d
    by (simp add: mail_text_def mail_header_def sample_mail_def sample_clean mailbox_texts_def mailbox_text_def mbo_of_def size_line_def
        file_header_def files_text_def sample_part_def sample_file_def crlf_def file_name_def,
      simp add: bytes_def byte_of_def domain_def show_dec_small)
  have "leaves (msg_objects ?msg) = Some ([] @ sample_part # [sample_file])" by (simp add: sample_mail_def)
  note trip = mime_round_trip [OF sample_ok _ al g(1) this _ _ _ len, of sample_text]
  have "sample_text (mail_calls ?msg mid @ [body_call sample_part] @ map file_call ([] @ [sample_file])) = bytes ''Hello.'' @ crlf @ [0, 255, 13, 10, 7]"
    by (simp add: mail_calls_def mailbox_calls_def sample_mail_def body_call_def file_call_def sample_part_def sample_file_def)
  moreover have "length (bytes ''Hello.'' @ crlf @ [0, 255, 13, 10, 7 :: u8]) < 50000" by (simp add: bytes_def crlf_def)
  ultimately show ?thesis
    using trip g(1) by (auto simp: text_part_def sample_part_def sample_file_def file_name_def ULONG_MAX_def bytes_def byte_of_def)
qed

text \<open>
  C38: A mail that has a file and no text is garbled on its way: \<open>mime2wl\<close> puts the sentence it uses for a body where the empty
  line should end the header, and the reader takes the first 17 bytes of the file for the body, drops two more, and
  fills the file up with bytes 255.
\<close>

theorem file_without_body_garbled:
  fixes w :: "'d world"
  assumes "convertible msg n" and "plain_mail msg" and "set callsign \<inter> {0, 10, 13} = {}" and "plenty (mem w) n"
    and "generate_mid callsign rec w = Some (Returned (Some mid), w1)"
    and "leaves (msg_objects msg) = Some [p]" and "\<not> text_part p" and "set (file_name p) \<inter> {0, 10, 13} = {}"
    and "19 \<le> length (content p)"
    and "2 * length (nobody_text msg mid (date_of msg) [p]) + 64 \<le> n" and "n \<le> ULONG_MAX"
    and "2 * length (f (mail_calls msg mid @ [body_call (p\<lparr>content := take 17 (content p)\<rparr>),
      file_call (p\<lparr>content := drop 19 (content p) @ replicate 19 255\<rparr>)])) \<le> n"
  shows "\<exists>buf obuf. mime2wl msg callsign rec w = Some (Returned (Some buf), w1) \<and>
    wl2mime (mem w) f (buffer_rewind buf) = Some (Inr (Some obuf)) \<and>
    contents obuf = f (mail_calls msg mid @ [body_call (p\<lparr>content := take 17 (content p)\<rparr>),
      file_call (p\<lparr>content := drop 19 (content p) @ replicate 19 255\<rparr>)])"
proof -
  let ?calls = "mail_calls msg mid @ [body_call (p\<lparr>content := take 17 (content p)\<rparr>), file_call (p\<lparr>content := drop 19 (content p) @ replicate 19 255\<rparr>)]"
  let ?ls = "mail_header msg mid (date_of msg) @ [nobody_line] @ [file_header p] @ [bytes ''No message body'']"
  note plain = generate_mid_plain [OF assms(5,3)]
  have "2 * length (nobody_text msg mid (date_of msg) [p]) \<le> n" using assms(10) by simp
  from mime2wl_nobody [OF assms(1,4,5,6) _ this] assms(7) obtain buf where
    buf: "mime2wl msg callsign rec w = Some (Returned (Some buf), w1)" "holds buf (nobody_text msg mid (date_of msg) [p])" by auto
  have "text_line nobody_line" "text_line (bytes ''No message body'')"
    by (simp_all add: nobody_line_def nobody_def crlf_def text_line_def bytes_def byte_of_def show_dec_step show_dec_small)
  then have lines: "\<forall>l \<in> set ?ls. text_line l"
    using mail_header_text [OF assms(1,2) plain] file_header_text [OF assms(8)] by auto
  have "length (content p) \<le> length (nobody_text msg mid (date_of msg) [p])" by (simp add: nobody_text_def files_text_def)
  then have plen: "length (content p) \<le> ULONG_MAX" using assms(10,11) by linarith
  have calls: "\<exists>b'. header_lines (mem w) (map (\<lambda>l. l @ crlf) ?ls) b = Some (Inr (?calls, b'))"
    if b: "buffer_inv b" "unread b = content p" for b
  proof -
    have n17: "length nobody = 17" by (simp add: nobody_def bytes_def crlf_def)
    obtain b1 where b1: "read_part 17 b = Some (take 17 (content p), b1)" "buffer_inv b1" "unread b1 = drop 17 (content p)"
      using read_part_padded [OF b(1), of 17] b(2) assms(9) by auto
    then have body: "header_lines (mem w) [nobody_line] b = Some (Inr ([body_call (p\<lparr>content := take 17 (content p)\<rparr>)], b1))"
      by (simp add: nobody_line_def n17 header_body ULONG_MAX_def body_call_def)
    have two: "drop 17 (content p) = content p ! 17 # drop 18 (content p)" "drop 18 (content p) = content p ! 18 # drop 19 (content p)"
      using Cons_nth_drop_Suc [of 17 "content p"] Cons_nth_drop_Suc [of 18 "content p"] assms(9) by simp_all
    obtain c2 b2 c3 b3 where skip: "buffer_iterchar b1 = Some (c2, b2)" "buffer_iterchar b2 = Some (c3, b3)" "buffer_inv b3"
        "unread b3 = drop 19 (content p)"
    proof -
      obtain b2 where b2: "buffer_iterchar b1 = Some (Some (content p ! 17), b2)" "buffer_inv b2" "unread b2 = drop 18 (content p)"
        using src.get_byte [OF b1(2) b1(3) [unfolded two(1)]] by blast
      obtain b3 where b3: "buffer_iterchar b2 = Some (Some (content p ! 18), b3)" "buffer_inv b3" "unread b3 = drop 19 (content p)"
        using src.get_byte [OF b2(2) b2(3) [unfolded two(2)]] by blast
      show thesis using b2(1) b3 by (rule that)
    qed
    moreover obtain b4 where b4: "read_part (length (content p)) b3 = Some (drop 19 (content p) @ replicate 19 255, b4)"
      using read_part_padded [OF skip(3), of "length (content p)"] skip(4) assms(9) by auto
    ultimately have attachment: "header_lines (mem w) [file_header p] b1 = Some (Inr ([file_call (p\<lparr>content := drop 19 (content p) @ replicate 19 255\<rparr>)], b4))"
      by (simp add: file_header_def header_file [OF plen assms(8)] file_call_def file_name_content)
    have "header_lines (mem w) [bytes ''No message body''] b4 = Some (Inr ([], b4))" by (simp add: header_ignored)
    from header_lines_append [OF mail_header_calls [OF assms(1,2) plain assms(4)] header_lines_append [OF body header_lines_append [OF attachment this]]]
    have "header_lines (mem w) ?ls b = Some (Inr (mail_calls msg mid @ [body_call (p\<lparr>content := take 17 (content p)\<rparr>)] @
        [file_call (p\<lparr>content := drop 19 (content p) @ replicate 19 255\<rparr>)] @ [], b4))"
      by simp
    then show ?thesis using header_lines_text [OF lines] by simp
  qed
  have t: "unread (buffer_rewind buf) = lines ?ls @ crlf @ content p" "buffer_inv (buffer_rewind buf)"
    using buf(2) by (simp_all add: holds_def nobody_text_def nobody_def files_text_def)
  have "plenty (mem w) (64 + 2 * length (unread (buffer_rewind buf)))"
    by (rule plenty_le [OF assms(4)]) (use assms(10) buf(2) in \<open>simp add: holds_def\<close>)
  from wl2mime_text [where to_text = f and calls = ?calls, OF lines t(2) t(1) this calls] plenty_le [OF assms(4,12)] buf(1)
  show ?thesis by blast
qed

text \<open>A sample file of 32 bytes.\<close>

definition sample_image :: part where
  "sample_image = \<lparr>filename = Some (bytes ''map.png''), is_type = (\<lambda>_ _. False), content = bytes ''0123456789abcdefghijklmnopqrstuv''\<rparr>"

theorem file_without_body_garbled_witness:
  "\<exists>mid w1 buf obuf. mime2wl (sample_mail [Part sample_image]) (bytes ''N2QZ'') False mid_world = Some (Returned (Some buf), w1) \<and>
    wl2mime (mem mid_world) sample_text (buffer_rewind buf) = Some (Inr (Some obuf)) \<and>
    contents obuf = bytes ''0123456789abcdefg'' @ bytes ''jklmnopqrstuv'' @ replicate 19 255"
proof -
  let ?msg = "sample_mail [Part sample_image]"
  obtain mid w1 where g: "generate_mid (bytes ''N2QZ'') False mid_world = Some (Returned (Some mid), w1)" "length mid = 12"
    using sample_generate by blast
  have al: "plenty (mem mid_world) 100000" by (simp add: mid_world_def plenty_all)
  have d: "length (date_of ?msg) = 16" using date_of_length [OF sample_ok(1)] .
  have len: "2 * length (nobody_text ?msg mid (date_of ?msg) [sample_image]) + 64 \<le> 100000"
    using g(2) d
    by (simp add: nobody_text_def mail_header_def sample_mail_def sample_clean mailbox_texts_def mailbox_text_def mbo_of_def nobody_line_def
        file_header_def files_text_def sample_image_def nobody_def crlf_def file_name_def,
      simp add: bytes_def byte_of_def domain_def show_dec_small show_dec_step)
  have "leaves (msg_objects ?msg) = Some [sample_image]" by (simp add: sample_mail_def)
  note trip = file_without_body_garbled [OF sample_ok _ al g(1) this _ _ _ len, of sample_text]
  have "sample_text (mail_calls ?msg mid @ [body_call (sample_image\<lparr>content := take 17 (content sample_image)\<rparr>),
      file_call (sample_image\<lparr>content := drop 19 (content sample_image) @ replicate 19 255\<rparr>)])
    = bytes ''0123456789abcdefg'' @ bytes ''jklmnopqrstuv'' @ replicate 19 255"
    by (simp add: mail_calls_def mailbox_calls_def sample_mail_def body_call_def file_call_def sample_image_def) (simp add: bytes_def)
  moreover have "length (bytes ''0123456789abcdefg'' @ bytes ''jklmnopqrstuv'' @ replicate 19 (255 :: u8)) < 50000" by (simp add: bytes_def)
  ultimately show ?thesis
    using trip g(1) by (auto simp: text_part_def sample_image_def file_name_def ULONG_MAX_def bytes_def byte_of_def)
qed

end
