(* ===== verification/Mail_Wl2k.thy ===== *)
theory Mail_Wl2k
  imports Mime_Trip Conf "HOL-Library.AList"
begin

text \<open>
  mail.wl2k.c: the program the mail system runs for a message to a Winlink address.  It converts the mail on its
  standard input and stores the message in the outbox, in a file named after the message id.  The options are parsed to
  the flag \<open>bRecordMid\<close>; what it prints on the standard error is not modelled.
\<close>

section \<open>Operations\<close>

text \<open>\<open>mid += 4;\<close>, the skipping of spaces and \<open>strzapcc\<close>.\<close>

definition file_of_mid :: "cstr \<Rightarrow> cstr" where
  "file_of_mid line = strzapcc (dropWhile is_space (drop 4 line))"

text \<open>
  \<open>fopen\<close>, the loop of \<open>putc\<close> and \<open>fclose\<close>, whose result is not looked at: a file that cannot take the whole text
  ends the program, and what has reached the file by then stays.  A name with a slash is not a file of the outbox.
\<close>

definition write_file :: "cstr \<Rightarrow> nat \<Rightarrow> u8 list \<Rightarrow> ('d, unit) io" where
  "write_file name kept text' =
     change (\<lambda>w. if 47 \<in> set name then w else w\<lparr>outbox := AList.update name (Some (take kept text')) (outbox w)\<rparr>)"

definition store_message :: "cstr \<Rightarrow> buffer \<Rightarrow> ('d, unit) io" where
  "store_message name buf = andthen (look (\<lambda>w. creatable w name)) (\<lambda>fp. case fp of
       None \<Rightarrow> fail
     | Some (room, kept) \<Rightarrow>
         andthen (defined (read_all buf)) (\<lambda>text'.
         andthen (write_file name kept (take room text')) (\<lambda>_.
           if length text' > room then fail else ret ())))"

text \<open>From the converted message on.\<close>

definition queue_message :: "buffer \<Rightarrow> ('d, unit) io" where
  "queue_message buf = andthen (look (\<lambda>w. buffer_getline (mem w) (buffer_rewind buf) 10)) (\<lambda>l. andthen (defined l) (\<lambda>(line, buf).
     case line of
       None \<Rightarrow> fail
     | Some line \<Rightarrow>
         if \<not> strcasebegins line (bytes ''Mid:'') then fail
         else andthen (look outbox_ok) (\<lambda>ok.
           if \<not> ok then fail
           else store_message (file_of_mid line) (buffer_rewind buf))))"

text \<open>
  The program.  Without \<open>mycall\<close> in the configuration a null pointer is passed on, which \<open>generate_mid\<close> follows once
  \<open>mime2wl\<close> has its buffers.
\<close>

definition mail_wl2k :: "(u8 list \<times> bool) option \<Rightarrow> message \<Rightarrow> bool \<Rightarrow> ('d, unit) io" where
  "mail_wl2k conffile msg bRecordMid = andthen (settimeout 60) (\<lambda>_.
     andthen (look (\<lambda>w. conf_read (mem w) conffile)) (\<lambda>r. andthen (defined r) (\<lambda>r. case r of
         Inl n \<Rightarrow> exit n
       | Inr conf \<Rightarrow>
           andthen (defined (conf_get conf (bytes ''mycall''))) (\<lambda>call. case call of
               None \<Rightarrow> andthen (look (\<lambda>w. buffer_new (mem w))) (\<lambda>b. if b = None then fail else undefined_behaviour)
             | Some my \<Rightarrow>
                 andthen (mime2wl msg my bRecordMid) (\<lambda>buf. case buf of
                     None \<Rightarrow> fail
                   | Some buf \<Rightarrow> andthen (queue_message buf) (\<lambda>_. exit 0))))))"

section \<open>The stored message\<close>

lemma file_of_mid_line:
  assumes "plain_id m"
  shows "file_of_mid (bytes ''Mid: '' @ m @ crlf) = m" "strcasebegins (bytes ''Mid: '' @ m @ crlf) (bytes ''Mid:'')"
proof -
  have m: "m \<noteq> []" "set m \<inter> {0, 10, 13} = {}" "\<not> is_space (hd m)" using assms by (auto simp: plain_id_def)
  have "drop 4 (bytes ''Mid: '' @ m @ crlf) = 32 # m @ crlf" by (simp add: bytes_def byte_of_def)
  moreover have "dropWhile is_space (32 # m @ crlf) = m @ crlf" using m(1,3) by (cases m) (simp_all add: is_space_32)
  ultimately show "file_of_mid (bytes ''Mid: '' @ m @ crlf) = m" using line_split(4) [OF m(2)] by (simp add: file_of_mid_def)
  show "strcasebegins (bytes ''Mid: '' @ m @ crlf) (bytes ''Mid:'')" by (simp add: strcasebegins_iff bytes_def byte_of_def)
qed

lemma queue_message_stored:
  assumes "holds buf (lines (mail_header msg m d @ ls) @ rest)" "plain_id m" "plenty (mem w) n"
    and "2 * length (lines (mail_header msg m d @ ls) @ rest) + 64 \<le> n"
    and "outbox_ok w" "creatable w m = Some (room, kept)" "length (lines (mail_header msg m d @ ls) @ rest) \<le> room" "47 \<notin> set m"
  shows "queue_message buf w = Some (Returned (), w\<lparr>outbox := AList.update m (Some (take kept (lines (mail_header msg m d @ ls) @ rest))) (outbox w)\<rparr>)"
proof -
  define u where "u = lines (mail_header msg m d @ ls) @ rest"
  define tail where "tail = lines (tl (mail_header msg m d) @ ls) @ rest"
  have t: "lines (mail_header msg m d @ ls) @ rest = (bytes ''Mid: '' @ m) @ crlf @ tail" by (simp add: tail_def mail_header_def)
  let ?b = "buffer_rewind buf"
  have b: "buffer_inv ?b" "unread ?b = (bytes ''Mid: '' @ m) @ crlf @ tail" using assms(1) t by (simp_all add: holds_def)
  have "set (bytes ''Mid: '' @ m) \<inter> {0, 10, 13} = {}" using assms(2) by (auto simp: plain_id_def bytes_def byte_of_def)
  note sp = line_split(1,2) [OF this, of tail] line_split(3) [OF this]
  have "plenty (mem w) (32 + 2 * length (unread ?b))"
    by (rule plenty_le [OF assms(3)]) (use assms(4) in \<open>simp only: b(2) t\<close>)
  moreover have "unread ?b \<noteq> []" unfolding b(2) by (simp add: crlf_def)
  ultimately obtain b' where b': "buffer_getline (mem w) ?b 10 = Some (Some ((bytes ''Mid: '' @ m) @ crlf), b')" "buffer_inv b'"
      "contents b' = contents ?b"
    using buffer_getline_line [OF b(1), of "mem w" 10] sp unfolding b(2) by auto
  have u: "read_all (buffer_rewind b') = Some u" "length u \<le> room"
    using read_all_unread [of "buffer_rewind b'"] b'(2,3) assms(1,7) by (simp_all add: holds_def u_def)
  have "take (min kept room) u = take kept u" using u(2) by (simp add: min_def)
  with u have "store_message m (buffer_rewind b') w = Some (Returned (), w\<lparr>outbox := AList.update m (Some (take kept u)) (outbox w)\<rparr>)"
    using assms(6,8) by (simp add: store_message_def write_file_def andthen_def look_def change_def defined_def ret_def)
  then show ?thesis
    unfolding u_def [symmetric] using b'(1) file_of_mid_line [OF assms(2)] assms(5)
    by (simp add: queue_message_def andthen_def look_def defined_def ret_def)
qed

lemma mail_wl2k_stores:
  fixes w :: "'d world"
  assumes "conf_read (mem w) conffile = Some (Inr conflist)" and "conf_get conflist (bytes ''mycall'') = Some (Some callsign)"
    and "set callsign \<inter> {0, 10, 13, 47} = {}" and "convertible msg n" and "plenty (mem w) n"
    and "generate_mid callsign rec (w\<lparr>timeoutsecs := 60, alarm := 60\<rparr>) = Some (Returned (Some mid), w1)"
    and "leaves (msg_objects msg) = Some (as @ p # bs)" and "\<forall>q \<in> set as. \<not> text_part q" and "text_part p"
    and "2 * length (mail_text msg mid (date_of msg) p (as @ bs)) + 64 \<le> n"
    and "outbox_ok w" and "creatable w mid = Some (room, kept)" and "length (mail_text msg mid (date_of msg) p (as @ bs)) \<le> room"
  shows "mail_wl2k conffile msg rec w = Some (Exited 0,
    w1\<lparr>outbox := AList.update mid (Some (take kept (mail_text msg mid (date_of msg) p (as @ bs)))) (outbox w)\<rparr>)"
    and "outbox w1 = outbox w"
proof -
  let ?t = "mail_text msg mid (date_of msg) p (as @ bs)"
  let ?w = "w\<lparr>timeoutsecs := 60, alarm := 60\<rparr>"
  have kept: "mids_only ?w w1" using keepsD [OF mids_generate_mid assms(6)] .
  note same = mids_only_fields [OF kept]
  have plain: "plain_id mid" by (rule generate_mid_plain [OF assms(6)]) (use assms(3) in blast)
  obtain cs where "mid = cs @ [95] @ callsign" "set cs \<subseteq> set midchars" using generate_mid_chars [OF assms(6)] by blast
  moreover have "47 \<notin> set midchars" by (simp add: midchars_def bytes_def byte_of_def)
  ultimately have slash: "47 \<notin> set mid" using assms(3) by auto
  have pl: "plenty (mem ?w) n" using assms(5) by simp
  have len: "2 * length ?t \<le> n" using assms(10) by simp
  obtain buf where buf: "mime2wl msg callsign rec ?w = Some (Returned (Some buf), w1)" "holds buf ?t"
    using mime2wl_text [OF assms(4) pl assms(6-9) len] by blast
  have t: "?t = lines (mail_header msg mid (date_of msg) @ [size_line p] @ map file_header (as @ bs)) @ crlf @ content p @ files_text (as @ bs)"
    by (simp add: mail_text_def)
  have "queue_message buf w1 = Some (Returned (), w1\<lparr>outbox := AList.update mid (Some (take kept ?t)) (outbox w1)\<rparr>)"
    unfolding t
    by (rule queue_message_stored [OF buf(2) [unfolded t] plain, of _ n]) (use same assms(5,10-13) slash t in simp_all)
  then show "mail_wl2k conffile msg rec w = Some (Exited 0, w1\<lparr>outbox := AList.update mid (Some (take kept ?t)) (outbox w)\<rparr>)"
    using buf(1) assms(1,2) same(2)
    by (simp add: mail_wl2k_def settimeout_def change_def andthen_def look_def defined_def ret_def exit_def)
  show "outbox w1 = outbox w" using same(2) by simp
qed

section \<open>Properties\<close>


text \<open>The sample mail with a text and a file.\<close>

abbreviation two_parts :: message where
  "two_parts \<equiv> sample_mail [Multipart, Part sample_part, Part sample_file]"

lemma two_parts_text:
  assumes "length mid = 12"
  shows "leaves (msg_objects two_parts) = Some ([] @ sample_part # [sample_file])" "text_part sample_part"
    "length (mail_text two_parts mid (date_of two_parts) sample_part ([] @ [sample_file])) \<le> 3000"
proof -
  have "length (date_of two_parts) = 16" using date_of_length [OF sample_ok(1)] .
  then show "length (mail_text two_parts mid (date_of two_parts) sample_part ([] @ [sample_file])) \<le> 3000"
    using assms
    by (simp add: mail_text_def mail_header_def sample_mail_def sample_clean mailbox_texts_def mailbox_text_def mbo_of_def size_line_def
        file_header_def files_text_def sample_part_def sample_file_def crlf_def file_name_def,
      simp add: bytes_def byte_of_def domain_def show_dec_small)
  show "leaves (msg_objects two_parts) = Some ([] @ sample_part # [sample_file])" "text_part sample_part"
    by (simp_all add: sample_mail_def text_part_def sample_part_def)
qed

lemma sample_conf:
  "\<exists>conflist. conf_read (\<lambda>_. True) (Some (bytes ''mycall=N2QZ'' @ [10], True)) = Some (Inr conflist) \<and>
     conf_get conflist (bytes ''mycall'') = Some (Some (bytes ''N2QZ''))"
proof -
  have ok: "\<forall>s \<in> set [(bytes ''mycall'', bytes ''N2QZ'')]. setting_ok s"
    by (simp add: setting_ok_def bytes_def byte_of_def is_space_def)
  have "concat (map setting_line [(bytes ''mycall'', bytes ''N2QZ'')]) = bytes ''mycall=N2QZ'' @ [10]"
    by (simp add: setting_line_def bytes_def byte_of_def)
  moreover have "plenty (\<lambda>_. True) (64 + 2 * length (concat (map setting_line [(bytes ''mycall'', bytes ''N2QZ'')])))"
    by (simp add: plenty_all setting_line_def bytes_def)
  ultimately obtain conflist where
      "conf_read (\<lambda>_. True) (Some (bytes ''mycall=N2QZ'' @ [10], True)) = Some (Inr conflist)"
      "\<forall>name. conf_get conflist name = Some (map_of [(bytes ''mycall'', bytes ''N2QZ'')] name)"
    using conf_read_settings [OF ok] by metis
  then show ?thesis by auto
qed


end
