(* ===== verification/Journey.thy ===== *)
theory Journey
  imports P2p Mail_Wl2k
begin

text \<open>
  The programs together: a mail given to \<open>mail.wl2k\<close> at one station, a run of \<open>wl2kax25\<close> there that calls another station, which
  runs \<open>wl2kax25d\<close>, and the mail that station hands to sendmail.
\<close>

section \<open>What the other side makes of a stored mail\<close>

lemma mail_converts:
  assumes "convertible msg n" "plain_mail msg" "plain_id name" "plenty (mem w) n"
    and "\<forall>q \<in> set (as @ bs). set (file_name q) \<inter> {0, 10, 13} = {}"
    and "2 * length (mail_text msg name (date_of msg) p (as @ bs)) + 64 \<le> n" and "n \<le> ULONG_MAX"
    and "2 * length (to_text w (mail_calls msg name @ [body_call p] @ map file_call (as @ bs))) \<le> n"
  shows "converts w (mail_text msg name (date_of msg) p (as @ bs)) (to_text w (mail_calls msg name @ [body_call p] @ map file_call (as @ bs)))"
  unfolding converts_def using mail_read [where f = "to_text w", OF assms(1-4) assms(5-8)] by blast

lemma mid_chars:
  assumes "generate_mid callsign rec w = Some (Returned (Some name), w1)" "\<forall>c \<in> set callsign. line_char c \<and> c \<noteq> 32"
  shows "\<forall>c \<in> set name. line_char c \<and> c \<noteq> 32"
proof -
  obtain cs where cs: "name = cs @ [95] @ callsign" "set cs \<subseteq> set midchars" using generate_mid_chars [OF assms(1)] by blast
  have "\<forall>c \<in> set midchars. line_char c \<and> c \<noteq> 32" by (simp add: midchars_def bytes_def byte_of_def line_char_def)
  with cs assms(2) show ?thesis by (auto simp: line_char_def)
qed

section \<open>Properties\<close>

text \<open>
  C5: A mail arrives.  \<open>mail.wl2k\<close> turns it into a file of the (empty) outbox and exits with 0; and whenever \<open>wl2kax25\<close>, from its
  command line on, calls with this outbox a station that runs \<open>wl2kax25d\<close> with an empty one, both exit with 0, handshake
  included, the outbox is empty, and that station has handed to sendmail exactly one mail, made of the sender, recipients, date to
  the minute, subject, text and files of the original.  Conditions: the mail has a text part (without one its files are garbled)
  and headers \<open>mime2wl\<close> can convert (\<open>convertible\<close>, \<open>plain_mail\<close>); its file has at most 3867 bytes; file
  names without NUL, CR, LF; the configured callsign is plain, without space or slash, the id has at most 12 characters, its file can be
  removed and the station does not know it; calls, banner, identifications, stack, \<open>select\<close> and databases are as C3
  needs them; the station is not send-only and its sendmail takes the mail; there are memory and disk.
\<close>

theorem mail_delivered:
  fixes u :: "'d world" and w :: "'e world"
  assumes "conf_read (mem u) conffile = Some (Inr conflist)" and "conf_get conflist (bytes ''mycall'') = Some (Some callsign)"
    and "\<forall>c \<in> set callsign. line_char c \<and> c \<noteq> 32 \<and> c \<noteq> 47" and "convertible msg 60000" and "plain_mail msg" and "plenty (mem u) 60000"
    and "generate_mid callsign rec (u\<lparr>timeoutsecs := 60, alarm := 60\<rparr>) = Some (Returned (Some name), w1)" and "length name \<le> 12"
    and "leaves (msg_objects msg) = Some (as @ p # bs)" and "\<forall>q \<in> set as. \<not> text_part q" and "text_part p"
    and "\<forall>q \<in> set (as @ bs). set (file_name q) \<inter> {0, 10, 13} = {}"
    and "length (mail_text msg name (date_of msg) p (as @ bs)) \<le> 3867"
    and "outbox_ok u" and "outbox u = []" and "creatable u name = Some (room, disk)" and "5000 \<le> room" and "5000 \<le> disk"
    and "ready 60000 w" and "recording w" and "name \<notin> known w"
    and "sendmail w (mail_command w addr) (to_text w (mail_calls msg name @ [body_call p] @ map file_call (as @ bs))) = Mail_ok"
    and "granted (mem w) (length (mail_command w addr) + 1)"
    and "2 * length (to_text w (mail_calls msg name @ [body_call p] @ map file_call (as @ bs))) \<le> 60000" and "outbox_ok w" and "outbox w = []"
    and "sound_cursor w" and "plain_version w" and "emailaddr d = Some addr" and "\<not> bSendonly d"
    and "calls_fit c d" and "secret_ok c" and "greeting_ok d True ls" and "reachable st own c"
    and "\<forall>x. \<exists>w1. ax25d_loadconfig progname gmime user dconf args (w\<lparr>inp := x\<rparr>) = Some (Returned (True, d), w1)"
  shows "\<exists>u'. mail_wl2k conffile msg rec u = Some (Exited 0, u') \<and>
    (\<forall>v :: 'd world. outbox v = outbox u' \<and> outbox_ok v \<and> unlinkable v name \<and> ready 60000 v \<and> recording v \<and> sound_cursor v \<and> plain_version v \<and>
        (\<forall>x. \<exists>v1. ax25_loadconfig me cconf cargs (v\<lparr>inp := x\<rparr>) = Some (Returned (True, c), v1)) \<longrightarrow>
    (\<exists>told answered v' w'.
      ax25_main st own me cconf cargs (Child True [Select_input]) (v\<lparr>inp := answered\<rparr>) = Some (Exited 0, v') \<and>
      ax25d_main True progname gmime user dconf args (w\<lparr>inp := told\<rparr>) = Some (Exited 0, w') \<and>
      outp v' = outp v @ told \<and> outp w' = outp w @ answered \<and> outbox v' = [] \<and>
      mails w' = mails w @ [(mail_command w addr, to_text w (mail_calls msg name @ [body_call p] @ map file_call (as @ bs)))]))"
proof -
  let ?t = "mail_text msg name (date_of msg) p (as @ bs)"
  let ?m = "to_text w (mail_calls msg name @ [body_call p] @ map file_call (as @ bs))"
  let ?u = "w1\<lparr>outbox := AList.update name (Some (take disk ?t)) (outbox u)\<rparr>"
  have call: "set callsign \<inter> {0, 10, 13, 47} = {}" using assms(3) by (auto simp: line_char_def)
  then have call': "set callsign \<inter> {0, 10, 13} = {}" by blast
  have len: "2 * length ?t + 64 \<le> 60000" "length ?t \<le> room" "length ?t \<le> disk" using assms(13,17,18) by simp_all
  have stored: "mail_wl2k conffile msg rec u = Some (Exited 0, ?u)"
    by (rule mail_wl2k_stores(1) [OF assms(1,2) call assms(4,6,7,9,10,11) len(1) assms(14,16) len(2)])
  have box: "outbox ?u = [(name, Some ?t)]" using assms(15) len(3) by simp
  have stored_file: "mail_file (name, Some ?t)"
    using mid_chars [OF assms(7)] assms(3,8,13) by (simp add: mail_file_def)
  have plain: "plain_id name" by (rule generate_mid_plain [OF assms(7) call'])
  have "plenty (mem w) 60000" using assms(19) by (simp add: ready_def)
  from mail_converts [OF assms(4,5) plain this assms(12) len(1) _ assms(24)] have "converts w ?t ?m" by (simp add: ULONG_MAX_def)
  then have del: "delivers w addr 60000 ?t ?m" using assms(13,22,23) by (simp add: delivers_def)
  let ?w = "w\<lparr>gsendmsgonly_flag := bSendonly d\<rparr>"
  have e: "converts (w\<lparr>gsendmsgonly_flag := b\<rparr>) = converts w" "mail_command (w\<lparr>gsendmsgonly_flag := b\<rparr>) = mail_command w"
      "known (w\<lparr>gsendmsgonly_flag := b\<rparr>) = known w" "recording (w\<lparr>gsendmsgonly_flag := b\<rparr>) = recording w"
      "ready 60000 (w\<lparr>gsendmsgonly_flag := b\<rparr>) = ready 60000 w" for b
    by (simp_all add: fun_eq_iff converts_def mail_command_def known_def recording_def ready_def line_ok_def)
  have ww: "wants ?w (emailaddr d) (\<lambda>_. ?m) [(name, Some ?t)]"
    using del assms(19-21,29,30) by (simp add: wants_def delivers_def e)
  have w: "box_ok w" "length (outbox w) < 2 ^ 31" "\<forall>e \<in> set (outbox w). qualifies (the (targetcall d)) (the (snd e))" "greeting_ok d (outbox w = []) ls"
    using assms(19,25,26,33) by (simp_all add: box_ok_def)
  have "\<exists>told answered v' w'.
      ax25_main st own me cconf cargs (Child True [Select_input]) (v\<lparr>inp := answered\<rparr>) = Some (Exited 0, v') \<and>
      ax25d_main True progname gmime user dconf args (w\<lparr>inp := told\<rparr>) = Some (Exited 0, w') \<and>
      outp v' = outp v @ told \<and> outp w' = outp w @ answered \<and> outbox v' = [] \<and> mails w' = mails w @ [(mail_command w addr, ?m)]"
    if v: "outbox v = outbox ?u" "outbox_ok v" "unlinkable v name" "ready 60000 v" "recording v" "sound_cursor v" "plain_version v"
      "\<forall>x. \<exists>v1. ax25_loadconfig me cconf cargs (v\<lparr>inp := x\<rparr>) = Some (Returned (True, c), v1)" for v :: "'d world"
  proof -
    have bv: "box_ok v" using v(1-4) stored_file unfolding box by (simp add: box_ok_def)
    have wv: "wants (v\<lparr>gsendmsgonly_flag := bSendonly c\<rparr>) (emailaddr c) (\<lambda>_. []) (outbox w)"
      using v(4) assms(26) by (simp add: wants_def ready_def line_ok_def)
    have full: "outbox v = [] \<longrightarrow> \<not> strbegins (the (targetcall d)) (bytes ''FF'')" using v(1) box by simp
    from programs_exchange [OF bv v(5-7) w(1) assms(20,27,28) w(2) assms(31,32) w(4,3) ww [folded box, folded v(1)] wv full v(8) assms(34,35)]
    obtain told answered v' w' where r: "ax25_main st own me cconf cargs (Child True [Select_input]) (v\<lparr>inp := answered\<rparr>) = Some (Exited 0, v')"
        "ax25d_main True progname gmime user dconf args (w\<lparr>inp := told\<rparr>) = Some (Exited 0, w')"
        "outp v' = outp v @ told" "outp w' = outp w @ answered" "outbox v' = []" "mails w' = mails w @ mail_from w (emailaddr d) (\<lambda>_. ?m) (outbox v)"
      by - (elim exE conjE, rule that, assumption+)
    have one: "mail_from w (emailaddr d) (\<lambda>_. ?m) (outbox v) = [(mail_command w addr, ?m)]"
      unfolding v(1) box using assms(29) by (simp add: mail_from_def)
    show ?thesis
      by (intro exI conjI) (rule r(1), rule r(2), rule r(3), rule r(4), rule r(5), rule r(6) [unfolded one])
  qed
  then show ?thesis using stored by (intro exI [of _ ?u]) blast
qed

text \<open>
  The two stations of the sample: W1AW, whose configuration file serves \<open>mail.wl2k\<close> and \<open>wl2kax25\<close>, and N2QZ.
\<close>

definition receiving_world :: "(u8 list \<Rightarrow> u8 list option) world" where
  "receiving_world = mid_world\<lparr>to_text := sample_text\<rparr>"

lemma sample_stations:
  "ready 60000 (mid_world\<lparr>outbox := es\<rparr>)" "ready 60000 receiving_world" "recording receiving_world" "known receiving_world = {}"
  "sound_cursor receiving_world" "plain_version receiving_world" "recording (mid_world\<lparr>outbox := es\<rparr>)" "sound_cursor (mid_world\<lparr>outbox := es\<rparr>)"
  by (simp_all add: ready_def receiving_world_def mid_world_def line_ok_def plenty_all static_codec_shape recording_def known_def map_dbops_laws)
    (simp_all add: map_dbops_def sound_cursor_def plain_version_def sid_def bytes_def byte_of_def line_char_def)

lemma caller_file_read:
  "\<exists>conflist. conf_read (\<lambda>_. True) caller_file = Some (Inr conflist) \<and> conf_get conflist (bytes ''mycall'') = Some (Some (bytes ''w1aw''))"
proof -
  have "\<exists>conf. conf_read (\<lambda>_. True) caller_file = Some (Inr conf) \<and> (\<forall>name. conf_get conf name = Some (map_of caller_settings name))"
    unfolding caller_file_def
    by (rule conf_read_settings) (simp_all add: caller_settings_def setting_ok_def setting_line_def bytes_def byte_of_def is_space_def plenty_all)
  then show ?thesis using caller_values(1) by auto
qed

theorem mail_delivered_witness:
  "\<exists>u' told answered v' w'. mail_wl2k caller_file two_parts True mid_world = Some (Exited 0, u') \<and>
    ax25_main (sample_stack Connected) no_address (bytes ''user'') caller_file caller_args (Child True [Select_input])
      (mid_world\<lparr>outbox := outbox u', inp := answered\<rparr>) = Some (Exited 0, v') \<and> outbox v' = [] \<and>
    ax25d_main True (bytes ''wl2kax25d'') [] (bytes ''user'') Loadconfig.sample_file daemon_args (receiving_world\<lparr>inp := told\<rparr>) = Some (Exited 0, w') \<and>
    outp v' = told \<and> outp w' = answered \<and>
    mails w' = [(bytes ''sendmail -i n2qz'', bytes ''Hello.'' @ crlf @ [0, 255, 13, 10, 7])]"
proof -
  obtain name w1 where g: "generate_mid (bytes ''w1aw'') True (mid_world\<lparr>timeoutsecs := 60, alarm := 60\<rparr>) = Some (Returned (Some name), w1)"
      "length name = 12"
    using sample_generate_at [of "bytes ''w1aw''" True 60] by (auto simp: bytes_def)
  obtain conflist where c: "conf_read (mem mid_world) caller_file = Some (Inr conflist)"
      "conf_get conflist (bytes ''mycall'') = Some (Some (bytes ''w1aw''))" using caller_file_read by (auto simp: mid_world_def)
  note t = two_parts_text [OF g(2)]
  have text': "to_text receiving_world (mail_calls two_parts name @ [body_call sample_part] @ map file_call ([] @ [Mime_Trip.sample_file])) =
      bytes ''Hello.'' @ crlf @ [0, 255, 13, 10, 7]"
    by (simp add: receiving_world_def mail_calls_def mailbox_calls_def sample_mail_def body_call_def file_call_def sample_part_def Mime_Trip.sample_file_def)
  have len: "length (bytes ''Hello.'' @ crlf @ [0, 255, 13, 10, 7 :: u8]) = 13" by (simp add: bytes_def crlf_def)
  have cmd: "mail_command receiving_world (bytes ''n2qz'') = bytes ''sendmail -i n2qz''"
    by (simp add: mail_command_def receiving_world_def mid_world_def bytes_def byte_of_def)
  have u: "plenty (mem mid_world) 60000" "outbox_ok mid_world" "outbox mid_world = []"
    by (simp_all add: mid_world_def plenty_all)
  have w: "sendmail receiving_world (mail_command receiving_world (bytes ''n2qz'')) t = Mail_ok"
      "granted (mem receiving_world) (length (mail_command receiving_world (bytes ''n2qz'')) + 1)" "mails receiving_world = []"
      "outp receiving_world = []" "outp mid_world = []" for t
    by (simp_all add: cmd, simp_all add: receiving_world_def mid_world_def granted_def bytes_def)
  have box: "outbox_ok (mid_world\<lparr>outbox := es\<rparr>)" "unlinkable (mid_world\<lparr>outbox := es\<rparr>) name" for es
    by (simp_all add: mid_world_def)
  have box': "outbox_ok receiving_world" "outbox receiving_world = []" by (simp_all add: receiving_world_def mid_world_def)
  have m: "convertible two_parts 60000" "plain_mail two_parts" using sample_mail_ok [of 60000] by simp_all
  have call: "\<forall>c \<in> set (bytes ''w1aw''). line_char c \<and> c \<noteq> 32 \<and> c \<noteq> 47" by (simp add: bytes_def byte_of_def line_char_def)
  have none: "\<forall>q \<in> set []. \<not> text_part q" by simp
  have names: "\<forall>q \<in> set ([] @ [Mime_Trip.sample_file]). set (file_name q) \<inter> {0, 10, 13} = {}"
    by (simp add: Mime_Trip.sample_file_def file_name_def bytes_def byte_of_def)
  have size: "length (mail_text two_parts name (date_of two_parts) sample_part ([] @ [Mime_Trip.sample_file])) \<le> 3867" using t(3) by simp
  have room: "creatable mid_world name = Some (1000000, 1000000)" "5000 \<le> (1000000 :: nat)" "5000 \<le> (1000000 :: nat)"
    by (simp_all add: mid_world_def)
  have new: "name \<notin> known receiving_world" by (simp add: sample_stations(4))
  have out: "2 * length (to_text receiving_world (mail_calls two_parts name @ [body_call sample_part] @ map file_call ([] @ [Mime_Trip.sample_file]))) \<le> 60000"
    unfolding text' len by simp
  have greet: "greeting_ok sample_daemon True [bytes ''Welcome'', bytes ''No Traffic'']"
    using sample_p2p(3) by (auto simp: greeting_ok_def lines_of_def text_line_def plain_line_def bytes_def byte_of_def line_char_def strchr_def)
  have air: "reachable (sample_stack Connected) no_address sample_caller" by (subst sample_reachable) (simp_all add: sample_caller_def no_config_def)
  have load: "\<forall>x. \<exists>w1. ax25d_loadconfig (bytes ''wl2kax25d'') [] (bytes ''user'') Loadconfig.sample_file daemon_args (receiving_world\<lparr>inp := x\<rparr>)
      = Some (Returned (True, sample_daemon), w1)"
    by (intro allI sample_daemon_run) (simp add: receiving_world_def mid_world_def)
  have load': "\<forall>x. \<exists>v1. ax25_loadconfig (bytes ''user'') caller_file caller_args (mid_world\<lparr>outbox := es, inp := x\<rparr>) = Some (Returned (True, sample_caller), v1)" for es
    by (intro allI sample_caller_run) (simp add: mid_world_def)
  define X where "X = (\<lambda>u' :: (u8 list \<Rightarrow> u8 list option) world. mid_world\<lparr>outbox := outbox u'\<rparr>)"
  have X: "outbox (X u') = outbox u' \<and> outbox_ok (X u') \<and> unlinkable (X u') name \<and> ready 60000 (X u') \<and> recording (X u') \<and> sound_cursor (X u') \<and>
      plain_version (X u') \<and> (\<forall>x. \<exists>v1. ax25_loadconfig (bytes ''user'') caller_file caller_args ((X u')\<lparr>inp := x\<rparr>) = Some (Returned (True, sample_caller), v1))" for u'
    unfolding X_def by (intro conjI box load' sample_stations sample_p2p(7)) simp
  have arrives: "\<exists>u'. mail_wl2k caller_file two_parts True mid_world = Some (Exited 0, u') \<and> (\<exists>told answered v' w'.
      ax25_main (sample_stack Connected) no_address (bytes ''user'') caller_file caller_args (Child True [Select_input]) ((X u')\<lparr>inp := answered\<rparr>) = Some (Exited 0, v') \<and>
      ax25d_main True (bytes ''wl2kax25d'') [] (bytes ''user'') Loadconfig.sample_file daemon_args (receiving_world\<lparr>inp := told\<rparr>) = Some (Exited 0, w') \<and>
      outp v' = outp (X u') @ told \<and> outp w' = outp receiving_world @ answered \<and> outbox v' = [] \<and>
      mails w' = mails receiving_world @ [(mail_command receiving_world (bytes ''n2qz''),
        to_text receiving_world (mail_calls two_parts name @ [body_call sample_part] @ map file_call ([] @ [Mime_Trip.sample_file])))])"
    using mail_delivered [OF c call m u(1) g(1) eq_refl [OF g(2)] t(1) none t(2) names size u(2,3) room
        sample_stations(2,3) new w(1,2) out box' sample_stations(5,6) sample_p2p(4,6,1,2) greet air load, of "bytes ''user''" caller_file caller_args] X
    by blast
  have "outp (X u') = []" for u' by (simp add: X_def w(5))
  then show ?thesis using arrives unfolding text' cmd w(3,4) by (simp add: X_def) blast
qed

end
