(* ===== verification/Serial.thy ===== *)
theory Serial
  imports Telnet
begin

text \<open>
  A session of \<open>wl2kserial\<close> through a modem: the line is set, the modem is told what it needs, the connection is made and the mail
  exchanged.
\<close>

section \<open>The modem\<close>

lemma says_seq: "says a s \<Longrightarrow> says b t \<Longrightarrow> u = s @ t \<Longrightarrow> says (andthen a (\<lambda>_. b)) u"
  by (simp add: says_then)

lemma says_commands: "says (put_commands ss) (concat (map (\<lambda>s. bytes s @ [13]) ss))"
  by (induction ss) (auto intro: says_seq [OF says_put])

definition setup_text :: "cfg_t \<Rightarrow> u8 list" where
  "setup_text c = bytes ''mycall '' @ the (mycall c) @ [13] @ bytes ''tones 4'' @ [13] @ bytes ''chobell 0'' @ [13] @ bytes ''lfignore 1'' @ [13] @
     (if modem c = SCSMODEM_P4DRAGON then concat (map (\<lambda>s. bytes s @ [13]) dragon_commands) else [])"

lemma says_setup:
  assumes "mycall c = Some my"
  shows "says (modem_setup c) (setup_text c)"
proof -
  have a: "says (put_commands [''tones 4'', ''chobell 0'', ''lfignore 1''])
      (bytes ''tones 4'' @ [13] @ bytes ''chobell 0'' @ [13] @ bytes ''lfignore 1'' @ [13])"
    using says_commands [of "[''tones 4'', ''chobell 0'', ''lfignore 1'']"] by simp
  have b: "says (if modem c = SCSMODEM_P4DRAGON then put_commands dragon_commands else ret ())
      (if modem c = SCSMODEM_P4DRAGON then concat (map (\<lambda>s. bytes s @ [13]) dragon_commands) else [])"
    by (simp add: says_commands)
  have eq: "modem_setup c = andthen (put (bytes ''mycall '' @ my @ [13])) (\<lambda>_. andthen (put_commands [''tones 4'', ''chobell 0'', ''lfignore 1'']) (\<lambda>_.
      if modem c = SCSMODEM_P4DRAGON then put_commands dragon_commands else ret ()))"
    using assms by (simp add: modem_setup_def defined_def del: put_commands.simps)
  show ?thesis unfolding eq by (rule says_seq [OF says_put says_then [OF a b]]) (simp add: setup_text_def assms)
qed

definition hang_up :: "cfg_t \<Rightarrow> u8 list" where
  "hang_up c = (if modem c = SCSMODEM_P4DRAGON then [27] @ bytes ''JHOST0'' @ [13] @ bytes ''D'' @ [13] else [])"

lemma says_disconnect: "modemfp c \<Longrightarrow> says (disconnect c) (hang_up c)"
  by (auto simp: disconnect_def hang_up_def intro: says_seq [OF says_put says_put])

text \<open>What the modem sends up to the connection, and what it is sent.\<close>

definition modem_lines :: "cstr list \<Rightarrow> cstr \<Rightarrow> cstr list \<Rightarrow> cstr \<Rightarrow> u8 list" where
  "modem_lines before ready_line between cmd_line = lines_of (before @ [ready_line]) @ lines_of (between @ [cmd_line])"

definition modem_ok :: "cstr list \<Rightarrow> cstr \<Rightarrow> cstr list \<Rightarrow> cstr \<Rightarrow> bool" where
  "modem_ok before ready_line between cmd_line \<longleftrightarrow>
     (\<forall>l \<in> set (before @ [ready_line] @ between @ [cmd_line]). plain_line l) \<and>
     (\<forall>l \<in> set (before @ between). \<not> modem_prompt l) \<and> modem_prompt ready_line \<and> modem_prompt cmd_line"

definition call_text :: "cfg_t \<Rightarrow> cstr list \<Rightarrow> u8 list" where
  "call_text c before = crlf @ concat (replicate (length before) crlf) @ setup_text c @ bytes ''c '' @ the (targetcall c) @ [13]"

lemma serial_call_done:
  assumes "ready 60000 w" "inp w = modem_lines before ready_line between cmd_line @ rest" "modem_ok before ready_line between cmd_line"
    and "mycall c = Some my" "targetcall c = Some target"
  shows "\<exists>w'. serial_call c w = Some (Returned (), w') \<and> talks w rest (call_text c before) w'"
proof -
  have g: "\<forall>l \<in> set (before @ [ready_line]). plain_line l" "\<forall>l \<in> set (between @ [cmd_line]). plain_line l"
      "\<forall>l \<in> set before. \<not> modem_prompt l" "\<forall>l \<in> set between. \<not> modem_prompt l" "modem_prompt ready_line" "modem_prompt cmd_line"
    using assms(3) by (auto simp: modem_ok_def)
  let ?in = "lines_of (before @ [ready_line]) @ lines_of (between @ [cmd_line]) @ rest"
  obtain w1 where w1: "put crlf w = Some (Returned (), w1)" "talks w ?in crlf w1"
    using says_run [OF says_put assms(1), of ?in crlf] assms(2) by (auto simp: modem_lines_def)
  note r1 = talks_ready [OF w1(2) assms(1)]
  obtain w2 where w2: "await modem_prompt (modem_setup c) (put crlf) w1 = Some (Returned (), w2)"
      "talks w1 (lines_of (between @ [cmd_line]) @ rest) (concat (replicate (length before) crlf) @ setup_text c) w2"
    using await_found [OF r1 talks_fields(1) [OF w1(2)] g(1,3,5) says_setup [OF assms(4)] says_put] by blast
  note r2 = talks_ready [OF w2(2) r1]
  obtain w3 where w3: "await modem_prompt (put (bytes ''c '' @ target @ [13])) (ret ()) w2 = Some (Returned (), w3)"
      "talks w2 rest (bytes ''c '' @ target @ [13]) w3"
    using await_found [OF r2 talks_fields(1) [OF w2(2)] g(2,4,6) says_put says_ret] by auto
  have "andthen (defined (targetcall c)) (\<lambda>call. put (bytes ''c '' @ call @ [13])) = (put (bytes ''c '' @ target @ [13]) :: ('a, unit) io)"
    using assms(5) by (simp add: defined_def)
  then have "serial_call c w = Some (Returned (), w3)"
    using w1(1) w2(1) w3(1) by (simp add: serial_call_def crlf_def andthen_def [of "put _"] andthen_def [of "await _ _ _"])
  then show ?thesis using talks_trans [OF talks_trans [OF w1(2) w2(2)] w3(2)] assms(5) by (auto simp: call_text_def)
qed

section \<open>Properties\<close>


text \<open>A P4dragon on a line that was a terminal; seven messages go out and two come in.\<close>

definition sample_device :: device where
  "sample_device = \<lparr>opens = (\<lambda>_. True), attributes = Some \<lparr>c_iflag = 0x500, c_oflag = 0x5, c_cflag = 0xBD, c_lflag = 0x8A3B, vmin = 4, vtime = 0\<rparr>,
     cfsetspeed = (\<lambda>b t. if b AND CBAUD = b then Some (t\<lparr>c_cflag := c_cflag t AND NOT CBAUD OR b\<rparr>) else None), accepts = (\<lambda>_. True),
     serial_info = Some \<lparr>custom_divisor = 0, serial_flags = 0\<rparr>, accepts_serial = (\<lambda>_. True), stream_ok = True\<rparr>"

lemma sample_speed: "sets_speed sample_device"
proof -
  have "(x AND NOT m OR b) AND m = b" "(x AND NOT m OR b) AND NOT m = x AND NOT m" if "b AND m = b" for x b m :: u32
  proof -
    have "b AND NOT m = 0" by (subst that [symmetric]) (simp add: and.assoc)
    then show "(x AND NOT m OR b) AND m = b" "(x AND NOT m OR b) AND NOT m = x AND NOT m"
      using that by (simp_all add: bit.conj_disj_distrib2 and.assoc)
  qed
  then show ?thesis by (auto simp: sets_speed_def sample_device_def split: if_splits)
qed

lemma sample_line_set: "\<exists>settings. set_line sample_device sample_serial (bytes ''ttyS0'') = (settings, True)"
  by (simp add: set_line_def set_divisor_def sample_device_def sample_serial_def B38400_def CBAUD_def Let_def)

lemma sample_modem: "modem_ok [] (bytes ''cmd: '') [bytes ''OK''] (bytes ''cmd: '')"
  by (simp add: modem_ok_def modem_prompt_def plain_line_def line_char_def bytes_def byte_of_def strstr.simps)


end
