(* ===== verification/Tools.thy ===== *)
theory Tools
  imports Mail_Wl2k Getopt
begin

text \<open>
  The stand-alone programs \<open>lzhuf_1\<close>, \<open>mime2wl\<close> and \<open>wl2mime\<close>, which the build makes of the same sources with a macro: their
  \<open>main\<close> reads a file, calls the function modelled elsewhere and writes the result.  What they print on the error output
  is left out.
\<close>

section \<open>Files\<close>

text \<open>
  The files of the host: their contents, and for a path that can be opened for writing the bytes that fit and whether the last
  \<open>fclose\<close> succeeds.
\<close>

record files =
  stored :: "cstr \<Rightarrow> u8 list option"
  writable :: "cstr \<Rightarrow> (nat \<times> bool) option"

definition file_at :: "files \<Rightarrow> cstr \<Rightarrow> (u8 list \<times> bool) option" where
  "file_at fs name = map_option (\<lambda>c. (c, True)) (stored fs name)"

text \<open>\<open>buffer_writefile(path, buf)\<close> and the exit status that follows; what was written stays also when it fails.\<close>

definition write_and_exit :: "files \<Rightarrow> cstr \<Rightarrow> buffer \<Rightarrow> (int \<times> files) option" where
  "write_and_exit fs name b =
     (case writable fs name of
        None \<Rightarrow> Some (1, fs)
      | Some (space, close_ok) \<Rightarrow>
          do { (r, out, b') \<leftarrow> buffer_writefile True space close_ok b;
               Some (if r \<noteq> 0 then 1 else 0, fs\<lparr>stored := (stored fs)(name \<mapsto> out)\<rparr>) })"

section \<open>lzhuf_1\<close>

definition lzhuf_usage :: "cstr list \<Rightarrow> bool" where
  "lzhuf_usage args \<longleftrightarrow> (case args of
      [cmd, _, _] \<Rightarrow> length cmd < 1 \<or> length cmd > 2 \<or> strchr (bytes ''EeDd'') (cmd ! 0) = None \<or> (length cmd = 2 \<and> cmd ! 1 \<noteq> 49)
    | _ \<Rightarrow> True)"

definition lzhuf_run :: "mem \<Rightarrow> cstr \<Rightarrow> buffer \<Rightarrow> codec \<Rightarrow> (int + buffer option) option" where
  "lzhuf_run al cmd inbuf g =
     (let version_1 = (length cmd = 2) in
      if to_upper (cmd ! 0) = 69 then
        (if version_1 then map_option (\<lambda>(out, _, _). Inr out) (version_1_Encode al inbuf g)
         else map_option (\<lambda>(out, _, _). Inr out) (Encode al inbuf g))
      else
        (if version_1 then map_option (map_sum id fst) (version_1_Decode al inbuf g)
         else map_option (map_sum id fst) (Decode al inbuf g)))"

definition lzhuf_main :: "mem \<Rightarrow> cstr list \<Rightarrow> files \<Rightarrow> codec \<Rightarrow> (int \<times> files) option" where
  "lzhuf_main al args fs g =
     (if lzhuf_usage args then Some (1, fs)
      else
        case buffer_readfile al (file_at fs (args ! 1)) of
          None \<Rightarrow> Some (1, fs)
        | Some inbuf \<Rightarrow>
            do { r \<leftarrow> lzhuf_run al (args ! 0) inbuf g;
                 (case r of
                    Inl n \<Rightarrow> Some (n, fs)
                  | Inr None \<Rightarrow> Some (1, fs)
                  | Inr (Some outbuf) \<Rightarrow> write_and_exit fs (args ! 2) outbuf) })"

section \<open>wl2mime and mime2wl\<close>

text \<open>The loop that prints the buffer; a null pointer is followed.\<close>

fun print_chars :: "u8 list \<Rightarrow> ('d, unit) io" where
  "print_chars [] = ret ()"
| "print_chars (c # cs) = andthen (fprintf [c]) (\<lambda>ok. if ok then print_chars cs else fail)"

definition print_buffer :: "buffer option \<Rightarrow> ('d, unit) io" where
  "print_buffer obuf = andthen (defined (do { b \<leftarrow> obuf; read_all (buffer_rewind b) })) print_chars"

definition wl2mime_main :: "files \<Rightarrow> cstr list \<Rightarrow> ('d, unit) io" where
  "wl2mime_main fs args =
     (case args of
        [name] \<Rightarrow>
          andthen (look (\<lambda>w. buffer_readfile (mem w) (file_at fs name))) (\<lambda>ibuf. case ibuf of
              None \<Rightarrow> fail
            | Some ibuf \<Rightarrow>
                andthen (look (\<lambda>w. wl2mime (mem w) (to_text w) ibuf)) (\<lambda>r. andthen (defined r) (\<lambda>r. case r of
                    Inl n \<Rightarrow> exit n
                  | Inr obuf \<Rightarrow> andthen (print_buffer obuf) (\<lambda>_. exit 0))))
      | _ \<Rightarrow> fail)"

text \<open>
  The mail is the result of the GMime parser for the file, \<open>None\<close> when it cannot be opened.  Without \<open>mycall\<close> the program prints a
  message and goes on with a null pointer.
\<close>

definition mime2wl_main :: "(u8 list \<times> bool) option \<Rightarrow> (cstr \<Rightarrow> message option) \<Rightarrow> cstr list \<Rightarrow> ('d, unit) io" where
  "mime2wl_main conffile mail args =
     (case getopt_long (optstring ''m'') [] args of (es, rest) \<Rightarrow>
        if Unknown \<in> set es \<or> rest = [] then fail
        else
          case mail (rest ! 0) of
            None \<Rightarrow> fail
          | Some msg \<Rightarrow>
              andthen (look (\<lambda>w. conf_read (mem w) conffile)) (\<lambda>r. andthen (defined r) (\<lambda>r. case r of
                  Inl n \<Rightarrow> exit n
                | Inr conf \<Rightarrow>
                    andthen (defined (conf_get conf (bytes ''mycall''))) (\<lambda>call. case call of
                        None \<Rightarrow> undefined_behaviour
                      | Some my \<Rightarrow>
                          andthen (mime2wl msg my (Opt CHR ''m'' \<notin> set es)) (\<lambda>obuf.
                          andthen (print_buffer obuf) (\<lambda>_. exit 0))))))"

section \<open>Lemmas\<close>

lemma writefile_loop_fits:
  assumes "buffer_inv b" "length out + length (unread b) \<le> space"
  shows "\<exists>b'. buffer_writefile_loop space out b = Some (0, out @ unread b, b')"
  using assms
proof (induction "unread b" arbitrary: b out)
  case Nil
  then show ?case using src.get_end [OF Nil.prems(1)] by (simp add: buffer_writefile_loop.simps [of _ _ b])
next
  case (Cons c cs)
  obtain b' where b': "buffer_iterchar b = Some (Some c, b')" "buffer_inv b'" "unread b' = cs"
    using src.get_byte [OF Cons.prems(1) Cons.hyps(2) [symmetric]] by blast
  have fits: "length (out @ [c]) + length (unread b') \<le> space" using Cons.prems(2) b'(3) by (simp flip: Cons.hyps(2))
  from Cons.hyps(1) [OF b'(3) [symmetric] b'(2) fits] obtain b2 where
    "buffer_writefile_loop space (out @ [c]) b' = Some (0, (out @ [c]) @ unread b', b2)" by blast
  then show ?case
    using b'(1,3) Cons.prems(2) by (simp add: buffer_writefile_loop.simps [of _ _ b] flip: Cons.hyps(2))
qed

lemma write_fits:
  assumes "buffer_inv b" "writable fs name = Some (space, True)" "length (contents b) \<le> space"
  shows "write_and_exit fs name b = Some (0, fs\<lparr>stored := (stored fs)(name \<mapsto> contents b)\<rparr>)"
proof -
  have "unread (buffer_rewind b) = contents b" "buffer_inv (buffer_rewind b)" using assms(1) by simp_all
  then obtain b' where "buffer_writefile_loop space [] (buffer_rewind b) = Some (0, contents b, b')"
    using writefile_loop_fits [of "buffer_rewind b" "[]" space] assms(3) by auto
  then show ?thesis using assms(2) by (simp add: write_and_exit_def buffer_writefile_def)
qed

lemma print_chars_run:
  assumes "writes w = None"
  shows "print_chars cs w = Some (Returned (), w\<lparr>outp := outp w @ cs\<rparr>)"
  using assms by (induction cs arbitrary: w) (simp_all add: ret_def andthen_def fprintf_def)

lemma print_buffer_run:
  assumes "buffer_inv b" "writes w = None"
  shows "print_buffer (Some b) w = Some (Returned (), w\<lparr>outp := outp w @ contents b\<rparr>)"
proof -
  have "read_all (buffer_rewind b) = Some (contents b)" using read_all_unread [of "buffer_rewind b"] assms(1) by simp
  then show ?thesis using print_chars_run [OF assms(2)] by (simp add: print_buffer_def defined_def andthen_def ret_def)
qed

text \<open>The commands that encode, and those that decode what they have written.\<close>

definition encodes :: "cstr \<Rightarrow> bool" where
  "encodes cmd \<longleftrightarrow> cmd \<in> bytes ` {''e'', ''E'', ''e1'', ''E1''}"

definition decodes :: "cstr \<Rightarrow> cstr \<Rightarrow> bool" where
  "decodes cmd enc \<longleftrightarrow> cmd \<in> bytes ` {''d'', ''D'', ''d1'', ''D1''} \<and> length cmd = length enc"

lemma command_facts:
  "encodes e \<Longrightarrow> \<not> lzhuf_usage [e, f, g]" "encodes e \<Longrightarrow> to_upper (e ! 0) = 69"
  "decodes d e \<Longrightarrow> \<not> lzhuf_usage [d, f, g]" "decodes d e \<Longrightarrow> to_upper (d ! 0) \<noteq> 69" "decodes d e \<Longrightarrow> length d = length e"
proof -
  have e: "e = [101] \<or> e = [69] \<or> e = [101, 49] \<or> e = [69, 49]" if "encodes e" using that by (auto simp: encodes_def bytes_def byte_of_def)
  have d: "d = [100] \<or> d = [68] \<or> d = [100, 49] \<or> d = [68, 49]" if "decodes d e" using that by (auto simp: decodes_def bytes_def byte_of_def)
  have usage: "\<not> lzhuf_usage [c, f, g]" if "c \<in> {[101], [69], [101, 49], [69, 49], [100], [68], [100, 49], [68, 49]}" for c
    using that by (auto simp: lzhuf_usage_def bytes_def byte_of_def strchr_def)
  show "encodes e \<Longrightarrow> \<not> lzhuf_usage [e, f, g]" "decodes d e \<Longrightarrow> \<not> lzhuf_usage [d, f, g]" using e d usage by blast+
  show "encodes e \<Longrightarrow> to_upper (e ! 0) = 69" using e by (auto simp: to_upper_def is_lower_def)
  have "to_upper 100 = 68" "to_upper 68 = 68" by (simp_all add: to_upper_def is_lower_def)
  then show "decodes d e \<Longrightarrow> to_upper (d ! 0) \<noteq> 69" using d by auto
  show "decodes d e \<Longrightarrow> length d = length e" by (simp add: decodes_def)
qed

lemma lzhuf_run_trip:
  assumes "codec_shape g" and "codec_shape g2" and "length m \<le> 3867" and "buffer_inv inb" and "contents inb = m"
    and "plenty al (12 * length m + 4000)" and "encodes e" and "decodes d e"
  shows "\<exists>packed. lzhuf_run al e inb g = Some (Inr (Some packed)) \<and> buffer_inv packed \<and> length (contents packed) \<le> 4 * length m + 6 \<and>
    (\<forall>inb2. buffer_inv inb2 \<and> unread inb2 = contents packed \<longrightarrow>
      (\<exists>out. lzhuf_run al d inb2 g2 = Some (Inr (Some out)) \<and> buffer_inv out \<and> contents out = m))"
proof -
  have mem: "plenty al (12 * length m + 64)" "plenty al (2 * length m + 4000)" by (rule plenty_le [OF assms(6)], simp)+
  have m: "length m < 2 ^ 31" using assms(3) by simp
  have tree: "huff_inv h" "freq h ! HR = 314" if "StartHuff (hf g) = Some h" for h
    using StartHuff_inv [of "hf g"] that assms(1) by (auto simp: codec_shape_def sizes)
  have start: "StartHuff (hf g) = Some h \<Longrightarrow> StartHuff (hf g2) = Some h" for h
    using StartHuff_unique [of "hf g2" "hf g"] assms(1,2) by (simp add: codec_shape_def)
  note c = command_facts(2) [OF assms(7)] command_facts(4,5) [OF assms(8)]
  show ?thesis
  proof (cases "length e = 2")
    case True
    obtain packed g' inb' h bs where p: "version_1_Encode al inb g = Some (Some packed, g', inb')" "buffer_inv packed"
        "contents packed = crc_low (crc_bytes 0 bs) # crc_high (crc_bytes 0 bs) # bs" "StartHuff (hf g) = Some h" "compressed h m bs"
      using version_1_Encode_written [OF assms(1,3,4,5) mem(1)] by blast
    have "length (contents packed) \<le> 4 * length m + 6"
      using compressed_size [OF p(5) tree [OF p(4)] assms(3)] p(3) by simp
    moreover have "\<exists>out. lzhuf_run al d inb2 g2 = Some (Inr (Some out)) \<and> buffer_inv out \<and> contents out = m"
      if i: "buffer_inv inb2" "unread inb2 = contents packed" for inb2
    proof -
      have u: "unread inb2 = crc_low (crc_bytes 0 bs) # crc_high (crc_bytes 0 bs) # bs" using i(2) p(3) by simp
      obtain out g3 inb3 where "version_1_Decode al inb2 g2 = Some (Inr (Some out, g3, inb3))" "buffer_inv out" "contents out = m"
        using version_1_Decode_compressed [OF assms(2) i(1) u start [OF p(4)] p(5) m mem(2)] by blast
      then show ?thesis using c True by (simp add: lzhuf_run_def)
    qed
    ultimately show ?thesis using p(1,2) c(1) True by (intro exI [of _ packed]) (simp add: lzhuf_run_def)
  next
    case False
    obtain packed g' inb' h where p: "Encode al inb g = Some (Some packed, g', inb')" "buffer_inv packed" "StartHuff (hf g) = Some h"
        "compressed h m (contents packed)"
      using Encode_written [OF assms(1,3,4,5) mem(1)] by blast
    have "length (contents packed) \<le> 4 * length m + 6"
      using compressed_size [OF p(4) tree [OF p(3)] assms(3)] by simp
    moreover have "\<exists>out. lzhuf_run al d inb2 g2 = Some (Inr (Some out)) \<and> buffer_inv out \<and> contents out = m"
      if i: "buffer_inv inb2" "unread inb2 = contents packed" for inb2
    proof -
      have u: "compressed h m (unread inb2)" using i(2) p(4) by simp
      obtain out g3 inb3 where "Decode al inb2 g2 = Some (Inr (Some out, g3, inb3))" "buffer_inv out" "contents out = m"
        using Decode_compressed [OF assms(2) i(1) u start [OF p(3)] m mem(2)] by blast
      then show ?thesis using c False by (simp add: lzhuf_run_def)
    qed
    ultimately show ?thesis using p(1,2) c(1) False by (intro exI [of _ packed]) (simp add: lzhuf_run_def)
  qed
qed

section \<open>Properties\<close>

text \<open>
  C33: \<open>lzhuf_1\<close> restores a file: encoding a file of at most 3867 bytes into a second one, with or without the checksum, and decoding
  that, by another process and in the same mode, into a third gives two exit statuses 0 and a third file with the contents of the first.
\<close>

theorem lzhuf_restores:
  assumes "codec_shape g" and "codec_shape g2" and "encodes e" and "decodes d e"
    and "stored fs f1 = Some m" and "length m \<le> 3867" and "plenty al (12 * length m + 4000)"
    and "writable fs f2 = Some (space2, True)" and "4 * length m + 6 \<le> space2" and "writable fs f3 = Some (space3, True)" and "length m \<le> space3"
  shows "\<exists>fs1 fs2. lzhuf_main al [e, f1, f2] fs g = Some (0, fs1) \<and> lzhuf_main al [d, f2, f3] fs1 g2 = Some (0, fs2) \<and>
    stored fs2 f3 = Some m \<and> (\<forall>f. f \<noteq> f2 \<and> f \<noteq> f3 \<longrightarrow> stored fs2 f = stored fs f)"
proof -
  have "plenty al (2 * length m + 32)" by (rule plenty_le [OF assms(7)]) simp
  then obtain inb where inb: "buffer_readfile al (Some (m, True)) = Some inb" "buffer_inv inb" "contents inb = m" using readfile_plenty by blast
  obtain packed where p: "lzhuf_run al e inb g = Some (Inr (Some packed))" "buffer_inv packed" "length (contents packed) \<le> 4 * length m + 6"
      "\<forall>inb2. buffer_inv inb2 \<and> unread inb2 = contents packed \<longrightarrow>
        (\<exists>out. lzhuf_run al d inb2 g2 = Some (Inr (Some out)) \<and> buffer_inv out \<and> contents out = m)"
    using lzhuf_run_trip [OF assms(1,2,6) inb(2,3) assms(7,3,4)] by blast
  let ?fs1 = "fs\<lparr>stored := (stored fs)(f2 \<mapsto> contents packed)\<rparr>"
  let ?fs2 = "fs\<lparr>stored := (stored fs)(f2 \<mapsto> contents packed, f3 \<mapsto> m)\<rparr>"
  have e: "lzhuf_main al [e, f1, f2] fs g = Some (0, ?fs1)"
    using command_facts(1) [OF assms(3)] inb(1) p(1) assms(5) write_fits [OF p(2) assms(8)] p(3) assms(9)
    by (simp add: lzhuf_main_def file_at_def)
  have "plenty al (2 * length (contents packed) + 32)" by (rule plenty_le [OF assms(7)]) (use p(3) in simp)
  then obtain inb2 where i2: "buffer_readfile al (Some (contents packed, True)) = Some inb2" "buffer_inv inb2" "contents inb2 = contents packed" "bpos inb2 = 0"
    using readfile_plenty by blast
  then have "unread inb2 = contents packed" by (simp add: unread_def)
  with p(4) i2(2) obtain out where out: "lzhuf_run al d inb2 g2 = Some (Inr (Some out))" "buffer_inv out" "contents out = m" by blast
  have "writable ?fs1 f3 = Some (space3, True)" using assms(10) by simp
  from write_fits [OF out(2) this] out(3) assms(11) have "write_and_exit ?fs1 f3 out = Some (0, ?fs2)" by simp
  then have "lzhuf_main al [d, f2, f3] ?fs1 g2 = Some (0, ?fs2)"
    using command_facts(3) [OF assms(4)] i2(1) out(1) by (simp add: lzhuf_main_def file_at_def)
  with e show ?thesis by (intro exI [of _ ?fs1] exI [of _ ?fs2]) simp
qed

definition sample_files :: files where
  "sample_files = \<lparr>stored = [bytes ''a'' \<mapsto> bytes ''ab''], writable = (\<lambda>_. Some (1000, True))\<rparr>"

theorem lzhuf_restores_witness:
  "\<exists>fs1 fs2. lzhuf_main (\<lambda>_. True) [bytes ''e1'', bytes ''a'', bytes ''b''] sample_files static_codec = Some (0, fs1) \<and>
    lzhuf_main (\<lambda>_. True) [bytes ''D1'', bytes ''b'', bytes ''c''] fs1 static_codec = Some (0, fs2) \<and> stored fs2 (bytes ''c'') = Some (bytes ''ab'')"
proof -
  have "encodes (bytes ''e1'')" "decodes (bytes ''D1'') (bytes ''e1'')" by (simp_all add: encodes_def decodes_def bytes_def)
  moreover have "stored sample_files (bytes ''a'') = Some (bytes ''ab'')" "length (bytes ''ab'') = 2" by (simp_all add: sample_files_def bytes_def)
  ultimately show ?thesis
    using lzhuf_restores [OF static_codec_shape static_codec_shape, of "bytes ''e1''" "bytes ''D1''" sample_files "bytes ''a''" "bytes ''ab''" "\<lambda>_. True"
        "bytes ''b''" 1000 "bytes ''c''" 1000] plenty_all
    by (auto simp: sample_files_def)
qed



end
