(* ===== verification/Compat.thy ===== *)
theory Compat
  imports Strutil
begin

text \<open>
  The functions of lib that replace those of the C library where the system lacks them, \<open>vasprintf\<close>, \<open>asprintf\<close> and
  \<open>getprogname\<close> (\<open>strlcpy\<close> is in Strutil), and \<open>print_log\<close> of printlog.c, which is built on the first.
\<close>

section \<open>vasprintf.c\<close>

text \<open>
  \<open>vsnprintf\<close> for the text that format and arguments make, \<open>None\<close> when they make none: the value is the length of the text, or,
  before C99, \<open>-1\<close> for a text that does not fit.
\<close>

definition vsnprintf :: "bool \<Rightarrow> nat \<Rightarrow> cstr option \<Rightarrow> int \<times> cstr" where
  "vsnprintf c99 n text = (case text of
     None \<Rightarrow> (-1, [])
   | Some s \<Rightarrow> (if length s < 2 ^ 31 \<and> (length s < n \<or> c99) then int (length s) else -1, take (n - 1) s))"

definition CHUNKSIZE :: int where "CHUNKSIZE = 512"

text \<open>The product of two \<open>int\<close>s as a \<open>size_t\<close>.\<close>

definition chunk_bytes :: "int \<Rightarrow> nat option" where
  "chunk_bytes chunks = (if chunks * CHUNKSIZE < 2 ^ 31 then Some (nat (chunks * CHUNKSIZE)) else None)"

text \<open>
  The loop on \<open>chunks\<close>, \<open>buflen\<close> and whether \<open>ap\<close> has been given to \<open>vsnprintf\<close> before.  After that its value is indeterminate by the
  standard; \<open>again\<close> is true for a system where the list can be read a second time all the same.
\<close>

definition vasprintf_step :: "mem \<Rightarrow> bool \<Rightarrow> bool \<Rightarrow> cstr option \<Rightarrow> int \<times> nat \<times> bool \<Rightarrow> (int \<times> nat \<times> bool + int \<times> cstr option) option" where
  "vasprintf_step al c99 again text = (\<lambda>(chunks, buflen, used).
     if \<not> granted al buflen then Some (Inr (-1, None))
     else if used \<and> \<not> again then None
     else case vsnprintf c99 buflen text of (len, buf) \<Rightarrow>
       if 0 \<le> len \<and> nat len < buflen - 1 then Some (Inr (len, Some buf))
       else do { buflen \<leftarrow> chunk_bytes (chunks + 1);
                 if 0 \<le> len \<and> buflen \<le> nat len
                 then (if len + 1 < 2 ^ 31 then Some (Inl (chunks + 1, nat (len + 1), True)) else None)
                 else Some (Inl (chunks + 1, buflen, True)) })"

definition vasprintf :: "mem \<Rightarrow> bool \<Rightarrow> bool \<Rightarrow> cstr \<Rightarrow> cstr option \<Rightarrow> (int \<times> cstr option) option" where
  "vasprintf al c99 again fmt text =
     (let chunks = int ((length fmt + 1) div nat CHUNKSIZE) + 1 in
      do { buflen \<leftarrow> chunk_bytes chunks;
           loop (vasprintf_step al c99 again text) (chunks, buflen, False) })"

section \<open>asprintf.c and getprogname.c\<close>

definition asprintf :: "mem \<Rightarrow> bool \<Rightarrow> bool \<Rightarrow> cstr \<Rightarrow> cstr option \<Rightarrow> (int \<times> cstr option) option" where
  "asprintf = vasprintf"

text \<open>The name from whichever of the variables the system has.\<close>

definition getprogname :: "cstr option \<Rightarrow> cstr option \<Rightarrow> cstr option \<Rightarrow> cstr" where
  "getprogname progname argv0 argv0' = (case (progname, argv0, argv0') of
     (Some s, _, _) \<Rightarrow> s
   | (None, Some s, _) \<Rightarrow> s
   | (None, None, Some s) \<Rightarrow> s
   | (None, None, None) \<Rightarrow> bytes ''(unknown program)'')"

section \<open>printlog.c\<close>

definition LOG_ERR :: int where "LOG_ERR = 3"
definition LOG_DEBUG :: int where "LOG_DEBUG = 7"
definition LOG_DEBUG_VERBOSE :: int where "LOG_DEBUG_VERBOSE = LOG_DEBUG + 1"

datatype entry = Syslog int cstr | Stderr cstr

text \<open>The daemon writes to the system log, the other programs to the standard error; \<open>err\<close> is the text of \<open>errno\<close>.\<close>

definition print_log :: "mem \<Rightarrow> bool \<Rightarrow> bool \<Rightarrow> bool \<Rightarrow> bool \<Rightarrow> cstr \<Rightarrow> cstr \<Rightarrow> int \<Rightarrow> cstr \<Rightarrow> cstr option \<Rightarrow> entry list option" where
  "print_log al c99 again daemon verbose progname err priority fmt text =
     (if priority = LOG_DEBUG_VERBOSE \<and> \<not> verbose then Some []
      else
        let priority = (if priority = LOG_DEBUG_VERBOSE then LOG_DEBUG else priority) in
        do { (r, sp) \<leftarrow> vasprintf al c99 again fmt text;
             if r < 0 then Some [Syslog LOG_ERR (bytes ''vasprintf() - '' @ err)]
             else do { s \<leftarrow> sp;
                       Some [if daemon then Syslog priority s else Stderr (progname @ bytes '': '' @ s @ [10])] } })"

section \<open>Lemmas\<close>

definition first_buflen :: "cstr \<Rightarrow> nat" where
  "first_buflen fmt = 512 * ((length fmt + 1) div 512 + 1)"

lemma first_buflen_bound: "length fmt < first_buflen fmt" "first_buflen fmt \<le> length fmt + 513"
  by (simp_all add: first_buflen_def)

lemma vasprintf_start:
  "length fmt + 513 < 2 ^ 31 \<Longrightarrow> vasprintf al c99 again fmt text =
    loop (vasprintf_step al c99 again text) (int ((length fmt + 1) div 512) + 1, first_buflen fmt, False)"
proof -
  assume l: "length fmt + 513 < 2 ^ 31"
  define q where "q = (length fmt + 1) div 512"
  have "512 * (q + 1) \<le> length fmt + 513" using first_buflen_bound(2) [of fmt] by (simp add: first_buflen_def q_def)
  then have "chunk_bytes (int q + 1) = Some (512 * (q + 1))" using l by (simp add: chunk_bytes_def CHUNKSIZE_def nat_eq_iff)
  then show ?thesis by (simp add: vasprintf_def Let_def first_buflen_def CHUNKSIZE_def q_def)
qed

text \<open>The state with \<open>k\<close> chunks: the buffer has them, or, with the length known, the text and its NUL, for which there is no room either.\<close>

definition growing :: "nat \<Rightarrow> nat \<Rightarrow> bool \<Rightarrow> int \<times> nat \<times> bool \<Rightarrow> bool" where
  "growing L B again = (\<lambda>(chunks, buflen, used). \<exists>k. chunks = int k \<and> 0 < k \<and> 512 * k \<le> buflen \<and> (buflen = 512 * k \<or> buflen = L + 1) \<and>
     buflen \<le> B \<and> (used \<longrightarrow> again))"

lemma growing_step:
  assumes "growing (length text) B again s" and "plenty al B" and "length text + 513 \<le> B" and "B < 2 ^ 31"
    and "again \<or> length text + 1 < fst (snd s)"
  shows "(\<exists>s'. vasprintf_step al c99 again (Some text) s = Some (Inl s') \<and> growing (length text) B again s' \<and>
      length text + 2 - nat (512 * fst s') < length text + 2 - nat (512 * fst s) \<and> again) \<or>
    (\<exists>r. vasprintf_step al c99 again (Some text) s = Some (Inr r) \<and> r = (int (length text), Some text))"
proof -
  obtain k buflen used where s: "s = (int k, buflen, used)" "0 < k" "512 * k \<le> buflen" "buflen = 512 * k \<or> buflen = length text + 1"
      "buflen \<le> B" "used \<longrightarrow> again"
    using assms(1) by (auto simp: growing_def)
  have g: "granted al buflen" using plenty_granted [OF assms(2) s(5)] .
  show ?thesis
  proof (cases "length text < buflen - 1")
    case True
    then show ?thesis using g s(1,6) assms(3,4) by (auto simp: vasprintf_step_def vsnprintf_def)
  next
    case False
    then have again: "again" and L: "512 * k \<le> length text + 1" using assms(5) s(1,3) by auto
    have next_bytes: "chunk_bytes (int k + 1) = Some (512 * k + 512)"
      using L assms(3,4) by (simp add: chunk_bytes_def CHUNKSIZE_def nat_eq_iff)
    let ?next = "\<lambda>b. (int k + 1, b, True)"
    have "\<exists>b. vasprintf_step al c99 again (Some text) s = Some (Inl (?next b)) \<and> 512 * (k + 1) \<le> b \<and> (b = 512 * (k + 1) \<or> b = length text + 1) \<and> b \<le> B"
      using g False again L assms(3,4) s(1,3) next_bytes
      by (auto simp: vasprintf_step_def vsnprintf_def nat_add_distrib)
    then obtain b where b: "vasprintf_step al c99 again (Some text) s = Some (Inl (?next b))" "512 * (k + 1) \<le> b"
        "b = 512 * (k + 1) \<or> b = length text + 1" "b \<le> B" by blast
    then have "growing (length text) B again (?next b)"
      using again by (auto simp: growing_def intro!: exI [of _ "k + 1"])
    then show ?thesis using b(1) again L s(1) by (auto simp: nat_add_distrib)
  qed
qed

lemma print_log_entry:
  assumes "vasprintf al c99 again fmt text = Some (r, Some s)" and "0 \<le> r" and "priority \<le> LOG_DEBUG_VERBOSE"
  shows "print_log al c99 again daemon verbose progname err priority fmt text = Some
    (if priority = LOG_DEBUG_VERBOSE \<and> \<not> verbose then []
     else if daemon then [Syslog (min priority LOG_DEBUG) s] else [Stderr (progname @ bytes '': '' @ s @ [10])])"
  using assms by (auto simp: print_log_def LOG_DEBUG_VERBOSE_def LOG_DEBUG_def Let_def)

section \<open>Properties\<close>

text \<open>
  C35: \<open>vasprintf\<close> ends and gives the whole text with its length, for every text below two gigabytes, with a \<open>vsnprintf\<close> of either kind and
  whatever the length of the format was, when the memory suffices and either the text is at least two bytes shorter than the first
  buffer or the argument list can be read again.
\<close>

theorem vasprintf_whole:
  assumes "plenty al (max (length fmt) (length text) + 513)" and "max (length fmt) (length text) + 513 < 2 ^ 31"
    and "again \<or> length text + 1 < first_buflen fmt"
  shows "vasprintf al c99 again fmt (Some text) = Some (int (length text), Some text)"
proof -
  let ?B = "max (length fmt) (length text) + 513" and ?s = "(int ((length fmt + 1) div 512) + 1, first_buflen fmt, False)"
  have start: "growing (length text) ?B again ?s"
    using first_buflen_bound(2) [of fmt]
    by (auto simp: growing_def first_buflen_def intro!: exI [of _ "(length fmt + 1) div 512 + 1"])
  have B: "length text + 513 \<le> ?B" by simp
  have "vasprintf al c99 again fmt (Some text) = loop (vasprintf_step al c99 again (Some text)) ?s"
    using assms(2) by (intro vasprintf_start) simp
  moreover have "\<exists>r. loop (vasprintf_step al c99 again (Some text)) ?s = Some r \<and> r = (int (length text), Some text)"
  proof (rule loop_total [where I = "\<lambda>s. growing (length text) ?B again s \<and> (again \<or> length text + 1 < fst (snd s))"
        and m = "\<lambda>s. length text + 2 - nat (512 * fst s)"], goal_cases)
    case 1
    then show ?case using start assms(3) by simp
  next
    case (2 s)
    then show ?case using growing_step [OF _ assms(1) B assms(2), of again s c99] by blast
  qed
  ultimately show ?thesis by simp
qed

theorem vasprintf_whole_witness:
  "vasprintf (\<lambda>_. True) False True (bytes ''%s'') (Some (replicate 5000 97)) = Some (5000, Some (replicate 5000 97))"
  using vasprintf_whole [of "\<lambda>_. True" "bytes ''%s''" "replicate 5000 97" True False] by (simp add: plenty_all bytes_def)

text \<open>
  C36: A text that is not at least two bytes shorter than the first buffer, at least 512 bytes and more than the format, is undefined
  behaviour: the loop gives \<open>vsnprintf\<close> the argument list it has given it before.
\<close>

theorem vasprintf_long_undefined:
  assumes "plenty al (max (length fmt) (length text) + 2048)" and "max (length fmt) (length text) + 2048 < 2 ^ 31"
    and "first_buflen fmt \<le> length text + 1"
  shows "vasprintf al c99 False fmt (Some text) = None"
proof -
  define k where "k = (length fmt + 1) div 512 + 1"
  have f: "first_buflen fmt = 512 * k" "0 < k" "512 * k \<le> length fmt + 513"
    using first_buflen_bound(2) [of fmt] by (simp_all add: first_buflen_def k_def)
  have bytes: "chunk_bytes (int k + 1) = Some (512 * k + 512)"
    using f(3) assms(2) by (simp add: chunk_bytes_def CHUNKSIZE_def nat_eq_iff)
  have g: "granted al n" if "n \<le> max (length fmt) (length text) + 2048" for n using plenty_granted [OF assms(1) that] .
  have "granted al (512 * k)" "granted al (512 * k + 512)" "granted al (length text + 1)" using f(3) by (auto intro: g)
  moreover have "\<not> length text < 512 * k - 1" "length text < 2 ^ 31" using assms(2,3) f(1,2) by auto
  ultimately have "\<exists>b. vasprintf_step al c99 False (Some text) (int k, 512 * k, False) = Some (Inl (int k + 1, b, True)) \<and> granted al b"
    using bytes assms(2) by (cases "length text < 512 * k \<or> c99") (auto simp: vasprintf_step_def vsnprintf_def nat_add_distrib)
  then obtain b where b: "vasprintf_step al c99 False (Some text) (int k, 512 * k, False) = Some (Inl (int k + 1, b, True))" "granted al b"
    by blast
  have "vasprintf_step al c99 False (Some text) (int k + 1, b, True) = None" using b(2) by (simp add: vasprintf_step_def)
  then have "loop (vasprintf_step al c99 False (Some text)) (int k, 512 * k, False) = None"
    using loop_next [of "vasprintf_step al c99 False (Some text)", OF b(1)] by (simp add: loop.simps)
  moreover have "vasprintf al c99 False fmt (Some text) = loop (vasprintf_step al c99 False (Some text)) (int k, 512 * k, False)"
    using vasprintf_start [of fmt] assms(2) by (simp add: f(1) k_def algebra_simps)
  ultimately show ?thesis by simp
qed

theorem vasprintf_long_undefined_witness:
  "vasprintf (\<lambda>_. True) True False (bytes ''%s'') (Some (replicate 511 97)) = None"
  using vasprintf_long_undefined [of "\<lambda>_. True" "bytes ''%s''" "replicate 511 97" True] by (simp add: plenty_all bytes_def first_buflen_def)

end
