(* ===== verification/Spec2Isabelle.thy ===== *)
theory Spec2Isabelle
  imports Journey Serial P2p Tools Compat
begin

text \<open>
  A verification library for paclink-unix, the programs that carry mail between a Unix host and the Winlink radio
  mail system.

  THE PROGRAM.  A user's mail program hands a mail to \<open>mail.wl2k\<close> (mail.wl2k.c).  It converts the MIME mail to a
  Winlink message (mime2wl.c), names it with a fresh message id (mid.c, md5.c) and writes it as a file into the outbox
  directory.  One of the programs \<open>wl2ktelnet\<close>, \<open>wl2kserial\<close> and \<open>wl2kax25\<close> later calls a
  Winlink server or another station, or \<open>wl2kax25d\<close> is called by one: each reads its configuration (conf.c, the
  options, its \<open>loadconfig\<close>), opens its connection, passes the dialogue of modem or login, and runs the B2F exchange
  of wl2k.c.  In the exchange the sides identify themselves (with the secure login of md5.c where it is asked for), offer
  the messages of their outboxes in batches of five proposals, answer those of the other side after a look into the
  database of ids, and transfer the accepted messages, compressed by lzhuf_1.c, in framed blocks with a checksum.  A
  received message is converted to MIME (wl2mime.c) and piped into sendmail; what has been sent is deleted from the
  outbox.  Every text passes through the growable buffers of buffer.c; timeout.c ends a process that waits too long.

  HOW IT IS MODELLED.  A function of the C code is a definition with its name wherever the name is free; a \<open>struct\<close>
  is a record with its members, the static variables of a file are the fields of a record that is passed and returned.
  Integers have the width of the code as words, where the code relies on wrap-around or the width matters; pointers into
  an array are the array and an index.  A C string is the list of its bytes before the NUL.  A value the C code returns to
  signal an error is a value of the model (\<open>None\<close> for \<open>NULL\<close>), a call of \<open>exit\<close> is the outcome
  \<open>Exited\<close>, or \<open>Inl\<close> in the files without a process, with its status.  Undefined behaviour (an index out of
  range, a null pointer followed, a byte read that was never written, a structure used after it is freed) and a loop that
  does not end are the value \<open>None\<close> of an outer option.  No fuel is used: a loop that is not structural is the
  combinator \<open>loop\<close> of Prelude, a \<open>partial_function\<close>, and a theorem that a function gives \<open>Some\<close> says that it
  ends without undefined behaviour.  Memory is a predicate on the sizes of the requests that are granted; a theorem for
  programs that must not run out of memory takes \<open>plenty mem n\<close>, that every request up to \<open>n\<close> bytes is granted.

  The code above the codec is in the type \<open>io\<close> of Process: a function from the state of the process, the record
  \<open>world\<close>, to an outcome and the next state.  A world has what the peer still sends (\<open>inp\<close>), what has been
  sent, the outbox, the database of ids, the mails given to sendmail, the alarm, and the static variables of wl2k.c
  and lzhuf_1.c.  As the properties hold for all inputs, they hold for every peer.

  What is not under src is a parameter or a field of the world: the operations of Berkeley DB (\<open>dbops\<close>, with
  the laws \<open>db_laws\<close> of get, put and del), GMime 2 (a parsed mail is the record \<open>message\<close>; a mail that is built
  is the list of calls, turned into text by the parameter \<open>to_text\<close>), sendmail (does it start, its exit status), the
  sockets (\<open>net\<close>), the kernel's side of the serial line (\<open>device\<close>, with the law \<open>sets_speed\<close> of cfsetspeed), libax25 and the
  AX.25 sockets (\<open>ax25_stack\<close>), \<open>fork\<close> (\<open>forked\<close>), the files of the stand-alone tools (\<open>files\<close>).  The C library is modelled as far as it is used: string
  functions, \<open>strtol\<close>, GNU \<open>getopt_long\<close>, \<open>gmtime\<close>,
  \<open>mktime\<close>, \<open>strftime\<close> and \<open>strptime\<close>, stdio output that can fail from any call on.  The locale is C, the
  time zone of the conversions is UTC, the machine is little-endian with \<open>long\<close> of 64 bits.

  THE THEORIES, from the bottom up, and what their lemmas show.

    \<^item> Prelude: machine types, checked array access, the loop combinator with its rules, lists and words.  The locales
      \<open>byte_sink\<close> and \<open>byte_source\<close> are what the codec asks of a buffer.
    \<^item> Buffer (buffer.c): the abstraction \<open>contents\<close>, the invariant, and the effect of each operation on it,
      refused allocations included.  The buffers interpret the two locales.
    \<^item> Strutil (strutil.c, lib/strlcpy.c): strings, and the functions of the C library on them.
    \<^item> Compat (lib/vasprintf.c, lib/asprintf.c, lib/getprogname.c, printlog.c): the replacements for systems without these
      functions, with the growing buffer of \<open>vasprintf\<close>, and the log message.
    \<^item> Lzhuf_Tables, Lzhuf_Bits, Lzhuf_Huff, Lzhuf_Codes, Lzhuf_Tree, Lzhuf (lzhuf_1.c): the constant tables; the CRC and
      the bits; the adaptive Huffman tree with its invariant \<open>huff_tree\<close>, kept by \<open>StartHuff\<close>, \<open>reconst\<close> and
      \<open>update\<close>; the codes of characters and positions; the binary search trees that find matches; \<open>Encode\<close> and
      \<open>Decode\<close>.  \<open>Decode\<close> is safe on every input.  The round trip holds for texts of at most 3867 bytes: the code
      word of a character is kept in 16 bits, and a tree can only be deep enough to need a 17th when the frequency of its
      root, 314 at the start and one more for each code sent, has reached 4181.
    \<^item> Md5 (md5.c, md5_loc.h): the digest is the one of RFC 1321, written as its own definition, for a message in one
      piece and in any pieces.
    \<^item> Conf (conf.c, conf.h): the parser of the configuration file, and the record of settings.
    \<^item> Calendar, Wl2mime (wl2mime.c): dates in both directions, with termination and their inverse laws; the reader of the
      header and the parts of a Winlink message.
    \<^item> Process (timeout.c): the world and its operations.  The locale \<open>run_relation\<close> is a reflexive and transitive
      relation of states that every step of a program keeps; its rules prove such facts of whole programs by their
      structure.  It is interpreted for silence and for the result (Process), for the stored ids (Mid) and for
      the whole state (Drivers).
    \<^item> Mid (mid.c): recording, checking, expiring and generating ids.
    \<^item> Mime2wl, Mime_Trip (mime2wl.c): the writer of Winlink messages, and the round trip with the reader.
    \<^item> Mail_Wl2k (mail.wl2k.c): the whole program, and the file it leaves.
    \<^item> Wl2k_Frame, Wl2k_Proposal, Wl2k_Session (wl2k.c): the transfer of one message; the outbox as proposals, their
      lines and answers; login, handshakes, the parser of the other side's commands and the exchanges.
    \<^item> Delivery, Dialogue, Outbox, Journey: two stations.  The transcript of each side is what it reads and what it writes, so
      two sides fit when each reads what the other writes.  Delivery has the turn of one side: a batch is offered, answered and
      received.  Dialogue lets the sides take turns when both have messages, in any number of batches, by induction on what
      is left.  Outbox goes from the files to the proposals and back: every file of a station becomes a proposal, and all are
      gone after the session; a file that is not for the caller ends the preparation.  Its \<open>answering_session\<close> is the called
      side as far as messages go, which the results on servers assume of them.  Journey follows a mail of at most 3867 bytes from
      \<open>mail.wl2k\<close> over a run of wl2kax25 and one of wl2kax25d, handshake included, to the other side's sendmail.
    \<^item> Getopt, Loadconfig (\<open>loadconfig\<close> of wl2ktelnet.c, wl2kserial.c, wl2kax25.c, wl2kax25d.c): options, defaults,
      the file and the checks, one definition per program.
    \<^item> Serial_Line (wl2kserial.c): the attributes of the line and the divisor, as bits; what they are whatever they were.
    \<^item> Drivers (the same files): the dialogues, and \<open>main\<close> of the programs; that reading the configuration changes nothing else.
    \<^item> Relay (wl2kax25.c): the parent process that copies bytes between the radio and the child.  That the loop
      goes on is proved from the condition that each write takes at least one byte.
    \<^item> Ax25 (wl2kax25.c): \<open>main\<close> of the caller: the way to the connection, the fork, parent and child.
    \<^item> Telnet (wl2ktelnet.c): a run from the command line to the exit status, on top of all the others, with the
      secure login where the server sends a challenge; both sides have messages.
    \<^item> Serial (wl2kserial.c): the same through a modem, with the line transparent from the first byte on.
    \<^item> P2p (wl2kax25.c, wl2kax25d.c): a run of the caller and one of the daemon, each reading what the other writes, with
      messages of both; and what a caller meets that the daemon does not recognise, whose call begins with FF, or for whom not
      all messages of the daemon are.
    \<^item> Tools (lzhuf_1.c, mime2wl.c, wl2mime.c): the stand-alone programs made of the same sources.

  THE CONDITIONS OF THE RESULTS ON SESSIONS.  \<open>box_ok\<close>: a file of an outbox has a name of at most 12 plain characters (as ids are),
  holds at most 3867 bytes (the bound of the codec's round trip), can be read and can be removed.  \<open>wants\<close>: the receiver does not have the ids
  yet, \<open>wl2mime\<close> converts each message, sendmail takes it.  \<open>qualifies\<close>: what a called station holds is for its caller; what
  happens otherwise is a property of its own.  \<open>recording\<close>, \<open>sound_cursor\<close>: the database of ids opens, stores and lists entries
  of eight bytes.  \<open>first_words_ok\<close>, \<open>greeting_ok\<close>, \<open>calls_fit\<close>: the lines of the dialogue before the messages.  Of
  \<open>select\<close>, which the caller waits with for the first answer, the results take one call that reports input; of what
  other results of it do, the code is modelled (\<open>wl2k_wait_for_response\<close>).

  The constant 60000 with \<open>plenty\<close> in the results on whole sessions is a bound of the requests for a message
  of the size above: the buffers double, the compressed text is at most four times as long and six bytes.

  ERRORS OF THE CODE.  Some properties state what the code does where that is hardly meant: a deferred message that is
  sent and deleted, a database that cannot be opened and refuses every message, an offset that is never read, undefined
  behaviour on an empty line, a prompt or the identification of a caller with an SSID, a mail with a file and without a text,
  a retry that rewinds a pointer, a caller whose call begins with FF and never gets its mail, a daemon that uses a freed structure
  whenever a message in its outbox is not for the caller.  They are
  proved of the same definitions as the others.

  NOT MODELLED.
    \<^item> wl2kd.c is an older copy of wl2k.c that Makefile.am does not build.
    \<^item> The log messages of the programs, the progress and help texts on a terminal, \<open>dump_hex\<close> and \<open>printprop\<close> only print.
      What wl2kax25d prints goes to the peer, and is modelled.
    \<^item> The branch of \<open>vasprintf\<close> for systems without \<open>vsnprintf\<close>.  The programs are modelled with the \<open>asprintf\<close> of the C library.
    \<^item> The last wait of wl2kax25 for the peer to disconnect, at most six seconds, changes nothing but the time.
    \<^item> Scripts, the web application and the documents are not C code.
    \<^item> In \<open>Decode\<close> the shift of the fourth length byte into the sign bit of an \<open>int\<close>, which the standard leaves undefined, is taken as the
      wrap-around that gcc defines.  The status of the database's \<open>del\<close> is not looked at by the code and left out.  That a
      file of the outbox cannot be opened, with which the program ends, is left out: the files of the model can be read.
    \<^item> Timing: the alarm is the end of the input, with a flag whether it was set; nothing is said of when.
\<close>

end
